(* ===== verification/Prelude.thy ===== *)
theory Prelude
  imports Main "HOL-Library.Word" "HOL-Library.Monad_Syntax"
begin

text \<open>
  Shared vocabulary of the MatteOS development: the fixed-width integer types of
  \<^verbatim>\<open>Utils/Types.h\<close>, the faults a C++ operation of the kernel can run into, the
  \<^verbatim>\<open>ErrorOr\<close> sum used for recoverable errors, counting loops over machine words, and
  little-endian byte encodings.  The named collections gather the rewrite rules the
  component theories share.
\<close>

unbundle bit_operations_syntax

section \<open>Machine types\<close>

type_synonym u8 = "8 word"
type_synonym u16 = "16 word"
type_synonym u32 = "32 word"
type_synonym u64 = "64 word"
type_synonym size_t = "64 word"

named_theorems word_arith_simps \<open>unsigned arithmetic that does not wrap around\<close>
named_theorems fault_simps \<open>propagation of faults and errors\<close>
named_theorems byte_simps \<open>encoding and decoding of byte sequences\<close>

section \<open>Faults and recoverable errors\<close>

text \<open>
  A fault is what the C++ code does when it leaves the behaviour its authors intended: it
  dereferences a null pointer, reads or writes outside an object, uses storage that holds
  no object (never constructed, or already destroyed), runs off the end of a function that
  must return a value, divides by zero, overflows a signed integer, casts an object to a class it is
  not of and uses it, or fails a
  \<^verbatim>\<open>runtime_assert\<close> (which reports the message and parks the hart).  A result of type
  \<^verbatim>\<open>'a exec\<close> is either such a fault or the value the operation returns.
\<close>

datatype fault = NullDeref | OutOfBounds | Uninitialised | MissingReturn | DivideByZero | IntegerOverflow | BadCast | AssertFailed string

type_synonym 'a exec = "fault + 'a"

definition exec_bind :: "'e + 'a \<Rightarrow> ('a \<Rightarrow> 'e + 'b) \<Rightarrow> 'e + 'b" where
  "exec_bind r f = (case r of Inl e \<Rightarrow> Inl e | Inr x \<Rightarrow> f x)"

lemma exec_bind_simps [simp, fault_simps]:
  "exec_bind (Inl e) f = Inl e"
  "exec_bind (Inr x) f = f x"
  by (simp_all add: exec_bind_def)

lemma exec_bind_eq_Inr [fault_simps]:
  "exec_bind r f = Inr y \<longleftrightarrow> (\<exists>x. r = Inr x \<and> f x = Inr y)"
  by (cases r) auto

lemma exec_bind_eq_Inl [fault_simps]:
  "exec_bind r f = Inl e \<longleftrightarrow> r = Inl e \<or> (\<exists>x. r = Inr x \<and> f x = Inl e)"
  by (cases r) auto

lemma exec_bind_assoc [fault_simps]:
  "exec_bind (exec_bind r f) g = exec_bind r (\<lambda>x. exec_bind (f x) g)"
  by (cases r) auto

section \<open>Unsigned words without wrap-around\<close>

lemma unat_add_no_wrap [word_arith_simps]:
  fixes a b :: "'a::len word"
  assumes "unat a + unat b < 2 ^ LENGTH('a)"
  shows "unat (a + b) = unat a + unat b"
  using assms by (simp add: unat_word_ariths)

lemma unat_Suc_less:
  fixes i e :: "'a::len word"
  assumes "i < e"
  shows "unat (i + 1) = Suc (unat i)"
proof -
  have "unat i < unat e" using assms by (simp add: word_less_nat_alt)
  also have "unat e < 2 ^ LENGTH('a)" by (rule unsigned_less)
  finally have "Suc (unat i) < 2 ^ LENGTH('a) \<or> Suc (unat i) = 2 ^ LENGTH('a)" by linarith
  moreover have "Suc (unat i) < 2 ^ LENGTH('a)"
    using \<open>unat i < unat e\<close> unsigned_less [of e, where ?'a = nat] by linarith
  ultimately show ?thesis by (simp add: unat_word_ariths)
qed

lemma unat_of_nat_small [word_arith_simps]:
  "n < 2 ^ LENGTH('a) \<Longrightarrow> unat (of_nat n :: 'a::len word) = n"
  by (simp add: unat_of_nat take_bit_nat_eq_self)

lemma unat_of_nat_self: "of_nat (unat w) = (w :: 'a::len word)"
  by simp

lemma of_nat_word_inj [word_arith_simps]:
  assumes "k < 2 ^ LENGTH('a)" "j < 2 ^ LENGTH('a)"
  shows "(of_nat k :: 'a::len word) = of_nat j \<longleftrightarrow> k = j"
  using unat_of_nat_small [OF assms(1)] unat_of_nat_small [OF assms(2)] by metis

lemma of_nat_u64_inj: "k < 2 ^ 64 \<Longrightarrow> j < 2 ^ 64 \<Longrightarrow> (of_nat k :: u64) = of_nat j \<longleftrightarrow> k = j"
  by (rule of_nat_word_inj) simp_all

lemma unat_mult_no_wrap [word_arith_simps]:
  fixes a b :: "'a::len word"
  assumes "unat a * unat b < 2 ^ LENGTH('a)"
  shows "unat (a * b) = unat a * unat b"
  using assms by (simp add: unat_word_ariths)

text \<open>The address of the \<^verbatim>\<open>k\<close>-th element of \<^verbatim>\<open>c\<close> bytes from \<^verbatim>\<open>a\<close> on.\<close>

lemma unat_base_offset:
  fixes a c :: u64
  assumes "unat a + unat c * k < 2 ^ 64" "0 < unat c"
  shows "unat (a + c * of_nat k) = unat a + unat c * k"
proof -
  have "k \<le> unat c * k" using assms(2) by simp
  moreover have "unat a + unat c * k < 18446744073709551616" using assms(1) by simp
  ultimately have k: "k < 18446744073709551616" "unat c * k < 18446744073709551616"
    "unat a + unat c * k < 18446744073709551616" by linarith+
  then have "unat (of_nat k :: u64) = k" by (intro unat_of_nat_small) simp
  then have "unat (c * of_nat k) = unat c * k" using k by (subst unat_mult_no_wrap) simp_all
  then show ?thesis using k by (subst unat_add_no_wrap) simp_all
qed

lemma unat_ucast_up [word_arith_simps]:
  fixes w :: "'a::len word"
  assumes "LENGTH('a) \<le> LENGTH('b)"
  shows "unat (ucast w :: 'b::len word) = unat w"
proof -
  have "unat w < 2 ^ LENGTH('a)" by (rule unsigned_less)
  also have "\<dots> \<le> 2 ^ LENGTH('b)" using assms by (simp add: power_increasing)
  finally show ?thesis by (simp add: unsigned_ucast_eq take_bit_nat_eq_self)
qed

lemma ucast_of_nat_small [word_arith_simps]:
  "n < 2 ^ LENGTH('a) \<Longrightarrow> ucast (of_nat n :: 'a::len word) = (of_nat n :: 'b::len word)"
  by (simp add: unsigned_of_nat take_bit_nat_eq_self)

section \<open>Counting loops\<close>

text \<open>
  \<^verbatim>\<open>for(T i = from; i < to; i++) state = body(i, state);\<close> over an unsigned type: the
  comparison is made before every increment, so the counter never wraps around and the
  loop always ends.
\<close>

function for_upto :: "'a::len word \<Rightarrow> 'a word \<Rightarrow> ('a word \<Rightarrow> 's \<Rightarrow> 's) \<Rightarrow> 's \<Rightarrow> 's" where
  "for_upto i e body s = (if i < e then for_upto (i + 1) e body (body i s) else s)"
  by auto
termination
proof (relation "measure (\<lambda>(i, e, body, s). unat e - unat i)")
  show "wf (measure (\<lambda>(i, e, body, s). unat e - unat i))" by simp
  fix i e :: "'a word" and body :: "'a word \<Rightarrow> 's \<Rightarrow> 's" and s :: 's
  assume "i < e"
  then show "((i + 1, e, body, body i s), i, e, body, s) \<in> measure (\<lambda>(i, e, body, s). unat e - unat i)"
    using unat_Suc_less [of i e] by (simp add: word_less_nat_alt)
qed

declare for_upto.simps [simp del]

lemma for_upto_conv_fold:
  "for_upto i e body s = fold (\<lambda>n. body (of_nat n)) [unat i..<unat e] s"
proof (induction i e body s rule: for_upto.induct)
  case (1 i e body s)
  show ?case
  proof (cases "i < e")
    case True
    then have *: "[unat i..<unat e] = unat i # [unat (i + 1)..<unat e]"
      by (simp add: word_less_nat_alt upt_conv_Cons unat_Suc_less)
    show ?thesis using 1 True by (subst for_upto.simps) (simp add: *)
  next
    case False
    then show ?thesis by (subst for_upto.simps) (simp add: word_less_nat_alt)
  qed
qed

text \<open>An invariant of the body, indexed by the counter, holds when the loop ends.\<close>

lemma fold_upt_invariant:
  assumes "P a s" "a \<le> b"
    and "\<And>n s. a \<le> n \<Longrightarrow> n < b \<Longrightarrow> P n s \<Longrightarrow> P (Suc n) (f n s)"
  shows "P b (fold f [a..<b] s)"
  using assms
proof (induction "b - a" arbitrary: a s)
  case 0
  then show ?case by simp
next
  case (Suc d)
  then have "a < b" by simp
  then have "[a..<b] = a # [Suc a..<b]" by (simp add: upt_conv_Cons)
  moreover have "P b (fold f [Suc a..<b] (f a s))"
    by (rule Suc.hyps(1)) (use Suc \<open>a < b\<close> in auto)
  ultimately show ?case by simp
qed

lemma all_interval_step:
  fixes a b :: nat
  assumes "a < b"
  shows "(\<forall>k. a \<le> k \<and> k < b \<longrightarrow> P k) \<longleftrightarrow> P a \<and> (\<forall>k. Suc a \<le> k \<and> k < b \<longrightarrow> P k)"
  using assms by (auto simp: Suc_le_eq) (metis le_neq_implies_less)

lemma fold_fun_upd:
  "fold (\<lambda>n m. m (g n := v)) ns m = (\<lambda>x. if x \<in> g ` set ns then v else m x)"
  by (induction ns arbitrary: m) auto

lemma fold_count:
  "fold (\<lambda>n c. if P n then c + 1 else c) ns (c :: 'a::comm_semiring_1) = c + of_nat (length (List.filter P ns))"
  by (induction ns arbitrary: c) (auto simp: algebra_simps)

text \<open>Which bits of a word can be set, from the size or the alignment of its value.\<close>

lemma bit_unat_iff: "bit (unat w) i \<longleftrightarrow> bit (w :: 'a::len word) i"
  using bit_imp_le_length [of w i] by (auto simp: bit_unsigned_iff)

lemma small_word_bits:
  fixes w :: "'a::len word"
  assumes "unat w < 2 ^ n" "bit w i"
  shows "i < n"
proof -
  have "take_bit n (unat w) = unat w" using assms(1) by (rule take_bit_nat_eq_self)
  then have "bit (take_bit n (unat w)) i = bit (unat w) i" by (rule arg_cong)
  then show ?thesis using assms(2) by (simp add: bit_take_bit_iff bit_unat_iff)
qed

lemma aligned_word_bits:
  fixes w :: "'a::len word"
  assumes "unat w mod 2 ^ n = 0" "bit w i"
  shows "n \<le> i"
proof -
  have "take_bit n (unat w) = 0" using assms(1) by (simp add: take_bit_eq_mod)
  then have "bit (take_bit n (unat w)) i = bit (0 :: nat) i" by (rule arg_cong)
  then show ?thesis using assms(2) by (simp add: bit_take_bit_iff bit_unat_iff)
qed

section \<open>Bit fields\<close>

definition get_field :: "nat \<Rightarrow> nat \<Rightarrow> u64 \<Rightarrow> u64" where
  "get_field lo n w = take_bit n (drop_bit lo w)"

definition put_field :: "nat \<Rightarrow> nat \<Rightarrow> u64 \<Rightarrow> u64 \<Rightarrow> u64" where
  "put_field lo n v w = (w AND NOT (push_bit lo (mask n))) OR push_bit lo (take_bit n v)"

lemma bit_get_field [simp]: "bit (get_field lo n w) i \<longleftrightarrow> i < n \<and> bit w (lo + i)"
  by (auto simp: get_field_def bit_simps)

lemma bit_put_field [simp]:
  "bit (put_field lo n v w) i \<longleftrightarrow> i < 64 \<and>
    (if lo \<le> i \<and> i < lo + n then bit v (i - lo) else bit w i)"
  by (auto simp: put_field_def bit_simps)

lemma get_put_field_same: "lo + n \<le> 64 \<Longrightarrow> get_field lo n (put_field lo n v w) = take_bit n v"
  by (rule bit_word_eqI) (auto simp: bit_simps)

section \<open>Little-endian byte sequences\<close>

fun le_word :: "u8 list \<Rightarrow> 'a::len word" where
  "le_word [] = 0"
| "le_word (b # bs) = ucast b OR push_bit 8 (le_word bs)"

fun le_bytes :: "nat \<Rightarrow> 'a::len word \<Rightarrow> u8 list" where
  "le_bytes 0 w = []"
| "le_bytes (Suc n) w = ucast w # le_bytes n (drop_bit 8 w)"

lemma length_le_bytes [simp, byte_simps]: "length (le_bytes n w) = n"
  by (induction n arbitrary: w) auto

lemma take_bit_split_byte:
  "ucast (ucast w :: u8) OR push_bit 8 (take_bit n (drop_bit 8 w)) = take_bit (8 + n) (w :: 'a::len word)"
  by (rule bit_word_eqI) (auto simp: bit_simps)

lemma le_word_le_bytes [byte_simps]:
  "le_word (le_bytes n w) = take_bit (8 * n) (w :: 'a::len word)"
proof (induction n arbitrary: w)
  case (Suc n)
  show ?case using take_bit_split_byte [of w "8 * n"] by (simp add: Suc)
qed simp

lemma le_word_le_bytes_full [simp, byte_simps]:
  "LENGTH('a) \<le> 8 * n \<Longrightarrow> le_word (le_bytes n w) = (w :: 'a::len word)"
  by (simp add: le_word_le_bytes take_bit_word_eq_self)

lemma take_bit_self_mono:
  fixes x :: "'a::len word"
  assumes "take_bit k x = x" "k \<le> m"
  shows "take_bit m x = x"
proof -
  have "take_bit m (take_bit k x) = take_bit k x" using assms(2) by (simp add: min_absorb2)
  then show ?thesis by (simp only: assms(1))
qed

lemma le_bytes_le_word [byte_simps]:
  "8 * length bs \<le> LENGTH('a) \<Longrightarrow> le_bytes (length bs) (le_word bs :: 'a::len word) = bs"
proof (induction bs)
  case (Cons b bs)
  have "ucast (le_word (b # bs) :: 'a word) = b"
    using Cons.prems by (intro bit_word_eqI) (auto simp: bit_simps)
  moreover have le: "take_bit (LENGTH('a) - 8) (le_word bs :: 'a word) = le_word bs"
  proof (rule take_bit_self_mono)
    show "8 * length bs \<le> LENGTH('a) - 8" using Cons.prems by simp
    show "take_bit (8 * length bs) (le_word bs :: 'a word) = le_word bs"
      using Cons le_word_le_bytes [of "length bs" "le_word bs :: 'a word"] by simp
  qed
  moreover have "drop_bit 8 (le_word (b # bs) :: 'a word) = le_word bs"
  proof (rule bit_word_eqI)
    fix n assume n: "n < LENGTH('a)"
    have "bit (le_word bs :: 'a word) n \<Longrightarrow> n < LENGTH('a) - 8"
      using le by (metis bit_take_bit_iff)
    then show "bit (drop_bit 8 (le_word (b # bs) :: 'a word)) n = bit (le_word bs :: 'a word) n"
      using n by (auto simp: bit_simps dest: bit_imp_le_length)
  qed
  ultimately show ?case using Cons by simp
qed simp

end
