(* ===== verification/PhysMem.thy ===== *)
theory PhysMem
  imports Prelude
begin

text \<open>
  The byte-addressed memory the kernel runs in, and the raw memory primitives of
  \<^verbatim>\<open>Utils/Memory.cpp\<close>.  Page descriptors, page tables, allocation headers and virtqueues
  are all overlaid on this memory by pointer casts in the source; the model overlays them
  the same way with little-endian loads and stores at the addresses the code computes.
\<close>

type_synonym pmem = "u64 \<Rightarrow> u8"

section \<open>Byte sequences in memory\<close>

definition read_bytes :: "pmem \<Rightarrow> u64 \<Rightarrow> nat \<Rightarrow> u8 list" where
  "read_bytes m a n = map (\<lambda>i. m (a + of_nat i)) [0..<n]"

definition write_bytes :: "pmem \<Rightarrow> u64 \<Rightarrow> u8 list \<Rightarrow> pmem" where
  "write_bytes m a bs = (\<lambda>x. if unat (x - a) < length bs then bs ! unat (x - a) else m x)"

definition load64 :: "pmem \<Rightarrow> u64 \<Rightarrow> u64" where
  "load64 m a = le_word (read_bytes m a 8)"

definition store64 :: "pmem \<Rightarrow> u64 \<Rightarrow> u64 \<Rightarrow> pmem" where
  "store64 m a v = write_bytes m a (le_bytes 8 v)"

definition load32 :: "pmem \<Rightarrow> u64 \<Rightarrow> u32" where
  "load32 m a = le_word (read_bytes m a 4)"

definition load16 :: "pmem \<Rightarrow> u64 \<Rightarrow> u16" where
  "load16 m a = le_word (read_bytes m a 2)"

definition store32 :: "pmem \<Rightarrow> u64 \<Rightarrow> u32 \<Rightarrow> pmem" where
  "store32 m a v = write_bytes m a (le_bytes 4 v)"

definition store16 :: "pmem \<Rightarrow> u64 \<Rightarrow> u16 \<Rightarrow> pmem" where
  "store16 m a v = write_bytes m a (le_bytes 2 v)"

text \<open>The addresses of the \<^verbatim>\<open>n\<close> bytes from \<^verbatim>\<open>a\<close> on, modulo the address space.\<close>

definition span :: "u64 \<Rightarrow> nat \<Rightarrow> u64 set" where
  "span a n = {x. unat (x - a) < n}"

lemma in_span: "x \<in> span a n \<longleftrightarrow> unat (x - a) < n"
  by (simp add: span_def)

lemma span_mono: "n \<le> k \<Longrightarrow> span a n \<subseteq> span a k"
  by (auto simp: span_def)

lemma length_read_bytes [simp]: "length (read_bytes m a n) = n"
  by (simp add: read_bytes_def)

lemma read_write_bytes_same [simp]:
  assumes "length bs = n" "n \<le> 2 ^ 64"
  shows "read_bytes (write_bytes m a bs) a n = bs"
proof (rule nth_equalityI)
  fix i assume "i < length (read_bytes (write_bytes m a bs) a n)"
  then have "i < n" by simp
  then have "unat (of_nat i :: u64) = i" using assms by (intro unat_of_nat_small) simp
  then show "read_bytes (write_bytes m a bs) a n ! i = bs ! i"
    using \<open>i < n\<close> assms by (simp add: read_bytes_def write_bytes_def)
qed (simp add: assms)

lemma read_bytes_cong:
  assumes "n \<le> 2 ^ 64" "\<And>x. x \<in> span a n \<Longrightarrow> m x = m' x"
  shows "read_bytes m a n = read_bytes m' a n"
proof (rule nth_equalityI)
  fix i assume "i < length (read_bytes m a n)"
  then have "i < n" by simp
  then have "unat (of_nat i :: u64) = i" using assms(1) by (intro unat_of_nat_small) simp
  then show "read_bytes m a n ! i = read_bytes m' a n ! i"
    using \<open>i < n\<close> assms(2) [of "a + of_nat i"] by (simp add: read_bytes_def in_span)
qed simp

lemma write_bytes_other [simp]: "x \<notin> span a (length bs) \<Longrightarrow> write_bytes m a bs x = m x"
  by (simp add: write_bytes_def in_span)

lemma read_write_bytes_other:
  assumes "n \<le> 2 ^ 64" "span a n \<inter> span b (length bs) = {}"
  shows "read_bytes (write_bytes m b bs) a n = read_bytes m a n"
proof (rule read_bytes_cong [OF assms(1)])
  fix x assume "x \<in> span a n"
  then have "x \<notin> span b (length bs)" using assms(2) by blast
  then show "write_bytes m b bs x = m x" by (rule write_bytes_other)
qed

lemma load64_store64_same [simp]: "load64 (store64 m a v) a = v"
  by (simp add: load64_def store64_def)

lemma load64_store64_other:
  "span a 8 \<inter> span b 8 = {} \<Longrightarrow> load64 (store64 m b v) a = load64 m a"
  by (simp add: load64_def store64_def read_write_bytes_other)

lemma store64_other [simp]: "x \<notin> span a 8 \<Longrightarrow> store64 m a v x = m x"
  by (simp add: store64_def)

lemma load64_cong: "(\<And>x. x \<in> span a 8 \<Longrightarrow> m x = m' x) \<Longrightarrow> load64 m a = load64 m' a"
  unfolding load64_def by (rule arg_cong [where f = le_word], rule read_bytes_cong) auto

lemma load32_store32_same [simp]: "load32 (store32 m a v) a = v"
  by (simp add: load32_def store32_def)

lemma load16_store16_same [simp]: "load16 (store16 m a v) a = v"
  by (simp add: load16_def store16_def)

lemma le_word_replicate_0: "le_word (replicate n 0) = 0"
  by (induction n) auto

lemma load64_zero:
  assumes "\<And>x. x \<in> span a 8 \<Longrightarrow> m x = 0"
  shows "load64 m a = 0"
proof -
  have "load64 m a = load64 (\<lambda>_. 0) a" using assms by (intro load64_cong) simp
  also have "\<dots> = le_word (replicate 8 0)"
    by (simp add: load64_def read_bytes_def map_replicate_const)
  also have "\<dots> = 0" by (rule le_word_replicate_0)
  finally show ?thesis .
qed

text \<open>Two aligned words either coincide or do not overlap.\<close>

lemma span_eq_range:
  assumes "unat a + n \<le> 2 ^ 64"
  shows "x \<in> span a n \<longleftrightarrow> unat a \<le> unat x \<and> unat x < unat a + n"
proof (cases "a \<le> x")
  case True
  then have "unat (x - a) = unat x - unat a" by (simp add: unat_sub)
  then show ?thesis using True by (auto simp: word_le_nat_alt in_span)
next
  case False
  then have lt: "unat x < unat a" by (simp add: word_le_nat_alt)
  have "unat (x - a) = 2 ^ 64 + unat x - unat a"
    using lt unat_sub_if' [of x a] by (simp add: word_le_nat_alt)
  then show ?thesis using lt assms by (auto simp: in_span)
qed

lemma span_disjoint:
  assumes "unat a + n \<le> 2 ^ 64" "unat b + k \<le> 2 ^ 64"
    and "unat a + n \<le> unat b \<or> unat b + k \<le> unat a"
  shows "span a n \<inter> span b k = {}"
  using assms by (auto simp: span_eq_range)

lemma aligned_span8:
  fixes a :: u64
  assumes "unat a mod 8 = 0" shows "unat a + 8 \<le> 2 ^ 64"
proof -
  have "unat a < 18446744073709551616" using unsigned_less [of a, where ?'a = nat] by simp
  then have "unat a + 8 \<le> 18446744073709551616" using assms by presburger
  then show ?thesis by simp
qed

lemma multiple_gap8:
  fixes x y :: nat
  assumes "x mod 8 = 0" "y mod 8 = 0" "x \<noteq> y"
  shows "x + 8 \<le> y \<or> y + 8 \<le> x"
  using assms by presburger

lemma aligned_words_disjoint:
  assumes "unat a mod 8 = 0" "unat b mod 8 = 0" "a \<noteq> b"
  shows "span a 8 \<inter> span b 8 = {}"
proof (rule span_disjoint)
  show "unat a + 8 \<le> 2 ^ 64" "unat b + 8 \<le> 2 ^ 64" using assms by (simp_all only: aligned_span8)
  have "unat a \<noteq> unat b" using assms(3) by (simp only: word_unat_eq_iff not_False_eq_True)
  then show "unat a + 8 \<le> unat b \<or> unat b + 8 \<le> unat a"
    using assms(1,2) by (intro multiple_gap8)
qed

section \<open>\<^verbatim>\<open>Utils/Memory.cpp\<close>\<close>

text \<open>
  \<^verbatim>\<open>memcpy\<close> copies byte by byte from the front until its \<^verbatim>\<open>int\<close> counter is zero,
  and returns the advanced destination pointer.  \<^verbatim>\<open>memset\<close> stores the low byte of its
  \<^verbatim>\<open>int\<close> argument.  \<^verbatim>\<open>memcmp\<close> returns a truth value: true for equal ranges.
  \<^verbatim>\<open>strcmp\<close> walks two zero-terminated strings and may never return when neither ends.
\<close>

function memcpy :: "pmem \<Rightarrow> u64 \<Rightarrow> u64 \<Rightarrow> u32 \<Rightarrow> pmem \<times> u64" where
  "memcpy m destination source n =
     (if n \<noteq> 0 then memcpy (m (destination := m source)) (destination + 1) (source + 1) (n - 1)
      else (m, destination))"
  by auto
termination
  by (relation "measure (\<lambda>(m, d, s, n). unat n)") (auto simp: unat_minus_one unat_gt_0)

function memset :: "pmem \<Rightarrow> u64 \<Rightarrow> u32 \<Rightarrow> u32 \<Rightarrow> pmem \<times> u64" where
  "memset m destination c n =
     (if n \<noteq> 0 then memset (m (destination := ucast c)) (destination + 1) c (n - 1)
      else (m, destination))"
  by auto
termination
  by (relation "measure (\<lambda>(m, d, c, n). unat n)") (auto simp: unat_minus_one unat_gt_0)

function memcmp_loop :: "pmem \<Rightarrow> u64 \<Rightarrow> u64 \<Rightarrow> size_t \<Rightarrow> size_t \<Rightarrow> bool" where
  "memcmp_loop m p1 p2 num i =
     (if i < num then (if m (p1 + i) \<noteq> m (p2 + i) then False else memcmp_loop m p1 p2 num (i + 1))
      else True)"
  by auto
termination
  by (relation "measure (\<lambda>(m, a, b, n, i). unat n - unat i)")
     (auto simp: word_less_nat_alt unat_Suc_less)

definition memcmp :: "pmem \<Rightarrow> u64 \<Rightarrow> u64 \<Rightarrow> size_t \<Rightarrow> bool" where
  "memcmp m p1 p2 num = memcmp_loop m p1 p2 num 0"

partial_function (option) strcmp :: "pmem \<Rightarrow> u64 \<Rightarrow> u64 \<Rightarrow> int option" where
  "strcmp m str1 str2 =
     (if m str1 \<noteq> 0 \<and> m str2 \<noteq> 0 \<and> m str1 = m str2 then strcmp m (str1 + 1) (str2 + 1)
      else Some (uint (m str1) - uint (m str2)))"

declare memcpy.simps [simp del] memset.simps [simp del] memcmp_loop.simps [simp del]

lemma memcmp_loop_iff:
  "memcmp_loop m p q num i \<longleftrightarrow> (\<forall>k. unat i \<le> k \<and> k < unat num \<longrightarrow> m (p + of_nat k) = m (q + of_nat k))"
proof (induction m p q num i rule: memcmp_loop.induct)
  case (1 m p q num i)
  show ?case
  proof (cases "i < num")
    case True
    note split = all_interval_step [OF True [unfolded word_less_nat_alt]]
    show ?thesis
      using 1 True unat_Suc_less [OF True] by (subst memcmp_loop.simps) (auto simp: split)
  next
    case False
    then show ?thesis by (subst memcmp_loop.simps) (auto simp: word_less_nat_alt)
  qed
qed

lemma memcmp_iff_read_bytes:
  "memcmp m p q num \<longleftrightarrow> read_bytes m p (unat num) = read_bytes m q (unat num)"
  by (auto simp: memcmp_def memcmp_loop_iff read_bytes_def list_eq_iff_nth_eq)

lemma span_Suc_iff:
  assumes "n < 2 ^ 64"
  shows "x \<in> span a (Suc n) \<longleftrightarrow> x = a \<or> x \<in> span (a + 1) n" and "a \<notin> span (a + 1) n"
proof -
  have e: "x - a = (x - (a + 1)) + 1" by simp
  have top: "unat (- 1 :: u64) = 2 ^ 64 - 1"
    using unsigned_minus_1_eq_mask [where ?'a = nat and ?'b = 64] by (simp add: mask_eq_exp_minus_1)
  show "a \<notin> span (a + 1) n" unfolding in_span using assms top by simp
  show "x \<in> span a (Suc n) \<longleftrightarrow> x = a \<or> x \<in> span (a + 1) n"
  proof (cases "x = a")
    case False
    then have "x - a \<noteq> 0" by simp
    then have "unat (x - a - 1) = unat (x - a) - 1" "unat (x - a) > 0"
      by (auto simp: unat_minus_one unat_gt_0)
    then show ?thesis using False by (auto simp: diff_diff_eq in_span)
  qed (simp add: in_span)
qed

lemma unat_step:
  fixes n :: u32
  assumes "n \<noteq> 0" "k = unat (n - 1)"
  shows "unat n = Suc k" "k < 2 ^ 64"
  using assms unsigned_less [of "n - 1", where ?'a = nat]
  by (simp_all add: unat_minus_one unat_gt_0)

lemma snd_memcpy: "snd (memcpy m d s n) = d + of_nat (unat n)"
proof (induction m d s n rule: memcpy.induct)
  case (1 m d s n)
  show ?case
  proof (cases "n = 0")
    case True
    then show ?thesis by (subst memcpy.simps) simp
  next
    case False
    then have "memcpy m d s n = memcpy (m (d := m s)) (d + 1) (s + 1) (n - 1)"
      by (subst memcpy.simps) simp
    then have "snd (memcpy m d s n) = d + 1 + of_nat (unat (n - 1))"
      using 1 [OF False] by (simp only: fun_upd_def)
    then show ?thesis by (simp only: unat_step(1) [OF False refl] of_nat_Suc add.assoc)
  qed
qed

text \<open>On ranges that do not overlap, \<^verbatim>\<open>memcpy\<close> transfers exactly the source bytes.\<close>

lemma memcpy_at:
  assumes "span d (unat n) \<inter> span s (unat n) = {}"
  shows "fst (memcpy m d s n) x = (if x \<in> span d (unat n) then m (s + (x - d)) else m x)"
  using assms
proof (induction m d s n rule: memcpy.induct)
  case (1 m d s n)
  show ?case
  proof (cases "n = 0")
    case True
    then show ?thesis by (subst memcpy.simps) (simp add: in_span)
  next
    case False
    obtain k where k: "k = unat (n - 1)" by blast
    note n = unat_step [OF False k]
    have sub: "span (d + 1) k \<inter> span (s + 1) k = {}" "d \<notin> span (s + 1) k"
      using 1(2) span_Suc_iff(1) [OF n(2)] unfolding n(1) by blast+
    let ?m = "m (d := m s)"
    have step: "memcpy m d s n = memcpy ?m (d + 1) (s + 1) (n - 1)"
      using False by (subst memcpy.simps) simp
    have e: "s + 1 + (x - (d + 1)) = s + (x - d)" by simp
    have ih: "fst (memcpy m d s n) x = (if x \<in> span (d + 1) k then ?m (s + (x - d)) else ?m x)"
      using 1(1) [OF False] sub(1) unfolding step k fun_upd_def e by (simp only:)
    have "s + (x - d) \<noteq> d" if "x \<in> span (d + 1) k"
    proof
      assume "s + (x - d) = d"
      then have "d - (s + 1) = (s + (x - d)) - (s + 1)" by (simp only:)
      also have "\<dots> = x - (d + 1)" by simp
      finally show False using that sub(2) unfolding in_span by (simp only: not_True_eq_False)
    qed
    then show ?thesis
      unfolding ih n(1) using span_Suc_iff(1) [OF n(2), of x d] span_Suc_iff(2) [OF n(2), of d] by auto
  qed
qed

lemma memset_at:
  "fst (memset m d c n) x = (if x \<in> span d (unat n) then ucast c else m x)"
proof (induction m d c n rule: memset.induct)
  case (1 m d c n)
  show ?case
  proof (cases "n = 0")
    case True
    then show ?thesis by (subst memset.simps) (simp add: in_span)
  next
    case False
    obtain k where k: "k = unat (n - 1)" by blast
    note n = unat_step [OF False k]
    have "memset m d c n = memset (m (d := ucast c)) (d + 1) c (n - 1)"
      using False by (subst memset.simps) simp
    moreover have "fst (memset (m (d := ucast c)) (d + 1) c (n - 1)) x =
        (if x \<in> span (d + 1) k then ucast c else (m (d := ucast c)) x)"
      using 1 [OF False] unfolding fun_upd_def [symmetric] k .
    ultimately show ?thesis
      unfolding n(1) using span_Suc_iff(1) [OF n(2), of x d] by simp
  qed
qed

end
