(* ===== verification/AllocatorSpec.thy ===== *)
theory AllocatorSpec
  imports PhysMem
begin

text \<open>
  What the clients of the two kernel allocators (the page allocator behind
  \<^verbatim>\<open>MemoryManager\<close> and the heap behind \<^verbatim>\<open>kmalloc\<close>) rely on.  \<^verbatim>\<open>rel s L\<close> says that the
  allocator state \<^verbatim>\<open>s\<close> records exactly the live blocks \<^verbatim>\<open>L\<close>, each an address with the
  number of bytes its owner may use.  The laws are discharged for both allocators in
  their own theories.
\<close>

datatype alloc_op = Alloc u64 | Free u64

fun client_step ::
  "('s \<Rightarrow> u64 \<Rightarrow> ('s \<times> u64) option) \<Rightarrow> ('s \<Rightarrow> u64 \<Rightarrow> 's option) \<Rightarrow> (u64 \<Rightarrow> nat) \<Rightarrow> alloc_op
    \<Rightarrow> 's \<times> (u64 \<times> nat) set \<Rightarrow> ('s \<times> (u64 \<times> nat) set) option" where
  "client_step alloc free extent (Alloc n) (s, L) =
     do { (s', a) \<leftarrow> alloc s n; Some (s', if a = 0 then L else insert (a, extent n) L) }"
| "client_step alloc free extent (Free a) (s, L) =
     (if a \<in> fst ` L then do { s' \<leftarrow> free s a; Some (s', {b \<in> L. fst b \<noteq> a}) } else None)"

fun client_run ::
  "('s \<Rightarrow> u64 \<Rightarrow> ('s \<times> u64) option) \<Rightarrow> ('s \<Rightarrow> u64 \<Rightarrow> 's option) \<Rightarrow> (u64 \<Rightarrow> nat) \<Rightarrow> alloc_op list
    \<Rightarrow> 's \<times> (u64 \<times> nat) set \<Rightarrow> ('s \<times> (u64 \<times> nat) set) option" where
  "client_run alloc free extent [] sL = Some sL"
| "client_run alloc free extent (x # xs) sL =
     do { sL' \<leftarrow> client_step alloc free extent x sL; client_run alloc free extent xs sL' }"

text \<open>
  Every request of a client is made in a state in which the allocator promises to serve it properly
  (or to return null); what that takes is \<^verbatim>\<open>ok\<close>, of the state and the size.
\<close>

fun requests_ok ::
  "('s \<Rightarrow> u64 \<Rightarrow> bool) \<Rightarrow> ('s \<Rightarrow> u64 \<Rightarrow> ('s \<times> u64) option) \<Rightarrow> ('s \<Rightarrow> u64 \<Rightarrow> 's option) \<Rightarrow> (u64 \<Rightarrow> nat) \<Rightarrow> alloc_op list
    \<Rightarrow> 's \<times> (u64 \<times> nat) set \<Rightarrow> bool" where
  "requests_ok ok alloc free extent [] sL = True"
| "requests_ok ok alloc free extent (x # xs) sL =
     ((case x of Alloc n \<Rightarrow> ok (fst sL) n | Free a \<Rightarrow> True) \<and>
      (case client_step alloc free extent x sL of None \<Rightarrow> True | Some sL' \<Rightarrow> requests_ok ok alloc free extent xs sL'))"

definition blocks_apart :: "(u64 \<times> nat) set \<Rightarrow> bool" where
  "blocks_apart L \<longleftrightarrow> (\<forall>(a, l) \<in> L. \<forall>(b, k) \<in> L. (a, l) \<noteq> (b, k) \<longrightarrow> span a l \<inter> span b k = {})"

locale block_allocator =
  fixes alloc :: "'s \<Rightarrow> u64 \<Rightarrow> ('s \<times> u64) option"
    and free :: "'s \<Rightarrow> u64 \<Rightarrow> 's option"
    and extent :: "u64 \<Rightarrow> nat"
    and request_ok :: "'s \<Rightarrow> u64 \<Rightarrow> bool"
    and mem :: "'s \<Rightarrow> pmem"
    and rel :: "'s \<Rightarrow> (u64 \<times> nat) set \<Rightarrow> bool"
  assumes alloc_hit: "rel s L \<Longrightarrow> request_ok s n \<Longrightarrow> alloc s n = Some (s', a) \<Longrightarrow> a \<noteq> 0 \<Longrightarrow>
      rel s' (insert (a, extent n) L) \<and> a \<notin> fst ` L"
    and alloc_null: "rel s L \<Longrightarrow> request_ok s n \<Longrightarrow> alloc s n = Some (s', 0) \<Longrightarrow> rel s' L"
    and free_live: "rel s L \<Longrightarrow> (a, l) \<in> L \<Longrightarrow> \<exists>s'. free s a = Some s' \<and> rel s' (L - {(a, l)})"
    and apart: "rel s L \<Longrightarrow> (a, l) \<in> L \<Longrightarrow> (b, k) \<in> L \<Longrightarrow> (a, l) \<noteq> (b, k) \<Longrightarrow>
      a \<noteq> b \<and> span a l \<inter> span b k = {}"
    and alloc_frame: "rel s L \<Longrightarrow> request_ok s n \<Longrightarrow> alloc s n = Some (s', a) \<Longrightarrow> (b, k) \<in> L \<Longrightarrow>
      x \<in> span b k \<Longrightarrow> mem s' x = mem s x"
    and free_frame: "rel s L \<Longrightarrow> (a, l) \<in> L \<Longrightarrow> free s a = Some s' \<Longrightarrow> (b, k) \<in> L \<Longrightarrow>
      x \<in> span b k \<Longrightarrow> mem s' x = mem s x"
begin

lemma one_block_per_address:
  assumes "rel s L" "(a, l) \<in> L"
  shows "{b \<in> L. fst b \<noteq> a} = L - {(a, l)}"
  using apart [OF assms(1)] assms(2) by fastforce

lemma step_rel:
  assumes "rel s L" "client_step alloc free extent x (s, L) = Some (s', L')"
    and "\<And>n. x = Alloc n \<Longrightarrow> request_ok s n"
  shows "rel s' L'"
proof (cases x)
  case (Alloc n)
  then show ?thesis
    using assms alloc_hit alloc_null
    by (auto simp: bind_eq_Some_conv split: if_splits) 
next
  case (Free a)
  then obtain l where l: "(a, l) \<in> L" using assms(2) by (auto split: if_splits)
  then show ?thesis
    using Free assms(2) free_live [OF assms(1) l] one_block_per_address [OF assms(1) l]
    by (auto split: if_splits)
qed

lemma step_frame:
  assumes "rel s L" "client_step alloc free extent x (s, L) = Some (s', L')"
    and "\<And>n. x = Alloc n \<Longrightarrow> request_ok s n" "(b, k) \<in> L" "x \<noteq> Free b"
  shows "(b, k) \<in> L'" "y \<in> span b k \<Longrightarrow> mem s' y = mem s y"
proof -
  show "(b, k) \<in> L'"
    using assms by (cases x) (auto simp: bind_eq_Some_conv split: if_splits)
  show "y \<in> span b k \<Longrightarrow> mem s' y = mem s y"
    using assms alloc_frame [OF assms(1) _ _ assms(4)] free_frame [OF assms(1) _ _ assms(4)]
    by (cases x) (auto simp: bind_eq_Some_conv split: if_splits)
qed

lemma run_rel:
  assumes "rel s L" "client_run alloc free extent xs (s, L) = Some (s', L')" "requests_ok request_ok alloc free extent xs (s, L)"
  shows "rel s' L'"
  using assms
proof (induction xs arbitrary: s L)
  case (Cons x xs)
  then obtain s1 L1 where step: "client_step alloc free extent x (s, L) = Some (s1, L1)"
      and rest: "client_run alloc free extent xs (s1, L1) = Some (s', L')"
    by (auto simp: bind_eq_Some_conv)
  have ok: "\<And>n. x = Alloc n \<Longrightarrow> request_ok s n" "requests_ok request_ok alloc free extent xs (s1, L1)"
    using Cons.prems(3) step by auto
  show ?case using Cons.IH [OF step_rel [OF Cons.prems(1) step ok(1)] rest ok(2)] .
qed simp

lemma run_apart:
  assumes "rel s L" "client_run alloc free extent xs (s, L) = Some (s', L')" "requests_ok request_ok alloc free extent xs (s, L)"
  shows "blocks_apart L'"
  unfolding blocks_apart_def using apart [OF run_rel [OF assms]] by blast

lemma run_frame:
  assumes "rel s L" "client_run alloc free extent xs (s, L) = Some (s', L')" "requests_ok request_ok alloc free extent xs (s, L)"
    and "(b, k) \<in> L" "Free b \<notin> set xs"
  shows "(b, k) \<in> L' \<and> (\<forall>y \<in> span b k. mem s' y = mem s y)"
  using assms
proof (induction xs arbitrary: s L)
  case (Cons x xs)
  then obtain s1 L1 where step: "client_step alloc free extent x (s, L) = Some (s1, L1)"
      and rest: "client_run alloc free extent xs (s1, L1) = Some (s', L')"
    by (auto simp: bind_eq_Some_conv)
  have ok: "\<And>n. x = Alloc n \<Longrightarrow> request_ok s n" "requests_ok request_ok alloc free extent xs (s1, L1)"
    and x: "x \<noteq> Free b" using Cons.prems step by auto
  note f = step_frame [OF Cons.prems(1) step ok(1) Cons.prems(4) x]
  have "(b, k) \<in> L' \<and> (\<forall>y \<in> span b k. mem s' y = mem s1 y)"
    using Cons.IH [OF step_rel [OF Cons.prems(1) step ok(1)] rest ok(2)] Cons.prems f(1) by simp
  then show ?case using f(2) by simp
qed simp

end

end
