(* ===== verification/PageAlloc.thy ===== *)
theory PageAlloc
  imports AllocatorSpec
begin

text \<open>
  The page allocator (\<^verbatim>\<open>Kernel/Memory/Page.cpp\<close>, \<^verbatim>\<open>Kernel/Memory/MemoryManager.cpp\<close>).
  One status byte per page lies at the start of the heap; the pages themselves follow.
  The fields of the \<^verbatim>\<open>MemoryManager\<close> object, which the source places in page 0 of the
  allocation region, are the record; the descriptors live in the byte memory.  The
  scanning loops keep the source's 64-bit counters, its missing bound on the inner scan
  and its early exits.
\<close>

section \<open>Page descriptors\<close>

datatype PageStatus = Free | Taken | Last

fun status_byte :: "PageStatus \<Rightarrow> u8" where
  "status_byte Free = 0"
| "status_byte Taken = 1"
| "status_byte Last = 2"

definition page_is_free :: "pmem \<Rightarrow> u64 \<Rightarrow> bool" where
  "page_is_free m page = (m page = status_byte Free)"

definition page_is_taken :: "pmem \<Rightarrow> u64 \<Rightarrow> bool" where
  "page_is_taken m page = (m page = status_byte Taken)"

definition page_is_last :: "pmem \<Rightarrow> u64 \<Rightarrow> bool" where
  "page_is_last m page = (m page = status_byte Last)"

definition page_clear :: "pmem \<Rightarrow> u64 \<Rightarrow> pmem" where
  "page_clear m page = m (page := status_byte Free)"

definition page_set_status :: "pmem \<Rightarrow> u64 \<Rightarrow> PageStatus \<Rightarrow> pmem" where
  "page_set_status m page status = m (page := status_byte status)"

lemmas page_defs = page_is_free_def page_is_taken_def page_is_last_def page_clear_def
  page_set_status_def

section \<open>The memory manager\<close>

record MemoryManager =
  m_heap_start :: u64
  m_heap_size :: u64
  m_first_page :: u64
  m_number_of_pages :: u64
  m_alloc_start :: u64

definition PAGE_ORDER :: u64 where "PAGE_ORDER = 12"
definition PAGE_SIZE :: u64 where "PAGE_SIZE = 4096"

definition align_value :: "u64 \<Rightarrow> nat \<Rightarrow> u64" where
  "align_value val order = (let o' = 2 ^ order - 1 in (val + o') AND NOT o')"

definition mm_init :: "u64 \<Rightarrow> u64 \<Rightarrow> pmem \<Rightarrow> MemoryManager \<times> pmem" where
  "mm_init heap_start heap_size m =
     (let number_of_pages = heap_size div PAGE_SIZE;
          alloc_start = align_value (heap_start + number_of_pages * 1) 12;
          m = page_set_status m (heap_start + 0) Last;
          m = for_upto 1 number_of_pages (\<lambda>i m. page_clear m (heap_start + i)) m
      in (\<lparr>m_heap_start = heap_start, m_heap_size = heap_size, m_first_page = heap_start,
           m_number_of_pages = number_of_pages, m_alloc_start = alloc_start\<rparr>, m))"

text \<open>The inner scan of \<^verbatim>\<open>alloc\<close>: every descriptor from \<^verbatim>\<open>j\<close> up to \<^verbatim>\<open>e = i + pages\<close> is free.\<close>

function run_free :: "pmem \<Rightarrow> u64 \<Rightarrow> u64 \<Rightarrow> u64 \<Rightarrow> bool" where
  "run_free m first_page j e =
     (if j < e then
        (if \<not> page_is_free m (first_page + j) then False else run_free m first_page (j + 1) e)
      else True)"
  by auto
termination
  by (relation "measure (\<lambda>(m, f, j, e). unat e - unat j)")
     (auto simp: word_less_nat_alt unat_Suc_less)

definition mark_run :: "u64 \<Rightarrow> u64 \<Rightarrow> u64 \<Rightarrow> pmem \<Rightarrow> pmem" where
  "mark_run first_page i pages m =
     (let m = for_upto i (i + pages - 1) (\<lambda>k m. page_set_status m (first_page + k) Taken) m
      in page_set_status m (first_page + (i + pages - 1)) Last)"

function alloc_from :: "MemoryManager \<Rightarrow> u64 \<Rightarrow> pmem \<Rightarrow> u64 \<Rightarrow> pmem \<times> u64" where
  "alloc_from mm pages m i =
     (if i < m_number_of_pages mm then
        (if page_is_free m (m_first_page mm + i) \<and> run_free m (m_first_page mm) i (i + pages)
         then (mark_run (m_first_page mm) i pages m, m_alloc_start mm + PAGE_SIZE * i)
         else alloc_from mm pages m (i + 1))
      else (m, 0))"
  by auto
termination
  by (relation "measure (\<lambda>(mm, p, m, i). unat (m_number_of_pages mm) - unat i)")
     (auto simp: word_less_nat_alt unat_Suc_less)

definition alloc :: "MemoryManager \<Rightarrow> pmem \<Rightarrow> u64 \<Rightarrow> pmem \<times> u64" where
  "alloc mm m pages = alloc_from mm pages m 0"

definition zalloc :: "MemoryManager \<Rightarrow> pmem \<Rightarrow> u64 \<Rightarrow> pmem \<times> u64" where
  "zalloc mm m pages =
     (let (m, allocated) = alloc mm m pages in
      if allocated = 0 then (m, 0)
      else let size = (PAGE_SIZE * pages) div 8
           in (for_upto 0 size (\<lambda>i m. store64 m (allocated + 8 * i) 0) m, allocated))"

text \<open>\<^verbatim>\<open>dealloc\<close> clears descriptors as long as they say Taken, and then one more.\<close>

lemma clear_taken_decreases:
  assumes "page_is_taken m page"
  shows "card {a. page_is_taken (page_clear m page) a} < card {a. page_is_taken m a}"
proof (rule psubset_card_mono)
  show "{a. page_is_taken (page_clear m page) a} \<subset> {a. page_is_taken m a}"
    using assms by (auto simp: page_defs)
qed simp

function dealloc_run :: "pmem \<Rightarrow> u64 \<Rightarrow> pmem" where
  "dealloc_run m page =
     (if page_is_taken m page then dealloc_run (page_clear m page) (page + 1)
      else page_clear m page)"
  by auto
termination
  by (relation "measure (\<lambda>(m, page). card {a. page_is_taken m a})")
     (auto simp: clear_taken_decreases)

definition dealloc :: "MemoryManager \<Rightarrow> pmem \<Rightarrow> u64 \<Rightarrow> pmem" where
  "dealloc mm m ptr =
     (if ptr = 0 then m
      else dealloc_run m (m_heap_start mm + (ptr - m_alloc_start mm) div PAGE_SIZE))"

record Statistics =
  total_pages :: u64
  free_pages :: u64
  used_pages :: u64

definition get_statistics :: "MemoryManager \<Rightarrow> pmem \<Rightarrow> Statistics" where
  "get_statistics mm m =
     (let allocated = for_upto 0 (m_number_of_pages mm)
            (\<lambda>i c. if \<not> page_is_free m (m_first_page mm + i) then c + 1 else c) (0 :: u64)
      in \<lparr>total_pages = m_number_of_pages mm,
          free_pages = m_number_of_pages mm - allocated,
          used_pages = allocated\<rparr>)"

declare run_free.simps [simp del] alloc_from.simps [simp del] dealloc_run.simps [simp del]

section \<open>Descriptors by index\<close>

definition desc :: "MemoryManager \<Rightarrow> pmem \<Rightarrow> nat \<Rightarrow> u8" where
  "desc mm m k = m (m_first_page mm + of_nat k)"

abbreviation npages :: "MemoryManager \<Rightarrow> nat" where
  "npages mm \<equiv> unat (m_number_of_pages mm)"

text \<open>
  What \<^verbatim>\<open>init\<close> establishes of the manager's constants: the descriptors lie below the pages,
  and neither the descriptors nor the pages wrap around the address space.
\<close>

definition wf_mm :: "MemoryManager \<Rightarrow> bool" where
  "wf_mm mm \<longleftrightarrow> m_heap_start mm = m_first_page mm \<and> 0 < unat (m_alloc_start mm) \<and>
     unat (m_first_page mm) + npages mm \<le> unat (m_alloc_start mm) \<and>
     unat (m_alloc_start mm) + 4096 * npages mm < 2 ^ 64"

lemma run_free_iff:
  "run_free m f j e \<longleftrightarrow> (\<forall>k. unat j \<le> k \<and> k < unat e \<longrightarrow> m (f + of_nat k) = 0)"
proof (induction m f j e rule: run_free.induct)
  case (1 m f j e)
  show ?case
  proof (cases "j < e")
    case True
    note split = all_interval_step [OF True [unfolded word_less_nat_alt]]
    show ?thesis
      using 1 True unat_Suc_less [OF True]
      by (subst run_free.simps) (auto simp: split page_defs)
  next
    case False
    then show ?thesis by (subst run_free.simps) (auto simp: word_less_nat_alt)
  qed
qed

text \<open>The pages \<^verbatim>\<open>i, ..., i + p - 1\<close> are free; they carry the marks of an allocated block.\<close>

definition free_run :: "MemoryManager \<Rightarrow> pmem \<Rightarrow> nat \<Rightarrow> nat \<Rightarrow> bool" where
  "free_run mm m i p \<longleftrightarrow> (\<forall>k. i \<le> k \<and> k < i + p \<longrightarrow> desc mm m k = 0)"

definition block_at :: "MemoryManager \<Rightarrow> pmem \<Rightarrow> nat \<Rightarrow> nat \<Rightarrow> bool" where
  "block_at mm m i p \<longleftrightarrow> 0 < p \<and> (\<forall>k. i \<le> k \<and> k < i + p - 1 \<longrightarrow> desc mm m k = 1) \<and>
     desc mm m (i + p - 1) = 2"

lemma mark_run_at:
  assumes "0 < unat p" "unat i + unat p < 2 ^ 64"
  shows "mark_run f i p m = (\<lambda>x.
    if x = f + of_nat (unat i + unat p - 1) then 2
    else if x \<in> (\<lambda>k. f + of_nat k) ` {unat i..<unat i + unat p - 1} then 1 else m x)"
proof -
  have u: "unat (i + p) = unat i + unat p" using assms by (simp add: unat_add_no_wrap)
  then have "i + p \<noteq> 0" using assms(1) by (metis add_gr_0 less_numeral_extra(3) unat_0)
  then have e: "unat (i + p - 1) = unat i + unat p - 1" by (simp add: unat_minus_one u)
  then have w: "i + p - 1 = of_nat (unat i + unat p - 1)" by (simp only: e [symmetric] unat_of_nat_self)
  show ?thesis
    unfolding mark_run_def Let_def for_upto_conv_fold e
    unfolding w by (rule ext) (simp add: page_defs fold_fun_upd del: of_nat_diff)
qed

lemma desc_mark_run:
  assumes "0 < unat p" "unat i + unat p < 2 ^ 64" "k < 2 ^ 64"
  shows "desc mm (mark_run (m_first_page mm) i p m) k =
    (if k = unat i + unat p - 1 then 2
     else if unat i \<le> k \<and> k < unat i + unat p - 1 then 1 else desc mm m k)"
proof -
  have "of_nat k \<in> (of_nat :: nat \<Rightarrow> u64) ` {unat i..<unat i + unat p - 1} \<longleftrightarrow>
      unat i \<le> k \<and> k < unat i + unat p - 1"
    using assms by (auto simp: image_iff of_nat_u64_inj)
  then show ?thesis
    using assms by (auto simp: desc_def mark_run_at of_nat_u64_inj image_iff simp del: of_nat_diff)
qed

lemma run_free_free_run:
  assumes "unat i + unat p < 2 ^ 64"
  shows "run_free m (m_first_page mm) i (i + p) \<longleftrightarrow> free_run mm m (unat i) (unat p)"
  using assms by (simp add: run_free_iff free_run_def desc_def unat_add_no_wrap)

text \<open>The outer scan stops at the first index whose run of descriptors is free.\<close>

definition first_fit :: "MemoryManager \<Rightarrow> pmem \<Rightarrow> nat \<Rightarrow> nat \<Rightarrow> nat \<Rightarrow> bool" where
  "first_fit mm m from p i \<longleftrightarrow> from \<le> i \<and> i < npages mm \<and> free_run mm m i p \<and>
     (\<forall>j. from \<le> j \<and> j < i \<longrightarrow> \<not> free_run mm m j p)"

lemma alloc_from_cases:
  assumes "0 < unat p" "npages mm + unat p < 2 ^ 64"
  shows "(\<exists>j. first_fit mm m (unat i) (unat p) j \<and>
      alloc_from mm p m i = (mark_run (m_first_page mm) (of_nat j) p m, m_alloc_start mm + 4096 * of_nat j)) \<or>
    (\<forall>j. unat i \<le> j \<and> j < npages mm \<longrightarrow> \<not> free_run mm m j (unat p)) \<and> alloc_from mm p m i = (m, 0)"
  using assms
proof (induction mm p m i rule: alloc_from.induct)
  case (1 mm p m i)
  show ?case
  proof (cases "i < m_number_of_pages mm")
    case False
    then show ?thesis by (subst (1 2) alloc_from.simps) (auto simp: word_less_nat_alt)
  next
    case True
    then have i: "unat i < npages mm" by (simp add: word_less_nat_alt)
    then have rf: "run_free m (m_first_page mm) i (i + p) \<longleftrightarrow> free_run mm m (unat i) (unat p)"
      using 1(3) by (intro run_free_free_run) simp
    have head: "free_run mm m (unat i) (unat p) \<Longrightarrow> page_is_free m (m_first_page mm + i)"
      using 1(2) by (auto simp: free_run_def desc_def page_defs dest!: spec [of _ "unat i"])
    show ?thesis
    proof (cases "free_run mm m (unat i) (unat p)")
      case free: True
      then have "alloc_from mm p m i =
          (mark_run (m_first_page mm) (of_nat (unat i)) p m, m_alloc_start mm + 4096 * of_nat (unat i))"
        using True rf head by (subst alloc_from.simps) (simp add: PAGE_SIZE_def)
      moreover have "first_fit mm m (unat i) (unat p) (unat i)"
        using free i by (auto simp: first_fit_def)
      ultimately show ?thesis by blast
    next
      case no: False
      then have step: "alloc_from mm p m i = alloc_from mm p m (i + 1)"
        using True rf by (subst alloc_from.simps) simp
      have first: "first_fit mm m (unat i) (unat p) j \<longleftrightarrow> first_fit mm m (Suc (unat i)) (unat p) j" for j
        using no by (auto simp: first_fit_def Suc_le_eq) (metis le_neq_implies_less)+
      show ?thesis
        using 1(1) [OF True _ 1(2,3)] rf no all_interval_step [OF i]
        unfolding step first unat_Suc_less [OF True] by simp
    qed
  qed
qed

lemma alloc_cases:
  assumes "0 < unat p" "npages mm + unat p < 2 ^ 64"
  obtains (hit) j where "first_fit mm m 0 (unat p) j"
      "alloc mm m p = (mark_run (m_first_page mm) (of_nat j) p m, m_alloc_start mm + 4096 * of_nat j)"
  | (full) "\<forall>j < npages mm. \<not> free_run mm m j (unat p)" "alloc mm m p = (m, 0)"
  using alloc_from_cases [OF assms, of m 0] by (auto simp: alloc_def)

section \<open>The abstract page map\<close>

text \<open>
  \<^verbatim>\<open>page_rel mm m L\<close>: the descriptors in \<^verbatim>\<open>m\<close> encode exactly the set \<^verbatim>\<open>L\<close> of allocated
  blocks \<^verbatim>\<open>(first page, number of pages)\<close>.  The blocks are disjoint and inside the managed
  pages, and every descriptor outside them is free.  Nothing is said of the bytes behind the
  descriptors, which the inner scan of \<^verbatim>\<open>alloc\<close>, having no bound of its own, may read.
\<close>

definition page_rel :: "MemoryManager \<Rightarrow> pmem \<Rightarrow> (nat \<times> nat) set \<Rightarrow> bool" where
  "page_rel mm m L \<longleftrightarrow> wf_mm mm \<and>
     (\<forall>(i, p) \<in> L. i + p \<le> npages mm \<and> block_at mm m i p) \<and>
     (\<forall>(i, p) \<in> L. \<forall>(j, q) \<in> L. (i, p) \<noteq> (j, q) \<longrightarrow> i + p \<le> j \<or> j + q \<le> i) \<and>
     (\<forall>k < npages mm. desc mm m k \<noteq> 0 \<longrightarrow> (\<exists>(i, p) \<in> L. i \<le> k \<and> k < i + p))"

lemma page_relD:
  assumes "page_rel mm m L"
  shows "wf_mm mm"
    "(i, p) \<in> L \<Longrightarrow> i + p \<le> npages mm \<and> block_at mm m i p"
    "(i, p) \<in> L \<Longrightarrow> (j, q) \<in> L \<Longrightarrow> (i, p) \<noteq> (j, q) \<Longrightarrow> i + p \<le> j \<or> j + q \<le> i"
    "k < npages mm \<Longrightarrow> desc mm m k \<noteq> 0 \<Longrightarrow> \<exists>(i, p) \<in> L. i \<le> k \<and> k < i + p"
  using assms unfolding page_rel_def by blast+

lemma block_at_desc:
  assumes "block_at mm m i p"
  shows "i \<le> k \<Longrightarrow> k < i + p \<Longrightarrow> desc mm m k \<noteq> 0" "0 < p"
  using assms by (cases "k = i + p - 1"; auto simp: block_at_def)+

lemma block_at_cong:
  assumes "\<And>k. i \<le> k \<Longrightarrow> k < i + p \<Longrightarrow> desc mm m k = desc mm m' k"
  shows "block_at mm m i p \<longleftrightarrow> block_at mm m' i p"
  using assms by (auto simp: block_at_def)

lemma npages_small: "wf_mm mm \<Longrightarrow> npages mm < 2 ^ 52"
  by (auto simp: wf_mm_def)

lemma block_in_range:
  assumes "page_rel mm m L" "(i, p) \<in> L"
  shows "unat (m_alloc_start mm + 4096 * of_nat i) = unat (m_alloc_start mm) + 4096 * i"
    "i < npages mm"
proof -
  have r: "i + p \<le> npages mm" "0 < p" "unat (m_alloc_start mm) + 4096 * npages mm < 2 ^ 64"
    using page_relD(1,2) [OF assms(1)] assms(2) by (auto simp: block_at_def wf_mm_def)
  then show "i < npages mm" by simp
  then have "unat (m_alloc_start mm) + 4096 * i < 2 ^ 64" using r by simp
  then show "unat (m_alloc_start mm + 4096 * of_nat i) = unat (m_alloc_start mm) + 4096 * i"
    using unat_base_offset [of "m_alloc_start mm" 4096 i] by simp
qed

text \<open>
  A request of at least one page that does not wrap around.  It is served inside the managed pages when it is for a
  single page, when a run of that many free pages exists there, or when the byte behind the descriptors stops the scan.
\<close>

definition run_inside :: "MemoryManager \<Rightarrow> pmem \<Rightarrow> nat \<Rightarrow> bool" where
  "run_inside mm m p \<longleftrightarrow> (\<exists>i. i + p \<le> npages mm \<and> free_run mm m i p)"

definition request_fits :: "MemoryManager \<Rightarrow> u64 \<Rightarrow> bool" where
  "request_fits mm p \<longleftrightarrow> 0 < unat p \<and> npages mm + unat p < 2 ^ 64"

definition page_request_ok :: "MemoryManager \<Rightarrow> pmem \<Rightarrow> u64 \<Rightarrow> bool" where
  "page_request_ok mm m p \<longleftrightarrow> request_fits mm p \<and>
     (unat p = 1 \<or> run_inside mm m (unat p) \<or> desc mm m (npages mm) \<noteq> 0)"

lemma single_page_ok: "wf_mm mm \<Longrightarrow> page_request_ok mm m 1"
  using npages_small [of mm] by (simp add: page_request_ok_def request_fits_def)

text \<open>The first fit is inside when any fit is, and when no fit can reach over the end.\<close>

lemma first_fit_inside:
  assumes "page_request_ok mm m p" "first_fit mm m 0 (unat p) i"
  shows "i + unat p \<le> npages mm"
proof -
  have i: "i < npages mm" "free_run mm m i (unat p)" "\<And>j. j < i \<Longrightarrow> \<not> free_run mm m j (unat p)"
    using assms(2) by (auto simp: first_fit_def)
  consider "unat p = 1" | j where "j + unat p \<le> npages mm" "free_run mm m j (unat p)" | "desc mm m (npages mm) \<noteq> 0"
    using assms(1) by (auto simp: page_request_ok_def run_inside_def)
  then show ?thesis
  proof cases
    case 2
    then have "i \<le> j" using i(3) not_less by blast
    then show ?thesis using 2(1) by simp
  next
    case 3
    then show ?thesis using i(1,2) by (auto simp: free_run_def dest!: spec [of _ "npages mm"])
  qed (use i(1) in simp)
qed

lemma page_rel_mark_run:
  assumes rel: "page_rel mm m L" and ff: "first_fit mm m 0 (unat p) i" and p: "0 < unat p"
    and ip: "i + unat p \<le> npages mm"
  shows "page_rel mm (mark_run (m_first_page mm) (of_nat i) p m) (insert (i, unat p) L)"
proof -
  let ?m = "mark_run (m_first_page mm) (of_nat i) p m"
  have fr: "free_run mm m i (unat p)" and i: "i < npages mm" using ff by (auto simp: first_fit_def)
  have N: "npages mm < 4503599627370496" using npages_small [OF page_relD(1) [OF rel]] by simp
  have ui: "unat (of_nat i :: u64) = i" using i N by (intro unat_of_nat_small) simp
  have d: "desc mm ?m k = (if k = i + unat p - 1 then 2 else if i \<le> k \<and> k < i + unat p - 1 then 1
      else desc mm m k)" if "k \<le> npages mm" for k
    using that N ip p desc_mark_run [of p "of_nat i" k mm m] by (simp add: ui)
  have new: "block_at mm ?m i (unat p)" using p ip d by (auto simp: block_at_def)
  have dis: "i + unat p \<le> j \<or> j + q \<le> i" if "(j, q) \<in> L" for j q
  proof (rule ccontr)
    assume "\<not> (i + unat p \<le> j \<or> j + q \<le> i)"
    then have "max i j < i + unat p" "i \<le> max i j" "j \<le> max i j" "max i j < j + q"
      using p page_relD(2) [OF rel that] by (auto simp: block_at_def)
    then show False
      using fr block_at_desc(1) [of mm m j q "max i j"] page_relD(2) [OF rel that]
      unfolding free_run_def by blast
  qed
  have old: "block_at mm ?m j q" if "(j, q) \<in> L" for j q
    using block_at_cong [of j q mm m ?m] page_relD(2) [OF rel that] dis [OF that] p d by fastforce
  show ?thesis
    unfolding page_rel_def
  proof (intro conjI)
    show "wf_mm mm" using page_relD(1) [OF rel] .
    show "\<forall>(j, q) \<in> insert (i, unat p) L. j + q \<le> npages mm \<and> block_at mm ?m j q"
      using new old ip page_relD(2) [OF rel] by auto
    show "\<forall>(j, q) \<in> insert (i, unat p) L. \<forall>(j', q') \<in> insert (i, unat p) L.
        (j, q) \<noteq> (j', q') \<longrightarrow> j + q \<le> j' \<or> j' + q' \<le> j"
      using dis page_relD(3) [OF rel] by fast
    show "\<forall>k < npages mm. desc mm ?m k \<noteq> 0 \<longrightarrow> (\<exists>(j, q) \<in> insert (i, unat p) L. j \<le> k \<and> k < j + q)"
    proof (intro allI impI)
      fix k assume k: "k < npages mm" "desc mm ?m k \<noteq> 0"
      show "\<exists>(j, q) \<in> insert (i, unat p) L. j \<le> k \<and> k < j + q"
      proof (cases "i \<le> k \<and> k < i + unat p")
        case False
        then have "desc mm m k \<noteq> 0" using d [of k] k p by (auto split: if_splits)
        then show ?thesis using page_relD(4) [OF rel k(1)] by blast
      qed auto
    qed
  qed
qed

section \<open>Releasing a block\<close>

lemma dealloc_run_block:
  assumes "block_at mm m i p" "i + p < 2 ^ 64"
  shows "dealloc_run m (m_first_page mm + of_nat i) =
    (\<lambda>x. if x \<in> (\<lambda>k. m_first_page mm + of_nat k) ` {i..<i + p} then 0 else m x)"
  using assms
proof (induction p arbitrary: m i)
  case 0
  then show ?case by (simp add: block_at_def)
next
  case (Suc p)
  let ?f = "m_first_page mm"
  have "{i..<i + Suc p} = insert i {Suc i..<Suc i + p}" by auto
  then have image: "(\<lambda>k. ?f + of_nat k) ` {i..<i + Suc p} =
      insert (?f + of_nat i) ((\<lambda>k. ?f + of_nat k) ` {Suc i..<Suc i + p})"
    by (simp only: image_insert)
  show ?case
  proof (cases "p = 0")
    case True
    then have "m (?f + of_nat i) = 2" using Suc.prems(1) by (simp add: block_at_def desc_def)
    then show ?thesis
      using True by (subst dealloc_run.simps) (auto simp: page_defs image)
  next
    case False
    then have taken: "page_is_taken m (?f + of_nat i)"
      using Suc.prems(1) by (auto simp: block_at_def desc_def page_defs)
    let ?m = "page_clear m (?f + of_nat i)"
    have "desc mm ?m k = desc mm m k" if "Suc i \<le> k" "k < Suc i + p" for k
      using that Suc.prems(2) by (simp add: desc_def page_defs of_nat_u64_inj)
    then have "block_at mm ?m (Suc i) p"
      using Suc.prems(1) False block_at_cong [of "Suc i" p mm ?m m] by (auto simp: block_at_def)
    then have ih: "dealloc_run ?m (?f + of_nat (Suc i)) =
        (\<lambda>x. if x \<in> (\<lambda>k. ?f + of_nat k) ` {Suc i..<Suc i + p} then 0 else ?m x)"
      using Suc.IH [of ?m "Suc i"] Suc.prems(2) by simp
    have "dealloc_run m (?f + of_nat i) = dealloc_run ?m (?f + of_nat (Suc i))"
      using taken by (subst dealloc_run.simps) (simp add: add.commute add.left_commute)
    then show ?thesis unfolding ih image by (auto simp: page_defs)
  qed
qed

lemma dealloc_block_at:
  assumes "wf_mm mm" "block_at mm m i p" "i < npages mm" "i + p < 2 ^ 64"
  shows "dealloc mm m (m_alloc_start mm + 4096 * of_nat i) =
    (\<lambda>x. if x \<in> (\<lambda>k. m_first_page mm + of_nat k) ` {i..<i + p} then 0 else m x)"
proof -
  note wf = assms(1) [unfolded wf_mm_def]
  have i: "i < 18446744073709551616" "unat (m_alloc_start mm) + 4096 * i < 18446744073709551616" using wf assms(3) by auto
  have "unat (m_alloc_start mm + 4096 * of_nat i) = unat (m_alloc_start mm) + 4096 * i"
    using unat_base_offset [of "m_alloc_start mm" 4096 i] i(2) by simp
  then have "unat (m_alloc_start mm + 4096 * of_nat i) \<noteq> 0" using wf by simp
  then have nz: "m_alloc_start mm + 4096 * of_nat i \<noteq> 0" by (metis unat_0)
  have u: "unat (of_nat i :: u64) = i" using i by (intro unat_of_nat_small) simp
  then have "unat (4096 * of_nat i :: u64) = 4096 * i" using i by (subst unat_mult_no_wrap) simp_all
  then have d: "(4096 * of_nat i :: u64) div 4096 = of_nat i"
    by (intro word_unat_eq_iff [THEN iffD2]) (simp add: unat_div u)
  then show ?thesis
    using nz wf dealloc_run_block [of mm m i p] assms(2,4) by (simp add: dealloc_def PAGE_SIZE_def)
qed

lemma dealloc_page_address:
  assumes "page_rel mm m L" "(i, p) \<in> L"
  shows "dealloc mm m (m_alloc_start mm + 4096 * of_nat i) =
    (\<lambda>x. if x \<in> (\<lambda>k. m_first_page mm + of_nat k) ` {i..<i + p} then 0 else m x)"
proof (rule dealloc_block_at [OF page_relD(1) [OF assms(1)]])
  show "block_at mm m i p" "i < npages mm" using page_relD(2) [OF assms] block_in_range(2) [OF assms] by simp_all
  show "i + p < 2 ^ 64" using page_relD(2) [OF assms] npages_small [OF page_relD(1) [OF assms(1)]] by simp
qed

lemma desc_cleared:
  assumes "i + p \<le> 2 ^ 64" "k < 2 ^ 64"
  shows "desc mm (\<lambda>x. if x \<in> (\<lambda>k. m_first_page mm + of_nat k) ` {i..<i + p} then 0 else m x) k =
    (if i \<le> k \<and> k < i + p then 0 else desc mm m k)"
  using assms by (auto simp: desc_def image_iff of_nat_u64_inj)

lemma page_rel_dealloc:
  assumes rel: "page_rel mm m L" and ip: "(i, p) \<in> L"
  shows "page_rel mm (dealloc mm m (m_alloc_start mm + 4096 * of_nat i)) (L - {(i, p)})"
proof -
  let ?m = "dealloc mm m (m_alloc_start mm + 4096 * of_nat i)"
  have N: "npages mm < 4503599627370496" using npages_small [OF page_relD(1) [OF rel]] by simp
  have r: "i + p \<le> npages mm" using page_relD(2) [OF rel ip] by simp
  have d: "desc mm ?m k = (if i \<le> k \<and> k < i + p then 0 else desc mm m k)" if "k \<le> npages mm" for k
    unfolding dealloc_page_address [OF rel ip] using that N r by (intro desc_cleared) auto
  have keep: "j + q \<le> npages mm \<and> block_at mm ?m j q" if jq: "(j, q) \<in> L - {(i, p)}" for j q
  proof
    have "i + p \<le> j \<or> j + q \<le> i" using page_relD(3) [OF rel ip, of j q] jq by auto
    moreover show "j + q \<le> npages mm" using page_relD(2) [OF rel] jq by auto
    ultimately show "block_at mm ?m j q"
      using page_relD(2) [OF rel, of j q] jq d block_at_cong [of j q mm m ?m] by fastforce
  qed
  show ?thesis
    unfolding page_rel_def
  proof (intro conjI)
    show "wf_mm mm" using page_relD(1) [OF rel] .
    show "\<forall>(j, q) \<in> L - {(i, p)}. j + q \<le> npages mm \<and> block_at mm ?m j q" using keep by blast
    show "\<forall>(j, q) \<in> L - {(i, p)}. \<forall>(j', q') \<in> L - {(i, p)}.
        (j, q) \<noteq> (j', q') \<longrightarrow> j + q \<le> j' \<or> j' + q' \<le> j"
      using page_relD(3) [OF rel] by blast
    show "\<forall>k < npages mm. desc mm ?m k \<noteq> 0 \<longrightarrow> (\<exists>(j, q) \<in> L - {(i, p)}. j \<le> k \<and> k < j + q)"
    proof (intro allI impI)
      fix k assume k: "k < npages mm" "desc mm ?m k \<noteq> 0"
      then have "\<not> (i \<le> k \<and> k < i + p)" "desc mm m k \<noteq> 0" using d [of k] by (auto split: if_splits)
      then show "\<exists>(j, q) \<in> L - {(i, p)}. j \<le> k \<and> k < j + q"
        using page_relD(4) [OF rel k(1)] by blast
    qed
  qed
qed

section \<open>The allocator as a provider of blocks\<close>

definition page_alloc_op :: "MemoryManager \<Rightarrow> pmem \<Rightarrow> u64 \<Rightarrow> (pmem \<times> u64) option" where
  "page_alloc_op mm m p = Some (alloc mm m p)"

definition page_free_op :: "MemoryManager \<Rightarrow> pmem \<Rightarrow> u64 \<Rightarrow> pmem option" where
  "page_free_op mm m a = Some (dealloc mm m a)"

definition page_bytes :: "u64 \<Rightarrow> nat" where
  "page_bytes p = 4096 * unat p"

text \<open>The page map seen through addresses and byte lengths.\<close>

definition page_extent :: "MemoryManager \<Rightarrow> nat \<times> nat \<Rightarrow> u64 \<times> nat" where
  "page_extent mm = (\<lambda>(i, p). (m_alloc_start mm + 4096 * of_nat i, 4096 * p))"

definition page_blocks :: "MemoryManager \<Rightarrow> pmem \<Rightarrow> (u64 \<times> nat) set \<Rightarrow> bool" where
  "page_blocks mm m B \<longleftrightarrow> (\<exists>L. page_rel mm m L \<and> B = page_extent mm ` L)"

lemma page_extent_inj:
  assumes "page_rel mm m L" "b \<in> L" "c \<in> L" "fst (page_extent mm b) = fst (page_extent mm c)"
  shows "b = c"
proof (rule ccontr)
  obtain i p j q where b: "b = (i, p)" and c: "c = (j, q)" by (cases b, cases c) auto
  assume "b \<noteq> c"
  then have "i + p \<le> j \<or> j + q \<le> i" using page_relD(3) [OF assms(1), of i p j q] assms b c by auto
  moreover have "0 < p" "0 < q"
    using page_relD(2) [OF assms(1)] assms b c block_at_desc(2) by blast+
  ultimately have "i \<noteq> j" by auto
  moreover have "unat (m_alloc_start mm) + 4096 * i = unat (m_alloc_start mm) + 4096 * j"
  proof -
    have "m_alloc_start mm + 4096 * of_nat i = m_alloc_start mm + 4096 * of_nat j"
      using assms(4) b c by (simp add: page_extent_def)
    then show ?thesis
      using block_in_range(1) [OF assms(1) assms(2) [unfolded b]]
        block_in_range(1) [OF assms(1) assms(3) [unfolded c]] by (simp only:)
  qed
  ultimately show False by simp
qed

lemma page_extent_apart:
  assumes "page_rel mm m L" "(i, p) \<in> L" "(j, q) \<in> L" "(i, p) \<noteq> (j, q)"
  shows "span (m_alloc_start mm + 4096 * of_nat i) (4096 * p) \<inter>
    span (m_alloc_start mm + 4096 * of_nat j) (4096 * q) = {}"
proof -
  have "i + p \<le> npages mm" "j + q \<le> npages mm" "i + p \<le> j \<or> j + q \<le> i"
    using page_relD(2,3) [OF assms(1)] assms by auto
  moreover have "unat (m_alloc_start mm) + 4096 * npages mm < 2 ^ 64"
    using page_relD(1) [OF assms(1)] by (simp add: wf_mm_def)
  ultimately show ?thesis
    using block_in_range(1) [OF assms(1)] assms(2,3) by (intro span_disjoint) auto
qed

text \<open>Descriptors lie below the pages, so that marking them leaves page contents alone.\<close>

lemma page_not_descriptor:
  assumes "page_rel mm m L" "(i, p) \<in> L" "x \<in> span (m_alloc_start mm + 4096 * of_nat i) (4096 * p)"
    and "k < npages mm"
  shows "x \<noteq> m_first_page mm + of_nat k"
proof
  note wf = page_relD(1) [OF assms(1), unfolded wf_mm_def]
  assume x: "x = m_first_page mm + of_nat k"
  have "k < 18446744073709551616" "unat (m_first_page mm) + k < 18446744073709551616"
    using wf assms(4) by auto
  then have "unat x = unat (m_first_page mm) + k"
    unfolding x using unat_of_nat_small [where 'a = 64, of k] by (subst unat_add_no_wrap) simp_all
  moreover have "unat (m_alloc_start mm) + 4096 * i \<le> unat x"
    using assms(3) page_relD(2) [OF assms(1,2)] block_in_range(1) [OF assms(1,2)] wf
    by (subst (asm) span_eq_range) auto
  ultimately show False using wf assms(4) by simp
qed

lemma mark_run_outside:
  assumes "0 < unat p" "i + unat p < 2 ^ 64"
    and out: "x \<notin> (\<lambda>k. m_first_page mm + of_nat k) ` {i..<i + unat p}"
  shows "mark_run (m_first_page mm) (of_nat i) p m x = m x"
proof -
  have u: "unat (of_nat i :: u64) = i" "unat (of_nat i :: u64) + unat p < 2 ^ 64"
    using assms(2) unat_of_nat_small [where 'a = 64, of i] by auto
  have "x \<noteq> m_first_page mm + of_nat (i + unat p - 1)"
    "x \<notin> (\<lambda>k. m_first_page mm + of_nat k) ` {i..<i + unat p - 1}"
    using out assms(1) by (auto simp: image_iff simp del: of_nat_diff)
  then show ?thesis unfolding mark_run_at [OF assms(1) u(2)] u(1) by (simp only: if_False)
qed

lemma mark_run_frame:
  assumes "0 < unat p" "i + unat p \<le> npages mm" "wf_mm mm"
    and "\<And>k. k < npages mm \<Longrightarrow> x \<noteq> m_first_page mm + of_nat k"
  shows "mark_run (m_first_page mm) (of_nat i) p m x = m x"
proof (rule mark_run_outside [OF assms(1)])
  show "i + unat p < 2 ^ 64" using assms(2) npages_small [OF assms(3)] by simp
  show "x \<notin> (\<lambda>k. m_first_page mm + of_nat k) ` {i..<i + unat p}"
  proof
    assume "x \<in> (\<lambda>k. m_first_page mm + of_nat k) ` {i..<i + unat p}"
    then obtain k where "x = m_first_page mm + of_nat k" "k < i + unat p" by auto
    then show False using assms(2) assms(4) [of k] by linarith
  qed
qed

lemma page_alloc_hit:
  assumes rel: "page_rel mm m L" and ok: "page_request_ok mm m p"
    and al: "alloc mm m p = (m', a)" and nz: "a \<noteq> 0"
  obtains i where "first_fit mm m 0 (unat p) i" "i + unat p \<le> npages mm"
    "a = m_alloc_start mm + 4096 * of_nat i" "m' = mark_run (m_first_page mm) (of_nat i) p m"
    "page_rel mm m' (insert (i, unat p) L)" "(i, unat p) \<notin> L"
proof -
  have ok': "0 < unat p" "npages mm + unat p < 2 ^ 64" using ok by (auto simp: page_request_ok_def request_fits_def)
  show thesis
  proof (cases rule: alloc_cases [OF ok', of m])
    case (1 j)
    then have m': "m' = mark_run (m_first_page mm) (of_nat j) p m"
        "a = m_alloc_start mm + 4096 * of_nat j" using al by auto
    have fr: "free_run mm m j (unat p)" "j < npages mm" using 1(1) by (auto simp: first_fit_def)
    have "(j, unat p) \<notin> L"
    proof
      assume "(j, unat p) \<in> L"
      then have "desc mm m j \<noteq> 0"
        using page_relD(2) [OF rel, of j "unat p"] ok' block_at_desc(1) [of mm m j "unat p" j] by simp
      then show False using fr ok' by (auto simp: free_run_def)
    qed
    then show thesis
      using that [OF 1(1) first_fit_inside [OF ok 1(1)] m'(2,1)]
        page_rel_mark_run [OF rel 1(1) ok'(1) first_fit_inside [OF ok 1(1)]] m' by simp
  qed (use al nz in simp)
qed

lemma page_alloc_null:
  assumes rel: "page_rel mm m L" and ok: "page_request_ok mm m p" and al: "alloc mm m p = (m', 0)"
  shows "m' = m \<and> (\<forall>j < npages mm. \<not> free_run mm m j (unat p))"
proof -
  have ok': "0 < unat p" "npages mm + unat p < 2 ^ 64" using ok by (auto simp: page_request_ok_def request_fits_def)
  show ?thesis
  proof (cases rule: alloc_cases [OF ok', of m])
    case (1 j)
    then have "page_rel mm m' (insert (j, unat p) L)"
      using page_rel_mark_run [OF rel 1(1) ok'(1) first_fit_inside [OF ok 1(1)]] al by simp
    then have "unat (m_alloc_start mm + 4096 * of_nat j) = unat (m_alloc_start mm) + 4096 * j"
      by (rule block_in_range(1) [where p = "unat p"]) simp
    moreover have "m_alloc_start mm + 4096 * of_nat j = 0" using 1(2) al by simp
    ultimately have "unat (m_alloc_start mm) = 0" by simp
    then show ?thesis using page_relD(1) [OF rel] by (simp add: wf_mm_def)
  next
    case 2
    then show ?thesis using al by simp
  qed
qed

interpretation page_provider: block_allocator
  "page_alloc_op mm" "page_free_op mm" page_bytes "page_request_ok mm" "\<lambda>m. m" "page_blocks mm"
proof unfold_locales
  fix s s' L n a
  assume "page_blocks mm s L" and n: "page_request_ok mm s n"
    and al: "page_alloc_op mm s n = Some (s', a)" and nz: "a \<noteq> 0"
  then obtain P where rel: "page_rel mm s P" and L: "L = page_extent mm ` P"
    by (auto simp: page_blocks_def)
  from al have al: "alloc mm s n = (s', a)" by (simp add: page_alloc_op_def)
  show "page_blocks mm s' (insert (a, page_bytes n) L) \<and> a \<notin> fst ` L"
  proof (rule page_alloc_hit [OF rel n al nz])
    fix i
    assume a: "a = m_alloc_start mm + 4096 * of_nat i"
      and new: "page_rel mm s' (insert (i, unat n) P)" "(i, unat n) \<notin> P"
    have "insert (a, page_bytes n) L = page_extent mm ` insert (i, unat n) P"
      by (simp add: L a page_extent_def page_bytes_def)
    moreover have "a \<notin> fst ` L"
    proof
      assume "a \<in> fst ` L"
      then obtain b where b: "b \<in> P" "fst (page_extent mm b) = fst (page_extent mm (i, unat n))"
        by (auto simp: L a page_extent_def)
      then show False using page_extent_inj [OF new(1), of b "(i, unat n)"] new(2) by simp
    qed
    ultimately show ?thesis using new(1) by (auto simp: page_blocks_def)
  qed
next
  fix s s' L n
  assume "page_blocks mm s L" "page_request_ok mm s n" "page_alloc_op mm s n = Some (s', 0)"
  then show "page_blocks mm s' L"
    using page_alloc_null by (fastforce simp: page_blocks_def page_alloc_op_def)
next
  fix s L a l
  assume "page_blocks mm s L" and al: "(a, l) \<in> L"
  then obtain P where rel: "page_rel mm s P" and L: "L = page_extent mm ` P"
    by (auto simp: page_blocks_def)
  obtain i p where ip: "(i, p) \<in> P" and e: "(a, l) = page_extent mm (i, p)" using al by (auto simp: L)
  have "L - {(a, l)} = page_extent mm ` (P - {(i, p)})"
    using page_extent_inj [OF rel] ip by (auto simp: L e) 
  then show "\<exists>s'. page_free_op mm s a = Some s' \<and> page_blocks mm s' (L - {(a, l)})"
    using page_rel_dealloc [OF rel ip] e
    by (auto simp: page_blocks_def page_free_op_def page_extent_def)
next
  fix s L a l b k
  assume "page_blocks mm s L" and al: "(a, l) \<in> L" "(b, k) \<in> L" "(a, l) \<noteq> (b, k)"
  then obtain P where rel: "page_rel mm s P" and L: "L = page_extent mm ` P"
    by (auto simp: page_blocks_def)
  obtain c d where c: "c \<in> P" "(a, l) = page_extent mm c" and d: "d \<in> P" "(b, k) = page_extent mm d"
    using al by (auto simp: L)
  then have "c \<noteq> d" using al by auto
  then have "a \<noteq> b" using page_extent_inj [OF rel c(1) d(1)] c d by (metis fst_conv)
  then show "a \<noteq> b \<and> span a l \<inter> span b k = {}"
    using page_extent_apart [OF rel] c d \<open>c \<noteq> d\<close>
    by (cases c; cases d) (auto simp: page_extent_def)
next
  fix s s' L n a b k x
  assume "page_blocks mm s L" and n: "page_request_ok mm s n"
    and al: "page_alloc_op mm s n = Some (s', a)" and b: "(b, k) \<in> L" "x \<in> span b k"
  then obtain P where rel: "page_rel mm s P" and L: "L = page_extent mm ` P"
    by (auto simp: page_blocks_def)
  obtain i p where ip: "(i, p) \<in> P" "(b, k) = page_extent mm (i, p)" using b by (auto simp: L)
  from al have al: "alloc mm s n = (s', a)" by (simp add: page_alloc_op_def)
  have nd: "\<And>k. k < npages mm \<Longrightarrow> x \<noteq> m_first_page mm + of_nat k"
    using page_not_descriptor [OF rel ip(1)] ip(2) b(2) by (simp add: page_extent_def)
  show "s' x = s x"
  proof (cases "a = 0")
    case True
    then show ?thesis using page_alloc_null [OF rel n] al by simp
  next
    case False
    show ?thesis
      by (rule page_alloc_hit [OF rel n al False])
        (use n nd page_relD(1) [OF rel] in \<open>simp add: mark_run_frame page_request_ok_def request_fits_def\<close>)
  qed
next
  fix s s' L a l b k x
  assume "page_blocks mm s L" and al: "(a, l) \<in> L" and fr: "page_free_op mm s a = Some s'"
    and b: "(b, k) \<in> L" "x \<in> span b k"
  then obtain P where rel: "page_rel mm s P" and L: "L = page_extent mm ` P"
    by (auto simp: page_blocks_def)
  obtain i p where ip: "(i, p) \<in> P" "(a, l) = page_extent mm (i, p)" using al by (auto simp: L)
  obtain j q where jq: "(j, q) \<in> P" "(b, k) = page_extent mm (j, q)" using b by (auto simp: L)
  have nd: "\<And>k. k < npages mm \<Longrightarrow> x \<noteq> m_first_page mm + of_nat k"
    using page_not_descriptor [OF rel jq(1)] jq(2) b(2) by (simp add: page_extent_def)
  have "s' = dealloc mm s (m_alloc_start mm + 4096 * of_nat i)"
    using fr ip(2) by (simp add: page_free_op_def page_extent_def)
  moreover have "x \<notin> (\<lambda>k. m_first_page mm + of_nat k) ` {i..<i + p}"
  proof
    assume "x \<in> (\<lambda>k. m_first_page mm + of_nat k) ` {i..<i + p}"
    then obtain k where "x = m_first_page mm + of_nat k" "k < i + p" by auto
    then show False using nd [of k] page_relD(2) [OF rel ip(1)] by linarith
  qed
  ultimately show "s' x = s x" by (simp only: dealloc_page_address [OF rel ip(1)] if_False)
qed

section \<open>Zeroed blocks\<close>

lemma fold_store_zero:
  "x \<in> (\<Union>k \<in> set ks. span (a + 8 * of_nat k) 8) \<Longrightarrow>
    fold (\<lambda>k m. store64 m (a + 8 * of_nat k) 0) ks m x = 0"
proof (induction ks rule: rev_induct)
  case (snoc k ks)
  have z: "le_bytes n 0 ! j = 0" if "j < n" for n j
    using that by (induction n arbitrary: j) (auto simp: nth_Cons')
  show ?case
  proof (cases "x \<in> span (a + 8 * of_nat k) 8")
    case True
    then show ?thesis by (simp add: store64_def write_bytes_def in_span z del: le_bytes.simps)
  qed (use snoc in simp)
qed simp

lemma fold_store_other:
  "x \<notin> (\<Union>k \<in> set ks. span (a + 8 * of_nat k) 8) \<Longrightarrow>
    fold (\<lambda>k m. store64 m (a + 8 * of_nat k) v) ks m x = m x"
  by (induction ks arbitrary: m) auto

lemma span_words:
  assumes "unat a + 8 * n < 2 ^ 64"
  shows "(\<Union>k \<in> {0..<n}. span (a + 8 * of_nat k) 8) = span a (8 * n)"
proof (rule set_eqI)
  fix x
  have w: "unat (a + 8 * of_nat k) = unat a + 8 * k" if "k < n" for k
    using unat_base_offset [of a 8 k] assms that by simp
  have s: "x \<in> span (a + 8 * of_nat k) 8 \<longleftrightarrow> unat a + 8 * k \<le> unat x \<and> unat x < unat a + 8 * k + 8"
    if "k < n" for k
    using w [OF that] assms that by (subst span_eq_range) auto
  have "x \<in> (\<Union>k \<in> {0..<n}. span (a + 8 * of_nat k) 8) \<longleftrightarrow>
      (\<exists>k < n. unat a + 8 * k \<le> unat x \<and> unat x < unat a + 8 * k + 8)"
    using s by auto
  also have "\<dots> \<longleftrightarrow> unat a \<le> unat x \<and> unat x < unat a + 8 * n"
  proof
    assume r: "unat a \<le> unat x \<and> unat x < unat a + 8 * n"
    then show "\<exists>k < n. unat a + 8 * k \<le> unat x \<and> unat x < unat a + 8 * k + 8"
      by (intro exI [of _ "(unat x - unat a) div 8"]) auto
  qed auto
  also have "\<dots> \<longleftrightarrow> x \<in> span a (8 * n)" using assms by (subst span_eq_range) auto
  finally show "x \<in> (\<Union>k \<in> {0..<n}. span (a + 8 * of_nat k) 8) \<longleftrightarrow> x \<in> span a (8 * n)" .
qed

lemma zero_loop:
  assumes "unat a + 8 * unat n < 2 ^ 64"
  shows "for_upto 0 n (\<lambda>i m. store64 m (a + 8 * i) 0) m x = (if x \<in> span a (8 * unat n) then 0 else m x)"
  using fold_store_zero [where x = x and ks = "[0..<unat n]" and a = a and m = m]
    fold_store_other [where x = x and ks = "[0..<unat n]" and a = a and m = m and v = 0]
    span_words [OF assms]
  by (simp add: for_upto_conv_fold)

section \<open>Accounting\<close>

lemma used_pages_count:
  "used_pages (get_statistics mm m) = of_nat (card {k. k < npages mm \<and> desc mm m k \<noteq> 0})"
proof -
  have "length (List.filter (\<lambda>k. desc mm m k \<noteq> 0) [0..<npages mm]) =
      card {k. k < npages mm \<and> desc mm m k \<noteq> 0}"
    by (subst distinct_card [symmetric]) (auto intro!: arg_cong [where f = card])
  then show ?thesis
    by (simp add: get_statistics_def Let_def for_upto_conv_fold fold_count page_defs desc_def)
qed

lemma page_map_cover:
  assumes "page_rel mm m L"
  shows "{k. k < npages mm \<and> desc mm m k \<noteq> 0} = (\<Union>(i, p) \<in> L. {i..<i + p})"
proof (rule set_eqI)
  fix k
  show "k \<in> {k. k < npages mm \<and> desc mm m k \<noteq> 0} \<longleftrightarrow> k \<in> (\<Union>(i, p) \<in> L. {i..<i + p})"
    using page_relD(4) [OF assms, of k] page_relD(2) [OF assms] block_at_desc(1) [of mm m _ _ k]
    by (auto; fastforce)
qed

lemma page_rel_finite:
  assumes "page_rel mm m L"
  shows "finite L"
proof (rule finite_subset)
  show "L \<subseteq> {..npages mm} \<times> {..npages mm}" using page_relD(2) [OF assms] by fastforce
qed simp

lemma page_map_card:
  assumes "page_rel mm m L"
  shows "card {k. k < npages mm \<and> desc mm m k \<noteq> 0} = (\<Sum>(i, p) \<in> L. p)"
proof -
  have "card (\<Union>b \<in> L. {fst b..<fst b + snd b}) = (\<Sum>b \<in> L. card {fst b..<fst b + snd b})"
  proof (rule card_UN_disjoint)
    show "\<forall>b \<in> L. \<forall>c \<in> L. b \<noteq> c \<longrightarrow> {fst b..<fst b + snd b} \<inter> {fst c..<fst c + snd c} = {}"
      using page_relD(3) [OF assms] by fastforce
  qed (use page_rel_finite [OF assms] in auto)
  then show ?thesis by (simp add: page_map_cover [OF assms] case_prod_beta)
qed

lemma page_rel_cong:
  assumes "page_rel mm m L" "\<And>k. k < npages mm \<Longrightarrow> desc mm m' k = desc mm m k"
  shows "page_rel mm m' L"
proof -
  have "block_at mm m' i p" if "(i, p) \<in> L" for i p
    using page_relD(2) [OF assms(1) that] assms(2) block_at_cong [of i p mm m m'] by simp
  then show ?thesis using assms by (auto simp: page_rel_def)
qed

lemma zalloc_hit:
  assumes rel: "page_rel mm m L" and ok: "page_request_ok mm m p"
    and z: "zalloc mm m p = (m', a)" and nz: "a \<noteq> 0"
  obtains i m1 where "alloc mm m p = (m1, a)" "a = m_alloc_start mm + 4096 * of_nat i"
    "page_rel mm m' (insert (i, unat p) L)" "(i, unat p) \<notin> L"
    "\<And>x. m' x = (if x \<in> span a (4096 * unat p) then 0 else m1 x)"
proof -
  obtain m1 where al: "alloc mm m p = (m1, a)"
    using z nz by (auto simp: zalloc_def Let_def split: prod.splits if_splits)
  show thesis
  proof (rule page_alloc_hit [OF rel ok al nz])
    fix i
    assume i: "i + unat p \<le> npages mm" "a = m_alloc_start mm + 4096 * of_nat i"
      and new: "page_rel mm m1 (insert (i, unat p) L)" "(i, unat p) \<notin> L"
    note wf = page_relD(1) [OF rel, unfolded wf_mm_def]
    have ua: "unat a = unat (m_alloc_start mm) + 4096 * i"
      using block_in_range(1) [OF new(1), of i "unat p"] i(2) by simp
    have p: "4096 * unat p < 18446744073709551616" using wf i(1) by auto
    then have "unat (PAGE_SIZE * p) = 4096 * unat p"
      unfolding PAGE_SIZE_def by (subst unat_mult_no_wrap) simp_all
    then have words: "8 * unat ((PAGE_SIZE * p) div 8) = 4096 * unat p" by (simp add: unat_div)
    have "unat a + 4096 * unat p < 2 ^ 64" using ua i(1) wf by auto
    then have content: "m' x = (if x \<in> span a (4096 * unat p) then 0 else m1 x)" for x
      using z al nz zero_loop [of a "(PAGE_SIZE * p) div 8" m1 x] words by (auto simp: zalloc_def)
    have "desc mm m' k = desc mm m1 k" if "k < npages mm" for k
      using page_not_descriptor [OF new(1), of i "unat p" _ k] that i(2) content
      unfolding desc_def by auto
    then show thesis
      using that [OF al i(2) page_rel_cong [OF new(1)] new(2) content] by blast
  qed
qed

lemma zalloc_effect:
  assumes "page_rel mm m L" "page_request_ok mm m p" "zalloc mm m p = (m', a)" "a \<noteq> 0"
  shows "\<exists>i. a = m_alloc_start mm + 4096 * of_nat i \<and> page_rel mm m' (insert (i, unat p) L) \<and>
    (i, unat p) \<notin> L \<and> (\<forall>x \<in> span a (4096 * unat p). m' x = 0) \<and>
    (\<forall>(j, q) \<in> L. \<forall>x \<in> span (m_alloc_start mm + 4096 * of_nat j) (4096 * q). m' x = m x)"
proof (rule zalloc_hit [OF assms])
  fix i m1
  assume al: "alloc mm m p = (m1, a)" and a: "a = m_alloc_start mm + 4096 * of_nat i"
    and new: "page_rel mm m' (insert (i, unat p) L)" "(i, unat p) \<notin> L"
    and content: "\<And>x. m' x = (if x \<in> span a (4096 * unat p) then 0 else m1 x)"
  have "m' x = m x" if "(j, q) \<in> L" "x \<in> span (m_alloc_start mm + 4096 * of_nat j) (4096 * q)" for j q x
  proof -
    have "x \<notin> span a (4096 * unat p)"
      using page_extent_apart [OF new(1), of j q i "unat p"] that new(2) unfolding a by fast
    moreover have "m1 x = m x"
    proof (rule page_provider.alloc_frame)
      show "page_blocks mm m (page_extent mm ` L)" using assms(1) by (auto simp: page_blocks_def)
      show "page_alloc_op mm m p = Some (m1, a)" using al by (simp add: page_alloc_op_def)
      show "(m_alloc_start mm + 4096 * of_nat j, 4096 * q) \<in> page_extent mm ` L"
        using that(1) by (force simp: page_extent_def)
    qed (use assms(2) that(2) in auto)
    ultimately show ?thesis using content by simp
  qed
  moreover have "\<forall>x \<in> span a (4096 * unat p). m' x = 0" using content by simp
  ultimately show ?thesis using a new by blast
qed

lemma align_value_unat:
  assumes n: "n < 64" and v: "unat v + (2 ^ n - 1) < 2 ^ 64"
  shows "unat (align_value v n) = (unat v + (2 ^ n - 1)) div 2 ^ n * 2 ^ n"
proof -
  let ?w = "v + mask n"
  have "align_value v n = ?w AND NOT (mask n)"
    by (simp add: align_value_def Let_def mask_eq_exp_minus_1)
  also have "\<dots> = push_bit n (drop_bit n ?w)"
    by (rule bit_word_eqI) (auto simp: bit_simps)
  finally have push: "align_value v n = push_bit n (drop_bit n ?w)" .
  then have "unat (align_value v n) = push_bit n (take_bit (64 - n) (drop_bit n (unat ?w)))"
  proof -
    have "take_bit 64 (unat ?w) = unat ?w"
      using unsigned_less [of ?w, where ?'a = nat] by (intro take_bit_nat_eq_self) simp
    then show ?thesis
      using n by (simp add: push unsigned_push_bit_eq unsigned_drop_bit_eq take_bit_push_bit)
  qed
  moreover have "take_bit (64 - n) (drop_bit n (unat ?w)) = drop_bit n (unat ?w)"
  proof -
    have "unat ?w < 2 ^ n * 2 ^ (64 - n)"
      using unsigned_less [of ?w, where ?'a = nat] n by (simp flip: power_add)
    then have "unat ?w div 2 ^ n < 2 ^ (64 - n)" by (simp add: less_mult_imp_div_less mult.commute)
    then show ?thesis by (simp add: drop_bit_eq_div take_bit_nat_eq_self)
  qed
  moreover have "unat (mask n :: u64) = mask n"
    using n by (intro bit_eqI) (auto simp: bit_unsigned_iff bit_mask_iff)
  then have "unat (mask n :: u64) = 2 ^ n - 1" by (simp add: mask_eq_exp_minus_1)
  then have "unat ?w = unat v + (2 ^ n - 1)" using v by (subst unat_add_no_wrap) simp_all
  ultimately show ?thesis by (simp add: push_bit_eq_mult drop_bit_eq_div)
qed

lemma align_value_eq:
  assumes "unat v + 4095 < 2 ^ 64"
  shows "unat (align_value v 12) = (unat v + 4095) div 4096 * 4096"
  using align_value_unat [of 12 v] assms by simp

lemma mm_init_rel:
  assumes fits: "unat hs + unat sz div 4096 + 4096 * (unat sz div 4096) + 4096 < 2 ^ 64"
    and pages: "0 < unat sz div 4096"
  shows "page_rel (fst (mm_init hs sz m)) (snd (mm_init hs sz m)) {(0, 1)}"
proof -
  obtain mm m' where mm: "mm_init hs sz m = (mm, m')" by fastforce
  define N where "N = unat sz div 4096"
  have n: "unat (sz div PAGE_SIZE) = N" by (simp add: PAGE_SIZE_def unat_div N_def)
  have N: "unat hs + N + 4096 * N + 4096 < 18446744073709551616" using fits by (simp add: N_def)
  have f: "npages mm = N" "m_first_page mm = hs" "m_heap_start mm = hs"
    "m_alloc_start mm = align_value (hs + sz div PAGE_SIZE) 12"
    using mm n by (auto simp: mm_init_def Let_def)
  have "unat (hs + sz div PAGE_SIZE) = unat hs + N"
    using N n by (subst unat_add_no_wrap) simp_all
  then have as: "unat (m_alloc_start mm) = (unat hs + N + 4095) div 4096 * 4096"
    using N f(4) align_value_eq [of "hs + sz div PAGE_SIZE"] by simp
  have below: "unat hs + N \<le> (unat hs + N + 4095) div 4096 * 4096" by linarith
  have above: "(unat hs + N + 4095) div 4096 * 4096 \<le> unat hs + N + 4095" by simp
  have wf: "wf_mm mm"
    unfolding wf_mm_def f(1-3) as using below above N pages by (auto simp: N_def)
  have m': "m' = (\<lambda>x. if x \<in> (\<lambda>k. hs + of_nat k) ` {1..<N} then 0 else if x = hs then 2 else m x)"
    using mm n by (auto simp: mm_init_def Let_def for_upto_conv_fold page_defs fold_fun_upd)
  have d: "desc mm m' k = (if 1 \<le> k \<and> k < N then 0 else if k = 0 then 2 else m (hs + of_nat k))"
    if "k \<le> N" for k
    using that N of_nat_u64_inj [of k 0] by (auto simp: desc_def f m' image_iff of_nat_u64_inj)
  have "block_at mm m' 0 1" using d pages by (auto simp: block_at_def N_def)
  then show ?thesis
    using wf d pages by (auto simp: page_rel_def mm f N_def)
qed

text \<open>A page is free as long as the live blocks do not fill the heap.\<close>

lemma alloc_one_succeeds:
  assumes rel: "page_rel mm m L" and room: "(\<Sum>(i, p) \<in> L. p) < npages mm"
  shows "snd (alloc mm m 1) \<noteq> 0"
proof
  assume null: "snd (alloc mm m 1) = 0"
  have "page_request_ok mm m 1" by (rule single_page_ok [OF page_relD(1) [OF rel]])
  then have "\<forall>j < npages mm. \<not> free_run mm m j 1"
    using page_alloc_null [OF rel, of 1 "fst (alloc mm m 1)"] null by (simp add: prod_eq_iff)
  moreover have "free_run mm m j 1 \<longleftrightarrow> desc mm m j = 0" for j
    by (auto simp: free_run_def) (metis le_antisym less_Suc_eq_le)
  ultimately have "{k. k < npages mm \<and> desc mm m k \<noteq> 0} = {..<npages mm}" by auto
  then show False using page_map_card [OF rel] room by simp
qed

section \<open>Properties\<close>

text \<open>A heap of four pages.\<close>

definition demo_memory :: pmem where
  "demo_memory = (\<lambda>x. 0)"

definition demo_mm :: MemoryManager where
  "demo_mm = fst (mm_init 0x1000 0x4000 demo_memory)"

definition demo_heap :: pmem where
  "demo_heap = snd (mm_init 0x1000 0x4000 demo_memory)"

lemma demo_rel: "page_rel demo_mm demo_heap {(0, 1)}"
  unfolding demo_mm_def demo_heap_def by (rule mm_init_rel) (simp_all add: demo_memory_def)

lemma demo_fields:
  "m_first_page demo_mm = 0x1000" "m_number_of_pages demo_mm = 4" "m_alloc_start demo_mm = 0x2000"
  by (simp_all add: demo_mm_def mm_init_def Let_def PAGE_SIZE_def align_value_def)

text \<open>
  C1. \<^verbatim>\<open>MemoryManager::alloc\<close>, for a request of at least one page that does not wrap the 64-bit index, when the
  descriptors encode the block map \<^verbatim>\<open>L\<close>: a non-null result is the address of the first page from which that many
  descriptors read as free, and only the descriptors from there on change.  If some run of that many
  free pages lies inside the managed pages, or the byte behind the descriptors is not zero, or one page is asked for, the result is
  inside and the new state encodes \<^verbatim>\<open>L\<close> with exactly that block added; a null result then means that
  no such run exists and leaves memory alone.  Otherwise the scan runs over the end of the descriptors: a non-null
  result is a block that ends behind the managed pages, and bytes behind the descriptors are overwritten.
\<close>

theorem alloc_first_fit:
  assumes "page_rel mm m L" "request_fits mm p" "alloc mm m p = (m', a)"
  shows "if a = 0 then m' = m \<and> (\<forall>i < npages mm. \<not> free_run mm m i (unat p))
    else \<exists>i. first_fit mm m 0 (unat p) i \<and> a = m_alloc_start mm + 4096 * of_nat i \<and>
      (\<forall>x. x \<notin> (\<lambda>k. m_first_page mm + of_nat k) ` {i..<i + unat p} \<longrightarrow> m' x = m x) \<and>
      (if unat p = 1 \<or> run_inside mm m (unat p) \<or> desc mm m (npages mm) \<noteq> 0
       then i + unat p \<le> npages mm \<and> page_rel mm m' (insert (i, unat p) L) \<and> (i, unat p) \<notin> L
       else npages mm < i + unat p \<and> desc mm m' (i + unat p - 1) = 2)"
proof -
  have p: "0 < unat p" "npages mm + unat p < 2 ^ 64" using assms(2) by (simp_all add: request_fits_def)
  show ?thesis
  proof (cases rule: alloc_cases [OF p, of m])
    case (1 i)
    have i: "i < npages mm" "free_run mm m i (unat p)" using 1(1) by (simp_all add: first_fit_def)
    have a: "a = m_alloc_start mm + 4096 * of_nat i" and m': "m' = mark_run (m_first_page mm) (of_nat i) p m"
      using 1(2) assms(3) by simp_all
    have small: "i < 18446744073709551616" "i + unat p < 2 ^ 64" "i + unat p - 1 < 2 ^ 64" using i(1) p by simp_all
    have ui: "unat (of_nat i :: u64) = i" using small(1) by (intro unat_of_nat_small) simp
    have wf: "0 < unat (m_alloc_start mm)" "unat (m_alloc_start mm) + 4096 * i < 18446744073709551616"
      using page_relD(1) [OF assms(1)] i(1) by (simp_all add: wf_mm_def)
    have "unat a = unat (m_alloc_start mm) + 4096 * i"
      unfolding a using unat_base_offset [of "m_alloc_start mm" 4096 i] wf(2) by simp
    then have nz: "a \<noteq> 0" using wf(1) by auto
    have out: "\<forall>x. x \<notin> (\<lambda>k. m_first_page mm + of_nat k) ` {i..<i + unat p} \<longrightarrow> m' x = m x"
      unfolding m' by (intro allI impI) (rule mark_run_outside [OF p(1) small(2)])
    have "i + unat p \<le> npages mm \<and> page_rel mm m' (insert (i, unat p) L) \<and> (i, unat p) \<notin> L" if "page_request_ok mm m p"
      using page_alloc_hit [OF assms(1) that assms(3) nz] 1(1)
      by (metis (no_types, lifting) first_fit_def linorder_neqE_nat zero_le)
    moreover have "npages mm < i + unat p" if "\<not> run_inside mm m (unat p)"
      using that i(2) not_less unfolding run_inside_def by blast
    moreover have "desc mm m' (i + unat p - 1) = 2"
      using desc_mark_run [of p "of_nat i" "i + unat p - 1" mm m] p(1) small by (simp add: m' ui)
    ultimately show ?thesis using 1(1) a nz out assms(2) by (auto simp: page_request_ok_def)
  next
    case 2
    then show ?thesis using assms(3) by simp
  qed
qed

lemma demo_alloc: "snd (alloc demo_mm demo_heap 2) = 0x3000"
  by code_simp

lemma demo_run: "free_run demo_mm demo_heap 1 2"
proof -
  have "demo_heap 0x1001 = 0" "demo_heap 0x1002 = 0" by code_simp+
  then show ?thesis by (auto simp: free_run_def desc_def demo_fields less_Suc_eq numeral_3_eq_3)
qed

theorem alloc_first_fit_witness:
  "\<exists>i. first_fit demo_mm demo_heap 0 2 i \<and> 0x3000 = m_alloc_start demo_mm + 4096 * of_nat i \<and>
    page_rel demo_mm (fst (alloc demo_mm demo_heap 2)) (insert (i, 2) {(0, 1)})"
proof -
  have "run_inside demo_mm demo_heap 2" using demo_run by (auto simp: run_inside_def demo_fields intro: exI [of _ 1])
  then show ?thesis
    using alloc_first_fit [OF demo_rel, of 2 "fst (alloc demo_mm demo_heap 2)" "0x3000"] demo_alloc
    by (auto simp: request_fits_def demo_fields prod_eq_iff)
qed

text \<open>
  C3. \<^verbatim>\<open>MemoryManager::dealloc\<close> undoes \<^verbatim>\<open>MemoryManager::alloc\<close>: for a manager whose descriptors lie below its pages and a
  request of at least one page that does not wrap the 64-bit index, releasing the block that a
  successful allocation has just returned restores every byte of memory, whatever memory held before.
\<close>

theorem dealloc_alloc:
  assumes "wf_mm mm" "request_fits mm p" "alloc mm m p = (m', a)" "a \<noteq> 0"
  shows "dealloc mm m' a = m"
proof -
  have p: "0 < unat p" "npages mm + unat p < 2 ^ 64" using assms(2) by (simp_all add: request_fits_def)
  show ?thesis
  proof (cases rule: alloc_cases [OF p, of m])
    case (1 i)
    have i: "i < npages mm" "free_run mm m i (unat p)" using 1(1) by (simp_all add: first_fit_def)
    have a: "a = m_alloc_start mm + 4096 * of_nat i" and m': "m' = mark_run (m_first_page mm) (of_nat i) p m"
      using 1(2) assms(3) by simp_all
    have small: "i < 18446744073709551616" "i + unat p < 2 ^ 64" using i(1) p by simp_all
    have ui: "unat (of_nat i :: u64) = i" using small(1) by (intro unat_of_nat_small) simp
    have d: "desc mm m' k = (if k = i + unat p - 1 then 2 else if i \<le> k \<and> k < i + unat p - 1 then 1 else desc mm m k)"
      if "k < 2 ^ 64" for k
      using desc_mark_run [of p "of_nat i" k mm m] p(1) small that by (simp add: m' ui)
    have blk: "block_at mm m' i (unat p)" using p(1) small by (auto simp: block_at_def d)
    have "dealloc mm m' a x = m x" for x
    proof (cases "x \<in> (\<lambda>k. m_first_page mm + of_nat k) ` {i..<i + unat p}")
      case True
      then have "m x = 0" using i(2) by (auto simp: free_run_def desc_def)
      then show ?thesis using True by (simp add: a dealloc_block_at [OF assms(1) blk i(1) small(2)])
    next
      case False
      then have "m' x = m x" unfolding m' by (rule mark_run_outside [OF p(1) small(2)])
      then show ?thesis using False by (simp add: a dealloc_block_at [OF assms(1) blk i(1) small(2)])
    qed
    then show ?thesis by (rule ext)
  next
    case 2
    then show ?thesis using assms(3,4) by simp
  qed
qed

theorem dealloc_alloc_witness:
  "dealloc demo_mm (fst (alloc demo_mm demo_heap 2)) 0x3000 = demo_heap"
  using dealloc_alloc [OF page_relD(1) [OF demo_rel], of 2 demo_heap "fst (alloc demo_mm demo_heap 2)" "0x3000"] demo_alloc
  by (simp add: request_fits_def demo_fields prod_eq_iff)

text \<open>
  \<^verbatim>\<open>MemoryManager::dealloc\<close> on the address of a live block removes that block and no
  other from the block map, and changes only the block's own descriptors.
\<close>

theorem dealloc_block:
  assumes "page_rel mm m L" "(i, p) \<in> L"
  shows "page_rel mm (dealloc mm m (m_alloc_start mm + 4096 * of_nat i)) (L - {(i, p)}) \<and>
    (\<forall>x. x \<notin> (\<lambda>k. m_first_page mm + of_nat k) ` {i..<i + p} \<longrightarrow>
      dealloc mm m (m_alloc_start mm + 4096 * of_nat i) x = m x)"
  using page_rel_dealloc [OF assms] by (simp add: dealloc_page_address [OF assms])

theorem dealloc_block_witness: "page_rel demo_mm (dealloc demo_mm demo_heap 0x2000) {}"
  using dealloc_block [OF demo_rel, of 0 1] by (simp add: demo_fields)

text \<open>
  \<^verbatim>\<open>MemoryManager::zalloc\<close> returns a block all of whose bytes are zero, records it in
  the block map, and leaves the contents of every block that was live before untouched.
\<close>

theorem zalloc_zeroes:
  assumes "page_rel mm m L" "page_request_ok mm m p" "zalloc mm m p = (m', a)" "a \<noteq> 0"
  shows "\<exists>i. a = m_alloc_start mm + 4096 * of_nat i \<and> page_rel mm m' (insert (i, unat p) L) \<and>
    (i, unat p) \<notin> L \<and> (\<forall>x \<in> span a (4096 * unat p). m' x = 0) \<and>
    (\<forall>(j, q) \<in> L. \<forall>x \<in> span (m_alloc_start mm + 4096 * of_nat j) (4096 * q). m' x = m x)"
  using assms by (rule zalloc_effect)

lemma demo_alloc1: "snd (alloc demo_mm demo_heap 1) = 0x3000"
  by code_simp

lemma demo_zalloc: "zalloc demo_mm demo_heap 1 = (fst (zalloc demo_mm demo_heap 1), 0x3000)"
  using demo_alloc1 by (simp add: zalloc_def Let_def case_prod_beta)

theorem zalloc_zeroes_witness:
  "fst (zalloc demo_mm demo_heap 1) 0x3FFF = 0"
  using zalloc_zeroes [OF demo_rel _ demo_zalloc]
  by (auto simp: page_request_ok_def request_fits_def demo_fields in_span)

text \<open>
  \<^verbatim>\<open>MemoryManager::get_statistics\<close> agrees with the block map: the used pages are the
  sum of the sizes of the live blocks, and used and free pages add up to the total.
\<close>

theorem statistics_exact:
  assumes "page_rel mm m L"
  shows "unat (used_pages (get_statistics mm m)) = (\<Sum>(i, p) \<in> L. p) \<and>
    unat (used_pages (get_statistics mm m)) + unat (free_pages (get_statistics mm m)) = npages mm"
proof -
  let ?used = "\<Sum>(i, p) \<in> L. p"
  have "card {k. k < npages mm \<and> desc mm m k \<noteq> 0} \<le> card {..<npages mm}" by (intro card_mono) auto
  then have le: "?used \<le> npages mm" by (simp add: page_map_card [OF assms])
  then have "?used < 2 ^ 64" using npages_small [OF page_relD(1) [OF assms]] by simp
  then have u: "unat (used_pages (get_statistics mm m)) = ?used"
    unfolding used_pages_count page_map_card [OF assms] by (intro unat_of_nat_small) simp
  have f: "free_pages (get_statistics mm m) = m_number_of_pages mm - used_pages (get_statistics mm m)"
    by (simp add: get_statistics_def Let_def)
  have "unat (free_pages (get_statistics mm m)) = npages mm - ?used"
    unfolding f using le u by (subst unat_sub) (simp_all add: word_le_nat_alt)
  then show ?thesis using u le by simp
qed

theorem statistics_exact_witness: "unat (used_pages (get_statistics demo_mm demo_heap)) = 1"
  using statistics_exact [OF demo_rel] by simp

text \<open>
  C2. Any sequence of page allocations and releases of live blocks, from a state whose descriptors encode the live blocks
  \<^verbatim>\<open>B\<close>, ends with live blocks that are pairwise disjoint address ranges, and a block that is never released keeps
  every byte its owner wrote, whatever other blocks come and go.  Every request has to be one that \<^verbatim>\<open>alloc\<close> serves
  inside the managed pages in the state it is made in (\<^theory_text>\<open>page_request_ok\<close>): one for a single page always is; one for more pages is
  when that many free pages lie in a row or the byte behind the descriptors is not zero.  The other requests are the
  ones that C1 shows to leave the managed pages.
\<close>

theorem page_clients_isolated:
  assumes "page_blocks mm m B"
    and "client_run (page_alloc_op mm) (page_free_op mm) page_bytes ops (m, B) = Some (m', B')"
    and "requests_ok (page_request_ok mm) (page_alloc_op mm) (page_free_op mm) page_bytes ops (m, B)"
  shows "page_blocks mm m' B' \<and> blocks_apart B' \<and>
    (\<forall>(b, k) \<in> B. alloc_op.Free b \<notin> set ops \<longrightarrow> (b, k) \<in> B' \<and> (\<forall>y \<in> span b k. m' y = m y))"
  using page_provider.run_rel [OF assms] page_provider.run_apart [OF assms]
    page_provider.run_frame [OF assms] by blast

lemma demo_blocks: "page_blocks demo_mm demo_heap {(0x2000, 4096)}"
  using demo_rel by (force simp: page_blocks_def page_extent_def demo_fields)

theorem page_clients_isolated_witness:
  "\<exists>m' B'. client_run (page_alloc_op demo_mm) (page_free_op demo_mm) page_bytes
      [alloc_op.Alloc 2, alloc_op.Free 0x3000] (demo_heap, {(0x2000, 4096)}) = Some (m', B')
    \<and> blocks_apart B' \<and> m' 0x2010 = demo_heap 0x2010"
proof -
  let ?ops = "[alloc_op.Alloc 2, alloc_op.Free 0x3000]"
  obtain m' B' where run: "client_run (page_alloc_op demo_mm) (page_free_op demo_mm) page_bytes
      ?ops (demo_heap, {(0x2000, 4096)}) = Some (m', B')"
    using demo_alloc by (auto simp: page_alloc_op_def page_free_op_def case_prod_beta)
  have "run_inside demo_mm demo_heap 2" using demo_run by (auto simp: run_inside_def demo_fields intro: exI [of _ 1])
  then have "requests_ok (page_request_ok demo_mm) (page_alloc_op demo_mm) (page_free_op demo_mm) page_bytes ?ops (demo_heap, {(0x2000, 4096)})"
    by (auto simp: page_request_ok_def request_fits_def demo_fields split: option.split)
  from page_clients_isolated [OF demo_blocks run this] run show ?thesis
    by (auto simp: in_span)
qed

text \<open>
  \<^verbatim>\<open>MemoryManager::init\<close> builds the descriptors of an empty heap: when the heap fits the
  address space and holds a page, the block map after it is the single page 0,
  reserved for the manager itself.
\<close>

theorem init_reserves_first_page:
  assumes "unat hs + unat sz div 4096 + 4096 * (unat sz div 4096) + 4096 < 2 ^ 64"
    and "0 < unat sz div 4096"
  shows "page_rel (fst (mm_init hs sz m)) (snd (mm_init hs sz m)) {(0, 1)}"
  using assms by (rule mm_init_rel)

theorem init_reserves_first_page_witness:
  "page_rel (fst (mm_init 0x80000000 0x10000 (\<lambda>_. 5))) (snd (mm_init 0x80000000 0x10000 (\<lambda>_. 5))) {(0, 1)}"
  by (rule init_reserves_first_page) simp_all

text \<open>
  The inner scan of \<^verbatim>\<open>alloc\<close> does not stop at the last descriptor: when the bytes after
  the descriptor array are zero and the last page is free, a request for two pages that
  no run inside the array satisfies is answered with the last page and the page behind
  the managed ones, and the byte after the array is overwritten with the Last mark.
\<close>

theorem alloc_overruns_descriptors:
  assumes "wf_mm mm" "npages mm = Suc i" "\<And>k. k < i \<Longrightarrow> desc mm m k \<noteq> 0"
    and "desc mm m i = 0" "desc mm m (Suc i) = 0"
  shows "snd (alloc mm m 2) = m_alloc_start mm + 4096 * of_nat i \<and>
    desc mm (fst (alloc mm m 2)) (npages mm) = 2"
proof -
  have N: "npages mm < 4503599627370496" using npages_small [OF assms(1)] by simp
  have ui: "unat (of_nat i :: u64) = i" using N assms(2) by (intro unat_of_nat_small) simp
  have run: "free_run mm m j 2 \<longleftrightarrow> desc mm m j = 0 \<and> desc mm m (Suc j) = 0" for j
  proof -
    have "(j \<le> k \<and> k < j + 2) = (k = j \<or> k = Suc j)" for k by auto
    then show ?thesis by (auto simp: free_run_def)
  qed
  have "0 < unat (2 :: u64)" "npages mm + unat (2 :: u64) < 2 ^ 64" using N by simp_all
  then show ?thesis
  proof (cases rule: alloc_cases [of 2 mm m])
    case (hit j)
    then have "desc mm m j = 0" "j \<le> i" using assms(2) run by (auto simp: first_fit_def)
    then have "j = i" using assms(3) le_neq_implies_less by blast
    then show ?thesis
      using hit(2) desc_mark_run [of 2 "of_nat i" "Suc i" mm m] N assms(2) by (simp add: ui)
  next
    case full
    then show ?thesis using run [of i] assms(2,4,5) by auto
  qed
qed

theorem alloc_overruns_descriptors_witness:
  "snd (alloc demo_mm (\<lambda>x. if x < 0x1003 then 2 else 0) 2) = 0x5000"
proof -
  have "desc demo_mm (\<lambda>x. if x < 0x1003 then 2 else 0) k \<noteq> 0" if "k < 3" for k
    using that by (auto simp: less_Suc_eq numeral_3_eq_3 desc_def demo_fields)
  then show ?thesis
    using alloc_overruns_descriptors [of demo_mm 3 "\<lambda>x. if x < 0x1003 then 2 else 0"]
      page_relD(1) [OF demo_rel]
    by (simp add: demo_fields desc_def)
qed

end
