(* ===== verification/PageTables.thy ===== *)
theory PageTables
  imports PageAlloc "HOL-Library.Sublist"
begin

text \<open>
  The Sv39 page tables (\<^verbatim>\<open>PageTable\<close>, \<^verbatim>\<open>PageTableEntry\<close>, \<^verbatim>\<open>VirtualAddress\<close>,
  \<^verbatim>\<open>PhysicalAddress\<close>) and the mapping operations of \<^verbatim>\<open>MemoryManager\<close>.  The bit-field
  structures are overlaid on 64-bit words exactly as the compiler lays them out; a table
  is a page of 512 such words in the byte memory.
\<close>

section \<open>Page table entries\<close>

definition pte_valid :: "u64 \<Rightarrow> u64" where "pte_valid w = get_field 0 1 w"
definition pte_read :: "u64 \<Rightarrow> u64" where "pte_read w = get_field 1 1 w"
definition pte_write :: "u64 \<Rightarrow> u64" where "pte_write w = get_field 2 1 w"
definition pte_execute :: "u64 \<Rightarrow> u64" where "pte_execute w = get_field 3 1 w"

definition set_valid :: "u64 \<Rightarrow> u64 \<Rightarrow> u64" where "set_valid v w = put_field 0 1 v w"
definition set_accessed :: "u64 \<Rightarrow> u64 \<Rightarrow> u64" where "set_accessed v w = put_field 6 1 v w"
definition set_dirty :: "u64 \<Rightarrow> u64 \<Rightarrow> u64" where "set_dirty v w = put_field 7 1 v w"
definition set_ppn0 :: "u64 \<Rightarrow> u64 \<Rightarrow> u64" where "set_ppn0 v w = put_field 10 9 v w"
definition set_ppn1 :: "u64 \<Rightarrow> u64 \<Rightarrow> u64" where "set_ppn1 v w = put_field 19 9 v w"
definition set_ppn2 :: "u64 \<Rightarrow> u64 \<Rightarrow> u64" where "set_ppn2 v w = put_field 28 26 v w"

definition set_bits :: "u64 \<Rightarrow> u64 \<Rightarrow> u64" where "set_bits bits w = w OR bits"

definition is_valid :: "u64 \<Rightarrow> bool" where "is_valid w = (pte_valid w = 1)"

definition is_leaf :: "u64 \<Rightarrow> bool" where
  "is_leaf w = (pte_read w \<noteq> 0 \<or> pte_write w \<noteq> 0 \<or> pte_execute w \<noteq> 0)"

definition get_ppn :: "u64 \<Rightarrow> u64" where "get_ppn w = push_bit 2 (w AND NOT 0x1ff)"

definition va_offset :: "u64 \<Rightarrow> u64" where "va_offset a = get_field 0 12 a"
definition vpn0 :: "u64 \<Rightarrow> u64" where "vpn0 a = get_field 12 9 a"
definition vpn1 :: "u64 \<Rightarrow> u64" where "vpn1 a = get_field 21 9 a"
definition vpn2 :: "u64 \<Rightarrow> u64" where "vpn2 a = get_field 30 9 a"

definition pa_ppn0 :: "u64 \<Rightarrow> u64" where "pa_ppn0 a = get_field 12 9 a"
definition pa_ppn1 :: "u64 \<Rightarrow> u64" where "pa_ppn1 a = get_field 21 9 a"
definition pa_ppn2 :: "u64 \<Rightarrow> u64" where "pa_ppn2 a = get_field 30 26 a"

definition set_ppns :: "u64 \<Rightarrow> u64 \<Rightarrow> u64" where
  "set_ppns paddr w = set_ppn2 (pa_ppn2 paddr) (set_ppn1 (pa_ppn1 paddr) (set_ppn0 (pa_ppn0 paddr) w))"

lemmas pte_defs = pte_valid_def pte_read_def pte_write_def pte_execute_def set_valid_def
  set_accessed_def set_dirty_def set_ppn0_def set_ppn1_def set_ppn2_def set_bits_def set_ppns_def
  va_offset_def vpn0_def vpn1_def vpn2_def pa_ppn0_def pa_ppn1_def pa_ppn2_def

text \<open>\<^verbatim>\<open>EntryBits\<close>\<close>

datatype EntryBits = NONE | VALID | READ | WRITE | EXECUTE | USER | GLOBAL | ACCESS | DIRTY
  | READ_WRITE | READ_EXECUTE | READ_WRITE_EXECUTE
  | USER_READ | USER_READ_WRITE | USER_READ_EXECUTE | USER_READ_WRITE_EXECUTE

fun entry_bits :: "EntryBits \<Rightarrow> u64" where
  "entry_bits NONE = 0"
| "entry_bits VALID = 1"
| "entry_bits READ = 2"
| "entry_bits WRITE = 4"
| "entry_bits EXECUTE = 8"
| "entry_bits USER = 16"
| "entry_bits GLOBAL = 32"
| "entry_bits ACCESS = 64"
| "entry_bits DIRTY = 128"
| "entry_bits READ_WRITE = 1 OR 2 OR 4"
| "entry_bits READ_EXECUTE = 1 OR 2 OR 8"
| "entry_bits READ_WRITE_EXECUTE = 1 OR 2 OR 4 OR 8"
| "entry_bits USER_READ = 1 OR 2 OR 16"
| "entry_bits USER_READ_WRITE = 1 OR 2 OR 4 OR 16"
| "entry_bits USER_READ_EXECUTE = 1 OR 2 OR 8 OR 16"
| "entry_bits USER_READ_WRITE_EXECUTE = 1 OR 2 OR 4 OR 8 OR 16"

section \<open>Walking and mapping\<close>

text \<open>The address of \<^verbatim>\<open>table->m_entries[k]\<close>.\<close>

definition entry_at :: "u64 \<Rightarrow> u64 \<Rightarrow> u64" where
  "entry_at table k = table + 8 * k"

text \<open>
  One round of the descending loop of \<^verbatim>\<open>map\<close>: an invalid entry gets a fresh zeroed table
  (the code does not test the result of \<^verbatim>\<open>zalloc\<close>), then the walk moves to the entry of
  the next level.
\<close>

definition map_descend :: "MemoryManager \<Rightarrow> u64 \<Rightarrow> nat \<Rightarrow> pmem \<times> u64 \<Rightarrow> pmem \<times> u64" where
  "map_descend mm vaddr i = (\<lambda>(m, v).
     let m = (if \<not> is_valid (load64 m v) then
                let (m, page) = zalloc mm m 1
                in store64 m v (set_ppns page (set_valid 1 (load64 m v)))
              else m);
         table = push_bit 2 (load64 m v AND NOT 0x1ff)
     in (m, entry_at table (if i = 0 then vpn0 vaddr else vpn1 vaddr)))"

definition leaf_entry :: "u64 \<Rightarrow> u64 \<Rightarrow> u64 \<Rightarrow> u64" where
  "leaf_entry paddr bits w =
     set_bits bits (set_ppns paddr (set_valid 1 (set_dirty 1 (set_accessed 1 w))))"

text \<open>\<^verbatim>\<open>for(int i = 1; i >= level; i--)\<close>; every call in the kernel passes level 0.\<close>

definition map_page :: "MemoryManager \<Rightarrow> u64 \<Rightarrow> u64 \<Rightarrow> u64 \<Rightarrow> u64 \<Rightarrow> nat \<Rightarrow> pmem \<Rightarrow> pmem" where
  "map_page mm root vaddr paddr bits level m =
     (let (m, v) = fold (map_descend mm vaddr) (rev [level..<2]) (m, entry_at root (vpn2 vaddr))
      in store64 m v (leaf_entry paddr bits (load64 m v)))"

definition map_range :: "MemoryManager \<Rightarrow> u64 \<Rightarrow> u64 \<Rightarrow> u64 \<Rightarrow> u64 \<Rightarrow> u64 \<Rightarrow> pmem \<Rightarrow> pmem" where
  "map_range mm root virtual_start virtual_end physical_start bits m =
     (let va = virtual_start AND NOT (PAGE_SIZE - 1);
          pa = physical_start AND NOT (PAGE_SIZE - 1);
          number_of_pages = (align_value virtual_end 12 - va) div PAGE_SIZE;
          (m, va, pa) = for_upto 0 number_of_pages
            (\<lambda>i (m, va, pa). (map_page mm root va pa bits 0 m, va + 4096, pa + 4096)) (m, va, pa)
      in m)"

definition identity_map_range :: "MemoryManager \<Rightarrow> u64 \<Rightarrow> u64 \<Rightarrow> u64 \<Rightarrow> u64 \<Rightarrow> pmem \<Rightarrow> pmem" where
  "identity_map_range mm root start end bits m =
     (let mem_addr = start AND NOT (PAGE_SIZE - 1);
          num_kb_pages = (align_value end 12 - mem_addr) div PAGE_SIZE;
          (m, mem_addr) = for_upto 0 num_kb_pages
            (\<lambda>i (m, a). (map_page mm root a a bits 0 m, a + 4096)) (m, mem_addr)
      in m)"

text \<open>The addresses the linker script defines, as \<^verbatim>\<open>map_system_defaults\<close> uses them.\<close>

record Linker =
  l_heap_start :: u64
  l_heap_size :: u64
  l_text_start :: u64
  l_text_end :: u64
  l_rodata_start :: u64
  l_rodata_end :: u64
  l_data_start :: u64
  l_data_end :: u64
  l_bss_start :: u64
  l_bss_end :: u64
  l_stack_start :: u64
  l_stack_end :: u64
  l_context_switching_start :: u64
  l_context_switching_end :: u64
  l_text_special_start :: u64
  l_text_special_end :: u64

definition map_system_defaults :: "MemoryManager \<Rightarrow> Linker \<Rightarrow> u64 \<Rightarrow> pmem \<Rightarrow> pmem" where
  "map_system_defaults mm l root m =
     (let rw = entry_bits READ_WRITE; rx = entry_bits READ_EXECUTE;
          m = identity_map_range mm root (l_heap_start l) (l_heap_start l + l_heap_size l) rw m;
          m = identity_map_range mm root (l_text_start l) (l_text_end l) rx m;
          m = identity_map_range mm root (l_rodata_start l) (l_rodata_end l) rx m;
          m = identity_map_range mm root (l_data_start l) (l_data_end l) rw m;
          m = identity_map_range mm root (l_bss_start l) (l_bss_end l) rw m;
          m = identity_map_range mm root (l_stack_start l) (l_stack_end l) rw m;
          m = map_page mm root 0x10000000 0x10000000 rw 0 m;
          m = identity_map_range mm root 0x02000000 0x0200ffff rw m;
          m = identity_map_range mm root 0x0c000000 0x0c002001 rw m;
          m = identity_map_range mm root 0x0c200000 0x0c208001 rw m;
          m = identity_map_range mm root (l_context_switching_start l) (l_context_switching_end l) rx m
      in identity_map_range mm root (l_text_special_start l) (l_text_special_end l) rx m)"

definition translate :: "pmem \<Rightarrow> u64 \<Rightarrow> u64 \<Rightarrow> string + u64" where
  "translate m root address =
     (let e = load64 m (entry_at root (vpn2 address)) in
      if \<not> is_valid e then Inl ''First entry is not valid''
      else if is_leaf e then Inr (get_ppn e OR va_offset address)
      else
        let e = load64 m (entry_at (get_ppn e) (vpn1 address)) in
        if \<not> is_valid e then Inl ''Second entry is not valid''
        else if is_leaf e then Inr (get_ppn e OR va_offset address)
        else
          let e = load64 m (entry_at (get_ppn e) (vpn0 address)) in
          if \<not> is_valid e then Inl ''Third entry is not valid''
          else Inr (get_ppn e OR va_offset address))"

section \<open>The supervisor address translation register\<close>

definition satp_ppn :: "u64 \<Rightarrow> u64" where "satp_ppn w = get_field 0 44 w"
definition satp_asid :: "u64 \<Rightarrow> u64" where "satp_asid w = get_field 44 16 w"
definition satp_mode :: "u64 \<Rightarrow> u64" where "satp_mode w = get_field 60 4 w"

definition build_satp :: "u8 \<Rightarrow> u64 \<Rightarrow> u64 \<Rightarrow> u64" where
  "build_satp mode asid addr =
     put_field 60 4 (ucast mode) (put_field 44 16 asid (put_field 0 44 (drop_bit 12 addr) 0))"

definition get_current_root_page_table :: "u64 \<Rightarrow> u64" where
  "get_current_root_page_table satp = push_bit 12 (satp_ppn satp)"

section \<open>Entries as bit patterns\<close>

text \<open>
  \<^verbatim>\<open>get_ppn\<close> keeps bit 9 and the reserved bits above bit 53 of an entry, so it is the
  physical page number only for entries in which those are clear.
\<close>

definition entry_ok :: "u64 \<Rightarrow> bool" where
  "entry_ok w \<longleftrightarrow> \<not> bit w 9 \<and> drop_bit 54 w = 0"

definition page_address :: "u64 \<Rightarrow> bool" where
  "page_address a \<longleftrightarrow> unat a mod 4096 = 0 \<and> unat a < 2 ^ 56"

definition phys_page :: "u64 \<Rightarrow> u64" where
  "phys_page paddr = push_bit 12 (get_field 12 44 paddr)"

lemma entry_ok_bits: "entry_ok w \<Longrightarrow> bit w i \<Longrightarrow> i \<noteq> 9 \<and> i < 54"
proof
  assume "entry_ok w" "bit w i"
  then show "i \<noteq> 9" by (auto simp: entry_ok_def)
  show "i < 54"
  proof (rule ccontr)
    assume "\<not> i < 54"
    then have "bit (drop_bit 54 w) (i - 54)" using \<open>bit w i\<close> by (simp add: bit_simps)
    then show False using \<open>entry_ok w\<close> by (simp add: entry_ok_def)
  qed
qed

lemma entry_okI: "(\<And>i. bit w i \<Longrightarrow> i \<noteq> 9 \<and> i < 54) \<Longrightarrow> entry_ok w"
  by (force simp: entry_ok_def bit_simps intro!: bit_word_eqI)

lemma page_address_bits: "page_address a \<Longrightarrow> bit a i \<Longrightarrow> 12 \<le> i \<and> i < 56"
  using small_word_bits [of a 56 i] aligned_word_bits [of a 12 i] by (simp add: page_address_def)

lemma page_address_phys_page:
  assumes "page_address a" shows "phys_page a = a"
proof (rule bit_word_eqI)
  fix i
  have "bit a i \<Longrightarrow> 12 \<le> i \<and> i < 56" using page_address_bits [OF assms] .
  then show "bit (phys_page a) i = bit a i" if "i < LENGTH(64)"
    using that by (auto simp: phys_page_def bit_simps)
qed

lemma mask_9: "(0x1ff :: u64) = mask 9"
  by (simp add: mask_eq_exp_minus_1)

lemma bit_get_ppn [simp]: "bit (get_ppn w) i \<longleftrightarrow> i < 64 \<and> 11 \<le> i \<and> bit w (i - 2)"
  unfolding get_ppn_def mask_9 by (auto simp: bit_simps)

lemma is_valid_bit: "is_valid w \<longleftrightarrow> bit w 0"
proof -
  have "pte_valid w = of_bool (bit w 0)"
    by (rule bit_word_eqI) (auto simp: pte_valid_def bit_simps)
  then show ?thesis by (simp add: is_valid_def)
qed

lemma field1_zero: "get_field k 1 w \<noteq> 0 \<longleftrightarrow> bit w k"
proof -
  have "get_field k 1 w = of_bool (bit w k)"
    by (rule bit_word_eqI) (auto simp: bit_simps)
  then show ?thesis by simp
qed

lemma is_leaf_bits: "is_leaf w \<longleftrightarrow> bit w 1 \<or> bit w 2 \<or> bit w 3"
  using field1_zero [of _ w] by (simp add: is_leaf_def pte_defs)

lemma bit_set_ppns:
  "bit (set_ppns p w) i \<longleftrightarrow> i < 64 \<and> (if 10 \<le> i \<and> i < 54 then bit p (i + 2) else bit w i)"
  by (auto simp: pte_defs)

lemma bit_one_word: "bit (1 :: u64) i \<longleftrightarrow> i = 0"
  by (auto simp: bit_simps)

lemma bit_leaf_entry:
  "bit (leaf_entry p bits w) i \<longleftrightarrow> i < 64 \<and>
    (bit bits i \<or> (if 10 \<le> i \<and> i < 54 then bit p (i + 2) else i = 0 \<or> i = 6 \<or> i = 7 \<or> bit w i))"
proof -
  have "bit (leaf_entry p bits w) i \<longleftrightarrow> bit bits i \<or> bit (set_ppns p (set_valid 1 (set_dirty 1 (set_accessed 1 w)))) i"
    by (auto simp add: leaf_entry_def set_bits_def bit_simps)
  also have "\<dots> \<longleftrightarrow> i < 64 \<and>
    (bit bits i \<or> (if 10 \<le> i \<and> i < 54 then bit p (i + 2) else i = 0 \<or> i = 6 \<or> i = 7 \<or> bit w i))"
    unfolding bit_set_ppns
    by (auto simp: set_valid_def set_dirty_def set_accessed_def bit_one_word dest: bit_imp_le_length)
  finally show ?thesis .
qed

lemma link_entry:
  assumes "page_address p"
  defines "e \<equiv> set_ppns p (set_valid 1 0)"
  shows "is_valid e" "\<not> is_leaf e" "entry_ok e" "get_ppn e = p" "push_bit 2 (e AND NOT 0x1ff) = p"
proof -
  have b: "bit e i \<longleftrightarrow> i < 64 \<and> (if 10 \<le> i \<and> i < 54 then bit p (i + 2) else i = 0)" for i
    by (auto simp: e_def bit_set_ppns set_valid_def bit_one_word)
  show "is_valid e" "\<not> is_leaf e" by (simp_all add: is_valid_bit is_leaf_bits b)
  show "entry_ok e" by (auto simp: entry_ok_def b bit_simps intro!: bit_word_eqI)
  show "get_ppn e = p"
  proof (rule bit_word_eqI)
    fix i assume "i < LENGTH(64)"
    moreover have "bit p i \<Longrightarrow> 12 \<le> i \<and> i < 56" using page_address_bits [OF assms(1)] .
    moreover have "2 \<le> i \<Longrightarrow> Suc (Suc (i - 2)) = i" by simp
    ultimately show "bit (get_ppn e) i = bit p i" by (cases "2 \<le> i") (auto simp: b)
  qed
  then show "push_bit 2 (e AND NOT 0x1ff) = p" by (simp only: get_ppn_def)
qed

lemma leaf_entry_props:
  assumes "entry_ok w" "bits AND NOT 0x1ff = 0"
  shows "is_valid (leaf_entry p bits w)" "entry_ok (leaf_entry p bits w)"
    "get_ppn (leaf_entry p bits w) = phys_page p"
proof -
  have low: "bit bits i \<Longrightarrow> i < 9" for i
  proof (rule ccontr)
    assume "bit bits i" "\<not> i < 9"
    then have "bit (bits AND NOT (mask 9)) i"
      using bit_imp_le_length [OF \<open>bit bits i\<close>] by (simp add: bit_simps)
    then show False using assms(2) unfolding mask_9 by simp
  qed
  note w = entry_ok_bits [OF assms(1)]
  show "is_valid (leaf_entry p bits w)" by (simp add: is_valid_bit bit_leaf_entry)
  show "entry_ok (leaf_entry p bits w)"
  proof (rule entry_okI)
    fix i assume "bit (leaf_entry p bits w) i"
    then show "i \<noteq> 9 \<and> i < 54"
      using low [of i] w [of i] by (auto simp: bit_leaf_entry split: if_splits)
  qed
  show "get_ppn (leaf_entry p bits w) = phys_page p"
  proof (rule bit_word_eqI)
    fix i
    have "2 \<le> i \<Longrightarrow> Suc (Suc (i - 2)) = i" by simp
    then show "bit (get_ppn (leaf_entry p bits w)) i = bit (phys_page p) i" if "i < LENGTH(64)"
      using that low [of "i - 2"] w [of "i - 2"]
      by (cases "2 \<le> i") (auto simp: bit_leaf_entry phys_page_def bit_simps)
  qed
qed

section \<open>The tree of tables\<close>

definition table_entry :: "pmem \<Rightarrow> u64 \<Rightarrow> nat \<Rightarrow> u64" where
  "table_entry m t k = load64 m (entry_at t (of_nat k))"

definition child :: "pmem \<Rightarrow> u64 \<Rightarrow> nat \<Rightarrow> u64 option" where
  "child m t k = (let e = table_entry m t k in if is_valid e then Some (get_ppn e) else None)"

text \<open>The table, or for a path of three indices the page, that a path of entries leads to.\<close>

fun walk :: "pmem \<Rightarrow> u64 \<Rightarrow> nat list \<Rightarrow> u64 option" where
  "walk m t [] = Some t"
| "walk m t (k # ks) = do { t' \<leftarrow> child m t k; walk m t' ks }"

lemma walk_snoc: "walk m t (p @ [k]) = do { t' \<leftarrow> walk m t p; child m t' k }"
proof (induction p arbitrary: t)
  case Nil
  show ?case by (cases "child m t k") simp_all
next
  case (Cons j p)
  then show ?case by (cases "child m t j") simp_all
qed

definition is_table :: "pmem \<Rightarrow> u64 \<Rightarrow> nat list \<Rightarrow> u64 \<Rightarrow> bool" where
  "is_table m root p t \<longleftrightarrow> length p \<le> 2 \<and> set p \<subseteq> {..<512} \<and> walk m root p = Some t"

text \<open>The entry of a last-level table that a path of three indices ends with, when it is valid.\<close>

definition leaf :: "pmem \<Rightarrow> u64 \<Rightarrow> nat list \<Rightarrow> u64 option" where
  "leaf m root p = do { t \<leftarrow> walk m root (butlast p); if is_valid (table_entry m t (last p)) then Some (table_entry m t (last p)) else None }"

lemma walk_leaf:
  assumes "p \<noteq> []" shows "walk m root p = map_option get_ppn (leaf m root p)"
proof -
  have "walk m root (butlast p @ [last p]) = map_option get_ppn (leaf m root p)"
    by (cases "walk m root (butlast p)") (simp_all add: walk_snoc leaf_def child_def)
  then show ?thesis using assms by simp
qed

lemma leaf_None: "p \<noteq> [] \<Longrightarrow> walk m root p = None \<Longrightarrow> leaf m root p = None"
  by (simp add: walk_leaf)

lemma leaf_agree:
  assumes "walk m' root (butlast p) = walk m root (butlast p)"
    and "\<And>t. is_table m root (butlast p) t \<Longrightarrow> table_entry m' t (last p) = table_entry m t (last p)"
    and p: "length p = 3" "set p \<subseteq> {..<512}"
  shows "leaf m' root p = leaf m root p"
proof (cases "walk m root (butlast p)")
  case (Some t)
  have "set (butlast p) \<subseteq> {..<512}" using p(2) by (auto dest: in_set_butlastD)
  then have "is_table m root (butlast p) t" using Some p(1) by (simp add: is_table_def)
  then show ?thesis using assms(1,2) Some by (simp add: leaf_def)
qed (simp add: leaf_def assms(1))

lemma last_index: "length p = 3 \<Longrightarrow> set p \<subseteq> {..<512} \<Longrightarrow> last p < (512 :: nat)"
  by (cases p rule: rev_cases) auto

lemma butlast_path: "length p = 3 \<Longrightarrow> set p \<subseteq> {..<512 :: nat} \<Longrightarrow> length (butlast p) \<le> 3 \<and> set (butlast p) \<subseteq> {..<512}"
  by (auto dest: in_set_butlastD)

text \<open>
  A well-formed address space: the tables are live one-page blocks of the page allocator,
  no table is reached by two paths, entries are zero or valid, valid ones of inner tables point to a table,
  and no entry has the bits that \<^verbatim>\<open>get_ppn\<close> would leak into an address.
\<close>

definition entry_fits :: "nat list \<Rightarrow> u64 \<Rightarrow> bool" where
  "entry_fits p e \<longleftrightarrow> entry_ok e \<and> (if is_valid e then length p < 2 \<longrightarrow> \<not> is_leaf e else e = 0)"

definition pt_inv :: "MemoryManager \<Rightarrow> pmem \<Rightarrow> (nat \<times> nat) set \<Rightarrow> u64 \<Rightarrow> bool" where
  "pt_inv mm m L root \<longleftrightarrow> page_rel mm m L \<and>
     unat (m_alloc_start mm) mod 4096 = 0 \<and> unat (m_alloc_start mm) + 4096 * npages mm \<le> 2 ^ 56 \<and>
     (\<forall>p t. is_table m root p t \<longrightarrow> (t, 4096) \<in> page_extent mm ` L \<and>
        (\<forall>k < 512. entry_fits p (table_entry m t k))) \<and>
     (\<forall>p q t. is_table m root p t \<longrightarrow> is_table m root q t \<longrightarrow> p = q)"

lemma pt_invD:
  assumes "pt_inv mm m L root"
  shows "page_rel mm m L" "unat (m_alloc_start mm) mod 4096 = 0"
    "unat (m_alloc_start mm) + 4096 * npages mm \<le> 2 ^ 56"
    "is_table m root p t \<Longrightarrow> (t, 4096) \<in> page_extent mm ` L"
    "is_table m root p t \<Longrightarrow> k < 512 \<Longrightarrow> entry_fits p (table_entry m t k)"
    "is_table m root p t \<Longrightarrow> is_table m root q t \<Longrightarrow> p = q"
  using assms unfolding pt_inv_def by blast+

lemma extent_page_address:
  assumes "page_rel mm m L" "unat (m_alloc_start mm) mod 4096 = 0"
    "unat (m_alloc_start mm) + 4096 * npages mm \<le> 2 ^ 56" "(t, n) \<in> page_extent mm ` L"
  shows "page_address t"
proof -
  obtain i p where i: "(i, p) \<in> L" "t = m_alloc_start mm + 4096 * of_nat i"
    using assms(4) by (auto simp: page_extent_def)
  note r = block_in_range [OF assms(1) i(1)]
  have "unat t < 72057594037927936" using r assms(3) unfolding i(2) by simp
  moreover have "unat t mod 4096 = 0" using r(1) assms(2) unfolding i(2) by simp
  ultimately show ?thesis by (simp add: page_address_def)
qed

lemma table_page_address:
  assumes "pt_inv mm m L root" "is_table m root p t"
  shows "page_address t"
  using extent_page_address [OF pt_invD(1,2,3) [OF assms(1)] pt_invD(4) [OF assms]] .

lemma unat_entry_at:
  assumes "page_address t" "k < 512"
  shows "unat (entry_at t (of_nat k)) = unat t + 8 * k"
proof -
  have "unat (of_nat k :: u64) = k" using assms(2) by (intro unat_of_nat_small) simp
  then have "unat (8 * of_nat k :: u64) = 8 * k" using assms(2) by (subst unat_mult_no_wrap) simp_all
  then show ?thesis
    using assms unfolding entry_at_def page_address_def by (subst unat_add_no_wrap) auto
qed

lemma entry_at_aligned:
  assumes "page_address t" "k < 512"
  shows "unat (entry_at t (of_nat k)) mod 8 = 0"
proof -
  have "unat t mod 8 = unat t mod 4096 mod 8" by (simp add: mod_mod_cancel)
  then have "unat t mod 8 = 0" using assms(1) by (simp add: page_address_def)
  then show ?thesis by (simp add: unat_entry_at [OF assms] mod_add_left_eq [symmetric, of "unat t"])
qed

lemma entry_at_span:
  assumes "page_address t" "k < 512"
  shows "span (entry_at t (of_nat k)) 8 \<subseteq> span t 4096"
proof
  fix x assume "x \<in> span (entry_at t (of_nat k)) 8"
  moreover have "unat t < 72057594037927936" using assms(1) by (simp add: page_address_def)
  ultimately show "x \<in> span t 4096"
    using assms(2) unat_entry_at [OF assms] by (simp add: span_eq_range)
qed

lemma entry_at_inj:
  assumes "page_address t" "k < 512" "page_address t'" "k' < 512"
    and "entry_at t (of_nat k) = entry_at t' (of_nat k')"
  shows "t = t' \<and> k = k'"
proof -
  have e: "unat t + 8 * k = unat t' + 8 * k'"
    using unat_entry_at [OF assms(1,2)] unat_entry_at [OF assms(3,4)] assms(5) by simp
  have m: "(n + 8 * j) mod 4096 = 8 * j" if "n mod 4096 = 0" "j < 512" for n j :: nat
    using that by (simp add: mod_add_left_eq [symmetric, of n])
  have "(unat t + 8 * k) mod 4096 = 8 * k" "(unat t' + 8 * k') mod 4096 = 8 * k'"
    using assms by (auto simp: page_address_def intro: m)
  then have "k = k'" using e by simp
  then show ?thesis using e by (simp add: word_unat_eq_iff)
qed

lemma table_entry_store:
  assumes "page_address t" "k < 512" "page_address t'" "k' < 512"
  shows "table_entry (store64 m (entry_at t (of_nat k)) v) t' k' =
    (if t' = t \<and> k' = k then v else table_entry m t' k')"
proof (cases "entry_at t (of_nat k) = entry_at t' (of_nat k')")
  case True
  then show ?thesis using entry_at_inj [OF assms True] by (simp add: table_entry_def)
next
  case False
  then have "span (entry_at t' (of_nat k')) 8 \<inter> span (entry_at t (of_nat k)) 8 = {}"
    using assms by (intro aligned_words_disjoint entry_at_aligned) auto
  then show ?thesis using False by (auto simp: table_entry_def load64_store64_other)
qed

lemma page_rel_store:
  assumes "page_rel mm m L" "(t, 4096) \<in> page_extent mm ` L" "page_address t" "k < 512"
  shows "page_rel mm (store64 m (entry_at t (of_nat k)) v) L"
proof (rule page_rel_cong [OF assms(1)])
  fix j assume j: "j < npages mm"
  obtain i p where ip: "(i, p) \<in> L" "t = m_alloc_start mm + 4096 * of_nat i" "p = 1"
    using assms(2) by (auto simp: page_extent_def)
  have "m_first_page mm + of_nat j \<notin> span t 4096"
    using page_not_descriptor [OF assms(1) ip(1) _ j] ip by auto
  then have "m_first_page mm + of_nat j \<notin> span (entry_at t (of_nat k)) 8"
    using entry_at_span [OF assms(3,4)] by blast
  then show "desc mm (store64 m (entry_at t (of_nat k)) v) j = desc mm m j"
    by (simp add: desc_def)
qed

lemma table_entry_cong:
  assumes "page_address t" "k < 512" "\<And>x. x \<in> span t 4096 \<Longrightarrow> m' x = m x"
  shows "table_entry m' t k = table_entry m t k"
  unfolding table_entry_def
  by (rule load64_cong) (use entry_at_span [OF assms(1,2)] assms(3) in blast)

section \<open>How an update changes the tree\<close>

lemma walk_append: "walk m t (p @ q) = do { t' \<leftarrow> walk m t p; walk m t' q }"
proof (induction p arbitrary: t)
  case (Cons j p)
  then show ?case by (cases "child m t j") simp_all
qed simp

lemma walk_agree:
  assumes "\<And>q t j. is_table m root q t \<Longrightarrow> j < 512 \<Longrightarrow> prefix (q @ [j]) p \<Longrightarrow> child m' t j = child m t j"
    and "length p \<le> 3" "set p \<subseteq> {..<512}"
  shows "walk m' root p = walk m root p"
  using assms
proof (induction p rule: rev_induct)
  case (snoc j p)
  have ih: "walk m' root p = walk m root p"
  proof (rule snoc.IH)
    fix q t i assume "is_table m root q t" "i < 512" "prefix (q @ [i]) p"
    then show "child m' t i = child m t i"
      using snoc.prems(1) by (meson prefix_order.trans prefixI)
  qed (use snoc.prems in auto)
  show ?case
  proof (cases "walk m root p")
    case (Some t)
    then have "is_table m root p t" using snoc.prems by (auto simp: is_table_def)
    then have "child m' t j = child m t j" using snoc.prems by (intro snoc.prems(1)) auto
    then show ?thesis by (simp add: walk_snoc ih Some)
  qed (simp add: walk_snoc ih)
qed simp

lemma walk_store:
  assumes inv: "pt_inv mm m L root" and t: "is_table m root path t" and k: "k < 512"
    and p: "length p \<le> 3" "set p \<subseteq> {..<512}" "\<not> prefix (path @ [k]) p"
  shows "walk (store64 m (entry_at t (of_nat k)) v) root p = walk m root p"
proof (rule walk_agree [OF _ p(1,2)])
  fix q t' j
  assume q: "is_table m root q t'" "j < 512" "prefix (q @ [j]) p"
  have "\<not> (t' = t \<and> j = k)"
  proof
    assume "t' = t \<and> j = k"
    then show False using pt_invD(6) [OF inv, of path t q] t q p(3) by simp
  qed
  then show "child (store64 m (entry_at t (of_nat k)) v) t' j = child m t' j"
    using q table_page_address [OF inv] t k by (auto simp: child_def table_entry_store)
qed

lemma child_store:
  assumes "page_address t" "k < 512"
  shows "child (store64 m (entry_at t (of_nat k)) v) t k = (if is_valid v then Some (get_ppn v) else None)"
  using assms by (simp add: child_def table_entry_store)

lemma walk_store_same:
  assumes inv: "pt_inv mm m L root" and t: "is_table m root path t" and k: "k < 512"
  shows "walk (store64 m (entry_at t (of_nat k)) v) root (path @ [k]) =
    (if is_valid v then Some (get_ppn v) else None)"
proof -
  have "walk (store64 m (entry_at t (of_nat k)) v) root path = Some t"
    using walk_store [OF inv t k, of path v] t by (simp add: is_table_def)
  then show ?thesis by (simp add: walk_snoc child_store [OF table_page_address [OF inv t] k])
qed

lemma leaf_store:
  assumes inv: "pt_inv mm m L root" and t: "is_table m root path t" and k: "k < 512"
    and p: "length p = 3" "set p \<subseteq> {..<512}" "\<not> prefix (path @ [k]) p"
  shows "leaf (store64 m (entry_at t (of_nat k)) v) root p = leaf m root p"
proof (rule leaf_agree [OF _ _ p(1,2)])
  have pre: "prefix (butlast p) p" by (simp add: prefixeq_butlast)
  show "walk (store64 m (entry_at t (of_nat k)) v) root (butlast p) = walk m root (butlast p)"
    using walk_store [OF inv t k, of "butlast p" v] butlast_path [OF p(1,2)] p(3) pre prefix_order.trans by blast
  fix t' assume t': "is_table m root (butlast p) t'"
  have "\<not> (t' = t \<and> last p = k)"
  proof
    assume a: "t' = t \<and> last p = k"
    then have "butlast p = path" using pt_invD(6) [OF inv t] t' by metis
    then have "path @ [k] = p" using a p(1) by (metis append_butlast_last_id list.size(3) zero_neq_numeral)
    then show False using p(3) by simp
  qed
  then show "table_entry (store64 m (entry_at t (of_nat k)) v) t' (last p) = table_entry m t' (last p)"
    unfolding table_entry_store [OF table_page_address [OF inv t] k table_page_address [OF inv t'] last_index [OF p(1,2)]] by (rule if_not_P)
qed

lemma leaf_store_same:
  assumes inv: "pt_inv mm m L root" and t: "is_table m root path t" and k: "k < 512"
  shows "leaf (store64 m (entry_at t (of_nat k)) v) root (path @ [k]) = (if is_valid v then Some v else None)"
proof -
  have "walk (store64 m (entry_at t (of_nat k)) v) root path = Some t"
    using walk_store [OF inv t k, of path v] t by (simp add: is_table_def)
  then show ?thesis
    by (simp add: leaf_def table_entry_store [OF table_page_address [OF inv t] k table_page_address [OF inv t] k])
qed

text \<open>Writing an entry of a last-level table.\<close>

lemma pt_inv_leaf:
  assumes inv: "pt_inv mm m L root" and t: "is_table m root path t" "length path = 2" and k: "k < 512"
    and v: "entry_ok v" "is_valid v"
  shows "pt_inv mm (store64 m (entry_at t (of_nat k)) v) L root"
proof -
  let ?m = "store64 m (entry_at t (of_nat k)) v"
  have tab: "is_table ?m root p t' \<longleftrightarrow> is_table m root p t'" for p t'
  proof -
    have "length p \<le> 2 \<Longrightarrow> \<not> prefix (path @ [k]) p" using t(2) prefix_length_le by fastforce
    then show ?thesis using walk_store [OF inv t(1) k, of p v] by (auto simp: is_table_def)
  qed
  have fits: "entry_fits p (table_entry ?m t' j)" if "is_table m root p t'" "j < 512" for p t' j
  proof -
    have "p = path" if "t' = t" using pt_invD(6) [OF inv t(1), of p] \<open>is_table m root p t'\<close> that by simp
    then show ?thesis
      using pt_invD(5) [OF inv that] t(2) v
        table_entry_store [OF table_page_address [OF inv t(1)] k table_page_address [OF inv that(1)] that(2)]
      by (auto simp: entry_fits_def)
  qed
  show ?thesis
    unfolding pt_inv_def tab
    using fits pt_invD [OF inv] page_rel_store [OF pt_invD(1) [OF inv] _ table_page_address [OF inv t(1)] k] t(1)
    by blast
qed

text \<open>A fresh table is not yet part of the tree.\<close>

lemma page_extent_insert: "page_extent mm ` insert (i, 1) L =
    insert (m_alloc_start mm + 4096 * of_nat i, 4096) (page_extent mm ` L)"
  by (simp add: page_extent_def)

text \<open>An address space does not change while its tables keep their contents.\<close>

lemma pt_inv_frame:
  assumes inv: "pt_inv mm m L root" and rel: "page_rel mm m' L'" "L \<subseteq> L'"
    and same: "\<And>p t x. is_table m root p t \<Longrightarrow> x \<in> span t 4096 \<Longrightarrow> m' x = m x"
  shows "pt_inv mm m' L' root" "length p \<le> 3 \<Longrightarrow> set p \<subseteq> {..<512} \<Longrightarrow> walk m' root p = walk m root p"
    "length p = 3 \<Longrightarrow> set p \<subseteq> {..<512} \<Longrightarrow> leaf m' root p = leaf m root p"
proof -
  have entry: "table_entry m' t k = table_entry m t k" if "is_table m root p t" "k < 512" for p t k
    using table_entry_cong [OF table_page_address [OF inv that(1)] that(2)] same [OF that(1)] by blast
  show walk: "walk m' root p = walk m root p" if "length p \<le> 3" "set p \<subseteq> {..<512}" for p
    by (rule walk_agree [OF _ that]) (simp add: child_def entry)
  then show "length p = 3 \<Longrightarrow> set p \<subseteq> {..<512} \<Longrightarrow> leaf m' root p = leaf m root p"
    using entry last_index butlast_path by (intro leaf_agree) blast+
  have tab: "is_table m' root p t \<longleftrightarrow> is_table m root p t" for p t using walk by (auto simp: is_table_def)
  have "(t, 4096) \<in> page_extent mm ` L'" if "is_table m root p t" for p t
    using pt_invD(4) [OF inv that] rel(2) by blast
  then show "pt_inv mm m' L' root"
    unfolding pt_inv_def tab using rel(1) pt_invD(2-6) [OF inv] entry by simp
qed

text \<open>
  The blocks that are no tables of \<^verbatim>\<open>root\<close>, and what an operation on the address space keeps: these blocks stay
  allocated, do not become tables and keep their contents.
\<close>

definition others :: "MemoryManager \<Rightarrow> pmem \<Rightarrow> (nat \<times> nat) set \<Rightarrow> u64 \<Rightarrow> (nat \<times> nat) set" where
  "others mm m L root = {b \<in> L. \<forall>p. \<not> is_table m root p (fst (page_extent mm b))}"

definition grows :: "MemoryManager \<Rightarrow> u64 \<Rightarrow> pmem \<Rightarrow> (nat \<times> nat) set \<Rightarrow> pmem \<Rightarrow> (nat \<times> nat) set \<Rightarrow> bool" where
  "grows mm root m L m' L' \<longleftrightarrow> L \<subseteq> L' \<and> others mm m L root \<subseteq> others mm m' L' root \<and>
     (\<forall>b \<in> others mm m L root. \<forall>x \<in> span (fst (page_extent mm b)) (snd (page_extent mm b)). m' x = m x)"

lemma grows_refl: "grows mm root m L m L"
  by (simp add: grows_def)

lemma grows_subset: "grows mm root m L m' L' \<Longrightarrow> L \<subseteq> L'"
  by (simp add: grows_def)

lemma grows_trans:
  assumes "grows mm root m L m1 L1" "grows mm root m1 L1 m2 L2" shows "grows mm root m L m2 L2"
  unfolding grows_def
proof (intro conjI ballI)
  fix b x assume b: "b \<in> others mm m L root" "x \<in> span (fst (page_extent mm b)) (snd (page_extent mm b))"
  then have "b \<in> others mm m1 L1 root" using assms(1) by (auto simp: grows_def)
  then have "m2 x = m1 x" using assms(2) b(2) by (simp add: grows_def)
  moreover have "m1 x = m x" using assms(1) b by (simp add: grows_def)
  ultimately show "m2 x = m x" by simp
qed (use assms in \<open>auto simp: grows_def\<close>)

lemma zalloc_pages:
  assumes inv: "pt_inv mm m L root" and z: "zalloc mm m p = (m1, a)" "a \<noteq> 0" and p: "page_request_ok mm m p"
  obtains i where "a = m_alloc_start mm + 4096 * of_nat i" "(i, unat p) \<notin> L" "pt_inv mm m1 (insert (i, unat p) L) root"
    "\<forall>x \<in> span a (4096 * unat p). m1 x = 0"
    "\<And>q. length q \<le> 3 \<Longrightarrow> set q \<subseteq> {..<512} \<Longrightarrow> walk m1 root q = walk m root q"
    "\<And>q. length q = 3 \<Longrightarrow> set q \<subseteq> {..<512} \<Longrightarrow> leaf m1 root q = leaf m root q"
    "grows mm root m L m1 (insert (i, unat p) L)" "(i, unat p) \<in> others mm m1 (insert (i, unat p) L) root"
proof -
  obtain i where i: "a = m_alloc_start mm + 4096 * of_nat i" "page_rel mm m1 (insert (i, unat p) L)" "(i, unat p) \<notin> L"
    "\<forall>x \<in> span a (4096 * unat p). m1 x = 0"
    and keep: "\<forall>(j, q) \<in> L. \<forall>x \<in> span (m_alloc_start mm + 4096 * of_nat j) (4096 * q). m1 x = m x"
    using zalloc_effect [OF pt_invD(1) [OF inv] p z] by blast
  have same: "m1 x = m x" if t: "is_table m root q t" "x \<in> span t 4096" for q t x
  proof -
    obtain j where "(j, 1) \<in> L" "t = m_alloc_start mm + 4096 * of_nat j" using pt_invD(4) [OF inv t(1)] by (auto simp: page_extent_def)
    then show ?thesis using keep t(2) by fastforce
  qed
  have inv1: "pt_inv mm m1 (insert (i, unat p) L) root"
    by (rule pt_inv_frame(1) [OF inv i(2) subset_insertI]) (rule same)
  have walk: "walk m1 root q = walk m root q" if "length q \<le> 3" "set q \<subseteq> {..<512}" for q
    by (rule pt_inv_frame(2) [OF inv i(2) subset_insertI _ that]) (rule same)
  have leaves: "leaf m1 root q = leaf m root q" if "length q = 3" "set q \<subseteq> {..<512}" for q
    by (rule pt_inv_frame(3) [OF inv i(2) subset_insertI _ that]) (rule same)
  from walk have tab: "is_table m1 root q t \<longleftrightarrow> is_table m root q t" for q t by (auto simp: is_table_def)
  have "\<not> is_table m root q (fst (page_extent mm (i, unat p)))" for q
  proof
    assume "is_table m root q (fst (page_extent mm (i, unat p)))"
    then obtain b where b: "b \<in> L" "fst (page_extent mm b) = fst (page_extent mm (i, unat p))"
      using pt_invD(4) [OF inv] by (metis fst_conv imageE)
    then have "b = (i, unat p)" using page_extent_inj [OF i(2), of b "(i, unat p)"] by simp
    then show False using b(1) i(3) by simp
  qed
  then have new: "(i, unat p) \<in> others mm m1 (insert (i, unat p) L) root" by (simp add: others_def tab)
  have "m1 x = m x" if "b \<in> L" "x \<in> span (fst (page_extent mm b)) (snd (page_extent mm b))" for b x
    using that keep by (cases b) (auto simp: page_extent_def)
  then have g: "grows mm root m L m1 (insert (i, unat p) L)" by (auto simp: grows_def others_def tab)
  show thesis by (rule that [OF i(1,3) inv1 i(4) walk leaves g new])
qed

lemma pt_inv_zalloc:
  assumes inv: "pt_inv mm m L root" and z: "zalloc mm m 1 = (m1, a)" "a \<noteq> 0"
  obtains i where "a = m_alloc_start mm + 4096 * of_nat i" "(i, 1) \<notin> L" "pt_inv mm m1 (insert (i, 1) L) root"
    "\<And>p. \<not> is_table m1 root p a" "\<And>k. k < 512 \<Longrightarrow> table_entry m1 a k = 0"
    "\<And>p. length p \<le> 3 \<Longrightarrow> set p \<subseteq> {..<512} \<Longrightarrow> walk m1 root p = walk m root p"
    "\<And>p. length p = 3 \<Longrightarrow> set p \<subseteq> {..<512} \<Longrightarrow> leaf m1 root p = leaf m root p"
    "grows mm root m L m1 (insert (i, 1) L)"
proof -
  have "page_request_ok mm m 1" by (rule single_page_ok [OF page_relD(1) [OF pt_invD(1) [OF inv]]])
  from zalloc_pages [OF inv z this] obtain i where a: "a = m_alloc_start mm + 4096 * of_nat i" "(i, 1) \<notin> L"
    and new: "pt_inv mm m1 (insert (i, 1) L) root" and zero: "\<forall>x \<in> span a 4096. m1 x = 0"
    and walk: "\<And>p. length p \<le> 3 \<Longrightarrow> set p \<subseteq> {..<512} \<Longrightarrow> walk m1 root p = walk m root p"
    and leaves: "\<And>p. length p = 3 \<Longrightarrow> set p \<subseteq> {..<512} \<Longrightarrow> leaf m1 root p = leaf m root p"
    and grows: "grows mm root m L m1 (insert (i, 1) L)"
    by (metis mult_1_right unsigned_1)
  have pa: "page_address a"
    using extent_page_address [OF pt_invD(1-3) [OF new], of a 4096] by (simp add: page_extent_def a)
  have "\<not> is_table m1 root p a" for p
  proof
    assume "is_table m1 root p a"
    then have "is_table m root p a" using walk by (auto simp: is_table_def)
    then obtain b where b: "b \<in> L" "page_extent mm b = (a, 4096)" using pt_invD(4) [OF inv] by fastforce
    then have "b = (i, 1)"
      using page_extent_inj [OF pt_invD(1) [OF new], of b "(i, 1)"] by (simp add: page_extent_def a)
    then show False using b a(2) by simp
  qed
  moreover have "table_entry m1 a k = 0" if "k < 512" for k
    unfolding table_entry_def using zero entry_at_span [OF pa that] by (intro load64_zero) auto
  ultimately show thesis using that a new walk leaves grows by blast
qed

text \<open>Writing into a block that is no table leaves the address space and the other blocks alone.\<close>

lemma write_block:
  assumes inv: "pt_inv mm m L root" and b: "b \<in> others mm m L root"
    and out: "\<And>x. x \<notin> span (fst (page_extent mm b)) (snd (page_extent mm b)) \<Longrightarrow> m' x = m x"
  shows "pt_inv mm m' L root" "length p \<le> 3 \<Longrightarrow> set p \<subseteq> {..<512} \<Longrightarrow> walk m' root p = walk m root p"
    "length p = 3 \<Longrightarrow> set p \<subseteq> {..<512} \<Longrightarrow> leaf m' root p = leaf m root p"
    "others mm m' L root = others mm m L root"
    "c \<in> L \<Longrightarrow> c \<noteq> b \<Longrightarrow> x \<in> span (fst (page_extent mm c)) (snd (page_extent mm c)) \<Longrightarrow> m' x = m x"
proof -
  note rel = pt_invD(1) [OF inv]
  have bL: "b \<in> L" using b by (simp add: others_def)
  have "desc mm m' d = desc mm m d" if "d < npages mm" for d
    unfolding desc_def using page_not_descriptor [OF rel, of "fst b" "snd b" _ d] bL that
    by (intro out) (cases b; auto simp: page_extent_def)
  then have rel': "page_rel mm m' L" by (rule page_rel_cong [OF rel])
  have apart: "m' x = m x" if "c \<in> L" "c \<noteq> b" "x \<in> span (fst (page_extent mm c)) (snd (page_extent mm c))" for c x
  proof -
    have "span (fst (page_extent mm c)) (snd (page_extent mm c)) \<inter> span (fst (page_extent mm b)) (snd (page_extent mm b)) = {}"
      using page_extent_apart [OF rel, of "fst c" "snd c" "fst b" "snd b"] that(1,2) bL by (cases b; cases c) (auto simp: page_extent_def)
    then show ?thesis using that(3) by (intro out) blast
  qed
  then show "c \<in> L \<Longrightarrow> c \<noteq> b \<Longrightarrow> x \<in> span (fst (page_extent mm c)) (snd (page_extent mm c)) \<Longrightarrow> m' x = m x" .
  have same: "m' x = m x" if t: "is_table m root q t" "x \<in> span t 4096" for q t x
  proof -
    obtain c where c: "c \<in> L" "page_extent mm c = (t, 4096)" using pt_invD(4) [OF inv t(1)] by fastforce
    moreover have "c \<noteq> b" using c(2) b t(1) by (auto simp: others_def)
    ultimately show ?thesis using apart [of c x] t(2) by simp
  qed
  show "pt_inv mm m' L root" by (rule pt_inv_frame(1) [OF inv rel' subset_refl]) (rule same)
  have walk: "walk m' root p = walk m root p" if "length p \<le> 3" "set p \<subseteq> {..<512}" for p
    by (rule pt_inv_frame(2) [OF inv rel' subset_refl _ that]) (rule same)
  then show "length p \<le> 3 \<Longrightarrow> set p \<subseteq> {..<512} \<Longrightarrow> walk m' root p = walk m root p" .
  show "leaf m' root p = leaf m root p" if "length p = 3" "set p \<subseteq> {..<512}"
    by (rule pt_inv_frame(3) [OF inv rel' subset_refl _ that]) (rule same)
  show "others mm m' L root = others mm m L root" using walk by (auto simp: others_def is_table_def)
qed

text \<open>A store into a table changes no other block.\<close>

lemma table_store_other:
  assumes inv: "pt_inv mm m L root" and t: "is_table m root p t" and k: "k < 512" and b: "b \<in> others mm m L root"
    and x: "x \<in> span (fst (page_extent mm b)) (snd (page_extent mm b))"
  shows "store64 m (entry_at t (of_nat k)) v x = m x"
proof -
  obtain c where c: "c \<in> L" "page_extent mm c = (t, 4096)" using pt_invD(4) [OF inv t] by fastforce
  have bL: "b \<in> L" "fst (page_extent mm b) \<noteq> t" using b t by (auto simp: others_def)
  then have "c \<noteq> b" using c(2) by auto
  then have "span t 4096 \<inter> span (fst (page_extent mm b)) (snd (page_extent mm b)) = {}"
    using page_extent_apart [OF pt_invD(1) [OF inv], of "fst c" "snd c" "fst b" "snd b"] c bL(1)
    by (cases b; cases c) (auto simp: page_extent_def)
  then have "x \<notin> span t 4096" using x by blast
  then have "x \<notin> span (entry_at t (of_nat k)) 8" using entry_at_span [OF table_page_address [OF inv t] k] by blast
  then show ?thesis by (rule store64_other)
qed

text \<open>Linking the fresh table into an empty entry of an inner table.\<close>

lemma pt_inv_link:
  assumes inv: "pt_inv mm m L root" and t: "is_table m root path t" "length path < 2" and k: "k < 512"
    and empty: "table_entry m t k = 0"
    and a: "(a, 4096) \<in> page_extent mm ` L" "\<And>p. \<not> is_table m root p a" "\<forall>k < 512. table_entry m a k = 0"
    and e: "is_valid e" "\<not> is_leaf e" "entry_ok e" "get_ppn e = a"
  defines "m' \<equiv> store64 m (entry_at t (of_nat k)) e"
  shows "pt_inv mm m' L root" "is_table m' root (path @ [k]) a"
    "length p \<le> 3 \<Longrightarrow> set p \<subseteq> {..<512} \<Longrightarrow> p \<noteq> path @ [k] \<Longrightarrow> walk m' root p = walk m root p"
    "length p = 3 \<Longrightarrow> set p \<subseteq> {..<512} \<Longrightarrow> leaf m' root p = leaf m root p"
proof -
  note ta = table_page_address [OF inv t(1)]
  have pa: "page_address a" using extent_page_address [OF pt_invD(1-3) [OF inv] a(1)] .
  have ne: "a \<noteq> t" using a(2) t(1) by blast
  have za: "table_entry m' a j = 0" if "j < 512" for j
    using that ne a(3) table_entry_store [OF ta k pa that, of m e] by (simp add: m'_def)
  have wa: "walk m' root (path @ [k]) = Some a"
    using walk_store_same [OF inv t(1) k, of e] e by (simp add: m'_def)
  have below: "walk m' root (path @ [k] @ j # r) = None" if "j < 512" for j r
  proof -
    have "child m' a j = None" by (simp add: child_def za that is_valid_bit)
    then show ?thesis using walk_append [of m' root "path @ [k]" "j # r"] wa by simp
  qed
  have below0: "walk m root (path @ [k] @ r) = None" for r
  proof -
    have "child m t k = None" by (simp add: child_def empty is_valid_bit)
    then show ?thesis
      using walk_append [of m root "path @ [k]" r] t(1) by (simp add: walk_snoc is_table_def)
  qed
  show other: "walk m' root p = walk m root p"
    if "length p \<le> 3" "set p \<subseteq> {..<512}" "p \<noteq> path @ [k]" for p
  proof (cases "prefix (path @ [k]) p")
    case True
    then obtain r where r: "p = (path @ [k]) @ r" by (auto elim: prefixE)
    then obtain j r' where "r = j # r'" using \<open>p \<noteq> path @ [k]\<close> by (cases r) auto
    then show ?thesis using below [of j r'] below0 [of r] \<open>set p \<subseteq> _\<close> r by simp
  next
    case False
    then show ?thesis unfolding m'_def using walk_store [OF inv t(1) k] that(1,2) by simp
  qed
  show "leaf m' root p = leaf m root p" if p: "length p = 3" "set p \<subseteq> {..<512}"
  proof (cases "prefix (path @ [k]) p")
    case True
    then obtain r where r: "p = (path @ [k]) @ r" by (auto elim: prefixE)
    then obtain j r' where "r = j # r'" using p(1) t(2) by (cases r) auto
    then have "walk m' root p = None" "walk m root p = None" using below [of j r'] below0 [of r] p(2) r by simp_all
    moreover have "p \<noteq> []" using p(1) by auto
    ultimately show ?thesis by (simp add: leaf_None)
  next
    case False
    then show ?thesis unfolding m'_def using leaf_store [OF inv t(1) k p] by simp
  qed
  show link: "is_table m' root (path @ [k]) a" using wa t k by (auto simp: is_table_def)
  have tab: "is_table m' root p t' \<longleftrightarrow> (if p = path @ [k] then t' = a else is_table m root p t')" for p t'
    using other [of p] link by (auto simp: is_table_def)
  have none: "\<not> is_table m root (path @ [k]) t'" for t' using below0 [of "[]"] by (simp add: is_table_def)
  have fits: "entry_fits p (table_entry m' t' j)" if "is_table m' root p t'" "j < 512" for p t' j
  proof (cases "p = path @ [k]")
    case True
    then show ?thesis using that tab za by (simp add: entry_fits_def entry_ok_def is_valid_bit)
  next
    case False
    then have old: "is_table m root p t'" using that tab by simp
    have "table_entry m' t' j = (if t' = t \<and> j = k then e else table_entry m t' j)"
      unfolding m'_def by (rule table_entry_store [OF ta k table_page_address [OF inv old] that(2)])
    then show ?thesis using pt_invD(5) [OF inv old that(2)] e by (auto simp: entry_fits_def)
  qed
  have ext: "(t', 4096) \<in> page_extent mm ` L" if "is_table m' root p t'" for p t'
    using that tab a(1) pt_invD(4) [OF inv] by (auto split: if_splits)
  have uniq: "p = q" if "is_table m' root p t'" "is_table m' root q t'" for p q t'
    using that tab a(2) pt_invD(6) [OF inv] by (auto split: if_splits)
  have "page_rel mm m' L"
    unfolding m'_def by (rule page_rel_store [OF pt_invD(1) [OF inv] pt_invD(4) [OF inv t(1)] ta k])
  then show "pt_inv mm m' L root" unfolding pt_inv_def using pt_invD(2,3) [OF inv] fits ext uniq by blast
qed

section \<open>Mapping one page\<close>

definition va_path :: "u64 \<Rightarrow> nat list" where
  "va_path va = [unat (vpn2 va), unat (vpn1 va), unat (vpn0 va)]"

lemma get_field_bound: "n < 64 \<Longrightarrow> unat (get_field lo n w) < 2 ^ n"
  by (simp add: get_field_def unsigned_take_bit_eq)

lemma vpn_bounds [simp]: "unat (vpn2 va) < 512" "unat (vpn1 va) < 512" "unat (vpn0 va) < 512"
  using get_field_bound [of 9] by (simp_all add: vpn2_def vpn1_def vpn0_def)

definition pages_used :: "(nat \<times> nat) set \<Rightarrow> nat" where
  "pages_used L = (\<Sum>(i, p) \<in> L. p)"

lemma pages_used_insert: "finite L \<Longrightarrow> (i, 1) \<notin> L \<Longrightarrow> pages_used (insert (i, 1) L) = Suc (pages_used L)"
  by (simp add: pages_used_def)

text \<open>
  The tables a map has, and the pages in use once it has all of \<^verbatim>\<open>P\<close>.
\<close>

definition tables :: "pmem \<Rightarrow> u64 \<Rightarrow> nat list set" where
  "tables m root = {p. \<exists>t. is_table m root p t}"

definition demand :: "(nat \<times> nat) set \<Rightarrow> pmem \<Rightarrow> u64 \<Rightarrow> nat list set \<Rightarrow> nat" where
  "demand L m root P = pages_used L + card (P - tables m root)"

lemma demand_mono: "finite P \<Longrightarrow> tables m root \<subseteq> tables m' root \<Longrightarrow> demand L m' root P \<le> demand L m root P"
  by (auto simp: demand_def intro!: card_mono)

lemma demand_le:
  assumes "finite P" "card P \<le> n" shows "demand L m root P \<le> pages_used L + n"
  using card_mono [OF assms(1), of "P - tables m root"] assms(2) by (simp add: demand_def)

lemma pages_used_le: "pages_used L \<le> demand L m root P"
  by (simp add: demand_def)

lemma demand_new_table:
  assumes "finite P" "p \<in> P" "p \<notin> tables m root" "insert p (tables m root) \<subseteq> tables m' root"
    and "pages_used L' = Suc (pages_used L)"
  shows "demand L' m' root P \<le> demand L m root P" "pages_used L < demand L m root P"
proof -
  have "card (P - tables m' root) \<le> card ((P - tables m root) - {p})"
    using assms(1,4) by (intro card_mono) auto
  moreover have "card (P - tables m root) = Suc (card ((P - tables m root) - {p}))"
    using assms(1-3) by (intro card.remove) auto
  ultimately show "demand L' m' root P \<le> demand L m root P" "pages_used L < demand L m root P"
    using assms(5) by (simp_all add: demand_def)
qed

lemma root_is_table: "is_table m root [] root"
  by (simp add: is_table_def)

definition table_paths :: "u64 \<Rightarrow> nat list set" where
  "table_paths va = {take 1 (va_path va), take 2 (va_path va)}"

lemma table_paths_def': "table_paths va = {[unat (vpn2 va)], [unat (vpn2 va), unat (vpn1 va)]}"
  by (simp add: table_paths_def va_path_def)

definition keeps_leaves :: "pmem \<Rightarrow> pmem \<Rightarrow> u64 \<Rightarrow> bool" where
  "keeps_leaves m' m root \<longleftrightarrow>
     (\<forall>p. length p = 3 \<longrightarrow> set p \<subseteq> {..<512} \<longrightarrow> leaf m' root p = leaf m root p)"

text \<open>What an entry holds before it is written: the code keeps the bits of a valid one.\<close>

definition old_leaf :: "pmem \<Rightarrow> u64 \<Rightarrow> nat list \<Rightarrow> u64" where
  "old_leaf m root p = (case leaf m root p of None \<Rightarrow> 0 | Some e \<Rightarrow> e)"

lemma descend_step:
  assumes inv: "pt_inv mm m L root" and t: "is_table m root path t" "length path < 2" and k: "k < 512"
    and P: "finite P" "path @ [k] \<in> P" and room: "demand L m root P \<le> npages mm"
    and step: "map_descend mm va i (m, entry_at t (of_nat k)) = (m', v')"
  obtains L' t' where "pt_inv mm m' L' root" "is_table m' root (path @ [k]) t'"
    "v' = entry_at t' (if i = 0 then vpn0 va else vpn1 va)" "keeps_leaves m' m root"
    "grows mm root m L m' L'" "demand L' m' root P \<le> demand L m root P"
proof (cases "is_valid (table_entry m t k)")
  case True
  have "m' = m" "v' = entry_at (get_ppn (table_entry m t k)) (if i = 0 then vpn0 va else vpn1 va)"
    using step True by (auto simp: map_descend_def Let_def table_entry_def get_ppn_def)
  moreover have "is_table m root (path @ [k]) (get_ppn (table_entry m t k))"
    using t k True by (auto simp: is_table_def walk_snoc child_def)
  ultimately show thesis using that [of L] inv by (simp add: keeps_leaves_def grows_refl)
next
  case False
  have rel: "page_rel mm m L" using pt_invD(1) [OF inv] .
  obtain m1 a where z: "zalloc mm m 1 = (m1, a)" by fastforce
  have fresh: "path @ [k] \<notin> tables m root"
    using t False by (simp add: tables_def is_table_def walk_snoc child_def)
  then have "card (P - tables m root) \<noteq> 0" using P by auto
  then have "pages_used L < npages mm" using room by (simp add: demand_def)
  then have "a \<noteq> 0"
    using z alloc_one_succeeds [OF rel]
    by (auto simp: zalloc_def Let_def pages_used_def split: prod.splits if_splits)
  from pt_inv_zalloc [OF inv z this]
  obtain j where a: "a = m_alloc_start mm + 4096 * of_nat j" "(j, 1) \<notin> L"
    and inv1: "pt_inv mm m1 (insert (j, 1) L) root" and no: "\<And>p. \<not> is_table m1 root p a"
    and zero: "\<forall>k < 512. table_entry m1 a k = 0"
    and w1: "\<And>p. length p \<le> 3 \<Longrightarrow> set p \<subseteq> {..<512} \<Longrightarrow> walk m1 root p = walk m root p"
    and l1: "\<And>p. length p = 3 \<Longrightarrow> set p \<subseteq> {..<512} \<Longrightarrow> leaf m1 root p = leaf m root p"
    and g1: "grows mm root m L m1 (insert (j, 1) L)"
    by metis
  have t1: "is_table m1 root path t" using t w1 [of path] by (auto simp: is_table_def)
  have "child m t k = None" using False by (simp add: child_def)
  then have "walk m1 root (path @ [k]) = None"
    using w1 [of "path @ [k]"] t k by (auto simp: walk_snoc is_table_def)
  then have "child m1 t k = None" using t1 by (auto simp: walk_snoc is_table_def)
  then have "\<not> is_valid (table_entry m1 t k)" by (auto simp: child_def Let_def split: if_splits)
  then have e0: "table_entry m1 t k = 0"
    using pt_invD(5) [OF inv1 t1 k] by (auto simp: entry_fits_def)
  have ext: "(a, 4096) \<in> page_extent mm ` insert (j, 1) L" by (simp add: page_extent_def a)
  have pa: "page_address a" using extent_page_address [OF pt_invD(1-3) [OF inv1] ext] .
  let ?e = "set_ppns a (set_valid 1 0)"
  let ?m = "store64 m1 (entry_at t (of_nat k)) ?e"
  note link = pt_inv_link [OF inv1 t1 t(2) k e0 ext no zero link_entry(1-4) [OF pa]]
  have m': "m' = ?m" "v' = entry_at a (if i = 0 then vpn0 va else vpn1 va)"
    using step False z e0 link_entry(5) [OF pa]
    by (simp_all add: map_descend_def Let_def table_entry_def)
  have "keeps_leaves ?m m root" using link(4) l1 by (simp add: keeps_leaves_def)
  have "is_table ?m root p t'" if p: "is_table m root p t'" for p t'
  proof -
    have "p \<noteq> path @ [k]" using p fresh by (auto simp: tables_def)
    then show ?thesis using p link(3) [of p] w1 [of p] by (auto simp: is_table_def)
  qed
  then have "insert (path @ [k]) (tables m root) \<subseteq> tables ?m root"
    using link(2) by (auto simp: tables_def)
  note fewer = demand_new_table(1) [OF P fresh this pages_used_insert [OF page_rel_finite [OF rel] a(2)]]
  have "b \<in> others mm ?m (insert (j, 1) L) root" if b: "b \<in> others mm m1 (insert (j, 1) L) root" "b \<noteq> (j, 1)" for b
  proof -
    have b1: "b \<in> insert (j, 1) L" "\<And>p. \<not> is_table m1 root p (fst (page_extent mm b))" using b(1) by (auto simp: others_def)
    have "fst (page_extent mm b) \<noteq> a"
      using page_extent_inj [OF pt_invD(1) [OF inv1] b1(1), of "(j, 1)"] b(2) by (auto simp: page_extent_def a)
    then have "\<not> is_table ?m root p (fst (page_extent mm b))" for p
      using b1(2) [of p] link(3) [of p] link(2) by (cases "p = path @ [k]") (auto simp: is_table_def)
    then show ?thesis using b1(1) by (simp add: others_def)
  qed
  note keep = this
  have "grows mm root m L ?m (insert (j, 1) L)"
    unfolding grows_def
  proof (intro conjI ballI subsetI)
    fix b assume b: "b \<in> others mm m L root"
    have b1: "b \<in> others mm m1 (insert (j, 1) L) root" using g1 b by (auto simp: grows_def)
    moreover have "b \<noteq> (j, 1)" using b a(2) by (auto simp: others_def)
    ultimately show "b \<in> others mm ?m (insert (j, 1) L) root" by (rule keep)
    fix x assume x: "x \<in> span (fst (page_extent mm b)) (snd (page_extent mm b))"
    have "?m x = m1 x" by (rule table_store_other [OF inv1 t1 k b1 x])
    also have "\<dots> = m x" using g1 b x by (simp add: grows_def)
    finally show "?m x = m x" .
  qed simp
  then show thesis
    using that [OF link(1,2) [folded m'(1)] m'(2)] \<open>keeps_leaves ?m m root\<close> fewer by (simp add: m'(1))
qed

lemma map_page_tree:
  fixes va pa :: u64
  assumes inv: "pt_inv mm m L root" and room: "demand L m root P \<le> npages mm"
    and P: "finite P" "table_paths va \<subseteq> P" and bits: "bits AND NOT 0x1ff = 0"
  defines "m' \<equiv> map_page mm root va pa bits 0 m"
  obtains L' where "pt_inv mm m' L' root" "grows mm root m L m' L'" "demand L' m' root P \<le> demand L m root P"
    "\<And>p. length p = 3 \<Longrightarrow> set p \<subseteq> {..<512} \<Longrightarrow>
       leaf m' root p = (if p = va_path va then Some (leaf_entry pa bits (old_leaf m root p)) else leaf m root p)"
    "\<And>p. length p = 3 \<Longrightarrow> set p \<subseteq> {..<512} \<Longrightarrow>
       walk m' root p = (if p = va_path va then Some (phys_page pa) else walk m root p)"
proof -
  obtain m1 v1 where s1: "map_descend mm va 1 (m, entry_at root (of_nat (unat (vpn2 va)))) = (m1, v1)"
    by fastforce
  obtain L1 t1 where 1: "pt_inv mm m1 L1 root" "is_table m1 root ([] @ [unat (vpn2 va)]) t1"
      "v1 = entry_at t1 (vpn1 va)" "keeps_leaves m1 m root" "grows mm root m L m1 L1" "demand L1 m1 root P \<le> demand L m root P"
    using descend_step [OF inv root_is_table _ vpn_bounds(1) P(1) _ room s1] P(2) by (auto simp: table_paths_def')
  obtain m2 v2 where s2: "map_descend mm va 0 (m1, entry_at t1 (of_nat (unat (vpn1 va)))) = (m2, v2)"
    by fastforce
  have r2: "demand L1 m1 root P \<le> npages mm" using room 1(6) by simp
  obtain L2 t2 where 2: "pt_inv mm m2 L2 root" "is_table m2 root ([unat (vpn2 va)] @ [unat (vpn1 va)]) t2"
      "v2 = entry_at t2 (vpn0 va)" "keeps_leaves m2 m1 root" "grows mm root m1 L1 m2 L2" "demand L2 m2 root P \<le> demand L1 m1 root P"
    using descend_step [OF 1(1) 1(2) _ vpn_bounds(2) P(1) _ r2 s2] P(2) by (auto simp: table_paths_def')
  let ?k = "unat (vpn0 va)"
  let ?e = "leaf_entry pa bits (table_entry m2 t2 ?k)"
  have m': "m' = store64 m2 (entry_at t2 (of_nat ?k)) ?e"
    using s1 s2 1(3) 2(3)
    by (simp add: m'_def map_page_def Let_def table_entry_def numeral_2_eq_2)
  have fits: "entry_fits ([unat (vpn2 va)] @ [unat (vpn1 va)]) (table_entry m2 t2 ?k)" by (rule pt_invD(5) [OF 2(1,2) vpn_bounds(3)])
  then have "entry_ok (table_entry m2 t2 ?k)" by (simp add: entry_fits_def)
  note leafp = leaf_entry_props [OF this bits, of pa]
  have inv': "pt_inv mm m' L2 root"
    unfolding m' by (rule pt_inv_leaf [OF 2(1,2) _ vpn_bounds(3) leafp(2,1)]) simp
  have path: "([unat (vpn2 va)] @ [unat (vpn1 va)]) @ [?k] = va_path va" by (simp add: va_path_def)
  have vp: "length (va_path va) = 3" "set (va_path va) \<subseteq> {..<512}" by (simp_all add: va_path_def)
  have "walk m2 root ([unat (vpn2 va)] @ [unat (vpn1 va)]) = Some t2" using 2(2) by (simp add: is_table_def)
  then have "leaf m2 root (va_path va) = (if is_valid (table_entry m2 t2 ?k) then Some (table_entry m2 t2 ?k) else None)"
    by (simp add: leaf_def va_path_def)
  then have "table_entry m2 t2 ?k = old_leaf m2 root (va_path va)" using fits by (auto simp: old_leaf_def entry_fits_def)
  moreover have "leaf m2 root (va_path va) = leaf m root (va_path va)" using 1(4) 2(4) vp by (simp add: keeps_leaves_def)
  ultimately have old: "table_entry m2 t2 ?k = old_leaf m root (va_path va)" by (simp add: old_leaf_def)
  have hit: "leaf m' root (va_path va) = Some ?e"
    using leaf_store_same [OF 2(1,2) vpn_bounds(3), of va ?e] leafp(1) by (simp add: m' path [symmetric])
  have miss: "leaf m' root p = leaf m root p"
    if p: "length p = 3" "set p \<subseteq> {..<512}" "p \<noteq> va_path va" for p
  proof -
    have "\<not> prefix (([unat (vpn2 va)] @ [unat (vpn1 va)]) @ [?k]) p"
      using p by (auto simp: prefix_def va_path_def)
    then have "leaf m' root p = leaf m2 root p"
      unfolding m' using leaf_store [OF 2(1,2) vpn_bounds(3), of p va ?e] p by simp
    then show ?thesis using 1(4) 2(4) p by (simp add: keeps_leaves_def)
  qed
  have ptes: "leaf m' root p = (if p = va_path va then Some (leaf_entry pa bits (old_leaf m root p)) else leaf m root p)"
    if "length p = 3" "set p \<subseteq> {..<512}" for p
    using hit miss that old by simp
  have walks: "walk m' root p = (if p = va_path va then Some (phys_page pa) else walk m root p)"
    if "length p = 3" "set p \<subseteq> {..<512}" for p
  proof -
    have "p \<noteq> []" using that(1) by auto
    then show ?thesis using hit miss [OF that] leafp(3) by (auto simp: walk_leaf)
  qed
  have "walk m' root p = walk m2 root p" if p: "length p \<le> 2" "set p \<subseteq> {..<512}" for p
  proof -
    have "\<not> prefix (([unat (vpn2 va)] @ [unat (vpn1 va)]) @ [?k]) p" using p by (auto simp: prefix_def)
    then show ?thesis unfolding m' using walk_store [OF 2(1,2) vpn_bounds(3), of p va ?e] p by simp
  qed
  then have tab: "is_table m' root p t \<longleftrightarrow> is_table m2 root p t" for p t by (auto simp: is_table_def)
  then have "tables m2 root \<subseteq> tables m' root" by (auto simp: tables_def)
  note fewer = demand_mono [OF P(1) this, of L2]
  have "grows mm root m2 L2 m' L2"
  proof -
    have "others mm m' L2 root = others mm m2 L2 root" by (simp add: others_def tab)
    moreover have "m' x = m2 x" if "b \<in> others mm m2 L2 root" "x \<in> span (fst (page_extent mm b)) (snd (page_extent mm b))" for b x
      unfolding m' by (rule table_store_other [OF 2(1,2) vpn_bounds(3) that])
    ultimately show ?thesis by (simp add: grows_def)
  qed
  from grows_trans [OF grows_trans [OF 1(5) 2(5)] this] show thesis
    by (intro that [OF inv' _ _ ptes walks]) (use fewer 1 2 in auto)
qed

text \<open>\<^verbatim>\<open>translate\<close> is the walk of the tree, with errors for the missing entries.\<close>

definition mapped :: "pmem \<Rightarrow> u64 \<Rightarrow> u64 \<Rightarrow> u64 option" where
  "mapped m root va = (case translate m root va of Inl e \<Rightarrow> None | Inr pa \<Rightarrow> Some pa)"

lemma mapped_walk:
  assumes inv: "pt_inv mm m L root"
  shows "mapped m root va = map_option (\<lambda>p. p OR va_offset va) (walk m root (va_path va))"
proof -
  let ?k2 = "unat (vpn2 va)" and ?k1 = "unat (vpn1 va)" and ?k0 = "unat (vpn0 va)"
  have e: "load64 m (entry_at t (vpn2 va)) = table_entry m t ?k2"
    "load64 m (entry_at t (vpn1 va)) = table_entry m t ?k1"
    "load64 m (entry_at t (vpn0 va)) = table_entry m t ?k0" for t
    by (simp_all add: table_entry_def)
  have c: "child m t k = (if is_valid (table_entry m t k) then Some (get_ppn (table_entry m t k)) else None)" for t k
    by (simp add: child_def Let_def)
  show ?thesis
  proof (cases "is_valid (table_entry m root ?k2)")
    case False
    then show ?thesis by (simp add: mapped_def translate_def e va_path_def c)
  next
    case v2: True
    let ?t1 = "get_ppn (table_entry m root ?k2)"
    have l2: "\<not> is_leaf (table_entry m root ?k2)"
      using pt_invD(5) [OF inv root_is_table vpn_bounds(1)] v2 by (auto simp: entry_fits_def)
    have t1: "is_table m root [?k2] ?t1" using v2 by (simp add: is_table_def c)
    show ?thesis
    proof (cases "is_valid (table_entry m ?t1 ?k1)")
      case False
      then show ?thesis using v2 l2 by (simp add: mapped_def translate_def e va_path_def c)
    next
      case v1: True
      have "\<not> is_leaf (table_entry m ?t1 ?k1)"
        using pt_invD(5) [OF inv t1 vpn_bounds(2)] v1 by (auto simp: entry_fits_def)
      then show ?thesis using v2 l2 v1 by (simp add: mapped_def translate_def e va_path_def c)
    qed
  qed
qed

text \<open>
  What an address may be used for: the low eight bits of its last-level entry (valid, read, write, execute, user,
  global, accessed, dirty).
\<close>

definition access :: "pmem \<Rightarrow> u64 \<Rightarrow> u64 \<Rightarrow> u64 option" where
  "access m root va = map_option (\<lambda>e. e AND 0xff) (leaf m root (va_path va))"

definition old_access :: "pmem \<Rightarrow> u64 \<Rightarrow> u64 \<Rightarrow> u64" where
  "old_access m root va = (case access m root va of None \<Rightarrow> 0 | Some a \<Rightarrow> a)"

lemma old_leaf_access: "old_leaf m root (va_path va) AND 0xff = old_access m root va"
  by (simp add: old_leaf_def old_access_def access_def split: option.split)

lemma old_leaf_ok:
  assumes "pt_inv mm m L root" "length p = 3" "set p \<subseteq> {..<512}" shows "entry_ok (old_leaf m root p)"
proof (cases "walk m root (butlast p)")
  case (Some t)
  then have "is_table m root (butlast p) t" using assms(2,3) by (auto simp: is_table_def dest: in_set_butlastD)
  then have "entry_ok (table_entry m t (last p))" using pt_invD(5) [OF assms(1) _ last_index [OF assms(2,3)]] by (simp add: entry_fits_def)
  then show ?thesis using Some by (simp add: old_leaf_def leaf_def) (simp add: entry_ok_def)
qed (simp add: old_leaf_def leaf_def entry_ok_def)

lemma mask_8: "(0xff :: u64) = mask 8"
  by (simp add: mask_eq_exp_minus_1)

lemma leaf_entry_access: "leaf_entry pa bits w AND 0xff = (w AND 0xff) OR 0xC1 OR (bits AND 0xff)"
proof (rule bit_word_eqI)
  fix i assume "i < LENGTH(64)"
  have c: "bit (0xC1 :: u64) i \<longleftrightarrow> i = 0 \<or> i = 6 \<or> i = 7"
  proof -
    have "bit (0xC1 :: u64) i \<Longrightarrow> i < 8" using small_word_bits [of "0xC1 :: u64" 8 i] by simp
    moreover have "bit (0xC1 :: u64) i \<longleftrightarrow> i = 0 \<or> i = 6 \<or> i = 7" if "i < 8"
    proof -
      have "i = 0 \<or> i = 1 \<or> i = 2 \<or> i = 3 \<or> i = 4 \<or> i = 5 \<or> i = 6 \<or> i = 7" using that by linarith
      then show ?thesis by (elim disjE) simp_all
    qed
    ultimately show ?thesis by auto
  qed
  show "bit (leaf_entry pa bits w AND 0xff) i = bit ((w AND 0xff) OR 0xC1 OR (bits AND 0xff)) i"
    unfolding mask_8 bit_and_iff bit_or_iff c bit_leaf_entry using \<open>i < LENGTH(64)\<close> by (auto simp: bit_simps)
qed

section \<open>Mapping a range\<close>

definition page_of :: "u64 \<Rightarrow> u64" where
  "page_of va = va AND NOT (PAGE_SIZE - 1)"

lemma page_of_mask: "page_of va = va AND NOT (mask 12)"
  by (simp add: page_of_def PAGE_SIZE_def mask_eq_exp_minus_1)

lemma unat_page_of: "unat (page_of va) = unat va div 4096 * 4096"
proof -
  have "page_of va = push_bit 12 (drop_bit 12 va)"
    unfolding page_of_mask by (rule bit_word_eqI) (auto simp: bit_simps)
  then have "unat (page_of va) = push_bit 12 (take_bit 52 (unat va div 4096))"
    by (simp add: unsigned_push_bit_eq unsigned_drop_bit_eq take_bit_push_bit drop_bit_eq_div unat_div)
  moreover have "unat va < 18446744073709551616" using unsigned_less [of va, where ?'a = nat] by simp
  then have "take_bit 52 (unat va div 4096) = unat va div 4096" by (intro take_bit_nat_eq_self) auto
  ultimately show ?thesis by (simp add: push_bit_eq_mult)
qed

lemma va_path_page_of: "va_path (page_of va) = va_path va"
proof -
  have "get_field lo 9 (page_of va) = get_field lo 9 va" if "12 \<le> lo" "lo + 9 \<le> 64" for lo
    using that unfolding page_of_mask by (intro bit_word_eqI) (auto simp: bit_simps)
  then show ?thesis by (simp add: va_path_def vpn0_def vpn1_def vpn2_def)
qed

lemma page_of_or_offset: "page_of va OR va_offset va = va"
  unfolding page_of_mask va_offset_def by (rule bit_word_eqI) (auto simp: bit_simps)

lemma va_path_inj:
  assumes "va_path a = va_path b" "unat a mod 4096 = 0" "unat b mod 4096 = 0"
    and "unat a < 2 ^ 39" "unat b < 2 ^ 39"
  shows "a = b"
proof (rule bit_word_eqI)
  fix i assume "i < LENGTH(64)"
  have bits: "bit c i \<Longrightarrow> 12 \<le> i \<and> i < 39" if "unat c mod 4096 = 0" "unat c < 2 ^ 39" for c :: u64
    using that small_word_bits [of c 39 i] aligned_word_bits [of c 12 i] by simp
  have f: "get_field 30 9 a = get_field 30 9 b" "get_field 21 9 a = get_field 21 9 b"
    "get_field 12 9 a = get_field 12 9 b"
    using assms(1) by (simp_all add: va_path_def vpn0_def vpn1_def vpn2_def word_unat_eq_iff)
  have "bit a i = bit b i" if "12 \<le> i" "i < 39"
  proof -
    have "bit (get_field 30 9 a) (i - 30) = bit (get_field 30 9 b) (i - 30)"
      "bit (get_field 21 9 a) (i - 21) = bit (get_field 21 9 b) (i - 21)"
      "bit (get_field 12 9 a) (i - 12) = bit (get_field 12 9 b) (i - 12)" using f by simp_all
    then show ?thesis using that by (cases "i < 21"; cases "i < 30") auto
  qed
  then show "bit a i = bit b i" using bits [OF assms(2,4)] bits [OF assms(3,5)] by blast
qed

lemma map_pages:
  fixes s :: u64
  assumes inv: "pt_inv mm m L root" and room: "demand L m root P \<le> npages mm" and fin: "finite P"
    and bits: "bits AND NOT 0x1ff = 0"
    and s: "unat s mod 4096 = 0" "unat s + 4096 * n \<le> 2 ^ 39"
  defines "at \<equiv> \<lambda>k. s + 4096 * of_nat k"
  assumes P: "\<And>k. k < n \<Longrightarrow> table_paths (at k) \<subseteq> P"
  shows "\<exists>m' L'.
    fold (\<lambda>i (m, a). (map_page mm root a a bits 0 m, a + 4096)) [0..<n] (m, s) = (m', at n) \<and>
    pt_inv mm m' L' root \<and>
    (\<forall>k < n. leaf m' root (va_path (at k)) = Some (leaf_entry (at k) bits (old_leaf m root (va_path (at k))))) \<and>
    (\<forall>p. length p = 3 \<longrightarrow> set p \<subseteq> {..<512} \<longrightarrow> p \<notin> va_path ` at ` {..<n} \<longrightarrow>
      leaf m' root p = leaf m root p) \<and>
    grows mm root m L m' L' \<and> demand L' m' root P \<le> demand L m root P"
  using P s(2)
proof (induction n)
  case 0
  then show ?case by (auto simp: at_def inv grows_refl intro: exI [of _ m] exI [of _ L])
next
  case (Suc n)
  have u: "unat (at k) = unat s + 4096 * k" if "k \<le> n" for k
    using unat_base_offset [of s 4096 k] that Suc.prems(2) by (simp add: at_def)
  have al: "unat (at k) mod 4096 = 0" "unat (at k) < 2 ^ 39" if "k \<le> n" for k
    using u [OF that] s(1) that Suc.prems(2) by auto
  obtain m1 L1 where 1: "fold (\<lambda>i (m, a). (map_page mm root a a bits 0 m, a + 4096)) [0..<n] (m, s) = (m1, at n)"
    "pt_inv mm m1 L1 root"
    "\<And>k. k < n \<Longrightarrow> leaf m1 root (va_path (at k)) = Some (leaf_entry (at k) bits (old_leaf m root (va_path (at k))))"
    "\<And>p. length p = 3 \<Longrightarrow> set p \<subseteq> {..<512} \<Longrightarrow> p \<notin> va_path ` at ` {..<n} \<Longrightarrow>
      leaf m1 root p = leaf m root p"
    "grows mm root m L m1 L1" "demand L1 m1 root P \<le> demand L m root P"
    using Suc.IH Suc.prems by auto
  let ?m = "map_page mm root (at n) (at n) bits 0 m1"
  have r: "demand L1 m1 root P \<le> npages mm" using 1(6) room by simp
  obtain L2 where 2: "pt_inv mm ?m L2 root" "grows mm root m1 L1 ?m L2" "demand L2 ?m root P \<le> demand L1 m1 root P"
    "\<And>p. length p = 3 \<Longrightarrow> set p \<subseteq> {..<512} \<Longrightarrow>
      leaf ?m root p = (if p = va_path (at n) then Some (leaf_entry (at n) bits (old_leaf m1 root p)) else leaf m1 root p)"
    using map_page_tree [OF 1(2) r fin Suc.prems(1) [OF lessI] bits] by metis
  have path: "length (va_path a) = 3" "set (va_path a) \<subseteq> {..<512}" for a by (auto simp: va_path_def)
  have next_at: "at (Suc n) = at n + 4096" by (simp add: at_def algebra_simps)
  have inj: "k = n" if "k \<le> n" "va_path (at k) = va_path (at n)" for k
  proof -
    have "at k = at n" using va_path_inj [OF that(2)] al that(1) by simp
    then have "unat (at k) = unat (at n)" by simp
    then show ?thesis using u [of k] u [of n] that(1) by simp
  qed
  have "va_path (at k) \<noteq> va_path (at n)" if "k < n" for k
    using inj [of k] that by (metis less_imp_le less_irrefl)
  then have "va_path (at n) \<notin> va_path ` at ` {..<n}" by fastforce
  then have old: "old_leaf m1 root (va_path (at n)) = old_leaf m root (va_path (at n))"
    using 1(4) [OF path] by (simp add: old_leaf_def)
  have hit: "leaf ?m root (va_path (at k)) = Some (leaf_entry (at k) bits (old_leaf m root (va_path (at k))))" if "k < Suc n" for k
  proof (cases "k = n")
    case True
    then show ?thesis using 2(4) [OF path] old by simp
  next
    case False
    then show ?thesis using 2(4) [OF path] 1(3) [of k] inj [of k] that by auto
  qed
  have miss: "leaf ?m root p = leaf m root p"
    if "length p = 3" "set p \<subseteq> {..<512}" "p \<notin> va_path ` at ` {..<Suc n}" for p
    using that 2(4) [OF that(1,2)] 1(4) [OF that(1,2)] by (auto simp: lessThan_Suc)
  have "fold (\<lambda>i (m, a). (map_page mm root a a bits 0 m, a + 4096)) [0..<Suc n] (m, s) = (?m, at (Suc n))"
    using 1(1) by (simp add: next_at)
  moreover have "grows mm root m L ?m L2" using 1(5) 2(2) by (rule grows_trans)
  moreover have "demand L2 ?m root P \<le> demand L m root P" using 1(6) 2(3) by simp
  ultimately show ?case using 2(1) hit miss by blast
qed

text \<open>
  The addresses of the pages that \<^verbatim>\<open>identity_map_range\<close> covers, and a bound for the tables on their
  paths: one for each started GiB and one for each started 2 MiB.
\<close>

definition page_range :: "u64 \<Rightarrow> u64 \<Rightarrow> u64 \<Rightarrow> bool" where
  "page_range start fin a \<longleftrightarrow>
     unat (page_of start) \<le> unat a \<and> unat a < (unat fin + 4095) div 4096 * 4096"

definition range_tables :: "u64 \<Rightarrow> u64 \<Rightarrow> nat" where
  "range_tables start fin =
     (let s = unat (page_of start); e = (unat fin + 4095) div 4096 * 4096 in
      if s < e then (e - 1) div 2 ^ 30 - s div 2 ^ 30 + 1 + ((e - 1) div 2 ^ 21 - s div 2 ^ 21 + 1) else 0)"

definition range_paths :: "u64 \<Rightarrow> u64 \<Rightarrow> nat list set" where
  "range_paths start fin = (\<Union>a \<in> {a. page_range start fin a}. table_paths a)"

lemma unat_get_field: "lo + n \<le> 64 \<Longrightarrow> unat (get_field lo n (w :: u64)) = unat w div 2 ^ lo mod 2 ^ n"
proof -
  have "unat w mod 18446744073709551616 = unat w"
    using unsigned_less [of w, where ?'a = nat] by (intro mod_less) simp
  then show "lo + n \<le> 64 \<Longrightarrow> ?thesis"
    by (simp add: get_field_def unsigned_take_bit_eq unsigned_drop_bit_eq) (simp add: take_bit_eq_mod drop_bit_eq_div)
qed

lemma range_paths_card: "finite (range_paths start fin)" "card (range_paths start fin) \<le> range_tables start fin"
proof -
  let ?s = "unat (page_of start)" and ?e = "(unat fin + 4095) div 4096 * 4096"
  let ?f = "\<lambda>i :: nat. [i mod 512]" and ?g = "\<lambda>i :: nat. [i div 512 mod 512, i mod 512]"
  let ?A = "{?s div 2 ^ 30..(?e - 1) div 2 ^ 30}" and ?B = "{?s div 2 ^ 21..(?e - 1) div 2 ^ 21}"
  have t: "table_paths a = {?f (unat a div 2 ^ 30), ?g (unat a div 2 ^ 21)}" for a
    by (simp add: table_paths_def' vpn2_def vpn1_def unat_get_field div_mult2_eq [symmetric])
  have sub: "range_paths start fin \<subseteq> ?f ` ?A \<union> ?g ` ?B"
  proof
    fix p assume "p \<in> range_paths start fin"
    then obtain a where a: "?s \<le> unat a" "unat a < ?e" "p \<in> table_paths a"
      by (auto simp: range_paths_def page_range_def)
    then have "unat a \<le> ?e - 1" by linarith
    then have "unat a div 2 ^ 30 \<in> ?A" "unat a div 2 ^ 21 \<in> ?B" using a(1) by (auto intro: div_le_mono)
    then show "p \<in> ?f ` ?A \<union> ?g ` ?B" using a(3) unfolding t by blast
  qed
  then show "finite (range_paths start fin)" by (rule finite_subset) simp
  show "card (range_paths start fin) \<le> range_tables start fin"
  proof (cases "?s < ?e")
    case True
    have "card (range_paths start fin) \<le> card (?f ` ?A \<union> ?g ` ?B)" by (rule card_mono [OF _ sub]) simp
    also have "\<dots> \<le> card (?f ` ?A) + card (?g ` ?B)" by (rule card_Un_le)
    also have "\<dots> \<le> card ?A + card ?B" by (intro add_mono card_image_le) simp_all
    finally have c: "card (range_paths start fin) \<le> card ?A + card ?B" .
    have "?s \<le> ?e - 1" using True by linarith
    then have "?s div 2 ^ 30 \<le> (?e - 1) div 2 ^ 30" "?s div 2 ^ 21 \<le> (?e - 1) div 2 ^ 21" by (intro div_le_mono; simp)+
    then have "card ?A = (?e - 1) div 2 ^ 30 - ?s div 2 ^ 30 + 1" "card ?B = (?e - 1) div 2 ^ 21 - ?s div 2 ^ 21 + 1"
      unfolding card_atLeastAtMost by linarith+
    then show ?thesis using c unfolding range_tables_def Let_def if_P [OF True] by linarith
  next
    case False
    then have "range_paths start fin = {}" by (auto simp: range_paths_def page_range_def)
    then show ?thesis by simp
  qed
qed

lemma identity_map_tree:
  fixes start fin :: u64
  assumes inv: "pt_inv mm m L root" and bits: "bits AND NOT 0x1ff = 0"
    and range: "unat (page_of start) \<le> unat fin" "unat fin + 4095 < 2 ^ 39"
    and room: "demand L m root P \<le> npages mm" and fin: "finite P"
    and P: "\<And>a. page_range start fin a \<Longrightarrow> table_paths a \<subseteq> P"
  defines "m' \<equiv> identity_map_range mm root start fin bits m"
  obtains L' where "pt_inv mm m' L' root" "grows mm root m L m' L'" "demand L' m' root P \<le> demand L m root P"
    "\<And>va. page_range start fin va \<Longrightarrow> mapped m' root va = Some va \<and> access m' root va = Some (old_access m root va OR 0xC1 OR (bits AND 0xff))"
    "\<And>va. (\<And>a. page_range start fin a \<Longrightarrow> va_path a \<noteq> va_path va) \<Longrightarrow>
       mapped m' root va = mapped m root va \<and> access m' root va = access m root va"
proof -
  let ?s = "page_of start" and ?e = "align_value fin 12"
  define n where "n = (unat ?e - unat ?s) div 4096"
  let ?at = "\<lambda>k. ?s + 4096 * of_nat k"
  have us: "unat ?s mod 4096 = 0" by (simp add: unat_page_of)
  have ue: "unat ?e = (unat fin + 4095) div 4096 * 4096"
    using range(2) by (intro align_value_eq) simp
  have "unat fin \<le> (unat fin + 4095) div 4096 * 4096" by simp
  then have le: "unat ?s \<le> unat ?e" using range(1) ue by linarith
  have "4096 dvd unat ?e - unat ?s" using us ue by (intro dvd_diff_nat) (auto simp: mod_eq_0_iff_dvd)
  then have n4: "4096 * n = unat ?e - unat ?s" unfolding n_def by simp
  have ue39: "unat ?e < 549755813888"
  proof -
    have "unat ?e \<le> unat fin + 4095" unfolding ue by simp
    then show ?thesis using range(2) by simp
  qed
  have count: "unat ((?e - ?s) div PAGE_SIZE) = n"
    using le by (simp add: PAGE_SIZE_def unat_div n_def unat_sub word_le_nat_alt)
  have fits: "unat ?s + 4096 * n \<le> 2 ^ 39" using n4 le ue39 by simp
  have uat: "unat (?at k) = unat ?s + 4096 * k" if "k \<le> n" for k
    using unat_base_offset [of ?s 4096 k] that fits by simp
  have in_range: "page_range start fin (?at k)" if "k < n" for k
    using uat [of k] that n4 le ue by (simp add: page_range_def)
  obtain m1 L1 where
    f: "fold (\<lambda>i (m, a). (map_page mm root a a bits 0 m, a + 4096)) [0..<n] (m, ?s) = (m1, ?at n)"
    and 1: "pt_inv mm m1 L1 root" "grows mm root m L m1 L1" "demand L1 m1 root P \<le> demand L m root P"
    and hit: "\<And>k. k < n \<Longrightarrow> leaf m1 root (va_path (?at k)) = Some (leaf_entry (?at k) bits (old_leaf m root (va_path (?at k))))"
    and miss: "\<And>p. length p = 3 \<Longrightarrow> set p \<subseteq> {..<512} \<Longrightarrow> p \<notin> va_path ` ?at ` {..<n} \<Longrightarrow>
      leaf m1 root p = leaf m root p"
    using map_pages [OF inv room fin bits us fits] P [OF in_range] by blast
  have m': "m' = m1"
    using f by (simp add: m'_def identity_map_range_def Let_def for_upto_conv_fold count
        flip: page_of_def)
  have path: "length (va_path a) = 3" "set (va_path a) \<subseteq> {..<512}" "va_path a \<noteq> []" for a by (auto simp: va_path_def)
  have hit_va: "mapped m' root va = Some va \<and> access m' root va = Some (old_access m root va OR 0xC1 OR (bits AND 0xff))"
    if r: "page_range start fin va" for va
  proof -
    define k where "k = (unat (page_of va) - unat ?s) div 4096"
    have pv: "unat (page_of va) = unat va div 4096 * 4096" by (rule unat_page_of)
    have ge: "unat ?s \<le> unat (page_of va)"
    proof -
      have "unat ?s div 4096 \<le> unat va div 4096" using r by (simp add: page_range_def div_le_mono)
      then show ?thesis using us pv by (metis div_mult_mod_eq add_0_right mult_le_mono1)
    qed
    have "4096 dvd unat (page_of va) - unat ?s"
      using us pv by (intro dvd_diff_nat) (auto simp: mod_eq_0_iff_dvd)
    then have k: "4096 * k = unat (page_of va) - unat ?s" by (simp add: k_def)
    have below: "unat (page_of va) < unat ?e" using r pv ue by (simp add: page_range_def) linarith
    then have "k < n" using k n4 ge le by simp
    then have at: "?at k = page_of va" using uat [of k] k ge by (simp add: word_unat_eq_iff)
    let ?pte = "leaf_entry (page_of va) bits (old_leaf m root (va_path va))"
    have e: "leaf m1 root (va_path va) = Some ?pte" using hit [OF \<open>k < n\<close>] by (simp add: at va_path_page_of)
    have "unat (page_of va) < 72057594037927936" using below ue39 by simp
    then have "phys_page (page_of va) = page_of va" using pv by (intro page_address_phys_page) (simp add: page_address_def)
    then have "get_ppn ?pte = page_of va" using leaf_entry_props(3) [OF old_leaf_ok [OF inv path(1,2)] bits, of "page_of va" va] by simp
    then have "mapped m' root va = Some va"
      unfolding m' mapped_walk [OF 1(1)] walk_leaf [OF path(3)] e by (simp add: page_of_or_offset)
    moreover have "access m' root va = Some (old_access m root va OR 0xC1 OR (bits AND 0xff))"
      unfolding m' access_def e by (simp only: option.map leaf_entry_access old_leaf_access)
    ultimately show ?thesis by simp
  qed
  have miss_va: "mapped m' root va = mapped m root va \<and> access m' root va = access m root va"
    if "\<And>a. page_range start fin a \<Longrightarrow> va_path a \<noteq> va_path va" for va
  proof -
    have "va_path va \<notin> va_path ` ?at ` {..<n}" using that in_range by fastforce
    then have "leaf m1 root (va_path va) = leaf m root (va_path va)" by (rule miss [OF path(1,2)])
    then show ?thesis unfolding m' mapped_walk [OF 1(1)] mapped_walk [OF inv] access_def by (simp add: walk_leaf [OF path(3)])
  qed
  show thesis by (rule that [OF _ _ _ hit_va miss_va]) (use 1 in \<open>simp_all add: m'\<close>)
qed

section \<open>Properties\<close>

text \<open>A zeroed page is an empty address space.\<close>

lemma pt_inv_empty:
  assumes rel: "page_rel mm m L" and root: "(root, 4096) \<in> page_extent mm ` L"
    and al: "unat (m_alloc_start mm) mod 4096 = 0" "unat (m_alloc_start mm) + 4096 * npages mm \<le> 2 ^ 56"
    and zero: "\<And>x. x \<in> span root 4096 \<Longrightarrow> m x = 0"
  shows "pt_inv mm m L root" "is_table m root p t \<longleftrightarrow> p = [] \<and> t = root"
    "q \<noteq> [] \<Longrightarrow> set q \<subseteq> {..<512} \<Longrightarrow> leaf m root q = None"
proof -
  have pa: "page_address root" using extent_page_address [OF rel al root] .
  have e: "table_entry m root k = 0" if "k < 512" for k
    unfolding table_entry_def using zero entry_at_span [OF pa that] by (intro load64_zero) auto
  have none: "walk m root p = None" if "p \<noteq> []" "set p \<subseteq> {..<512}" for p
    using that by (cases p) (auto simp: child_def e is_valid_bit)
  then show "q \<noteq> [] \<Longrightarrow> set q \<subseteq> {..<512} \<Longrightarrow> leaf m root q = None" by (intro leaf_None) blast+
  from none have tab: "is_table m root p t \<longleftrightarrow> p = [] \<and> t = root" for p t
    by (cases "p = []") (auto simp: is_table_def)
  then show "is_table m root p t \<longleftrightarrow> p = [] \<and> t = root" .
  show "pt_inv mm m L root"
    unfolding pt_inv_def tab using rel al root e by (auto simp: entry_fits_def entry_ok_def is_valid_bit)
qed

text \<open>The demonstration heap with one zeroed page as the root table.\<close>

definition demo_space :: pmem where
  "demo_space = fst (zalloc demo_mm demo_heap 1)"

lemma demo_pt_inv: "\<exists>L. pt_inv demo_mm demo_space L 0x3000 \<and> pages_used L = 2"
proof -
  have ok: "page_request_ok demo_mm demo_heap 1" by (rule single_page_ok [OF page_relD(1) [OF demo_rel]])
  obtain i where i: "0x3000 = m_alloc_start demo_mm + 4096 * of_nat i"
    and rel: "page_rel demo_mm demo_space (insert (i, 1) {(0, 1)})" "(i, 1) \<notin> {(0 :: nat, 1 :: nat)}"
    and zero: "\<forall>x \<in> span 0x3000 4096. demo_space x = 0"
    using zalloc_effect [OF demo_rel ok demo_zalloc] by (auto simp: demo_space_def)
  have "pt_inv demo_mm demo_space (insert (i, 1) {(0, 1)}) 0x3000"
    using rel i zero by (intro pt_inv_empty) (auto simp: page_extent_def demo_fields)
  moreover have "pages_used (insert (i, 1) {(0, 1)}) = 2"
    using rel(2) pages_used_insert [of "{(0, 1)}" i] by (simp add: pages_used_def)
  ultimately show ?thesis by blast
qed

text \<open>
  C4. \<^verbatim>\<open>MemoryManager::map\<close> followed by \<^verbatim>\<open>PageTable::translate\<close>: in a well-formed address
  space with two free pages left, mapping \<^verbatim>\<open>va\<close> to \<^verbatim>\<open>pa\<close> makes every address of the
  virtual page of \<^verbatim>\<open>va\<close> translate to the same offset in the physical page of \<^verbatim>\<open>pa\<close>, leaves
  the translation of every other page as it was, and the address space well-formed, for
  intermediate tables that exist as well as for those that \<^verbatim>\<open>map\<close> has to allocate.
\<close>

theorem map_translate:
  assumes "pt_inv mm m L root" "pages_used L + 2 \<le> npages mm" "bits AND NOT 0x1ff = 0"
  shows "mapped (map_page mm root va pa bits 0 m) root va' =
      (if va_path va' = va_path va then Some (phys_page pa OR va_offset va') else mapped m root va') \<and>
    (\<exists>L'. pt_inv mm (map_page mm root va pa bits 0 m) L' root \<and> L \<subseteq> L' \<and> pages_used L' \<le> pages_used L + 2)"
proof -
  let ?m = "map_page mm root va pa bits 0 m" and ?P = "table_paths va"
  have fin: "finite ?P" "card ?P \<le> 2" by (simp_all add: table_paths_def card_insert_if)
  note d = demand_le [OF fin, of L m root]
  have room: "demand L m root ?P \<le> npages mm" using d assms(2) by simp
  obtain L' where inv: "pt_inv mm ?m L' root" and L': "grows mm root m L ?m L'" "demand L' ?m root ?P \<le> demand L m root ?P"
    and walk: "\<And>p. length p = 3 \<Longrightarrow> set p \<subseteq> {..<512} \<Longrightarrow>
       walk ?m root p = (if p = va_path va then Some (phys_page pa) else walk m root p)"
    using map_page_tree [OF assms(1) room fin(1) subset_refl assms(3)] by metis
  have "walk ?m root (va_path va') =
      (if va_path va' = va_path va then Some (phys_page pa) else walk m root (va_path va'))"
    by (rule walk) (auto simp: va_path_def)
  then show ?thesis
    using inv grows_subset [OF L'(1)] le_trans [OF pages_used_le le_trans [OF L'(2) d]]
    by (auto simp: mapped_walk [OF inv] mapped_walk [OF assms(1)])
qed

theorem map_translate_witness:
  "mapped (map_page demo_mm 0x3000 0x40201000 0x80005000 (entry_bits READ_WRITE) 0 demo_space) 0x3000 0x40201ABC
    = Some 0x80005ABC"
proof -
  obtain L where L: "pt_inv demo_mm demo_space L 0x3000" "pages_used L = 2" using demo_pt_inv by blast
  have p: "va_path 0x40201ABC = va_path 0x40201000" by (simp add: va_path_def vpn0_def vpn1_def vpn2_def get_field_def)
  have "entry_bits READ_WRITE AND NOT 0x1ff = 0" by simp
  then show ?thesis
    using map_translate [OF L(1), where bits = "entry_bits READ_WRITE" and va = "0x40201000"
        and pa = "0x80005000" and va' = "0x40201ABC"] L(2) p
    by (simp add: demo_fields phys_page_def va_offset_def get_field_def)
qed

text \<open>
  \<^verbatim>\<open>MemoryManager::identity_map_range\<close>: after it, every address from the page of
  \<^verbatim>\<open>start\<close> up to \<^verbatim>\<open>end\<close> rounded up to a page translates to itself, an address that
  shares its page path with none of them translates as before, and the address space is well-formed.  The
  range must be in the lower 512 GiB that a Sv39 path can tell apart, and the heap must have a free page for
  each GiB and each 2 MiB that the range touches; no more are used.
\<close>

theorem identity_map_range_correct:
  assumes "pt_inv mm m L root" "bits AND NOT 0x1ff = 0"
    and "unat (page_of start) \<le> unat fin" "unat fin + 4095 < 2 ^ 39"
    and "pages_used L + range_tables start fin \<le> npages mm"
  defines "m' \<equiv> identity_map_range mm root start fin bits m"
  shows "(page_range start fin va \<longrightarrow> mapped m' root va = Some va) \<and>
    ((\<forall>a. page_range start fin a \<longrightarrow> va_path a \<noteq> va_path va) \<longrightarrow> mapped m' root va = mapped m root va) \<and>
    (\<exists>L'. pt_inv mm m' L' root \<and> L \<subseteq> L' \<and> pages_used L' \<le> pages_used L + range_tables start fin)"
proof -
  let ?P = "range_paths start fin"
  note fin = range_paths_card [of start fin]
  note d = demand_le [OF fin, of L m root]
  have room: "demand L m root ?P \<le> npages mm" using d assms(5) by simp
  have P: "table_paths a \<subseteq> ?P" if "page_range start fin a" for a using that by (auto simp: range_paths_def)
  obtain L' where L': "pt_inv mm m' L' root" "grows mm root m L m' L'" "demand L' m' root ?P \<le> demand L m root ?P"
    and va: "\<And>va. page_range start fin va \<Longrightarrow> mapped m' root va = Some va"
    "\<And>va. (\<And>a. page_range start fin a \<Longrightarrow> va_path a \<noteq> va_path va) \<Longrightarrow> mapped m' root va = mapped m root va"
    unfolding m'_def using identity_map_tree [OF assms(1-4) room fin(1) P] by metis
  show ?thesis using va L'(1) grows_subset [OF L'(2)] le_trans [OF pages_used_le le_trans [OF L'(3) d]] by blast
qed

theorem identity_map_range_correct_witness:
  "mapped (identity_map_range demo_mm 0x3000 0x10000010 0x10000100 (entry_bits READ_WRITE) demo_space)
     0x3000 0x10000FF0 = Some 0x10000FF0"
proof -
  obtain L where L: "pt_inv demo_mm demo_space L 0x3000" "pages_used L = 2" using demo_pt_inv by blast
  have p: "unat (page_of 0x10000010) = 0x10000000" by (simp add: unat_page_of)
  then show ?thesis
    using identity_map_range_correct [OF L(1), where bits = "entry_bits READ_WRITE" and start = "0x10000010"
        and fin = "0x10000100" and va = "0x10000FF0"] L(2)
    by (simp add: demo_fields page_range_def range_tables_def)
qed

text \<open>
  \<^verbatim>\<open>CPU::build_satp\<close> and \<^verbatim>\<open>MemoryManager::get_current_root_page_table\<close>: the root
  table address, the mode and the address-space identifier packed into the \<^verbatim>\<open>satp\<close> value
  are read back unchanged, for a page-aligned root below the 56-bit physical limit.
\<close>

theorem satp_roundtrip:
  assumes "page_address root" "unat mode < 2 ^ 4" "unat asid < 2 ^ 16"
  shows "get_current_root_page_table (build_satp mode asid root) = root \<and>
    satp_mode (build_satp mode asid root) = ucast mode \<and> satp_asid (build_satp mode asid root) = asid"
proof (intro conjI)
  note r = page_address_bits [OF assms(1)] and md = small_word_bits [OF assms(2)]
    and id = small_word_bits [OF assms(3)]
  show "get_current_root_page_table (build_satp mode asid root) = root"
  proof (rule bit_word_eqI)
    fix i assume "i < LENGTH(64)"
    then show "bit (get_current_root_page_table (build_satp mode asid root)) i = bit root i"
      using r [of i]
      by (cases "12 \<le> i") (auto simp: get_current_root_page_table_def satp_ppn_def build_satp_def bit_simps)
  qed
  show "satp_mode (build_satp mode asid root) = ucast mode"
  proof (rule bit_word_eqI)
    fix i show "bit (satp_mode (build_satp mode asid root)) i = bit (ucast mode :: u64) i" if "i < LENGTH(64)"
      using md [of i] that by (auto simp: satp_mode_def build_satp_def bit_simps)
  qed
  show "satp_asid (build_satp mode asid root) = asid"
  proof (rule bit_word_eqI)
    fix i show "bit (satp_asid (build_satp mode asid root)) i = bit asid i" if "i < LENGTH(64)"
      using id [of i] that by (auto simp: satp_asid_def build_satp_def bit_simps)
  qed
qed

theorem satp_roundtrip_witness: "get_current_root_page_table (build_satp 8 1 0x80200000) = 0x80200000"
  using satp_roundtrip [where root = "0x80200000" and mode = 8 and asid = 1] by (simp add: page_address_def)

end
