(* ===== verification/KernelHeap.thy ===== *)
theory KernelHeap
  imports PageAlloc
begin

text \<open>
  The kernel heap (\<^verbatim>\<open>Kernel/Memory/KernelMemoryAllocator\<close>): a sequence of chunks, each
  preceded by an 8-byte header with a 63-bit size and a taken bit, laid out one after the
  other in 64 pages of the page allocator.  The loops over the chunks step by the size
  they read from memory and are modelled as partial functions, because a header of size
  zero makes them run forever.
\<close>

section \<open>Headers\<close>

definition hdr_size :: "u64 \<Rightarrow> u64" where "hdr_size w = get_field 0 63 w"
definition hdr_is_taken :: "u64 \<Rightarrow> bool" where "hdr_is_taken w = (get_field 63 1 w = 1)"
definition hdr_is_free :: "u64 \<Rightarrow> bool" where "hdr_is_free w = (\<not> hdr_is_taken w)"
definition hdr_set_taken :: "u64 \<Rightarrow> u64" where "hdr_set_taken w = put_field 63 1 1 w"
definition hdr_set_free :: "u64 \<Rightarrow> u64" where "hdr_set_free w = put_field 63 1 0 w"
definition hdr_set_size :: "u64 \<Rightarrow> u64 \<Rightarrow> u64" where "hdr_set_size v w = put_field 0 63 v w"

definition update_hdr :: "(u64 \<Rightarrow> u64) \<Rightarrow> u64 \<Rightarrow> pmem \<Rightarrow> pmem" where
  "update_hdr f ptr m = store64 m ptr (f (load64 m ptr))"

section \<open>The allocator\<close>

record KernelMemoryAllocator =
  m_head :: u64
  m_total_size :: u64
  m_taken :: u64

definition ALLOCATION_SIZE :: u64 where "ALLOCATION_SIZE = 64"

definition heap_ctor :: "MemoryManager \<Rightarrow> pmem \<Rightarrow> KernelMemoryAllocator \<times> pmem" where
  "heap_ctor mm m =
     (let (m, head) = zalloc mm m ALLOCATION_SIZE;
          total = ALLOCATION_SIZE * PAGE_SIZE;
          m = update_hdr hdr_set_free head m;
          m = update_hdr (hdr_set_size total) head m
      in (\<lparr>m_head = head, m_total_size = total, m_taken = 0\<rparr>, m))"

definition heap_dtor :: "MemoryManager \<Rightarrow> KernelMemoryAllocator \<Rightarrow> pmem \<Rightarrow> pmem" where
  "heap_dtor mm k m = dealloc mm m (m_head k)"

text \<open>Splitting a free chunk that is large enough.\<close>

definition take_chunk :: "u64 \<Rightarrow> u64 \<Rightarrow> pmem \<Rightarrow> pmem" where
  "take_chunk ptr need m =
     (let chunk_size = hdr_size (load64 m ptr);
          remaining = chunk_size - need;
          m = update_hdr hdr_set_taken ptr m
      in if remaining > 8 then
           let m = update_hdr hdr_set_free (ptr + need) m;
               m = update_hdr (hdr_set_size remaining) (ptr + need) m
           in update_hdr (hdr_set_size need) ptr m
         else update_hdr (hdr_set_size chunk_size) ptr m)"

partial_function (option) kmalloc_loop :: "pmem \<Rightarrow> u64 \<Rightarrow> u64 \<Rightarrow> u64 \<Rightarrow> (pmem \<times> u64) option" where
  "kmalloc_loop m tail need ptr =
     (if ptr < tail then
        (if hdr_is_free (load64 m ptr) \<and> hdr_size (load64 m ptr) \<ge> need
         then Some (take_chunk ptr need m, ptr + 8)
         else kmalloc_loop m tail need (ptr + hdr_size (load64 m ptr)))
      else Some (m, 0))"

text \<open>
  The end of the search is \<^verbatim>\<open>(AllocHeader*) ((u8*) m_head) + m_total_size\<close>: the cast binds
  tighter than the addition, so the total size counts headers of eight bytes, not bytes.
\<close>

definition kmalloc :: "KernelMemoryAllocator \<Rightarrow> pmem \<Rightarrow> u64 \<Rightarrow> (pmem \<times> u64) option" where
  "kmalloc k m sz =
     (if sz = 0 then Some (m, 0)
      else let need = align_value sz 3 + 8;
               tail = m_head k + 8 * m_total_size k
           in kmalloc_loop m tail need (m_head k))"

text \<open>The result of \<^verbatim>\<open>kmalloc\<close> is not tested before it is written through.\<close>

definition kzmalloc :: "KernelMemoryAllocator \<Rightarrow> pmem \<Rightarrow> u64 \<Rightarrow> (pmem \<times> u64) exec option" where
  "kzmalloc k m sz =
     (let need = align_value sz 3 in
      do { (m, mem) \<leftarrow> kmalloc k m need;
           Some (if mem = 0 \<and> 0 < need then Inl NullDeref
                 else Inr (for_upto 0 need (\<lambda>i m. m (mem + 1 := 0)) m, mem)) })"

definition heap_tail :: "KernelMemoryAllocator \<Rightarrow> u64" where
  "heap_tail k = m_head k + m_total_size k"

partial_function (option) coalesce_loop :: "u64 \<Rightarrow> pmem \<Rightarrow> u64 \<Rightarrow> pmem option" where
  "coalesce_loop tail m ptr =
     (if ptr < tail then
        let nxt = ptr + hdr_size (load64 m ptr) in
        if nxt \<ge> tail \<or> hdr_size (load64 m ptr) = 0 then Some m
        else
          let m = (if hdr_is_free (load64 m ptr) \<and> hdr_is_free (load64 m nxt)
                   then update_hdr (hdr_set_size (hdr_size (load64 m ptr) + hdr_size (load64 m nxt))) ptr m
                   else m)
          in coalesce_loop tail m (ptr + hdr_size (load64 m ptr))
      else Some m)"

definition coalesce :: "KernelMemoryAllocator \<Rightarrow> pmem \<Rightarrow> pmem option" where
  "coalesce k m = coalesce_loop (heap_tail k) m (m_head k)"

definition kfree :: "KernelMemoryAllocator \<Rightarrow> pmem \<Rightarrow> u64 \<Rightarrow> pmem option" where
  "kfree k m ptr =
     (if ptr \<noteq> 0 then coalesce k (update_hdr hdr_set_free (ptr - 8) m) else Some m)"

text \<open>\<^verbatim>\<open>operator new\<close> and \<^verbatim>\<open>operator delete\<close>, in all their forms.\<close>

definition operator_new :: "KernelMemoryAllocator \<Rightarrow> pmem \<Rightarrow> u64 \<Rightarrow> (pmem \<times> u64) option" where
  "operator_new k m sz = kmalloc k m sz"

definition operator_delete :: "KernelMemoryAllocator \<Rightarrow> pmem \<Rightarrow> u64 \<Rightarrow> pmem option" where
  "operator_delete k m ptr = (if ptr = 0 then Some m else kfree k m ptr)"

record HeapStatistics =
  total_size :: u64
  free_size :: u64
  used_size :: u64

partial_function (option) heap_stats_loop :: "pmem \<Rightarrow> u64 \<Rightarrow> u64 \<Rightarrow> u64 \<Rightarrow> u64 \<Rightarrow> (u64 \<times> u64) option" where
  "heap_stats_loop m tail ptr taken free =
     (if ptr < tail then
        let sz = hdr_size (load64 m ptr) in
        if hdr_is_taken (load64 m ptr) then heap_stats_loop m tail (ptr + sz) (taken + sz) free
        else heap_stats_loop m tail (ptr + sz) taken (free + sz)
      else Some (taken, free))"

definition heap_statistics :: "KernelMemoryAllocator \<Rightarrow> pmem \<Rightarrow> HeapStatistics option" where
  "heap_statistics k m =
     do { (taken, free) \<leftarrow> heap_stats_loop m (heap_tail k) (m_head k) 0 0;
          Some \<lparr>total_size = m_total_size k, free_size = free, used_size = taken\<rparr> }"

partial_function (option) freed_loop :: "pmem \<Rightarrow> u64 \<Rightarrow> u64 \<Rightarrow> u64 \<Rightarrow> bool option" where
  "freed_loop m tail p ptr =
     (if ptr < tail then
        (if p \<ge> ptr \<and> p < ptr + hdr_size (load64 m ptr) \<and> hdr_is_free (load64 m ptr) then Some True
         else freed_loop m tail p (ptr + hdr_size (load64 m ptr)))
      else Some False)"

definition is_in_freed_memory :: "KernelMemoryAllocator \<Rightarrow> pmem \<Rightarrow> u64 \<Rightarrow> bool option" where
  "is_in_freed_memory k m p = freed_loop m (heap_tail k) p (m_head k)"

section \<open>Headers as pairs\<close>

lemma hdr_taken_bit: "hdr_is_taken w \<longleftrightarrow> bit w 63"
proof -
  have "get_field 63 1 w = of_bool (bit w 63)" by (rule bit_word_eqI) (auto simp: bit_simps)
  then show ?thesis by (simp add: hdr_is_taken_def)
qed

lemma hdr_taken_simps [simp]:
  "hdr_is_taken (hdr_set_taken w)" "\<not> hdr_is_taken (hdr_set_free w)"
  "hdr_is_taken (hdr_set_size s w) = hdr_is_taken w"
  by (auto simp: hdr_taken_bit hdr_set_taken_def hdr_set_free_def hdr_set_size_def)

lemma hdr_size_simps [simp]:
  "hdr_size (hdr_set_taken w) = hdr_size w" "hdr_size (hdr_set_free w) = hdr_size w"
  "hdr_size (hdr_set_size s w) = take_bit 63 s"
  by (rule bit_word_eqI;
      auto simp: hdr_size_def hdr_set_taken_def hdr_set_free_def hdr_set_size_def bit_simps)+

lemma hdr_size_keep: "unat s < 2 ^ 63 \<Longrightarrow> take_bit 63 s = (s :: u64)"
  using small_word_bits [of s 63] by (intro bit_word_eqI) (auto simp: bit_simps)

section \<open>The chunk list\<close>

text \<open>
  The abstract heap is the list of its chunks, each with its size in bytes (header
  included) and its taken flag.  \<^verbatim>\<open>chunks m n cs\<close>: the headers found from address \<^verbatim>\<open>n\<close> on
  are those of \<^verbatim>\<open>cs\<close>.
\<close>

type_synonym chunk = "nat \<times> bool"

fun chunks :: "pmem \<Rightarrow> nat \<Rightarrow> chunk list \<Rightarrow> bool" where
  "chunks m n [] = True"
| "chunks m n ((s, t) # cs) =
     (unat (hdr_size (load64 m (of_nat n))) = s \<and> hdr_is_taken (load64 m (of_nat n)) = t \<and>
      chunks m (n + s) cs)"

fun hdrs :: "nat \<Rightarrow> chunk list \<Rightarrow> nat list" where
  "hdrs n [] = []"
| "hdrs n ((s, t) # cs) = n # hdrs (n + s) cs"

definition csize :: "chunk list \<Rightarrow> nat" where
  "csize cs = (\<Sum>c \<leftarrow> cs. fst c)"

lemma csize_simps [simp]:
  "csize [] = 0" "csize ((s, t) # cs) = s + csize cs" "csize (xs @ ys) = csize xs + csize ys"
  by (simp_all add: csize_def)

definition ok_chunk :: "chunk \<Rightarrow> bool" where
  "ok_chunk c \<longleftrightarrow> 16 \<le> fst c \<and> 8 dvd fst c"

lemma chunks_append: "chunks m n (xs @ ys) \<longleftrightarrow> chunks m n xs \<and> chunks m (n + csize xs) ys"
  by (induction xs arbitrary: n) (auto simp: add.assoc)

lemma hdrs_append: "hdrs n (xs @ ys) = hdrs n xs @ hdrs (n + csize xs) ys"
  by (induction xs arbitrary: n) (auto simp: add.assoc)

lemma csize_dvd8: "\<forall>c \<in> set cs. ok_chunk c \<Longrightarrow> 8 dvd csize cs"
  by (induction cs) (auto simp: ok_chunk_def)

lemma hdrs_range:
  assumes "a \<in> set (hdrs n cs)" "\<forall>c \<in> set cs. ok_chunk c" "8 dvd n"
  shows "n \<le> a \<and> a + 16 \<le> n + csize cs \<and> 8 dvd a"
  using assms
proof (induction cs arbitrary: n)
  case (Cons c cs)
  obtain s t where c: "c = (s, t)" by fastforce
  then have s: "16 \<le> s" "8 dvd s" using Cons.prems by (auto simp: ok_chunk_def)
  then have n': "8 dvd n + s" using Cons.prems(3) by simp
  show ?case
  proof (cases "a = n")
    case False
    then have "n + s \<le> a \<and> a + 16 \<le> n + s + csize cs \<and> 8 dvd a"
      using Cons.prems c n' by (intro Cons.IH) auto
    then show ?thesis using c by simp
  qed (use Cons.prems s c in simp)
qed simp

lemma chunks_cong:
  assumes "\<And>a. a \<in> set (hdrs n cs) \<Longrightarrow> load64 m' (of_nat a) = load64 m (of_nat a)"
  shows "chunks m' n cs = chunks m n cs"
  using assms by (induction cs arbitrary: n) auto

text \<open>A store to an aligned address that is not a header leaves the chunk list alone.\<close>

lemma load_store_aligned:
  assumes "8 dvd a" "8 dvd b" "a < 2 ^ 64" "b < 2 ^ 64"
  shows "load64 (store64 m (of_nat a) v) (of_nat b) = (if a = b then v else load64 m (of_nat b))"
proof (cases "a = b")
  case False
  have u: "unat (of_nat a :: u64) = a" "unat (of_nat b :: u64) = b"
    using assms by (auto intro!: unat_of_nat_small)
  have "(of_nat b :: u64) \<noteq> of_nat a" using False assms by (simp add: of_nat_u64_inj)
  then have "span (of_nat b :: u64) 8 \<inter> span (of_nat a) 8 = {}"
    using u assms by (intro aligned_words_disjoint) auto
  then show ?thesis using False by (simp add: load64_store64_other)
qed simp

lemma chunks_store:
  assumes "\<forall>c \<in> set cs. ok_chunk c" "8 dvd n" "n + csize cs \<le> 2 ^ 64"
    and "8 dvd p" "p < 2 ^ 64" "p \<notin> set (hdrs n cs)"
  shows "chunks (store64 m (of_nat p) v) n cs = chunks m n cs"
proof (rule chunks_cong)
  fix a assume a: "a \<in> set (hdrs n cs)"
  note r = hdrs_range [OF a assms(1,2)]
  then show "load64 (store64 m (of_nat p) v) (of_nat a) = load64 m (of_nat a)"
    using assms a by (subst load_store_aligned) auto
qed

lemma not_hdr:
  assumes "\<forall>c \<in> set cs. ok_chunk c" "8 dvd n" "p < n \<or> n + csize cs < p + 16"
  shows "p \<notin> set (hdrs n cs)"
  using hdrs_range [OF _ assms(1,2), of p] assms(3) by auto

section \<open>The heap on chunk lists\<close>

text \<open>What \<^verbatim>\<open>kmalloc\<close>, \<^verbatim>\<open>kfree\<close> and \<^verbatim>\<open>coalesce\<close> do to the list: first fit, split, merge neighbours.\<close>

definition split_chunk :: "nat \<Rightarrow> nat \<Rightarrow> chunk list" where
  "split_chunk need s = (if s - need > 8 then [(need, True), (s - need, False)] else [(s, True)])"

fun take_fit :: "nat \<Rightarrow> chunk list \<Rightarrow> (nat \<times> chunk list) option" where
  "take_fit need [] = None"
| "take_fit need ((s, t) # cs) =
     (if \<not> t \<and> need \<le> s then Some (0, split_chunk need s @ cs)
      else do { (off, cs') \<leftarrow> take_fit need cs; Some (s + off, (s, t) # cs') })"

fun merge_free :: "chunk list \<Rightarrow> chunk list" where
  "merge_free [] = []"
| "merge_free [c] = [c]"
| "merge_free ((s, t) # (s', t') # cs) =
     (if \<not> t \<and> \<not> t' then (s + s', False) # merge_free cs else (s, t) # merge_free ((s', t') # cs))"

lemma csize_split_chunk: "need \<le> s \<Longrightarrow> csize (split_chunk need s) = s"
  by (simp add: split_chunk_def)

lemma ok_split_chunk:
  assumes "ok_chunk (s, t)" "16 \<le> need" "8 dvd need" "need \<le> s"
  shows "\<forall>c \<in> set (split_chunk need s). ok_chunk c"
proof -
  have "8 dvd s - need" using assms by (auto simp: ok_chunk_def)
  then obtain k where "s - need = 8 * k" by (auto elim: dvdE)
  then show ?thesis using assms by (auto simp: split_chunk_def ok_chunk_def)
qed

lemma take_fit_split:
  "take_fit need cs = Some (off, cs') \<Longrightarrow>
    \<exists>xs s ys. cs = xs @ (s, False) # ys \<and> need \<le> s \<and> off = csize xs \<and>
      cs' = xs @ split_chunk need s @ ys \<and> (\<forall>(s', t') \<in> set xs. t' \<or> s' < need)"
proof (induction cs arbitrary: off cs')
  case (Cons c cs)
  obtain s t where c: "c = (s, t)" by fastforce
  show ?case
  proof (cases "\<not> t \<and> need \<le> s")
    case True
    then have "c # cs = [] @ (s, False) # cs" "off = csize []" "cs' = [] @ split_chunk need s @ cs"
      using Cons.prems c by auto
    then show ?thesis using True by (intro exI [of _ "[]"] exI [of _ s] exI [of _ cs]) (simp add: c)
  next
    case False
    then obtain off' cs'' where 1: "take_fit need cs = Some (off', cs'')" "off = s + off'" "cs' = (s, t) # cs''"
      using Cons.prems c by (auto simp: bind_eq_Some_conv)
    then obtain xs s' ys where "cs = xs @ (s', False) # ys" "need \<le> s'" "off' = csize xs"
        "cs'' = xs @ split_chunk need s' @ ys" "\<forall>(s', t') \<in> set xs. t' \<or> s' < need"
      using Cons.IH by blast
    moreover have "t \<or> s < need" using False by auto
    ultimately show ?thesis
      using 1 c by (intro exI [of _ "(s, t) # xs"] exI [of _ s'] exI [of _ ys]) simp
  qed
qed simp

lemma take_fit_None: "take_fit need cs = None \<longleftrightarrow> (\<forall>(s, t) \<in> set cs. t \<or> s < need)"
proof (induction cs)
  case (Cons c cs)
  then show ?case by (cases c; cases "take_fit need cs") auto
qed simp

lemma take_fit_NoneI:
  assumes "\<And>s. (s, False) \<in> set cs \<Longrightarrow> s < need"
  shows "take_fit need cs = None"
  unfolding take_fit_None
proof
  fix c assume "c \<in> set cs"
  then show "case c of (s, t) \<Rightarrow> t \<or> s < need" using assms by (cases c; cases "snd c") auto
qed

lemma csize_merge_free [simp]: "csize (merge_free cs) = csize cs"
  by (induction cs rule: merge_free.induct) auto

lemma ok_merge_free: "\<forall>c \<in> set cs. ok_chunk c \<Longrightarrow> \<forall>c \<in> set (merge_free cs). ok_chunk c"
  by (induction cs rule: merge_free.induct) (auto simp: ok_chunk_def)

section \<open>The memory operations refine the list operations\<close>

lemma load_update_hdr:
  assumes "8 dvd a" "8 dvd b" "a < 2 ^ 64" "b < 2 ^ 64"
  shows "load64 (update_hdr f (of_nat a) m) (of_nat b) =
    (if a = b then f (load64 m (of_nat a)) else load64 m (of_nat b))"
  unfolding update_hdr_def by (rule load_store_aligned [OF assms])

lemma update_hdr_other: "x \<notin> span p 8 \<Longrightarrow> update_hdr f p m x = m x"
  by (simp add: update_hdr_def)

lemma hdr_size_nat: "unat w < 2 ^ 63 \<Longrightarrow> hdr_size (hdr_set_size w v) = w"
  by (simp add: hdr_size_keep)

lemma chunk_at_hdr:
  assumes "chunks m n (xs @ (s, t) # ys)" "a = n + csize xs"
  shows "unat (hdr_size (load64 m (of_nat a))) = s" "hdr_is_taken (load64 m (of_nat a)) = t"
    "hdr_size (load64 m (of_nat a)) = of_nat s"
proof -
  show u: "unat (hdr_size (load64 m (of_nat a))) = s" and "hdr_is_taken (load64 m (of_nat a)) = t"
    using assms by (simp_all add: chunks_append)
  show "hdr_size (load64 m (of_nat a)) = of_nat s" unfolding u [symmetric] by simp
qed

lemma take_chunk_loads:
  assumes h: "hdr_size (load64 m (of_nat a)) = of_nat s" "s < 2 ^ 63" "nd \<le> s" "8 dvd a" "8 dvd nd"
    and a: "a + s < 2 ^ 64" "0 < nd"
  defines "m' \<equiv> take_chunk (of_nat a) (of_nat nd) m"
  shows "unat (hdr_size (load64 m' (of_nat a))) = (if s - nd > 8 then nd else s)"
    "hdr_is_taken (load64 m' (of_nat a))"
    "s - nd > 8 \<Longrightarrow> unat (hdr_size (load64 m' (of_nat (a + nd)))) = s - nd"
    "s - nd > 8 \<Longrightarrow> \<not> hdr_is_taken (load64 m' (of_nat (a + nd)))"
    "x \<notin> span (of_nat a) 8 \<Longrightarrow> s - nd > 8 \<longrightarrow> x \<notin> span (of_nat (a + nd)) 8 \<Longrightarrow> m' x = m x"
proof -
  have us: "unat (of_nat s :: u64) = s" "unat (of_nat nd :: u64) = nd" "unat (of_nat (s - nd) :: u64) = s - nd"
    by (rule unat_of_nat_small, use h(2,3) in simp)+
  have small: "unat (of_nat s :: u64) < 2 ^ 63" "unat (of_nat nd :: u64) < 2 ^ 63"
    "unat (of_nat (s - nd) :: u64) < 2 ^ 63" using us h(2,3) by auto
  have sub: "(of_nat s :: u64) - of_nat nd = of_nat (s - nd)" using h(3) by (simp add: of_nat_diff)
  have gt: "(of_nat (s - nd) :: u64) > 8 \<longleftrightarrow> s - nd > 8" using us by (simp add: word_less_nat_alt)
  have addr: "(of_nat a :: u64) + of_nat nd = of_nat (a + nd)" by simp
  have dv: "8 dvd a + nd" "a < 2 ^ 64" "a + nd < 2 ^ 64" "a \<noteq> a + nd" using h a by auto
  note ld = load_update_hdr [OF h(4) h(4) dv(2) dv(2)] load_update_hdr [OF h(4) dv(1) dv(2) dv(3)]
    load_update_hdr [OF dv(1) h(4) dv(3) dv(2)] load_update_hdr [OF dv(1) dv(1) dv(3) dv(3)]
  have m': "m' = (if s - nd > 8 then
      update_hdr (hdr_set_size (of_nat nd)) (of_nat a)
        (update_hdr (hdr_set_size (of_nat (s - nd))) (of_nat (a + nd))
          (update_hdr hdr_set_free (of_nat (a + nd)) (update_hdr hdr_set_taken (of_nat a) m)))
      else update_hdr (hdr_set_size (of_nat s)) (of_nat a) (update_hdr hdr_set_taken (of_nat a) m))"
    unfolding m'_def take_chunk_def Let_def h(1) sub gt addr ..
  show "unat (hdr_size (load64 m' (of_nat a))) = (if s - nd > 8 then nd else s)"
    "hdr_is_taken (load64 m' (of_nat a))"
    "s - nd > 8 \<Longrightarrow> unat (hdr_size (load64 m' (of_nat (a + nd)))) = s - nd"
    "s - nd > 8 \<Longrightarrow> \<not> hdr_is_taken (load64 m' (of_nat (a + nd)))"
    using dv(4) a(2) us hdr_size_nat [OF small(1)] hdr_size_nat [OF small(2)] hdr_size_nat [OF small(3)]
    by (simp_all add: m' ld del: of_nat_add of_nat_diff hdr_size_simps(3))
  show "x \<notin> span (of_nat a) 8 \<Longrightarrow> s - nd > 8 \<longrightarrow> x \<notin> span (of_nat (a + nd)) 8 \<Longrightarrow> m' x = m x"
    by (simp add: m' update_hdr_other del: of_nat_add)
qed

lemma take_chunk_chunks:
  assumes c: "chunks m n (xs @ (s, False) # ys)" and ok: "\<forall>c \<in> set (xs @ (s, False) # ys). ok_chunk c"
    and n: "8 dvd n" "n + csize (xs @ (s, False) # ys) < 2 ^ 63"
    and nd: "16 \<le> nd" "nd \<le> s" "8 dvd nd" and a: "a = n + csize xs"
  shows "chunks (take_chunk (of_nat a) (of_nat nd) m) n (xs @ split_chunk nd s @ ys)"
proof -
  let ?m = "take_chunk (of_nat a) (of_nat nd) m"
  have okx: "\<forall>c \<in> set xs. ok_chunk c" "\<forall>c \<in> set ys. ok_chunk c" "8 dvd s" using ok by (auto simp: ok_chunk_def)
  have da: "8 dvd a" using csize_dvd8 [OF okx(1)] n(1) a by simp
  have lim: "s < 2 ^ 63" "a + s < 2 ^ 64" "n + csize xs + s + csize ys < 9223372036854775808"
    using n(2) a by auto
  note tc = take_chunk_loads [OF chunk_at_hdr(3) [OF c a] lim(1) nd(2) da nd(3) lim(2)]
  have pos: "0 < nd" using nd(1) by simp
  have dyn: "8 dvd n + csize xs + s" using n(1) csize_dvd8 [OF okx(1)] okx(3) by simp
  have keep: "load64 ?m (of_nat b) = load64 m (of_nat b)"
    if "8 dvd b" "b + 8 \<le> a \<or> a + s \<le> b" "b + 16 < 2 ^ 64" for b
  proof (rule load64_cong)
    fix x assume x: "x \<in> span (of_nat b :: u64) 8"
    have u: "unat (of_nat b :: u64) = b" "unat (of_nat a :: u64) = a" "unat (of_nat (a + nd) :: u64) = a + nd"
      by (rule unat_of_nat_small, use that lim nd(2) in simp)+
    have "span (of_nat b :: u64) 8 \<inter> span (of_nat a) 8 = {}"
      using u that lim nd by (intro span_disjoint) auto
    moreover have "s - nd > 8 \<Longrightarrow> span (of_nat b :: u64) 8 \<inter> span (of_nat (a + nd)) 8 = {}"
      using u that lim nd by (intro span_disjoint) auto
    ultimately show "?m x = m x" using x by (intro tc(5) [OF pos]) auto
  qed
  have "chunks ?m n xs = chunks m n xs"
  proof (rule chunks_cong)
    fix b assume "b \<in> set (hdrs n xs)"
    then have "n \<le> b \<and> b + 16 \<le> n + csize xs \<and> 8 dvd b" using hdrs_range okx(1) n(1) by blast
    then show "load64 ?m (of_nat b) = load64 m (of_nat b)" using a lim by (intro keep) auto
  qed
  moreover have "chunks ?m (n + csize xs + s) ys = chunks m (n + csize xs + s) ys"
  proof (rule chunks_cong)
    fix b assume "b \<in> set (hdrs (n + csize xs + s) ys)"
    then have "n + csize xs + s \<le> b \<and> b + 16 \<le> n + csize xs + s + csize ys \<and> 8 dvd b"
      using hdrs_range okx(2) dyn by blast
    then show "load64 ?m (of_nat b) = load64 m (of_nat b)" using a lim by (intro keep) auto
  qed
  moreover have "chunks ?m a (split_chunk nd s)"
    using tc(1-4) [OF pos] by (simp add: split_chunk_def del: of_nat_add)
  ultimately show ?thesis
    using c a csize_split_chunk [OF nd(2)] by (simp add: chunks_append)
qed

text \<open>
  \<^verbatim>\<open>heap_inv k m cs\<close>: the memory holds the chunk list \<^verbatim>\<open>cs\<close> of a heap of \<^verbatim>\<open>m_total_size\<close>
  bytes.  The bound keeps the scaled end of the search loop inside the address space.
\<close>

abbreviation head_nat :: "KernelMemoryAllocator \<Rightarrow> nat" where
  "head_nat k \<equiv> unat (m_head k)"

definition heap_inv :: "KernelMemoryAllocator \<Rightarrow> pmem \<Rightarrow> chunk list \<Rightarrow> bool" where
  "heap_inv k m cs \<longleftrightarrow> chunks m (head_nat k) cs \<and> (\<forall>c \<in> set cs. ok_chunk c) \<and>
     csize cs = unat (m_total_size k) \<and> 8 dvd head_nat k \<and> 0 < head_nat k \<and>
     0 < unat (m_total_size k) \<and> head_nat k + 8 * unat (m_total_size k) < 2 ^ 63"

lemma heap_invD:
  assumes "heap_inv k m cs"
  shows "chunks m (head_nat k) cs" "\<forall>c \<in> set cs. ok_chunk c" "csize cs = unat (m_total_size k)"
    "8 dvd head_nat k" "0 < head_nat k" "head_nat k + csize cs < 2 ^ 63"
    "unat (m_head k + 8 * m_total_size k) = head_nat k + 8 * csize cs"
    "unat (heap_tail k) = head_nat k + csize cs"
proof -
  show 1: "chunks m (head_nat k) cs" "\<forall>c \<in> set cs. ok_chunk c" "csize cs = unat (m_total_size k)"
    "8 dvd head_nat k" "0 < head_nat k" using assms by (auto simp: heap_inv_def)
  have b: "head_nat k + 8 * unat (m_total_size k) < 9223372036854775808"
    using assms by (simp add: heap_inv_def)
  then show "head_nat k + csize cs < 2 ^ 63" using 1(3) by simp
  show "unat (m_head k + 8 * m_total_size k) = head_nat k + 8 * csize cs"
    using unat_base_offset [of "m_head k" 8 "unat (m_total_size k)"] b 1(3) by simp
  show "unat (heap_tail k) = head_nat k + csize cs"
    unfolding heap_tail_def using b 1(3) by (subst unat_add_no_wrap) simp_all
qed

lemma of_nat_less_word: "n < 2 ^ 64 \<Longrightarrow> (of_nat n :: u64) < w \<longleftrightarrow> n < unat w"
  by (simp add: word_less_nat_alt unat_of_nat_small)

lemma step_address:
  assumes "unat (hdr_size (load64 m (of_nat n))) = s"
  shows "(of_nat n :: u64) + hdr_size (load64 m (of_nat n)) = of_nat (n + s)"
  by (simp add: assms [symmetric])

lemma kmalloc_scan:
  assumes "chunks m n xs" "\<forall>(s, t) \<in> set xs. t \<or> s < unat need" "\<forall>c \<in> set xs. ok_chunk c"
    and "n + csize xs \<le> unat tail"
  shows "kmalloc_loop m tail need (of_nat n) = kmalloc_loop m tail need (of_nat (n + csize xs))"
  using assms
proof (induction xs arbitrary: n)
  case (Cons c xs)
  obtain s t where c: "c = (s, t)" by fastforce
  have h: "unat (hdr_size (load64 m (of_nat n))) = s" "hdr_is_taken (load64 m (of_nat n)) = t"
    "t \<or> s < unat need" "16 \<le> s" using Cons.prems c by (auto simp: ok_chunk_def)
  have n64: "n < 2 ^ 64"
    using Cons.prems(4) h(4) c unsigned_less [of tail, where ?'a = nat] by simp
  have lt: "(of_nat n :: u64) < tail" using Cons.prems(4) h(4) c n64 by (simp add: of_nat_less_word)
  have "\<not> (hdr_is_free (load64 m (of_nat n)) \<and> hdr_size (load64 m (of_nat n)) \<ge> need)"
    using h(1-3) by (auto simp: hdr_is_free_def word_le_nat_alt)
  then have "kmalloc_loop m tail need (of_nat n) = kmalloc_loop m tail need (of_nat (n + s))"
    using lt by (subst kmalloc_loop.simps) (simp only: if_True if_False step_address [OF h(1)])
  also have "\<dots> = kmalloc_loop m tail need (of_nat (n + s + csize xs))"
    using Cons.prems c by (intro Cons.IH) auto
  finally show ?case using c by (simp add: add.assoc del: of_nat_add)
qed simp

definition kmalloc_need :: "u64 \<Rightarrow> nat" where
  "kmalloc_need sz = (unat sz + 7) div 8 * 8 + 8"

lemma kmalloc_need_props:
  assumes "0 < unat sz" "unat sz < 2 ^ 62"
  shows "unat (align_value sz 3 + 8) = kmalloc_need sz" "16 \<le> kmalloc_need sz" "8 dvd kmalloc_need sz"
    "unat sz + 8 \<le> kmalloc_need sz" "kmalloc_need sz \<le> unat sz + 15"
proof -
  have b: "unat sz < 4611686018427387904" using assms(2) by simp
  then have a: "unat (align_value sz 3) = (unat sz + 7) div 8 * 8"
    using align_value_unat [of 3 sz] by simp
  have "(unat sz + 7) div 8 * 8 \<le> unat sz + 7" by simp
  then show "unat (align_value sz 3 + 8) = kmalloc_need sz"
    using a b by (subst unat_add_no_wrap) (simp_all add: kmalloc_need_def)
  show "8 dvd kmalloc_need sz" by (simp add: kmalloc_need_def)
  show "unat sz + 8 \<le> kmalloc_need sz" "kmalloc_need sz \<le> unat sz + 15"
    by (simp_all add: kmalloc_need_def)
  have "1 \<le> (unat sz + 7) div 8" using assms(1) by simp
  then show "16 \<le> kmalloc_need sz" by (simp add: kmalloc_need_def)
qed

lemma kmalloc_hit:
  assumes inv: "heap_inv k m cs" and sz: "0 < unat sz" "unat sz < 2 ^ 62"
    and fit: "take_fit (kmalloc_need sz) cs = Some (off, cs')"
  obtains m' xs s ys where "kmalloc k m sz = Some (m', of_nat (head_nat k + off + 8))" "heap_inv k m' cs'"
    "cs = xs @ (s, False) # ys" "kmalloc_need sz \<le> s" "off = csize xs"
    "cs' = xs @ split_chunk (kmalloc_need sz) s @ ys"
    "\<And>x. x \<notin> span (of_nat (head_nat k + off)) s \<Longrightarrow> m' x = m x"
proof -
  let ?nd = "kmalloc_need sz"
  obtain xs s ys where cs: "cs = xs @ (s, False) # ys" "?nd \<le> s" "off = csize xs"
      "cs' = xs @ split_chunk ?nd s @ ys" "\<forall>(s', t') \<in> set xs. t' \<or> s' < ?nd"
    using take_fit_split [OF fit] by blast
  note I = heap_invD [OF inv] and nd = kmalloc_need_props [OF sz]
  let ?a = "head_nat k + off"
  let ?need = "align_value sz 3 + 8" and ?tail = "m_head k + 8 * m_total_size k"
  have need: "?need = of_nat ?nd" unfolding nd(1) [symmetric] by simp
  have c: "chunks m (head_nat k) (xs @ (s, False) # ys)" using I(1) cs(1) by simp
  have lim: "head_nat k + csize xs + s + csize ys < 9223372036854775808" "16 \<le> s"
    using I(6) cs(1) I(2) by (auto simp: ok_chunk_def)
  note h = chunk_at_hdr [OF c, of ?a] 
  have "kmalloc_loop m ?tail ?need (of_nat (head_nat k)) = kmalloc_loop m ?tail ?need (of_nat ?a)"
    using kmalloc_scan [of m "head_nat k" xs ?need ?tail] c cs I(2,7) nd(1) by (simp add: chunks_append)
  also have "\<dots> = Some (take_chunk (of_nat ?a) (of_nat ?nd) m, of_nat (?a + 8))"
  proof -
    have "(of_nat ?a :: u64) < ?tail"
      using lim I(7) cs by (subst of_nat_less_word) (simp_all add: cs)
    moreover have "hdr_is_free (load64 m (of_nat ?a))" "?need \<le> hdr_size (load64 m (of_nat ?a))"
      using h(1,2) cs(2,3) nd(1) by (simp_all add: hdr_is_free_def word_le_nat_alt)
    moreover have "(of_nat ?a :: u64) + 8 = of_nat (?a + 8)" by simp
    ultimately show ?thesis by (subst kmalloc_loop.simps) (simp only: need if_True simp_thms)
  qed
  finally have run: "kmalloc k m sz = Some (take_chunk (of_nat ?a) (of_nat ?nd) m, of_nat (?a + 8))"
    using sz(1) unat_gt_0 [of sz] by (simp add: kmalloc_def Let_def)
  have inv': "heap_inv k (take_chunk (of_nat ?a) (of_nat ?nd) m) cs'"
    unfolding heap_inv_def
  proof (intro conjI)
    show "chunks (take_chunk (of_nat ?a) (of_nat ?nd) m) (head_nat k) cs'"
      unfolding cs(4) using c I(2,4,6) cs(1-3) nd(2,3) by (intro take_chunk_chunks) auto
    show "\<forall>c \<in> set cs'. ok_chunk c"
      using I(2) ok_split_chunk [of s False ?nd] nd(2,3) cs(2) unfolding cs(1,4) by auto
    show "csize cs' = unat (m_total_size k)"
      using I(3) cs csize_split_chunk [OF cs(2)] by simp
  qed (use inv in \<open>auto simp: heap_inv_def\<close>)
  have frame: "take_chunk (of_nat ?a) (of_nat ?nd) m x = m x" if x: "x \<notin> span (of_nat ?a) s" for x
  proof -
    have ua: "unat (of_nat ?a :: u64) = ?a" "unat (of_nat (?a + ?nd) :: u64) = ?a + ?nd"
      by (rule unat_of_nat_small, use lim cs in simp)+
    have "span (of_nat ?a) 8 \<subseteq> span (of_nat ?a :: u64) s" using lim(2) by (intro span_mono) simp
    moreover have "span (of_nat (?a + ?nd)) 8 \<subseteq> span (of_nat ?a :: u64) s" if "s - ?nd > 8"
      using ua lim cs that by (auto simp: span_eq_range simp del: of_nat_add)
    moreover have "8 dvd ?a" using csize_dvd8 [of xs] I(2,4) cs by simp
    ultimately show ?thesis
      using x lim cs nd(2,3) by (intro take_chunk_loads(5) [OF h(3)]) (auto simp del: of_nat_add)
  qed
  show thesis using that [OF _ inv' cs(1-4)] run frame by simp
qed

section \<open>Merging and releasing\<close>

lemma hdrs_far:
  assumes "\<forall>c \<in> set cs. ok_chunk c" "8 dvd n" "n + csize cs < 2 ^ 63" "8 dvd p" "p + 8 \<le> n"
    "a \<in> set (hdrs n cs)" "x \<in> span (of_nat p) 8"
  shows "x \<notin> span (of_nat a) 8"
proof -
  have a: "n \<le> a" "a + 16 \<le> n + csize cs" using hdrs_range [OF assms(6,1,2)] by auto
  then have u: "unat (of_nat a :: u64) = a" "unat (of_nat p :: u64) = p"
    by (auto intro!: unat_of_nat_small) (use assms in simp_all)
  have "span (of_nat p :: u64) 8 \<inter> span (of_nat a) 8 = {}"
    using u a assms(3,5) by (intro span_disjoint) auto
  then show ?thesis using assms(7) by blast
qed

lemma coalesce_chunks:
  assumes "chunks m n cs" "\<forall>c \<in> set cs. ok_chunk c" "8 dvd n" "unat tail = n + csize cs" "n + csize cs < 2 ^ 63"
  shows "\<exists>m'. coalesce_loop tail m (of_nat n) = Some m' \<and> chunks m' n (merge_free cs) \<and>
    (\<forall>x. (\<forall>a \<in> set (hdrs n cs). x \<notin> span (of_nat a) 8) \<longrightarrow> m' x = m x)"
  using assms
proof (induction cs arbitrary: m n rule: merge_free.induct)
  case 1
  then have "\<not> (of_nat n :: u64) < tail" by (subst of_nat_less_word) auto
  then show ?case by (subst coalesce_loop.simps) simp
next
  case (2 c)
  obtain s t where c: "c = (s, t)" by fastforce
  have h: "unat (hdr_size (load64 m (of_nat n))) = s" using 2 c by simp
  have "(of_nat n :: u64) + hdr_size (load64 m (of_nat n)) \<ge> tail"
    unfolding step_address [OF h] using 2 c by (simp add: word_le_nat_alt unat_of_nat_small del: of_nat_add)
  then show ?case using 2(1) by (subst coalesce_loop.simps) simp
next
  case (3 s t s' t' cs)
  have h: "unat (hdr_size (load64 m (of_nat n))) = s" "hdr_is_taken (load64 m (of_nat n)) = t"
    "unat (hdr_size (load64 m (of_nat (n + s)))) = s'" "hdr_is_taken (load64 m (of_nat (n + s))) = t'"
    "chunks m (n + s + s') cs" using 3(3) by (simp_all del: of_nat_add)
  have sz: "16 \<le> s" "16 \<le> s'" "8 dvd s" "8 dvd s'" and okc: "\<forall>c \<in> set cs. ok_chunk c"
    using 3(4) by (auto simp: ok_chunk_def)
  have lim: "n + s + s' + csize cs < 9223372036854775808" using 3(7) by (simp add: add.assoc)
  have tl: "unat tail = n + s + s' + csize cs" using 3(6) by simp
  have lt: "(of_nat n :: u64) < tail" "\<not> (of_nat (n + s) :: u64) \<ge> tail"
    using tl lim sz by (auto simp: of_nat_less_word word_le_nat_alt unat_of_nat_small simp del: of_nat_add)
  have nz: "hdr_size (load64 m (of_nat n)) \<noteq> 0" using h(1) sz(1) by auto
  show ?case
  proof (cases "\<not> t \<and> \<not> t'")
    case True
    let ?w = "hdr_size (load64 m (of_nat n)) + hdr_size (load64 m (of_nat (n + s)))"
    let ?m = "update_hdr (hdr_set_size ?w) (of_nat n) m"
    have w: "unat ?w = s + s'" using h(1,3) lim by (subst unat_add_no_wrap) simp_all
    have n64: "n < 2 ^ 64" using lim by simp
    have ld: "load64 ?m (of_nat n) = hdr_set_size ?w (load64 m (of_nat n))"
      using load_update_hdr [OF 3(5) 3(5) n64 n64] by simp
    have hd: "hdr_size (load64 ?m (of_nat n)) = ?w" "\<not> hdr_is_taken (load64 ?m (of_nat n))"
      using h(2) True w lim unfolding ld by (simp_all add: hdr_size_keep)
    have st: "(of_nat n :: u64) + hdr_size (load64 ?m (of_nat n)) = of_nat (n + s + s')"
      using step_address [of ?m n "s + s'"] hd(1) w by (simp add: add.assoc)
    have step: "coalesce_loop tail m (of_nat n) = coalesce_loop tail ?m (of_nat (n + s + s'))"
      using lt nz h(2,4) True st
      by (subst coalesce_loop.simps)
        (simp add: Let_def step_address [OF h(1)] hdr_is_free_def del: of_nat_add)
    have dn: "8 dvd n + s + s'" using 3(5) sz by simp
    have c': "chunks ?m (n + s + s') cs"
    proof -
      have "n \<notin> set (hdrs (n + s + s') cs)" using sz by (intro not_hdr [OF okc dn]) simp
      then show ?thesis
        unfolding update_hdr_def using h(5) lim dn by (subst chunks_store [OF okc]) (use 3(5) in auto)
    qed
    obtain m' where m': "coalesce_loop tail ?m (of_nat (n + s + s')) = Some m'"
        "chunks m' (n + s + s') (merge_free cs)"
        "\<And>x. (\<forall>a \<in> set (hdrs (n + s + s') cs). x \<notin> span (of_nat a) 8) \<Longrightarrow> m' x = ?m x"
      using 3(1) [OF True c' okc dn] tl lim by auto
    have "load64 m' (of_nat n) = load64 ?m (of_nat n)"
    proof (rule load64_cong)
      fix x assume x: "x \<in> span (of_nat n :: u64) 8"
      show "m' x = ?m x"
        by (rule m'(3)) (use hdrs_far [OF okc dn _ 3(5) _ _ x] lim sz in auto)
    qed
    then have "chunks m' n (merge_free ((s, t) # (s', t') # cs))"
      using True m'(2) hd w by (simp add: add.assoc)
    moreover have "m' x = m x" if "\<forall>a \<in> set (hdrs n ((s, t) # (s', t') # cs)). x \<notin> span (of_nat a) 8" for x
      using that m'(3) [of x] by (simp add: update_hdr_other)
    ultimately show ?thesis using step m'(1) by simp
  next
    case False
    have ds: "8 dvd n + s" using 3(5) sz by simp
    have step: "coalesce_loop tail m (of_nat n) = coalesce_loop tail m (of_nat (n + s))"
      using lt nz h(2,4) False
      by (subst coalesce_loop.simps)
        (auto simp add: Let_def step_address [OF h(1)] hdr_is_free_def simp del: of_nat_add)
    have c': "chunks m (n + s) ((s', t') # cs)" using h by (simp del: of_nat_add)
    have ok': "\<forall>c \<in> set ((s', t') # cs). ok_chunk c" using 3(4) by simp
    obtain m' where m': "coalesce_loop tail m (of_nat (n + s)) = Some m'"
        "chunks m' (n + s) (merge_free ((s', t') # cs))"
        "\<And>x. (\<forall>a \<in> set (hdrs (n + s) ((s', t') # cs)). x \<notin> span (of_nat a) 8) \<Longrightarrow> m' x = m x"
      using 3(2) [OF False c' ok' ds] tl lim by (auto simp: add.assoc)
    have "load64 m' (of_nat n) = load64 m (of_nat n)"
    proof (rule load64_cong)
      fix x assume x: "x \<in> span (of_nat n :: u64) 8"
      show "m' x = m x"
        by (rule m'(3)) (use hdrs_far [OF ok' ds _ 3(5) _ _ x] lim sz in \<open>auto simp: add.assoc\<close>)
    qed
    then have "chunks m' n (merge_free ((s, t) # (s', t') # cs))"
      using False m'(2) h(1,2) by auto
    moreover have "m' x = m x" if "\<forall>a \<in> set (hdrs n ((s, t) # (s', t') # cs)). x \<notin> span (of_nat a) 8" for x
      using that m'(3) [of x] by simp
    ultimately show ?thesis using step m'(1) by simp
  qed
qed

lemma chunks_set_free:
  assumes c: "chunks m n (xs @ (s, t) # ys)" and ok: "\<forall>c \<in> set (xs @ (s, t) # ys). ok_chunk c"
    and n: "8 dvd n" "n + csize (xs @ (s, t) # ys) < 2 ^ 63" and a: "a = n + csize xs"
  shows "chunks (update_hdr hdr_set_free (of_nat a) m) n (xs @ (s, False) # ys)"
proof -
  let ?m = "update_hdr hdr_set_free (of_nat a) m"
  have okx: "\<forall>c \<in> set xs. ok_chunk c" "\<forall>c \<in> set ys. ok_chunk c" "8 dvd s" "16 \<le> s"
    using ok by (auto simp: ok_chunk_def)
  have da: "8 dvd a" using csize_dvd8 [OF okx(1)] n(1) a by simp
  have lim: "n + csize xs + s + csize ys < 9223372036854775808" using n(2) by simp
  have a64: "a < 2 ^ 64" using lim a by simp
  have "chunks ?m n xs = chunks m n xs"
    unfolding update_hdr_def using lim a da a64 not_hdr [OF okx(1) n(1), of a]
    by (intro chunks_store [OF okx(1) n(1)]) auto
  moreover have "chunks ?m (a + s) ys = chunks m (a + s) ys"
    unfolding update_hdr_def using lim a da a64 okx(3,4) not_hdr [OF okx(2), of "a + s" a]
    by (intro chunks_store [OF okx(2)]) auto
  moreover have "load64 ?m (of_nat a) = hdr_set_free (load64 m (of_nat a))"
    using load_update_hdr [OF da da a64 a64] by simp
  ultimately show ?thesis using c a by (simp add: chunks_append)
qed

lemma hdrs_replace: "hdrs n (xs @ (s, t) # ys) = hdrs n (xs @ (s, t') # ys)"
  by (simp add: hdrs_append)

lemma kfree_hit:
  assumes inv: "heap_inv k m (xs @ (s, True) # ys)"
  obtains m' where "kfree k m (of_nat (head_nat k + csize xs + 8)) = Some m'"
    "heap_inv k m' (merge_free (xs @ (s, False) # ys))"
    "\<And>x. (\<And>a. a \<in> set (hdrs (head_nat k) (xs @ (s, True) # ys)) \<Longrightarrow> x \<notin> span (of_nat a) 8) \<Longrightarrow> m' x = m x"
proof -
  note I = heap_invD [OF inv]
  let ?a = "head_nat k + csize xs"
  let ?m = "update_hdr hdr_set_free (of_nat ?a) m"
  let ?cs = "xs @ (s, False) # ys"
  have c: "chunks ?m (head_nat k) ?cs" using chunks_set_free [OF I(1,2,4,6) refl] .
  have ok: "\<forall>c \<in> set ?cs. ok_chunk c" using I(2) by (auto simp: ok_chunk_def)
  have "unat (heap_tail k) = head_nat k + csize ?cs" "head_nat k + csize ?cs < 2 ^ 63" using I(6,8) by simp_all
  from coalesce_chunks [OF c ok I(4) this]
  obtain m' where m': "coalesce k ?m = Some m'" "chunks m' (head_nat k) (merge_free ?cs)"
      "\<And>x. (\<forall>a \<in> set (hdrs (head_nat k) ?cs). x \<notin> span (of_nat a) 8) \<Longrightarrow> m' x = ?m x"
    by (auto simp: coalesce_def)
  have lim: "?a + 8 < 9223372036854775808" using I(6) I(2) by (auto simp: ok_chunk_def)
  have "unat (of_nat (?a + 8) :: u64) = ?a + 8" by (rule unat_of_nat_small) (use lim in simp)
  then have nz: "(of_nat (?a + 8) :: u64) \<noteq> 0" by (metis add_is_0 unat_0 zero_neq_numeral)
  have "(of_nat (?a + 8) :: u64) - 8 = of_nat ?a" by simp
  then have "kfree k m (of_nat (?a + 8)) = Some m'" using nz m'(1) by (simp add: kfree_def del: of_nat_add)
  moreover have "heap_inv k m' (merge_free ?cs)"
    using m'(2) inv ok_merge_free [OF ok] by (auto simp: heap_inv_def)
  moreover have "m' x = m x"
    if "\<And>a. a \<in> set (hdrs (head_nat k) (xs @ (s, True) # ys)) \<Longrightarrow> x \<notin> span (of_nat a) 8" for x
  proof -
    have "?a \<in> set (hdrs (head_nat k) (xs @ (s, True) # ys))" by (simp add: hdrs_append)
    then show ?thesis
      using that m'(3) [of x] hdrs_replace [of "head_nat k" xs s False ys True]
      by (simp add: update_hdr_other del: of_nat_add)
  qed
  ultimately show thesis using that by blast
qed

section \<open>Taken chunks\<close>

fun taken_at :: "nat \<Rightarrow> chunk list \<Rightarrow> (nat \<times> nat) set" where
  "taken_at n [] = {}"
| "taken_at n ((s, t) # cs) = (if t then {(n, s)} else {}) \<union> taken_at (n + s) cs"

lemma taken_at_append: "taken_at n (xs @ ys) = taken_at n xs \<union> taken_at (n + csize xs) ys"
  by (induction xs arbitrary: n) (auto simp: add.assoc)

lemma taken_at_range: "(a, s) \<in> taken_at n cs \<Longrightarrow> n \<le> a \<and> a + s \<le> n + csize cs"
  by (induction cs arbitrary: n) (fastforce split: if_splits)+

lemma taken_at_apart:
  "(a, s) \<in> taken_at n cs \<Longrightarrow> (b, s') \<in> taken_at n cs \<Longrightarrow> (a, s) \<noteq> (b, s') \<Longrightarrow> a + s \<le> b \<or> b + s' \<le> a"
  by (induction cs arbitrary: n) (fastforce dest: taken_at_range split: if_splits)+

lemma taken_at_split: "(a, s) \<in> taken_at n cs \<Longrightarrow> \<exists>xs ys. cs = xs @ (s, True) # ys \<and> a = n + csize xs"
proof (induction cs arbitrary: n)
  case (Cons c cs)
  obtain s' t where c: "c = (s', t)" by fastforce
  show ?case
  proof (cases "(a, s) \<in> taken_at (n + s') cs")
    case True
    then obtain xs ys where "cs = xs @ (s, True) # ys" "a = n + s' + csize xs" using Cons.IH by blast
    then show ?thesis by (intro exI [of _ "c # xs"] exI [of _ ys]) (simp add: c)
  next
    case False
    then have "c = (s, True)" "a = n" using Cons.prems c by (auto split: if_splits)
    then show ?thesis by (intro exI [of _ "[]"] exI [of _ cs]) simp
  qed
qed simp

lemma taken_at_hdrs:
  assumes "(a, s) \<in> taken_at n cs" "b \<in> set (hdrs n cs)" "\<forall>c \<in> set cs. ok_chunk c"
  shows "b \<le> a \<or> a + s \<le> b"
  using assms
proof (induction cs arbitrary: n)
  case (Cons c cs)
  obtain s' t where c: "c = (s', t)" by fastforce
  have r: "d \<in> set (hdrs k cs) \<Longrightarrow> k \<le> d" for k d by (induction cs arbitrary: k) force+
  show ?case
    using Cons.IH [of "n + s'"] Cons.prems taken_at_range [of a s "n + s'" cs] r [of b "n + s'"]
    by (auto simp: c split: if_splits)
qed simp

lemma taken_at_merge_free [simp]: "taken_at n (merge_free cs) = taken_at n cs"
  by (induction cs arbitrary: n rule: merge_free.induct) (auto simp: add.assoc)

lemma taken_at_set_free:
  assumes "\<forall>c \<in> set (xs @ (s, True) # ys). ok_chunk c"
  shows "taken_at n (xs @ (s, False) # ys) = taken_at n (xs @ (s, True) # ys) - {(n + csize xs, s)}"
proof -
  have s: "16 \<le> s" using assms by (simp add: ok_chunk_def)
  have "(n + csize xs, s) \<notin> taken_at n xs" "(n + csize xs, s) \<notin> taken_at (n + csize xs + s) ys"
    using s taken_at_range [of "n + csize xs" s] by fastforce+
  then show ?thesis by (auto simp: taken_at_append)
qed

lemma taken_at_split_chunk:
  "taken_at n (xs @ split_chunk nd s @ ys) =
    insert (n + csize xs, if s - nd > 8 then nd else s) (taken_at n (xs @ (s, False) # ys))" if "nd \<le> s"
  using that by (auto simp: split_chunk_def taken_at_append)

section \<open>Accounting\<close>

definition bytes_with :: "bool \<Rightarrow> chunk list \<Rightarrow> nat" where
  "bytes_with t cs = csize (List.filter (\<lambda>c. snd c = t) cs)"

lemma bytes_with_simps [simp]:
  "bytes_with t [] = 0"
  "bytes_with t ((s, t') # cs) = (if t' = t then s else 0) + bytes_with t cs"
  by (simp_all add: bytes_with_def)

lemma bytes_with_sum: "bytes_with True cs + bytes_with False cs = csize cs"
  by (induction cs) (auto simp: bytes_with_def csize_def)

lemma heap_stats_chunks:
  assumes "chunks m n cs" "\<forall>c \<in> set cs. ok_chunk c" "unat tail = n + csize cs" "n + csize cs < 2 ^ 63"
  shows "heap_stats_loop m tail (of_nat n) taken free =
    Some (taken + of_nat (bytes_with True cs), free + of_nat (bytes_with False cs))"
  using assms
proof (induction cs arbitrary: n taken free)
  case Nil
  then have "\<not> (of_nat n :: u64) < tail" by (subst of_nat_less_word) auto
  then show ?case by (subst heap_stats_loop.simps) simp
next
  case (Cons c cs)
  obtain s t where c: "c = (s, t)" by fastforce
  have h: "unat (hdr_size (load64 m (of_nat n))) = s" "hdr_is_taken (load64 m (of_nat n)) = t"
    and s: "16 \<le> s" using Cons.prems c by (auto simp: ok_chunk_def)
  have lt: "(of_nat n :: u64) < tail" using Cons.prems(3,4) s c by (subst of_nat_less_word) auto
  have sz: "hdr_size (load64 m (of_nat n)) = of_nat s" unfolding h(1) [symmetric] by simp
  have "heap_stats_loop m tail (of_nat (n + s)) t' f' =
      Some (t' + of_nat (bytes_with True cs), f' + of_nat (bytes_with False cs))" for t' f'
    using Cons.prems c by (intro Cons.IH) (auto simp: add.assoc)
  then show ?case
    using lt h(2) sz c by (subst heap_stats_loop.simps) (simp add: Let_def add.assoc add.commute add.left_commute)
qed

fun free_at :: "nat \<Rightarrow> chunk list \<Rightarrow> (nat \<times> nat) set" where
  "free_at n [] = {}"
| "free_at n ((s, t) # cs) = (if t then {} else {(n, s)}) \<union> free_at (n + s) cs"

lemma freed_loop_chunks:
  assumes "chunks m n cs" "\<forall>c \<in> set cs. ok_chunk c" "unat tail = n + csize cs" "n + csize cs < 2 ^ 63"
  shows "freed_loop m tail p (of_nat n) =
    Some (\<exists>(a, s) \<in> free_at n cs. a \<le> unat p \<and> unat p < a + s)"
  using assms
proof (induction cs arbitrary: n)
  case Nil
  then have "\<not> (of_nat n :: u64) < tail" by (subst of_nat_less_word) auto
  then show ?case by (subst freed_loop.simps) simp
next
  case (Cons c cs)
  obtain s t where c: "c = (s, t)" by fastforce
  have h: "unat (hdr_size (load64 m (of_nat n))) = s" "hdr_is_taken (load64 m (of_nat n)) = t"
    and s: "16 \<le> s" using Cons.prems c by (auto simp: ok_chunk_def)
  have n64: "n < 2 ^ 64" "n + s < 2 ^ 64" using Cons.prems(4) c by auto
  have lt: "(of_nat n :: u64) < tail" using Cons.prems(3,4) s c by (subst of_nat_less_word) auto
  have st: "(of_nat n :: u64) + hdr_size (load64 m (of_nat n)) = of_nat (n + s)" by (rule step_address [OF h(1)])
  have here: "p \<ge> (of_nat n :: u64) \<and> p < of_nat (n + s) \<longleftrightarrow> n \<le> unat p \<and> unat p < n + s"
    using n64 by (simp add: word_le_nat_alt word_less_nat_alt unat_of_nat_small del: of_nat_add)
  have ih: "freed_loop m tail p (of_nat (n + s)) =
      Some (\<exists>(a, s) \<in> free_at (n + s) cs. a \<le> unat p \<and> unat p < a + s)"
    using Cons.prems c by (intro Cons.IH) (auto simp: add.assoc)
  show ?case
    using lt h(2) here ih c
    by (subst freed_loop.simps) (auto simp: st hdr_is_free_def simp del: of_nat_add)
qed

section \<open>Requests that do not fit\<close>

text \<open>
  The search loop does not stop at the end of the heap.  When it reads a zero header
  there, it stays on it forever; when it reads a free header that is large enough, it
  hands that memory out.
\<close>

lemma kmalloc_loop_stuck:
  assumes "kmalloc_loop m tail need ptr = Some r"
  shows "\<not> (ptr < tail \<and> load64 m ptr = 0 \<and> need \<noteq> 0)"
proof (rule kmalloc_loop.raw_induct
    [where P = "\<lambda>m tail need ptr r. \<not> (ptr < tail \<and> load64 m ptr = 0 \<and> need \<noteq> 0)", OF _ assms])
  fix loop m tail need ptr y
  assume ih: "\<And>m tail need ptr y. loop m tail need ptr = Some y \<Longrightarrow>
      \<not> (ptr < tail \<and> load64 m ptr = 0 \<and> need \<noteq> 0)"
    and body: "(if ptr < tail then
        (if hdr_is_free (load64 m ptr) \<and> hdr_size (load64 m ptr) \<ge> need
         then Some (take_chunk ptr need m, ptr + 8)
         else loop m tail need (ptr + hdr_size (load64 m ptr)))
      else Some (m, 0)) = Some y"
  show "\<not> (ptr < tail \<and> load64 m ptr = 0 \<and> need \<noteq> 0)"
  proof
    assume a: "ptr < tail \<and> load64 m ptr = 0 \<and> need \<noteq> 0"
    have z: "hdr_size 0 = 0" by (simp add: hdr_size_def get_field_def)
    have "\<not> hdr_size 0 \<ge> need" using a by (simp add: z word_le_nat_alt unat_eq_0)
    then have "loop m tail need ptr = Some y" using body a z by (simp split: if_splits)
    then show False using ih a by blast
  qed
qed

lemma kmalloc_no_fit_scan:
  assumes inv: "heap_inv k m cs" and sz: "0 < unat sz" "unat sz < 2 ^ 62"
    and nofit: "take_fit (kmalloc_need sz) cs = None"
  shows "kmalloc k m sz =
    kmalloc_loop m (m_head k + 8 * m_total_size k) (align_value sz 3 + 8) (heap_tail k)"
proof -
  note I = heap_invD [OF inv] and nd = kmalloc_need_props [OF sz]
  have t: "heap_tail k = of_nat (head_nat k + csize cs)" unfolding I(8) [symmetric] by simp
  have "kmalloc_loop m (m_head k + 8 * m_total_size k) (align_value sz 3 + 8) (of_nat (head_nat k)) =
      kmalloc_loop m (m_head k + 8 * m_total_size k) (align_value sz 3 + 8) (of_nat (head_nat k + csize cs))"
    using nofit I nd(1) by (intro kmalloc_scan) (auto simp: take_fit_None)
  then show ?thesis using sz(1) unat_gt_0 [of sz] by (simp add: kmalloc_def Let_def t)
qed

lemma tail_below_scaled_end:
  assumes "heap_inv k m cs"
  shows "heap_tail k < m_head k + 8 * m_total_size k"
  using heap_invD [OF assms] assms by (auto simp: word_less_nat_alt heap_inv_def)

lemma kmalloc_no_fit_stuck:
  assumes inv: "heap_inv k m cs" and sz: "0 < unat sz" "unat sz < 2 ^ 62"
    and nofit: "take_fit (kmalloc_need sz) cs = None" and z: "load64 m (heap_tail k) = 0"
  shows "kmalloc k m sz = None"
proof (cases "kmalloc k m sz")
  case (Some r)
  note nd = kmalloc_need_props [OF sz]
  have "align_value sz 3 + 8 \<noteq> 0"
  proof
    assume "align_value sz 3 + 8 = 0"
    then have "unat (align_value sz 3 + 8) = unat (0 :: u64)" by (rule arg_cong)
    then show False using nd(1,2) by simp
  qed
  then show ?thesis
    using kmalloc_loop_stuck [of m _ _ "heap_tail k" r] Some kmalloc_no_fit_scan [OF inv sz nofit]
      tail_below_scaled_end [OF inv] z by metis
qed

lemma kmalloc_behind_heap:
  assumes inv: "heap_inv k m cs" and sz: "0 < unat sz" "unat sz < 2 ^ 62"
    and nofit: "\<And>s. (s, False) \<in> set cs \<Longrightarrow> s < kmalloc_need sz"
    and hdr: "hdr_is_free (load64 m (heap_tail k))" "kmalloc_need sz \<le> unat (hdr_size (load64 m (heap_tail k)))"
  shows "\<exists>m'. kmalloc k m sz = Some (m', heap_tail k + 8)"
proof -
  have "take_fit (kmalloc_need sz) cs = None" using nofit by (rule take_fit_NoneI)
  note run = kmalloc_no_fit_scan [OF inv sz this]
  have "hdr_size (load64 m (heap_tail k)) \<ge> align_value sz 3 + 8"
    using hdr(2) kmalloc_need_props(1) [OF sz] by (simp add: word_le_nat_alt)
  then show ?thesis
    unfolding run using tail_below_scaled_end [OF inv] hdr(1)
    by (subst kmalloc_loop.simps) simp
qed

section \<open>The heap as a provider of blocks\<close>

text \<open>
  \<^verbatim>\<open>heap_blocks k m B\<close>: every live block of \<^verbatim>\<open>B\<close> is the payload of a taken chunk of its own.
\<close>

definition heap_blocks :: "KernelMemoryAllocator \<Rightarrow> pmem \<Rightarrow> (u64 \<times> nat) set \<Rightarrow> bool" where
  "heap_blocks k m B \<longleftrightarrow> (\<exists>cs. heap_inv k m cs \<and> inj_on fst B \<and>
     (\<forall>(a, l) \<in> B. \<exists>b s. (b, s) \<in> taken_at (head_nat k) cs \<and> a = of_nat (b + 8) \<and> l + 8 \<le> s))"

text \<open>
  A request that stays inside the heap: a free chunk is large enough for it, or the word that the unbounded search loop
  reads after the last chunk is zero (it then never returns).
\<close>

definition heap_has_room :: "KernelMemoryAllocator \<Rightarrow> pmem \<Rightarrow> u64 \<Rightarrow> bool" where
  "heap_has_room k m n \<longleftrightarrow> (\<exists>cs. heap_inv k m cs \<and> (\<exists>(s, t) \<in> set cs. \<not> t \<and> kmalloc_need n \<le> s))"

definition heap_request_ok :: "KernelMemoryAllocator \<Rightarrow> pmem \<Rightarrow> u64 \<Rightarrow> bool" where
  "heap_request_ok k m n \<longleftrightarrow> 0 < unat n \<and> unat n < 2 ^ 62 \<and> (heap_has_room k m n \<or> load64 m (heap_tail k) = 0)"

lemma chunks_unique:
  assumes "chunks m n cs" "chunks m n ds" "csize cs = csize ds" "\<forall>c \<in> set cs. ok_chunk c" "\<forall>c \<in> set ds. ok_chunk c"
  shows "cs = ds"
  using assms
proof (induction cs arbitrary: n ds)
  case Nil
  then show ?case by (cases ds) (auto simp: ok_chunk_def)
next
  case (Cons c cs)
  obtain s t where c: "c = (s, t)" by fastforce
  have "16 \<le> csize ds" using Cons.prems(3,4) by (simp add: c ok_chunk_def)
  then obtain s' t' ds' where ds: "ds = (s', t') # ds'" by (cases ds) auto
  then have "s' = s" "t' = t" using Cons.prems(1,2) by (simp_all add: c)
  then show ?case using Cons.IH [of "n + s" ds'] Cons.prems by (simp add: c ds)
qed

lemma heap_inv_unique: "heap_inv k m cs \<Longrightarrow> heap_inv k m ds \<Longrightarrow> cs = ds"
  by (rule chunks_unique [of m "head_nat k"]) (simp_all add: heap_inv_def)

lemma request_ok_fit:
  assumes inv: "heap_inv k m cs" and ok: "heap_request_ok k m n" and al: "kmalloc k m n \<noteq> None"
  shows "take_fit (kmalloc_need n) cs \<noteq> None"
proof
  assume none: "take_fit (kmalloc_need n) cs = None"
  then have "\<not> heap_has_room k m n"
    using heap_inv_unique [OF inv] by (fastforce simp: heap_has_room_def take_fit_None)
  then have "load64 m (heap_tail k) = 0" "0 < unat n" "unat n < 2 ^ 62" using ok by (auto simp: heap_request_ok_def)
  then show False using kmalloc_no_fit_stuck [OF inv _ _ none] al by blast
qed

lemma taken_ok: "(b, s) \<in> taken_at n cs \<Longrightarrow> \<forall>c \<in> set cs. ok_chunk c \<Longrightarrow> 16 \<le> s"
  using taken_at_split [of b s n cs] by (auto simp: ok_chunk_def)

lemma taken_at_free_pos:
  assumes "\<forall>c \<in> set (xs @ (s, False) # ys). ok_chunk c"
  shows "(n + csize xs, s') \<notin> taken_at n (xs @ (s, False) # ys)"
proof
  assume a: "(n + csize xs, s') \<in> taken_at n (xs @ (s, False) # ys)"
  then have "16 \<le> s'" using taken_ok assms by blast
  moreover have "16 \<le> s" using assms by (simp add: ok_chunk_def)
  ultimately show False
    using a taken_at_range [of "n + csize xs" s'] by (fastforce simp: taken_at_append)
qed

lemma payload_span:
  assumes "heap_inv k m cs" "(b, s) \<in> taken_at (head_nat k) cs" "l + 8 \<le> s" "x \<in> span (of_nat (b + 8)) l"
  shows "b + 8 \<le> unat x \<and> unat x < b + s" "head_nat k \<le> b" "b + s \<le> head_nat k + csize cs"
proof -
  note I = heap_invD [OF assms(1)]
  show r: "head_nat k \<le> b" "b + s \<le> head_nat k + csize cs" using taken_at_range [OF assms(2)] by auto
  have u: "unat (of_nat (b + 8) :: u64) = b + 8"
    by (rule unat_of_nat_small) (use r I(6) assms(3) in simp)
  have "unat (of_nat (b + 8) :: u64) + l \<le> 2 ^ 64" using u r I(6) assms(3) by simp
  from span_eq_range [OF this, of x] show "b + 8 \<le> unat x \<and> unat x < b + s" using assms(3,4) u by simp
qed

lemma kmalloc_hit_frame:
  assumes inv: "heap_inv k m (xs @ (s, False) # ys)" and a: "a = head_nat k + csize xs"
    and x: "unat x < a \<or> a + s \<le> unat x"
  shows "x \<notin> span (of_nat a) s"
proof
  note I = heap_invD [OF inv]
  assume "x \<in> span (of_nat a) s"
  moreover have u: "unat (of_nat a :: u64) = a"
    by (rule unat_of_nat_small) (use a I(6) in simp)
  have "unat (of_nat a :: u64) + s \<le> 2 ^ 64" using u a I(6) by simp
  ultimately show False using span_eq_range [of "of_nat a" s x] u x by auto
qed

lemma heap_alloc_law:
  assumes B: "heap_blocks k m B" and ok: "heap_request_ok k m n" and al: "kmalloc k m n = Some (m', a)"
  shows "a \<noteq> 0" "heap_blocks k m' (insert (a, unat n) B)" "a \<notin> fst ` B"
    "(b, l) \<in> B \<Longrightarrow> x \<in> span b l \<Longrightarrow> m' x = m x"
proof -
  obtain cs where inv: "heap_inv k m cs" and inj: "inj_on fst B"
    and bs: "\<And>a l. (a, l) \<in> B \<Longrightarrow> \<exists>b s. (b, s) \<in> taken_at (head_nat k) cs \<and> a = of_nat (b + 8) \<and> l + 8 \<le> s"
    using B unfolding heap_blocks_def by blast
  note I = heap_invD [OF inv]
  have sz: "0 < unat n" "unat n < 2 ^ 62" using ok by (auto simp: heap_request_ok_def)
  note nd = kmalloc_need_props [OF sz]
  let ?nd = "kmalloc_need n"
  have "take_fit ?nd cs \<noteq> None" using request_ok_fit [OF inv ok] al by simp
  then obtain off cs' where fit: "take_fit ?nd cs = Some (off, cs')" by auto
  obtain m1 xs s ys where k: "kmalloc k m n = Some (m1, of_nat (head_nat k + off + 8))" "heap_inv k m1 cs'"
    "cs = xs @ (s, False) # ys" "?nd \<le> s" "off = csize xs" "cs' = xs @ split_chunk ?nd s @ ys"
    "\<And>x. x \<notin> span (of_nat (head_nat k + off)) s \<Longrightarrow> m1 x = m x"
    using kmalloc_hit [OF inv sz fit] by metis
  let ?b = "head_nat k + off"
  have m': "m' = m1" "a = of_nat (?b + 8)" using al k(1) by auto
  have new: "taken_at (head_nat k) cs' =
      insert (?b, if s - ?nd > 8 then ?nd else s) (taken_at (head_nat k) cs)"
    unfolding k(3,6) using taken_at_split_chunk [OF k(4)] k(5) by simp
  have b64: "?b + 8 < 2 ^ 64" using I(6) k(3-5) nd(2) by simp
  have "unat (of_nat (?b + 8) :: u64) = ?b + 8" by (rule unat_of_nat_small) (use b64 in simp)
  then have "unat a \<noteq> 0" unfolding m'(2) by simp
  then show "a \<noteq> 0" by auto
  show fresh: "a \<notin> fst ` B"
  proof
    assume "a \<in> fst ` B"
    then obtain b s' where b: "(b, s') \<in> taken_at (head_nat k) cs" "(of_nat (b + 8) :: u64) = of_nat (?b + 8)"
      using bs m'(2) by force
    have "b + 8 < 2 ^ 64" using taken_at_range [OF b(1)] taken_ok [OF b(1) I(2)] I(6) by simp
    then have "b = ?b" using of_nat_u64_inj [of "b + 8" "?b + 8"] b(2) b64 by simp
    then show False
      using b(1) I(2) taken_at_free_pos [of xs s ys "head_nat k" s'] k(3,5) by simp
  qed
  have frame: "m' x = m x" if "unat x < ?b \<or> ?b + s \<le> unat x" for x
    unfolding m'(1) using kmalloc_hit_frame [of k m xs s ys ?b x] inv k(3,5) that by (intro k(7)) simp
  have "\<exists>b s. (b, s) \<in> taken_at (head_nat k) cs' \<and> a' = of_nat (b + 8) \<and> l + 8 \<le> s"
    if "(a', l) \<in> insert (a, unat n) B" for a' l
  proof (cases "(a', l) \<in> B")
    case True
    then show ?thesis using bs [OF True] new by blast
  next
    case False
    then show ?thesis
      using that m'(2) new nd(4) k(4)
      by (intro exI [of _ ?b] exI [of _ "if s - ?nd > 8 then ?nd else s"]) auto
  qed
  moreover have "inj_on fst (insert (a, unat n) B)" using inj fresh by (simp add: inj_on_insert) auto
  ultimately show "heap_blocks k m' (insert (a, unat n) B)"
    unfolding heap_blocks_def using k(2) m'(1) by blast
  show "(b, l) \<in> B \<Longrightarrow> x \<in> span b l \<Longrightarrow> m' x = m x"
  proof -
    assume "(b, l) \<in> B" "x \<in> span b l"
    then obtain c s' where c: "(c, s') \<in> taken_at (head_nat k) cs" "b = of_nat (c + 8)" "l + 8 \<le> s'"
      using bs by blast
    have r: "c + 8 \<le> unat x" "unat x < c + s'"
      using payload_span(1) [OF inv c(1,3)] \<open>x \<in> span b l\<close> c(2) by auto
    have "c + s' \<le> ?b \<or> ?b + s \<le> c"
      using c(1) taken_at_range [of c s' "head_nat k" xs] taken_at_range [of c s' "?b + s" ys] k(3,5)
      by (auto simp: taken_at_append)
    then show "m' x = m x" using r by (intro frame) auto
  qed
qed

lemma heap_free_law:
  assumes B: "heap_blocks k m B" and live: "(a, l) \<in> B"
  obtains m' where "kfree k m a = Some m'" "heap_blocks k m' (B - {(a, l)})"
    "\<And>b n x. (b, n) \<in> B \<Longrightarrow> x \<in> span b n \<Longrightarrow> m' x = m x"
proof -
  obtain cs where inv: "heap_inv k m cs" and inj: "inj_on fst B"
    and bs: "\<And>a l. (a, l) \<in> B \<Longrightarrow> \<exists>b s. (b, s) \<in> taken_at (head_nat k) cs \<and> a = of_nat (b + 8) \<and> l + 8 \<le> s"
    using B unfolding heap_blocks_def by blast
  note I = heap_invD [OF inv]
  obtain b s where b: "(b, s) \<in> taken_at (head_nat k) cs" "a = of_nat (b + 8)" "l + 8 \<le> s"
    using bs [OF live] by blast
  obtain xs ys where cs: "cs = xs @ (s, True) # ys" "b = head_nat k + csize xs"
    using taken_at_split [OF b(1)] by blast
  obtain m' where m': "kfree k m a = Some m'" "heap_inv k m' (merge_free (xs @ (s, False) # ys))"
    "\<And>x. (\<And>h. h \<in> set (hdrs (head_nat k) cs) \<Longrightarrow> x \<notin> span (of_nat h) 8) \<Longrightarrow> m' x = m x"
    using kfree_hit [OF inv [unfolded cs(1)]] unfolding b(2) cs by metis
  have taken: "taken_at (head_nat k) (merge_free (xs @ (s, False) # ys)) = taken_at (head_nat k) cs - {(b, s)}"
    unfolding taken_at_merge_free cs by (rule taken_at_set_free) (use I(2) cs(1) in simp)
  have outside: "x \<notin> span (of_nat h) 8"
    if "h \<in> set (hdrs (head_nat k) cs)" "unat x < h \<or> h + 8 \<le> unat x" for h x
  proof
    assume "x \<in> span (of_nat h) 8"
    have "h + 16 \<le> head_nat k + csize cs" using hdrs_range [OF that(1) I(2,4)] by simp
    then have u: "unat (of_nat h :: u64) = h" by (intro unat_of_nat_small) (use I(6) in simp)
    have "unat (of_nat h :: u64) + 8 \<le> 2 ^ 64" using u \<open>h + 16 \<le> _\<close> I(6) by simp
    from span_eq_range [OF this, of x] show False using u that(2) \<open>x \<in> span (of_nat h) 8\<close> by auto
  qed
  have keep: "m' x = m x" if cn: "(c, n) \<in> B" and x: "x \<in> span c n" for c n x
  proof -
    obtain b' s' where b': "(b', s') \<in> taken_at (head_nat k) cs" "c = of_nat (b' + 8)" "n + 8 \<le> s'"
      using bs [OF cn] by blast
    have r: "b' + 8 \<le> unat x" "unat x < b' + s'"
      using payload_span(1) [OF inv b'(1,3)] x b'(2) by auto
    show ?thesis
    proof (rule m'(3))
      fix h assume h: "h \<in> set (hdrs (head_nat k) cs)"
      then show "x \<notin> span (of_nat h) 8" using taken_at_hdrs [OF b'(1) h I(2)] r by (intro outside) auto
    qed
  qed
  have "\<exists>b' s'. (b', s') \<in> taken_at (head_nat k) cs - {(b, s)} \<and> c = of_nat (b' + 8) \<and> n + 8 \<le> s'"
    if cn: "(c, n) \<in> B - {(a, l)}" for c n
  proof -
    obtain b' s' where b': "(b', s') \<in> taken_at (head_nat k) cs" "c = of_nat (b' + 8)" "n + 8 \<le> s'"
      using bs cn by blast
    have "c \<noteq> a" using inj cn live by (metis DiffE inj_onD fst_conv prod.inject singletonI)
    then have "b' \<noteq> b" using b'(2) b(2) by auto
    then show ?thesis using b' by blast
  qed
  then have all: "\<forall>(c, n) \<in> B - {(a, l)}. \<exists>b' s'. (b', s') \<in> taken_at (head_nat k) cs - {(b, s)} \<and>
      c = of_nat (b' + 8) \<and> n + 8 \<le> s'"
    unfolding Ball_def split_paired_All prod.case by simp
  have "heap_blocks k m' (B - {(a, l)})"
    unfolding heap_blocks_def
  proof (intro exI conjI)
    show "heap_inv k m' (merge_free (xs @ (s, False) # ys))" by (rule m'(2))
    show "inj_on fst (B - {(a, l)})" using inj by (rule inj_on_subset) blast
    show "\<forall>(c, n) \<in> B - {(a, l)}. \<exists>b' s'.
        (b', s') \<in> taken_at (head_nat k) (merge_free (xs @ (s, False) # ys)) \<and>
        c = of_nat (b' + 8) \<and> n + 8 \<le> s'" unfolding taken by (rule all)
  qed
  then show thesis using that m'(1) keep by blast
qed

interpretation heap_provider: block_allocator
  "kmalloc k" "kfree k" unat "heap_request_ok k" "\<lambda>m. m" "heap_blocks k"
proof unfold_locales
  fix s B n s' a
  assume h: "heap_blocks k s B" "heap_request_ok k s n" "kmalloc k s n = Some (s', a)"
  then show "heap_blocks k s' (insert (a, unat n) B) \<and> a \<notin> fst ` B" using heap_alloc_law by blast
next
  fix s B n s'
  assume "heap_blocks k s B" "heap_request_ok k s n" "kmalloc k s n = Some (s', 0)"
  then show "heap_blocks k s' B" using heap_alloc_law(1) by blast
next
  fix s B a l
  assume "heap_blocks k s B" "(a, l) \<in> B"
  then show "\<exists>s'. kfree k s a = Some s' \<and> heap_blocks k s' (B - {(a, l)})"
    using heap_free_law by metis
next
  fix s B a l b n
  assume B: "heap_blocks k s B" and ab: "(a, l) \<in> B" "(b, n) \<in> B" "(a, l) \<noteq> (b, n)"
  obtain cs where inv: "heap_inv k s cs" and inj: "inj_on fst B"
    and bs: "\<And>a l. (a, l) \<in> B \<Longrightarrow> \<exists>b s. (b, s) \<in> taken_at (head_nat k) cs \<and> a = of_nat (b + 8) \<and> l + 8 \<le> s"
    using B unfolding heap_blocks_def by blast
  obtain c s1 where c: "(c, s1) \<in> taken_at (head_nat k) cs" "a = of_nat (c + 8)" "l + 8 \<le> s1"
    using bs [OF ab(1)] by blast
  obtain d s2 where d: "(d, s2) \<in> taken_at (head_nat k) cs" "b = of_nat (d + 8)" "n + 8 \<le> s2"
    using bs [OF ab(2)] by blast
  have ne: "a \<noteq> b" using inj ab by (metis inj_onD fst_conv)
  then have "c \<noteq> d" using c(2) d(2) by auto
  then have far: "c + s1 \<le> d \<or> d + s2 \<le> c" using taken_at_apart [OF c(1) d(1)] by auto
  have "x \<notin> span b n" if "x \<in> span a l" for x
    using payload_span(1) [OF inv c(1,3), of x] payload_span(1) [OF inv d(1,3), of x] that c(2) d(2) far
    by auto
  then show "a \<noteq> b \<and> span a l \<inter> span b n = {}" using ne by blast
next
  fix s s' B n a b l x
  assume "heap_blocks k s B" "heap_request_ok k s n" "kmalloc k s n = Some (s', a)" "(b, l) \<in> B" "x \<in> span b l"
  then show "s' x = s x" by (rule heap_alloc_law(4))
next
  fix s s' B a l b n x
  assume h: "heap_blocks k s B" "(a, l) \<in> B" "kfree k s a = Some s'" "(b, n) \<in> B" "x \<in> span b n"
  obtain m' where "kfree k s a = Some m'" "\<And>b n x. (b, n) \<in> B \<Longrightarrow> x \<in> span b n \<Longrightarrow> m' x = s x"
    using heap_free_law [OF h(1,2)] by metis
  then show "s' x = s x" using h by simp
qed

section \<open>A fresh heap\<close>

lemma heap_ctor_inv:
  assumes rel: "page_rel mm m L" and al: "unat (m_alloc_start mm) mod 4096 = 0"
    and lim: "unat (m_alloc_start mm) + 4096 * npages mm < 2 ^ 62"
    and ok: "snd (zalloc mm m ALLOCATION_SIZE) \<noteq> 0" "page_request_ok mm m ALLOCATION_SIZE"
  shows "heap_inv (fst (heap_ctor mm m)) (snd (heap_ctor mm m)) [(262144, False)]"
proof -
  obtain m1 a where z: "zalloc mm m ALLOCATION_SIZE = (m1, a)" by fastforce
  have nz: "a \<noteq> 0" using ok z by simp
  obtain i where i: "a = m_alloc_start mm + 4096 * of_nat i"
    "page_rel mm m1 (insert (i, unat ALLOCATION_SIZE) L)"
    using zalloc_effect [OF rel ok(2) z nz] by blast
  have "(i, unat ALLOCATION_SIZE) \<in> insert (i, unat ALLOCATION_SIZE) L" by simp
  note r = block_in_range [OF i(2) this]
  have ua: "unat a = unat (m_alloc_start mm) + 4096 * i" using r(1) i(1) by simp
  have "4096 dvd unat a" using al by (simp add: ua mod_eq_0_iff_dvd)
  then have da: "8 dvd unat a" by (rule dvd_trans [rotated]) simp
  let ?k = "fst (heap_ctor mm m)" and ?m = "snd (heap_ctor mm m)"
  have k: "m_head ?k = a" "unat (m_total_size ?k) = 262144"
    using z by (simp_all add: heap_ctor_def Let_def ALLOCATION_SIZE_def PAGE_SIZE_def)
  have m: "?m = update_hdr (hdr_set_size 262144) a (update_hdr hdr_set_free a m1)"
    using z by (simp add: heap_ctor_def Let_def ALLOCATION_SIZE_def PAGE_SIZE_def)
  have ld: "load64 (update_hdr f a m0) a = f (load64 m0 a)" for f m0 by (simp add: update_hdr_def)
  have "unat (262144 :: u64) < 2 ^ 63" by simp
  from hdr_size_nat [OF this] have "chunks ?m (unat a) [(262144, False)]"
    by (simp add: m ld del: hdr_size_simps(3))
  moreover have "0 < unat a" using nz by (simp add: unat_gt_0)
  moreover have "unat a + 8 * 262144 < 2 ^ 63" using ua r(2) lim by simp
  ultimately show ?thesis using da k by (simp add: heap_inv_def ok_chunk_def)
qed

section \<open>Properties\<close>

text \<open>A heap of 64 bytes at address 0x1000 with one free chunk.\<close>

definition small_heap :: KernelMemoryAllocator where
  "small_heap = \<lparr>m_head = 0x1000, m_total_size = 64, m_taken = 0\<rparr>"

definition small_memory :: pmem where
  "small_memory = (\<lambda>x. if x = 0x1000 then 64 else 0)"

lemma small_heap_inv: "heap_inv small_heap small_memory [(64, False)]"
proof -
  have "unat (hdr_size (load64 small_memory 0x1000)) = 64" "\<not> hdr_is_taken (load64 small_memory 0x1000)"
    by code_simp+
  then show ?thesis by (simp add: heap_inv_def small_heap_def ok_chunk_def)
qed

lemma small_heap_blocks: "heap_blocks small_heap small_memory {}"
  using small_heap_inv by (auto simp: heap_blocks_def)

lemma small_request_ok: "heap_request_ok small_heap small_memory 20"
  using small_heap_inv by (auto simp: heap_request_ok_def heap_has_room_def kmalloc_need_def intro!: exI [of _ "[(64, False)]"])

lemma small_fit: "take_fit (kmalloc_need 20) [(64, False)] = Some (0, [(32, True), (32, False)])"
  by (simp add: kmalloc_need_def split_chunk_def)

lemma small_heap_taken: "\<exists>m. heap_inv small_heap m [(32, True), (32, False)]"
  by (rule kmalloc_hit [OF small_heap_inv _ _ small_fit]) auto

text \<open>
  C7. \<^verbatim>\<open>kmalloc\<close> refines first fit on the chunk list: when some free chunk is at least the
  request rounded up to eight bytes plus a header, the loop returns the payload of the
  first such chunk, splits off the remainder as a free chunk when it is more than a bare
  header, keeps every other chunk and the heap invariant, and writes only inside the
  chunk it takes.
\<close>

theorem kmalloc_first_fit:
  assumes "heap_inv k m cs" "0 < unat sz" "unat sz < 2 ^ 62"
    and "take_fit (kmalloc_need sz) cs = Some (off, cs')"
  shows "\<exists>m' xs s ys. kmalloc k m sz = Some (m', of_nat (head_nat k + off + 8)) \<and> heap_inv k m' cs' \<and>
    cs = xs @ (s, False) # ys \<and> unat sz + 8 \<le> s \<and> off = csize xs \<and>
    cs' = xs @ split_chunk (kmalloc_need sz) s @ ys \<and>
    (\<forall>x. x \<notin> span (of_nat (head_nat k + off)) s \<longrightarrow> m' x = m x)"
proof -
  obtain m' xs s ys where "kmalloc k m sz = Some (m', of_nat (head_nat k + off + 8))" "heap_inv k m' cs'"
    "cs = xs @ (s, False) # ys" "kmalloc_need sz \<le> s" "off = csize xs"
    "cs' = xs @ split_chunk (kmalloc_need sz) s @ ys"
    "\<And>x. x \<notin> span (of_nat (head_nat k + off)) s \<Longrightarrow> m' x = m x"
    using kmalloc_hit [OF assms] by metis
  moreover have "unat sz + 8 \<le> s" using kmalloc_need_props(4) [OF assms(2,3)] calculation(4) by linarith
  ultimately show ?thesis by blast
qed

theorem kmalloc_first_fit_witness:
  "\<exists>m'. kmalloc small_heap small_memory 20 = Some (m', 0x1008) \<and> heap_inv small_heap m' [(32, True), (32, False)]"
  using kmalloc_first_fit [OF small_heap_inv _ _ small_fit] by (auto simp: small_heap_def)

text \<open>
  C8. \<^verbatim>\<open>kfree\<close> refines the release on the chunk list: on the payload address of a taken
  chunk it returns, with that chunk free and then each pair of neighbouring free chunks
  merged from the front, keeps the heap invariant, and writes only header words.
\<close>

theorem kfree_coalesces:
  assumes "heap_inv k m (xs @ (s, True) # ys)"
  shows "\<exists>m'. kfree k m (of_nat (head_nat k + csize xs + 8)) = Some m' \<and>
    heap_inv k m' (merge_free (xs @ (s, False) # ys)) \<and>
    (\<forall>x. (\<forall>a \<in> set (hdrs (head_nat k) (xs @ (s, True) # ys)). x \<notin> span (of_nat a) 8) \<longrightarrow> m' x = m x)"
  using kfree_hit [OF assms] by metis

theorem kfree_coalesces_witness:
  "\<exists>m m'. heap_inv small_heap m [(32, True), (32, False)] \<and> kfree small_heap m 0x1008 = Some m' \<and>
    heap_inv small_heap m' [(64, False)]"
proof -
  obtain m where m: "heap_inv small_heap m [(32, True), (32, False)]" using small_heap_taken by blast
  then show ?thesis
    using kfree_coalesces [of small_heap m "[]" 32 "[(32, False)]"] by (auto simp: small_heap_def)
qed

text \<open>
  C9. Any sequence of \<^verbatim>\<open>kmalloc\<close> and \<^verbatim>\<open>kfree\<close> calls that returns, with releases of live blocks only,
  ends with live blocks that are pairwise disjoint address ranges, and a block that is never freed keeps every byte its owner
  wrote.  Every request has to be for at least one byte and to be made when a free chunk is large enough for it, or when
  the word behind the heap is zero (\<^theory_text>\<open>heap_request_ok\<close>).  Without either the search, whose end is eight times too
  far away, takes the word behind the heap for a header, and when that looks free and large enough \<^verbatim>\<open>kmalloc\<close> hands out memory that is not the
  heap's: the second half of the statement.
\<close>

theorem heap_clients_isolated:
  assumes "heap_blocks k m B"
  shows "(client_run (kmalloc k) (kfree k) unat ops (m, B) = Some (m', B') \<longrightarrow>
      requests_ok (heap_request_ok k) (kmalloc k) (kfree k) unat ops (m, B) \<longrightarrow>
      heap_blocks k m' B' \<and> blocks_apart B' \<and>
      (\<forall>(b, l) \<in> B. alloc_op.Free b \<notin> set ops \<longrightarrow> (b, l) \<in> B' \<and> (\<forall>y \<in> span b l. m' y = m y))) \<and>
    (\<forall>n. 0 < unat n \<and> unat n < 2 ^ 62 \<and> \<not> heap_has_room k m n \<and> hdr_is_free (load64 m (heap_tail k)) \<and>
      kmalloc_need n \<le> unat (hdr_size (load64 m (heap_tail k))) \<longrightarrow> (\<exists>m'. kmalloc k m n = Some (m', heap_tail k + 8)))"
proof (intro conjI allI impI)
  assume run: "client_run (kmalloc k) (kfree k) unat ops (m, B) = Some (m', B')"
    "requests_ok (heap_request_ok k) (kmalloc k) (kfree k) unat ops (m, B)"
  show "heap_blocks k m' B'" by (rule heap_provider.run_rel [OF assms run])
  show "blocks_apart B'" by (rule heap_provider.run_apart [OF assms run])
  show "\<forall>(b, l) \<in> B. alloc_op.Free b \<notin> set ops \<longrightarrow> (b, l) \<in> B' \<and> (\<forall>y \<in> span b l. m' y = m y)"
    using heap_provider.run_frame [OF assms run] by blast
next
  obtain cs where inv: "heap_inv k m cs" using assms by (auto simp: heap_blocks_def)
  fix n
  assume n: "0 < unat n \<and> unat n < 2 ^ 62 \<and> \<not> heap_has_room k m n \<and> hdr_is_free (load64 m (heap_tail k)) \<and>
      kmalloc_need n \<le> unat (hdr_size (load64 m (heap_tail k)))"
  have "s < kmalloc_need n" if "(s, False) \<in> set cs" for s
  proof (rule ccontr)
    assume "\<not> s < kmalloc_need n"
    then have "heap_has_room k m n"
      unfolding heap_has_room_def using inv that by (intro exI [of _ cs] conjI bexI [of _ "(s, False)"]) simp_all
    then show False using n by simp
  qed
  then show "\<exists>m'. kmalloc k m n = Some (m', heap_tail k + 8)" using n by (intro kmalloc_behind_heap [OF inv]) auto
qed

theorem heap_clients_isolated_witness:
  "\<exists>m' B'. client_run (kmalloc small_heap) (kfree small_heap) unat
      [alloc_op.Alloc 20, alloc_op.Free 0x1008] (small_memory, {}) = Some (m', B') \<and>
    blocks_apart B' \<and> heap_blocks small_heap m' B'"
proof -
  let ?ops = "[alloc_op.Alloc 20, alloc_op.Free 0x1008]"
  obtain m where al: "kmalloc small_heap small_memory 20 = Some (m, 0x1008)"
    by (rule kmalloc_hit [OF small_heap_inv _ _ small_fit]) (auto simp: small_heap_def)
  have "heap_blocks small_heap m (insert (0x1008, unat (20 :: u64)) {})"
    by (rule heap_alloc_law(2) [OF small_heap_blocks small_request_ok al])
  then obtain m' where fr: "kfree small_heap m 0x1008 = Some m'"
    by (rule heap_free_law [where a = "0x1008" and l = 20]) simp_all
  have run: "client_run (kmalloc small_heap) (kfree small_heap) unat ?ops (small_memory, {}) = Some (m', {b \<in> {(0x1008, 20)}. fst b \<noteq> 0x1008})"
    using al fr by simp
  have "requests_ok (heap_request_ok small_heap) (kmalloc small_heap) (kfree small_heap) unat ?ops (small_memory, {})"
    using small_request_ok by (simp split: option.split)
  note live = mp [OF mp [OF conjunct1 [OF heap_clients_isolated [OF small_heap_blocks]] run] this]
  show ?thesis by (intro exI conjI) (rule run, rule conjunct1 [OF conjunct2 [OF live]], rule conjunct1 [OF live])
qed

text \<open>
  \<^verbatim>\<open>KernelMemoryAllocator::get_statistics\<close> returns, and reports exactly the bytes of the
  taken and of the free chunks; together they are the total size.
\<close>

theorem heap_statistics_exact:
  assumes "heap_inv k m cs"
  shows "\<exists>st. heap_statistics k m = Some st \<and> unat (used_size st) = bytes_with True cs \<and>
    unat (free_size st) = bytes_with False cs \<and>
    unat (used_size st) + unat (free_size st) = unat (total_size st)"
proof -
  note I = heap_invD [OF assms]
  have sum: "bytes_with True cs + bytes_with False cs = csize cs" by (rule bytes_with_sum)
  have "heap_stats_loop m (heap_tail k) (of_nat (head_nat k)) 0 0 =
      Some (0 + of_nat (bytes_with True cs), 0 + of_nat (bytes_with False cs))"
    using I by (intro heap_stats_chunks) auto
  moreover have "unat (of_nat (bytes_with True cs) :: u64) = bytes_with True cs"
    "unat (of_nat (bytes_with False cs) :: u64) = bytes_with False cs"
    by (rule unat_of_nat_small, use sum I(6) in simp)+
  ultimately show ?thesis using sum I(3) by (simp add: heap_statistics_def)
qed

theorem heap_statistics_exact_witness:
  "\<exists>st. heap_statistics small_heap small_memory = Some st \<and> unat (free_size st) = 64"
  using heap_statistics_exact [OF small_heap_inv] by auto

text \<open>
  A request that no free chunk can serve is not answered with a null pointer: because
  the search end counts the total size in headers instead of bytes, \<^verbatim>\<open>kmalloc\<close> reads the
  word behind the heap as a header, and when that word is zero it never returns.
\<close>

theorem kmalloc_exhausted_diverges:
  assumes "heap_inv k m cs" "0 < unat sz" "unat sz < 2 ^ 62"
    and "\<And>s. (s, False) \<in> set cs \<Longrightarrow> s < kmalloc_need sz" and "load64 m (heap_tail k) = 0"
  shows "kmalloc k m sz = None"
proof (rule kmalloc_no_fit_stuck [OF assms(1-3) _ assms(5)])
  show "take_fit (kmalloc_need sz) cs = None" using assms(4) by (rule take_fit_NoneI)
qed

theorem kmalloc_exhausted_diverges_witness: "kmalloc small_heap small_memory 100 = None"
proof (rule kmalloc_exhausted_diverges [OF small_heap_inv])
  show "load64 small_memory (heap_tail small_heap) = 0" by code_simp
qed (simp_all add: kmalloc_need_def)

text \<open>
  When no chunk fits and the word behind the heap looks like a free header that is
  large enough, \<^verbatim>\<open>kmalloc\<close> returns an address outside its heap and marks that foreign word
  as taken.
\<close>

theorem kmalloc_leaves_heap:
  assumes "heap_inv k m cs" "0 < unat sz" "unat sz < 2 ^ 62"
    and "\<And>s. (s, False) \<in> set cs \<Longrightarrow> s < kmalloc_need sz"
    and "hdr_is_free (load64 m (heap_tail k))" "kmalloc_need sz \<le> unat (hdr_size (load64 m (heap_tail k)))"
  shows "\<exists>m'. kmalloc k m sz = Some (m', heap_tail k + 8)"
  using assms by (rule kmalloc_behind_heap)

definition small_memory2 :: pmem where
  "small_memory2 = (\<lambda>x. if x = 0x1000 then 64 else if x = 0x1040 then 0xC8 else 0)"

theorem kmalloc_leaves_heap_witness: "\<exists>m'. kmalloc small_heap small_memory2 100 = Some (m', 0x1048)"
proof -
  have "unat (hdr_size (load64 small_memory2 0x1000)) = 64" "\<not> hdr_is_taken (load64 small_memory2 0x1000)"
    by code_simp+
  then have inv: "heap_inv small_heap small_memory2 [(64, False)]"
    by (simp add: heap_inv_def small_heap_def ok_chunk_def)
  have t: "heap_tail small_heap = 0x1040" by code_simp
  have "unat (hdr_size (load64 small_memory2 0x1040)) = 200" "hdr_is_free (load64 small_memory2 0x1040)"
    by code_simp+
  then show ?thesis
    using kmalloc_leaves_heap [OF inv, of 100] by (simp add: t kmalloc_need_def)
qed

text \<open>
  \<^verbatim>\<open>kzmalloc\<close> does not zero the block it returns: apart from the byte at offset one it
  leaves every byte as \<^verbatim>\<open>kmalloc\<close> left it.
\<close>

theorem kzmalloc_zeroes_one_byte:
  assumes "kmalloc k m (align_value sz 3) = Some (m1, a)"
  shows "if a = 0 \<and> 0 < align_value sz 3 then kzmalloc k m sz = Some (Inl NullDeref)
    else \<exists>m'. kzmalloc k m sz = Some (Inr (m', a)) \<and> (\<forall>x. x \<noteq> a + 1 \<longrightarrow> m' x = m1 x)"
proof -
  have "fold (\<lambda>n m. m (a + 1 := 0)) ns m1 x = m1 x" if "x \<noteq> a + 1" for ns :: "nat list" and x
    using that by (induction ns arbitrary: m1) simp_all
  then show ?thesis using assms by (simp add: kzmalloc_def Let_def for_upto_conv_fold)
qed

theorem kzmalloc_zeroes_one_byte_witness:
  "\<exists>m'. kzmalloc small_heap (small_memory (0x1010 := 7)) 20 = Some (Inr (m', 0x1008)) \<and> m' 0x1010 = 7"
proof -
  let ?m = "small_memory (0x1010 := 7)"
  have c: "hdr_is_free (load64 ?m 0x1000) \<and> hdr_size (load64 ?m 0x1000) \<ge> 32" by code_simp
  have k: "kmalloc small_heap ?m (align_value 20 3) = Some (take_chunk 0x1000 32 ?m, 0x1008)"
  proof -
    have n: "align_value 20 3 \<noteq> 0" "align_value (align_value 20 3) 3 + 8 = (32 :: u64)"
      "m_head small_heap = 0x1000" "m_total_size small_heap = 64" "(0x1000 :: u64) + 8 * 64 = 0x1200"
      by code_simp+
    have "kmalloc_loop ?m 0x1200 32 0x1000 = Some (take_chunk 0x1000 32 ?m, 0x1008)"
      by (subst kmalloc_loop.simps) (simp only: c, simp)
    then show ?thesis unfolding kmalloc_def Let_def n using n(1) by (simp only: if_False n)
  qed
  have "hdr_size (load64 ?m 0x1000) = 64" by code_simp
  then have "take_chunk (of_nat 0x1000) (of_nat 32) ?m 0x1010 = ?m 0x1010"
    by (intro take_chunk_loads(5) [where s = 64]) (simp_all add: in_span)
  then have "take_chunk 0x1000 32 ?m 0x1010 = 7" by simp
  moreover obtain m' where m': "kzmalloc small_heap ?m 20 = Some (Inr (m', 0x1008))"
      "\<forall>x. x \<noteq> 0x1008 + 1 \<longrightarrow> m' x = take_chunk 0x1000 32 ?m x"
    using kzmalloc_zeroes_one_byte [OF k] by auto
  moreover have "(0x1010 :: u64) \<noteq> 0x1008 + 1" by simp
  ultimately show ?thesis by metis
qed

end
