(* ===== verification/Boot.thy ===== *)
theory Boot
  imports PageTables KernelHeap
begin

text \<open>
  Bringing up the memory (\<^verbatim>\<open>init_memory\<close> of \<^verbatim>\<open>Init.cpp\<close>): the page allocator, the kernel's page table with the
  system's ranges, the kernel heap and the value of \<^verbatim>\<open>satp\<close>.
\<close>

definition SatpModeSv39 :: u8 where
  "SatpModeSv39 = 8"

text \<open>
  The object \<^verbatim>\<open>KernelMemoryAllocator\<close> is placed in the page of the second \<^verbatim>\<open>zalloc\<close>; its fields are the record
  \<^verbatim>\<open>bt_heap\<close>.
\<close>

record boot =
  bt_mm :: MemoryManager
  bt_page_table :: u64
  bt_heap :: KernelMemoryAllocator
  bt_satp :: u64

definition init_memory :: "Linker \<Rightarrow> pmem \<Rightarrow> boot \<times> pmem" where
  "init_memory l m =
     (let (mm, m) = mm_init (l_heap_start l) (l_heap_size l) m;
          (m, page_table) = alloc mm m 1;
          m = map_system_defaults mm l page_table m;
          (m, page) = zalloc mm m 1;
          (heap, m) = heap_ctor mm m;
          satp = build_satp SatpModeSv39 0 page_table
      in (\<lparr>bt_mm = mm, bt_page_table = page_table, bt_heap = heap, bt_satp = satp\<rparr>, m))"

section \<open>A table that maps several ranges\<close>

definition system_ranges :: "Linker \<Rightarrow> (u64 \<times> u64 \<times> EntryBits) list" where
  "system_ranges l =
     [(l_heap_start l, l_heap_start l + l_heap_size l, READ_WRITE), (l_text_start l, l_text_end l, READ_EXECUTE),
      (l_rodata_start l, l_rodata_end l, READ_EXECUTE), (l_data_start l, l_data_end l, READ_WRITE),
      (l_bss_start l, l_bss_end l, READ_WRITE), (l_stack_start l, l_stack_end l, READ_WRITE),
      (0x10000000, 0x10000001, READ_WRITE), (0x02000000, 0x0200ffff, READ_WRITE), (0x0c000000, 0x0c002001, READ_WRITE),
      (0x0c200000, 0x0c208001, READ_WRITE), (l_context_switching_start l, l_context_switching_end l, READ_EXECUTE),
      (l_text_special_start l, l_text_special_end l, READ_EXECUTE)]"

definition map_ranges :: "MemoryManager \<Rightarrow> u64 \<Rightarrow> (u64 \<times> u64 \<times> EntryBits) list \<Rightarrow> pmem \<Rightarrow> pmem" where
  "map_ranges mm root rs m = fold (\<lambda>(s, e, b). identity_map_range mm root s e (entry_bits b)) rs m"

lemma map_one_page:
  "identity_map_range mm root 0x10000000 0x10000001 bits m = map_page mm root 0x10000000 0x10000000 bits 0 m"
  by (simp add: identity_map_range_def align_value_def PAGE_SIZE_def for_upto_conv_fold)

lemma map_system_defaults_ranges: "map_system_defaults mm l root m = map_ranges mm root (system_ranges l) m"
  by (simp add: map_system_defaults_def map_ranges_def system_ranges_def map_one_page Let_def)

lemma page_range_path:
  assumes "page_range s e a" "va_path a = va_path va" "unat e + 4095 < 2 ^ 39" "unat va < 2 ^ 39"
  shows "page_range s e va"
proof -
  have small: "unat a < 2 ^ 39"
    using assms(1,3) div_times_less_eq_dividend [of "unat e + 4095" 4096] unfolding page_range_def by linarith
  have "page_of a = page_of va"
  proof (rule va_path_inj)
    show "va_path (page_of a) = va_path (page_of va)" using assms(2) by (simp add: va_path_page_of)
  qed (use small assms(4) in \<open>auto simp: unat_page_of\<close>)
  then have q: "unat a div 4096 = unat va div 4096" using unat_page_of [of a] unat_page_of [of va] by simp
  have "unat s div 4096 \<le> unat a div 4096" using assms(1) by (auto simp: page_range_def unat_page_of)
  moreover have "unat a div 4096 < (unat e + 4095) div 4096"
    using assms(1) by (simp add: page_range_def less_mult_imp_div_less)
  ultimately show ?thesis using q by (auto simp: page_range_def unat_page_of)
qed

lemma entry_bits_byte: "entry_bits b AND 0xff = entry_bits b" "entry_bits b AND NOT 0x1ff = 0"
  by (cases b; simp)+

lemma map_range_step:
  fixes b :: EntryBits
  assumes inv: "pt_inv mm m L root" and room: "demand L m root P \<le> npages mm" "finite P" "range_paths s e \<subseteq> P"
    and range: "unat (page_of s) \<le> unat e" "unat e + 4095 < 2 ^ 39"
  defines "m' \<equiv> identity_map_range mm root s e (entry_bits b) m"
  obtains L' where "pt_inv mm m' L' root" "grows mm root m L m' L'" "demand L' m' root P \<le> demand L m root P"
    "\<And>va. unat va < 2 ^ 39 \<Longrightarrow> mapped m' root va = (if page_range s e va then Some va else mapped m root va)"
    "\<And>va. unat va < 2 ^ 39 \<Longrightarrow> access m' root va =
       (if page_range s e va then Some (old_access m root va OR 0xC1 OR entry_bits b) else access m root va)"
proof -
  have paths: "table_paths a \<subseteq> P" if "page_range s e a" for a using that room(3) by (auto simp: range_paths_def)
  obtain L' where L': "pt_inv mm m' L' root" "grows mm root m L m' L'" "demand L' m' root P \<le> demand L m root P"
    and hit: "\<And>va. page_range s e va \<Longrightarrow> mapped m' root va = Some va \<and>
      access m' root va = Some (old_access m root va OR 0xC1 OR (entry_bits b AND 0xff))"
    and miss: "\<And>va. (\<And>a. page_range s e a \<Longrightarrow> va_path a \<noteq> va_path va) \<Longrightarrow>
      mapped m' root va = mapped m root va \<and> access m' root va = access m root va"
    unfolding m'_def using identity_map_tree [OF inv entry_bits_byte(2) range room(1,2) paths] by metis
  have out: "\<not> page_range s e a \<or> va_path a \<noteq> va_path va" if "unat va < 2 ^ 39" "\<not> page_range s e va" for a va
    using page_range_path [OF _ _ range(2) that(1), of s a] that(2) by blast
  show thesis by (rule that [OF L']) (use hit miss out in \<open>auto simp: entry_bits_byte\<close>)
qed

definition range_ok :: "u64 \<times> u64 \<times> EntryBits \<Rightarrow> bool" where
  "range_ok = (\<lambda>(s, e, b). unat (page_of s) \<le> unat e \<and> unat e + 4095 < 2 ^ 39)"

definition in_ranges :: "(u64 \<times> u64 \<times> EntryBits) list \<Rightarrow> u64 \<Rightarrow> bool" where
  "in_ranges rs va \<longleftrightarrow> (\<exists>(s, e, b) \<in> set rs. page_range s e va)"

text \<open>Ranges that share a page add up: \<^verbatim>\<open>map\<close> keeps the bits an entry already has.\<close>

fun granted :: "(u64 \<times> u64 \<times> EntryBits) list \<Rightarrow> u64 \<Rightarrow> u64" where
  "granted [] va = 0"
| "granted ((s, e, b) # rs) va = (if page_range s e va then entry_bits b else 0) OR granted rs va"

lemma bit_granted: "bit (granted rs va) i \<longleftrightarrow> (\<exists>(s, e, b) \<in> set rs. page_range s e va \<and> bit (entry_bits b) i)"
  by (induction rs) (auto simp: bit_or_iff split: if_splits)

lemma granted_none: "\<not> in_ranges rs va \<Longrightarrow> granted rs va = 0"
  by (induction rs) (auto simp: in_ranges_def)

definition ranges_mapped :: "(u64 \<times> u64 \<times> EntryBits) list \<Rightarrow> u64 \<Rightarrow> pmem \<Rightarrow> pmem \<Rightarrow> bool" where
  "ranges_mapped rs root m m' \<longleftrightarrow> (\<forall>va. unat va < 2 ^ 39 \<longrightarrow>
     mapped m' root va = (if in_ranges rs va then Some va else mapped m root va) \<and>
     access m' root va = (if in_ranges rs va then Some (old_access m root va OR 0xC1 OR granted rs va) else access m root va))"

lemma ranges_mapped_Cons:
  assumes "\<And>va. unat va < 2 ^ 39 \<Longrightarrow> mapped m1 root va = (if page_range s e va then Some va else mapped m root va)"
    and "\<And>va. unat va < 2 ^ 39 \<Longrightarrow> access m1 root va =
       (if page_range s e va then Some (old_access m root va OR 0xC1 OR entry_bits b) else access m root va)"
    and rest: "ranges_mapped rs root m1 m2"
  shows "ranges_mapped ((s, e, b) # rs) root m m2"
  unfolding ranges_mapped_def
proof (intro allI impI conjI)
  fix va :: u64 assume va: "unat va < 2 ^ 39"
  note one = assms(1,2) [OF va]
  have two: "mapped m2 root va = (if in_ranges rs va then Some va else mapped m1 root va)"
    "access m2 root va = (if in_ranges rs va then Some (old_access m1 root va OR 0xC1 OR granted rs va) else access m1 root va)"
    using rest va by (simp_all add: ranges_mapped_def)
  have here: "in_ranges ((s, e, b) # rs) va \<longleftrightarrow> page_range s e va \<or> in_ranges rs va" by (auto simp: in_ranges_def)
  show "mapped m2 root va = (if in_ranges ((s, e, b) # rs) va then Some va else mapped m root va)"
    using one(1) two(1) by (simp add: here)
  have add: "(x OR 0xC1 OR y) OR 0xC1 OR z = x OR 0xC1 OR y OR z" for x y z :: u64
    by (rule bit_word_eqI) (auto simp: bit_or_iff)
  show "access m2 root va =
      (if in_ranges ((s, e, b) # rs) va then Some (old_access m root va OR 0xC1 OR granted ((s, e, b) # rs) va) else access m root va)"
    using one(2) two(2) granted_none [of rs va] add by (auto simp: here old_access_def)
qed

lemma map_ranges_tree:
  assumes "pt_inv mm m L root" "demand L m root P \<le> npages mm" "finite P"
    and "\<forall>r \<in> set rs. range_ok r" "\<forall>(s, e, b) \<in> set rs. range_paths s e \<subseteq> P"
  shows "\<exists>L'. pt_inv mm (map_ranges mm root rs m) L' root \<and> grows mm root m L (map_ranges mm root rs m) L' \<and>
    demand L' (map_ranges mm root rs m) root P \<le> demand L m root P \<and> ranges_mapped rs root m (map_ranges mm root rs m)"
  using assms
proof (induction rs arbitrary: m L)
  case Nil
  then show ?case by (auto simp: map_ranges_def in_ranges_def ranges_mapped_def grows_refl)
next
  case (Cons r rs)
  obtain s e b where r: "r = (s, e, b)" by (cases r) auto
  have ok: "unat (page_of s) \<le> unat e" "unat e + 4095 < 2 ^ 39" "range_paths s e \<subseteq> P"
    using Cons.prems(4,5) by (simp_all add: r range_ok_def)
  let ?m = "identity_map_range mm root s e (entry_bits b) m"
  obtain L1 where L1: "pt_inv mm ?m L1 root" "grows mm root m L ?m L1" "demand L1 ?m root P \<le> demand L m root P"
    and one: "\<And>va. unat va < 2 ^ 39 \<Longrightarrow> mapped ?m root va = (if page_range s e va then Some va else mapped m root va)"
      "\<And>va. unat va < 2 ^ 39 \<Longrightarrow> access ?m root va =
         (if page_range s e va then Some (old_access m root va OR 0xC1 OR entry_bits b) else access m root va)"
    by (rule map_range_step [OF Cons.prems(1-3) ok(3,1,2)]) blast
  have room: "demand L1 ?m root P \<le> npages mm" using L1(3) Cons.prems(2) by simp
  have rest: "\<forall>r \<in> set rs. range_ok r" "\<forall>(s, e, b) \<in> set rs. range_paths s e \<subseteq> P" using Cons.prems(4,5) by simp_all
  have step: "map_ranges mm root (r # rs) m = map_ranges mm root rs ?m" by (simp add: map_ranges_def r)
  obtain L2 where L2: "pt_inv mm (map_ranges mm root rs ?m) L2 root" "grows mm root ?m L1 (map_ranges mm root rs ?m) L2"
      "demand L2 (map_ranges mm root rs ?m) root P \<le> demand L1 ?m root P" "ranges_mapped rs root ?m (map_ranges mm root rs ?m)"
    using Cons.IH [OF L1(1) room Cons.prems(3) rest] by blast
  have "ranges_mapped (r # rs) root m (map_ranges mm root rs ?m)" unfolding r using one L2(4) by (rule ranges_mapped_Cons)
  then show ?case unfolding step using L2(1,3) L1(3) grows_trans [OF L1(2) L2(2)] by (intro exI [of _ L2]) auto
qed

lemma ranges_paths_card:
  defines "P \<equiv> \<lambda>rs :: (u64 \<times> u64 \<times> EntryBits) list. \<Union>(s, e, b) \<in> set rs. range_paths s e"
  shows "finite (P rs)" "card (P rs) \<le> (\<Sum>(s, e, b) \<leftarrow> rs. range_tables s e)"
proof -
  show fin: "finite (P rs)" for rs using range_paths_card(1) by (auto simp: P_def)
  show "card (P rs) \<le> (\<Sum>(s, e, b) \<leftarrow> rs. range_tables s e)"
  proof (induction rs)
    case (Cons r rs)
    obtain s e b where r: "r = (s, e, b)" by (cases r) auto
    have "P (r # rs) = range_paths s e \<union> P rs" by (simp add: P_def r)
    then show ?case using Cons card_Un_le [of "range_paths s e" "P rs"] range_paths_card(2) [of s e] by (simp add: r)
  qed (simp add: P_def)
qed

section \<open>A run of free pages\<close>

text \<open>Among more disjoint runs than there are pages in use one is free.\<close>

lemma free_run_exists:
  assumes rel: "page_rel mm m L" and n: "0 < n" "n * Suc (pages_used L) \<le> npages mm"
  shows "\<exists>i \<le> n * pages_used L. free_run mm m i n"
proof (rule ccontr)
  assume none: "\<not> ?thesis"
  let ?D = "{k. k < npages mm \<and> desc mm m k \<noteq> 0}"
  have card: "card ?D = pages_used L" using page_map_card [OF rel] by (simp add: pages_used_def)
  have "{..pages_used L} \<subseteq> (\<lambda>k. k div n) ` ?D"
  proof
    fix j assume "j \<in> {..pages_used L}"
    then have j: "n * j \<le> n * pages_used L" by simp
    then have "\<not> free_run mm m (n * j) n" using none by blast
    then obtain k where k: "n * j \<le> k" "k < n * j + n" "desc mm m k \<noteq> 0" unfolding free_run_def by blast
    then have "k div n = j" by (intro div_nat_eqI) (simp_all add: mult.commute)
    moreover have "k < npages mm" using k(2) j n(2) unfolding mult_Suc_right by linarith
    ultimately show "j \<in> (\<lambda>k. k div n) ` ?D" using k(3) by auto
  qed
  then have "card {..pages_used L} \<le> card ((\<lambda>k. k div n) ` ?D)" by (intro card_mono) auto
  also have "\<dots> \<le> card ?D" by (rule card_image_le) simp
  finally show False using card by simp
qed

lemma zalloc_low:
  assumes rel: "page_rel mm m L" and n: "0 < unat p" "unat p * Suc (pages_used L) \<le> npages mm"
  obtains m1 a i where "zalloc mm m p = (m1, a)" "a \<noteq> 0" "a = m_alloc_start mm + 4096 * of_nat i" "i \<le> unat p * pages_used L"
    "page_request_ok mm m p"
proof -
  have N: "npages mm < 2 ^ 52" using npages_small [OF page_relD(1) [OF rel]] .
  obtain j where j: "j \<le> unat p * pages_used L" "free_run mm m j (unat p)" using free_run_exists [OF rel n] by blast
  have jN: "j < npages mm" "j + unat p \<le> npages mm" using j(1) n by simp_all
  have "unat p \<le> npages mm" using jN(2) by simp
  then have req: "page_request_ok mm m p"
    using n(1) N j(2) jN(2) by (auto simp: page_request_ok_def request_fits_def run_inside_def)
  obtain m0 a where al: "alloc mm m p = (m0, a)" by fastforce
  have nz: "a \<noteq> 0"
  proof
    assume "a = 0"
    then show False using page_alloc_null [OF rel req] al j(2) jN(1) by blast
  qed
  obtain i where i: "first_fit mm m 0 (unat p) i" "a = m_alloc_start mm + 4096 * of_nat i"
    using page_alloc_hit [OF rel req al nz] by metis
  have "i \<le> j" using i(1) j(2) jN(1) by (auto simp: first_fit_def not_less [symmetric])
  moreover obtain m1 where "zalloc mm m p = (m1, a)" using al nz by (simp add: zalloc_def Let_def)
  ultimately show thesis using that [OF _ nz i(2) le_trans [OF _ j(1)] req] by blast
qed

section \<open>The state after \<^verbatim>\<open>MemoryManager::init\<close>\<close>

lemma mm_init_fields:
  fixes hs sz :: u64 and m :: pmem
  assumes "unat hs + unat sz div 4096 + 4095 < 2 ^ 64"
  defines "mm \<equiv> fst (mm_init hs sz m)" and "N \<equiv> unat sz div 4096"
  shows "npages mm = N" "m_first_page mm = hs" "unat (m_alloc_start mm) = (unat hs + N + 4095) div 4096 * 4096"
    "(\<And>k. k < N \<Longrightarrow> x \<noteq> hs + of_nat k) \<Longrightarrow> 0 < N \<Longrightarrow> snd (mm_init hs sz m) x = m x"
proof -
  have n: "unat (sz div PAGE_SIZE) = N" by (simp add: PAGE_SIZE_def unat_div N_def)
  then show "npages mm = N" "m_first_page mm = hs" by (simp_all add: mm_def mm_init_def Let_def)
  have "unat (hs + sz div PAGE_SIZE) = unat hs + N" using assms n by (subst unat_add_no_wrap) (simp_all add: N_def)
  then show "unat (m_alloc_start mm) = (unat hs + N + 4095) div 4096 * 4096"
    using assms align_value_eq [of "hs + sz div PAGE_SIZE"] by (simp add: mm_def mm_init_def Let_def N_def)
  have m': "snd (mm_init hs sz m) = (\<lambda>x. if x \<in> (\<lambda>k. hs + of_nat k) ` {1..<N} then 0 else if x = hs then 2 else m x)"
    using n by (simp add: mm_init_def Let_def for_upto_conv_fold page_defs fold_fun_upd fun_eq_iff)
  show "snd (mm_init hs sz m) x = m x" if "\<And>k. k < N \<Longrightarrow> x \<noteq> hs + of_nat k" "0 < N"
  proof -
    have "x \<notin> (\<lambda>k. hs + of_nat k) ` {1..<N}" using that(1) by fastforce
    moreover have "x \<noteq> hs" using that(1) [of 0] that(2) by simp
    ultimately show ?thesis by (simp only: m' if_False)
  qed
qed

lemma root_alloc:
  assumes rel: "page_rel mm m {(0, 1)}" and n: "1 < npages mm" and al: "alloc mm m 1 = (m1, a)"
  shows "a = m_alloc_start mm + 4096" "page_rel mm m1 {(0, 1), (1, 1)}" "x \<in> span a 4096 \<Longrightarrow> m1 x = m x"
proof -
  have req: "page_request_ok mm m 1" by (rule single_page_ok [OF page_relD(1) [OF rel]])
  have nz: "a \<noteq> 0" using alloc_one_succeeds [OF rel] n al by simp
  obtain i where i: "first_fit mm m 0 1 i" "i + 1 \<le> npages mm" "a = m_alloc_start mm + 4096 * of_nat i"
    "m1 = mark_run (m_first_page mm) (of_nat i) 1 m" "page_rel mm m1 (insert (i, 1) {(0, 1)})" "(i, 1) \<notin> {(0 :: nat, 1 :: nat)}"
    using page_alloc_hit [OF rel req al nz] by (metis unsigned_1)
  have "desc mm m 1 = 0" using page_relD(4) [OF rel, of 1] n by fastforce
  then have "free_run mm m 1 1" by (auto simp: free_run_def less_Suc_eq)
  then have "i \<le> 1" using i(1) by (auto simp: first_fit_def not_less [symmetric])
  then have 1: "i = 1" using i(6) by (cases i) auto
  show a: "a = m_alloc_start mm + 4096" using i(3) 1 by simp
  show new: "page_rel mm m1 {(0, 1), (1, 1)}" using i(5) by (simp add: 1 insert_commute)
  assume x: "x \<in> span a 4096"
  show "m1 x = m x"
    unfolding i(4)
  proof (rule mark_run_frame)
    show "x \<noteq> m_first_page mm + of_nat k" if "k < npages mm" for k
      using page_not_descriptor [OF new, of 1 1 x k] x that by (simp add: a)
  qed (use i(2) page_relD(1) [OF rel] in simp_all)
qed

lemma heap_ctor_tree:
  assumes inv: "pt_inv mm m L root" and room: "64 * Suc (pages_used L) \<le> npages mm"
  obtains i where "m_head (fst (heap_ctor mm m)) = m_alloc_start mm + 4096 * of_nat i" "i \<le> 64 * pages_used L"
    "heap_inv (fst (heap_ctor mm m)) (snd (heap_ctor mm m)) [(262144, False)]"
    "pt_inv mm (snd (heap_ctor mm m)) (insert (i, 64) L) root"
    "\<And>p. length p = 3 \<Longrightarrow> set p \<subseteq> {..<512} \<Longrightarrow> leaf (snd (heap_ctor mm m)) root p = leaf m root p"
proof -
  note rel = pt_invD(1) [OF inv]
  have u: "unat ALLOCATION_SIZE = 64" by (simp add: ALLOCATION_SIZE_def)
  obtain m1 a j where z: "zalloc mm m ALLOCATION_SIZE = (m1, a)" "a \<noteq> 0" "a = m_alloc_start mm + 4096 * of_nat j" "j \<le> 64 * pages_used L"
    "page_request_ok mm m ALLOCATION_SIZE"
    by (rule zalloc_low [OF rel, of ALLOCATION_SIZE]) (use room in \<open>simp_all only: u\<close>, simp)
  obtain i where i: "a = m_alloc_start mm + 4096 * of_nat i" "(i, 64) \<notin> L" "pt_inv mm m1 (insert (i, 64) L) root"
    and leaves: "\<And>q. length q = 3 \<Longrightarrow> set q \<subseteq> {..<512} \<Longrightarrow> leaf m1 root q = leaf m root q"
    by (rule zalloc_pages [OF inv z(1,2,5), unfolded u]) blast
  let ?k = "fst (heap_ctor mm m)" and ?m = "snd (heap_ctor mm m)" and ?L = "insert (i, 64) L"
  have k: "m_head ?k = a" and m: "?m = update_hdr (hdr_set_size (ALLOCATION_SIZE * PAGE_SIZE)) a (update_hdr hdr_set_free a m1)"
    using z(1) by (simp_all add: heap_ctor_def Let_def)
  have out: "?m x = m1 x" if "x \<notin> span a (4096 * 64)" for x
  proof -
    have "x \<notin> span a 8" using that span_mono [of 8 "4096 * 64" a] by auto
    then show ?thesis by (simp add: m update_hdr_other)
  qed
  have rel1: "page_rel mm m1 ?L" using pt_invD(1) [OF i(3)] .
  have "desc mm ?m d = desc mm m1 d" if "d < npages mm" for d
    unfolding desc_def by (rule out) (use page_not_descriptor [OF rel1, of i 64 _ d] that i(1) in blast)
  then have rel2: "page_rel mm ?m ?L" by (rule page_rel_cong [OF rel1])
  have same: "?m x = m1 x" if t: "is_table m1 root q t" "x \<in> span t 4096" for q t x
  proof -
    obtain h where h: "(h, 1) \<in> ?L" "t = m_alloc_start mm + 4096 * of_nat h"
      using pt_invD(4) [OF i(3) t(1)] by (auto simp: page_extent_def)
    have "span t (4096 * 1) \<inter> span a (4096 * 64) = {}"
      unfolding h(2) i(1) by (rule page_extent_apart [OF rel1 h(1)]) auto
    then show ?thesis using out t(2) by auto
  qed
  have inv': "pt_inv mm ?m ?L root" by (rule pt_inv_frame(1) [OF i(3) rel2 subset_refl]) (rule same)
  have kept: "leaf ?m root q = leaf m root q" if "length q = 3" "set q \<subseteq> {..<512}" for q
  proof -
    have "leaf ?m root q = leaf m1 root q" by (rule pt_inv_frame(3) [OF i(3) rel2 subset_refl _ that]) (rule same)
    then show ?thesis using leaves [OF that] by simp
  qed
  have heap: "heap_inv ?k ?m [(262144, False)]"
    by (rule heap_ctor_inv [OF rel]) (use pt_invD(2,3) [OF inv] z(1,2,5) in simp_all)
  have ij: "i = j"
  proof -
    have top: "unat (m_alloc_start mm) + 4096 * npages mm < 18446744073709551616"
      using page_relD(1) [OF rel] by (simp add: wf_mm_def)
    have at: "unat (m_alloc_start mm + 4096 * of_nat h) = unat (m_alloc_start mm) + 4096 * h" if "h < npages mm" for h
    proof -
      have "unat (m_alloc_start mm) + 4096 * h < 18446744073709551616" using that top by linarith
      then show ?thesis using unat_base_offset [of "m_alloc_start mm" 4096 h] by simp
    qed
    have jN: "j < npages mm" using z(4) room unfolding mult_Suc_right by linarith
    have iN: "i < npages mm" by (rule block_in_range(2) [OF rel1, of i 64]) simp
    have "unat (m_alloc_start mm + 4096 * of_nat i) = unat (m_alloc_start mm + 4096 * of_nat j)"
      by (rule arg_cong [OF trans [OF i(1) [symmetric] z(3)]])
    then show ?thesis unfolding at [OF jN] at [OF iN] by linarith
  qed
  have head: "m_head ?k = m_alloc_start mm + 4096 * of_nat i" using k i(1) by (rule trans)
  have low: "i \<le> 64 * pages_used L" using z(4) ij by simp
  show thesis by (rule that [OF head low heap inv' kept])
qed

section \<open>Properties\<close>

definition tables_needed :: "Linker \<Rightarrow> nat" where
  "tables_needed l = (\<Sum>(s, e, b) \<leftarrow> system_ranges l. range_tables s e)"

text \<open>
  What the linker script and the loader have to provide.  The page behind the manager's becomes the root table, which
  \<^verbatim>\<open>init_memory\<close> does not clear.  There must be 64 pages for each table that the ranges may need and 256 more:
  the kernel heap asks for 64 pages in a row, and that many pages have a free run of 64 wherever the tables are.
\<close>

definition boot_layout :: "Linker \<Rightarrow> pmem \<Rightarrow> bool" where
  "boot_layout l m \<longleftrightarrow>
     (let hs = unat (l_heap_start l); sz = unat (l_heap_size l); N = sz div 4096; start = (hs + N + 4095) div 4096 * 4096 in
      hs + sz < 2 ^ 38 \<and>
      (\<forall>x \<in> span (of_nat start + 4096) 4096. m x = 0) \<and> (\<forall>r \<in> set (system_ranges l). range_ok r) \<and>
      start + 4096 * (64 * (tables_needed l + 4)) \<le> hs + sz)"

lemma boot_root:
  assumes "boot_layout l m"
  defines "mm \<equiv> fst (mm_init (l_heap_start l) (l_heap_size l) m)" and "m1 \<equiv> snd (mm_init (l_heap_start l) (l_heap_size l) m)"
  shows "pt_inv mm (fst (alloc mm m1 1)) {(0, 1), (1, 1)} (snd (alloc mm m1 1))"
    "unat (m_alloc_start mm) + 4096 * (64 * (tables_needed l + 4)) \<le> unat (l_heap_start l) + unat (l_heap_size l)"
    "unat (l_heap_start l) \<le> unat (m_alloc_start mm)" "64 * (tables_needed l + 4) \<le> npages mm"
    "access (fst (alloc mm m1 1)) (snd (alloc mm m1 1)) va = None"
proof -
  let ?hs = "unat (l_heap_start l)" and ?sz = "unat (l_heap_size l)"
  define N where "N = ?sz div 4096"
  define start where "start = (?hs + N + 4095) div 4096 * 4096"
  have lay: "?hs + ?sz < 274877906944"
    "\<forall>x \<in> span (of_nat start + 4096) 4096. m x = 0" "start + 4096 * (64 * (tables_needed l + 4)) \<le> ?hs + ?sz"
    using assms(1) unfolding boot_layout_def Let_def N_def [symmetric] start_def [symmetric] by simp_all
  have N: "4096 * N \<le> ?sz" by (simp add: N_def)
  have lo: "?hs \<le> start" "start \<le> ?hs + N + 4095" unfolding start_def by linarith+
  have many: "64 * (tables_needed l + 4) \<le> N" unfolding N_def using lay(3) lo(1) by linarith
  then have N1: "1 < N" by simp
  have "?hs + N + 4095 < 2 ^ 64" using lay(1) N by simp
  note f = mm_init_fields [OF this [unfolded N_def], where m = m, folded mm_def m1_def, folded N_def]
  have al: "unat (m_alloc_start mm) = start" using f(3) by (simp add: start_def)
  show "unat (m_alloc_start mm) + 4096 * (64 * (tables_needed l + 4)) \<le> ?hs + ?sz" using lay(3) al by simp
  show "?hs \<le> unat (m_alloc_start mm)" using lo(1) al by simp
  show "64 * (tables_needed l + 4) \<le> npages mm" using many f(1) by simp
  have rel: "page_rel mm m1 {(0, 1)}"
    unfolding mm_def m1_def
  proof (rule mm_init_rel)
    show "?hs + ?sz div 4096 + 4096 * (?sz div 4096) + 4096 < 2 ^ 64" using lay(1) N unfolding N_def [symmetric] by simp
  qed (use N1 in \<open>simp_all add: N_def\<close>)
  obtain m2 root where a: "alloc mm m1 1 = (m2, root)" by fastforce
  have n1: "1 < npages mm" using N1 f(1) by simp
  note r = root_alloc [OF rel n1 a]
  have start: "m_alloc_start mm = of_nat start" unfolding al [symmetric] by simp
  have "m2 x = 0" if x: "x \<in> span root 4096" for x
  proof -
    have "x \<noteq> l_heap_start l + of_nat k" if "k < N" for k
      using page_not_descriptor [OF r(2), of 1 1 x k] x that f(1,2) by (simp add: r(1))
    then have "m1 x = m x" using f(4) N1 by simp
    moreover have "m x = 0" using lay(2) x by (simp add: r(1) start)
    ultimately show ?thesis using r(3) [OF x] by simp
  qed
  note zero = this
  have ext: "(root, 4096) \<in> page_extent mm ` {(0, 1), (1, 1)}"
    and al4: "unat (m_alloc_start mm) mod 4096 = 0" "unat (m_alloc_start mm) + 4096 * npages mm \<le> 2 ^ 56"
    using al lo N lay(1) f(1) by (auto simp: page_extent_def r(1) start_def)
  have "pt_inv mm m2 {(0, 1), (1, 1)} root" by (rule pt_inv_empty(1) [OF r(2) ext al4]) (rule zero)
  moreover have "leaf m2 root (va_path va) = None" for va
    by (rule pt_inv_empty(3) [OF r(2) ext al4]) (rule zero, simp_all add: va_path_def)
  ultimately show "pt_inv mm (fst (alloc mm m1 1)) {(0, 1), (1, 1)} (snd (alloc mm m1 1))"
    "access (fst (alloc mm m1 1)) (snd (alloc mm m1 1)) va = None" for va
    by (simp_all add: a access_def va_path_def)
qed

lemma system_ranges_small:
  assumes "\<forall>r \<in> set rs. range_ok r" "in_ranges rs va" shows "unat va < 2 ^ 39"
proof -
  obtain s e b where r: "(s, e, b) \<in> set rs" "page_range s e va" using assms(2) by (auto simp: in_ranges_def)
  then have "unat e + 4095 < 2 ^ 39" using assms(1) by (auto simp: range_ok_def)
  then show ?thesis
    using r(2) div_times_less_eq_dividend [of "unat e + 4095" 4096] unfolding page_range_def by linarith
qed

lemma heap_range:
  assumes "boot_layout l m" "unat (l_heap_start l) \<le> unat va" "unat va < unat (l_heap_start l) + unat (l_heap_size l)"
  shows "in_ranges (system_ranges l) va"
proof -
  have "unat (l_heap_start l) + unat (l_heap_size l) < 2 ^ 38" using assms(1) by (simp add: boot_layout_def Let_def)
  then have u: "unat (l_heap_start l + l_heap_size l) = unat (l_heap_start l) + unat (l_heap_size l)"
    by (intro unat_add_no_wrap) simp
  have "unat va < (unat (l_heap_start l + l_heap_size l) + 4095) div 4096 * 4096" using assms(3) unfolding u by linarith
  moreover have "unat (page_of (l_heap_start l)) \<le> unat va" using assms(2) unfolding unat_page_of by linarith
  ultimately show ?thesis by (simp add: in_ranges_def system_ranges_def page_range_def)
qed

lemma system_tables:
  fixes mm l root defines "T \<equiv> tables_needed l"
  assumes lay: "boot_layout l m0" and inv: "pt_inv mm m {(0, 1), (1, 1)} root" and room: "64 * (T + 4) \<le> npages mm"
  obtains L where "pt_inv mm (map_system_defaults mm l root m) L root" "pages_used L \<le> 2 + T"
    "ranges_mapped (system_ranges l) root m (map_system_defaults mm l root m)"
proof -
  let ?L = "{(0, 1), (1, 1)} :: (nat \<times> nat) set" and ?m = "map_system_defaults mm l root m"
  have ok: "\<forall>r \<in> set (system_ranges l). range_ok r" using lay by (simp add: boot_layout_def Let_def)
  define P where "P = (\<Union>(s, e, b) \<in> set (system_ranges l). range_paths s e)"
  have P: "finite P" "card P \<le> T" using ranges_paths_card [of "system_ranges l"] by (simp_all add: P_def T_def tables_needed_def)
  have d: "demand ?L m root P \<le> 2 + T" using demand_le [OF P, of ?L m root] by (simp add: pages_used_def)
  then have "demand ?L m root P \<le> npages mm" using room by simp
  moreover have "\<forall>(s, e, b) \<in> set (system_ranges l). range_paths s e \<subseteq> P" by (auto simp: P_def)
  ultimately obtain L where L: "pt_inv mm ?m L root" "demand L ?m root P \<le> demand ?L m root P"
    and hit: "ranges_mapped (system_ranges l) root m ?m"
    using map_ranges_tree [OF inv _ P(1) ok] unfolding map_system_defaults_ranges by blast
  have "pages_used L \<le> 2 + T" using pages_used_le [of L ?m root P] L(2) d by linarith
  then show thesis using that L(1) hit by blast
qed

lemma heap_mapped:
  assumes lay: "boot_layout l m"
    and top: "unat (m_alloc_start mm) + 4096 * (64 * (tables_needed l + 4)) \<le> unat (l_heap_start l) + unat (l_heap_size l)"
      "unat (l_heap_start l) \<le> unat (m_alloc_start mm)"
    and h: "page_rel mm m' L" "(h, 64) \<in> L" "h + 64 \<le> 64 * (tables_needed l + 4)" "head = m_alloc_start mm + 4096 * of_nat h"
    and va: "va \<in> span head 262144"
  shows "in_ranges (system_ranges l) va"
proof (rule heap_range [OF lay])
  have lim: "unat (l_heap_start l) + unat (l_heap_size l) < 274877906944" using lay by (simp add: boot_layout_def Let_def)
  have u: "unat head = unat (m_alloc_start mm) + 4096 * h" unfolding h(4) by (rule block_in_range(1) [OF h(1,2)])
  have "unat head + 262144 < 2 ^ 64" using u h(3) top(1) lim by simp
  then have "unat head \<le> unat va" "unat va < unat head + 262144" using va by (simp_all add: span_eq_range)
  then show "unat (l_heap_start l) \<le> unat va" "unat va < unat (l_heap_start l) + unat (l_heap_size l)"
    using u h(3) top by linarith+
qed

text \<open>
  What the running kernel needs of its address space: its code executable, its constants readable, its data,
  stack and heap, the UART, the interrupt controllers and the timer readable and writable, all of it as supervisor, that is
  not for the user.
\<close>

definition kernel_needs :: "Linker \<Rightarrow> (u64 \<times> u64 \<times> EntryBits) list" where
  "kernel_needs l =
     [(l_text_start l, l_text_end l, EXECUTE), (l_context_switching_start l, l_context_switching_end l, EXECUTE),
      (l_text_special_start l, l_text_special_end l, EXECUTE), (l_rodata_start l, l_rodata_end l, READ),
      (l_data_start l, l_data_end l, READ_WRITE), (l_bss_start l, l_bss_end l, READ_WRITE), (l_stack_start l, l_stack_end l, READ_WRITE),
      (l_heap_start l, l_heap_start l + l_heap_size l, READ_WRITE), (0x10000000, 0x10000001, READ_WRITE),
      (0x02000000, 0x0200ffff, READ_WRITE), (0x0c000000, 0x0c002001, READ_WRITE), (0x0c200000, 0x0c208001, READ_WRITE)]"

definition supervisor_may :: "pmem \<Rightarrow> u64 \<Rightarrow> u64 \<Rightarrow> u64 \<Rightarrow> bool" where
  "supervisor_may m root va bits \<longleftrightarrow>
     (case access m root va of None \<Rightarrow> False | Some a \<Rightarrow> a AND bits = bits \<and> a AND entry_bits USER = 0)"

lemma system_grants_needs:
  assumes "(s, e, n) \<in> set (kernel_needs l)" "page_range s e va"
  shows "in_ranges (system_ranges l) va" "(0xC1 OR granted (system_ranges l) va) AND entry_bits n = entry_bits n"
    "(0xC1 OR granted (system_ranges l) va) AND entry_bits USER = 0"
proof -
  have "(s, e, READ_EXECUTE) \<in> set (system_ranges l) \<and> (n = EXECUTE \<or> n = READ) \<or> (s, e, READ_WRITE) \<in> set (system_ranges l) \<and> n = READ_WRITE"
    using assms(1) by (simp only: kernel_needs_def list.set insert_iff empty_iff prod.inject) (elim disjE conjE FalseE; simp add: system_ranges_def)
  then obtain b where b: "(s, e, b) \<in> set (system_ranges l)" "entry_bits b AND entry_bits n = entry_bits n" by (elim disjE conjE) auto
  have imp: "bit (entry_bits n) i \<Longrightarrow> bit (entry_bits b) i" for i using b(2) by (metis bit_and_iff)
  from b(1) show "in_ranges (system_ranges l) va" using assms(2) by (auto simp: in_ranges_def)
  have "bit (entry_bits n) i \<Longrightarrow> bit (granted (system_ranges l) va) i" for i
    using b(1) imp [of i] assms(2) by (auto simp: bit_granted)
  then show "(0xC1 OR granted (system_ranges l) va) AND entry_bits n = entry_bits n"
    by (intro bit_word_eqI) (auto simp: bit_and_iff bit_or_iff)
  have u: "(entry_bits b :: u64) AND 16 = 0" if "(s', e', b) \<in> set (system_ranges l)" for s' e' b
    using that by (simp only: system_ranges_def list.set insert_iff empty_iff prod.inject) (elim disjE conjE FalseE; simp)
  have "\<not> bit (granted (system_ranges l) va) i" if "bit (16 :: u64) i" for i
  proof
    assume "bit (granted (system_ranges l) va) i"
    then obtain s' e' b' where b': "(s', e', b') \<in> set (system_ranges l)" "bit (entry_bits b') i" by (auto simp: bit_granted)
    then have "bit (entry_bits b' AND 16) i" using that by (simp add: bit_and_iff)
    then show False using u [OF b'(1)] by simp
  qed
  then have "granted (system_ranges l) va AND 16 = 0" by (intro bit_word_eqI) (auto simp: bit_and_iff)
  then show "(0xC1 OR granted (system_ranges l) va) AND entry_bits USER = 0"
    by (simp add: bit.conj_disj_distrib2)
qed

text \<open>
  C5. The memory after \<^verbatim>\<open>init_memory\<close>, for a layout as \<^theory_text>\<open>boot_layout\<close> asks for: heap and ranges in the lower 256 GiB, a
  cleared page where the root table will be, and 64 free pages for each started GiB and each started 2 MiB of the ranges,
  plus 256.  Then \<^verbatim>\<open>satp\<close> names the
  new root table in mode Sv39, and every address of the heap, of the kernel's sections and of the devices' ranges translates to
  itself, with exactly the permissions that the ranges of its page were mapped with (and the valid, accessed and dirty
  bits).  In particular the supervisor may execute the kernel's code and read and write its data, stack, heap and devices, so the
  kernel can go on where it is when \<^verbatim>\<open>satp\<close> is written.  The kernel heap is one free chunk of 64 pages that are the heap's own and
  are mapped, and the tables are well-formed.
\<close>

theorem memory_ready:
  assumes lay: "boot_layout l m"
  shows "\<exists>b m' L. init_memory l m = (b, m') \<and> pt_inv (bt_mm b) m' L (bt_page_table b) \<and>
    get_current_root_page_table (bt_satp b) = bt_page_table b \<and> satp_mode (bt_satp b) = 8 \<and>
    heap_inv (bt_heap b) m' [(262144, False)] \<and> (m_head (bt_heap b), 262144) \<in> page_extent (bt_mm b) ` L \<and>
    (\<forall>va. in_ranges (system_ranges l) va \<or> va \<in> span (m_head (bt_heap b)) 262144 \<longrightarrow>
      mapped m' (bt_page_table b) va = Some va \<and> access m' (bt_page_table b) va = Some (0xC1 OR granted (system_ranges l) va)) \<and>
    (\<forall>(s, e, n) \<in> set (kernel_needs l). \<forall>va. page_range s e va \<longrightarrow> supervisor_may m' (bt_page_table b) va (entry_bits n))"
proof -
  obtain mm m1 where 1: "mm_init (l_heap_start l) (l_heap_size l) m = (mm, m1)" by fastforce
  obtain m2 root where 2: "alloc mm m1 1 = (m2, root)" by fastforce
  note root = boot_root [OF lay, unfolded 1 fst_conv snd_conv 2]
  let ?T = "tables_needed l" and ?m3 = "map_system_defaults mm l root m2"
  have ok: "\<forall>r \<in> set (system_ranges l). range_ok r" using lay by (simp add: boot_layout_def Let_def)
  obtain L3 where 3: "pt_inv mm ?m3 L3 root" "pages_used L3 \<le> 2 + ?T"
    and hit: "ranges_mapped (system_ranges l) root m2 ?m3"
    by (rule system_tables [OF lay root(1,4)]) blast
  have one: "0 < unat (1 :: u64)" "unat (1 :: u64) * Suc (pages_used L3) \<le> npages mm" using 3(2) root(4) by simp_all
  obtain m4 page j where 4: "zalloc mm ?m3 1 = (m4, page)" "page \<noteq> 0" "page_request_ok mm ?m3 1"
    by (rule zalloc_low [OF pt_invD(1) [OF 3(1)] one])
  obtain i where i: "(i, 1) \<notin> L3" "pt_inv mm m4 (insert (i, 1) L3) root"
    and leaf4: "\<And>q. length q = 3 \<Longrightarrow> set q \<subseteq> {..<512} \<Longrightarrow> leaf m4 root q = leaf ?m3 root q"
    by (rule zalloc_pages [OF 3(1) 4, unfolded unsigned_1]) blast
  let ?L4 = "insert (i, 1) L3"
  have U4: "pages_used ?L4 \<le> 3 + ?T" using pages_used_insert [OF page_rel_finite [OF pt_invD(1) [OF 3(1)]] i(1)] 3(2) by simp
  then have "64 * Suc (pages_used ?L4) \<le> npages mm" using root(4) by simp
  from heap_ctor_tree [OF i(2) this] obtain h where h: "m_head (fst (heap_ctor mm m4)) = m_alloc_start mm + 4096 * of_nat h"
    "h \<le> 64 * pages_used ?L4" "heap_inv (fst (heap_ctor mm m4)) (snd (heap_ctor mm m4)) [(262144, False)]"
    "pt_inv mm (snd (heap_ctor mm m4)) (insert (h, 64) ?L4) root"
    and leaf5: "\<And>q. length q = 3 \<Longrightarrow> set q \<subseteq> {..<512} \<Longrightarrow> leaf (snd (heap_ctor mm m4)) root q = leaf m4 root q"
    by blast
  let ?k = "fst (heap_ctor mm m4)" and ?m5 = "snd (heap_ctor mm m4)"
  have path: "length (va_path va) = 3" "set (va_path va) \<subseteq> {..<512}" "va_path va \<noteq> []" for va by (simp_all add: va_path_def)
  have same: "leaf ?m5 root (va_path va) = leaf ?m3 root (va_path va)" for va using leaf5 [OF path(1,2)] leaf4 [OF path(1,2)] by simp
  have ranges: "mapped ?m5 root va = Some va \<and> access ?m5 root va = Some (0xC1 OR granted (system_ranges l) va)"
    if "in_ranges (system_ranges l) va" for va
  proof -
    have "unat va < 2 ^ 39" by (rule system_ranges_small [OF ok that])
    then have "mapped ?m3 root va = Some va" "access ?m3 root va = Some (0xC1 OR granted (system_ranges l) va)"
      using hit that root(5) [of va] by (simp_all add: ranges_mapped_def old_access_def)
    then show ?thesis using same [of va] by (simp add: mapped_walk [OF h(4)] mapped_walk [OF 3(1)] walk_leaf [OF path(3)] access_def)
  qed
  have "h + 64 \<le> 64 * (?T + 4)" using h(2) U4 by simp
  note heap = heap_mapped [OF lay root(2,3) pt_invD(1) [OF h(4)] _ this h(1)]
  have needs: "supervisor_may ?m5 root va (entry_bits n)" if "(s, e, n) \<in> set (kernel_needs l)" "page_range s e va" for s e n va
    using ranges [OF system_grants_needs(1) [OF that]] system_grants_needs(2,3) [OF that] by (simp add: supervisor_may_def)
  have "page_address root" by (rule table_page_address [OF root(1) root_is_table])
  note satp = satp_roundtrip [OF this, of SatpModeSv39 0]
  have "init_memory l m = (\<lparr>bt_mm = mm, bt_page_table = root, bt_heap = ?k, bt_satp = build_satp SatpModeSv39 0 root\<rparr>, ?m5)"
    by (simp add: init_memory_def 1 2 4(1) Let_def split_beta)
  moreover have "(m_head ?k, 262144) \<in> page_extent mm ` insert (h, 64) ?L4" by (simp add: page_extent_def h(1))
  moreover have "mapped ?m5 root va = Some va \<and> access ?m5 root va = Some (0xC1 OR granted (system_ranges l) va)"
    if "in_ranges (system_ranges l) va \<or> va \<in> span (m_head ?k) 262144" for va
    using that ranges heap by blast
  ultimately show ?thesis
    using satp h(3,4) needs by (intro exI conjI) (auto simp: SatpModeSv39_def)
qed

text \<open>A kernel at \<^verbatim>\<open>0x80000000\<close> with 32 MiB of heap and cleared memory.\<close>

definition small_linker :: Linker where
  "small_linker = \<lparr>l_heap_start = 0x80100000, l_heap_size = 0x1fff000, l_text_start = 0x80000000, l_text_end = 0x80008000,
     l_rodata_start = 0x8000a000, l_rodata_end = 0x8000c100, l_data_start = 0x8000d000, l_data_end = 0x8000e000,
     l_bss_start = 0x8000e000, l_bss_end = 0x8000f800, l_stack_start = 0x80010000, l_stack_end = 0x80020000,
     l_context_switching_start = 0x80008000, l_context_switching_end = 0x80009000, l_text_special_start = 0x80009000,
     l_text_special_end = 0x8000a000\<rparr>"

definition boot_memory :: pmem where
  "boot_memory = (\<lambda>x. 0)"

lemma small_layout: "boot_layout small_linker boot_memory"
proof -
  have "\<forall>r \<in> set (system_ranges small_linker). range_ok r"
    by (simp add: system_ranges_def small_linker_def range_ok_def unat_page_of)
  moreover have "tables_needed small_linker = 40"
    by (simp add: tables_needed_def system_ranges_def small_linker_def range_tables_def unat_page_of)
  moreover have "\<forall>x \<in> span (0x80103000 :: u64) 4096. boot_memory x = 0" by (auto simp: boot_memory_def in_span)
  ultimately show ?thesis by (simp add: boot_layout_def small_linker_def boot_memory_def Let_def)
qed

theorem memory_ready_witness:
  "\<exists>b m'. init_memory small_linker boot_memory = (b, m') \<and> mapped m' (bt_page_table b) 0x80000123 = Some 0x80000123 \<and>
     access m' (bt_page_table b) 0x80000123 = Some 0xCB \<and> supervisor_may m' (bt_page_table b) 0x80000123 (entry_bits EXECUTE) \<and>
     mapped m' (bt_page_table b) 0x10000005 = Some 0x10000005 \<and> heap_inv (bt_heap b) m' [(262144, False)]"
proof -
  have r: "in_ranges (system_ranges small_linker) 0x80000123" "in_ranges (system_ranges small_linker) 0x10000005"
    by (simp_all add: in_ranges_def system_ranges_def small_linker_def page_range_def unat_page_of)
  have g: "0xC1 OR granted (system_ranges small_linker) 0x80000123 = 0xCB"
    by (simp add: system_ranges_def small_linker_def page_range_def unat_page_of)
  have n: "(l_text_start small_linker, l_text_end small_linker, EXECUTE) \<in> set (kernel_needs small_linker)"
    "page_range (l_text_start small_linker) (l_text_end small_linker) 0x80000123"
    by (simp_all add: kernel_needs_def small_linker_def page_range_def unat_page_of)
  from memory_ready [OF small_layout] obtain b m' where
    "init_memory small_linker boot_memory = (b, m')" "heap_inv (bt_heap b) m' [(262144, False)]"
    "\<forall>va. in_ranges (system_ranges small_linker) va \<or> va \<in> span (m_head (bt_heap b)) 262144 \<longrightarrow>
      mapped m' (bt_page_table b) va = Some va \<and> access m' (bt_page_table b) va = Some (0xC1 OR granted (system_ranges small_linker) va)"
    "\<forall>(s, e, n) \<in> set (kernel_needs small_linker). \<forall>va. page_range s e va \<longrightarrow> supervisor_may m' (bt_page_table b) va (entry_bits n)"
    by (elim exE conjE) (rule that)
  then show ?thesis using r g n by (intro exI conjI) force+
qed

end
