(* ===== verification/Endian.thy ===== *)
theory Endian
  imports Prelude
begin

text \<open>
  \<^verbatim>\<open>Utils/Endian.h\<close>: integers kept in memory in a chosen byte order, as the flattened
  device tree and the drivers use them.  The class template is over the integer type (the
  width of the word here) and over the byte order; \<^verbatim>\<open>__BYTE_ORDER__\<close> is little on RISC-V.
\<close>

datatype Endianness = BigEndian | LittleEndian

definition BYTE_ORDER :: Endianness where
  "BYTE_ORDER = LittleEndian"

text \<open>The builtins reverse the bytes; other sizes are left alone.\<close>

definition bswap :: "'a::len word \<Rightarrow> 'a word" where
  "bswap w = le_word (rev (le_bytes (LENGTH('a) div 8) w))"

definition swap_endian :: "'a::len word \<Rightarrow> 'a word" where
  "swap_endian val =
     (if LENGTH('a) = 64 then bswap val
      else if LENGTH('a) = 32 then bswap val
      else if LENGTH('a) = 16 then bswap val
      else val)"

record 't Endian =
  e_raw :: 't

text \<open>\<^verbatim>\<open>to_specific_endian\<close>, the constructor and the assignment choose the order alike.\<close>

definition to_specific_endian :: "Endianness \<Rightarrow> 'a::len word \<Rightarrow> 'a word" where
  "to_specific_endian E value =
     (if E = BigEndian \<and> BYTE_ORDER = LittleEndian then swap_endian value
      else if E = LittleEndian \<and> BYTE_ORDER = BigEndian then swap_endian value
      else value)"

definition endian_new :: "Endianness \<Rightarrow> 'a::len word \<Rightarrow> 'a word Endian" where
  "endian_new E value = \<lparr>e_raw = to_specific_endian E value\<rparr>"

definition endian_assign :: "Endianness \<Rightarrow> 'a::len word Endian \<Rightarrow> 'a word \<Rightarrow> 'a word Endian" where
  "endian_assign E this val = this\<lparr>e_raw := to_specific_endian E val\<rparr>"

definition endian_emplace :: "'a::len word Endian \<Rightarrow> 'a word \<Rightarrow> 'a word Endian" where
  "endian_emplace this value = this\<lparr>e_raw := value\<rparr>"

definition in_system_endian :: "Endianness \<Rightarrow> 'a::len word Endian \<Rightarrow> 'a word" where
  "in_system_endian E this =
     (if E = BigEndian \<and> BYTE_ORDER = LittleEndian then swap_endian (e_raw this)
      else if E = LittleEndian \<and> BYTE_ORDER = BigEndian then swap_endian (e_raw this)
      else e_raw this)"

definition in_specified_endian :: "'a::len word Endian \<Rightarrow> 'a word" where
  "in_specified_endian this = e_raw this"

definition endian_inc :: "Endianness \<Rightarrow> 'a::len word Endian \<Rightarrow> 'a word Endian" where
  "endian_inc E this = (let value = in_system_endian E this + 1 in this\<lparr>e_raw := to_specific_endian E value\<rparr>)"

definition endian_dec :: "Endianness \<Rightarrow> 'a::len word Endian \<Rightarrow> 'a word Endian" where
  "endian_dec E this = (let value = in_system_endian E this - 1 in this\<lparr>e_raw := to_specific_endian E value\<rparr>)"

definition endian_add :: "Endianness \<Rightarrow> 'a::len word Endian \<Rightarrow> 'a word \<Rightarrow> 'a word" where
  "endian_add E this val = in_system_endian E this + val"

definition endian_sub :: "Endianness \<Rightarrow> 'a::len word Endian \<Rightarrow> 'a word \<Rightarrow> 'a word" where
  "endian_sub E this val = in_system_endian E this - val"

definition endian_mod :: "Endianness \<Rightarrow> 'a::len word Endian \<Rightarrow> 'a word \<Rightarrow> 'a word exec" where
  "endian_mod E this val = (if val = 0 then Inl DivideByZero else Inr (in_system_endian E this mod val))"

definition endian_div :: "Endianness \<Rightarrow> 'a::len word Endian \<Rightarrow> 'a word \<Rightarrow> 'a word exec" where
  "endian_div E this val = (if val = 0 then Inl DivideByZero else Inr (in_system_endian E this div val))"

text \<open>The bytes of the object in memory.\<close>

definition endian_bytes :: "'a::len word Endian \<Rightarrow> u8 list" where
  "endian_bytes this = le_bytes (LENGTH('a) div 8) (e_raw this)"

lemma le_bytes_bswap: "8 dvd LENGTH('a) \<Longrightarrow> le_bytes (LENGTH('a) div 8) (bswap (w :: 'a::len word)) = rev (le_bytes (LENGTH('a) div 8) w)"
  using le_bytes_le_word [of "rev (le_bytes (LENGTH('a) div 8) w)", where ?'a = 'a] by (simp add: bswap_def)

lemma bswap_bswap: "8 dvd LENGTH('a) \<Longrightarrow> bswap (bswap w) = (w :: 'a::len word)"
  using le_bytes_bswap [of w] by (simp add: bswap_def)

lemma swap_endian_swap_endian [simp]: "swap_endian (swap_endian w) = (w :: 'a::len word)"
  by (simp add: swap_endian_def bswap_bswap)

lemma in_to_specific_endian:
  "in_system_endian E \<lparr>e_raw = to_specific_endian E w\<rparr> = w"
  "in_system_endian E (x\<lparr>e_raw := to_specific_endian E w\<rparr>) = w"
  by (cases E; cases x; simp add: in_system_endian_def to_specific_endian_def BYTE_ORDER_def)+

lemma endian_bytes_big:
  assumes "LENGTH('a) \<in> {16, 32, 64}"
  shows "endian_bytes (endian_new BigEndian (w :: 'a::len word)) = rev (endian_bytes (endian_new LittleEndian w))"
proof -
  have "swap_endian w = bswap w" "8 dvd LENGTH('a)" using assms by (auto simp: swap_endian_def)
  then show ?thesis
    using le_bytes_bswap [of w] by (simp add: endian_bytes_def endian_new_def to_specific_endian_def BYTE_ORDER_def)
qed

lemma endian_values:
  "in_system_endian E (endian_new E w) = w" "in_system_endian E (endian_assign E x w) = w"
  "in_system_endian E (endian_inc E (endian_new E w)) = w + 1"
  "in_system_endian E (endian_dec E (endian_new E w)) = w - 1"
  "endian_add E (endian_new E w) v = w + v" "endian_sub E (endian_new E w) v = w - v"
  by (simp_all add: endian_new_def endian_assign_def endian_inc_def endian_dec_def endian_add_def endian_sub_def
      Let_def in_to_specific_endian)

lemma endian_new_value: "endian_new E (in_system_endian E x) = x"
proof (cases x)
  case (fields raw)
  then show ?thesis by (cases E) (simp_all add: endian_new_def in_system_endian_def to_specific_endian_def BYTE_ORDER_def)
qed

text \<open>
  A value survives being stored in either byte order and read back, an object is
  determined by its value, increment and decrement step the value and the binary operators
  compute on it.  Big-endian objects of two, four and eight bytes are laid out as the
  mirror image of the little-endian ones.
\<close>

theorem endian_roundtrip:
  fixes w v :: "'a::len word"
  shows "in_system_endian E (endian_new E w) = w \<and> in_system_endian E (endian_assign E x w) = w \<and>
    endian_new E (in_system_endian E x) = x \<and>
    in_system_endian E (endian_inc E (endian_new E w)) = w + 1 \<and>
    in_system_endian E (endian_dec E (endian_new E w)) = w - 1 \<and>
    endian_add E (endian_new E w) v = w + v \<and> endian_sub E (endian_new E w) v = w - v \<and>
    endian_bytes (endian_new BigEndian (a :: u16)) = rev (endian_bytes (endian_new LittleEndian a)) \<and>
    endian_bytes (endian_new BigEndian (b :: u32)) = rev (endian_bytes (endian_new LittleEndian b)) \<and>
    endian_bytes (endian_new BigEndian (c :: u64)) = rev (endian_bytes (endian_new LittleEndian c))"
  by (intro conjI endian_values endian_new_value endian_bytes_big) simp_all

end
