(* ===== verification/ErrorOr.thy ===== *)
theory ErrorOr
  imports Prelude
begin

text \<open>
  \<^verbatim>\<open>Utils/Errors/ErrorOr.h\<close> and \<^verbatim>\<open>Utils/Optional.h\<close>: the result of an operation that may
  fail, and an optional value, both kept in raw storage beside a flag.  The operations here
  work on that storage; \<^verbatim>\<open>error_or_abs\<close> and \<^verbatim>\<open>optional_abs\<close> read them as the sum and the
  option the rest of the development uses.
\<close>

section \<open>\<^verbatim>\<open>Error\<close>\<close>

record Error =
  err_message :: string
  err_code :: int

definition create_from_string :: "string \<Rightarrow> Error" where
  "create_from_string message = \<lparr>err_message = message, err_code = 1\<rparr>"

definition create_from_errno :: "int \<Rightarrow> Error" where
  "create_from_errno error = \<lparr>err_message = [], err_code = error\<rparr>"

definition create_error_code :: "string \<Rightarrow> int \<Rightarrow> Error" where
  "create_error_code message error = \<lparr>err_message = message, err_code = error\<rparr>"

definition error_has_error :: "Error \<Rightarrow> bool" where
  "error_has_error e = (err_code e \<noteq> 0)"

type_synonym 'a error_or = "Error + 'a"

section \<open>\<^verbatim>\<open>ErrorOr<T, E>\<close>\<close>

text \<open>
  The two storages hold an object or raw bytes (\<^verbatim>\<open>None\<close>).  Reading or destroying raw bytes
  as an object is a fault.
\<close>

record ('t, 'e) ErrorOr =
  m_result_data :: "'t option"
  m_error_data :: "'e option"
  m_has_value :: bool

definition eo_value :: "'t \<Rightarrow> ('t, 'e) ErrorOr" where
  "eo_value v = \<lparr>m_result_data = Some v, m_error_data = None, m_has_value = True\<rparr>"

definition eo_error :: "'e \<Rightarrow> ('t, 'e) ErrorOr" where
  "eo_error e = \<lparr>m_result_data = None, m_error_data = Some e, m_has_value = False\<rparr>"

definition eo_get_value :: "('t, 'e) ErrorOr \<Rightarrow> 't exec" where
  "eo_get_value r = (case m_result_data r of None \<Rightarrow> Inl Uninitialised | Some v \<Rightarrow> Inr v)"

definition eo_get_error :: "('t, 'e) ErrorOr \<Rightarrow> 'e exec" where
  "eo_get_error r = (case m_error_data r of None \<Rightarrow> Inl Uninitialised | Some e \<Rightarrow> Inr e)"

definition eo_copy :: "('t, 'e) ErrorOr \<Rightarrow> ('t, 'e) ErrorOr exec" where
  "eo_copy other =
     (if m_has_value other then exec_bind (eo_get_value other) (\<lambda>v. Inr (eo_value v))
      else exec_bind (eo_get_error other) (\<lambda>e. Inr (eo_error e)))"

definition eo_destroy :: "('t, 'e) ErrorOr \<Rightarrow> ('t, 'e) ErrorOr exec" where
  "eo_destroy r =
     (if m_has_value r then exec_bind (eo_get_value r) (\<lambda>_. Inr (r\<lparr>m_result_data := None\<rparr>))
      else exec_bind (eo_get_error r) (\<lambda>_. Inr (r\<lparr>m_error_data := None\<rparr>)))"

text \<open>
  Copy assignment.  \<^verbatim>\<open>same\<close> says whether \<^verbatim>\<open>this == &other\<close>; in that case \<^verbatim>\<open>other\<close> is the
  object being destroyed, so its members are read after the destruction.
\<close>

definition eo_assign :: "bool \<Rightarrow> ('t, 'e) ErrorOr \<Rightarrow> ('t, 'e) ErrorOr \<Rightarrow> ('t, 'e) ErrorOr exec" where
  "eo_assign same this other =
     (if same then
        exec_bind (eo_destroy this) (\<lambda>this.
          let other = this; this = this\<lparr>m_has_value := m_has_value other\<rparr> in
          if m_has_value this
          then exec_bind (eo_get_value other) (\<lambda>v. Inr (this\<lparr>m_result_data := Some v\<rparr>))
          else exec_bind (eo_get_error other) (\<lambda>e. Inr (this\<lparr>m_error_data := Some e\<rparr>)))
      else Inr this)"

text \<open>The macro \<^verbatim>\<open>TRY\<close>: leave the function with the error, or go on with the value.\<close>

definition eo_try :: "('t, 'e) ErrorOr \<Rightarrow> ('t \<Rightarrow> ('r, 'e) ErrorOr exec) \<Rightarrow> ('r, 'e) ErrorOr exec" where
  "eo_try r rest =
     (if \<not> m_has_value r then exec_bind (eo_get_error r) (\<lambda>e. Inr (eo_error e))
      else exec_bind (eo_get_value r) rest)"

text \<open>The macro on the sum that \<^verbatim>\<open>error_or_abs\<close> reads it as.\<close>

definition try_bind :: "'e + 'a \<Rightarrow> ('a \<Rightarrow> ('e + 'b) exec) \<Rightarrow> ('e + 'b) exec" where
  "try_bind r rest = (case r of Inl e \<Rightarrow> Inr (Inl e) | Inr v \<Rightarrow> rest v)"

lemma try_bind_simps [simp, fault_simps]:
  "try_bind (Inl e) f = Inr (Inl e)"
  "try_bind (Inr v) f = f v"
  by (simp_all add: try_bind_def)

text \<open>Composition of operations that may also run forever, on values and on errors or values.\<close>

type_synonym 'a run = "'a exec option"

definition run_bind :: "('f + 'a) option \<Rightarrow> ('a \<Rightarrow> ('f + 'b) option) \<Rightarrow> ('f + 'b) option" where
  "run_bind r f = (case r of None \<Rightarrow> None | Some (Inl e) \<Rightarrow> Some (Inl e) | Some (Inr v) \<Rightarrow> f v)"

lemma run_bind_simps [simp, fault_simps]:
  "run_bind None f = None"
  "run_bind (Some (Inl e)) f = Some (Inl e)"
  "run_bind (Some (Inr v)) f = f v"
  by (simp_all add: run_bind_def)

section \<open>\<^verbatim>\<open>Optional<E>\<close>\<close>

record 'e Optional =
  opt_has_value :: bool
  opt_storage :: "'e option"

definition opt_empty :: "'e Optional" where
  "opt_empty = \<lparr>opt_has_value = False, opt_storage = None\<rparr>"

definition opt_of :: "'e \<Rightarrow> 'e Optional" where
  "opt_of v = \<lparr>opt_has_value = True, opt_storage = Some v\<rparr>"

definition opt_reset :: "'e Optional \<Rightarrow> 'e Optional" where
  "opt_reset r = (if opt_has_value r then r\<lparr>opt_storage := None, opt_has_value := False\<rparr> else r)"

definition opt_copy :: "'e Optional \<Rightarrow> 'e Optional" where
  "opt_copy other = (if opt_has_value other then \<lparr>opt_has_value = True, opt_storage = opt_storage other\<rparr>
     else \<lparr>opt_has_value = False, opt_storage = None\<rparr>)"

text \<open>The move constructor also returns the object moved from.\<close>

definition opt_move :: "'e Optional \<Rightarrow> 'e Optional \<times> 'e Optional" where
  "opt_move other = (if opt_has_value other then (\<lparr>opt_has_value = True, opt_storage = opt_storage other\<rparr>, opt_reset other)
     else (\<lparr>opt_has_value = False, opt_storage = None\<rparr>, other))"

definition opt_assign :: "bool \<Rightarrow> 'e Optional \<Rightarrow> 'e Optional \<Rightarrow> 'e Optional" where
  "opt_assign same this other =
     (if \<not> same then
        let this = opt_reset this in
        if opt_has_value other then this\<lparr>opt_storage := opt_storage other, opt_has_value := True\<rparr> else this
      else this)"

definition opt_assign_move :: "bool \<Rightarrow> 'e Optional \<Rightarrow> 'e Optional \<Rightarrow> 'e Optional \<times> 'e Optional" where
  "opt_assign_move same this other =
     (if \<not> same then
        let this = opt_reset this in
        if opt_has_value other
        then (this\<lparr>opt_storage := opt_storage other, opt_has_value := True\<rparr>, opt_reset other)
        else (this, other)
      else (this, this))"

definition opt_value :: "'e Optional \<Rightarrow> 'e exec" where
  "opt_value r =
     (if \<not> opt_has_value r then Inl (AssertFailed ''Accessing value of an empty Optional!'')
      else case opt_storage r of None \<Rightarrow> Inl Uninitialised | Some v \<Rightarrow> Inr v)"

section \<open>What they represent\<close>

definition eo_ok :: "('t, 'e) ErrorOr \<Rightarrow> bool" where
  "eo_ok r = (if m_has_value r then m_result_data r \<noteq> None else m_error_data r \<noteq> None)"

definition error_or_abs :: "('t, 'e) ErrorOr \<Rightarrow> 'e + 't" where
  "error_or_abs r = (if m_has_value r then Inr (the (m_result_data r)) else Inl (the (m_error_data r)))"

definition opt_ok :: "'e Optional \<Rightarrow> bool" where
  "opt_ok r = (opt_has_value r = (opt_storage r \<noteq> None))"

definition optional_abs :: "'e Optional \<Rightarrow> 'e option" where
  "optional_abs r = (if opt_has_value r then opt_storage r else None)"

lemma eo_abs_simps [simp]:
  "eo_ok (eo_value v)" "error_or_abs (eo_value v) = Inr v"
  "eo_ok (eo_error e)" "error_or_abs (eo_error e) = Inl e"
  by (simp_all add: eo_ok_def error_or_abs_def eo_value_def eo_error_def)

lemma eo_copy_abs: "eo_ok r \<Longrightarrow> \<exists>r'. eo_copy r = Inr r' \<and> eo_ok r' \<and> error_or_abs r' = error_or_abs r"
  by (intro exI [of _ "if m_has_value r then eo_value (the (m_result_data r)) else eo_error (the (m_error_data r))"])
     (auto simp: eo_ok_def eo_copy_def eo_get_value_def eo_get_error_def error_or_abs_def eo_value_def eo_error_def)

lemma eo_get_abs:
  "eo_ok r \<Longrightarrow> error_or_abs r = Inr v \<Longrightarrow> eo_get_value r = Inr v"
  "eo_ok r \<Longrightarrow> error_or_abs r = Inl e \<Longrightarrow> eo_get_error r = Inr e"
  by (auto simp: eo_ok_def error_or_abs_def eo_get_value_def eo_get_error_def split: if_splits)

lemma opt_abs_simps [simp]:
  "optional_abs opt_empty = None" "optional_abs (opt_of v) = Some v"
  "optional_abs (opt_reset r) = None"
  "opt_ok opt_empty" "opt_ok (opt_of v)"
  by (simp_all add: optional_abs_def opt_empty_def opt_of_def opt_reset_def opt_ok_def)

lemma opt_ok_reset: "opt_ok r \<Longrightarrow> opt_ok (opt_reset r)"
  by (auto simp: opt_ok_def opt_reset_def)

lemma opt_ok_assign: "opt_ok r \<Longrightarrow> opt_ok s \<Longrightarrow> opt_ok (opt_assign same r s)"
  by (auto simp: opt_ok_def opt_assign_def opt_reset_def Let_def)

lemma opt_assign_abs:
  "\<not> same \<Longrightarrow> opt_ok s \<Longrightarrow> optional_abs (opt_assign same r s) = optional_abs s"
  "same \<Longrightarrow> opt_assign same r s = r"
  by (auto simp: opt_assign_def optional_abs_def opt_reset_def opt_ok_def Let_def)

lemma opt_move_abs:
  "optional_abs (fst (opt_move r)) = optional_abs r" "optional_abs (snd (opt_move r)) = None"
  by (auto simp: opt_move_def optional_abs_def opt_reset_def)

lemma opt_value_abs: "opt_ok r \<Longrightarrow> opt_value r = Inr v \<longleftrightarrow> optional_abs r = Some v"
  by (auto simp: opt_value_def optional_abs_def opt_ok_def split: option.splits)

section \<open>Properties\<close>

text \<open>
  \<^verbatim>\<open>ErrorOr\<close> implements the error sum, with one exception: \<^verbatim>\<open>TRY\<close> leaves with the error or
  goes on with the value, the copy constructor preserves the content, but copy assignment
  tests for self-assignment the wrong way round.  Assigning another object leaves the
  target unchanged, and assigning an object to itself reads what it has just destroyed.
\<close>

theorem error_or_contract:
  assumes "eo_ok r" "eo_ok s"
  shows "eo_try r rest = (case error_or_abs r of Inl e \<Rightarrow> Inr (eo_error e) | Inr v \<Rightarrow> rest v) \<and>
    (\<exists>r'. eo_copy r = Inr r' \<and> eo_ok r' \<and> error_or_abs r' = error_or_abs r) \<and>
    eo_assign False r s = Inr r \<and> eo_assign True r r = Inl Uninitialised"
proof -
  have "eo_try r rest = (case error_or_abs r of Inl e \<Rightarrow> Inr (eo_error e) | Inr v \<Rightarrow> rest v)"
    using assms(1)
    by (cases "m_has_value r") (auto simp: eo_try_def eo_ok_def error_or_abs_def eo_get_value_def eo_get_error_def)
  moreover have "eo_assign True r r = Inl Uninitialised"
    using assms(1) by (auto simp: eo_assign_def eo_destroy_def eo_ok_def eo_get_value_def eo_get_error_def Let_def)
  ultimately show ?thesis using eo_copy_abs [OF assms(1)] by (simp add: eo_assign_def)
qed

theorem error_or_contract_witness:
  "eo_assign False (eo_value (1 :: nat)) (eo_value 2 :: (nat, Error) ErrorOr) = Inr (eo_value 1)"
  using error_or_contract [of "eo_value (1 :: nat)" "eo_value 2 :: (nat, Error) ErrorOr" "\<lambda>v. Inr (eo_value v)"] by simp

end
