(* ===== verification/VirtIO.thy ===== *)
theory VirtIO
  imports Endian ErrorOr
begin

text \<open>
  The VirtIO transport and the block driver: the registers of \<^verbatim>\<open>MMIODevice.h\<close>, the rings of
  \<^verbatim>\<open>VirtQueue.h\<close>, \<^verbatim>\<open>VirtIODevice\<close> of \<^verbatim>\<open>Device.cpp\<close>, \<^verbatim>\<open>BlockIODriver.cpp\<close> and \<^verbatim>\<open>BlockDevice.cpp\<close>.  The device is a
  function from the writes made so far to the value of a register; what it does to the
  rings between two calls of the driver is \<^verbatim>\<open>device_complete\<close>.  All fields are little-endian
  \<^verbatim>\<open>Endian\<close> values on a little-endian machine, which \<^verbatim>\<open>Endian\<close> shows to be plain words.  The arrays are lists
  read at an index that is checked, as \<^verbatim>\<open>ArrayLists\<close> shows for \<^verbatim>\<open>Array\<close> and \<^verbatim>\<open>ArrayList\<close>.
\<close>

section \<open>Registers\<close>

datatype MMIODeviceRegisterLayout = MagicValue | Version | DeviceId | VendorId | HostFeatures | HostFeaturesSel
  | GuestFeatures | GuestFeaturesSel | GuestPageSize | QueueSel | QueueNumMax | QueueNum | QueueAlign | QueuePfn
  | QueueNotify | InterruptStatus | InterruptAck | Status | Config

fun register_offset :: "MMIODeviceRegisterLayout \<Rightarrow> size_t" where
  "register_offset MagicValue = 0x000"
| "register_offset Version = 0x004"
| "register_offset DeviceId = 0x008"
| "register_offset VendorId = 0x00c"
| "register_offset HostFeatures = 0x010"
| "register_offset HostFeaturesSel = 0x014"
| "register_offset GuestFeatures = 0x020"
| "register_offset GuestFeaturesSel = 0x024"
| "register_offset GuestPageSize = 0x028"
| "register_offset QueueSel = 0x030"
| "register_offset QueueNumMax = 0x034"
| "register_offset QueueNum = 0x038"
| "register_offset QueueAlign = 0x03c"
| "register_offset QueuePfn = 0x040"
| "register_offset QueueNotify = 0x050"
| "register_offset InterruptStatus = 0x060"
| "register_offset InterruptAck = 0x064"
| "register_offset Status = 0x070"
| "register_offset Config = 0x100"

datatype StatusField = Acknowledge | Driver | DriverOK | FeaturesOK | DeviceNeedsReset | Failed

fun status_bit :: "StatusField \<Rightarrow> u32" where
  "status_bit Acknowledge = push_bit 0 1"
| "status_bit Driver = push_bit 1 1"
| "status_bit DriverOK = push_bit 2 1"
| "status_bit FeaturesOK = push_bit 3 1"
| "status_bit DeviceNeedsReset = push_bit 6 1"
| "status_bit Failed = push_bit 7 1"

text \<open>The writes to device memory so far, and what a read of a register then returns.\<close>

type_synonym bus = "(u64 \<times> u32) list"
type_synonym bus_device = "bus \<Rightarrow> u64 \<Rightarrow> u32"

definition get_register_value :: "bus_device \<Rightarrow> bus \<Rightarrow> u64 \<Rightarrow> MMIODeviceRegisterLayout \<Rightarrow> u32" where
  "get_register_value hw b this r = hw b (this + register_offset r)"

definition set_register_value :: "bus \<Rightarrow> u64 \<Rightarrow> MMIODeviceRegisterLayout \<Rightarrow> u32 \<Rightarrow> bus" where
  "set_register_value b this r value = b @ [(this + register_offset r, value)]"

definition get_magic_value :: "bus_device \<Rightarrow> bus \<Rightarrow> u64 \<Rightarrow> u32" where
  "get_magic_value hw b this = get_register_value hw b this MagicValue"
definition get_version :: "bus_device \<Rightarrow> bus \<Rightarrow> u64 \<Rightarrow> u32" where
  "get_version hw b this = get_register_value hw b this Version"
definition get_device_id :: "bus_device \<Rightarrow> bus \<Rightarrow> u64 \<Rightarrow> u32" where
  "get_device_id hw b this = get_register_value hw b this DeviceId"
definition get_vendor_id :: "bus_device \<Rightarrow> bus \<Rightarrow> u64 \<Rightarrow> u32" where
  "get_vendor_id hw b this = get_register_value hw b this VendorId"
definition get_status :: "bus_device \<Rightarrow> bus \<Rightarrow> u64 \<Rightarrow> u32" where
  "get_status hw b this = get_register_value hw b this Status"
definition set_status :: "bus \<Rightarrow> u64 \<Rightarrow> u32 \<Rightarrow> bus" where
  "set_status b this v = set_register_value b this Status v"
definition get_host_features :: "bus_device \<Rightarrow> bus \<Rightarrow> u64 \<Rightarrow> u32" where
  "get_host_features hw b this = get_register_value hw b this HostFeatures"
definition set_host_features :: "bus \<Rightarrow> u64 \<Rightarrow> u32 \<Rightarrow> bus" where
  "set_host_features b this v = set_register_value b this HostFeatures v"
definition get_guest_features :: "bus_device \<Rightarrow> bus \<Rightarrow> u64 \<Rightarrow> u32" where
  "get_guest_features hw b this = get_register_value hw b this GuestFeatures"
definition set_guest_features :: "bus \<Rightarrow> u64 \<Rightarrow> u32 \<Rightarrow> bus" where
  "set_guest_features b this v = set_register_value b this GuestFeatures v"
definition get_queue_num_max :: "bus_device \<Rightarrow> bus \<Rightarrow> u64 \<Rightarrow> u32" where
  "get_queue_num_max hw b this = get_register_value hw b this QueueNumMax"
definition set_queue_num :: "bus \<Rightarrow> u64 \<Rightarrow> u32 \<Rightarrow> bus" where
  "set_queue_num b this v = set_register_value b this QueueNum v"
definition set_guest_page_size :: "bus \<Rightarrow> u64 \<Rightarrow> u32 \<Rightarrow> bus" where
  "set_guest_page_size b this v = set_register_value b this GuestPageSize v"
definition set_queue_sel :: "bus \<Rightarrow> u64 \<Rightarrow> u32 \<Rightarrow> bus" where
  "set_queue_sel b this v = set_register_value b this QueueSel v"
definition get_queue_pfn :: "bus_device \<Rightarrow> bus \<Rightarrow> u64 \<Rightarrow> u32" where
  "get_queue_pfn hw b this = get_register_value hw b this QueuePfn"
definition set_queue_pfn :: "bus \<Rightarrow> u64 \<Rightarrow> u32 \<Rightarrow> bus" where
  "set_queue_pfn b this v = set_register_value b this QueuePfn v"
definition set_queue_notify :: "bus \<Rightarrow> u64 \<Rightarrow> u32 \<Rightarrow> bus" where
  "set_queue_notify b this v = set_register_value b this QueueNotify v"

lemmas register_defs = get_register_value_def set_register_value_def get_magic_value_def get_version_def get_device_id_def
  get_vendor_id_def get_status_def set_status_def get_host_features_def set_host_features_def get_guest_features_def
  set_guest_features_def get_queue_num_max_def set_queue_num_def set_guest_page_size_def set_queue_sel_def
  get_queue_pfn_def set_queue_pfn_def set_queue_notify_def

section \<open>Queues\<close>

definition VIRTIO_RING_SIZE :: nat where "VIRTIO_RING_SIZE = 128"
definition VIRTIO_PAGE_SIZE :: nat where "VIRTIO_PAGE_SIZE = 4096"

datatype VirtQueueDescriptorFlags = Next | Write | Indirect

fun descriptor_flag :: "VirtQueueDescriptorFlags \<Rightarrow> u16" where
  "descriptor_flag Next = 1"
| "descriptor_flag Write = 2"
| "descriptor_flag Indirect = 4"

record VirtQueueDescriptor =
  vd_address :: u64
  vd_length :: u32
  vd_flags :: u16
  vd_next :: u16

record VirtQueueAvailable =
  va_flags :: u16
  va_index :: u16
  va_ring :: "u16 list"
  va_event :: u16

record VirtQueueUsedElement =
  ue_id :: u32
  ue_length :: u32

record VirtQueueUsed =
  vu_flags :: u16
  vu_index :: u16
  vu_ring :: "VirtQueueUsedElement list"
  vu_event :: u16

record VirtQueue =
  vq_descriptors :: "VirtQueueDescriptor list"
  vq_available :: VirtQueueAvailable
  vq_used :: VirtQueueUsed

text \<open>
  The sizes of the C++ structures; \<^verbatim>\<open>padding\<close> puts the used ring on the second page.
\<close>

definition sizeof_descriptors :: nat where "sizeof_descriptors = 16 * VIRTIO_RING_SIZE"
definition sizeof_available :: nat where "sizeof_available = 2 + 2 + 2 * VIRTIO_RING_SIZE + 2"
definition padding_size :: nat where "padding_size = VIRTIO_PAGE_SIZE - sizeof_descriptors - sizeof_available"
definition sizeof_used :: nat where "sizeof_used = 2 + 2 + 8 * VIRTIO_RING_SIZE + 2 + 2"
definition sizeof_virt_queue :: nat where
  "sizeof_virt_queue = sizeof_descriptors + sizeof_available + padding_size + sizeof_used"

definition zero_queue :: VirtQueue where
  "zero_queue = \<lparr>vq_descriptors = replicate 128 \<lparr>vd_address = 0, vd_length = 0, vd_flags = 0, vd_next = 0\<rparr>,
     vq_available = \<lparr>va_flags = 0, va_index = 0, va_ring = replicate 128 0, va_event = 0\<rparr>,
     vq_used = \<lparr>vu_flags = 0, vu_index = 0, vu_ring = replicate 128 \<lparr>ue_id = 0, ue_length = 0\<rparr>, vu_event = 0\<rparr>\<rparr>"

section \<open>\<^verbatim>\<open>VirtIODevice\<close>\<close>

record VirtIODevice =
  m_mmio_device :: u64
  m_features :: u32
  m_virt_queues :: "(u64 \<times> VirtQueue) list"
  m_queue_indexes :: "u64 list"
  m_queue_acks :: "u64 list"
  m_selected_queue :: u32
  m_bus :: bus

definition virtio_device_new :: "u64 \<Rightarrow> bus \<Rightarrow> VirtIODevice" where
  "virtio_device_new mmio b = \<lparr>m_mmio_device = mmio, m_features = 0, m_virt_queues = [], m_queue_indexes = [],
     m_queue_acks = [], m_selected_queue = 0, m_bus = b\<rparr>"

definition on_bus :: "(bus \<Rightarrow> u64 \<Rightarrow> bus) \<Rightarrow> VirtIODevice \<Rightarrow> VirtIODevice" where
  "on_bus f d = d\<lparr>m_bus := f (m_bus d) (m_mmio_device d)\<rparr>"

definition virtio_reset :: "VirtIODevice \<Rightarrow> VirtIODevice" where
  "virtio_reset d = on_bus (\<lambda>b this. set_status b this 0) d"

text \<open>
  \<^verbatim>\<open>zalloc\<close> gives the address of the \<^verbatim>\<open>i\<close>-th queue, whose pages are zero.  The loop over the
  queues indexes the array with a 32-bit number and asserts that it is below the
  32-bit count, so it ends in the assertion when the count was truncated.
\<close>

definition init_queues :: "(nat \<Rightarrow> u64) \<Rightarrow> u64 \<Rightarrow> (u64 \<times> VirtQueue) list exec" where
  "init_queues zalloc n =
     (if unat (ucast n :: u32) < unat n then Inl (AssertFailed ''VirtQueueArray: Index out of bounds.'')
      else Inr (map (\<lambda>i. (zalloc i, zero_queue)) [0..<unat n]))"

definition virtio_init :: "bus_device \<Rightarrow> (nat \<Rightarrow> u64) \<Rightarrow> u32 \<Rightarrow> u64 \<Rightarrow> VirtIODevice \<Rightarrow> (VirtIODevice \<times> unit error_or) exec" where
  "virtio_init hw zalloc features n d =
     (let d = d\<lparr>m_queue_indexes := replicate (unat n) 0, m_queue_acks := replicate (unat n) 0\<rparr>;
          d = virtio_reset d;
          status = get_status hw (m_bus d) (m_mmio_device d) OR status_bit Acknowledge;
          d = on_bus (\<lambda>b this. set_status b this status) d;
          status = status OR status_bit Driver;
          d = on_bus (\<lambda>b this. set_status b this status) d;
          host_features = get_host_features hw (m_bus d) (m_mmio_device d)
      in if host_features AND features \<noteq> features
         then Inr (d, Inl (create_from_string ''Device does not support required features.''))
         else
           let d = on_bus (\<lambda>b this. set_guest_features b this features) d;
               status = status OR status_bit FeaturesOK;
               d = on_bus (\<lambda>b this. set_status b this status) d;
               status = get_status hw (m_bus d) (m_mmio_device d)
           in if status AND status_bit FeaturesOK = 0
              then Inr (d, Inl (create_from_string ''Device does not support required features.''))
              else
                let queue_num_max = get_queue_num_max hw (m_bus d) (m_mmio_device d);
                    d = on_bus (\<lambda>b this. set_queue_num b this (of_nat VIRTIO_RING_SIZE)) d
                in if of_nat VIRTIO_RING_SIZE > queue_num_max
                   then Inr (d, Inl (create_from_string ''Device does not support required number of queues.''))
                   else
                     let d = on_bus (\<lambda>b this. set_queue_sel b this 0) d;
                         d = on_bus (\<lambda>b this. set_guest_page_size b this (of_nat VIRTIO_PAGE_SIZE)) d
                     in exec_bind (init_queues zalloc n) (\<lambda>queues.
                          case queues of [] \<Rightarrow> Inl (AssertFailed ''VirtQueueArray: Index out of bounds.'')
                          | (queue_address, _) # _ \<Rightarrow>
                            let d = d\<lparr>m_virt_queues := queues\<rparr>;
                                d = on_bus (\<lambda>b this. set_queue_pfn b this (ucast queue_address div of_nat VIRTIO_PAGE_SIZE)) d;
                                status = status OR status_bit DriverOK
                            in Inr (on_bus (\<lambda>b this. set_status b this status) d, Inr ())))"

definition array_at :: "'a list \<Rightarrow> u64 \<Rightarrow> 'a exec" where
  "array_at xs i = (if unat i < length xs then Inr (xs ! unat i) else Inl (AssertFailed ''Array: Index out of bounds!''))"

definition selected :: "VirtIODevice \<Rightarrow> VirtQueue exec" where
  "selected d = (if unat (m_selected_queue d) < length (m_virt_queues d)
     then Inr (snd (m_virt_queues d ! unat (m_selected_queue d)))
     else Inl (AssertFailed ''VirtQueueArray: Index out of bounds.''))"

definition set_selected :: "VirtIODevice \<Rightarrow> VirtQueue \<Rightarrow> VirtIODevice" where
  "set_selected d q = (let k = unat (m_selected_queue d) in
     d\<lparr>m_virt_queues := (m_virt_queues d)[k := (fst (m_virt_queues d ! k), q)]\<rparr>)"

definition get_next_queue_index :: "VirtIODevice \<Rightarrow> (VirtIODevice \<times> u64) exec" where
  "get_next_queue_index d =
     (let k = ucast (m_selected_queue d) in
      exec_bind (array_at (m_queue_indexes d) k) (\<lambda>index.
        Inr (d\<lparr>m_queue_indexes := (m_queue_indexes d)[unat k := (index + 1) mod of_nat VIRTIO_RING_SIZE]\<rparr>, index)))"

definition put_descriptor :: "VirtQueue \<Rightarrow> u64 \<Rightarrow> VirtQueueDescriptor \<Rightarrow> VirtQueue exec" where
  "put_descriptor q i v = (if unat i < VIRTIO_RING_SIZE then Inr (q\<lparr>vq_descriptors := (vq_descriptors q)[unat i := v]\<rparr>)
     else Inl OutOfBounds)"

definition add_to_queue :: "VirtQueueDescriptor \<Rightarrow> VirtIODevice \<Rightarrow> (VirtIODevice \<times> u32 error_or) exec" where
  "add_to_queue descriptor d =
     exec_bind (selected d) (\<lambda>queue. exec_bind (get_next_queue_index d) (\<lambda>(d, available_index).
       let stored = (if vd_flags descriptor AND descriptor_flag Next \<noteq> 0
                     then descriptor\<lparr>vd_next := ucast ((available_index + 1) mod of_nat VIRTIO_RING_SIZE)\<rparr> else descriptor)
       in exec_bind (put_descriptor queue available_index stored) (\<lambda>queue.
          Inr (set_selected d queue, Inr (ucast available_index)))))"

definition get_next_used_descriptor :: "VirtIODevice \<Rightarrow> (VirtIODevice \<times> u32 error_or) exec" where
  "get_next_used_descriptor d =
     exec_bind (selected d) (\<lambda>queue. let k = ucast (m_selected_queue d) in
       exec_bind (array_at (m_queue_acks d) k) (\<lambda>ack.
         if ack = ucast (vu_index (vq_used queue)) then Inr (d, Inl (create_from_string ''No used descriptor available.''))
         else let element = vu_ring (vq_used queue) ! (unat ack mod VIRTIO_RING_SIZE);
                  ack = (ack + 1) mod of_nat VIRTIO_RING_SIZE
              in Inr (d\<lparr>m_queue_acks := (m_queue_acks d)[unat k := ack]\<rparr>, Inr (ue_id element))))"

definition add_to_available :: "u32 \<Rightarrow> VirtIODevice \<Rightarrow> VirtIODevice exec" where
  "add_to_available descriptor_index d =
     exec_bind (selected d) (\<lambda>queue. let a = vq_available queue;
         a = a\<lparr>va_ring := (va_ring a)[unat (va_index a) mod VIRTIO_RING_SIZE := ucast descriptor_index], va_index := va_index a + 1\<rparr>
       in Inr (set_selected d (queue\<lparr>vq_available := a\<rparr>)))"

definition virtio_notify :: "VirtIODevice \<Rightarrow> VirtIODevice" where
  "virtio_notify d = on_bus (\<lambda>b this. set_queue_notify b this (m_selected_queue d)) d"

section \<open>\<^verbatim>\<open>BlockIO.h\<close>\<close>

datatype RequestType = BlkRead | BlkWrite | BlkFlush | BlkDiscard | BlkWriteZeroes

fun request_type_value :: "RequestType \<Rightarrow> u32" where
  "request_type_value BlkRead = 0"
| "request_type_value BlkWrite = 1"
| "request_type_value BlkFlush = 4"
| "request_type_value BlkDiscard = 11"
| "request_type_value BlkWriteZeroes = 13"

record BlkHeader =
  hd_type :: u32
  hd_reserved :: u32
  hd_sector :: u64

record BlkRequest =
  rq_header :: BlkHeader
  rq_data :: u64
  rq_status :: u8
  rq_id :: u64

text \<open>The offsets of the members the device is told of, and the sizes of what it reads and writes.\<close>

definition header_offset :: u64 where "header_offset = 0"
definition status_offset :: u64 where "status_offset = 24"
definition sizeof_header :: u32 where "sizeof_header = 16"
definition sizeof_status :: u32 where "sizeof_status = 1"

text \<open>\<^verbatim>\<open>const u8 status_value = 0x111\<close>, of which a byte keeps \<^verbatim>\<open>0x11\<close>.\<close>

definition status_value :: u8 where "status_value = ucast (0x111 :: u32)"

section \<open>\<^verbatim>\<open>BlockIODriver\<close>\<close>

text \<open>
  The driver with the device it drives and the requests that live on the kernel heap, by
  address; \<^verbatim>\<open>alloc\<close> is \<^verbatim>\<open>new\<close>, which gives the address of no live request.
\<close>

type_synonym blk_heap = "u64 \<Rightarrow> BlkRequest option"

record BlockIODriver =
  bd_device :: VirtIODevice
  bd_ignored_requests :: "u64 list"
  bd_heap :: blk_heap

definition blk_request :: "u64 \<Rightarrow> u64 \<Rightarrow> u64 \<Rightarrow> bool \<Rightarrow> BlkRequest" where
  "blk_request request_id buffer offset is_write =
     \<lparr>rq_header = \<lparr>hd_type = request_type_value (if is_write then BlkWrite else BlkRead), hd_reserved = 0, hd_sector = offset div 512\<rparr>,
      rq_data = buffer, rq_status = status_value, rq_id = request_id\<rparr>"

definition block_operation ::
    "(blk_heap \<Rightarrow> u64) \<Rightarrow> u64 \<Rightarrow> u64 \<Rightarrow> u64 \<Rightarrow> u64 \<Rightarrow> bool \<Rightarrow> BlockIODriver \<Rightarrow> (BlockIODriver \<times> u64 error_or) exec" where
  "block_operation alloc request_id buffer sz offset is_write drv =
     (if sz mod 512 \<noteq> 0 then Inr (drv, Inl (create_from_string ''BlockIODriver: Size must be a multiple of 512 bytes.''))
      else
        let request = alloc (bd_heap drv);
            drv = drv\<lparr>bd_heap := (bd_heap drv)(request \<mapsto> blk_request request_id buffer offset is_write)\<rparr>;
            d = bd_device drv
        in exec_bind (add_to_queue \<lparr>vd_address = request + header_offset, vd_length = sizeof_header,
                        vd_flags = descriptor_flag Next, vd_next = 0\<rparr> d) (\<lambda>(d, head_or_error).
           exec_bind (add_to_queue \<lparr>vd_address = buffer, vd_length = ucast sz,
                        vd_flags = descriptor_flag Next OR (if \<not> is_write then descriptor_flag Write else 0), vd_next = 0\<rparr> d) (\<lambda>(d, _).
           exec_bind (add_to_queue \<lparr>vd_address = request + status_offset, vd_length = sizeof_status,
                        vd_flags = descriptor_flag Write, vd_next = 0\<rparr> d) (\<lambda>(d, _).
           case head_or_error of
             Inl e \<Rightarrow> Inr (drv\<lparr>bd_device := d, bd_heap := (bd_heap drv)(request := None)\<rparr>, Inl e)
           | Inr head \<Rightarrow>
               exec_bind (add_to_available head d) (\<lambda>d.
                 Inr (drv\<lparr>bd_device := virtio_notify d\<rparr>, Inr request))))))"

definition driver_async ::
    "(blk_heap \<Rightarrow> u64) \<Rightarrow> bool \<Rightarrow> u64 \<Rightarrow> u64 \<Rightarrow> u64 \<Rightarrow> u64 \<Rightarrow> BlockIODriver \<Rightarrow> (BlockIODriver \<times> unit error_or) exec" where
  "driver_async alloc is_write request_id buffer sz offset drv =
     exec_bind (block_operation alloc request_id buffer sz offset is_write drv) (\<lambda>(drv, r).
       Inr (drv, case r of Inl e \<Rightarrow> Inl e | Inr _ \<Rightarrow> Inr ()))"

text \<open>\<^verbatim>\<open>poll i\<close> is the status the \<^verbatim>\<open>i\<close>-th look at the request finds.\<close>

partial_function (option) poll_status :: "(nat \<Rightarrow> u8) \<Rightarrow> nat \<Rightarrow> u8 option" where
  "poll_status poll i = (if poll i = status_value then poll_status poll (Suc i) else Some (poll i))"

definition driver_poll ::
    "(blk_heap \<Rightarrow> u64) \<Rightarrow> (nat \<Rightarrow> u8) \<Rightarrow> bool \<Rightarrow> u64 \<Rightarrow> u64 \<Rightarrow> u64 \<Rightarrow> BlockIODriver \<Rightarrow> (BlockIODriver \<times> unit error_or) run" where
  "driver_poll alloc poll is_write buffer sz offset drv =
     run_bind (Some (block_operation alloc 0 buffer sz offset is_write drv)) (\<lambda>(drv, r).
       case r of Inl e \<Rightarrow> Some (Inr (drv, Inl e))
       | Inr request \<Rightarrow>
           Option.bind (poll_status poll 0) (\<lambda>status.
             if status = 0 then Some (Inr (drv\<lparr>bd_ignored_requests := bd_ignored_requests drv @ [request]\<rparr>, Inr ()))
             else Some (Inr (drv\<lparr>bd_heap := (bd_heap drv)(request := None)\<rparr>,
               Inl (create_from_string (if is_write then ''BlockIODriver: Write failed.'' else ''BlockIODriver: Read failed.''))))))"

datatype BlockDeviceAsyncRequestType = Ok | FailedRequest

text \<open>
  \<^verbatim>\<open>BlockIODriver::notify\<close>.  One round of the loop stops it (\<^verbatim>\<open>None\<close>) or hands out the results to
  append; \<^verbatim>\<open>descriptor->address = 0\<close> is the write at the end of each round.
\<close>

definition clear_address :: "VirtIODevice \<Rightarrow> u32 \<Rightarrow> VirtIODevice exec" where
  "clear_address d i = exec_bind (selected d) (\<lambda>q.
     exec_bind (put_descriptor q (ucast i) ((vq_descriptors q ! unat i)\<lparr>vd_address := 0\<rparr>)) (\<lambda>q. Inr (set_selected d q)))"

definition descriptor_address :: "VirtIODevice \<Rightarrow> u32 \<Rightarrow> u64 exec" where
  "descriptor_address d i = exec_bind (selected d) (\<lambda>q.
     if unat i < VIRTIO_RING_SIZE then Inr (vd_address (vq_descriptors q ! unat i)) else Inl OutOfBounds)"

definition live_request :: "blk_heap \<Rightarrow> u64 \<Rightarrow> BlkRequest exec" where
  "live_request heap a = (case heap a of Some r \<Rightarrow> Inr r | None \<Rightarrow> Inl (if a = 0 then NullDeref else Uninitialised))"

type_synonym async_result = "u64 \<times> BlockDeviceAsyncRequestType"

definition notify_step :: "BlockIODriver \<Rightarrow> (BlockIODriver \<times> async_result list) option exec" where
  "notify_step drv =
     exec_bind (get_next_used_descriptor (bd_device drv)) (\<lambda>(d, r).
       case r of Inl _ \<Rightarrow> Inr None
       | Inr descriptor \<Rightarrow>
           exec_bind (descriptor_address d descriptor) (\<lambda>request.
           exec_bind (live_request (bd_heap drv) request) (\<lambda>rq.
           exec_bind (clear_address d descriptor) (\<lambda>d.
             let heap = (bd_heap drv)(request := None) in
             if request \<in> set (bd_ignored_requests drv)
             then Inr (Some (drv\<lparr>bd_device := d, bd_heap := heap, bd_ignored_requests := remove1 request (bd_ignored_requests drv)\<rparr>, []))
             else Inr (Some (drv\<lparr>bd_device := d, bd_heap := heap\<rparr>,
               [(rq_id rq, if rq_status rq = 0 then Ok else FailedRequest)]))))))"

partial_function (option) notify_loop :: "BlockIODriver \<Rightarrow> async_result list \<Rightarrow> (BlockIODriver \<times> async_result list) run" where
  "notify_loop drv results =
     (case notify_step drv of Inl f \<Rightarrow> Some (Inl f)
      | Inr s \<Rightarrow> (case s of None \<Rightarrow> Some (Inr (drv, results))
         | Some n \<Rightarrow> (case n of (drv', new) \<Rightarrow> notify_loop drv' (results @ new))))"

definition driver_notify :: "BlockIODriver \<Rightarrow> (BlockIODriver \<times> async_result list) run" where
  "driver_notify drv = notify_loop drv []"

section \<open>\<^verbatim>\<open>BlockDevice\<close>\<close>

record BlockDeviceAsyncRequest =
  ar_id :: u64
  ar_buffer :: u64
  ar_size :: u64
  ar_offset :: u64
  ar_write :: bool

record BlockDevice =
  blk_driver :: "BlockIODriver option"
  blk_requests :: "BlockDeviceAsyncRequest list"
  blk_next_request_id :: u64

definition no_driver :: "Error" where
  "no_driver = create_from_string ''BlockDevice: No driver loaded.''"

text \<open>
  Both operations record the request as a read.  The counter is an \<^verbatim>\<open>s64\<close>, whose overflow is
  undefined.
\<close>

definition device_async ::
    "(blk_heap \<Rightarrow> u64) \<Rightarrow> bool \<Rightarrow> u64 \<Rightarrow> u64 \<Rightarrow> u64 \<Rightarrow> BlockDevice \<Rightarrow> (BlockDevice \<times> unit error_or) exec" where
  "device_async alloc is_write buffer sz offset dev =
     (case blk_driver dev of None \<Rightarrow> Inr (dev, Inl no_driver)
      | Some drv \<Rightarrow>
          let request_id = blk_next_request_id dev in
          if request_id = 0x7FFFFFFFFFFFFFFF then Inl IntegerOverflow
          else
            let request = \<lparr>ar_id = request_id, ar_buffer = buffer, ar_size = sz, ar_offset = offset, ar_write = False\<rparr>;
                dev = dev\<lparr>blk_next_request_id := request_id + 1, blk_requests := blk_requests dev @ [request]\<rparr>
            in exec_bind (driver_async alloc is_write request_id buffer sz offset drv) (\<lambda>(drv, r).
                 Inr (dev\<lparr>blk_driver := Some drv\<rparr>, r)))"

definition device_poll ::
    "(blk_heap \<Rightarrow> u64) \<Rightarrow> (nat \<Rightarrow> u8) \<Rightarrow> bool \<Rightarrow> u64 \<Rightarrow> u64 \<Rightarrow> u64 \<Rightarrow> BlockDevice \<Rightarrow> (BlockDevice \<times> unit error_or) run" where
  "device_poll alloc poll is_write buffer sz offset dev =
     (case blk_driver dev of None \<Rightarrow> Some (Inr (dev, Inl no_driver))
      | Some drv \<Rightarrow> run_bind (driver_poll alloc poll is_write buffer sz offset drv) (\<lambda>(drv, r).
          Some (Inr (dev\<lparr>blk_driver := Some drv\<rparr>, r))))"

text \<open>
  The callbacks an interrupt makes, in order: the request and whether \<^verbatim>\<open>on_success\<close> or \<^verbatim>\<open>on_failure\<close> is called.
\<close>

type_synonym callback = "BlockDeviceAsyncRequest \<times> bool"

definition callbacks_of :: "BlockDeviceAsyncRequest list \<Rightarrow> async_result list \<Rightarrow> callback list" where
  "callbacks_of requests results = concat (map (\<lambda>(i, t).
     case List.find (\<lambda>r. ar_id r = i) requests of None \<Rightarrow> [] | Some r \<Rightarrow> [(r, t = Ok)]) results)"

definition block_handle_interrupt :: "BlockDevice \<Rightarrow> (BlockDevice \<times> callback list \<times> unit error_or) run" where
  "block_handle_interrupt dev =
     (case blk_driver dev of None \<Rightarrow> Some (Inr (dev, [], Inl no_driver))
      | Some drv \<Rightarrow> run_bind (driver_notify drv) (\<lambda>(drv, results).
          Some (Inr (dev\<lparr>blk_driver := Some drv\<rparr>, callbacks_of (blk_requests dev) results, Inr ()))))"

section \<open>Requests in flight\<close>

definition dq :: "VirtIODevice \<Rightarrow> VirtQueue" where
  "dq d = snd (m_virt_queues d ! 0)"

definition queue_ok :: "VirtQueue \<Rightarrow> bool" where
  "queue_ok q \<longleftrightarrow> length (vq_descriptors q) = 128 \<and> length (va_ring (vq_available q)) = 128 \<and> length (vu_ring (vq_used q)) = 128"

text \<open>A device with one queue, whose next descriptor is number \<^verbatim>\<open>i\<close> and whose next used element is number \<^verbatim>\<open>a\<close>.\<close>

definition dev_ready :: "VirtIODevice \<Rightarrow> nat \<Rightarrow> nat \<Rightarrow> bool" where
  "dev_ready d i a \<longleftrightarrow> m_selected_queue d = 0 \<and> length (m_virt_queues d) = 1 \<and> queue_ok (dq d) \<and>
     m_queue_indexes d = [of_nat i] \<and> i < 128 \<and> m_queue_acks d = [of_nat a] \<and> a < 128"

text \<open>The device with another queue and another next descriptor.\<close>

definition with_queue :: "VirtIODevice \<Rightarrow> VirtQueue \<Rightarrow> nat \<Rightarrow> VirtIODevice" where
  "with_queue d q i = d\<lparr>m_virt_queues := [(fst (m_virt_queues d ! 0), q)], m_queue_indexes := [of_nat i]\<rparr>"

lemma with_queue_simps [simp]:
  "dq (with_queue d q i) = q" "with_queue (with_queue d q i) q' i' = with_queue d q' i'"
  "m_bus (with_queue d q i) = m_bus d" "m_mmio_device (with_queue d q i) = m_mmio_device d"
  "m_selected_queue (with_queue d q i) = m_selected_queue d" "m_queue_acks (with_queue d q i) = m_queue_acks d"
  by (simp_all add: with_queue_def dq_def)

lemma dev_ready_with_queue:
  "dev_ready d i a \<Longrightarrow> queue_ok q \<Longrightarrow> j < 128 \<Longrightarrow> dev_ready (with_queue d q j) j a"
  by (simp add: dev_ready_def with_queue_def dq_def)

lemma ring_succ:
  fixes i :: nat
  assumes "i < 128"
  shows "(of_nat i + 1) mod of_nat VIRTIO_RING_SIZE = (of_nat (Suc i mod 128) :: u64)"
proof -
  have i: "unat (of_nat i + 1 :: u64) = Suc i" using assms by (simp add: unat_word_ariths unat_of_nat_small)
  have "unat ((of_nat i + 1 :: u64) mod 128) = unat (of_nat (Suc i mod 128) :: u64)"
    unfolding unat_mod_distrib i by (simp add: unat_of_nat_small)
  then show ?thesis by (simp add: VIRTIO_RING_SIZE_def word_unat_eq_iff)
qed

definition stored_descriptor :: "VirtQueueDescriptor \<Rightarrow> nat \<Rightarrow> VirtQueueDescriptor" where
  "stored_descriptor v i = (if vd_flags v AND descriptor_flag Next \<noteq> 0 then v\<lparr>vd_next := of_nat (Suc i mod 128)\<rparr> else v)"

lemma add_to_queue_ready:
  assumes "dev_ready d i a"
  shows "add_to_queue v d =
    Inr (with_queue d (dq d\<lparr>vq_descriptors := (vq_descriptors (dq d))[i := stored_descriptor v i]\<rparr>) (Suc i mod 128), Inr (of_nat i))"
proof -
  obtain p q where pq: "m_virt_queues d = [(p, q)]"
    using assms by (cases "m_virt_queues d") (auto simp: dev_ready_def)
  have i: "i < 128" "unat (of_nat i :: u64) = i" "ucast (of_nat i :: u64) = (of_nat i :: u32)"
    "ucast (of_nat (Suc i mod 128) :: u64) = (of_nat (Suc i mod 128) :: u16)"
    using assms by (simp_all add: dev_ready_def unat_of_nat_small ucast_of_nat_small)
  show ?thesis
    using assms i ring_succ [OF i(1)]
    by (simp add: dev_ready_def pq dq_def add_to_queue_def selected_def get_next_queue_index_def array_at_def put_descriptor_def
        VIRTIO_RING_SIZE_def set_selected_def with_queue_def stored_descriptor_def Let_def)
qed

lemma add_to_available_ready:
  assumes "dev_ready d i a"
  shows "add_to_available h d = Inr (with_queue d (dq d\<lparr>vq_available := vq_available (dq d)
      \<lparr>va_ring := (va_ring (vq_available (dq d)))[unat (va_index (vq_available (dq d))) mod 128 := ucast h],
       va_index := va_index (vq_available (dq d)) + 1\<rparr>\<rparr>) i)"
proof -
  obtain p q where pq: "m_virt_queues d = [(p, q)]"
    using assms by (cases "m_virt_queues d") (auto simp: dev_ready_def)
  show ?thesis using assms
    by (simp add: dev_ready_def pq dq_def add_to_available_def selected_def VIRTIO_RING_SIZE_def set_selected_def with_queue_def Let_def)
qed

record BlkOp =
  op_id :: u64
  op_buffer :: u64
  op_size :: u64
  op_offset :: u64
  op_write :: bool

text \<open>The three descriptors of an operation whose request is at \<^verbatim>\<open>r\<close>.\<close>

definition op_descriptor :: "u64 \<Rightarrow> BlkOp \<Rightarrow> nat \<Rightarrow> VirtQueueDescriptor" where
  "op_descriptor r op t =
     (if t = 0 then \<lparr>vd_address = r + header_offset, vd_length = sizeof_header, vd_flags = descriptor_flag Next, vd_next = 0\<rparr>
      else if t = 1 then \<lparr>vd_address = op_buffer op, vd_length = ucast (op_size op),
        vd_flags = descriptor_flag Next OR (if \<not> op_write op then descriptor_flag Write else 0), vd_next = 0\<rparr>
      else \<lparr>vd_address = r + status_offset, vd_length = sizeof_status, vd_flags = descriptor_flag Write, vd_next = 0\<rparr>)"

definition op_request :: "BlkOp \<Rightarrow> BlkRequest" where
  "op_request op = blk_request (op_id op) (op_buffer op) (op_offset op) (op_write op)"

definition queue_after :: "VirtQueue \<Rightarrow> nat \<Rightarrow> u64 \<Rightarrow> BlkOp \<Rightarrow> VirtQueue" where
  "queue_after q i r op =
     (let put = (\<lambda>t ds. ds[(i + t) mod 128 := stored_descriptor (op_descriptor r op t) ((i + t) mod 128)]); a = vq_available q
      in q\<lparr>vq_descriptors := put 2 (put 1 (put 0 (vq_descriptors q))),
           vq_available := a\<lparr>va_ring := (va_ring a)[unat (va_index a) mod 128 := of_nat i], va_index := va_index a + 1\<rparr>\<rparr>)"

definition issue :: "(blk_heap \<Rightarrow> u64) \<Rightarrow> BlkOp \<Rightarrow> BlockIODriver \<Rightarrow> (BlockIODriver \<times> u64 error_or) exec" where
  "issue alloc op drv = block_operation alloc (op_id op) (op_buffer op) (op_size op) (op_offset op) (op_write op) drv"

lemma queue_ok_after: "queue_ok q \<Longrightarrow> queue_ok (queue_after q i r op)"
  by (simp add: queue_ok_def queue_after_def Let_def)

lemma issue_ready:
  assumes "dev_ready (bd_device drv) i a" "op_size op mod 512 = 0"
    and r: "r = alloc (bd_heap drv)"
  shows "issue alloc op drv = Inr (drv\<lparr>
     bd_heap := (bd_heap drv)(r \<mapsto> op_request op),
     bd_device := virtio_notify (with_queue (bd_device drv) (queue_after (dq (bd_device drv)) i r op) ((i + 3) mod 128))\<rparr>, Inr r)"
proof -
  let ?d = "bd_device drv"
  have i: "i < 128" "ucast (of_nat i :: u32) = (of_nat i :: u16)" and ok: "queue_ok (dq ?d)"
    using assms(1) by (simp_all add: dev_ready_def ucast_of_nat_small)
  have put: "dev_ready (with_queue ?d (dq ?d\<lparr>vq_descriptors := ds\<rparr>) j) j a" if "length ds = 128" "j < 128" for ds j
    using ok that by (intro dev_ready_with_queue [OF assms(1)]) (simp_all add: queue_ok_def)
  have l: "length (vq_descriptors (dq ?d)) = 128" using ok by (simp add: queue_ok_def)
  have m: "i + 3 = Suc (Suc (Suc i))" "i + 2 = Suc (Suc i)" "i + 1 = Suc i" by simp_all
  note steps = add_to_queue_ready [OF assms(1)] add_to_queue_ready [OF put] add_to_available_ready [OF put]
  show ?thesis
    using assms(2)
    by (simp add: issue_def block_operation_def Let_def r [symmetric] steps l i mod_Suc_eq m
        op_descriptor_def queue_after_def op_request_def)
qed

lemma issue_keeps_ready:
  assumes "dev_ready d i a"
  shows "dev_ready (virtio_notify (with_queue d (queue_after (dq d) i r op) ((i + 3) mod 128))) ((i + 3) mod 128) a"
proof -
  have "dev_ready (with_queue d (queue_after (dq d) i r op) ((i + 3) mod 128)) ((i + 3) mod 128) a"
    using assms by (intro dev_ready_with_queue [OF assms] queue_ok_after) (simp_all add: dev_ready_def)
  then show ?thesis by (simp add: virtio_notify_def on_bus_def dev_ready_def dq_def)
qed

text \<open>A sequence of operations, and the addresses of their requests.\<close>

fun issue_all :: "(blk_heap \<Rightarrow> u64) \<Rightarrow> BlkOp list \<Rightarrow> BlockIODriver \<Rightarrow> (BlockIODriver \<times> u64 error_or list) exec" where
  "issue_all alloc [] drv = Inr (drv, [])"
| "issue_all alloc (op # ops) drv =
     exec_bind (issue alloc op drv) (\<lambda>(drv, r). exec_bind (issue_all alloc ops drv) (\<lambda>(drv, rs). Inr (drv, r # rs)))"

lemma issue_all_snoc:
  "issue_all alloc (ops @ [op]) drv =
     exec_bind (issue_all alloc ops drv) (\<lambda>(drv, rs). exec_bind (issue alloc op drv) (\<lambda>(drv, r). Inr (drv, rs @ [r])))"
  by (induction ops arbitrary: drv) (auto simp: exec_bind_def split: sum.splits)

text \<open>Position \<^verbatim>\<open>p\<close> counts descriptors from the first one on; the last 128 positions are in the ring.\<close>

definition placed :: "'a list \<Rightarrow> nat \<Rightarrow> (nat \<Rightarrow> 'a) \<Rightarrow> nat \<Rightarrow> bool" where
  "placed ring i f m \<longleftrightarrow> length ring = 128 \<and> (\<forall>p. p < m \<and> m \<le> p + 128 \<longrightarrow> ring ! ((i + p) mod 128) = f p)"

lemma mod_128_distinct:
  fixes i p m :: nat
  assumes "p < m" "m < p + 128"
  shows "(i + p) mod 128 \<noteq> (i + m) mod 128"
proof
  assume "(i + p) mod 128 = (i + m) mod 128"
  then have "128 dvd (i + m) - (i + p)" by (metis mod_eq_dvd_iff_nat assms(1) add_le_cancel_left less_imp_le_nat)
  then have "128 dvd m - p" by simp
  then show False using assms by (auto dest: dvd_imp_le)
qed

lemma placed_put:
  assumes "placed ring i f m"
  shows "placed (ring[(i + m) mod 128 := f m]) i f (Suc m)"
  unfolding placed_def
proof (intro conjI allI impI)
  fix p assume p: "p < Suc m \<and> Suc m \<le> p + 128"
  show "ring[(i + m) mod 128 := f m] ! ((i + p) mod 128) = f p"
  proof (cases "p = m")
    case False
    then show ?thesis using p assms mod_128_distinct [of p m i] by (simp add: placed_def)
  qed (use assms in \<open>simp add: placed_def\<close>)
qed (use assms in \<open>simp add: placed_def\<close>)

lemma placedD: "placed ring i f m \<Longrightarrow> p < m \<Longrightarrow> m \<le> p + 128 \<Longrightarrow> ring ! ((i + p) mod 128) = f p"
  by (simp add: placed_def)

lemma placed_cong: "placed ring i f m \<Longrightarrow> (\<And>p. p < m \<Longrightarrow> f p = g p) \<Longrightarrow> placed ring i g m"
  by (simp add: placed_def)

definition descriptor_at :: "nat \<Rightarrow> u64 list \<Rightarrow> BlkOp list \<Rightarrow> nat \<Rightarrow> VirtQueueDescriptor" where
  "descriptor_at i rs ops p = stored_descriptor (op_descriptor (rs ! (p div 3)) (ops ! (p div 3)) (p mod 3)) ((i + p) mod 128)"

definition head_at :: "nat \<Rightarrow> nat \<Rightarrow> u16" where
  "head_at i j = of_nat ((i + 3 * j) mod 128)"

lemma queue_after_placed:
  assumes "placed (vq_descriptors q) i (descriptor_at i rs ops) (3 * length ops)" "length rs = length ops"
  shows "placed (vq_descriptors (queue_after q ((i + 3 * length ops) mod 128) r op)) i
           (descriptor_at i (rs @ [r]) (ops @ [op])) (3 * length (ops @ [op]))"
proof -
  let ?n = "3 * length ops" and ?f = "descriptor_at i (rs @ [r]) (ops @ [op])"
  have f: "?f (?n + t) = stored_descriptor (op_descriptor r op t) ((i + (?n + t)) mod 128)" if "t < 3" for t
    using that assms(2) by (simp add: descriptor_at_def nth_append)
  have "placed (vq_descriptors q) i ?f ?n"
    by (rule placed_cong [OF assms(1)]) (use assms(2) in \<open>simp add: descriptor_at_def nth_append less_mult_imp_div_less\<close>)
  then have "placed ((vq_descriptors q)[(i + ?n) mod 128 := ?f ?n, (i + Suc ?n) mod 128 := ?f (Suc ?n),
      (i + Suc (Suc ?n)) mod 128 := ?f (Suc (Suc ?n))]) i ?f (Suc (Suc (Suc ?n)))"
    by (intro placed_put)
  moreover have "vq_descriptors (queue_after q ((i + ?n) mod 128) r op) =
      (vq_descriptors q)[(i + ?n) mod 128 := ?f ?n, (i + Suc ?n) mod 128 := ?f (Suc ?n), (i + Suc (Suc ?n)) mod 128 := ?f (Suc (Suc ?n))]"
    using f [of 0] f [of 1] f [of 2] by (simp add: queue_after_def Let_def mod_simps add.assoc)
  ultimately show ?thesis by (simp add: numeral_3_eq_3)
qed

lemma avail_after_placed:
  assumes "placed (va_ring (vq_available q)) a (head_at i) n" "va_index (vq_available q) = ai + of_nat n" "unat ai = a"
  shows "placed (va_ring (vq_available (queue_after q ((i + 3 * n) mod 128) r op))) a (head_at i) (Suc n)"
proof -
  have "unat (ai + of_nat n) mod 128 = (a + n) mod 128"
  proof -
    have "unat (ai + of_nat n) = (a + n) mod 2 ^ 16" using assms(3) by (simp add: unat_word_ariths unat_of_nat mod_simps take_bit_eq_mod)
    then show ?thesis by (simp add: mod_mod_cancel)
  qed
  then show ?thesis using placed_put [OF assms(1)] assms(2) by (simp add: queue_after_def Let_def head_at_def)
qed

text \<open>
  What the device finds when it follows the chain of descriptors from one on: address, length
  and whether it may write there.
\<close>

fun chain :: "VirtQueue \<Rightarrow> nat \<Rightarrow> nat \<Rightarrow> (u64 \<times> u32 \<times> bool) list" where
  "chain q 0 i = []"
| "chain q (Suc n) i =
     (let v = vq_descriptors q ! i in
      (vd_address v, vd_length v, vd_flags v AND descriptor_flag Write \<noteq> 0) #
      (if vd_flags v AND descriptor_flag Next \<noteq> 0 then chain q n (unat (vd_next v)) else []))"

definition op_chain :: "u64 \<Rightarrow> BlkOp \<Rightarrow> (u64 \<times> u32 \<times> bool) list" where
  "op_chain r op = [(r, 16, False), (op_buffer op, ucast (op_size op), \<not> op_write op), (r + 24, 1, True)]"

lemma chain_of_placed:
  assumes "placed (vq_descriptors q) i (descriptor_at i rs ops) m" "3 * j + 3 \<le> m" "m \<le> 3 * j + 128" "3 \<le> n"
  shows "chain q n ((i + 3 * j) mod 128) = op_chain (rs ! j) (ops ! j)"
proof -
  have at: "vq_descriptors q ! ((i + (3 * j + t)) mod 128) = stored_descriptor (op_descriptor (rs ! j) (ops ! j) t) ((i + (3 * j + t)) mod 128)"
    if "t < 3" for t
    using assms(1-3) that by (auto simp: placed_def descriptor_at_def)
  have nxt: "unat (of_nat (Suc (x mod 128) mod 128) :: u16) = Suc x mod 128" for x
    by (simp add: unat_of_nat_small mod_Suc_eq)
  obtain k where k: "n = Suc (Suc (Suc k))" using assms(4) by (metis le_Suc_ex numeral_3_eq_3 plus_nat.simps)
  show ?thesis
    using at [of 0] at [of 1] at [of 2]
    by (simp add: k op_chain_def op_descriptor_def stored_descriptor_def nxt header_offset_def status_offset_def
        sizeof_header_def sizeof_status_def Let_def)
qed


text \<open>The number of the next operation is the length of the list of those issued.\<close>

definition in_flight :: "nat \<Rightarrow> nat \<Rightarrow> BlockIODriver \<Rightarrow> BlkOp list \<Rightarrow> BlockIODriver \<Rightarrow> u64 list \<Rightarrow> bool" where
  "in_flight i a drv ops drv' rs \<longleftrightarrow>
     (let d = bd_device drv; d' = bd_device drv'; n = length ops; ai = va_index (vq_available (dq d)) in
      dev_ready d' ((i + 3 * n) mod 128) a \<and> length rs = n \<and> distinct rs \<and> set rs \<inter> dom (bd_heap drv) = {} \<and>
      bd_heap drv' = bd_heap drv ++ map_of (zip rs (map op_request ops)) \<and>
      placed (vq_descriptors (dq d')) i (descriptor_at i rs ops) (3 * n) \<and>
      placed (va_ring (vq_available (dq d'))) (unat ai) (head_at i) n \<and>
      va_index (vq_available (dq d')) = ai + of_nat n \<and> vq_used (dq d') = vq_used (dq d) \<and>
      m_mmio_device d' = m_mmio_device d \<and>
      m_bus d' = m_bus d @ replicate n (m_mmio_device d + 0x50, 0) \<and> bd_ignored_requests drv' = bd_ignored_requests drv)"

definition fresh_below :: "(blk_heap \<Rightarrow> u64) \<Rightarrow> nat \<Rightarrow> bool" where
  "fresh_below alloc limit \<longleftrightarrow> (\<forall>h. card (dom h) < limit \<longrightarrow> h (alloc h) = None)"

lemma issue_in_flight:
  assumes "in_flight i a drv ops drv' rs" "op_size op mod 512 = 0" "fresh_below alloc limit"
    "card (dom (bd_heap drv)) + length ops < limit"
  shows "\<exists>drv'' r. issue alloc op drv' = Inr (drv'', Inr r) \<and> in_flight i a drv (ops @ [op]) drv'' (rs @ [r])"
proof -
  let ?d' = "bd_device drv'" and ?n = "length ops" and ?r = "alloc (bd_heap drv')"
  note h = assms(1) [unfolded in_flight_def Let_def]
  have dom: "dom (bd_heap drv') = dom (bd_heap drv) \<union> set rs" using h by (auto simp: dom_map_of_zip)
  have "card (dom (bd_heap drv')) \<le> card (dom (bd_heap drv)) + ?n"
    unfolding dom using h card_Un_le [of "dom (bd_heap drv)" "set rs"] card_length [of rs] by linarith
  then have "bd_heap drv' ?r = None" using assms(3,4) by (simp add: fresh_below_def)
  then have fresh: "?r \<notin> dom (bd_heap drv) \<union> set rs" unfolding dom [symmetric] by auto
  let ?drv = "drv'\<lparr>bd_heap := (bd_heap drv')(?r \<mapsto> op_request op),
    bd_device := virtio_notify (with_queue ?d' (queue_after (dq ?d') ((i + 3 * ?n) mod 128) ?r op) (((i + 3 * ?n) mod 128 + 3) mod 128))\<rparr>"
  have ready: "dev_ready ?d' ((i + 3 * ?n) mod 128) a" using h by simp
  have i: "((i + 3 * ?n) mod 128 + 3) mod 128 = (i + 3 * length (ops @ [op])) mod 128" by (simp add: mod_simps algebra_simps)
  have "in_flight i a drv (ops @ [op]) ?drv (rs @ [?r])"
    unfolding in_flight_def Let_def
  proof (intro conjI)
    show "dev_ready (bd_device ?drv) ((i + 3 * length (ops @ [op])) mod 128) a"
    proof -
      have "bd_device ?drv = virtio_notify (with_queue ?d' (queue_after (dq ?d') ((i + 3 * ?n) mod 128) ?r op) (((i + 3 * ?n) mod 128 + 3) mod 128))"
        by simp
      then show ?thesis using issue_keeps_ready [OF ready, of ?r op] unfolding i by (simp only:)
    qed
    show "distinct (rs @ [?r])" "set (rs @ [?r]) \<inter> dom (bd_heap drv) = {}" using h fresh by auto
    show "bd_heap ?drv = bd_heap drv ++ map_of (zip (rs @ [?r]) (map op_request (ops @ [op])))"
      using h fresh by (simp add: map_add_assoc) (auto simp: map_add_def fun_eq_iff split: option.splits dest!: map_of_SomeD set_zip_leftD)
    have "placed (vq_descriptors (dq ?d')) i (descriptor_at i rs ops) (3 * ?n)" "length rs = ?n" using h by simp_all
    from queue_after_placed [OF this]
    show "placed (vq_descriptors (dq (bd_device ?drv))) i (descriptor_at i (rs @ [?r]) (ops @ [op])) (3 * length (ops @ [op]))"
      by (simp add: virtio_notify_def on_bus_def dq_def with_queue_def)
    show "placed (va_ring (vq_available (dq (bd_device ?drv)))) (unat (va_index (vq_available (dq (bd_device drv))))) (head_at i) (length (ops @ [op]))"
      using avail_after_placed [of "dq ?d'" _ i ?n] h by (simp add: virtio_notify_def on_bus_def dq_def with_queue_def)
  qed (use h in \<open>simp_all add: virtio_notify_def on_bus_def dq_def with_queue_def queue_after_def Let_def set_queue_notify_def
      set_register_value_def replicate_append_same dev_ready_def\<close>)
  then show ?thesis using issue_ready [OF ready assms(2) refl] by blast
qed


lemma issue_all_in_flight:
  assumes "dev_ready (bd_device drv) i a" "\<forall>op \<in> set ops. op_size op mod 512 = 0" "fresh_below alloc limit"
    "card (dom (bd_heap drv)) + length ops \<le> limit"
  shows "\<exists>drv' rs. issue_all alloc ops drv = Inr (drv', map Inr rs) \<and> in_flight i a drv ops drv' rs"
  using assms(2,4)
proof (induction ops rule: rev_induct)
  case Nil
  have "in_flight i a drv [] drv []" using assms(1) by (simp add: in_flight_def placed_def dev_ready_def queue_ok_def)
  then show ?case by auto
next
  case (snoc op ops)
  then obtain drv' rs where ih: "issue_all alloc ops drv = Inr (drv', map Inr rs)" "in_flight i a drv ops drv' rs" by auto
  have "op_size op mod 512 = 0" "card (dom (bd_heap drv)) + length ops < limit" using snoc.prems by simp_all
  from issue_in_flight [OF ih(2) this(1) assms(3) this(2)]
  obtain drv'' r where "issue alloc op drv' = Inr (drv'', Inr r)" "in_flight i a drv (ops @ [op]) drv'' (rs @ [r])" by blast
  then show ?case using ih(1) by (intro exI [of _ drv''] exI [of _ "rs @ [r]"]) (simp add: issue_all_snoc)
qed

text \<open>
  C29. The block driver keeps requests apart as long as at most 42 are in flight.  From a device with
  one queue, any sequence of operations on whole sectors succeeds; each gets a fresh request,
  is published in the available ring in order and announced by one write of the notify
  register, and after \<^verbatim>\<open>n\<close> operations the chain of every one of the last 42 is still what the device must
  find: the header of the request, the buffer (writable exactly for a read) and the status byte.
  With 43 operations the first chain is gone: its head now holds the status descriptor of the last one,
  because neither \<^verbatim>\<open>add_to_queue\<close> nor \<^verbatim>\<open>block_operation\<close> looks whether a descriptor is still in use.
  A size that is no multiple of 512 is refused before anything is changed.
\<close>

theorem requests_in_flight:
  assumes "dev_ready (bd_device drv) i a" "\<forall>op \<in> set ops. op_size op mod 512 = 0" "fresh_below alloc limit"
    "card (dom (bd_heap drv)) + length ops \<le> limit"
  shows "\<exists>drv' rs. issue_all alloc ops drv = Inr (drv', map Inr rs) \<and> length rs = length ops \<and> distinct rs \<and>
    dev_ready (bd_device drv') ((i + 3 * length ops) mod 128) a \<and>
    (\<forall>j < length ops. rs ! j \<notin> dom (bd_heap drv) \<and> bd_heap drv' (rs ! j) = Some (op_request (ops ! j)) \<and>
       (length ops \<le> j + 42 \<longrightarrow> chain (dq (bd_device drv')) 128 ((i + 3 * j) mod 128) = op_chain (rs ! j) (ops ! j)) \<and>
       (length ops \<le> j + 128 \<longrightarrow>
          va_ring (vq_available (dq (bd_device drv'))) ! ((unat (va_index (vq_available (dq (bd_device drv)))) + j) mod 128) = head_at i j)) \<and>
    va_index (vq_available (dq (bd_device drv'))) = va_index (vq_available (dq (bd_device drv))) + of_nat (length ops) \<and>
    m_bus (bd_device drv') = m_bus (bd_device drv) @ replicate (length ops) (m_mmio_device (bd_device drv) + 0x50, 0) \<and>
    (length ops = 43 \<longrightarrow> chain (dq (bd_device drv')) 128 i = [(rs ! 42 + 24, 1, True)]) \<and>
    (op_size op mod 512 \<noteq> 0 \<longrightarrow> issue alloc op drv =
       Inr (drv, Inl (create_from_string ''BlockIODriver: Size must be a multiple of 512 bytes.'')))"
proof -
  obtain drv' rs where run: "issue_all alloc ops drv = Inr (drv', map Inr rs)" and "in_flight i a drv ops drv' rs"
    using issue_all_in_flight [OF assms] by blast
  note h = this(2) [unfolded in_flight_def Let_def]
  let ?q = "dq (bd_device drv')"
  have heap: "rs ! j \<notin> dom (bd_heap drv) \<and> bd_heap drv' (rs ! j) = Some (op_request (ops ! j))" if "j < length ops" for j
    using h that by (auto simp: map_add_def map_of_zip_nth disjoint_iff)
  have chains: "chain ?q 128 ((i + 3 * j) mod 128) = op_chain (rs ! j) (ops ! j)" if "j < length ops" "length ops \<le> j + 42" for j
    using h that by (intro chain_of_placed [where m = "3 * length ops"]) auto
  have ring: "va_ring (vq_available ?q) ! ((unat (va_index (vq_available (dq (bd_device drv)))) + j) mod 128) = head_at i j"
    if "j < length ops" "length ops \<le> j + 128" for j using h that by (simp add: placed_def)
  have "chain ?q 128 i = [(rs ! 42 + 24, 1, True)]" if n: "length ops = 43"
  proof -
    have "placed (vq_descriptors ?q) i (descriptor_at i rs ops) 129" using h n by simp
    then have "vq_descriptors ?q ! ((i + 128) mod 128) = descriptor_at i rs ops 128" by (rule placedD) simp_all
    moreover have "i < 128" using assms(1) by (simp add: dev_ready_def)
    ultimately have "vq_descriptors ?q ! i = \<lparr>vd_address = rs ! 42 + 24, vd_length = 1, vd_flags = 2, vd_next = 0\<rparr>"
      by (simp add: descriptor_at_def stored_descriptor_def op_descriptor_def status_offset_def sizeof_status_def)
    then show ?thesis by (simp add: numeral_nat Let_def)
  qed
  moreover have "issue alloc op drv = Inr (drv, Inl (create_from_string ''BlockIODriver: Size must be a multiple of 512 bytes.''))"
    if "op_size op mod 512 \<noteq> 0" using that by (simp add: issue_def block_operation_def)
  ultimately show ?thesis using run h heap chains ring by (intro exI [of _ drv'] exI [of _ rs]) blast
qed

section \<open>Completions\<close>

definition used_count :: "BlockIODriver \<Rightarrow> nat" where
  "used_count drv = unat (vu_index (vq_used (dq (bd_device drv))))"

text \<open>The number of the descriptor the \<^verbatim>\<open>k\<close>-th used element names, and the request it belongs to.\<close>

definition used_id :: "BlockIODriver \<Rightarrow> nat \<Rightarrow> nat" where
  "used_id drv k = unat (ue_id (vu_ring (vq_used (dq (bd_device drv))) ! k))"

definition used_request :: "BlockIODriver \<Rightarrow> nat \<Rightarrow> u64" where
  "used_request drv k = vd_address (vq_descriptors (dq (bd_device drv)) ! used_id drv k)"

definition pending :: "BlockIODriver \<Rightarrow> nat \<Rightarrow> u64 list" where
  "pending drv a = map (used_request drv) [a..<used_count drv]"

definition request_result :: "BlkRequest \<Rightarrow> async_result" where
  "request_result r = (rq_id r, if rq_status r = 0 then Ok else FailedRequest)"

definition pending_results :: "BlockIODriver \<Rightarrow> nat \<Rightarrow> async_result list" where
  "pending_results drv a = map (\<lambda>r. request_result (the (bd_heap drv r)))
     (filter (\<lambda>r. r \<notin> set (bd_ignored_requests drv)) (pending drv a))"

definition completions_ok :: "BlockIODriver \<Rightarrow> nat \<Rightarrow> bool" where
  "completions_ok drv a \<longleftrightarrow> a \<le> used_count drv \<and> used_count drv < 128 \<and> distinct (bd_ignored_requests drv) \<and>
     distinct (pending drv a) \<and> set (pending drv a) \<subseteq> dom (bd_heap drv) \<and>
     (\<forall>k. a \<le> k \<and> k < used_count drv \<longrightarrow> used_id drv k < 128)"

lemma get_next_used_ready:
  assumes "dev_ready d i a"
  shows "get_next_used_descriptor d =
    (if a = unat (vu_index (vq_used (dq d))) then Inr (d, Inl (create_from_string ''No used descriptor available.''))
     else Inr (d\<lparr>m_queue_acks := [of_nat (Suc a mod 128)]\<rparr>, Inr (ue_id (vu_ring (vq_used (dq d)) ! a))))"
proof -
  obtain p q where pq: "m_virt_queues d = [(p, q)]"
    using assms by (cases "m_virt_queues d") (auto simp: dev_ready_def)
  have a: "a < 128" using assms by (simp add: dev_ready_def)
  have "unat (vu_index (vq_used q)) < 2 ^ 16" using unsigned_less [of "vu_index (vq_used q)", where ?'a = nat] by simp
  then have "(of_nat a = (ucast (vu_index (vq_used q)) :: u64)) = (a = unat (vu_index (vq_used q)))"
    using of_nat_u64_inj [of a "unat (vu_index (vq_used q))"] a by simp
  then show ?thesis using assms a ring_succ [OF a]
    by (simp add: dev_ready_def pq dq_def get_next_used_descriptor_def selected_def array_at_def VIRTIO_RING_SIZE_def unat_of_nat_small Let_def)
qed

text \<open>One round of \<^verbatim>\<open>notify\<close> on a used element whose request lives.\<close>

definition after_round :: "BlockIODriver \<Rightarrow> nat \<Rightarrow> BlockIODriver" where
  "after_round drv a =
     (let d = bd_device drv; q = dq d; h = used_id drv a; r = used_request drv a in
      drv\<lparr>bd_device := d\<lparr>m_queue_acks := [of_nat (Suc a mod 128)],
            m_virt_queues := [(fst (m_virt_queues d ! 0), q\<lparr>vq_descriptors := (vq_descriptors q)[h := (vq_descriptors q ! h)\<lparr>vd_address := 0\<rparr>]\<rparr>)]\<rparr>,
          bd_heap := (bd_heap drv)(r := None), bd_ignored_requests := remove1 r (bd_ignored_requests drv)\<rparr>)"

lemma notify_step_round:
  assumes "dev_ready (bd_device drv) i a" "a \<noteq> used_count drv" "used_id drv a < 128" "bd_heap drv (used_request drv a) = Some rq"
  shows "notify_step drv = Inr (Some (after_round drv a,
    if used_request drv a \<in> set (bd_ignored_requests drv) then [] else [request_result rq]))"
proof -
  let ?d = "bd_device drv"
  obtain p q where pq: "m_virt_queues ?d = [(p, q)]"
    using assms(1) by (cases "m_virt_queues ?d") (auto simp: dev_ready_def)
  have id: "unat (ucast (ue_id (vu_ring (vq_used q) ! a)) :: u64) = used_id drv a" "used_id drv a = unat (ue_id (vu_ring (vq_used q) ! a))"
    by (simp_all add: used_id_def pq dq_def unat_ucast_up)
  have d: "get_next_used_descriptor ?d = Inr (?d\<lparr>m_queue_acks := [of_nat (Suc a mod 128)]\<rparr>, Inr (ue_id (vu_ring (vq_used q) ! a)))"
    using assms(2) get_next_used_ready [OF assms(1)] by (simp add: used_count_def dq_def pq)
  have s: "m_selected_queue ?d = 0" using assms(1) by (simp add: dev_ready_def)
  have r: "used_request drv a = vd_address (vq_descriptors q ! unat (ue_id (vu_ring (vq_used q) ! a)))"
    by (simp add: used_request_def id(2) dq_def pq)
  show ?thesis
    using assms(3,4) unfolding r id(2)
    by (simp add: notify_step_def d descriptor_address_def selected_def s pq VIRTIO_RING_SIZE_def live_request_def clear_address_def
        put_descriptor_def id(1)[unfolded id(2)] set_selected_def after_round_def Let_def request_result_def dq_def
        r id(2) remove1_idem)
qed

lemma notify_step_idle:
  assumes "dev_ready (bd_device drv) i (used_count drv)"
  shows "notify_step drv = Inr None"
  using get_next_used_ready [OF assms] by (simp add: notify_step_def used_count_def)

lemma after_round_keeps:
  assumes "dev_ready (bd_device drv) i a"
  shows "dev_ready (bd_device (after_round drv a)) i (Suc a mod 128)" "used_count (after_round drv a) = used_count drv"
    "used_id (after_round drv a) k = used_id drv k"
    "used_id drv k < 128 \<Longrightarrow> used_id drv k \<noteq> used_id drv a \<Longrightarrow> used_request (after_round drv a) k = used_request drv k"
proof -
  obtain p q where pq: "m_virt_queues (bd_device drv) = [(p, q)]"
    using assms by (cases "m_virt_queues (bd_device drv)") (auto simp: dev_ready_def)
  show "dev_ready (bd_device (after_round drv a)) i (Suc a mod 128)"
    using assms by (simp add: dev_ready_def after_round_def Let_def dq_def pq queue_ok_def)
  show c: "used_count (after_round drv a) = used_count drv" "used_id (after_round drv a) k = used_id drv k"
    by (simp_all add: used_count_def used_id_def after_round_def Let_def dq_def pq)
  show "used_request (after_round drv a) k = used_request drv k" if "used_id drv k < 128" "used_id drv k \<noteq> used_id drv a"
    using that unfolding used_request_def c by (simp add: after_round_def Let_def dq_def pq)
qed

lemma notify_step_cases:
  assumes "dev_ready (bd_device drv) i a" "a \<noteq> used_count drv"
  shows "(\<exists>f. notify_step drv = Inl f) \<or> (\<exists>new. notify_step drv = Inr (Some (after_round drv a, new)))"
proof (cases "used_id drv a < 128 \<and> bd_heap drv (used_request drv a) \<noteq> None")
  case True
  then show ?thesis using notify_step_round [OF assms] by auto
next
  case False
  obtain p q where pq: "m_virt_queues (bd_device drv) = [(p, q)]"
    using assms(1) by (cases "m_virt_queues (bd_device drv)") (auto simp: dev_ready_def)
  have s: "m_selected_queue (bd_device drv) = 0" using assms(1) by (simp add: dev_ready_def)
  have "get_next_used_descriptor (bd_device drv) =
      Inr (bd_device drv\<lparr>m_queue_acks := [of_nat (Suc a mod 128)]\<rparr>, Inr (ue_id (vu_ring (vq_used q) ! a)))"
    using assms(2) get_next_used_ready [OF assms(1)] by (simp add: used_count_def dq_def pq)
  moreover have "used_id drv a = unat (ue_id (vu_ring (vq_used q) ! a))" by (simp add: used_id_def pq dq_def)
  ultimately have "\<exists>f. notify_step drv = Inl f" using False
    by (auto simp: notify_step_def descriptor_address_def selected_def s pq VIRTIO_RING_SIZE_def live_request_def used_request_def dq_def
        split: option.splits)
  then show ?thesis ..
qed

lemma pending_round:
  assumes "dev_ready (bd_device drv) i a" "completions_ok drv a" "a < used_count drv"
  shows "pending drv a = used_request drv a # pending (after_round drv a) (Suc a)"
    "completions_ok (after_round drv a) (Suc a)" "bd_heap drv (used_request drv a) \<noteq> None"
proof -
  note keeps = after_round_keeps [OF assms(1)]
  have upt: "[a..<used_count drv] = a # [Suc a..<used_count drv]" using assms(3) by (rule upt_conv_Cons)
  have ids: "used_id drv k < 128" if "a \<le> k" "k < used_count drv" for k using assms(2) that by (simp add: completions_ok_def)
  have "used_request drv a \<notin> used_request drv ` {Suc a..<used_count drv}"
    using assms(2) by (simp add: completions_ok_def pending_def upt)
  then have "used_request drv k \<noteq> used_request drv a" if "Suc a \<le> k" "k < used_count drv" for k
    using that by (metis atLeastLessThan_iff imageI)
  then have "used_id drv k \<noteq> used_id drv a" if "Suc a \<le> k" "k < used_count drv" for k
    using that unfolding used_request_def by metis
  then have "pending (after_round drv a) (Suc a) = map (used_request drv) [Suc a..<used_count drv]"
    using ids keeps(4) by (simp add: pending_def keeps(2))
  then show p: "pending drv a = used_request drv a # pending (after_round drv a) (Suc a)" by (simp add: pending_def upt)
  show "bd_heap drv (used_request drv a) \<noteq> None" using assms(2) p by (auto simp: completions_ok_def)
  show "completions_ok (after_round drv a) (Suc a)"
    using assms(2,3) p ids unfolding completions_ok_def keeps(2,3) by (auto simp: after_round_def Let_def distinct_remove1)
qed

lemma notify_loop_ok:
  assumes "dev_ready (bd_device drv) i a" "completions_ok drv a"
  shows "\<exists>drv'. notify_loop drv results = Some (Inr (drv', results @ pending_results drv a)) \<and>
    dev_ready (bd_device drv') i (used_count drv) \<and> used_count drv' = used_count drv \<and>
    bd_heap drv' = bd_heap drv |` (- set (pending drv a)) \<and>
    bd_ignored_requests drv' = filter (\<lambda>r. r \<notin> set (pending drv a)) (bd_ignored_requests drv)"
  using assms
proof (induction "used_count drv - a" arbitrary: drv a results)
  case 0
  then have "a = used_count drv" by (simp add: completions_ok_def)
  then show ?case using notify_step_idle [of drv i] 0 by (subst notify_loop.simps) (simp add: pending_results_def pending_def restrict_map_def)
next
  case (Suc n)
  let ?drv = "after_round drv a" and ?r = "used_request drv a"
  have a: "a < used_count drv" "used_count drv < 128" using Suc(2,4) by (simp_all add: completions_ok_def)
  note keeps = after_round_keeps [OF Suc.prems(1)] and p = pending_round [OF Suc.prems a(1)]
  obtain rq where rq: "bd_heap drv ?r = Some rq" using p(3) by auto
  let ?new = "if ?r \<in> set (bd_ignored_requests drv) then [] else [request_result rq]"
  have step: "notify_step drv = Inr (Some (?drv, ?new))"
    using notify_step_round [OF Suc.prems(1) _ _ rq] Suc.prems(2) a by (simp add: completions_ok_def)
  have "dev_ready (bd_device ?drv) i (Suc a)" using keeps(1) a by simp
  moreover have "n = used_count ?drv - Suc a" using Suc.hyps(2) by (simp add: keeps(2))
  ultimately obtain drv' where drv': "notify_loop ?drv (results @ ?new) = Some (Inr (drv', (results @ ?new) @ pending_results ?drv (Suc a)))"
    "dev_ready (bd_device drv') i (used_count drv)" "used_count drv' = used_count drv"
    "bd_heap drv' = bd_heap ?drv |` (- set (pending ?drv (Suc a)))"
    "bd_ignored_requests drv' = filter (\<lambda>r. r \<notin> set (pending ?drv (Suc a))) (bd_ignored_requests ?drv)"
    using Suc.hyps(1) [of ?drv "Suc a"] p(2) keeps(2) by metis
  have d: "distinct (bd_ignored_requests drv)" "distinct (pending drv a)" using Suc.prems(2) by (simp_all add: completions_ok_def)
  have hd: "bd_heap ?drv = (bd_heap drv)(?r := None)" "bd_ignored_requests ?drv = remove1 ?r (bd_ignored_requests drv)"
    by (simp_all add: after_round_def Let_def)
  have "?new @ pending_results ?drv (Suc a) = pending_results drv a"
  proof -
    have "map (\<lambda>r. request_result (the (((bd_heap drv)(?r := None)) r))) (filter (\<lambda>r. r \<notin> set (bd_ignored_requests drv) - {?r}) (pending ?drv (Suc a))) =
        map (\<lambda>r. request_result (the (bd_heap drv r))) (filter (\<lambda>r. r \<notin> set (bd_ignored_requests drv)) (pending ?drv (Suc a)))"
      using d(2) unfolding p(1) by (auto intro!: map_cong filter_cong)
    then show ?thesis using d rq by (auto simp: pending_results_def p(1) hd)
  qed
  moreover have "bd_heap drv' = bd_heap drv |` (- set (pending drv a))"
    unfolding drv'(4) p(1) by (auto simp: after_round_def Let_def restrict_map_def fun_eq_iff)
  moreover have "bd_ignored_requests drv' = filter (\<lambda>r. r \<notin> set (pending drv a)) (bd_ignored_requests drv)"
    unfolding drv'(5) p(1) using d(1)
    by (simp add: hd distinct_remove1_removeAll removeAll_filter_not_eq) (rule filter_cong, auto)
  ultimately show ?case using drv'(1-3) by (subst notify_loop.simps) (simp add: step)
qed

lemma notify_loop_stuck:
  assumes "notify_loop drv results = Some y" "dev_ready (bd_device drv) i a" "128 \<le> used_count drv"
  shows "\<exists>f. y = Inl f"
proof -
  have "(\<exists>i a. dev_ready (bd_device drv) i a) \<and> 128 \<le> used_count drv \<longrightarrow> (\<exists>f. y = Inl f)"
  proof (rule notify_loop.raw_induct [OF _ assms(1), where P = "\<lambda>drv results y.
      (\<exists>i a. dev_ready (bd_device drv) i a) \<and> 128 \<le> used_count drv \<longrightarrow> (\<exists>f. y = Inl f)"], intro impI, elim conjE exE)
    fix loop :: "BlockIODriver \<Rightarrow> async_result list \<Rightarrow> (BlockIODriver \<times> async_result list) run" and drv results y i a
    assume ih: "\<And>drv results y. loop drv results = Some y \<Longrightarrow>
        (\<exists>i a. dev_ready (bd_device drv) i a) \<and> 128 \<le> used_count drv \<longrightarrow> (\<exists>f. y = Inl f)"
      and body: "(case notify_step drv of Inl f \<Rightarrow> Some (Inl f)
         | Inr s \<Rightarrow> (case s of None \<Rightarrow> Some (Inr (drv, results))
            | Some n \<Rightarrow> (case n of (drv', new) \<Rightarrow> loop drv' (results @ new)))) = Some y"
      and prems: "128 \<le> used_count drv" "dev_ready (bd_device drv) i a"
    have "a \<noteq> used_count drv" using prems by (simp add: dev_ready_def)
    with notify_step_cases [OF prems(2)] consider f where "notify_step drv = Inl f"
      | new where "notify_step drv = Inr (Some (after_round drv a, new))" by blast
    then show "\<exists>f. y = Inl f"
    proof cases
      case 2
      then have "loop (after_round drv a) (results @ new) = Some y" using body by simp
      then show ?thesis using ih after_round_keeps [OF prems(2)] prems(1) by metis
    qed (use body in auto)
  qed
  then show ?thesis using assms(2,3) by blast
qed

text \<open>
  C30. \<^verbatim>\<open>BlockIODriver::notify\<close> ends and hands out the results of exactly the completed requests, in the
  order of the used ring, leaving out those issued by polling, frees every completed request once
  and remembers how far it has read, as long as the device has completed fewer
  than 128 requests since it was initialised.  From the 128th completion on it never returns normally, whatever
  the rings hold: the driver counts what it has seen modulo 128 and compares that with the device's
  free-running 16-bit index, so it walks around the ring until it meets a request that is no
  longer there.
\<close>

theorem notify_completes:
  assumes "dev_ready (bd_device drv) i a"
  shows "(completions_ok drv a \<longrightarrow> (\<exists>drv'. driver_notify drv = Some (Inr (drv', pending_results drv a)) \<and>
      dev_ready (bd_device drv') i (used_count drv) \<and> bd_heap drv' = bd_heap drv |` (- set (pending drv a)) \<and>
      bd_ignored_requests drv' = filter (\<lambda>r. r \<notin> set (pending drv a)) (bd_ignored_requests drv) \<and>
      driver_notify drv' = Some (Inr (drv', [])))) \<and>
    (128 \<le> used_count drv \<longrightarrow> driver_notify drv = None \<or> (\<exists>f. driver_notify drv = Some (Inl f)))"
proof (intro conjI impI)
  assume "completions_ok drv a"
  then obtain drv' where drv': "notify_loop drv [] = Some (Inr (drv', [] @ pending_results drv a))"
    "dev_ready (bd_device drv') i (used_count drv)" "used_count drv' = used_count drv"
    "bd_heap drv' = bd_heap drv |` (- set (pending drv a))"
    "bd_ignored_requests drv' = filter (\<lambda>r. r \<notin> set (pending drv a)) (bd_ignored_requests drv)"
    using notify_loop_ok [OF assms] by blast
  have "notify_step drv' = Inr None" using notify_step_idle [of drv' i] drv'(2,3) by simp
  then have "notify_loop drv' [] = Some (Inr (drv', []))" by (subst notify_loop.simps) simp
  then show "\<exists>drv'. driver_notify drv = Some (Inr (drv', pending_results drv a)) \<and>
      dev_ready (bd_device drv') i (used_count drv) \<and> bd_heap drv' = bd_heap drv |` (- set (pending drv a)) \<and>
      bd_ignored_requests drv' = filter (\<lambda>r. r \<notin> set (pending drv a)) (bd_ignored_requests drv) \<and>
      driver_notify drv' = Some (Inr (drv', []))" using drv' by (intro exI [of _ drv']) (simp add: driver_notify_def)
next
  assume "128 \<le> used_count drv"
  then show "driver_notify drv = None \<or> (\<exists>f. driver_notify drv = Some (Inl f))"
    using notify_loop_stuck [OF _ assms] by (cases "driver_notify drv") (auto simp: driver_notify_def)
qed

section \<open>From a request to its callback\<close>

text \<open>
  What the device does when it has served the chain at \<^verbatim>\<open>head\<close>: it stores the status byte and appends
  a used element.
\<close>

definition device_complete :: "nat \<times> u8 \<Rightarrow> BlockIODriver \<Rightarrow> BlockIODriver" where
  "device_complete c drv =
     (let (head, status) = c; d = bd_device drv; q = dq d; u = vq_used q; r = vd_address (vq_descriptors q ! head)
      in drv\<lparr>bd_heap := (bd_heap drv)(r := map_option (\<lambda>rq. rq\<lparr>rq_status := status\<rparr>) (bd_heap drv r)),
             bd_device := d\<lparr>m_virt_queues := [(fst (m_virt_queues d ! 0), q\<lparr>vq_used := u
               \<lparr>vu_ring := (vu_ring u)[unat (vu_index u) mod 128 := \<lparr>ue_id = of_nat head, ue_length = 0\<rparr>],
                vu_index := vu_index u + 1\<rparr>\<rparr>)]\<rparr>\<rparr>)"

lemma device_complete_simps:
  assumes "dev_ready (bd_device drv) i a" "used_count drv < 128" "head < 128"
  shows "dev_ready (bd_device (device_complete (head, s) drv)) i a"
    "used_count (device_complete (head, s) drv) = Suc (used_count drv)"
    "vq_descriptors (dq (bd_device (device_complete (head, s) drv))) = vq_descriptors (dq (bd_device drv))"
    "used_id (device_complete (head, s) drv) k = (if k = used_count drv then head else used_id drv k)"
    "bd_ignored_requests (device_complete (head, s) drv) = bd_ignored_requests drv"
    "bd_heap (device_complete (head, s) drv) = (let r = vd_address (vq_descriptors (dq (bd_device drv)) ! head) in
       (bd_heap drv)(r := map_option (\<lambda>rq. rq\<lparr>rq_status := s\<rparr>) (bd_heap drv r)))"
proof -
  have u: "unat (vu_index (vq_used (dq (bd_device drv))) + 1) = Suc (used_count drv)"
    using assms(2) by (simp add: used_count_def unat_word_ariths)
  show "used_count (device_complete (head, s) drv) = Suc (used_count drv)"
    using u unfolding used_count_def by (simp add: device_complete_def Let_def dq_def)
  show "dev_ready (bd_device (device_complete (head, s) drv)) i a"
    "vq_descriptors (dq (bd_device (device_complete (head, s) drv))) = vq_descriptors (dq (bd_device drv))"
    "bd_ignored_requests (device_complete (head, s) drv) = bd_ignored_requests drv"
    "bd_heap (device_complete (head, s) drv) = (let r = vd_address (vq_descriptors (dq (bd_device drv)) ! head) in
       (bd_heap drv)(r := map_option (\<lambda>rq. rq\<lparr>rq_status := s\<rparr>) (bd_heap drv r)))"
    using assms(1) by (simp_all add: device_complete_def Let_def dev_ready_def queue_ok_def dq_def)
  have "length (vu_ring (vq_used (dq (bd_device drv)))) = 128" using assms(1) by (simp add: dev_ready_def queue_ok_def)
  then show "used_id (device_complete (head, s) drv) k = (if k = used_count drv then head else used_id drv k)"
    using assms(2,3) by (simp add: used_id_def used_count_def device_complete_def Let_def dq_def unat_of_nat_small)
qed

text \<open>The completions \<^verbatim>\<open>cs\<close>, given as numbers of operations with a status each.\<close>

definition complete_all :: "nat \<Rightarrow> (nat \<times> u8) list \<Rightarrow> BlockIODriver \<Rightarrow> BlockIODriver" where
  "complete_all i cs drv = fold (\<lambda>(j, s). device_complete ((i + 3 * j) mod 128, s)) cs drv"

definition served :: "BlkOp list \<Rightarrow> nat \<times> u8 \<Rightarrow> BlkRequest" where
  "served ops c = (op_request (ops ! fst c))\<lparr>rq_status := snd c\<rparr>"

lemma complete_all_spec:
  assumes "dev_ready (bd_device drv) i' a'" "used_count drv = a" "a + length cs \<le> 128"
    and heads: "\<And>j. j < n \<Longrightarrow> vd_address (vq_descriptors (dq (bd_device drv)) ! ((i + 3 * j) mod 128)) = rs ! j"
    and live: "\<And>j. j < n \<Longrightarrow> bd_heap drv (rs ! j) = Some (op_request (ops ! j))"
    and "distinct rs" "length rs = n" "\<forall>c \<in> set cs. fst c < n" "distinct (map fst cs)"
  shows "dev_ready (bd_device (complete_all i cs drv)) i' a' \<and> used_count (complete_all i cs drv) = a + length cs \<and>
    vq_descriptors (dq (bd_device (complete_all i cs drv))) = vq_descriptors (dq (bd_device drv)) \<and>
    bd_ignored_requests (complete_all i cs drv) = bd_ignored_requests drv \<and>
    (\<forall>k < length cs. used_id (complete_all i cs drv) (a + k) = (i + 3 * fst (cs ! k)) mod 128) \<and>
    (\<forall>c \<in> set cs. bd_heap (complete_all i cs drv) (rs ! fst c) = Some (served ops c)) \<and>
    (\<forall>j < n. j \<notin> fst ` set cs \<longrightarrow> bd_heap (complete_all i cs drv) (rs ! j) = Some (op_request (ops ! j)))"
  using assms(3,8,9)
proof (induction cs rule: rev_induct)
  case Nil
  then show ?case using assms(1,2) live by (simp add: complete_all_def)
next
  case (snoc c cs)
  obtain j s where c: "c = (j, s)" by fastforce
  let ?drv = "complete_all i cs drv" and ?h = "(i + 3 * j) mod 128"
  have j: "j < n" "j \<notin> fst ` set cs" "\<forall>c \<in> set cs. fst c < n" using snoc.prems by (auto simp: c)
  have ih: "dev_ready (bd_device ?drv) i' a'" "used_count ?drv = a + length cs"
    "vq_descriptors (dq (bd_device ?drv)) = vq_descriptors (dq (bd_device drv))" "bd_ignored_requests ?drv = bd_ignored_requests drv"
    "\<And>k. k < length cs \<Longrightarrow> used_id ?drv (a + k) = (i + 3 * fst (cs ! k)) mod 128"
    "\<And>c. c \<in> set cs \<Longrightarrow> bd_heap ?drv (rs ! fst c) = Some (served ops c)"
    "\<And>j. j < n \<Longrightarrow> j \<notin> fst ` set cs \<Longrightarrow> bd_heap ?drv (rs ! j) = Some (op_request (ops ! j))"
    using snoc by simp_all
  have all: "complete_all i (cs @ [c]) drv = device_complete (?h, s) ?drv" by (simp add: complete_all_def c)
  have u: "used_count ?drv < 128" "?h < 128" using ih(2) snoc.prems(1) by simp_all
  note simps = device_complete_simps [OF ih(1) u]
  have heap: "bd_heap (device_complete (?h, s) ?drv) = (bd_heap ?drv)(rs ! j \<mapsto> served ops c)"
    using ih(7) [OF j(1,2)] by (simp add: simps(6) ih(3) heads [OF j(1)] served_def c)
  have neq: "rs ! k \<noteq> rs ! j" if "k < n" "k \<noteq> j" for k using that j(1) assms(6,7) by (simp add: nth_eq_iff_index_eq)
  have old: "fst c' \<noteq> j \<and> fst c' < n" if "c' \<in> set cs" for c' using that j(2,3) by auto
  have "used_id (device_complete (?h, s) ?drv) (a + k) = (i + 3 * fst ((cs @ [c]) ! k)) mod 128" if "k < length (cs @ [c])" for k
    using that ih(2,5) by (cases "k = length cs") (simp_all add: simps(4) nth_append c)
  moreover have "bd_heap (device_complete (?h, s) ?drv) (rs ! fst c') = Some (served ops c')" if "c' \<in> set (cs @ [c])" for c'
  proof (cases "c' = c")
    case False
    then have "c' \<in> set cs" using that by simp
    then show ?thesis using ih(6) neq [of "fst c'"] old [of c'] by (simp add: heap)
  qed (simp add: heap c)
  moreover have "bd_heap (device_complete (?h, s) ?drv) (rs ! k) = Some (op_request (ops ! k))"
    if "k < n" "k \<notin> fst ` set (cs @ [c])" for k using that ih(7) neq by (auto simp: heap c)
  ultimately show ?case unfolding all using simps(1-3,5) ih(1-4) by simp
qed

text \<open>A sequence of calls of \<^verbatim>\<open>read_async\<close> and \<^verbatim>\<open>write_async\<close>.\<close>

record AsyncCall =
  ac_write :: bool
  ac_buffer :: u64
  ac_size :: u64
  ac_offset :: u64

definition call_op :: "u64 \<Rightarrow> AsyncCall \<Rightarrow> BlkOp" where
  "call_op rid c = \<lparr>op_id = rid, op_buffer = ac_buffer c, op_size = ac_size c, op_offset = ac_offset c, op_write = ac_write c\<rparr>"

definition call_request :: "u64 \<Rightarrow> AsyncCall \<Rightarrow> BlockDeviceAsyncRequest" where
  "call_request rid c = \<lparr>ar_id = rid, ar_buffer = ac_buffer c, ar_size = ac_size c, ar_offset = ac_offset c, ar_write = False\<rparr>"

fun async_all :: "(blk_heap \<Rightarrow> u64) \<Rightarrow> AsyncCall list \<Rightarrow> BlockDevice \<Rightarrow> (BlockDevice \<times> unit error_or list) exec" where
  "async_all alloc [] dev = Inr (dev, [])"
| "async_all alloc (c # cs) dev =
     exec_bind (device_async alloc (ac_write c) (ac_buffer c) (ac_size c) (ac_offset c) dev) (\<lambda>(dev, r).
     exec_bind (async_all alloc cs dev) (\<lambda>(dev, rs). Inr (dev, r # rs)))"

fun call_ops :: "u64 \<Rightarrow> AsyncCall list \<Rightarrow> BlkOp list" where
  "call_ops rid [] = []"
| "call_ops rid (c # cs) = call_op rid c # call_ops (rid + 1) cs"

lemma call_ops_simps [simp]:
  "length (call_ops rid cs) = length cs"
  "k < length cs \<Longrightarrow> call_ops rid cs ! k = call_op (rid + of_nat k) (cs ! k)"
  by (induction cs arbitrary: rid k) (auto simp: nth_Cons algebra_simps split: nat.splits)

lemma async_all_issue:
  assumes "blk_driver dev = Some drv" "issue_all alloc (call_ops (blk_next_request_id dev) cs) drv = Inr (drv', map Inr rs)"
    "unat (blk_next_request_id dev) + length cs < 2 ^ 63"
  shows "async_all alloc cs dev = Inr (\<lparr>blk_driver = Some drv',
      blk_requests = blk_requests dev @ map (\<lambda>k. call_request (blk_next_request_id dev + of_nat k) (cs ! k)) [0..<length cs],
      blk_next_request_id = blk_next_request_id dev + of_nat (length cs)\<rparr>, replicate (length cs) (Inr ()))"
  using assms
proof (induction cs arbitrary: dev drv rs)
  case Nil
  then show ?case by (cases dev) simp
next
  case (Cons c cs)
  let ?id = "blk_next_request_id dev"
  obtain drv1 r1 where i1: "issue alloc (call_op ?id c) drv = Inr (drv1, r1)"
    and rest: "issue_all alloc (call_ops (?id + 1) cs) drv1 = Inr (drv', map Inr (tl rs))" and rs: "rs \<noteq> []" "r1 = Inr (hd rs)"
    using Cons.prems(2) by (cases rs) (auto simp: exec_bind_eq_Inr)
  have id: "?id \<noteq> 0x7FFFFFFFFFFFFFFF" "unat (?id + 1) = unat ?id + 1"
  proof -
    have "unat ?id < 9223372036854775807" using Cons.prems(3) by simp
    then show "?id \<noteq> 0x7FFFFFFFFFFFFFFF" by auto
    show "unat (?id + 1) = unat ?id + 1" using Cons.prems(3) by (subst unat_add_no_wrap) simp_all
  qed
  let ?dev = "\<lparr>blk_driver = Some drv1, blk_requests = blk_requests dev @ [call_request ?id c], blk_next_request_id = ?id + 1\<rparr>"
  have "device_async alloc (ac_write c) (ac_buffer c) (ac_size c) (ac_offset c) dev = Inr (?dev, Inr ())"
    using i1 Cons.prems(1) id(1) rs by (cases dev) (simp add: device_async_def driver_async_def issue_def call_op_def call_request_def Let_def)
  moreover have "async_all alloc cs ?dev = Inr (\<lparr>blk_driver = Some drv',
      blk_requests = blk_requests ?dev @ map (\<lambda>k. call_request (?id + 1 + of_nat k) (cs ! k)) [0..<length cs],
      blk_next_request_id = ?id + 1 + of_nat (length cs)\<rparr>, replicate (length cs) (Inr ()))"
    using Cons.IH [of ?dev drv1 "tl rs"] rest Cons.prems(3) id(2) by simp
  moreover have "map (\<lambda>k. call_request (?id + of_nat k) ((c # cs) ! k)) [0..<length (c # cs)] =
      call_request ?id c # map (\<lambda>k. call_request (?id + 1 + of_nat k) (cs ! k)) [0..<length cs]"
    by (simp add: upt_conv_Cons map_Suc_upt [symmetric] algebra_simps del: upt_Suc)
  ultimately show ?case by (simp add: algebra_simps)
qed

lemma find_call_request:
  assumes "\<forall>r \<in> set old. unat (ar_id r) < unat rid" "unat rid + length cs < 2 ^ 63" "j < length cs"
  shows "List.find (\<lambda>r. ar_id r = rid + of_nat j) (old @ map (\<lambda>k. call_request (rid + of_nat k) (cs ! k)) [0..<length cs]) =
    Some (call_request (rid + of_nat j) (cs ! j))"
proof -
  have u: "unat (rid + of_nat k) = unat rid + k" if "k < length cs" for k
  proof -
    have "k < 18446744073709551616" "unat rid + k < 18446744073709551616" using assms(2) that by simp_all
    then have "unat (of_nat k :: u64) = k" by (simp add: unat_of_nat_small)
    then show ?thesis using \<open>unat rid + k < 18446744073709551616\<close> by (subst unat_add_no_wrap) simp_all
  qed
  let ?new = "map (\<lambda>k. call_request (rid + of_nat k) (cs ! k)) [0..<length cs]"
  have before: "ar_id ((old @ ?new) ! m) \<noteq> rid + of_nat j" if "m < length old + j" for m
  proof (cases "m < length old")
    case True
    then have "unat (ar_id ((old @ ?new) ! m)) < unat rid" using assms(1) by (simp add: nth_append)
    then show ?thesis using u [OF assms(3)] by auto
  next
    case False
    then obtain k where k: "m = length old + k" by (metis le_Suc_ex not_less)
    then have "ar_id ((old @ ?new) ! m) = rid + of_nat k" "k < j"
      using that assms(3) by (simp_all add: nth_append call_request_def)
    then show ?thesis using u [of k] u [OF assms(3)] assms(3)
      by (metis add_left_cancel less_irrefl less_trans)
  qed
  show ?thesis unfolding find_Some_iff
    by (intro exI [of _ "length old + j"]) (use before assms(3) in \<open>simp add: nth_append call_request_def\<close>)
qed

text \<open>
  C31. An asynchronous request reaches its callback.  On an idle block device, up to 42 calls of
  \<^verbatim>\<open>read_async\<close> and \<^verbatim>\<open>write_async\<close> all succeed; whichever of them the device then completes, in any order and
  with any status, the interrupt handler makes exactly one callback per completed request, in
  the order of completion, with the request of that call, and it is \<^verbatim>\<open>on_success\<close> exactly if the
  status byte is 0.  The driver frees the completed requests and keeps the others,
  whereas \<^verbatim>\<open>BlockDevice\<close> keeps all of them in its list.  This holds up to the 127th completion of the device.
\<close>

theorem async_requests_complete:
  assumes "blk_driver dev = Some drv" "dev_ready (bd_device drv) i a" "used_count drv = a" "bd_ignored_requests drv = []"
    and "length cs \<le> 42" "a + length done < 128" "\<forall>c \<in> set cs. ac_size c mod 512 = 0"
    and "fresh_below alloc limit" "card (dom (bd_heap drv)) + length cs \<le> limit"
    and "unat (blk_next_request_id dev) + length cs < 2 ^ 63" "\<forall>r \<in> set (blk_requests dev). unat (ar_id r) < unat (blk_next_request_id dev)"
    and "\<forall>c \<in> set done. fst c < length cs" "distinct (map fst done)"
  shows "\<exists>dev1 drv1 dev2 drv2 rs. async_all alloc cs dev = Inr (dev1, replicate (length cs) (Inr ())) \<and> blk_driver dev1 = Some drv1 \<and>
    block_handle_interrupt (dev1\<lparr>blk_driver := Some (complete_all i done drv1)\<rparr>) =
      Some (Inr (dev2, map (\<lambda>(j, s). (call_request (blk_next_request_id dev + of_nat j) (cs ! j), s = 0)) done, Inr ())) \<and>
    blk_driver dev2 = Some drv2 \<and> blk_requests dev2 = blk_requests dev1 \<and>
    length rs = length cs \<and> distinct rs \<and>
    (\<forall>j < length cs. bd_heap drv1 (rs ! j) \<noteq> None \<and> (bd_heap drv2 (rs ! j) = None \<longleftrightarrow> j \<in> fst ` set done))"
proof -
  let ?id = "blk_next_request_id dev" and ?n = "length cs"
  let ?ops = "call_ops ?id cs"
  have "\<forall>op \<in> set ?ops. op_size op mod 512 = 0"
    using assms(7) unfolding all_set_conv_all_nth by (simp add: call_op_def)
  then obtain drv1 rs where run: "issue_all alloc ?ops drv = Inr (drv1, map Inr rs)" and fl: "in_flight i a drv ?ops drv1 rs"
    using issue_all_in_flight [OF assms(2) _ assms(8), of ?ops] assms(9) by auto
  note h = fl [unfolded in_flight_def Let_def]
  have live: "bd_heap drv1 (rs ! j) = Some (op_request (?ops ! j))" if "j < ?n" for j
    using h that by (simp add: map_add_def map_of_zip_nth)
  have heads: "vd_address (vq_descriptors (dq (bd_device drv1)) ! ((i + 3 * j) mod 128)) = rs ! j" if "j < ?n" for j
  proof -
    have "vq_descriptors (dq (bd_device drv1)) ! ((i + 3 * j) mod 128) = descriptor_at i rs ?ops (3 * j)"
      using h assms(5) that by (intro placedD [where m = "3 * ?n"]) auto
    then show ?thesis by (simp add: descriptor_at_def stored_descriptor_def op_descriptor_def header_offset_def)
  qed
  let ?drv = "complete_all i done drv1"
  have u1: "used_count drv1 = a" "bd_ignored_requests drv1 = []" using h assms(3,4) by (simp_all add: used_count_def)
  have rs: "distinct rs" "length rs = ?n" using h by simp_all
  from h have "dev_ready (bd_device drv1) ((i + 3 * length ?ops) mod 128) a" by blast
  note c = complete_all_spec [OF this u1(1) _ heads live rs assms(12,13)]
  have ready: "dev_ready (bd_device ?drv) ((i + 3 * length ?ops) mod 128) a" and u: "used_count ?drv = a + length done"
    and ign: "bd_ignored_requests ?drv = []" using c assms(6) u1(2) by simp_all
  have req: "used_request ?drv (a + k) = rs ! fst (done ! k)" if "k < length done" for k
    using c assms(6,12) that heads by (simp add: used_request_def)
  have pending: "pending ?drv a = map (\<lambda>c. rs ! fst c) done"
    by (rule nth_equalityI) (simp_all add: pending_def u req)
  have served: "bd_heap ?drv (rs ! fst d) = Some (served ?ops d)" if "d \<in> set done" for d using c assms(6) that by simp
  have ok: "completions_ok ?drv a"
    unfolding completions_ok_def pending
  proof (intro conjI allI impI)
    have "inj_on (\<lambda>j. rs ! j) (fst ` set done)" using rs assms(12) by (auto simp: inj_on_def nth_eq_iff_index_eq)
    then show "distinct (map (\<lambda>c. rs ! fst c) done)" using assms(13) by (simp add: distinct_map comp_inj_on [of fst _ "\<lambda>j. rs ! j", unfolded comp_def])
    show "used_id ?drv k < 128" if k: "a \<le> k \<and> k < used_count ?drv" for k
    proof -
      obtain m where m: "k = a + m" using le_Suc_ex [of a k] k by auto
      then have "m < length done" using k u by simp
      then show ?thesis using c assms(6) by (simp add: m)
    qed
  qed (use u assms(6) ign served in auto)
  obtain drv2 where drv2: "driver_notify ?drv = Some (Inr (drv2, pending_results ?drv a))"
    "bd_heap drv2 = bd_heap ?drv |` (- set (pending ?drv a))"
    using notify_loop_ok [OF ready ok, of "[]"] by (auto simp: driver_notify_def)
  have results: "pending_results ?drv a = map (\<lambda>d. request_result (served ?ops d)) done"
  proof -
    have "pending_results ?drv a = map (\<lambda>r. request_result (the (bd_heap ?drv r))) (pending ?drv a)"
      unfolding pending_results_def ign by simp
    also have "\<dots> = map (\<lambda>d. request_result (served ?ops d)) done"
      unfolding pending map_map by (rule map_cong [OF refl]) (simp only: comp_def served option.sel)
    finally show ?thesis .
  qed
  let ?dev1 = "\<lparr>blk_driver = Some drv1, blk_requests = blk_requests dev @ map (\<lambda>k. call_request (?id + of_nat k) (cs ! k)) [0..<?n],
      blk_next_request_id = ?id + of_nat ?n\<rparr>"
  have async: "async_all alloc cs dev = Inr (?dev1, replicate ?n (Inr ()))" using async_all_issue [OF assms(1) run assms(10)] .
  have "callbacks_of (blk_requests ?dev1) (pending_results ?drv a) =
      concat (map (\<lambda>(j, s). [(call_request (?id + of_nat j) (cs ! j), s = 0)]) done)"
    unfolding callbacks_of_def results map_map
    by (rule arg_cong [of _ _ concat], rule map_cong [OF refl])
       (use assms(12) find_call_request [OF assms(11,10)] in
         \<open>auto simp: request_result_def served_def op_request_def blk_request_def call_op_def\<close>)
  then have "block_handle_interrupt (?dev1\<lparr>blk_driver := Some ?drv\<rparr>) = Some (Inr (?dev1\<lparr>blk_driver := Some drv2\<rparr>,
      map (\<lambda>(j, s). (call_request (?id + of_nat j) (cs ! j), s = 0)) done, Inr ()))"
    by (simp add: block_handle_interrupt_def drv2(1) concat_map_singleton case_prod_unfold)
  moreover have "bd_heap drv1 (rs ! j) \<noteq> None \<and> (bd_heap drv2 (rs ! j) = None \<longleftrightarrow> j \<in> fst ` set done)" if "j < ?n" for j
  proof -
    have "rs ! j \<in> set (pending ?drv a) \<longleftrightarrow> j \<in> fst ` set done"
    proof -
      have "rs ! j = rs ! fst c \<longleftrightarrow> j = fst c" if "c \<in> set done" for c
        using rs assms(12) that \<open>j < ?n\<close> by (simp add: nth_eq_iff_index_eq)
      then show ?thesis unfolding pending by (auto simp: image_iff)
    qed
    moreover have "bd_heap ?drv (rs ! j) \<noteq> None" if "j \<notin> fst ` set done" using c assms(6) that \<open>j < ?n\<close> by simp
    ultimately show ?thesis using live [OF that] by (auto simp: drv2(2) restrict_map_def)
  qed
  ultimately show ?thesis using async rs
    by (intro exI [of _ ?dev1] exI [of _ drv1] exI [of _ "?dev1\<lparr>blk_driver := Some drv2\<rparr>"] exI [of _ drv2] exI [of _ rs]) simp
qed

section \<open>Initialisation\<close>

text \<open>
  C28. \<^verbatim>\<open>VirtIODevice::init\<close> with one queue follows the initialisation sequence of the VirtIO specification: it
  resets the device, acknowledges it, negotiates the features and stops at the first of the three refusals (a
  feature the device does not offer, a device that does not keep \<^verbatim>\<open>FEATURES_OK\<close>, a ring shorter than 128),
  with exactly the register writes made until then; otherwise it sets up the queue, declares
  itself ready and leaves the device in the state the block driver starts from.  The page
  frame it announces is the queue's as long as the queue lies below 4 GiB.
\<close>

theorem virtio_init_contract:
  assumes "m_selected_queue d = 0"
  shows "let at = (\<lambda>r. m_mmio_device d + register_offset r);
       b0 = m_bus d @ [(at Status, 0)]; s1 = hw b0 (at Status) OR 1;
       b1 = b0 @ [(at Status, s1), (at Status, s1 OR 2)];
       b2 = b1 @ [(at GuestFeatures, features), (at Status, s1 OR 2 OR 8)]; s2 = hw b2 (at Status);
       b3 = b2 @ [(at QueueNum, 128)]; pfn = ucast (zalloc 0) div 4096;
       b4 = b3 @ [(at QueueSel, 0), (at GuestPageSize, 4096), (at QueuePfn, pfn), (at Status, s2 OR 4)]
     in \<exists>d' r. virtio_init hw zalloc features 1 d = Inr (d', r) \<and>
       (if hw b1 (at HostFeatures) AND features \<noteq> features
        then r = Inl (create_from_string ''Device does not support required features.'') \<and> m_bus d' = b1
        else if s2 AND 8 = 0 then r = Inl (create_from_string ''Device does not support required features.'') \<and> m_bus d' = b2
        else if hw b2 (at QueueNumMax) < 128
        then r = Inl (create_from_string ''Device does not support required number of queues.'') \<and> m_bus d' = b3
        else r = Inr () \<and> m_bus d' = b4 \<and> dev_ready d' 0 0 \<and> m_virt_queues d' = [(zalloc 0, zero_queue)] \<and>
          m_mmio_device d' = m_mmio_device d \<and>
          (unat (zalloc 0) < 2 ^ 32 \<longrightarrow> unat (pfn :: u32) = unat (zalloc 0) div 4096))"
proof -
  have q: "init_queues zalloc 1 = Inr [(zalloc 0, zero_queue)]" by (simp add: init_queues_def)
  have pfn: "unat (ucast (zalloc 0) div 4096 :: u32) = unat (zalloc 0) div 4096" if "unat (zalloc 0) < 2 ^ 32"
    using that by (simp add: unat_div_distrib unsigned_ucast_eq take_bit_nat_eq_self)
  show ?thesis using pfn assms
    unfolding virtio_init_def q exec_bind_simps list.case prod.case
    by (simp add: virtio_reset_def on_bus_def register_defs Let_def VIRTIO_RING_SIZE_def VIRTIO_PAGE_SIZE_def or.assoc
        dev_ready_def dq_def queue_ok_def zero_queue_def)
qed

text \<open>A device that keeps what is written to its registers, and offers rings of 128 entries.\<close>

definition sample_hw :: bus_device where
  "sample_hw b r = (if r = 0x10001034 then 128 else foldl (\<lambda>v (x, w). if x = r then w else v) 0 b)"

theorem virtio_init_contract_witness:
  "\<exists>d'. virtio_init sample_hw (\<lambda>_. 0x80500000) 0 1 (virtio_device_new 0x10001000 []) = Inr (d', Inr ()) \<and> dev_ready d' 0 0 \<and>
     last (m_bus d') = (0x10001070, 15)"
proof -
  have "m_selected_queue (virtio_device_new 0x10001000 []) = 0" by (simp add: virtio_device_new_def)
  from virtio_init_contract [OF this, of sample_hw 0 "\<lambda>_. 0x80500000"]
  obtain d' r where "virtio_init sample_hw (\<lambda>_. 0x80500000) 0 1 (virtio_device_new 0x10001000 []) = Inr (d', r)"
    "r = Inr () \<and> last (m_bus d') = (0x10001070, 15) \<and> dev_ready d' 0 0"
    by (auto simp: virtio_device_new_def sample_hw_def Let_def)
  then show ?thesis by blast
qed

text \<open>A driver on a fresh queue.\<close>

definition sample_driver :: BlockIODriver where
  "sample_driver = \<lparr>bd_device = \<lparr>m_mmio_device = 0x10001000, m_features = 0, m_virt_queues = [(0x80500000, zero_queue)],
     m_queue_indexes = [0], m_queue_acks = [0], m_selected_queue = 0, m_bus = []\<rparr>, bd_ignored_requests = [], bd_heap = Map.empty\<rparr>"

definition sample_op :: BlkOp where
  "sample_op = \<lparr>op_id = 7, op_buffer = 8192, op_size = 512, op_offset = 1024, op_write = False\<rparr>"

lemma sample_driver_ready: "dev_ready (bd_device sample_driver) 0 0" "used_count sample_driver = 0"
  "bd_heap sample_driver = Map.empty" "bd_ignored_requests sample_driver = []"
  by (simp_all add: sample_driver_def dev_ready_def dq_def queue_ok_def zero_queue_def used_count_def)

lemma fresh_below_1: "fresh_below (\<lambda>_. 4096) (Suc 0)"
  by (simp add: fresh_below_def)

theorem requests_in_flight_witness:
  "\<exists>drv' rs. issue_all (\<lambda>_. 4096) [sample_op] sample_driver = Inr (drv', map Inr rs) \<and>
     chain (dq (bd_device drv')) 128 0 = [(rs ! 0, 16, False), (8192, 512, True), (rs ! 0 + 24, 1, True)]"
proof -
  have "\<forall>op \<in> set [sample_op]. op_size op mod 512 = 0" by (simp add: sample_op_def)
  from requests_in_flight [OF sample_driver_ready(1) this fresh_below_1]
  show ?thesis by (simp add: sample_driver_ready op_chain_def sample_op_def) blast
qed

definition sample_completed :: BlockIODriver where
  "sample_completed = device_complete (0, 0) (sample_driver\<lparr>bd_heap := [4096 \<mapsto> op_request sample_op],
     bd_device := with_queue (bd_device sample_driver) (queue_after zero_queue 0 4096 sample_op) 3\<rparr>)"

lemma sample_completed_facts:
  "dev_ready (bd_device sample_completed) 3 0" "completions_ok sample_completed 0"
  "pending_results sample_completed 0 = [(7, Ok)]"
proof -
  let ?drv = "sample_driver\<lparr>bd_heap := [4096 \<mapsto> op_request sample_op],
     bd_device := with_queue (bd_device sample_driver) (queue_after zero_queue 0 4096 sample_op) 3\<rparr>"
  have d: "dq (bd_device sample_driver) = zero_queue" by (simp add: sample_driver_def dq_def)
  have q: "queue_ok (queue_after zero_queue 0 4096 sample_op)" by (rule queue_ok_after) (simp add: queue_ok_def zero_queue_def)
  have r: "dev_ready (bd_device ?drv) 3 0" using dev_ready_with_queue [OF sample_driver_ready(1) q, of 3] by simp
  have u: "used_count ?drv = 0" by (simp add: used_count_def queue_after_def Let_def zero_queue_def)
  have v: "vd_address (vq_descriptors (queue_after zero_queue 0 4096 sample_op) ! 0) = 4096"
    by (simp add: queue_after_def Let_def zero_queue_def stored_descriptor_def op_descriptor_def header_offset_def)
  have lt: "used_count ?drv < 128" "(0 :: nat) < 128" using u by simp_all
  note s = device_complete_simps [OF r lt, where s = 0, folded sample_completed_def]
  show "dev_ready (bd_device sample_completed) 3 0" by (rule s(1))
  have id: "used_id sample_completed 0 = 0" using s(4) [of 0] u by simp
  have c: "used_count sample_completed = 1" using s(2) u by simp
  have heap: "bd_heap sample_completed = [4096 \<mapsto> (op_request sample_op)\<lparr>rq_status := 0\<rparr>]"
    using s(6) by (simp add: v Let_def)
  have req: "used_request sample_completed 0 = 4096"
    using s(3) by (simp add: used_request_def id v)
  have ign: "bd_ignored_requests sample_completed = []" using s(5) by (simp add: sample_driver_def)
  have p: "pending sample_completed 0 = [4096]" by (simp add: pending_def c req)
  show "completions_ok sample_completed 0" by (simp add: completions_ok_def c p ign heap id)
  show "pending_results sample_completed 0 = [(7, Ok)]"
    by (simp add: pending_results_def p ign heap request_result_def op_request_def blk_request_def sample_op_def)
qed

theorem notify_completes_witness: "\<exists>drv'. driver_notify sample_completed = Some (Inr (drv', [(7, Ok)]))"
  using notify_completes [OF sample_completed_facts(1)] sample_completed_facts(2,3) by auto

theorem async_requests_complete_witness:
  "\<exists>dev1 drv1 dev2. async_all (\<lambda>_. 4096) [\<lparr>ac_write = True, ac_buffer = 8192, ac_size = 512, ac_offset = 0\<rparr>]
       \<lparr>blk_driver = Some sample_driver, blk_requests = [], blk_next_request_id = 0\<rparr> = Inr (dev1, [Inr ()]) \<and>
     block_handle_interrupt (dev1\<lparr>blk_driver := Some (complete_all 0 [(0, 1)] drv1)\<rparr>) = Some (Inr (dev2,
       [(\<lparr>ar_id = 0, ar_buffer = 8192, ar_size = 512, ar_offset = 0, ar_write = False\<rparr>, False)], Inr ()))"
proof -
  let ?dev = "\<lparr>blk_driver = Some sample_driver, blk_requests = [], blk_next_request_id = 0\<rparr>"
    and ?cs = "[\<lparr>ac_write = True, ac_buffer = 8192, ac_size = 512, ac_offset = 0\<rparr>]"
  have "blk_driver ?dev = Some sample_driver" by simp
  from async_requests_complete [OF this sample_driver_ready(1,2,4), of ?cs "[(0, 1)]" "\<lambda>_. 4096" 1]
  show ?thesis by (simp add: fresh_below_1 sample_driver_ready call_request_def) blast
qed

end
