(* ===== verification/Queues.thy ===== *)
theory Queues
  imports Prelude
begin

text \<open>
  \<^verbatim>\<open>Utils/Arrays/Queue.h\<close>: the singly linked queue behind the run queue and the console.
  Nodes live in a store of addresses; \<^verbatim>\<open>new\<close> takes an address that was never used and
  \<^verbatim>\<open>delete\<close> removes the node, so that touching a deleted node is a fault.  The queue
  contract is the locale \<^verbatim>\<open>fifo_queue\<close>; what a client does by rotating the queue is proved
  there once.
\<close>

section \<open>Nodes and the queue object\<close>

record 'a QueueElement =
  m_element :: 'a
  m_next :: "nat option"

record 'a LinkedQueue =
  q_nodes :: "nat \<Rightarrow> 'a QueueElement option"
  q_brk :: nat
  q_head :: "nat option"
  q_tail :: "nat option"

definition queue_new :: "'a LinkedQueue" where
  "queue_new = \<lparr>q_nodes = \<lambda>_. None, q_brk = 0, q_head = None, q_tail = None\<rparr>"

definition node_at :: "'a LinkedQueue \<Rightarrow> nat option \<Rightarrow> 'a QueueElement exec" where
  "node_at q p = (case p of None \<Rightarrow> Inl NullDeref
     | Some a \<Rightarrow> (case q_nodes q a of None \<Rightarrow> Inl OutOfBounds | Some n \<Rightarrow> Inr n))"

definition set_next :: "nat \<Rightarrow> nat option \<Rightarrow> 'a QueueElement \<Rightarrow> 'a LinkedQueue \<Rightarrow> 'a LinkedQueue" where
  "set_next a p n q = q\<lparr>q_nodes := (q_nodes q)(a \<mapsto> n\<lparr>m_next := p\<rparr>)\<rparr>"

text \<open>\<^verbatim>\<open>new QueueElement<T>(element)\<close>\<close>

definition new_node :: "'a \<Rightarrow> 'a LinkedQueue \<Rightarrow> 'a LinkedQueue \<times> nat" where
  "new_node x q =
     (q\<lparr>q_nodes := (q_nodes q)(q_brk q \<mapsto> \<lparr>m_element = x, m_next = None\<rparr>), q_brk := Suc (q_brk q)\<rparr>,
      q_brk q)"

section \<open>Operations\<close>

definition queue_is_empty :: "'a LinkedQueue \<Rightarrow> bool" where
  "queue_is_empty q = (q_head q = None)"

definition queue_append :: "'a LinkedQueue \<Rightarrow> 'a \<Rightarrow> 'a LinkedQueue exec" where
  "queue_append q x =
     (case q_head q of
        None \<Rightarrow> (let (q, a) = new_node x q in Inr (q\<lparr>q_head := Some a, q_tail := Some a\<rparr>))
      | Some h \<Rightarrow>
          (let (q, a) = new_node x q in
           exec_bind (node_at q (q_tail q)) (\<lambda>n.
             Inr ((set_next (the (q_tail q)) (Some a) n q)\<lparr>q_tail := Some a\<rparr>))))"

definition queue_pop :: "'a LinkedQueue \<Rightarrow> ('a \<times> 'a LinkedQueue) exec" where
  "queue_pop q =
     (if queue_is_empty q then Inl (AssertFailed ''Cannot pop from empty queue'')
      else exec_bind (node_at q (q_head q)) (\<lambda>n.
        let old_head = the (q_head q);
            q = q\<lparr>q_head := m_next n\<rparr>;
            q = q\<lparr>q_nodes := (q_nodes q)(old_head := None)\<rparr>;
            q = (if q_head q = None then q\<lparr>q_tail := None\<rparr> else q)
        in Inr (m_element n, q)))"

definition queue_peek_first :: "'a LinkedQueue \<Rightarrow> 'a exec" where
  "queue_peek_first q =
     (if queue_is_empty q then Inl (AssertFailed ''Cannot peek from empty queue'')
      else exec_bind (node_at q (q_head q)) (\<lambda>n. Inr (m_element n)))"

definition queue_peek_last :: "'a LinkedQueue \<Rightarrow> 'a exec" where
  "queue_peek_last q =
     (if queue_is_empty q then Inl (AssertFailed ''Cannot peek from empty queue'')
      else exec_bind (node_at q (q_tail q)) (\<lambda>n. Inr (m_element n)))"

definition queue_rotate_left :: "'a LinkedQueue \<Rightarrow> 'a LinkedQueue exec" where
  "queue_rotate_left q =
     (if q_head q = None then Inr q
      else exec_bind (node_at q (q_head q)) (\<lambda>h.
        if m_next h = None then Inr q
        else
          let old_head = the (q_head q); q = q\<lparr>q_head := m_next h\<rparr> in
          exec_bind (node_at q (q_tail q)) (\<lambda>t.
            let q = set_next (the (q_tail q)) (Some old_head) t q in
            exec_bind (node_at q (Some old_head)) (\<lambda>h'.
              Inr ((set_next old_head None h' q)\<lparr>q_tail := Some old_head\<rparr>)))))"

partial_function (option) clear_loop :: "'a LinkedQueue \<Rightarrow> nat option \<Rightarrow> 'a LinkedQueue exec option" where
  "clear_loop q current =
     (case current of
        None \<Rightarrow> Some (Inr (q\<lparr>q_head := None, q_tail := None\<rparr>))
      | Some a \<Rightarrow>
          (case node_at q current of
             Inl e \<Rightarrow> Some (Inl e)
           | Inr n \<Rightarrow> clear_loop (q\<lparr>q_nodes := (q_nodes q)(a := None)\<rparr>) (m_next n)))"

definition queue_clear :: "'a LinkedQueue \<Rightarrow> 'a LinkedQueue exec option" where
  "queue_clear q = clear_loop q (q_head q)"

text \<open>The copying loop of the copy constructor and of copy assignment.\<close>

partial_function (option) copy_loop :: "'a LinkedQueue \<Rightarrow> nat option \<Rightarrow> 'a LinkedQueue \<Rightarrow> 'a LinkedQueue exec option" where
  "copy_loop other current q =
     (case current of
        None \<Rightarrow> Some (Inr q)
      | Some a \<Rightarrow>
          (case node_at other current of
             Inl e \<Rightarrow> Some (Inl e)
           | Inr n \<Rightarrow> (case queue_append q (m_element n) of
                Inl e \<Rightarrow> Some (Inl e)
              | Inr q' \<Rightarrow> copy_loop other (m_next n) q')))"

definition queue_copy :: "'a LinkedQueue \<Rightarrow> 'a LinkedQueue exec option" where
  "queue_copy other = copy_loop other (q_head other) queue_new"

text \<open>
  Moving hands the nodes over.  A queue and the nodes it owns are one record here, so the
  source keeps the store and loses its pointers.
\<close>

definition queue_move :: "'a LinkedQueue \<Rightarrow> 'a LinkedQueue \<times> 'a LinkedQueue" where
  "queue_move other = (other, other\<lparr>q_head := None, q_tail := None\<rparr>)"

text \<open>Move assignment between two queues; the one assigned to is cleared first.\<close>

definition queue_assign_move ::
    "bool \<Rightarrow> 'a LinkedQueue \<Rightarrow> 'a LinkedQueue \<Rightarrow> ('a LinkedQueue \<times> 'a LinkedQueue) exec option" where
  "queue_assign_move same this other =
     (if same then Some (Inr (this, other))
      else case queue_clear this of None \<Rightarrow> None
        | Some r \<Rightarrow> Some (exec_bind r (\<lambda>_. Inr (other, other\<lparr>q_head := None, q_tail := None\<rparr>))))"

section \<open>The queue represents a list\<close>

fun node_path :: "(nat \<Rightarrow> 'a QueueElement option) \<Rightarrow> nat option \<Rightarrow> nat list \<Rightarrow> bool" where
  "node_path st p [] = (p = None)"
| "node_path st p (a # as) =
     (p = Some a \<and> (case st a of None \<Rightarrow> False | Some n \<Rightarrow> node_path st (m_next n) as))"

definition elem_at :: "(nat \<Rightarrow> 'a QueueElement option) \<Rightarrow> nat \<Rightarrow> 'a" where
  "elem_at st a = m_element (the (st a))"

definition queue_path :: "'a LinkedQueue \<Rightarrow> nat list \<Rightarrow> bool" where
  "queue_path q as \<longleftrightarrow> node_path (q_nodes q) (q_head q) as \<and> distinct as \<and> (\<forall>a \<in> set as. a < q_brk q) \<and>
     q_tail q = (if as = [] then None else Some (last as))"

definition queue_list :: "'a LinkedQueue \<Rightarrow> 'a list \<Rightarrow> bool" where
  "queue_list q xs \<longleftrightarrow> (\<exists>as. queue_path q as \<and> xs = map (elem_at (q_nodes q)) as)"

lemma node_path_cong:
  "(\<And>a. a \<in> set as \<Longrightarrow> st' a = st a) \<Longrightarrow> node_path st' p as = node_path st p as"
  by (induction as arbitrary: p) (auto split: option.splits)

lemma node_path_dom: "node_path st p as \<Longrightarrow> a \<in> set as \<Longrightarrow> \<exists>n. st a = Some n"
  by (induction as arbitrary: p) (auto split: option.splits)

text \<open>Hanging a fresh last node on a path.\<close>

lemma node_path_snoc:
  assumes "node_path st p as" "as \<noteq> []" "distinct as" "b \<notin> set as" "st (last as) = Some n"
  shows "node_path (st (last as \<mapsto> n\<lparr>m_next := Some b\<rparr>, b \<mapsto> nb\<lparr>m_next := None\<rparr>)) p (as @ [b])"
  using assms
proof (induction as arbitrary: p)
  case (Cons a as)
  show ?case
  proof (cases "as = []")
    case True
    then show ?thesis using Cons.prems by auto
  next
    case False
    then obtain m where m: "st a = Some m" "node_path st (m_next m) as"
      using Cons.prems(1) by (auto split: option.splits)
    have "a \<noteq> last as" using False Cons.prems(3) by auto
    then show ?thesis using Cons.IH [OF m(2) False] Cons.prems False m by auto
  qed
qed simp

lemma node_path_append: "node_path st p (as @ [b]) \<Longrightarrow> \<exists>n. st b = Some n \<and> m_next n = None"
  by (induction as arbitrary: p) (auto split: option.splits)

section \<open>The contract of a queue\<close>

locale fifo_queue =
  fixes empty :: "'q"
    and append :: "'q \<Rightarrow> 'a \<Rightarrow> 'q exec"
    and pop :: "'q \<Rightarrow> ('a \<times> 'q) exec"
    and peek_first :: "'q \<Rightarrow> 'a exec"
    and rotate_left :: "'q \<Rightarrow> 'q exec"
    and rel :: "'q \<Rightarrow> 'a list \<Rightarrow> bool"
  assumes empty_rel: "rel empty []"
    and append_rel: "rel q xs \<Longrightarrow> \<exists>q'. append q x = Inr q' \<and> rel q' (xs @ [x])"
    and pop_rel: "rel q (x # xs) \<Longrightarrow> \<exists>q'. pop q = Inr (x, q') \<and> rel q' xs"
    and pop_empty: "rel q [] \<Longrightarrow> \<exists>e. pop q = Inl e"
    and peek_rel: "rel q (x # xs) \<Longrightarrow> peek_first q = Inr x"
    and peek_empty: "rel q [] \<Longrightarrow> \<exists>e. peek_first q = Inl e"
    and rotate_rel: "rel q xs \<Longrightarrow> \<exists>q'. rotate_left q = Inr q' \<and> rel q' (rotate1 xs)"

text \<open>
  \<^verbatim>\<open>while(true) { rotate_left(); first = peek_first(); if(good(first)) break; }\<close>
\<close>

partial_function (option) rotate_until ::
  "('q \<Rightarrow> 'q exec) \<Rightarrow> ('q \<Rightarrow> 'a exec) \<Rightarrow> ('a \<Rightarrow> bool exec) \<Rightarrow> 'q \<Rightarrow> ('a \<times> 'q) exec option" where
  "rotate_until rot peek good q =
     (case exec_bind (rot q) (\<lambda>q. exec_bind (peek q) (\<lambda>x. exec_bind (good x) (\<lambda>b. Inr (x, q, b)))) of
        Inl e \<Rightarrow> Some (Inl e)
      | Inr (x, q, b) \<Rightarrow> if b then Some (Inr (x, q)) else rotate_until rot peek good q)"

context fifo_queue
begin

lemma rotate_until_found:
  assumes "rel q xs" "\<And>x. x \<in> set xs \<Longrightarrow> good x = Inr (P x)"
    and "0 < k" "P (xs ! (k mod length xs))" "xs \<noteq> []"
    and "\<And>j. 0 < j \<Longrightarrow> j < k \<Longrightarrow> \<not> P (xs ! (j mod length xs))"
  shows "\<exists>q'. rotate_until rotate_left peek_first good q = Some (Inr (xs ! (k mod length xs), q')) \<and>
    rel q' (rotate k xs)"
  using assms
proof (induction k arbitrary: q xs)
  case (Suc k)
  obtain q1 where q1: "rotate_left q = Inr q1" "rel q1 (rotate1 xs)" using rotate_rel Suc.prems(1) by blast
  have ne: "rotate1 xs \<noteq> []" using Suc.prems(5) by simp
  then obtain y ys where y: "rotate1 xs = y # ys" by (cases "rotate1 xs") auto
  have peek: "peek_first q1 = Inr y" using peek_rel q1(2) y by simp
  have yin: "y \<in> set xs" using y by (metis list.set_intros(1) set_rotate1)
  have nth: "rotate1 xs ! (j mod length xs) = xs ! (Suc j mod length xs)" for j
    using Suc.prems(5) nth_rotate1 [of "j mod length xs" xs] by (simp add: mod_Suc_eq)
  have y1: "y = xs ! (1 mod length xs)" using nth [of 0] y Suc.prems(5) by simp
  have step: "rotate_until rotate_left peek_first good q =
      (if P y then Some (Inr (y, q1)) else rotate_until rotate_left peek_first good q1)"
    using q1(1) peek Suc.prems(2) [OF yin] by (subst rotate_until.simps) simp
  show ?case
  proof (cases "P y")
    case True
    then have "\<not> 1 < Suc k" using Suc.prems(6) [of 1] y1 by auto
    then have "k = 0" by simp
    then show ?thesis using step True q1(2) y1 by simp
  next
    case False
    then have k: "0 < k" using Suc.prems(4) y1 by (cases k) auto
    have "\<exists>q'. rotate_until rotate_left peek_first good q1 = Some (Inr (rotate1 xs ! (k mod length (rotate1 xs)), q')) \<and>
      rel q' (rotate k (rotate1 xs))"
    proof (rule Suc.IH [OF q1(2) _ k _ ne])
      show "good x = Inr (P x)" if "x \<in> set (rotate1 xs)" for x using Suc.prems(2) that by simp
      show "P (rotate1 xs ! (k mod length (rotate1 xs)))" using Suc.prems(4) nth by simp
      show "\<not> P (rotate1 xs ! (j mod length (rotate1 xs)))" if "0 < j" "j < k" for j
        using Suc.prems(6) [of "Suc j"] that nth by simp
    qed
    then show ?thesis using step False nth by (simp add: rotate1_rotate_swap)
  qed
qed simp

lemma rotate_until_first:
  assumes "rel q xs" "\<And>x. x \<in> set xs \<Longrightarrow> good x = Inr (P x)" "\<exists>x \<in> set xs. P x"
  obtains k q' where "0 < k" "k \<le> length xs" "P (xs ! (k mod length xs))"
    "\<And>j. 0 < j \<Longrightarrow> j < k \<Longrightarrow> \<not> P (xs ! (j mod length xs))"
    "rotate_until rotate_left peek_first good q = Some (Inr (xs ! (k mod length xs), q'))"
    "rel q' (rotate k xs)"
proof -
  obtain i where i: "i < length xs" "P (xs ! i)" using assms(3) by (auto simp: in_set_conv_nth)
  let ?Q = "\<lambda>k. 0 < k \<and> P (xs ! (k mod length xs))"
  define k where "k = (LEAST k. ?Q k)"
  have ex: "?Q (if i = 0 then length xs else i)" using i by (cases "i = 0") auto
  then have k: "?Q k" unfolding k_def by (rule LeastI)
  have "k \<le> (if i = 0 then length xs else i)" unfolding k_def using ex by (rule Least_le)
  then have le: "k \<le> length xs" using i(1) by (simp split: if_splits)
  have least: "\<not> P (xs ! (j mod length xs))" if "0 < j" "j < k" for j
    using that not_less_Least [of j ?Q] by (auto simp: k_def)
  have "xs \<noteq> []" using i(1) by auto
  then have "\<exists>q'. rotate_until rotate_left peek_first good q = Some (Inr (xs ! (k mod length xs), q')) \<and>
      rel q' (rotate k xs)"
    using k least by (intro rotate_until_found [where P = P] assms) auto
  then obtain q' where "rotate_until rotate_left peek_first good q = Some (Inr (xs ! (k mod length xs), q'))"
      "rel q' (rotate k xs)" by blast
  then show thesis using that k le least by blast
qed

text \<open>With no good element the loop keeps rotating for ever.\<close>

lemma rotate_until_never:
  assumes "rel q xs" "xs \<noteq> []" "\<And>x. x \<in> set xs \<Longrightarrow> good x = Inr False"
  shows "rotate_until rotate_left peek_first good q = None"
proof (cases "rotate_until rotate_left peek_first good q")
  case (Some r)
  let ?bad = "\<lambda>q. \<exists>xs. rel q xs \<and> xs \<noteq> [] \<and> (\<forall>x \<in> set xs. good x = Inr False)"
  let ?here = "\<lambda>rot pk gd q. rot = rotate_left \<and> pk = peek_first \<and> gd = good \<and> ?bad q"
  have "\<not> ?here rotate_left peek_first good q"
  proof (rule rotate_until.raw_induct [where P = "\<lambda>rot pk gd q r. \<not> ?here rot pk gd q", OF _ Some])
    fix loop rot pk gd q y
    assume ih: "\<And>rot pk gd q y. loop rot pk gd q = Some y \<Longrightarrow> \<not> ?here rot pk gd q"
      and body: "(case exec_bind (rot q) (\<lambda>q. exec_bind (pk q) (\<lambda>x. exec_bind (gd x) (\<lambda>b. Inr (x, q, b)))) of
        Inl e \<Rightarrow> Some (Inl e) | Inr (x, q, b) \<Rightarrow> if b then Some (Inr (x, q)) else loop rot pk gd q) = Some y"
    show "\<not> ?here rot pk gd q"
    proof
      assume here: "?here rot pk gd q"
      then obtain xs where xs: "rel q xs" "xs \<noteq> []" "\<forall>x \<in> set xs. good x = Inr False" by blast
      obtain q1 where q1: "rotate_left q = Inr q1" "rel q1 (rotate1 xs)" using rotate_rel xs(1) by blast
      obtain z zs where z: "rotate1 xs = z # zs" using xs(2) by (cases "rotate1 xs") auto
      have "peek_first q1 = Inr z" using peek_rel q1(2) z by simp
      moreover have "z \<in> set xs" using z by (metis list.set_intros(1) set_rotate1)
      ultimately have "loop rot pk gd q1 = Some y" using body q1(1) xs(3) here by simp
      moreover have "?bad q1" using q1(2) xs by (intro exI [of _ "rotate1 xs"]) auto
      ultimately show False using ih here by blast
    qed
  qed
  then show ?thesis using assms by blast
qed

lemma rotate_until_empty:
  assumes "rel q []"
  shows "\<exists>e. rotate_until rotate_left peek_first good q = Some (Inl e)"
proof -
  obtain q1 where q1: "rotate_left q = Inr q1" "rel q1 []" using rotate_rel assms by fastforce
  then obtain e where "peek_first q1 = Inl e" using peek_empty by blast
  then show ?thesis using q1 by (subst rotate_until.simps) simp
qed

end

section \<open>The linked queue satisfies the contract\<close>

lemma queue_path_head: "queue_path q as \<Longrightarrow> q_head q = (if as = [] then None else Some (hd as))"
  by (cases as) (auto simp: queue_path_def)

lemma queue_append_rel:
  assumes "queue_list q xs"
  shows "\<exists>q'. queue_append q x = Inr q' \<and> queue_list q' (xs @ [x])"
proof -
  obtain as where as: "queue_path q as" "xs = map (elem_at (q_nodes q)) as"
    using assms by (auto simp: queue_list_def)
  let ?b = "q_brk q"
  have nb: "?b \<notin> set as" using as(1) by (auto simp: queue_path_def)
  show ?thesis
  proof (cases "as = []")
    case True
    then have "q_head q = None" using as(1) by (simp add: queue_path_def)
    then show ?thesis
      using True as by (auto simp: queue_append_def new_node_def queue_list_def queue_path_def elem_at_def
          intro!: exI [of _ "[?b]"])
  next
    case False
    then obtain h where h: "q_head q = Some h" and tl: "q_tail q = Some (last as)"
      using as(1) queue_path_head [OF as(1)] by (auto simp: queue_path_def)
    have path: "node_path (q_nodes q) (q_head q) as" "distinct as" using as(1) by (auto simp: queue_path_def)
    obtain n where n: "q_nodes q (last as) = Some n" using node_path_dom [OF path(1)] False by (meson last_in_set)
    have ne: "last as \<noteq> ?b" using nb False by (metis last_in_set)
    let ?nb = "\<lparr>m_element = x, m_next = None\<rparr>"
    let ?st = "(q_nodes q)(last as \<mapsto> n\<lparr>m_next := Some ?b\<rparr>, ?b \<mapsto> ?nb)"
    have st: "(q_nodes q)(?b \<mapsto> ?nb, last as \<mapsto> n\<lparr>m_next := Some ?b\<rparr>) = ?st"
      using ne by (simp add: fun_upd_twist)
    have app: "queue_append q x = Inr (q\<lparr>q_nodes := ?st, q_brk := Suc ?b, q_tail := Some ?b\<rparr>)"
      using h tl n ne st by (simp add: queue_append_def new_node_def node_at_def set_next_def)
    have "node_path ?st (q_head q) (as @ [?b])"
      using node_path_snoc [OF path(1) False path(2) nb n, of ?nb] by simp
    then have "queue_path (q\<lparr>q_nodes := ?st, q_brk := Suc ?b, q_tail := Some ?b\<rparr>) (as @ [?b])"
      using path(2) nb as(1) by (auto simp: queue_path_def)
    moreover have "map (elem_at ?st) (as @ [?b]) = xs @ [x]"
      using as(2) nb n by (auto simp: elem_at_def)
    ultimately show ?thesis using app by (auto simp: queue_list_def)
  qed
qed

lemma queue_list_Cons:
  assumes "queue_list q (x # xs)"
  obtains a as n where "queue_path q (a # as)" "q_head q = Some a" "q_nodes q a = Some n" "m_element n = x"
    "xs = map (elem_at (q_nodes q)) as" "node_path (q_nodes q) (m_next n) as"
proof -
  obtain as where as: "queue_path q as" "x # xs = map (elem_at (q_nodes q)) as"
    using assms by (auto simp: queue_list_def)
  then obtain a bs where "as = a # bs" by (cases as) auto
  then show thesis using that as by (auto simp: queue_path_def elem_at_def split: option.splits)
qed

lemma queue_pop_rel:
  assumes "queue_list q (x # xs)"
  shows "\<exists>q'. queue_pop q = Inr (x, q') \<and> queue_list q' xs"
proof -
  obtain a as n where a: "queue_path q (a # as)" "q_head q = Some a" "q_nodes q a = Some n" "m_element n = x"
    "xs = map (elem_at (q_nodes q)) as" "node_path (q_nodes q) (m_next n) as"
    using queue_list_Cons [OF assms] .
  let ?st = "(q_nodes q)(a := None)"
  have na: "a \<notin> set as" using a(1) by (simp add: queue_path_def)
  have path: "node_path ?st (m_next n) as"
    by (rule iffD2 [OF node_path_cong a(6)]) (use na in auto)
  have nx: "m_next n = None \<longleftrightarrow> as = []" using a(6) by (cases as) auto
  have "queue_path (q\<lparr>q_head := m_next n, q_nodes := ?st, q_tail := (if as = [] then None else q_tail q)\<rparr>) as"
    using a(1) path by (auto simp: queue_path_def)
  moreover have "xs = map (elem_at ?st) as" using a(5) na by (auto simp: elem_at_def)
  moreover have "queue_pop q = Inr (x, q\<lparr>q_head := m_next n, q_nodes := ?st, q_tail := (if as = [] then None else q_tail q)\<rparr>)"
    using a(2-4) nx by (auto simp: queue_pop_def queue_is_empty_def node_at_def Let_def)
  ultimately show ?thesis by (auto simp: queue_list_def)
qed

lemma queue_peek_rel: "queue_list q (x # xs) \<Longrightarrow> queue_peek_first q = Inr x"
  by (erule queue_list_Cons) (simp add: queue_peek_first_def queue_is_empty_def node_at_def)

lemma queue_empty_head: "queue_list q [] \<Longrightarrow> q_head q = None"
  by (auto simp: queue_list_def queue_path_def)

lemma queue_peek_last_rel:
  assumes "queue_list q xs" "xs \<noteq> []"
  shows "queue_peek_last q = Inr (last xs)"
proof -
  obtain as where as: "queue_path q as" "xs = map (elem_at (q_nodes q)) as"
    using assms by (auto simp: queue_list_def)
  then have ne: "as \<noteq> []" using assms(2) by auto
  then obtain n where "q_nodes q (last as) = Some n"
    using node_path_dom as(1) last_in_set by (metis queue_path_def)
  then show ?thesis
    using as ne queue_path_head [OF as(1)]
    by (auto simp: queue_peek_last_def queue_is_empty_def node_at_def queue_path_def last_map elem_at_def)
qed

lemma queue_rotate_rel:
  assumes "queue_list q xs"
  shows "\<exists>q'. queue_rotate_left q = Inr q' \<and> queue_list q' (rotate1 xs)"
proof (cases xs)
  case Nil
  then have "q_head q = None" using assms queue_empty_head by simp
  then show ?thesis using assms Nil by (simp add: queue_rotate_left_def)
next
  case (Cons x ys)
  obtain a as n where a: "queue_path q (a # as)" "q_head q = Some a" "q_nodes q a = Some n" "m_element n = x"
    "ys = map (elem_at (q_nodes q)) as" "node_path (q_nodes q) (m_next n) as"
    using queue_list_Cons [OF assms [unfolded Cons]] .
  show ?thesis
  proof (cases as)
    case Nil
    then have "queue_rotate_left q = Inr q" using a by (simp add: queue_rotate_left_def node_at_def)
    then show ?thesis using Cons Nil a(5) assms by simp
  next
    case (Cons b bs)
    have d: "a \<notin> set as" "distinct as" "last as \<noteq> a" and tl: "q_tail q = Some (last as)" and ne: "as \<noteq> []"
      using a(1) Cons by (auto simp: queue_path_def)
    have nx: "m_next n = Some b" using a(6) Cons by simp
    obtain t where t: "q_nodes q (last as) = Some t" using node_path_dom [OF a(6)] ne by (meson last_in_set)
    let ?st = "(q_nodes q)(last as \<mapsto> t\<lparr>m_next := Some a\<rparr>, a \<mapsto> n\<lparr>m_next := None\<rparr>)"
    have rot: "queue_rotate_left q = Inr (q\<lparr>q_head := m_next n, q_nodes := ?st, q_tail := Some a\<rparr>)"
      using a(2,3) nx tl t d(3) by (simp add: queue_rotate_left_def node_at_def set_next_def Let_def)
    have "node_path ?st (m_next n) (as @ [a])"
      using node_path_snoc [OF a(6) ne d(2,1) t, of n] .
    then have "queue_path (q\<lparr>q_head := m_next n, q_nodes := ?st, q_tail := Some a\<rparr>) (as @ [a])"
      using a(1) d by (auto simp: queue_path_def)
    moreover have "map (elem_at ?st) (as @ [a]) = rotate1 (x # ys)"
      using a(3-5) d(1,3) t by (auto simp: elem_at_def)
    ultimately show ?thesis using rot \<open>xs = x # ys\<close> by (auto simp: queue_list_def)
  qed
qed

interpretation linked_queue: fifo_queue
  queue_new queue_append queue_pop queue_peek_first queue_rotate_left queue_list
proof unfold_locales
  show "queue_list queue_new []" by (simp add: queue_list_def queue_path_def queue_new_def)
  show "\<exists>q'. queue_append q x = Inr q' \<and> queue_list q' (xs @ [x])" if "queue_list q xs" for q :: "'a LinkedQueue" and xs x
    using that by (rule queue_append_rel)
  show "\<exists>q'. queue_pop q = Inr (x, q') \<and> queue_list q' xs" if "queue_list q (x # xs)" for q :: "'a LinkedQueue" and xs x
    using that by (rule queue_pop_rel)
  show "\<exists>e. queue_pop q = Inl e" if "queue_list q []" for q :: "'a LinkedQueue"
    using queue_empty_head [OF that] by (simp add: queue_pop_def queue_is_empty_def)
  show "queue_peek_first q = Inr x" if "queue_list q (x # xs)" for q :: "'a LinkedQueue" and xs x
    using that by (rule queue_peek_rel)
  show "\<exists>e. queue_peek_first q = Inl e" if "queue_list q []" for q :: "'a LinkedQueue"
    using queue_empty_head [OF that] by (simp add: queue_peek_first_def queue_is_empty_def)
  show "\<exists>q'. queue_rotate_left q = Inr q' \<and> queue_list q' (rotate1 xs)" if "queue_list q xs" for q :: "'a LinkedQueue" and xs
    using that by (rule queue_rotate_rel)
qed

section \<open>Clearing and copying\<close>

lemma clear_loop_path:
  assumes "node_path (q_nodes q) p as" "distinct as"
  shows "\<exists>st. clear_loop q p = Some (Inr (q\<lparr>q_nodes := st, q_head := None, q_tail := None\<rparr>)) \<and>
    (\<forall>a. st a = (if a \<in> set as then None else q_nodes q a))"
  using assms
proof (induction as arbitrary: q p)
  case Nil
  then show ?case by (subst clear_loop.simps) (auto intro!: exI [of _ "q_nodes q"])
next
  case (Cons a as)
  then obtain n where n: "p = Some a" "q_nodes q a = Some n" "node_path (q_nodes q) (m_next n) as"
    by (auto split: option.splits)
  let ?q = "q\<lparr>q_nodes := (q_nodes q)(a := None)\<rparr>"
  have path: "node_path (q_nodes ?q) (m_next n) as"
    by (rule iffD2 [OF node_path_cong n(3)]) (use Cons.prems(2) in auto)
  have "distinct as" using Cons.prems(2) by simp
  from Cons.IH [OF path this] obtain st where st: "clear_loop ?q (m_next n) = Some (Inr (?q\<lparr>q_nodes := st, q_head := None, q_tail := None\<rparr>))"
      "\<forall>b. st b = (if b \<in> set as then None else q_nodes ?q b)"
    by auto
  have "clear_loop q p = clear_loop ?q (m_next n)"
    using n by (subst clear_loop.simps) (simp add: node_at_def)
  then show ?case using st by auto
qed

lemma copy_loop_path:
  assumes "node_path (q_nodes other) p as" "queue_list q xs"
  shows "\<exists>q'. copy_loop other p q = Some (Inr q') \<and> queue_list q' (xs @ map (elem_at (q_nodes other)) as)"
  using assms
proof (induction as arbitrary: p q xs)
  case Nil
  then show ?case by (subst copy_loop.simps) auto
next
  case (Cons a as)
  then obtain n where n: "p = Some a" "q_nodes other a = Some n" "node_path (q_nodes other) (m_next n) as"
    by (auto split: option.splits)
  obtain q1 where q1: "queue_append q (m_element n) = Inr q1" "queue_list q1 (xs @ [m_element n])"
    using queue_append_rel [OF Cons.prems(2)] by blast
  have "copy_loop other p q = copy_loop other (m_next n) q1"
    using n q1(1) by (subst copy_loop.simps) (simp add: node_at_def)
  then show ?case using Cons.IH [OF n(3) q1(2)] n(2) by (simp add: elem_at_def)
qed

section \<open>Properties\<close>

text \<open>
  C12. \<^verbatim>\<open>LinkedQueue\<close> refines the list of its elements: \<^verbatim>\<open>append\<close> adds at the back, \<^verbatim>\<open>pop\<close>
  removes from the front, \<^verbatim>\<open>peek_first\<close> and \<^verbatim>\<open>peek_last\<close> read the two ends,
  \<^verbatim>\<open>rotate_left\<close> moves the front to the back, \<^verbatim>\<open>clear\<close> returns and frees every node of the
  queue, and the copy constructor returns a queue with the same elements.  None of them
  touches a null or a deleted node.
\<close>

theorem linked_queue_refines_list:
  assumes "queue_list q xs"
  shows "(\<exists>q'. queue_append q x = Inr q' \<and> queue_list q' (xs @ [x])) \<and>
    (xs \<noteq> [] \<longrightarrow> (\<exists>q'. queue_pop q = Inr (hd xs, q') \<and> queue_list q' (tl xs)) \<and>
      queue_peek_first q = Inr (hd xs) \<and> queue_peek_last q = Inr (last xs)) \<and>
    (\<exists>q'. queue_rotate_left q = Inr q' \<and> queue_list q' (rotate1 xs)) \<and>
    (\<exists>q'. queue_clear q = Some (Inr q') \<and> queue_list q' [] \<and>
      card (dom (q_nodes q) - dom (q_nodes q')) = length xs) \<and>
    (\<exists>q'. queue_copy q = Some (Inr q') \<and> queue_list q' xs)"
proof -
  obtain as where as: "queue_path q as" "xs = map (elem_at (q_nodes q)) as"
    using assms by (auto simp: queue_list_def)
  have path: "node_path (q_nodes q) (q_head q) as" "distinct as" using as(1) by (auto simp: queue_path_def)
  have ends: "xs \<noteq> [] \<longrightarrow> (\<exists>q'. queue_pop q = Inr (hd xs, q') \<and> queue_list q' (tl xs)) \<and>
      queue_peek_first q = Inr (hd xs) \<and> queue_peek_last q = Inr (last xs)"
    using queue_pop_rel [of q "hd xs" "tl xs"] queue_peek_rel [of q "hd xs" "tl xs"]
      queue_peek_last_rel [of q xs] assms by (cases xs) auto
  obtain st where st: "queue_clear q = Some (Inr (q\<lparr>q_nodes := st, q_head := None, q_tail := None\<rparr>))"
      "\<forall>a. st a = (if a \<in> set as then None else q_nodes q a)"
    using clear_loop_path [OF path] by (auto simp: queue_clear_def)
  have "dom (q_nodes q) - dom st = set as" using st(2) node_path_dom [OF path(1)] by auto
  then have "card (dom (q_nodes q) - dom st) = length xs" using as(2) path(2) by (simp add: distinct_card)
  then have clear: "\<exists>q'. queue_clear q = Some (Inr q') \<and> queue_list q' [] \<and>
      card (dom (q_nodes q) - dom (q_nodes q')) = length xs"
    using st(1) by (auto simp: queue_list_def queue_path_def)
  have "queue_list queue_new []" by (rule linked_queue.empty_rel)
  then have copy: "\<exists>q'. queue_copy q = Some (Inr q') \<and> queue_list q' xs"
    using copy_loop_path [OF path(1)] as(2) by (fastforce simp: queue_copy_def)
  show ?thesis using queue_append_rel [OF assms] ends queue_rotate_rel [OF assms] clear copy by blast
qed

theorem linked_queue_refines_list_witness:
  "\<exists>q. queue_append queue_new (5 :: nat) = Inr q \<and> queue_list q [5]"
  using linked_queue_refines_list [OF linked_queue.empty_rel] by fastforce

end
