(* ===== verification/Loops.thy ===== *)
theory Loops
  imports Prelude
begin

text \<open>
  The loops with early exits the containers, parsers and drivers share: a counting loop
  whose body may fail (\<^verbatim>\<open>for_exec\<close>), a counting loop whose body may return from the
  function (\<^verbatim>\<open>scan\<close>), and the contract of a container that is read by index
  (\<^verbatim>\<open>indexed\<close>), under which both loops are the list functions one expects.
\<close>

section \<open>Counting loops that may fail or return\<close>

function for_exec :: "'w::len word \<Rightarrow> 'w word \<Rightarrow> ('w word \<Rightarrow> 's \<Rightarrow> 'e + 's) \<Rightarrow> 's \<Rightarrow> 'e + 's" where
  "for_exec i e body s =
     (if i < e then (case body i s of Inl f \<Rightarrow> Inl f | Inr s' \<Rightarrow> for_exec (i + 1) e body s') else Inr s)"
  by auto
termination
proof (relation "measure (\<lambda>(i, e, body, s). unat e - unat i)")
  show "wf (measure (\<lambda>(i, e, body, s). unat e - unat i))" by simp
  fix i e :: "'w::len word" and body :: "'w word \<Rightarrow> 's \<Rightarrow> 'e + 's" and s s' :: 's
  assume "i < e"
  then show "((i + 1, e, body, s'), i, e, body, s) \<in> measure (\<lambda>(i, e, body, s). unat e - unat i)"
    using unat_Suc_less [of i e] by (simp add: word_less_nat_alt)
qed

text \<open>The body returns \<^verbatim>\<open>Some r\<close> to leave the function with \<^verbatim>\<open>r\<close>.\<close>

function scan :: "'w::len word \<Rightarrow> 'w word \<Rightarrow> ('w word \<Rightarrow> 'r option exec) \<Rightarrow> 'r option exec" where
  "scan i e body =
     (if i < e then (case body i of Inl f \<Rightarrow> Inl f | Inr (Some r) \<Rightarrow> Inr (Some r) | Inr None \<Rightarrow> scan (i + 1) e body)
      else Inr None)"
  by auto
termination
proof (relation "measure (\<lambda>(i, e, body). unat e - unat i)")
  show "wf (measure (\<lambda>(i, e, body). unat e - unat i))" by simp
  fix i e :: "'w::len word" and body :: "'w word \<Rightarrow> 'r option exec"
  assume "i < e"
  then show "((i + 1, e, body), i, e, body) \<in> measure (\<lambda>(i, e, body). unat e - unat i)"
    using unat_Suc_less [of i e] by (simp add: word_less_nat_alt)
qed

declare for_exec.simps [simp del] scan.simps [simp del]

lemma for_exec_invariant:
  fixes i e :: "'w::len word"
  assumes "P (unat i) s" "unat i \<le> unat e"
    and "\<And>j s. i \<le> j \<Longrightarrow> j < e \<Longrightarrow> P (unat j) s \<Longrightarrow> \<exists>s'. body j s = Inr s' \<and> P (Suc (unat j)) s'"
  shows "\<exists>s'. for_exec i e body s = Inr s' \<and> P (unat e) s'"
  using assms
proof (induction i e body s rule: for_exec.induct)
  case (1 i e body s)
  show ?case
  proof (cases "i < e")
    case True
    obtain s' where s': "body i s = Inr s'" "P (Suc (unat i)) s'" using 1(4) [of i s] 1(2) True by auto
    have le: "i \<le> i + 1" using unat_Suc_less [OF True] by (simp add: word_le_nat_alt)
    have "\<exists>r. for_exec (i + 1) e body s' = Inr r \<and> P (unat e) r"
    proof (rule 1(1) [OF True s'(1)])
      show "P (unat (i + 1)) s'" using s'(2) unat_Suc_less [OF True] by simp
      show "unat (i + 1) \<le> unat e" using unat_Suc_less [OF True] True by (simp add: word_less_nat_alt)
      show "\<exists>r. body j t = Inr r \<and> P (Suc (unat j)) r" if "i + 1 \<le> j" "j < e" "P (unat j) t" for j t
        using 1(4) that le by fastforce
    qed
    then show ?thesis using True s'(1) by (subst for_exec.simps) simp
  next
    case False
    then have "unat i = unat e" using 1(3) by (simp add: word_less_nat_alt)
    then show ?thesis using False 1(2) by (subst for_exec.simps) simp
  qed
qed

text \<open>A scan over a list read by index is the first index whose element returns.\<close>

lemma scan_list:
  fixes i e :: "'w::len word"
  assumes "unat i \<le> length xs" "unat e = length xs"
    and "\<And>j. i \<le> j \<Longrightarrow> j < e \<Longrightarrow> body j = Inr (f (xs ! unat j))"
  shows "scan i e body = Inr (case List.find (\<lambda>x. f x \<noteq> None) (drop (unat i) xs) of None \<Rightarrow> None | Some x \<Rightarrow> f x)"
  using assms
proof (induction i e body rule: scan.induct)
  case (1 i e body)
  show ?case
  proof (cases "i < e")
    case True
    then have lt: "unat i < length xs" using 1(3) by (simp add: word_less_nat_alt)
    have d: "drop (unat i) xs = xs ! unat i # drop (Suc (unat i)) xs" using lt by (simp add: Cons_nth_drop_Suc)
    have b: "body i = Inr (f (xs ! unat i))" using 1(4) True by simp
    have le: "i \<le> i + 1" using unat_Suc_less [OF True] by (simp add: word_le_nat_alt)
    show ?thesis
    proof (cases "f (xs ! unat i)")
      case None
      have "scan (i + 1) e body = Inr (case List.find (\<lambda>x. f x \<noteq> None) (drop (unat (i + 1)) xs) of None \<Rightarrow> None | Some x \<Rightarrow> f x)"
      proof (rule 1(1) [OF True])
        show "body i = Inr None" using b None by simp
        show "None = None" by simp
        show "unat (i + 1) \<le> length xs" using lt unat_Suc_less [OF True] by simp
        show "unat e = length xs" by (rule 1(3))
        show "body j = Inr (f (xs ! unat j))" if "i + 1 \<le> j" "j < e" for j
          using 1(4) that le by (meson order_trans)
      qed
      then show ?thesis using True b None d unat_Suc_less [OF True] by (subst scan.simps) simp
    next
      case (Some r)
      then show ?thesis using True b d by (subst scan.simps) simp
    qed
  next
    case False
    then have "drop (unat i) xs = []" using 1(2,3) by (simp add: word_less_nat_alt)
    then show ?thesis using False by (subst scan.simps) simp
  qed
qed

section \<open>Containers read by index\<close>

locale indexed =
  fixes get :: "'c \<Rightarrow> size_t \<Rightarrow> 'a exec"
    and count :: "'c \<Rightarrow> size_t"
    and rel :: "'c \<Rightarrow> 'a list \<Rightarrow> bool"
  assumes count_rel: "rel c xs \<Longrightarrow> unat (count c) = length xs"
    and get_rel: "rel c xs \<Longrightarrow> unat i < length xs \<Longrightarrow> get c i = Inr (xs ! unat i)"
begin

lemma scan_rel:
  assumes "rel c xs"
  shows "scan 0 (count c) (\<lambda>i. exec_bind (get c i) (\<lambda>x. Inr (f x))) =
    Inr (case List.find (\<lambda>x. f x \<noteq> None) xs of None \<Rightarrow> None | Some x \<Rightarrow> f x)"
  using scan_list [of 0 xs "count c" "\<lambda>i. exec_bind (get c i) (\<lambda>x. Inr (f x))" f] count_rel [OF assms] get_rel [OF assms]
  by (simp add: word_less_nat_alt)

lemma for_rel:
  assumes "rel c xs"
  shows "for_exec 0 (count c) (\<lambda>i s. exec_bind (get c i) (\<lambda>x. Inr (f x s))) s = Inr (fold f xs s)"
proof -
  have "\<exists>s'. for_exec 0 (count c) (\<lambda>i s. exec_bind (get c i) (\<lambda>x. Inr (f x s))) s = Inr s' \<and>
      s' = fold f (take (unat (count c)) xs) s"
  proof (rule for_exec_invariant)
    show "\<exists>s'. exec_bind (get c j) (\<lambda>x. Inr (f x t)) = Inr s' \<and> s' = fold f (take (Suc (unat j)) xs) s"
      if "0 \<le> j" "j < count c" "t = fold f (take (unat j) xs) s" for j t
    proof -
      have "unat j < length xs" using that(2) count_rel [OF assms] by (simp add: word_less_nat_alt)
      then show ?thesis using get_rel [OF assms] that(3) by (simp add: take_Suc_conv_app_nth)
    qed
  qed simp_all
  then show ?thesis using count_rel [OF assms] by simp
qed

text \<open>\<^verbatim>\<open>index_of\<close>: the scan that returns the index itself.\<close>

lemma scan_index:
  assumes "rel c xs"
  shows "scan 0 (count c) (\<lambda>i. exec_bind (get c i) (\<lambda>x. Inr (if P x then Some i else None))) =
    Inr (map_option of_nat (List.find (\<lambda>i. P (xs ! i)) [0..<length xs]))"
proof -
  let ?f = "\<lambda>n. if P (xs ! n) then Some (of_nat n :: size_t) else None"
  have "scan 0 (count c) (\<lambda>i. exec_bind (get c i) (\<lambda>x. Inr (if P x then Some i else None))) =
      Inr (case List.find (\<lambda>n. ?f n \<noteq> None) (drop (unat (0 :: size_t)) [0..<length xs]) of None \<Rightarrow> None | Some n \<Rightarrow> ?f n)"
    by (rule scan_list [where f = ?f and xs = "[0..<length xs]"]) (use count_rel [OF assms] get_rel [OF assms] in \<open>auto simp: word_less_nat_alt\<close>)
  moreover have "(\<lambda>n. ?f n \<noteq> None) = (\<lambda>i. P (xs ! i))" by auto
  ultimately have res: "scan 0 (count c) (\<lambda>i. exec_bind (get c i) (\<lambda>x. Inr (if P x then Some i else None))) =
      Inr (case List.find (\<lambda>i. P (xs ! i)) [0..<length xs] of None \<Rightarrow> None | Some n \<Rightarrow> ?f n)"
    by (simp only: unat_0 drop_0)
  show ?thesis
  proof (cases "List.find (\<lambda>i. P (xs ! i)) [0..<length xs]")
    case (Some n)
    moreover have "P (xs ! n)" using Some by (auto simp: find_Some_iff)
    ultimately show ?thesis using res by simp
  qed (use res in simp)
qed

end

end
