(* ===== verification/ArrayLists.thy ===== *)
theory ArrayLists
  imports Loops ErrorOr
begin

text \<open>
  \<^verbatim>\<open>Utils/Arrays/ArrayList.h\<close> and \<^verbatim>\<open>Utils/Arrays/Array.h\<close>: the growing and the fixed array.
  The storage is a list of slots, \<^verbatim>\<open>None\<close> where no object has been constructed or where it
  was destroyed.  Constructing (\<^verbatim>\<open>write_slot\<close>, the placement \<^verbatim>\<open>new\<close>) works in any slot; destroying and
  assigning need an object there, unless the type of the elements is trivial: \<^verbatim>\<open>trivial\<close> says that its
  destructor does nothing and its assignment copies the bytes, as for numbers and plain pointers.
  Allocation is taken to succeed; the null pointer is the empty storage.
  \<^verbatim>\<open>al_rel\<close> and \<^verbatim>\<open>arr_rel\<close> say which list of elements an array holds.
\<close>

section \<open>Slots\<close>

definition read_slot :: "'a option list \<Rightarrow> size_t \<Rightarrow> 'a exec" where
  "read_slot a i = (if unat i < length a then (case a ! unat i of None \<Rightarrow> Inl Uninitialised | Some v \<Rightarrow> Inr v)
     else Inl OutOfBounds)"

definition write_slot :: "'a option list \<Rightarrow> size_t \<Rightarrow> 'a option \<Rightarrow> 'a option list exec" where
  "write_slot a i v = (if unat i < length a then Inr (a[unat i := v]) else Inl OutOfBounds)"

definition destroy_slot :: "bool \<Rightarrow> 'a option list \<Rightarrow> size_t \<Rightarrow> 'a option list exec" where
  "destroy_slot trivial a i = (if trivial then Inr a else exec_bind (read_slot a i) (\<lambda>_. write_slot a i None))"

definition assign_slot :: "bool \<Rightarrow> 'a option list \<Rightarrow> size_t \<Rightarrow> 'a \<Rightarrow> 'a option list exec" where
  "assign_slot trivial a i v =
     (if trivial then write_slot a i (Some v) else exec_bind (read_slot a i) (\<lambda>_. write_slot a i (Some v)))"

definition raw_slots :: "size_t \<Rightarrow> 'a option list" where
  "raw_slots n = replicate (unat n) None"

lemma length_raw_slots [simp]: "length (raw_slots n) = unat n"
  by (simp add: raw_slots_def)

lemma read_slot_in: "unat i < length a \<Longrightarrow> a ! unat i = Some v \<Longrightarrow> read_slot a i = Inr v"
  by (simp add: read_slot_def)

lemma write_slot_in: "unat i < length a \<Longrightarrow> write_slot a i v = Inr (a[unat i := v])"
  by (simp add: write_slot_def)

section \<open>\<^verbatim>\<open>ArrayList\<close>\<close>

record 'a ArrayList =
  m_array :: "'a option list"
  m_size :: size_t
  m_ptr :: size_t

definition DEFAULT_SIZE :: size_t where
  "DEFAULT_SIZE = 8"

definition al_new :: "'a ArrayList" where
  "al_new = \<lparr>m_array = raw_slots DEFAULT_SIZE, m_size = DEFAULT_SIZE, m_ptr = 0\<rparr>"

text \<open>The loop that runs the destructors, shared by \<^verbatim>\<open>clear\<close> and \<^verbatim>\<open>reset\<close>.\<close>

definition al_destroy_elements :: "bool \<Rightarrow> 'a ArrayList \<Rightarrow> 'a option list exec" where
  "al_destroy_elements trivial l = for_exec 0 (m_ptr l) (\<lambda>i a. destroy_slot trivial a i) (m_array l)"

definition al_clear :: "bool \<Rightarrow> 'a ArrayList \<Rightarrow> 'a ArrayList exec" where
  "al_clear trivial l = exec_bind (al_destroy_elements trivial l) (\<lambda>_. Inr \<lparr>m_array = [], m_size = 0, m_ptr = 0\<rparr>)"

definition al_reset :: "bool \<Rightarrow> 'a ArrayList \<Rightarrow> 'a ArrayList exec" where
  "al_reset trivial l = exec_bind (al_destroy_elements trivial l)
     (\<lambda>_. Inr \<lparr>m_array = raw_slots DEFAULT_SIZE, m_size = DEFAULT_SIZE, m_ptr = 0\<rparr>)"

definition al_copy :: "'a ArrayList \<Rightarrow> 'a ArrayList exec" where
  "al_copy other =
     exec_bind (for_exec 0 (m_ptr other) (\<lambda>i a. exec_bind (read_slot (m_array other) i) (\<lambda>v. write_slot a i (Some v)))
       (raw_slots (m_size other))) (\<lambda>a.
     Inr \<lparr>m_array = a, m_size = m_size other, m_ptr = m_ptr other\<rparr>)"

definition al_moved_from :: "'a ArrayList" where
  "al_moved_from = \<lparr>m_array = [], m_size = 0, m_ptr = 0\<rparr>"

definition al_move :: "'a ArrayList \<Rightarrow> 'a ArrayList \<times> 'a ArrayList" where
  "al_move other = (other, al_moved_from)"

definition al_assign :: "bool \<Rightarrow> bool \<Rightarrow> 'a ArrayList \<Rightarrow> 'a ArrayList \<Rightarrow> 'a ArrayList exec" where
  "al_assign trivial same this other =
     (if same then Inr this else exec_bind (al_clear trivial this) (\<lambda>_. al_copy other))"

definition al_assign_move :: "bool \<Rightarrow> bool \<Rightarrow> 'a ArrayList \<Rightarrow> 'a ArrayList \<Rightarrow> ('a ArrayList \<times> 'a ArrayList) exec" where
  "al_assign_move trivial same this other =
     (if same then Inr (this, this) else exec_bind (al_clear trivial this) (\<lambda>_. Inr (al_move other)))"

definition al_grow :: "'a ArrayList \<Rightarrow> 'a ArrayList exec" where
  "al_grow l =
     (let newSize = m_size l * 2 in
      exec_bind (for_exec 0 (m_ptr l) (\<lambda>i a. exec_bind (read_slot (m_array l) i) (\<lambda>v. write_slot a i (Some v)))
        (raw_slots newSize)) (\<lambda>tmpArray.
      Inr (l\<lparr>m_array := tmpArray, m_size := newSize\<rparr>)))"

definition al_add :: "'a ArrayList \<Rightarrow> 'a \<Rightarrow> (size_t \<times> 'a ArrayList) exec" where
  "al_add l value =
     exec_bind (if m_ptr l \<ge> m_size l then al_grow l else Inr l) (\<lambda>l.
     exec_bind (write_slot (m_array l) (m_ptr l) (Some value)) (\<lambda>a.
     Inr (m_ptr l, l\<lparr>m_array := a, m_ptr := m_ptr l + 1\<rparr>)))"

definition al_add_and_return :: "'a ArrayList \<Rightarrow> 'a \<Rightarrow> ('a \<times> 'a ArrayList) exec" where
  "al_add_and_return l element = exec_bind (al_add l element) (\<lambda>(_, l). Inr (element, l))"

definition al_get :: "'a ArrayList \<Rightarrow> size_t \<Rightarrow> 'a exec" where
  "al_get l index = (if \<not> index < m_size l then Inl (AssertFailed ''Array: Index out of bounds!'')
     else read_slot (m_array l) index)"

text \<open>Writing through the reference \<^verbatim>\<open>get\<close> returns.\<close>

definition al_set :: "bool \<Rightarrow> 'a ArrayList \<Rightarrow> size_t \<Rightarrow> 'a \<Rightarrow> 'a ArrayList exec" where
  "al_set trivial l index v = (if \<not> index < m_size l then Inl (AssertFailed ''Array: Index out of bounds!'')
     else exec_bind (assign_slot trivial (m_array l) index v) (\<lambda>a. Inr (l\<lparr>m_array := a\<rparr>)))"

text \<open>
  \<^verbatim>\<open>remove\<close> destroys the element, moves the elements behind it down by assigning to their
  predecessors, the destroyed one first, and destroys the last slot.
\<close>

definition al_remove :: "bool \<Rightarrow> 'a ArrayList \<Rightarrow> size_t \<Rightarrow> 'a ArrayList exec" where
  "al_remove trivial l index =
     (if \<not> index < m_size l then Inl (AssertFailed ''Array: Index out of bounds!'')
      else exec_bind (destroy_slot trivial (m_array l) index) (\<lambda>a.
        exec_bind (for_exec index (m_ptr l - 1) (\<lambda>i a. exec_bind (read_slot a (i + 1)) (\<lambda>v. assign_slot trivial a i v)) a) (\<lambda>a.
        exec_bind (destroy_slot trivial a (m_ptr l - 1)) (\<lambda>a.
        Inr (l\<lparr>m_array := a, m_ptr := m_ptr l - 1\<rparr>)))))"

definition al_count :: "'a ArrayList \<Rightarrow> size_t" where
  "al_count l = m_ptr l"

definition al_is_empty :: "'a ArrayList \<Rightarrow> bool" where
  "al_is_empty l = (m_ptr l = 0)"

definition al_find_first_match :: "'a ArrayList \<Rightarrow> ('a \<Rightarrow> bool) \<Rightarrow> 'a error_or exec" where
  "al_find_first_match l predicate =
     exec_bind (scan 0 (al_count l) (\<lambda>i. exec_bind (al_get l i) (\<lambda>x. Inr (if predicate x then Some x else None)))) (\<lambda>r.
     Inr (case r of Some x \<Rightarrow> Inr x | None \<Rightarrow> Inl (create_from_string ''No match found!'')))"

definition al_find_all_matches :: "'a ArrayList \<Rightarrow> ('a \<Rightarrow> bool) \<Rightarrow> 'a ArrayList exec" where
  "al_find_all_matches l predicate =
     for_exec 0 (al_count l) (\<lambda>i matches. exec_bind (al_get l i) (\<lambda>x.
       if predicate x then exec_bind (al_add matches x) (\<lambda>(_, m). Inr m) else Inr matches)) al_new"

definition al_for_each :: "'a ArrayList \<Rightarrow> ('a \<Rightarrow> 's \<Rightarrow> 's) \<Rightarrow> 's \<Rightarrow> 's exec" where
  "al_for_each l func s = for_exec 0 (al_count l) (\<lambda>i s. exec_bind (al_get l i) (\<lambda>x. Inr (func x s))) s"

definition al_contains_if :: "'a ArrayList \<Rightarrow> ('a \<Rightarrow> bool) \<Rightarrow> bool exec" where
  "al_contains_if l predicate =
     exec_bind (scan 0 (al_count l) (\<lambda>i. exec_bind (al_get l i) (\<lambda>x. Inr (if predicate x then Some True else None)))) (\<lambda>r.
     Inr (case r of Some b \<Rightarrow> b | None \<Rightarrow> False))"

definition al_contains :: "'a ArrayList \<Rightarrow> 'a \<Rightarrow> bool exec" where
  "al_contains l element =
     exec_bind (scan 0 (al_count l) (\<lambda>i. exec_bind (al_get l i) (\<lambda>x. Inr (if x = element then Some True else None)))) (\<lambda>r.
     Inr (case r of Some b \<Rightarrow> b | None \<Rightarrow> False))"

definition al_index_of :: "'a ArrayList \<Rightarrow> 'a \<Rightarrow> int exec" where
  "al_index_of l element =
     exec_bind (scan 0 (al_count l) (\<lambda>i. exec_bind (al_get l i) (\<lambda>x. Inr (if x = element then Some i else None)))) (\<lambda>r.
     Inr (case r of Some i \<Rightarrow> sint i | None \<Rightarrow> -1))"

section \<open>The list an array holds\<close>

definition slots_rel :: "'a option list \<Rightarrow> 'a list \<Rightarrow> bool" where
  "slots_rel a xs \<longleftrightarrow> length xs \<le> length a \<and> (\<forall>i < length xs. a ! i = Some (xs ! i))"

definition al_rel :: "'a ArrayList \<Rightarrow> 'a list \<Rightarrow> bool" where
  "al_rel l xs \<longleftrightarrow> length (m_array l) = unat (m_size l) \<and> unat (m_ptr l) = length xs \<and> slots_rel (m_array l) xs"

lemma read_slot_rel: "slots_rel a xs \<Longrightarrow> unat i < length xs \<Longrightarrow> read_slot a i = Inr (xs ! unat i)"
  by (auto simp: slots_rel_def read_slot_def)

lemma slots_rel_snoc:
  assumes "slots_rel a xs" "length xs < length a"
  shows "slots_rel (a[length xs := Some v]) (xs @ [v])"
  using assms by (auto simp: slots_rel_def nth_list_update nth_append less_Suc_eq)

text \<open>The copying loop of the copy constructor, copy assignment and \<^verbatim>\<open>grow\<close>.\<close>

lemma copy_slots_rel:
  assumes "slots_rel a xs" "unat p = length xs" "length xs \<le> unat n"
  shows "\<exists>b. for_exec 0 p (\<lambda>i b. exec_bind (read_slot a i) (\<lambda>v. write_slot b i (Some v))) (raw_slots n) = Inr b \<and>
    slots_rel b xs \<and> length b = unat n"
proof -
  let ?P = "\<lambda>k b. slots_rel b (take k xs) \<and> length b = unat n"
  have "\<exists>b. for_exec 0 p (\<lambda>i b. exec_bind (read_slot a i) (\<lambda>v. write_slot b i (Some v))) (raw_slots n) = Inr b \<and> ?P (unat p) b"
  proof (rule for_exec_invariant)
    show "?P (unat (0 :: size_t)) (raw_slots n)" by (simp add: slots_rel_def)
    show "\<exists>b'. exec_bind (read_slot a j) (\<lambda>v. write_slot b j (Some v)) = Inr b' \<and> ?P (Suc (unat j)) b'"
      if "0 \<le> j" "j < p" "?P (unat j) b" for j b
    proof -
      have j: "unat j < length xs" using that(2) assms(2) by (simp add: word_less_nat_alt)
      then have jb: "unat j < length b" using that(3) assms(3) by simp
      have "slots_rel (b[unat j := Some (xs ! unat j)]) (take (Suc (unat j)) xs)"
        using slots_rel_snoc [of b "take (unat j) xs" "xs ! unat j"] that(3) j jb by (simp add: take_Suc_conv_app_nth)
      then show ?thesis using read_slot_rel [OF assms(1) j] write_slot_in [OF jb] that(3) by simp
    qed
  qed simp
  then show ?thesis using assms(2) by simp
qed

lemma destroy_elements_ok:
  assumes "al_rel l xs"
  shows "\<exists>a. al_destroy_elements trivial l = Inr a"
proof -
  let ?P = "\<lambda>k a. length a = length (m_array l) \<and> (\<forall>j. k \<le> j \<and> j < length xs \<longrightarrow> a ! j = Some (xs ! j))"
  have "\<exists>a. al_destroy_elements trivial l = Inr a \<and> ?P (unat (m_ptr l)) a"
    unfolding al_destroy_elements_def
  proof (rule for_exec_invariant)
    show "?P (unat (0 :: size_t)) (m_array l)" using assms by (simp add: al_rel_def slots_rel_def)
    show "\<exists>a'. destroy_slot trivial a j = Inr a' \<and> ?P (Suc (unat j)) a'"
      if "0 \<le> j" "j < m_ptr l" "?P (unat j) a" for j and a :: "'a option list"
    proof -
      have j: "unat j < length xs" "unat j < length a"
        using that(2,3) assms unfolding word_less_nat_alt al_rel_def slots_rel_def by linarith+
      then show ?thesis using that(3) by (simp add: destroy_slot_def read_slot_in write_slot_in)
    qed
  qed simp
  then show ?thesis by blast
qed

lemma al_new_rel: "al_rel al_new []"
  by (simp add: al_rel_def al_new_def slots_rel_def DEFAULT_SIZE_def)

lemma al_copy_rel:
  assumes "al_rel l xs"
  shows "\<exists>l'. al_copy l = Inr l' \<and> al_rel l' xs \<and> m_size l' = m_size l"
  using copy_slots_rel [of "m_array l" xs "m_ptr l" "m_size l"] assms
  by (fastforce simp: al_copy_def al_rel_def slots_rel_def)

lemma al_grow_rel:
  assumes "al_rel l xs" "unat (m_size l) < 2 ^ 63"
  shows "\<exists>l'. al_grow l = Inr l' \<and> al_rel l' xs \<and> unat (m_size l') = 2 * unat (m_size l)"
proof -
  have "unat (m_size l) * unat (2 :: size_t) < 2 ^ 64" using assms(2) by simp
  then have n: "unat (m_size l * 2) = unat (m_size l) * 2" by (subst unat_mult_no_wrap) simp_all
  have "length xs \<le> unat (m_size l * 2)" using assms(1) n by (simp add: al_rel_def slots_rel_def)
  from copy_slots_rel [OF _ _ this, of "m_array l" "m_ptr l"] assms(1)
  show ?thesis using n by (fastforce simp: al_grow_def al_rel_def Let_def)
qed

lemma al_add_rel:
  assumes "al_rel l xs" "0 < m_size l" "unat (m_size l) < 2 ^ 63"
  shows "\<exists>l'. al_add l v = Inr (m_ptr l, l') \<and> al_rel l' (xs @ [v]) \<and>
    unat (m_size l') = (if length xs < unat (m_size l) then unat (m_size l) else 2 * unat (m_size l))"
proof -
  have size0: "0 < unat (m_size l)" using assms(2) by (simp add: word_less_nat_alt)
  have le: "length xs \<le> unat (m_size l)" using assms(1) by (simp add: al_rel_def slots_rel_def)
  have ge: "m_ptr l \<ge> m_size l \<longleftrightarrow> \<not> length xs < unat (m_size l)"
    using assms(1) by (simp add: al_rel_def word_le_nat_alt not_less)
  have "\<exists>l1. (if m_ptr l \<ge> m_size l then al_grow l else Inr l) = Inr l1 \<and> al_rel l1 xs \<and> length xs < unat (m_size l1) \<and>
      unat (m_size l1) = (if length xs < unat (m_size l) then unat (m_size l) else 2 * unat (m_size l))"
    using al_grow_rel [OF assms(1,3)] assms(1) ge size0 le by auto
  then obtain l1 where l1: "(if m_ptr l \<ge> m_size l then al_grow l else Inr l) = Inr l1" "al_rel l1 xs"
      "length xs < unat (m_size l1)"
      "unat (m_size l1) = (if length xs < unat (m_size l) then unat (m_size l) else 2 * unat (m_size l))"
    by blast
  have p: "unat (m_ptr l1) = length xs" "m_ptr l1 = m_ptr l"
    using l1(2) assms(1) by (simp_all add: al_rel_def word_unat_eq_iff)
  have lt: "unat (m_ptr l1) < length (m_array l1)" using l1(2,3) by (simp add: al_rel_def)
  have "m_ptr l1 < m_size l1" using l1(3) p by (simp add: word_less_nat_alt)
  then have suc: "unat (m_ptr l1 + 1) = Suc (length xs)" using unat_Suc_less p by metis
  have "slots_rel ((m_array l1)[length xs := Some v]) (xs @ [v])"
    using slots_rel_snoc [of "m_array l1" xs v] l1(2,3) by (simp add: al_rel_def)
  then show ?thesis
    using l1 p lt suc by (auto simp: al_add_def write_slot_in al_rel_def)
qed

lemma al_get_rel:
  assumes "al_rel l xs" "unat i < length xs"
  shows "al_get l i = Inr (xs ! unat i)"
proof -
  have "i < m_size l" using assms by (simp add: al_rel_def slots_rel_def word_less_nat_alt)
  then show ?thesis using assms read_slot_rel [of "m_array l" xs i] by (simp add: al_get_def al_rel_def)
qed

lemma al_set_rel:
  assumes "al_rel l xs" "unat i < length xs"
  shows "\<exists>l'. al_set trivial l i v = Inr l' \<and> al_rel l' (xs[unat i := v]) \<and> m_size l' = m_size l"
proof -
  have i: "i < m_size l" "unat i < length (m_array l)" using assms by (simp_all add: al_rel_def slots_rel_def word_less_nat_alt)
  have "slots_rel ((m_array l)[unat i := Some v]) (xs[unat i := v])"
    using assms by (auto simp: al_rel_def slots_rel_def nth_list_update)
  moreover have "read_slot (m_array l) i = Inr (xs ! unat i)" using assms by (intro read_slot_rel) (simp_all add: al_rel_def)
  ultimately show ?thesis using i assms(1) by (simp add: al_set_def assign_slot_def write_slot_in al_rel_def)
qed

interpretation array_list: indexed al_get al_count al_rel
  by unfold_locales (simp_all add: al_rel_def al_count_def al_get_rel [unfolded al_rel_def])

lemma al_remove_rel:
  assumes rel: "al_rel l xs" and i: "unat i < length xs"
  shows "\<exists>l'. al_remove True l i = Inr l' \<and> al_rel l' (take (unat i) xs @ drop (Suc (unat i)) xs) \<and> m_size l' = m_size l"
proof -
  let ?ys = "take (unat i) xs @ drop (Suc (unat i)) xs"
  let ?e = "m_ptr l - 1"
  let ?P = "\<lambda>k a. length a = length (m_array l) \<and> slots_rel a (take k ?ys) \<and>
    (\<forall>j. k < j \<and> j < length xs \<longrightarrow> a ! j = Some (xs ! j))"
  have len: "length xs \<le> length (m_array l)" "unat (m_ptr l) = length xs" "length (m_array l) = unat (m_size l)"
    using rel by (simp_all add: al_rel_def slots_rel_def)
  have ys: "length ?ys = length xs - 1" using i by auto
  have "m_ptr l \<noteq> 0" using len(2) i by (auto simp: word_unat_eq_iff)
  then have e: "unat ?e = length xs - 1" using len(2) by (simp add: unat_minus_one)
  have im: "i < m_size l" "unat i < length (m_array l)" using i len by (simp_all add: word_less_nat_alt)
  have start: "?P (unat i) (m_array l)"
    using rel i by (auto simp: al_rel_def slots_rel_def nth_list_update nth_append)
  have nth: "?ys ! k = xs ! Suc k" if "unat i \<le> k" "Suc k < length xs" for k
    using that i by (simp add: nth_append min_def)
  have "\<exists>a. for_exec i ?e (\<lambda>i a. exec_bind (read_slot a (i + 1)) (\<lambda>v. assign_slot True a i v))
      (m_array l) = Inr a \<and> ?P (unat ?e) a"
  proof (rule for_exec_invariant [where P = ?P])
    show "?P (unat i) (m_array l)" by (rule start)
    show "unat i \<le> unat ?e" using e i by simp
    show "\<exists>a'. exec_bind (read_slot a (k + 1)) (\<lambda>v. assign_slot True a k v) = Inr a' \<and> ?P (Suc (unat k)) a'"
      if k: "i \<le> k" "k < ?e" and P: "?P (unat k) a" for k a
    proof -
      have suc: "unat (k + 1) = Suc (unat k)" using unat_Suc_less [OF k(2)] .
      have lt: "Suc (unat k) < length xs" using k(2) e by (simp add: word_less_nat_alt)
      then have la: "unat (k + 1) < length a" "unat k < length a" using P suc len(1) by simp_all
      have "read_slot a (k + 1) = Inr (xs ! Suc (unat k))"
        using P lt la suc by (intro read_slot_in) auto
      moreover have "slots_rel (a[unat k := Some (xs ! Suc (unat k))]) (take (Suc (unat k)) ?ys)"
        using slots_rel_snoc [of a "take (unat k) ?ys" "xs ! Suc (unat k)"] P la lt ys k(1)
          nth [of "unat k"] take_Suc_conv_app_nth [of "unat k" ?ys] by (simp add: word_le_nat_alt)
      ultimately show ?thesis using P la by (simp add: assign_slot_def write_slot_in)
    qed
  qed
  then obtain a where a: "for_exec i ?e (\<lambda>i a. exec_bind (read_slot a (i + 1)) (\<lambda>v. assign_slot True a i v))
      (m_array l) = Inr a" "length a = length (m_array l)" "slots_rel a ?ys"
    using e ys by (metis take_all order_refl)
  then show ?thesis using im len e ys by (simp add: al_remove_def destroy_slot_def al_rel_def)
qed

text \<open>With a destructor of its own, the element just destroyed is assigned to, or destroyed again.\<close>

lemma al_remove_destroyed:
  assumes rel: "al_rel l xs" and i: "unat i < length xs"
  shows "al_remove False l i = Inl Uninitialised"
proof -
  let ?a = "(m_array l)[unat i := None]" and ?e = "m_ptr l - 1"
  have len: "length xs \<le> length (m_array l)" "unat (m_ptr l) = length xs" "length (m_array l) = unat (m_size l)"
    using rel by (simp_all add: al_rel_def slots_rel_def)
  have "m_ptr l \<noteq> 0" using len(2) i by (auto simp: word_unat_eq_iff)
  then have e: "unat ?e = length xs - 1" using len(2) by (simp add: unat_minus_one)
  have im: "i < m_size l" "unat i < length (m_array l)" using i len by (simp_all add: word_less_nat_alt)
  have "read_slot (m_array l) i = Inr (xs ! unat i)" using rel i by (intro read_slot_rel) (simp_all add: al_rel_def)
  then have first: "destroy_slot False (m_array l) i = Inr ?a" using im by (simp add: destroy_slot_def write_slot_in)
  have dead: "read_slot ?a i = Inl Uninitialised" using im by (simp add: read_slot_def)
  show ?thesis
  proof (cases "i < ?e")
    case True
    then have lt: "Suc (unat i) < length xs" using e by (simp add: word_less_nat_alt)
    have "read_slot ?a (i + 1) = Inr (xs ! Suc (unat i))"
      using rel lt len(1) unat_Suc_less [OF True] by (intro read_slot_in) (auto simp: al_rel_def slots_rel_def)
    then show ?thesis using True im first dead by (subst al_remove_def, subst for_exec.simps) (simp add: assign_slot_def)
  next
    case False
    then have "i = ?e" using i e by (simp add: word_unat_eq_iff word_less_nat_alt)
    then show ?thesis using im first dead by (subst al_remove_def, subst for_exec.simps) (simp add: destroy_slot_def)
  qed
qed

text \<open>The searches.\<close>

lemma find_first_option:
  "(case List.find (\<lambda>x. (if P x then Some x else None) \<noteq> None) xs of None \<Rightarrow> None | Some x \<Rightarrow> if P x then Some x else None) = List.find P xs"
  by (induction xs) auto

lemma find_exists:
  "(case List.find (\<lambda>x. (if P x then Some True else None) \<noteq> None) xs of None \<Rightarrow> None | Some x \<Rightarrow> if P x then Some True else None)
    = (if \<exists>x \<in> set xs. P x then Some True else None)"
  by (induction xs) auto

lemma al_find_first_rel:
  assumes "al_rel l xs"
  shows "al_find_first_match l P =
    Inr (case List.find P xs of Some x \<Rightarrow> Inr x | None \<Rightarrow> Inl (create_from_string ''No match found!''))"
  unfolding al_find_first_match_def array_list.scan_rel [OF assms] find_first_option by simp

lemma al_contains_if_rel: "al_rel l xs \<Longrightarrow> al_contains_if l P = Inr (\<exists>x \<in> set xs. P x)"
  unfolding al_contains_if_def by (subst array_list.scan_rel, assumption, subst find_exists) simp

lemma al_contains_rel: "al_rel l xs \<Longrightarrow> al_contains l x = Inr (x \<in> set xs)"
  unfolding al_contains_def by (subst array_list.scan_rel, assumption, subst find_exists) auto

lemma al_index_of_rel:
  assumes "al_rel l xs" "length xs < 2 ^ 63"
  shows "al_index_of l x = Inr (case List.find (\<lambda>i. xs ! i = x) [0..<length xs] of Some i \<Rightarrow> int i | None \<Rightarrow> -1)"
proof (cases "List.find (\<lambda>i. xs ! i = x) [0..<length xs]")
  case (Some i)
  then have "i < length xs" by (auto simp: find_Some_iff)
  then have "i < 2 ^ 63" using assms(2) by simp
  then have "sint (of_nat i :: size_t) = int i"
    using signed_take_bit_int_eq_self [of 63 "int i"] by (simp add: signed_of_nat)
  then show ?thesis using Some by (simp add: al_index_of_def array_list.scan_index [OF assms(1)])
qed (simp add: al_index_of_def array_list.scan_index [OF assms(1)])

lemma al_for_each_rel: "al_rel l xs \<Longrightarrow> al_for_each l f s = Inr (fold f xs s)"
  by (simp add: al_for_each_def array_list.for_rel)

lemma al_find_all_rel:
  assumes "al_rel l xs" "length xs < 2 ^ 62"
  shows "\<exists>l'. al_find_all_matches l P = Inr l' \<and> al_rel l' (filter P xs)"
proof -
  let ?Q = "\<lambda>k m. al_rel m (filter P (take k xs)) \<and> 0 < m_size m \<and> unat (m_size m) \<le> max 8 (2 * k)"
  have n: "unat (al_count l) = length xs" using array_list.count_rel [OF assms(1)] .
  have "\<exists>m. al_find_all_matches l P = Inr m \<and> ?Q (unat (al_count l)) m"
    unfolding al_find_all_matches_def
  proof (rule for_exec_invariant)
    show "?Q (unat (0 :: size_t)) al_new" using al_new_rel by (simp add: al_new_def DEFAULT_SIZE_def)
    show "\<exists>m'. exec_bind (al_get l j) (\<lambda>x. if P x then exec_bind (al_add m x) (\<lambda>(_, m). Inr m) else Inr m) = Inr m' \<and>
        ?Q (Suc (unat j)) m'" if "0 \<le> j" "j < al_count l" and Q: "?Q (unat j) m" for j m
    proof -
      have j: "unat j < length xs" using that(2) n by (simp add: word_less_nat_alt)
      have get: "al_get l j = Inr (xs ! unat j)" using al_get_rel [OF assms(1) j] .
      have fil: "filter P (take (Suc (unat j)) xs) = filter P (take (unat j) xs) @ (if P (xs ! unat j) then [xs ! unat j] else [])"
        using j by (simp add: take_Suc_conv_app_nth)
      have len: "length (filter P (take (unat j) xs)) \<le> unat j" using j length_filter_le [of P "take (unat j) xs"] by simp
      have "unat (m_size m) \<le> max 8 (2 * length xs)" using Q j by auto
      then have "unat (m_size m) < 2 ^ 63" using assms(2) by simp
      with Q obtain m' where m': "al_add m (xs ! unat j) = Inr (m_ptr m, m')"
          "al_rel m' (filter P (take (unat j) xs) @ [xs ! unat j])"
          "unat (m_size m') = (if length (filter P (take (unat j) xs)) < unat (m_size m) then unat (m_size m) else 2 * unat (m_size m))"
        using al_add_rel [of m "filter P (take (unat j) xs)" "xs ! unat j"] by blast
      have "0 < unat (m_size m')" "unat (m_size m') \<le> max 8 (2 * Suc (unat j))"
        using m'(3) Q len by (auto simp: word_less_nat_alt)
      then show ?thesis using get m'(1,2) Q fil by (auto simp: word_less_nat_alt)
    qed
  qed simp
  then show ?thesis using n by auto
qed

section \<open>Properties\<close>

text \<open>
  C11. \<^verbatim>\<open>ArrayList\<close> refines the list of its elements.  Adding grows the storage when it is full
  and appends, reading and writing by index work within the elements, the searches find the first and all
  matches, copying preserves the elements, and none of these nor the destructor reads or destroys a slot that
  holds no object.  \<^verbatim>\<open>remove\<close> is different: it assigns to the element it has just destroyed, or destroys it
  again if it is the last.  For elements whose destructor and assignment are trivial, such as the request pointers
  of the block driver, this does no harm and the gap is closed; for all others, every \<^verbatim>\<open>remove\<close> of an
  element uses an object after its destruction.  The storage must not be the empty one a moved-from list keeps, and
  has less than \<^verbatim>\<open>2 ^ 62\<close> slots.
\<close>

theorem array_list_refines_list:
  assumes "al_rel l xs" "0 < m_size l" "unat (m_size l) < 2 ^ 62"
  shows "(\<exists>l'. al_add l v = Inr (of_nat (length xs), l') \<and> al_rel l' (xs @ [v]) \<and> 0 < m_size l') \<and>
    (\<forall>i. unat i < length xs \<longrightarrow> al_get l i = Inr (xs ! unat i) \<and>
      (\<forall>trivial. \<exists>l'. al_set trivial l i v = Inr l' \<and> al_rel l' (xs[unat i := v])) \<and>
      (\<exists>l'. al_remove True l i = Inr l' \<and> al_rel l' (take (unat i) xs @ drop (Suc (unat i)) xs)) \<and>
      al_remove False l i = Inl Uninitialised) \<and>
    al_find_first_match l P =
      Inr (case List.find P xs of Some x \<Rightarrow> Inr x | None \<Rightarrow> Inl (create_from_string ''No match found!'')) \<and>
    (\<exists>l'. al_find_all_matches l P = Inr l' \<and> al_rel l' (filter P xs)) \<and>
    al_contains l v = Inr (v \<in> set xs) \<and>
    al_index_of l v = Inr (case List.find (\<lambda>i. xs ! i = v) [0..<length xs] of Some i \<Rightarrow> int i | None \<Rightarrow> -1) \<and>
    (\<exists>l'. al_copy l = Inr l' \<and> al_rel l' xs) \<and>
    (\<forall>trivial. al_clear trivial l = Inr al_moved_from)"
proof -
  have len: "length xs < 2 ^ 62" using assms(1,3) unfolding al_rel_def slots_rel_def by linarith
  have size: "unat (m_size l) < 2 ^ 63" "length xs < 2 ^ 63" using assms(3) len by simp_all
  have "m_ptr l = of_nat (length xs)" using assms(1) by (metis al_rel_def unat_of_nat_self)
  then have add: "\<exists>l'. al_add l v = Inr (of_nat (length xs), l') \<and> al_rel l' (xs @ [v]) \<and> 0 < m_size l'"
    using al_add_rel [OF assms(1,2) size(1), of v] assms(2) by (auto simp: word_less_nat_alt)
  have clear: "al_clear trivial l = Inr al_moved_from" for trivial
    using destroy_elements_ok [OF assms(1), of trivial] by (auto simp: al_clear_def al_moved_from_def)
  show ?thesis
    using add clear al_get_rel [OF assms(1)] al_set_rel [OF assms(1)] al_remove_rel [OF assms(1)] al_remove_destroyed [OF assms(1)]
      al_find_first_rel [OF assms(1)] al_find_all_rel [OF assms(1) len] al_contains_rel [OF assms(1)]
      al_index_of_rel [OF assms(1) size(2)] al_copy_rel [OF assms(1)] by blast
qed

theorem array_list_refines_list_witness:
  "(\<exists>l. al_add al_new (3 :: nat) = Inr (0, l) \<and> al_rel l [3]) \<and>
    (\<exists>l'. al_remove True \<lparr>m_array = [Some 3, Some (5 :: nat)], m_size = 2, m_ptr = 2\<rparr> 0 = Inr l' \<and> al_rel l' [5]) \<and>
    al_remove False \<lparr>m_array = [Some 3, Some (5 :: nat)], m_size = 2, m_ptr = 2\<rparr> 0 = Inl Uninitialised"
proof -
  have "al_rel \<lparr>m_array = [Some 3, Some (5 :: nat)], m_size = 2, m_ptr = 2\<rparr> [3, 5]"
    by (auto simp: al_rel_def slots_rel_def less_Suc_eq)
  from array_list_refines_list [OF this, of "0" "\<lambda>_. True"]
  have "(\<exists>l'. al_remove True \<lparr>m_array = [Some 3, Some (5 :: nat)], m_size = 2, m_ptr = 2\<rparr> 0 = Inr l' \<and> al_rel l' [5]) \<and>
    al_remove False \<lparr>m_array = [Some 3, Some (5 :: nat)], m_size = 2, m_ptr = 2\<rparr> 0 = Inl Uninitialised"
    by (simp, elim conjE allE [of _ "0 :: size_t"]) simp
  moreover have "\<exists>l. al_add al_new (3 :: nat) = Inr (0, l) \<and> al_rel l [3]"
    using array_list_refines_list [OF al_new_rel, of "3 :: nat" "\<lambda>_. True"] by (auto simp: al_new_def DEFAULT_SIZE_def)
  ultimately show ?thesis by blast
qed

end
