(* ===== verification/Scheduling.thy ===== *)
theory Scheduling
  imports Queues ArrayLists PageTables
begin

text \<open>
  Threads, processes and the scheduler (\<^verbatim>\<open>Kernel/Process\<close>, \<^verbatim>\<open>Kernel/System/TrapFrame.h\<close>,
  \<^verbatim>\<open>Utils/Locks/Lock.h\<close>).  Trap frames lie in the byte memory at the offsets of their
  fields; threads and processes live in stores of pointers; the run queue and the process
  list are the containers of \<^verbatim>\<open>Queues\<close> and \<^verbatim>\<open>ArrayLists\<close>.
\<close>

section \<open>Locks and trap frames\<close>

text \<open>\<^verbatim>\<open>amoswap.d.aq\<close> stores one and returns the old state.\<close>

definition try_lock :: "u64 \<Rightarrow> bool \<times> u64" where
  "try_lock state = (let st = state; state = 1 in (st = 0, state))"

definition unlock :: "u64 \<Rightarrow> u64" where
  "unlock state = 0"

datatype RegisterOffset = GP0 | GP1 | GP2 | GP3 | GP4 | GP5 | GP6 | GP7 | SP | RA | SyscallId

fun register_index :: "RegisterOffset \<Rightarrow> u64" where
  "register_index GP0 = 10"
| "register_index GP1 = 11"
| "register_index GP2 = 12"
| "register_index GP3 = 13"
| "register_index GP4 = 14"
| "register_index GP5 = 15"
| "register_index GP6 = 16"
| "register_index GP7 = 17"
| "register_index SP = 2"
| "register_index RA = 1"
| "register_index SyscallId = 17"

text \<open>The fields of \<^verbatim>\<open>TrapFrame\<close> and \<^verbatim>\<open>KernelTrapFrame\<close>, as offsets into the frame.\<close>

datatype frame_field = regs u64 | fregs u64 | sepc | sstatus | scause | stval
  | kernel_satp | kernel_sp | kernel_trap_frame_ptr | kernel_addr
  | cpu_id | current_thread_id | current_process_id

fun field_offset :: "frame_field \<Rightarrow> u64" where
  "field_offset (regs i) = 8 * i"
| "field_offset (fregs i) = 256 + 8 * i"
| "field_offset sepc = 512"
| "field_offset sstatus = 520"
| "field_offset scause = 528"
| "field_offset stval = 536"
| "field_offset kernel_satp = 544"
| "field_offset kernel_sp = 552"
| "field_offset kernel_trap_frame_ptr = 560"
| "field_offset kernel_addr = 568"
| "field_offset cpu_id = 576"
| "field_offset current_thread_id = 584"
| "field_offset current_process_id = 592"

definition frame_get :: "pmem \<Rightarrow> u64 \<Rightarrow> frame_field \<Rightarrow> u64" where
  "frame_get m tf f = load64 m (tf + field_offset f)"

definition frame_set :: "u64 \<Rightarrow> frame_field \<Rightarrow> u64 \<Rightarrow> pmem \<Rightarrow> pmem" where
  "frame_set tf f v m = store64 m (tf + field_offset f) v"

definition get_register :: "pmem \<Rightarrow> u64 \<Rightarrow> RegisterOffset \<Rightarrow> u64" where
  "get_register m tf r = frame_get m tf (regs (register_index r))"

definition set_register :: "u64 \<Rightarrow> RegisterOffset \<Rightarrow> u64 \<Rightarrow> pmem \<Rightarrow> pmem" where
  "set_register tf r v m = frame_set tf (regs (register_index r)) v m"

section \<open>Threads, processes and the kernel state\<close>

datatype ThreadState = Running | Sleeping | Blocked | Dead

datatype ProcessState = PRunning | PSleeping | PBlocked | PDead

record Thread =
  t_trap_frame :: u64
  t_tid :: size_t
  t_pid :: size_t
  t_state :: ThreadState

record Process =
  p_pid :: size_t
  p_gid :: size_t
  p_page_table :: u64
  p_state :: ProcessState
  p_threads :: "nat option ArrayList"

record kernel =
  k_mem :: pmem
  k_threads :: "nat \<Rightarrow> Thread option"
  k_next_thread :: nat
  k_processes :: "nat \<Rightarrow> Process option"
  k_next_process :: nat
  m_run_queue :: "nat LinkedQueue"
  m_process_list :: "nat ArrayList"
  m_process_list_lock :: u64
  m_kernel_process :: nat
  m_pid_counter :: size_t

definition thread_new :: "u64 \<Rightarrow> size_t \<Rightarrow> size_t \<Rightarrow> Thread" where
  "thread_new trap_frame pid tid = \<lparr>t_trap_frame = trap_frame, t_tid = tid, t_pid = pid, t_state = Running\<rparr>"

definition process_new :: "size_t \<Rightarrow> nat option \<Rightarrow> u64 \<Rightarrow> ProcessState \<Rightarrow> Process exec" where
  "process_new pid thread page_table state =
     exec_bind (al_add al_new thread) (\<lambda>(_, threads).
       Inr \<lparr>p_pid = pid, p_gid = pid, p_page_table = page_table, p_state = state, p_threads = threads\<rparr>)"

section \<open>The process manager\<close>

definition process_manager_init :: "pmem \<Rightarrow> u64 \<Rightarrow> kernel exec" where
  "process_manager_init m kernel_root_table =
     exec_bind (process_new 0 None kernel_root_table PRunning) (\<lambda>kernel_process.
       Inr \<lparr>k_mem = m, k_threads = \<lambda>_. None, k_next_thread = 0, k_processes = [0 \<mapsto> kernel_process], k_next_process = 1,
            m_run_queue = queue_new, m_process_list = al_new, m_process_list_lock = 0, m_kernel_process = 0,
            m_pid_counter = 1\<rparr>)"

definition STACK_ADDRESS :: u64 where "STACK_ADDRESS = 0xf0000000"
definition STACK_PAGES :: u64 where "STACK_PAGES = 2"
definition THREAD_FRAME_ADDRESS :: u64 where "THREAD_FRAME_ADDRESS = 0x1000"

definition initialize_thread ::
    "MemoryManager \<Rightarrow> u64 \<Rightarrow> u64 \<Rightarrow> size_t \<Rightarrow> size_t \<Rightarrow> size_t \<Rightarrow> kernel \<Rightarrow> nat \<times> kernel" where
  "initialize_thread mm program_counter satp hart_id pid tid k =
     (let (m, trap_frame) = zalloc mm (k_mem k) 1;
          m = frame_set trap_frame kernel_satp satp m;
          m = frame_set trap_frame (regs 2) STACK_ADDRESS m;
          status = 0 OR push_bit 5 1;
          status = status OR push_bit 13 1;
          status = status OR push_bit 18 1;
          m = frame_set trap_frame sstatus status m;
          m = frame_set trap_frame sepc program_counter m;
          m = frame_set trap_frame kernel_addr trap_frame m;
          t = k_next_thread k
      in (t, k\<lparr>k_mem := m, k_threads := (k_threads k)(t \<mapsto> thread_new trap_frame pid tid), k_next_thread := Suc t\<rparr>))"

definition map_process_image :: "MemoryManager \<Rightarrow> Linker \<Rightarrow> u64 \<Rightarrow> pmem \<Rightarrow> pmem" where
  "map_process_image mm l root m =
     (let m = identity_map_range mm root (l_text_start l) (l_text_end l) (entry_bits USER_READ_EXECUTE) m;
          m = identity_map_range mm root (l_text_special_start l) (l_text_special_end l) (entry_bits USER_READ_EXECUTE) m;
          m = identity_map_range mm root (l_context_switching_start l) (l_context_switching_end l) (entry_bits READ_EXECUTE) m;
          m = identity_map_range mm root (l_data_start l) (l_data_end l) (entry_bits USER_READ_WRITE) m;
          m = identity_map_range mm root (l_bss_start l) (l_bss_end l) (entry_bits USER_READ_WRITE) m
      in identity_map_range mm root (l_rodata_start l) (l_rodata_end l) (entry_bits USER_READ) m)"

definition create_dummy_process :: "MemoryManager \<Rightarrow> Linker \<Rightarrow> u64 \<Rightarrow> kernel \<Rightarrow> (u64 \<times> kernel) exec" where
  "create_dummy_process mm l program_counter k =
     (let (m, root) = zalloc mm (k_mem k) 1;
          m = map_process_image mm l root m;
          satp = build_satp 8 1 root;
          current_pid = m_pid_counter k;
          k = k\<lparr>k_mem := m, m_pid_counter := m_pid_counter k + 1\<rparr>;
          (thread, k) = initialize_thread mm program_counter satp 0 current_pid 0 k;
          trap_frame = t_trap_frame (the (k_threads k thread));
          m = map_page mm root THREAD_FRAME_ADDRESS trap_frame
                (entry_bits READ_WRITE OR entry_bits ACCESS OR entry_bits DIRTY) 0 (k_mem k);
          (m, stack_bottom) = zalloc mm m STACK_PAGES;
          m = map_range mm root (STACK_ADDRESS - PAGE_SIZE * STACK_PAGES) STACK_ADDRESS stack_bottom
                (entry_bits USER_READ_WRITE) m
      in exec_bind (process_new current_pid (Some thread) root PRunning) (\<lambda>p.
         let process = k_next_process k;
             k = k\<lparr>k_mem := m, k_processes := (k_processes k)(process \<mapsto> p), k_next_process := Suc process\<rparr>
         in exec_bind (al_add (m_process_list k) process) (\<lambda>(_, process_list).
            exec_bind (queue_append (m_run_queue k) thread) (\<lambda>run_queue.
            Inr (root, k\<lparr>m_process_list := process_list, m_run_queue := run_queue\<rparr>)))))"

definition create_initial_processes :: "MemoryManager \<Rightarrow> Linker \<Rightarrow> u64 \<Rightarrow> u64 \<Rightarrow> kernel \<Rightarrow> kernel exec" where
  "create_initial_processes mm l dummy_process_main console_main k =
     exec_bind (create_dummy_process mm l dummy_process_main k) (\<lambda>(root, k).
     exec_bind (create_dummy_process mm l console_main k) (\<lambda>(root2, k). Inr k))"

definition get_process :: "kernel \<Rightarrow> u64 \<Rightarrow> nat error_or exec" where
  "get_process k pid =
     al_find_first_match (m_process_list k) (\<lambda>p. case k_processes k p of None \<Rightarrow> False | Some process \<Rightarrow> p_pid process = pid)"

definition get_thread :: "kernel \<Rightarrow> u64 \<Rightarrow> u64 \<Rightarrow> nat option error_or exec" where
  "get_thread k pid tid =
     exec_bind (get_process k pid) (\<lambda>r. try_bind r (\<lambda>process.
       case k_processes k process of None \<Rightarrow> Inl Uninitialised
       | Some p \<Rightarrow> al_find_first_match (p_threads p)
           (\<lambda>t. case t of None \<Rightarrow> False
              | Some t \<Rightarrow> (case k_threads k t of None \<Rightarrow> False | Some thread \<Rightarrow> t_tid thread = tid))))"

definition set_thread_state :: "ThreadState \<Rightarrow> nat option \<Rightarrow> kernel \<Rightarrow> kernel exec" where
  "set_thread_state st t k =
     (case t of None \<Rightarrow> Inl NullDeref
      | Some a \<Rightarrow> (case k_threads k a of None \<Rightarrow> Inl Uninitialised
          | Some thread \<Rightarrow> Inr (k\<lparr>k_threads := (k_threads k)(a \<mapsto> thread\<lparr>t_state := st\<rparr>)\<rparr>)))"

definition unblock :: "size_t \<Rightarrow> size_t \<Rightarrow> kernel \<Rightarrow> kernel exec" where
  "unblock pid tid k =
     exec_bind (get_thread k pid tid) (\<lambda>r. case r of Inl _ \<Rightarrow> Inr k | Inr thread \<Rightarrow> set_thread_state Running thread k)"

definition block :: "size_t \<Rightarrow> size_t \<Rightarrow> kernel \<Rightarrow> kernel exec" where
  "block pid tid k =
     exec_bind (get_thread k pid tid) (\<lambda>r. case r of Inl _ \<Rightarrow> Inr k | Inr thread \<Rightarrow> set_thread_state Blocked thread k)"

text \<open>\<^verbatim>\<open>tp\<close> holds the address of the current hart's \<^verbatim>\<open>KernelTrapFrame\<close>.\<close>

definition get_current_thread :: "u64 \<Rightarrow> kernel \<Rightarrow> nat option exec" where
  "get_current_thread tp k =
     exec_bind (get_thread k (frame_get (k_mem k) tp current_process_id) (frame_get (k_mem k) tp current_thread_id)) (\<lambda>r.
       Inr (case r of Inl _ \<Rightarrow> None | Inr thread \<Rightarrow> thread))"

definition get_current_process :: "u64 \<Rightarrow> kernel \<Rightarrow> nat option exec" where
  "get_current_process tp k =
     exec_bind (get_process k (frame_get (k_mem k) tp current_process_id)) (\<lambda>r.
       Inr (case r of Inl _ \<Rightarrow> None | Inr process \<Rightarrow> Some process))"

section \<open>The scheduler\<close>

definition prepare_for_switch :: "u64 \<Rightarrow> nat \<Rightarrow> kernel \<Rightarrow> kernel exec" where
  "prepare_for_switch tp target_thread k =
     (case k_threads k target_thread of None \<Rightarrow> Inl Uninitialised
      | Some thread \<Rightarrow>
          (let user_tf = t_trap_frame thread; kernel_tf = tp; m = k_mem k;
               m = frame_set user_tf kernel_sp (frame_get m kernel_tf (regs 2)) m;
               m = frame_set user_tf kernel_trap_frame_ptr kernel_tf m;
               m = frame_set kernel_tf current_process_id (t_pid thread) m;
               m = frame_set kernel_tf current_thread_id (t_tid thread) m
           in Inr (k\<lparr>k_mem := m\<rparr>)))"

definition thread_runs :: "kernel \<Rightarrow> nat \<Rightarrow> bool exec" where
  "thread_runs k t = (case k_threads k t of None \<Rightarrow> Inl Uninitialised | Some thread \<Rightarrow> Inr (t_state thread = Running))"

definition schedule :: "u64 \<Rightarrow> kernel \<Rightarrow> (nat option \<times> kernel) exec option" where
  "schedule tp k =
     (let (locked, lock) = try_lock (m_process_list_lock k); k = k\<lparr>m_process_list_lock := lock\<rparr> in
      if \<not> locked then Some (Inr (None, k))
      else
        (case rotate_until queue_rotate_left queue_peek_first (thread_runs k) (m_run_queue k) of
           None \<Rightarrow> None
         | Some (Inl e) \<Rightarrow> Some (Inl e)
         | Some (Inr (first, run_queue)) \<Rightarrow>
             (let k = k\<lparr>m_run_queue := run_queue, m_process_list_lock := unlock (m_process_list_lock k)\<rparr> in
              Some (exec_bind (prepare_for_switch tp first k) (\<lambda>k. Inr (Some first, k))))))"

text \<open>The trap frame \<^verbatim>\<open>start_scheduling\<close> switches to.\<close>

definition start_scheduling :: "u64 \<Rightarrow> kernel \<Rightarrow> (u64 \<times> kernel) exec option" where
  "start_scheduling tp k =
     (case schedule tp k of None \<Rightarrow> None
      | Some r \<Rightarrow> Some (exec_bind r (\<lambda>(t, k).
          case t of None \<Rightarrow> Inl NullDeref
          | Some t \<Rightarrow> (case k_threads k t of None \<Rightarrow> Inl Uninitialised | Some thread \<Rightarrow> Inr (t_trap_frame thread, k)))))"

section \<open>Fields of a frame do not overlap\<close>

lemma in_span_shift: "x \<in> span (c + a) n \<longleftrightarrow> x - c \<in> span a n"
  by (simp add: in_span diff_diff_eq [symmetric])

lemma span_shift_disjoint: "span a n \<inter> span b k = {} \<Longrightarrow> span (c + a) n \<inter> span (c + b) k = {}"
  unfolding set_eq_iff Int_iff in_span_shift by blast

lemma span_sub:
  assumes "unat a + n \<le> k" "k < 2 ^ 64"
  shows "span (b + a) n \<subseteq> span b k"
proof
  fix x assume "x \<in> span (b + a) n"
  then have x: "unat (x - (b + a)) < n" by (simp add: in_span)
  have "x - b = (x - (b + a)) + a" by simp
  then have "unat (x - b) = unat (x - (b + a)) + unat a"
    using x assms by (simp only:) (rule unat_add_no_wrap, simp)
  then show "x \<in> span b k" using x assms by (simp add: in_span)
qed

definition field_ok :: "frame_field \<Rightarrow> bool" where
  "field_ok f = (case f of regs i \<Rightarrow> i < 32 | fregs i \<Rightarrow> i < 32 | _ \<Rightarrow> True)"

lemma unat_times8:
  fixes i :: u64
  assumes "i < 32" shows "unat (8 * i) = 8 * unat i" "unat i < 32"
proof -
  show "unat i < 32" using assms by (simp add: word_less_nat_alt)
  then show "unat (8 * i) = 8 * unat i" by (subst unat_mult_no_wrap) simp_all
qed

lemma unat_times8_add:
  fixes i :: u64
  assumes "i < 32" shows "unat (256 + 8 * i) = 256 + 8 * unat i"
  using unat_times8 [OF assms] by (subst unat_add_no_wrap) simp_all

lemma field_offset_small: "field_ok f \<Longrightarrow> unat (field_offset f) mod 8 = 0 \<and> unat (field_offset f) + 8 \<le> 600"
  by (cases f) (auto simp: field_ok_def unat_times8 unat_times8_add intro: order_trans [OF add_mono] dest: unat_times8(2))

lemma frame_get_set_same [simp]: "frame_get (frame_set tf f v m) tf f = v"
  by (simp add: frame_get_def frame_set_def)

lemma frame_get_set_other:
  assumes "field_ok f" "field_ok g" "field_offset f \<noteq> field_offset g"
  shows "frame_get (frame_set tf g v m) tf f = frame_get m tf f"
  unfolding frame_get_def frame_set_def
proof (intro load64_store64_other span_shift_disjoint aligned_words_disjoint)
  show "unat (field_offset f) mod 8 = 0" "unat (field_offset g) mod 8 = 0"
    using field_offset_small assms(1,2) by blast+
qed (rule assms(3))

lemma frame_get_set_disjoint:
  assumes "field_ok f" "field_ok g" "span tf 600 \<inter> span tf' 600 = {}"
  shows "frame_get (frame_set tf' g v m) tf f = frame_get m tf f"
proof -
  have "span (tf + field_offset f) 8 \<subseteq> span tf 600" "span (tf' + field_offset g) 8 \<subseteq> span tf' 600"
    using field_offset_small [OF assms(1)] field_offset_small [OF assms(2)] by (intro span_sub; simp)+
  then have "span (tf + field_offset f) 8 \<inter> span (tf' + field_offset g) 8 = {}" using assms(3) by blast
  then show ?thesis by (simp add: frame_get_def frame_set_def load64_store64_other)
qed

lemmas frame_simps = frame_get_set_same frame_get_set_other field_ok_def

text \<open>What switching to a thread leaves in the two frames.\<close>

lemma prepare_for_switch_effect:
  assumes "k_threads k t = Some thread" "span (t_trap_frame thread) 600 \<inter> span tp 600 = {}"
  shows "\<exists>m. prepare_for_switch tp t k = Inr (k\<lparr>k_mem := m\<rparr>) \<and>
    frame_get m tp current_process_id = t_pid thread \<and> frame_get m tp current_thread_id = t_tid thread \<and>
    frame_get m (t_trap_frame thread) kernel_sp = frame_get (k_mem k) tp (regs 2) \<and>
    frame_get m (t_trap_frame thread) kernel_trap_frame_ptr = tp"
proof -
  have dis: "span tp 600 \<inter> span (t_trap_frame thread) 600 = {}" using assms(2) by blast
  let ?u = "t_trap_frame thread"
  let ?m = "frame_set tp current_thread_id (t_tid thread) (frame_set tp current_process_id (t_pid thread)
    (frame_set ?u kernel_trap_frame_ptr tp (frame_set ?u kernel_sp (frame_get (k_mem k) tp (regs 2)) (k_mem k))))"
  have "prepare_for_switch tp t k = Inr (k\<lparr>k_mem := ?m\<rparr>)" using assms(1) by (simp add: prepare_for_switch_def Let_def)
  moreover have "frame_get ?m tp current_process_id = t_pid thread" "frame_get ?m tp current_thread_id = t_tid thread"
    by (simp_all add: frame_simps)
  moreover have "frame_get ?m ?u kernel_sp = frame_get (k_mem k) tp (regs 2)" "frame_get ?m ?u kernel_trap_frame_ptr = tp"
    by (simp_all add: frame_get_set_disjoint [OF _ _ assms(2)] frame_simps)
  ultimately show ?thesis by blast
qed

section \<open>Round robin\<close>

text \<open>The threads of the run queue are the list \<^verbatim>\<open>ts\<close>, and every one of them exists.\<close>

definition runnable :: "kernel \<Rightarrow> nat \<Rightarrow> bool" where
  "runnable k t = (t_state (the (k_threads k t)) = Running)"

definition run_queue_ok :: "kernel \<Rightarrow> nat list \<Rightarrow> bool" where
  "run_queue_ok k ts \<longleftrightarrow> queue_list (m_run_queue k) ts \<and> (\<forall>t \<in> set ts. \<exists>thread. k_threads k t = Some thread)"

lemma thread_runs_eq: "run_queue_ok k ts \<Longrightarrow> t \<in> set ts \<Longrightarrow> thread_runs k t = Inr (runnable k t)"
  by (auto simp: run_queue_ok_def thread_runs_def runnable_def)

lemma thread_runs_cong: "k_threads k' = k_threads k \<Longrightarrow> thread_runs k' = thread_runs k"
  by (simp add: thread_runs_def fun_eq_iff)

lemma schedule_picks:
  assumes ok: "run_queue_ok k ts" and lock: "m_process_list_lock k = 0" and ex: "\<exists>t \<in> set ts. runnable k t"
  obtains n k' where "0 < n" "n \<le> length ts" "runnable k (ts ! (n mod length ts))"
    "\<And>j. 0 < j \<Longrightarrow> j < n \<Longrightarrow> \<not> runnable k (ts ! (j mod length ts))"
    "schedule tp k = Some (exec_bind (prepare_for_switch tp (ts ! (n mod length ts)) k') (\<lambda>k. Inr (Some (ts ! (n mod length ts)), k)))"
    "run_queue_ok k' (rotate n ts)" "m_process_list_lock k' = 0" "k_threads k' = k_threads k" "k_mem k' = k_mem k"
    "k_processes k' = k_processes k" "m_process_list k' = m_process_list k"
proof -
  have q: "queue_list (m_run_queue k) ts" using ok by (simp add: run_queue_ok_def)
  obtain n q' where n: "0 < n" "n \<le> length ts" "runnable k (ts ! (n mod length ts))"
      "\<And>j. 0 < j \<Longrightarrow> j < n \<Longrightarrow> \<not> runnable k (ts ! (j mod length ts))"
      "rotate_until queue_rotate_left queue_peek_first (thread_runs k) (m_run_queue k) = Some (Inr (ts ! (n mod length ts), q'))"
      "queue_list q' (rotate n ts)"
    using linked_queue.rotate_until_first [OF q, of "thread_runs k" "runnable k"] thread_runs_eq [OF ok] ex by blast
  let ?k = "k\<lparr>m_run_queue := q', m_process_list_lock := 0\<rparr>"
  have runs: "thread_runs (k\<lparr>m_process_list_lock := 1\<rparr>) = thread_runs k" by (rule thread_runs_cong) simp
  have "schedule tp k = Some (exec_bind (prepare_for_switch tp (ts ! (n mod length ts)) ?k) (\<lambda>k. Inr (Some (ts ! (n mod length ts)), k)))"
    using lock n(5) by (simp add: schedule_def try_lock_def unlock_def runs)
  moreover have "run_queue_ok ?k (rotate n ts)" using ok n(6) by (simp add: run_queue_ok_def)
  ultimately show thesis using n by (intro that [of n ?k]) simp_all
qed

lemma prepare_ok:
  assumes "k_threads k t = Some thread"
  shows "\<exists>m. prepare_for_switch tp t k = Inr (k\<lparr>k_mem := m\<rparr>)"
  unfolding prepare_for_switch_def assms option.case Let_def by blast

text \<open>\<^verbatim>\<open>n\<close> timer interrupts in a row, with the threads they pick.\<close>

fun schedules :: "nat \<Rightarrow> u64 \<Rightarrow> kernel \<Rightarrow> (nat option list \<times> kernel) exec option" where
  "schedules 0 tp k = Some (Inr ([], k))"
| "schedules (Suc n) tp k =
     (case schedule tp k of None \<Rightarrow> None | Some (Inl e) \<Rightarrow> Some (Inl e)
      | Some (Inr (t, k)) \<Rightarrow>
          (case schedules n tp k of None \<Rightarrow> None | Some (Inl e) \<Rightarrow> Some (Inl e)
           | Some (Inr (ts, k)) \<Rightarrow> Some (Inr (t # ts, k))))"

lemma schedule_ok:
  assumes ok: "run_queue_ok k ts" and lock: "m_process_list_lock k = 0" and ex: "\<exists>t \<in> set ts. runnable k t"
  obtains n k' where "0 < n" "n \<le> length ts" "runnable k (ts ! (n mod length ts))"
    "\<And>j. 0 < j \<Longrightarrow> j < n \<Longrightarrow> \<not> runnable k (ts ! (j mod length ts))"
    "schedule tp k = Some (Inr (Some (ts ! (n mod length ts)), k'))"
    "run_queue_ok k' (rotate n ts)" "m_process_list_lock k' = 0" "k_threads k' = k_threads k"
proof -
  obtain n k1 where n: "0 < n" "n \<le> length ts" "runnable k (ts ! (n mod length ts))"
    "\<And>j. 0 < j \<Longrightarrow> j < n \<Longrightarrow> \<not> runnable k (ts ! (j mod length ts))"
    "schedule tp k = Some (exec_bind (prepare_for_switch tp (ts ! (n mod length ts)) k1) (\<lambda>k. Inr (Some (ts ! (n mod length ts)), k)))"
    "run_queue_ok k1 (rotate n ts)" "m_process_list_lock k1 = 0" "k_threads k1 = k_threads k"
    using schedule_picks [OF assms, of tp] by metis
  let ?t = "ts ! (n mod length ts)"
  have "?t \<in> set ts" using n(1,2) by (intro nth_mem mod_less_divisor) linarith
  then obtain thread where "k_threads k1 ?t = Some thread" using ok n(8) by (auto simp: run_queue_ok_def)
  from prepare_ok [OF this] obtain m where m: "prepare_for_switch tp ?t k1 = Inr (k1\<lparr>k_mem := m\<rparr>)" by blast
  have "run_queue_ok (k1\<lparr>k_mem := m\<rparr>) (rotate n ts)" using n(6) by (simp add: run_queue_ok_def)
  then show thesis using that [of n "k1\<lparr>k_mem := m\<rparr>"] n m by simp
qed

lemma runnable_cong: "k_threads k' = k_threads k \<Longrightarrow> runnable k' t = runnable k t"
  by (simp add: runnable_def)

lemma schedules_ok:
  assumes "run_queue_ok k ts" "m_process_list_lock k = 0" "\<exists>t \<in> set ts. runnable k t"
  shows "\<exists>picks k'. schedules n tp k = Some (Inr (picks, k')) \<and> (\<forall>p \<in> set picks. \<exists>t \<in> set ts. p = Some t \<and> runnable k t)"
  using assms
proof (induction n arbitrary: k ts)
  case (Suc n)
  obtain i k1 where k1: "0 < i" "i \<le> length ts" "runnable k (ts ! (i mod length ts))"
      "schedule tp k = Some (Inr (Some (ts ! (i mod length ts)), k1))"
      "run_queue_ok k1 (rotate i ts)" "m_process_list_lock k1 = 0" "k_threads k1 = k_threads k"
    using schedule_ok [OF Suc.prems, of tp] by metis
  have t: "ts ! (i mod length ts) \<in> set ts" using k1(1,2) by (intro nth_mem mod_less_divisor) linarith
  have "\<exists>t \<in> set (rotate i ts). runnable k1 t" using Suc.prems(3) runnable_cong [OF k1(7)] by simp
  from Suc.IH [OF k1(5,6) this] obtain picks k2 where "schedules n tp k1 = Some (Inr (picks, k2))"
      "\<forall>p \<in> set picks. \<exists>t \<in> set ts. p = Some t \<and> runnable k t"
    using runnable_cong [OF k1(7)] by auto
  then show ?case using k1(3,4) t by auto
qed simp

lemma schedules_reach:
  assumes "run_queue_ok k ts" "m_process_list_lock k = 0" "runnable k t"
    and "0 < d" "d \<le> length ts" "d \<le> n" "ts ! (d mod length ts) = t"
  shows "\<exists>picks k'. schedules n tp k = Some (Inr (picks, k')) \<and> Some t \<in> set picks"
  using assms
proof (induction n arbitrary: k ts d)
  case (Suc n)
  have pos: "0 < length ts" using Suc.prems(4,5) by linarith
  have tin: "t \<in> set ts" using Suc.prems(7) pos by (metis mod_less_divisor nth_mem)
  then have ex: "\<exists>t \<in> set ts. runnable k t" using Suc.prems(3) by blast
  obtain i k1 where k1: "0 < i" "i \<le> length ts" "\<And>j. 0 < j \<Longrightarrow> j < i \<Longrightarrow> \<not> runnable k (ts ! (j mod length ts))"
      "schedule tp k = Some (Inr (Some (ts ! (i mod length ts)), k1))"
      "run_queue_ok k1 (rotate i ts)" "m_process_list_lock k1 = 0" "k_threads k1 = k_threads k"
    using schedule_ok [OF Suc.prems(1,2) ex, of tp] by metis
  have id: "i \<le> d" using k1(3) [of d] Suc.prems(3,4,7) by (meson not_le)
  have ex1: "\<exists>t \<in> set (rotate i ts). runnable k1 t" using ex runnable_cong [OF k1(7)] by simp
  show ?case
  proof (cases "i = d")
    case True
    obtain picks k2 where "schedules n tp k1 = Some (Inr (picks, k2))" using schedules_ok [OF k1(5,6) ex1] by blast
    then show ?thesis using k1(4) True Suc.prems(7) by simp
  next
    case False
    then have lt: "i < d" using id by simp
    have "rotate i ts ! ((d - i) mod length (rotate i ts)) = ts ! ((i + (d - i) mod length ts) mod length ts)"
      using pos by (simp add: nth_rotate)
    also have "\<dots> = t" using lt Suc.prems(7) by (simp add: mod_add_right_eq)
    finally have t: "rotate i ts ! ((d - i) mod length (rotate i ts)) = t" .
    have "\<exists>picks k'. schedules n tp k1 = Some (Inr (picks, k')) \<and> Some t \<in> set picks"
      by (rule Suc.IH [OF k1(5,6) _ _ _ _ t]) (use lt k1(1) Suc.prems runnable_cong [OF k1(7)] in auto)
    then show ?thesis using k1(4) by auto
  qed
qed simp

section \<open>A kernel with two threads\<close>

definition demo_kernel :: "ThreadState \<Rightarrow> nat LinkedQueue \<Rightarrow> kernel" where
  "demo_kernel st q = \<lparr>k_mem = \<lambda>_. 0,
     k_threads = [0 \<mapsto> (thread_new 0x1000 1 0)\<lparr>t_state := Blocked\<rparr>, 1 \<mapsto> (thread_new 0x2000 2 0)\<lparr>t_state := st\<rparr>],
     k_next_thread = 2, k_processes = \<lambda>_. None, k_next_process = 0, m_run_queue = q, m_process_list = al_new,
     m_process_list_lock = 0, m_kernel_process = 0, m_pid_counter = 3\<rparr>"

lemma demo_queue: "\<exists>q :: nat LinkedQueue. queue_list q [0, 1]"
proof -
  obtain q :: "nat LinkedQueue" where "queue_list q [0]" using linked_queue.append_rel [OF linked_queue.empty_rel, of 0] by auto
  then show ?thesis using linked_queue.append_rel [of q "[0]" 1] by auto
qed

lemma demo_run_queue: "queue_list q [0, 1] \<Longrightarrow> run_queue_ok (demo_kernel st q) [0, 1]"
  by (simp add: run_queue_ok_def demo_kernel_def)

lemma demo_frames: "span 0x2000 600 \<inter> span 0x9000 600 = {}" "span 0x1000 600 \<inter> span 0x9000 600 = {}"
  by (rule span_disjoint; simp)+

section \<open>Properties of the scheduler\<close>

text \<open>
  C15. One scheduling step.  If the process list is unlocked and some queued thread runs,
  \<^verbatim>\<open>schedule\<close> returns the first running thread after the current front, leaves the queue
  rotated so that this thread is at its front, releases the lock, and records the thread's identifiers in the
  hart's frame and the hart's stack pointer and frame address in the thread's frame.
\<close>

theorem schedule_round_robin:
  assumes "run_queue_ok k ts" "m_process_list_lock k = 0" "\<exists>t \<in> set ts. runnable k t"
    and "\<And>t. t \<in> set ts \<Longrightarrow> span (t_trap_frame (the (k_threads k t))) 600 \<inter> span tp 600 = {}"
  shows "\<exists>n t k'. schedule tp k = Some (Inr (Some t, k')) \<and> 0 < n \<and> n \<le> length ts \<and>
    t = ts ! (n mod length ts) \<and> runnable k t \<and> (\<forall>j. 0 < j \<and> j < n \<longrightarrow> \<not> runnable k (ts ! (j mod length ts))) \<and>
    run_queue_ok k' (rotate n ts) \<and> m_process_list_lock k' = 0 \<and> k_threads k' = k_threads k \<and>
    frame_get (k_mem k') tp current_process_id = t_pid (the (k_threads k t)) \<and>
    frame_get (k_mem k') tp current_thread_id = t_tid (the (k_threads k t)) \<and>
    frame_get (k_mem k') (t_trap_frame (the (k_threads k t))) kernel_sp = frame_get (k_mem k) tp (regs 2) \<and>
    frame_get (k_mem k') (t_trap_frame (the (k_threads k t))) kernel_trap_frame_ptr = tp"
proof -
  obtain n k1 where n: "0 < n" "n \<le> length ts" "runnable k (ts ! (n mod length ts))"
    "\<And>j. 0 < j \<Longrightarrow> j < n \<Longrightarrow> \<not> runnable k (ts ! (j mod length ts))"
    "schedule tp k = Some (exec_bind (prepare_for_switch tp (ts ! (n mod length ts)) k1) (\<lambda>k. Inr (Some (ts ! (n mod length ts)), k)))"
    "run_queue_ok k1 (rotate n ts)" "m_process_list_lock k1 = 0" "k_threads k1 = k_threads k" "k_mem k1 = k_mem k"
    using schedule_picks [OF assms(1-3), of tp] by metis
  let ?t = "ts ! (n mod length ts)"
  have t: "?t \<in> set ts" using n(1,2) by (intro nth_mem mod_less_divisor) linarith
  then obtain thread where th: "k_threads k ?t = Some thread" using assms(1) by (auto simp: run_queue_ok_def)
  then have dis: "span (t_trap_frame thread) 600 \<inter> span tp 600 = {}" using assms(4) [OF t] by simp
  obtain m where m: "prepare_for_switch tp ?t k1 = Inr (k1\<lparr>k_mem := m\<rparr>)"
      "frame_get m tp current_process_id = t_pid thread" "frame_get m tp current_thread_id = t_tid thread"
      "frame_get m (t_trap_frame thread) kernel_sp = frame_get (k_mem k) tp (regs 2)"
      "frame_get m (t_trap_frame thread) kernel_trap_frame_ptr = tp"
    using prepare_for_switch_effect [of k1 ?t thread tp] th n(8,9) dis by auto
  have "run_queue_ok (k1\<lparr>k_mem := m\<rparr>) (rotate n ts)" using n(6) by (simp add: run_queue_ok_def)
  then show ?thesis
    using n m th by (intro exI [of _ n] exI [of _ ?t] exI [of _ "k1\<lparr>k_mem := m\<rparr>"]) auto
qed

theorem schedule_round_robin_witness:
  "\<exists>q k'. queue_list q [0, 1] \<and> schedule 0x9000 (demo_kernel Running q) = Some (Inr (Some 1, k')) \<and>
    frame_get (k_mem k') 0x9000 current_process_id = 2"
proof -
  obtain q :: "nat LinkedQueue" where q: "queue_list q [0, 1]" using demo_queue by blast
  have "\<exists>n t k'. schedule 0x9000 (demo_kernel Running q) = Some (Inr (Some t, k')) \<and> 0 < n \<and> n \<le> length [0, 1 :: nat] \<and>
      t = [0, 1] ! (n mod length [0, 1 :: nat]) \<and> runnable (demo_kernel Running q) t \<and>
      (\<forall>j. 0 < j \<and> j < n \<longrightarrow> \<not> runnable (demo_kernel Running q) ([0, 1] ! (j mod length [0, 1 :: nat]))) \<and>
      run_queue_ok k' (rotate n [0, 1]) \<and> m_process_list_lock k' = 0 \<and> k_threads k' = k_threads (demo_kernel Running q) \<and>
      frame_get (k_mem k') 0x9000 current_process_id = t_pid (the (k_threads (demo_kernel Running q) t)) \<and>
      frame_get (k_mem k') 0x9000 current_thread_id = t_tid (the (k_threads (demo_kernel Running q) t)) \<and>
      frame_get (k_mem k') (t_trap_frame (the (k_threads (demo_kernel Running q) t))) kernel_sp =
        frame_get (k_mem (demo_kernel Running q)) 0x9000 (regs 2) \<and>
      frame_get (k_mem k') (t_trap_frame (the (k_threads (demo_kernel Running q) t))) kernel_trap_frame_ptr = 0x9000"
    by (rule schedule_round_robin [OF demo_run_queue [OF q]])
       (auto simp: demo_kernel_def runnable_def thread_new_def demo_frames)
  then obtain t k' where "schedule 0x9000 (demo_kernel Running q) = Some (Inr (Some t, k'))"
      "runnable (demo_kernel Running q) t" "t \<in> {0, 1}"
      "frame_get (k_mem k') 0x9000 current_process_id = t_pid (the (k_threads (demo_kernel Running q) t))"
    by (metis (no_types) insertCI le_neq_implies_less less_2_cases_iff length_Cons list.size(3) mod_less_divisor nth_Cons_0
        nth_Cons_Suc numeral_2_eq_2 zero_less_Suc One_nat_def)
  moreover from this have "t = 1" by (auto simp: demo_kernel_def runnable_def)
  ultimately show ?thesis using q by (auto simp: demo_kernel_def thread_new_def)
qed

text \<open>
  C16. Scheduling is fair: in as many scheduling steps as there are queued threads, every
  thread that stays running is picked.
\<close>

theorem schedule_fair:
  assumes "run_queue_ok k ts" "m_process_list_lock k = 0" "t \<in> set ts" "runnable k t"
  shows "\<exists>picks k'. schedules (length ts) tp k = Some (Inr (picks, k')) \<and> Some t \<in> set picks"
proof -
  obtain i where i: "i < length ts" "ts ! i = t" using assms(3) by (auto simp: in_set_conv_nth)
  let ?d = "if i = 0 then length ts else i"
  have "0 < ?d" "?d \<le> length ts" "ts ! (?d mod length ts) = t" using i by auto
  then show ?thesis by (intro schedules_reach [OF assms(1,2,4), of ?d]) simp_all
qed

theorem schedule_fair_witness:
  "\<exists>q picks k'. queue_list q [0, 1] \<and> schedules 2 0x9000 (demo_kernel Running q) = Some (Inr (picks, k')) \<and> Some 1 \<in> set picks"
proof -
  obtain q :: "nat LinkedQueue" where q: "queue_list q [0, 1]" using demo_queue by blast
  have "\<exists>picks k'. schedules (length [0, 1 :: nat]) 0x9000 (demo_kernel Running q) = Some (Inr (picks, k')) \<and> Some 1 \<in> set picks"
    by (rule schedule_fair [OF demo_run_queue [OF q]]) (simp_all add: demo_kernel_def runnable_def)
  then show ?thesis using q by (auto simp: numeral_2_eq_2)
qed

text \<open>
  Two ways in which \<^verbatim>\<open>schedule\<close> produces no thread: when no queued thread is running it
  rotates the queue for ever with the lock held, and when the lock is taken it returns the
  null pointer, which \<^verbatim>\<open>start_scheduling\<close> dereferences.
\<close>

theorem schedule_stuck:
  assumes "run_queue_ok k ts" "ts \<noteq> []" "\<forall>t \<in> set ts. \<not> runnable k t"
  shows "(m_process_list_lock k = 0 \<longrightarrow> schedule tp k = None) \<and>
    (m_process_list_lock k \<noteq> 0 \<longrightarrow>
       schedule tp k = Some (Inr (None, k\<lparr>m_process_list_lock := 1\<rparr>)) \<and> start_scheduling tp k = Some (Inl NullDeref))"
proof -
  have q: "queue_list (m_run_queue k) ts" using assms(1) by (simp add: run_queue_ok_def)
  have runs: "thread_runs (k\<lparr>m_process_list_lock := 1\<rparr>) = thread_runs k" by (rule thread_runs_cong) simp
  have "rotate_until queue_rotate_left queue_peek_first (thread_runs k) (m_run_queue k) = None"
    using assms(3) thread_runs_eq [OF assms(1)] by (intro linked_queue.rotate_until_never [OF q assms(2)]) auto
  then show ?thesis by (auto simp: schedule_def start_scheduling_def try_lock_def runs)
qed

theorem schedule_stuck_witness:
  "\<exists>q. queue_list q [0, 1] \<and> schedule 0x9000 (demo_kernel Blocked q) = None"
proof -
  obtain q :: "nat LinkedQueue" where q: "queue_list q [0, 1]" using demo_queue by blast
  have "(m_process_list_lock (demo_kernel Blocked q) = 0 \<longrightarrow> schedule 0x9000 (demo_kernel Blocked q) = None) \<and>
    (m_process_list_lock (demo_kernel Blocked q) \<noteq> 0 \<longrightarrow>
       schedule 0x9000 (demo_kernel Blocked q) = Some (Inr (None, (demo_kernel Blocked q)\<lparr>m_process_list_lock := 1\<rparr>)) \<and>
       start_scheduling 0x9000 (demo_kernel Blocked q) = Some (Inl NullDeref))"
    by (rule schedule_stuck [OF demo_run_queue [OF q]]) (simp_all add: demo_kernel_def runnable_def)
  then show ?thesis using q by (auto simp: demo_kernel_def)
qed

section \<open>The process list\<close>

text \<open>
  The processes of the list exist, have pairwise different identifiers below the counter,
  and one thread each, which exists.
\<close>

definition process_of :: "kernel \<Rightarrow> nat \<Rightarrow> Process" where
  "process_of k p = the (k_processes k p)"

definition process_ok :: "kernel \<Rightarrow> nat \<Rightarrow> bool" where
  "process_ok k p \<longleftrightarrow> p < k_next_process k \<and> k_processes k p \<noteq> None \<and>
     unat (p_pid (process_of k p)) < unat (m_pid_counter k) \<and>
     (\<exists>t thread. al_rel (p_threads (process_of k p)) [Some t] \<and> t < k_next_thread k \<and> k_threads k t = Some thread \<and>
        t_tid thread = 0 \<and> t_pid thread = p_pid (process_of k p))"

definition process_inv :: "kernel \<Rightarrow> nat list \<Rightarrow> bool" where
  "process_inv k ps \<longleftrightarrow> al_rel (m_process_list k) ps \<and> 0 < m_size (m_process_list k) \<and>
     distinct (map (\<lambda>p. p_pid (process_of k p)) ps) \<and> (\<forall>p \<in> set ps. process_ok k p)"

lemma process_inv_init: "\<exists>k. process_manager_init m root = Inr k \<and> process_inv k []"
proof -
  obtain l where "al_add al_new (None :: nat option) = Inr (0, l)"
    using al_add_rel [OF al_new_rel, of "None :: nat option"] by (auto simp: al_new_def DEFAULT_SIZE_def)
  moreover have "0 < m_size (al_new :: nat ArrayList)" by (simp add: al_new_def DEFAULT_SIZE_def)
  ultimately show ?thesis using al_new_rel by (simp add: process_manager_init_def process_new_def process_inv_def)
qed

lemma process_new_ok:
  "\<exists>p. process_new pid thread root st = Inr p \<and> p_pid p = pid \<and> al_rel (p_threads p) [thread]"
  using al_add_rel [OF al_new_rel, of thread] by (auto simp: process_new_def al_new_def DEFAULT_SIZE_def)

lemma get_process_rel:
  assumes "process_inv k ps"
  shows "get_process k pid = Inr (case List.find (\<lambda>p. p_pid (process_of k p) = pid) ps of Some p \<Rightarrow> Inr p
    | None \<Rightarrow> Inl (create_from_string ''No match found!''))"
proof -
  have "List.find (\<lambda>p. case k_processes k p of None \<Rightarrow> False | Some process \<Rightarrow> p_pid process = pid) ps =
      List.find (\<lambda>p. p_pid (process_of k p) = pid) ps"
    by (rule find_cong) (use assms in \<open>auto simp: process_inv_def process_ok_def process_of_def\<close>)
  then show ?thesis using assms by (simp add: get_process_def process_inv_def al_find_first_rel [where xs = ps])
qed

lemma get_thread_rel:
  assumes "process_inv k ps" "p \<in> set ps" "pid = p_pid (process_of k p)"
  obtains t thread where "get_thread k pid 0 = Inr (Inr (Some t))" "k_threads k t = Some thread" "t_pid thread = pid"
    "al_rel (p_threads (process_of k p)) [Some t]"
proof -
  have ok: "process_ok k p" using assms(1,2) by (simp add: process_inv_def)
  then obtain t thread where t: "al_rel (p_threads (process_of k p)) [Some t]" "k_threads k t = Some thread"
      "t_tid thread = 0" "t_pid thread = p_pid (process_of k p)" by (auto simp: process_ok_def)
  obtain i where i: "i < length ps" "ps ! i = p" using assms(2) by (auto simp: in_set_conv_nth)
  have dist: "distinct (map (\<lambda>p. p_pid (process_of k p)) ps)" using assms(1) by (simp add: process_inv_def)
  have "p_pid (process_of k (ps ! j)) \<noteq> pid" if "j < i" for j
    using nth_eq_iff_index_eq [OF dist, of j i] that i assms(3) by simp
  then have "List.find (\<lambda>p. p_pid (process_of k p) = pid) ps = Some p"
    using i assms(3) by (auto simp: find_Some_iff)
  then have "get_process k pid = Inr (Inr p)" using get_process_rel [OF assms(1)] by simp
  moreover have "k_processes k p = Some (process_of k p)" using ok by (auto simp: process_ok_def process_of_def)
  ultimately have "get_thread k pid 0 = Inr (Inr (Some t))"
    using al_find_first_rel [OF t(1)] t(2,3) by (simp add: get_thread_def)
  then show thesis using that t(1,2,4) assms(3) by simp
qed

lemma process_ok_mono:
  assumes "process_ok k p" "k_processes k' p = k_processes k p" "k_next_process k \<le> k_next_process k'"
    "\<And>t. t < k_next_thread k \<Longrightarrow> k_threads k' t = k_threads k t" "k_next_thread k \<le> k_next_thread k'"
    "unat (m_pid_counter k) \<le> unat (m_pid_counter k')"
  shows "process_ok k' p"
  using assms unfolding process_ok_def process_of_def by (metis (no_types, lifting) order_less_le_trans)

text \<open>Apart from the memory, creating a process allocates a thread and a process and queues both.\<close>

definition created :: "pmem \<Rightarrow> u64 \<Rightarrow> Process \<Rightarrow> nat ArrayList \<Rightarrow> nat LinkedQueue \<Rightarrow> kernel \<Rightarrow> kernel" where
  "created m tf p process_list run_queue k =
     k\<lparr>m_pid_counter := m_pid_counter k + 1,
       k_threads := (k_threads k)(k_next_thread k \<mapsto> thread_new tf (m_pid_counter k) 0),
       k_next_thread := Suc (k_next_thread k), k_mem := m,
       k_processes := (k_processes k)(k_next_process k \<mapsto> p), k_next_process := Suc (k_next_process k),
       m_process_list := process_list, m_run_queue := run_queue\<rparr>"

lemma create_dummy_process_shape:
  assumes "\<And>root. process_new (m_pid_counter k) (Some (k_next_thread k)) root PRunning = Inr (p root)"
    and "al_add (m_process_list k) (k_next_process k) = Inr (i, process_list)"
    and "queue_append (m_run_queue k) (k_next_thread k) = Inr run_queue"
  shows "\<exists>m root tf. create_dummy_process mm l pc k = Inr (root, created m tf (p root) process_list run_queue k)"
proof -
  obtain m1 root where 1: "zalloc mm (k_mem k) 1 = (m1, root)" by (cases "zalloc mm (k_mem k) 1")
  obtain m2 tf where 2: "zalloc mm (map_process_image mm l root m1) 1 = (m2, tf)"
    by (cases "zalloc mm (map_process_image mm l root m1) 1")
  have "\<exists>m. create_dummy_process mm l pc k = Inr (root, created m tf (p root) process_list run_queue k)"
    using assms
    by (simp add: create_dummy_process_def 1 initialize_thread_def 2 Let_def thread_new_def created_def split: prod.split)
       blast
  then show ?thesis by blast
qed

lemma created_inv:
  assumes inv: "process_inv k ps" and pid: "p_pid p = m_pid_counter k" "al_rel (p_threads p) [Some (k_next_thread k)]"
    and pl: "al_rel process_list (ps @ [k_next_process k])" "0 < m_size process_list"
    and room: "unat (m_pid_counter k) + 1 < 2 ^ 64"
  shows "process_inv (created m tf p process_list run_queue k) (ps @ [k_next_process k])"
proof -
  let ?k = "created m tf p process_list run_queue k" and ?n = "k_next_process k"
  have counter: "unat (m_pid_counter ?k) = unat (m_pid_counter k) + 1"
    using room by (simp add: created_def) (subst unat_add_no_wrap, simp_all)
  have old: "process_ok ?k q \<and> process_of ?k q = process_of k q" if "q \<in> set ps" for q
  proof -
    have q: "process_ok k q" "q < ?n" using inv that by (simp_all add: process_inv_def process_ok_def)
    have "process_ok ?k q"
      by (rule process_ok_mono [OF q(1)]) (use q(2) counter in \<open>simp_all add: created_def\<close>)
    then show ?thesis using q(2) by (simp add: created_def process_of_def)
  qed
  have new: "process_of ?k ?n = p" by (simp add: created_def process_of_def)
  have "process_ok ?k ?n"
    unfolding process_ok_def new using pid counter
    by (simp add: created_def thread_new_def) (intro exI [of _ "k_next_thread k"], simp)
  moreover have "p_pid (process_of k q) \<noteq> m_pid_counter k" if "q \<in> set ps" for q
    using inv that by (auto simp: process_inv_def process_ok_def)
  then have "distinct (map (\<lambda>q. p_pid (process_of ?k q)) (ps @ [?n]))"
  proof -
    have eq: "map (\<lambda>q. p_pid (process_of ?k q)) (ps @ [?n]) = map (\<lambda>q. p_pid (process_of k q)) ps @ [m_pid_counter k]"
      using old new pid(1) by simp
    have "m_pid_counter k \<notin> (\<lambda>q. p_pid (process_of k q)) ` set ps"
      using \<open>\<And>q. q \<in> set ps \<Longrightarrow> p_pid (process_of k q) \<noteq> m_pid_counter k\<close> by force
    then show ?thesis unfolding eq using inv by (simp add: process_inv_def)
  qed
  moreover have "m_process_list ?k = process_list" by (simp add: created_def)
  ultimately show ?thesis using pl old by (auto simp: process_inv_def)
qed

lemma create_dummy_process_ok:
  assumes "process_inv k ps" "run_queue_ok k ts" "unat (m_pid_counter k) + 1 < 2 ^ 64"
    and "unat (m_size (m_process_list k)) < 2 ^ 62" "\<forall>t \<in> set ts. t < k_next_thread k"
  shows "\<exists>root k'. create_dummy_process mm l pc k = Inr (root, k') \<and>
    process_inv k' (ps @ [k_next_process k]) \<and> run_queue_ok k' (ts @ [k_next_thread k]) \<and>
    runnable k' (k_next_thread k) \<and>
    get_process k' (m_pid_counter k) = Inr (Inr (k_next_process k)) \<and>
    get_thread k' (m_pid_counter k) 0 = Inr (Inr (Some (k_next_thread k))) \<and>
    (\<forall>pid. pid \<noteq> m_pid_counter k \<longrightarrow> get_process k' pid = get_process k pid)"
proof -
  have "\<forall>root. \<exists>p. process_new (m_pid_counter k) (Some (k_next_thread k)) root PRunning = Inr p \<and>
      p_pid p = m_pid_counter k \<and> al_rel (p_threads p) [Some (k_next_thread k)]"
    using process_new_ok by blast
  then obtain p where p: "\<And>root. process_new (m_pid_counter k) (Some (k_next_thread k)) root PRunning = Inr (p root)"
      "\<And>root. p_pid (p root) = m_pid_counter k" "\<And>root. al_rel (p_threads (p root)) [Some (k_next_thread k)]"
    by metis
  have size: "unat (m_size (m_process_list k)) < 2 ^ 63" using assms(4) by simp
  have list: "al_rel (m_process_list k) ps" "0 < m_size (m_process_list k)" using assms(1) by (simp_all add: process_inv_def)
  obtain pl where pl: "al_add (m_process_list k) (k_next_process k) = Inr (m_ptr (m_process_list k), pl)"
      "al_rel pl (ps @ [k_next_process k])" "0 < m_size pl"
    using al_add_rel [OF list size, of "k_next_process k"] list(2) by (auto simp: word_less_nat_alt)
  obtain rq where rq: "queue_append (m_run_queue k) (k_next_thread k) = Inr rq" "queue_list rq (ts @ [k_next_thread k])"
    using assms(2) queue_append_rel [of "m_run_queue k" ts "k_next_thread k"] by (auto simp: run_queue_ok_def)
  obtain m root tf where made: "create_dummy_process mm l pc k = Inr (root, created m tf (p root) pl rq k)"
    using create_dummy_process_shape [OF p(1) pl(1) rq(1), of mm l pc] by blast
  let ?k = "created m tf (p root) pl rq k" and ?n = "k_next_process k"
  have inv: "process_inv ?k (ps @ [?n])"
    using created_inv [OF assms(1) p(2,3) pl(2,3) assms(3)] .
  have new: "process_of ?k ?n = p root" by (simp add: created_def process_of_def)
  have old: "process_of ?k q = process_of k q" if "q \<in> set ps" for q
    using assms(1) that by (auto simp: process_inv_def process_ok_def process_of_def created_def)
  have fresh: "p_pid (process_of k q) \<noteq> m_pid_counter k" if "q \<in> set ps" for q
    using assms(1) that by (auto simp: process_inv_def process_ok_def)
  have none: "List.find (\<lambda>q. p_pid (process_of ?k q) = m_pid_counter k) ps = None"
    unfolding find_None_iff using old fresh by auto
  have app: "List.find P (ps @ [?n]) = (case List.find P ps of None \<Rightarrow> if P ?n then Some ?n else None | Some q \<Rightarrow> Some q)" for P
    by (induction ps) auto
  have "get_process ?k (m_pid_counter k) = Inr (Inr ?n)"
    using get_process_rel [OF inv, of "m_pid_counter k"] none new p(2) by (simp add: app)
  moreover have "get_process ?k pid = get_process k pid" if "pid \<noteq> m_pid_counter k" for pid
  proof -
    have "List.find (\<lambda>q. p_pid (process_of ?k q) = pid) ps = List.find (\<lambda>q. p_pid (process_of k q) = pid) ps"
      by (rule find_cong) (simp_all add: old)
    then show ?thesis using get_process_rel [OF inv, of pid] get_process_rel [OF assms(1), of pid] that new p(2)
      by (simp add: app split: option.split)
  qed
  moreover have "get_thread ?k (m_pid_counter k) 0 = Inr (Inr (Some (k_next_thread k)))"
  proof -
    obtain t thread where t: "get_thread ?k (m_pid_counter k) 0 = Inr (Inr (Some t))" "al_rel (p_threads (process_of ?k ?n)) [Some t]"
      using get_thread_rel [OF inv, of ?n "m_pid_counter k"] new p(2) by auto
    have "al_get (p_threads (p root)) 0 = Inr (Some t)" "al_get (p_threads (p root)) 0 = Inr (Some (k_next_thread k))"
      using al_get_rel [OF t(2), of 0] al_get_rel [OF p(3), of 0] new by simp_all
    then show ?thesis using t(1) by simp
  qed
  moreover have "run_queue_ok ?k (ts @ [k_next_thread k])"
    using assms(2,5) rq(2) by (auto simp: run_queue_ok_def created_def)
  moreover have "runnable ?k (k_next_thread k)" by (simp add: runnable_def created_def thread_new_def)
  ultimately show ?thesis using made inv by blast
qed

section \<open>Properties of the process manager\<close>

text \<open>
  Creating a process never faults and keeps the process list consistent: the new
  process gets an identifier no other process has and exactly one thread, with identifier
  zero; \<^verbatim>\<open>get_process\<close> and \<^verbatim>\<open>get_thread\<close> find them under that identifier, every other look-up answers as before, and
  the thread is runnable at the end of the run queue.
\<close>

theorem process_creation:
  assumes "process_inv k ps" "run_queue_ok k ts" "unat (m_pid_counter k) + 1 < 2 ^ 64"
    and "unat (m_size (m_process_list k)) < 2 ^ 62" "\<forall>t \<in> set ts. t < k_next_thread k"
  shows "\<exists>root k'. create_dummy_process mm l pc k = Inr (root, k') \<and>
    process_inv k' (ps @ [k_next_process k]) \<and> run_queue_ok k' (ts @ [k_next_thread k]) \<and>
    runnable k' (k_next_thread k) \<and>
    get_process k' (m_pid_counter k) = Inr (Inr (k_next_process k)) \<and>
    get_thread k' (m_pid_counter k) 0 = Inr (Inr (Some (k_next_thread k))) \<and>
    (\<forall>pid. pid \<noteq> m_pid_counter k \<longrightarrow> get_process k' pid = get_process k pid)"
  using assms by (rule create_dummy_process_ok)

theorem process_creation_witness:
  "\<exists>l k root k'. process_manager_init demo_space 0x3000 = Inr k \<and>
    create_dummy_process demo_mm l 0x80000000 k = Inr (root, k') \<and> get_process k' 1 = Inr (Inr 1)"
proof -
  obtain k where k: "process_manager_init demo_space 0x3000 = Inr k" "process_inv k []"
    using process_inv_init by blast
  have shape: "m_run_queue k = queue_new" "m_pid_counter k = 1" "m_process_list k = al_new" "k_next_process k = 1"
    using k(1) by (auto simp: process_manager_init_def fault_simps)
  have "\<exists>root k'. create_dummy_process demo_mm undefined 0x80000000 k = Inr (root, k') \<and>
    process_inv k' ([] @ [k_next_process k]) \<and> run_queue_ok k' ([] @ [k_next_thread k]) \<and>
    runnable k' (k_next_thread k) \<and>
    get_process k' (m_pid_counter k) = Inr (Inr (k_next_process k)) \<and>
    get_thread k' (m_pid_counter k) 0 = Inr (Inr (Some (k_next_thread k))) \<and>
    (\<forall>pid. pid \<noteq> m_pid_counter k \<longrightarrow> get_process k' pid = get_process k pid)"
    by (rule process_creation [OF k(2)])
       (simp_all add: shape run_queue_ok_def linked_queue.empty_rel al_new_def DEFAULT_SIZE_def)
  then show ?thesis using k(1) shape by auto
qed

text \<open>
  \<^verbatim>\<open>block\<close> takes exactly the named thread off the running threads and \<^verbatim>\<open>unblock\<close> puts it
  back; both leave every other thread alone and do nothing for an identifier that no process has.
\<close>

theorem block_unblock:
  assumes "process_inv k ps"
  shows "(\<forall>p \<in> set ps. \<exists>t thread k1 k2. get_thread k (p_pid (process_of k p)) 0 = Inr (Inr (Some t)) \<and>
      k_threads k t = Some thread \<and> block (p_pid (process_of k p)) 0 k = Inr k1 \<and>
      k_threads k1 = (k_threads k)(t \<mapsto> thread\<lparr>t_state := Blocked\<rparr>) \<and> \<not> runnable k1 t \<and>
      unblock (p_pid (process_of k p)) 0 k1 = Inr k2 \<and>
      k_threads k2 = (k_threads k)(t \<mapsto> thread\<lparr>t_state := Running\<rparr>) \<and> runnable k2 t) \<and>
    (\<forall>pid. pid \<notin> (\<lambda>p. p_pid (process_of k p)) ` set ps \<longrightarrow> block pid 0 k = Inr k \<and> unblock pid 0 k = Inr k)"
proof (intro conjI ballI allI impI)
  fix p assume p: "p \<in> set ps"
  let ?pid = "p_pid (process_of k p)"
  obtain t thread where t: "get_thread k ?pid 0 = Inr (Inr (Some t))" "k_threads k t = Some thread"
    using get_thread_rel [OF assms p refl] by metis
  let ?k1 = "k\<lparr>k_threads := (k_threads k)(t \<mapsto> thread\<lparr>t_state := Blocked\<rparr>)\<rparr>"
  let ?k2 = "k\<lparr>k_threads := (k_threads k)(t \<mapsto> thread\<lparr>t_state := Running\<rparr>)\<rparr>"
  have same: "(case x of None \<Rightarrow> False | Some u \<Rightarrow> (case k_threads ?k1 u of None \<Rightarrow> False | Some th \<Rightarrow> t_tid th = 0)) =
      (case x of None \<Rightarrow> False | Some u \<Rightarrow> (case k_threads k u of None \<Rightarrow> False | Some th \<Rightarrow> t_tid th = 0))" for x
    using t(2) by (simp split: option.split)
  have "get_thread ?k1 ?pid 0 = get_thread k ?pid 0"
    unfolding get_thread_def get_process_def same by simp
  then have "unblock ?pid 0 ?k1 = Inr ?k2" using t by (simp add: unblock_def set_thread_state_def)
  moreover have "block ?pid 0 k = Inr ?k1" using t by (simp add: block_def set_thread_state_def)
  ultimately show "\<exists>t thread k1 k2. get_thread k ?pid 0 = Inr (Inr (Some t)) \<and>
      k_threads k t = Some thread \<and> block ?pid 0 k = Inr k1 \<and>
      k_threads k1 = (k_threads k)(t \<mapsto> thread\<lparr>t_state := Blocked\<rparr>) \<and> \<not> runnable k1 t \<and>
      unblock ?pid 0 k1 = Inr k2 \<and>
      k_threads k2 = (k_threads k)(t \<mapsto> thread\<lparr>t_state := Running\<rparr>) \<and> runnable k2 t"
    using t by (intro exI [of _ t] exI [of _ thread] exI [of _ ?k1] exI [of _ ?k2]) (simp add: runnable_def)
next
  fix pid assume "pid \<notin> (\<lambda>p. p_pid (process_of k p)) ` set ps"
  then have "List.find (\<lambda>p. p_pid (process_of k p) = pid) ps = None" by (auto simp: find_None_iff)
  then have "get_thread k pid 0 = Inr (Inl (create_from_string ''No match found!''))"
    using get_process_rel [OF assms, of pid] by (simp add: get_thread_def)
  then show "block pid 0 k = Inr k" "unblock pid 0 k = Inr k" by (simp_all add: block_def unblock_def)
qed

theorem block_unblock_witness:
  "\<exists>k k1 t thread. process_inv k [1] \<and> get_thread k 1 0 = Inr (Inr (Some t)) \<and> k_threads k t = Some thread \<and>
    block 1 0 k = Inr k1 \<and> k_threads k1 t = Some (thread\<lparr>t_state := Blocked\<rparr>)"
proof -
  obtain k0 where k0: "process_manager_init demo_space 0x3000 = Inr k0" "process_inv k0 []"
    using process_inv_init by blast
  have shape: "m_run_queue k0 = queue_new" "m_pid_counter k0 = 1" "m_process_list k0 = al_new" "k_next_process k0 = 1"
    using k0(1) by (auto simp: process_manager_init_def fault_simps)
  have "\<exists>root k'. create_dummy_process demo_mm undefined 0x80000000 k0 = Inr (root, k') \<and>
    process_inv k' ([] @ [k_next_process k0]) \<and> run_queue_ok k' ([] @ [k_next_thread k0]) \<and>
    runnable k' (k_next_thread k0) \<and>
    get_process k' (m_pid_counter k0) = Inr (Inr (k_next_process k0)) \<and>
    get_thread k' (m_pid_counter k0) 0 = Inr (Inr (Some (k_next_thread k0))) \<and>
    (\<forall>pid. pid \<noteq> m_pid_counter k0 \<longrightarrow> get_process k' pid = get_process k0 pid)"
    by (rule create_dummy_process_ok [OF k0(2)])
       (simp_all add: shape run_queue_ok_def linked_queue.empty_rel al_new_def DEFAULT_SIZE_def)
  then obtain k where "process_inv k ([] @ [k_next_process k0])" "get_process k (m_pid_counter k0) = Inr (Inr (k_next_process k0))"
    by (elim exE conjE) (rule that)
  then have k: "process_inv k [1]" "get_process k 1 = Inr (Inr 1)" using shape by simp_all
  have pid: "p_pid (process_of k 1) = 1"
    using k(2) unfolding get_process_rel [OF k(1)]
    by (cases "p_pid (process_of k 1) = 1") (simp_all only: List.find.simps if_True if_False option.case sum.inject sum.distinct)
  have "(1 :: nat) \<in> set [1]" by simp
  from bspec [OF conjunct1 [OF block_unblock [OF k(1)]] this]
  obtain t thread k1 where b: "get_thread k 1 0 = Inr (Inr (Some t))" "k_threads k t = Some thread" "block 1 0 k = Inr k1"
      "k_threads k1 = (k_threads k)(t \<mapsto> thread\<lparr>t_state := Blocked\<rparr>)"
    unfolding pid by (elim exE conjE) (rule that)
  have "k_threads k1 t = Some (thread\<lparr>t_state := Blocked\<rparr>)" using b(4) by simp
  then show ?thesis
    by (intro exI [of _ k] exI [of _ k1] exI [of _ t] exI [of _ thread] conjI k(1) b(1-3))
qed

end
