(* ===== verification/LinkedLists.thy ===== *)
theory LinkedLists
  imports ErrorOr
begin

text \<open>
  \<^verbatim>\<open>Utils/Arrays/LinkedList.h\<close>: the doubly linked list.  Elements live in a store of
  addresses; \<^verbatim>\<open>ll_brk\<close> is the next address \<^verbatim>\<open>new\<close> returns.  \<^verbatim>\<open>ll_list\<close> says which list of
  elements the nodes form, forwards and backwards.
\<close>

section \<open>Elements and the list object\<close>

record 'a LinkedListElement =
  m_data :: 'a
  m_next :: "nat option"
  m_prev :: "nat option"

record 'a LinkedList =
  ll_nodes :: "nat \<Rightarrow> 'a LinkedListElement option"
  ll_brk :: nat
  m_head :: "nat option"
  m_tail :: "nat option"
  m_size :: size_t

definition ll_new :: "'a LinkedList" where
  "ll_new = \<lparr>ll_nodes = \<lambda>_. None, ll_brk = 0, m_head = None, m_tail = None, m_size = 0\<rparr>"

definition ll_node :: "'a LinkedList \<Rightarrow> nat option \<Rightarrow> 'a LinkedListElement exec" where
  "ll_node l p = (case p of None \<Rightarrow> Inl NullDeref
     | Some a \<Rightarrow> (case ll_nodes l a of None \<Rightarrow> Inl Uninitialised | Some n \<Rightarrow> Inr n))"

definition ll_update :: "nat option \<Rightarrow> ('a LinkedListElement \<Rightarrow> 'a LinkedListElement) \<Rightarrow> 'a LinkedList \<Rightarrow> 'a LinkedList exec" where
  "ll_update p f l = exec_bind (ll_node l p) (\<lambda>n. Inr (l\<lparr>ll_nodes := (ll_nodes l)(the p \<mapsto> f n)\<rparr>))"

definition new_element :: "'a \<Rightarrow> 'a LinkedList \<Rightarrow> nat \<times> 'a LinkedList" where
  "new_element x l =
     (ll_brk l, l\<lparr>ll_nodes := (ll_nodes l)(ll_brk l \<mapsto> \<lparr>m_data = x, m_next = None, m_prev = None\<rparr>), ll_brk := Suc (ll_brk l)\<rparr>)"

section \<open>Operations\<close>

definition ll_append :: "'a LinkedList \<Rightarrow> 'a \<Rightarrow> 'a LinkedList exec" where
  "ll_append l x =
     (let (e, l) = new_element x l in
      exec_bind
        (if m_head l = None then Inr (l\<lparr>m_head := Some e, m_tail := Some e\<rparr>)
         else exec_bind (ll_update (m_tail l) (\<lambda>n. n\<lparr>m_next := Some e\<rparr>) l) (\<lambda>l.
           exec_bind (ll_update (Some e) (\<lambda>n. n\<lparr>m_prev := m_tail l\<rparr>) l) (\<lambda>l.
           Inr (l\<lparr>m_tail := Some e\<rparr>)))) (\<lambda>l.
      Inr (l\<lparr>m_size := m_size l + 1\<rparr>)))"

definition ll_prepend :: "'a LinkedList \<Rightarrow> 'a \<Rightarrow> 'a LinkedList exec" where
  "ll_prepend l x =
     (let (e, l) = new_element x l in
      exec_bind
        (if m_head l = None then Inr (l\<lparr>m_head := Some e, m_tail := Some e\<rparr>)
         else exec_bind (ll_update (m_head l) (\<lambda>n. n\<lparr>m_prev := Some e\<rparr>) l) (\<lambda>l.
           exec_bind (ll_update (Some e) (\<lambda>n. n\<lparr>m_next := m_head l\<rparr>) l) (\<lambda>l.
           Inr (l\<lparr>m_head := Some e\<rparr>)))) (\<lambda>l.
      Inr (l\<lparr>m_size := m_size l + 1\<rparr>)))"

text \<open>
  The body of the loop of \<^verbatim>\<open>remove\<close>: unlink and delete the element at the position.  The
  loop runs while \<^verbatim>\<open>i < index\<close>, so the test \<^verbatim>\<open>i == index\<close> guards nothing that is reached.
\<close>

definition ll_unlink :: "nat option \<Rightarrow> 'a LinkedList \<Rightarrow> 'a LinkedList exec" where
  "ll_unlink head l =
     exec_bind (ll_node l head) (\<lambda>h.
     exec_bind (if m_prev h \<noteq> None then ll_update (m_prev h) (\<lambda>n. n\<lparr>m_next := m_next h\<rparr>) l else Inr l) (\<lambda>l.
     exec_bind (if m_next h \<noteq> None then ll_update (m_next h) (\<lambda>n. n\<lparr>m_prev := m_prev h\<rparr>) l else Inr l) (\<lambda>l.
     Inr (l\<lparr>ll_nodes := (ll_nodes l)(the head := None), m_size := m_size l - 1\<rparr>))))"

function ll_remove_loop :: "size_t \<Rightarrow> size_t \<Rightarrow> nat option \<Rightarrow> 'a LinkedList \<Rightarrow> 'a LinkedList exec" where
  "ll_remove_loop i index head l =
     (if i < index then
        if head = None then Inr l
        else if i = index then ll_unlink head l
        else (case ll_node l head of Inl e \<Rightarrow> Inl e | Inr h \<Rightarrow> ll_remove_loop (i + 1) index (m_next h) l)
      else Inr l)"
  by auto
termination
  by (relation "measure (\<lambda>(i, index, head, l). unat index - unat i)")
     (auto simp: word_less_nat_alt unat_Suc_less)

definition ll_remove :: "'a LinkedList \<Rightarrow> size_t \<Rightarrow> 'a LinkedList exec" where
  "ll_remove l index = (if index \<ge> m_size l then Inr l else ll_remove_loop 0 index (m_head l) l)"

function ll_get_loop :: "size_t \<Rightarrow> size_t \<Rightarrow> nat option \<Rightarrow> 'a LinkedList \<Rightarrow> 'a error_or exec" where
  "ll_get_loop i index head l =
     (if i < index then
        if head = None then Inr (Inl (create_from_string ''Index out of bounds!''))
        else (case ll_node l head of Inl e \<Rightarrow> Inl e
          | Inr h \<Rightarrow> if i = index then Inr (Inr (m_data h)) else ll_get_loop (i + 1) index (m_next h) l)
      else Inl MissingReturn)"
  by auto
termination
  by (relation "measure (\<lambda>(i, index, head, l). unat index - unat i)")
     (auto simp: word_less_nat_alt unat_Suc_less)

definition ll_get :: "'a LinkedList \<Rightarrow> size_t \<Rightarrow> 'a error_or exec" where
  "ll_get l index =
     (if index \<ge> m_size l then Inr (Inl (create_from_string ''Index out of bounds!''))
      else ll_get_loop 0 index (m_head l) l)"

partial_function (option) ll_find_loop :: "('a \<Rightarrow> bool) \<Rightarrow> nat option \<Rightarrow> 'a LinkedList \<Rightarrow> 'a error_or exec option" where
  "ll_find_loop predicate head l =
     (if head = None then Some (Inr (Inl (create_from_string ''No match found!'')))
      else (case ll_node l head of Inl e \<Rightarrow> Some (Inl e)
        | Inr h \<Rightarrow> if predicate (m_data h) then Some (Inr (Inr (m_data h)))
            else ll_find_loop predicate (m_next h) l))"

definition ll_find_first_match :: "'a LinkedList \<Rightarrow> ('a \<Rightarrow> bool) \<Rightarrow> 'a error_or exec option" where
  "ll_find_first_match l predicate = ll_find_loop predicate (m_head l) l"

partial_function (option) ll_destroy_loop :: "nat option \<Rightarrow> 'a LinkedList \<Rightarrow> 'a LinkedList exec option" where
  "ll_destroy_loop head l =
     (case head of None \<Rightarrow> Some (Inr l)
      | Some a \<Rightarrow> (case ll_node l head of Inl e \<Rightarrow> Some (Inl e)
          | Inr h \<Rightarrow> ll_destroy_loop (m_next h) (l\<lparr>ll_nodes := (ll_nodes l)(a := None)\<rparr>)))"

definition ll_destroy :: "'a LinkedList \<Rightarrow> 'a LinkedList exec option" where
  "ll_destroy l = ll_destroy_loop (m_head l) l"

text \<open>Moving: the target takes the pointers over, and what it held before stays allocated.\<close>

definition ll_move :: "'a LinkedList \<Rightarrow> 'a LinkedList \<times> 'a LinkedList" where
  "ll_move other = (other, other\<lparr>m_head := None, m_tail := None, m_size := 0\<rparr>)"

definition ll_assign_move :: "bool \<Rightarrow> 'a LinkedList \<Rightarrow> 'a LinkedList \<Rightarrow> 'a LinkedList \<times> 'a LinkedList" where
  "ll_assign_move same this other = (if same then (this, this) else ll_move other)"

declare ll_remove_loop.simps [simp del] ll_get_loop.simps [simp del]

section \<open>The list it represents\<close>

fun ll_path :: "(nat \<Rightarrow> 'a LinkedListElement option) \<Rightarrow> nat option \<Rightarrow> nat option \<Rightarrow> nat list \<Rightarrow> bool" where
  "ll_path st prev p [] = (p = None)"
| "ll_path st prev p (a # as) =
     (p = Some a \<and> (\<exists>n. st a = Some n \<and> m_prev n = prev \<and> ll_path st (Some a) (m_next n) as))"

definition ll_nodes_ok :: "'a LinkedList \<Rightarrow> nat list \<Rightarrow> bool" where
  "ll_nodes_ok l as \<longleftrightarrow> ll_path (ll_nodes l) None (m_head l) as \<and> distinct as \<and> (\<forall>a \<in> set as. a < ll_brk l) \<and>
     m_tail l = (if as = [] then None else Some (last as)) \<and> m_size l = of_nat (length as)"

definition ll_data :: "'a LinkedList \<Rightarrow> nat list \<Rightarrow> 'a list" where
  "ll_data l as = map (\<lambda>a. m_data (the (ll_nodes l a))) as"

definition ll_list :: "'a LinkedList \<Rightarrow> 'a list \<Rightarrow> bool" where
  "ll_list l xs \<longleftrightarrow> (\<exists>as. ll_nodes_ok l as \<and> xs = ll_data l as)"

lemma ll_path_cong:
  "(\<And>a. a \<in> set as \<Longrightarrow> st' a = st a) \<Longrightarrow> ll_path st' prev p as = ll_path st prev p as"
  by (induction as arbitrary: prev p) auto

lemma ll_path_dom: "ll_path st prev p as \<Longrightarrow> a \<in> set as \<Longrightarrow> \<exists>n. st a = Some n"
  by (induction as arbitrary: prev p) auto

lemma ll_path_snoc:
  assumes "ll_path st prev p as" "as \<noteq> []" "distinct as" "b \<notin> set as" "st (last as) = Some n"
  shows "ll_path (st (last as \<mapsto> n\<lparr>m_next := Some b\<rparr>, b \<mapsto> nb\<lparr>m_next := None, m_prev := Some (last as)\<rparr>)) prev p (as @ [b])"
  using assms
proof (induction as arbitrary: prev p)
  case (Cons a as)
  show ?case
  proof (cases "as = []")
    case True
    then show ?thesis using Cons.prems by auto
  next
    case False
    then obtain m where m: "st a = Some m" "m_prev m = prev" "ll_path st (Some a) (m_next m) as"
      using Cons.prems(1) by auto
    have "a \<noteq> last as" using False Cons.prems(3) by auto
    then show ?thesis using Cons.IH [OF m(3) False] Cons.prems False m by auto
  qed
qed simp

lemma ll_append_rel:
  assumes "ll_list l xs"
  shows "\<exists>l'. ll_append l x = Inr l' \<and> ll_list l' (xs @ [x])"
proof -
  obtain as where as: "ll_nodes_ok l as" "xs = ll_data l as" using assms by (auto simp: ll_list_def)
  let ?b = "ll_brk l"
  have nb: "?b \<notin> set as" using as(1) by (auto simp: ll_nodes_ok_def)
  show ?thesis
  proof (cases "as = []")
    case True
    then show ?thesis using as
      by (auto simp: ll_append_def new_element_def ll_nodes_ok_def ll_list_def ll_data_def Let_def intro!: exI [of _ "[?b]"])
  next
    case False
    have path: "ll_path (ll_nodes l) None (m_head l) as" "distinct as" "m_tail l = Some (last as)" "m_head l = Some (hd as)"
      using as(1) False by (cases as; auto simp: ll_nodes_ok_def)+
    obtain n where n: "ll_nodes l (last as) = Some n" using ll_path_dom [OF path(1)] False by (meson last_in_set)
    have ne: "last as \<noteq> ?b" using nb False by (metis last_in_set)
    let ?nb = "\<lparr>m_data = x, m_next = None, m_prev = None\<rparr>"
    let ?st = "(ll_nodes l)(last as \<mapsto> n\<lparr>m_next := Some ?b\<rparr>, ?b \<mapsto> ?nb\<lparr>m_next := None, m_prev := Some (last as)\<rparr>)"
    let ?l = "l\<lparr>ll_nodes := ?st, ll_brk := Suc ?b, m_tail := Some ?b, m_size := m_size l + 1\<rparr>"
    have "ll_append l x = Inr ?l"
      using path(3,4) n ne
      by (simp add: ll_append_def new_element_def ll_update_def ll_node_def fun_upd_twist Let_def)
    moreover have "ll_nodes_ok ?l (as @ [?b])"
      using ll_path_snoc [OF path(1) False path(2) nb n, of ?nb] as(1) nb by (auto simp: ll_nodes_ok_def)
    moreover have "ll_data ?l (as @ [?b]) = xs @ [x]"
      using as(2) nb n by (auto simp: ll_data_def)
    ultimately show ?thesis unfolding ll_list_def by metis
  qed
qed

lemma ll_prepend_rel:
  assumes "ll_list l xs"
  shows "\<exists>l'. ll_prepend l x = Inr l' \<and> ll_list l' (x # xs)"
proof -
  obtain as where as: "ll_nodes_ok l as" "xs = ll_data l as" using assms by (auto simp: ll_list_def)
  let ?b = "ll_brk l"
  have nb: "?b \<notin> set as" using as(1) by (auto simp: ll_nodes_ok_def)
  show ?thesis
  proof (cases as)
    case Nil
    then show ?thesis using as
      by (auto simp: ll_prepend_def new_element_def ll_nodes_ok_def ll_list_def ll_data_def Let_def intro!: exI [of _ "[?b]"])
  next
    case (Cons a bs)
    then obtain n where n: "m_head l = Some a" "ll_nodes l a = Some n" "ll_path (ll_nodes l) (Some a) (m_next n) bs"
      and abs: "a \<notin> set bs" "distinct bs" "m_tail l = Some (last as)" "m_prev n = None"
      using as(1) by (auto simp: ll_nodes_ok_def)
    have ne: "a \<noteq> ?b" "?b \<notin> set bs" using nb Cons by auto
    let ?nb = "\<lparr>m_data = x, m_next = Some a, m_prev = None\<rparr>"
    let ?st = "(ll_nodes l)(a \<mapsto> n\<lparr>m_prev := Some ?b\<rparr>, ?b \<mapsto> ?nb)"
    let ?l = "l\<lparr>ll_nodes := ?st, ll_brk := Suc ?b, m_head := Some ?b, m_size := m_size l + 1\<rparr>"
    have "ll_prepend l x = Inr ?l"
      using n ne by (simp add: ll_prepend_def new_element_def ll_update_def ll_node_def fun_upd_twist Let_def)
    moreover have "ll_path ?st (Some a) (m_next n) bs"
      by (rule iffD2 [OF ll_path_cong n(3)]) (use abs(1) ne in auto)
    then have "ll_nodes_ok ?l (?b # as)" using as(1) nb Cons n abs ne by (auto simp: ll_nodes_ok_def)
    moreover have "ll_data ?l (?b # as) = x # xs" using as(2) nb n Cons by (auto simp: ll_data_def)
    ultimately show ?thesis unfolding ll_list_def by metis
  qed
qed

lemma ll_find_loop_path:
  "ll_path (ll_nodes l) prev p as \<Longrightarrow>
   ll_find_loop P p l = Some (Inr (case List.find P (ll_data l as) of Some x \<Rightarrow> Inr x
     | None \<Rightarrow> Inl (create_from_string ''No match found!'')))"
proof (induction as arbitrary: prev p)
  case Nil
  then show ?case by (subst ll_find_loop.simps) (simp add: ll_data_def)
next
  case (Cons a as)
  then obtain n where n: "p = Some a" "ll_nodes l a = Some n" "ll_path (ll_nodes l) (Some a) (m_next n) as" by auto
  then show ?case using Cons.IH [OF n(3)] by (subst ll_find_loop.simps) (simp add: ll_node_def ll_data_def)
qed

lemma ll_destroy_loop_path:
  "ll_path (ll_nodes l) prev p as \<Longrightarrow> distinct as \<Longrightarrow>
   \<exists>l'. ll_destroy_loop p l = Some (Inr l') \<and> (\<forall>a. ll_nodes l' a = (if a \<in> set as then None else ll_nodes l a))"
proof (induction as arbitrary: prev p l)
  case Nil
  then show ?case by (subst ll_destroy_loop.simps) simp
next
  case (Cons a as)
  then obtain n where n: "p = Some a" "ll_nodes l a = Some n" "ll_path (ll_nodes l) (Some a) (m_next n) as" by auto
  let ?l = "l\<lparr>ll_nodes := (ll_nodes l)(a := None)\<rparr>"
  have "ll_path (ll_nodes ?l) (Some a) (m_next n) as"
    by (rule iffD2 [OF ll_path_cong n(3)]) (use Cons.prems(2) in auto)
  with Cons.IH [OF this] Cons.prems(2) obtain l' where "ll_destroy_loop (m_next n) ?l = Some (Inr l')"
    "\<forall>b. ll_nodes l' b = (if b \<in> set as then None else ll_nodes ?l b)" by auto
  then show ?case using n by (subst ll_destroy_loop.simps) (auto simp: ll_node_def)
qed

text \<open>The loops of \<^verbatim>\<open>remove\<close> and \<^verbatim>\<open>get\<close> run out before they reach the element.\<close>

lemma ll_remove_loop_id:
  "ll_path (ll_nodes l) prev p as \<Longrightarrow> ll_remove_loop i index p l = Inr l"
proof (induction as arbitrary: i prev p)
  case Nil
  then show ?case by (subst ll_remove_loop.simps) simp
next
  case (Cons a as)
  then show ?case by (subst ll_remove_loop.simps) (auto simp: ll_node_def)
qed

lemma ll_get_loop_end:
  "ll_path (ll_nodes l) prev p as \<Longrightarrow> unat index \<le> unat i + length as \<Longrightarrow> ll_get_loop i index p l = Inl MissingReturn"
proof (induction as arbitrary: i prev p)
  case Nil
  then show ?case by (subst ll_get_loop.simps) (simp add: word_less_nat_alt)
next
  case (Cons a as)
  then obtain n where n: "p = Some a" "ll_nodes l a = Some n" "ll_path (ll_nodes l) (Some a) (m_next n) as" by auto
  show ?case
  proof (cases "i < index")
    case True
    then have "unat index \<le> unat (i + 1) + length as" using Cons.prems(2) unat_Suc_less [OF True] by simp
    then show ?thesis using Cons.IH [OF n(3)] n True by (subst ll_get_loop.simps) (auto simp: ll_node_def)
  qed (subst ll_get_loop.simps, simp)
qed

section \<open>Properties\<close>

text \<open>
  \<^verbatim>\<open>LinkedList\<close> keeps a doubly linked chain: \<^verbatim>\<open>append\<close> and \<^verbatim>\<open>prepend\<close> add at the two ends,
  \<^verbatim>\<open>find_first_match\<close> returns the first match, and the destructor returns having freed every
  element.  But no index is ever reached by the loops of \<^verbatim>\<open>remove\<close> and \<^verbatim>\<open>get\<close>: \<^verbatim>\<open>remove\<close> changes
  nothing, and \<^verbatim>\<open>get\<close> of an index within bounds runs off the end of the function without
  returning.
\<close>

theorem linked_list_contract:
  assumes "ll_list l xs" "length xs < 2 ^ 64"
  shows "(\<exists>l'. ll_append l x = Inr l' \<and> ll_list l' (xs @ [x])) \<and>
    (\<exists>l'. ll_prepend l x = Inr l' \<and> ll_list l' (x # xs)) \<and>
    ll_find_first_match l P = Some (Inr (case List.find P xs of Some x \<Rightarrow> Inr x
      | None \<Rightarrow> Inl (create_from_string ''No match found!''))) \<and>
    (\<exists>l'. ll_destroy l = Some (Inr l') \<and> card (dom (ll_nodes l) - dom (ll_nodes l')) = length xs) \<and>
    ll_remove l i = Inr l \<and>
    ll_get l i = (if unat i < length xs then Inl MissingReturn else Inr (Inl (create_from_string ''Index out of bounds!'')))"
proof -
  obtain as where as: "ll_nodes_ok l as" "xs = ll_data l as" using assms(1) by (auto simp: ll_list_def)
  have path: "ll_path (ll_nodes l) None (m_head l) as" "distinct as" "m_size l = of_nat (length as)"
    using as(1) by (simp_all add: ll_nodes_ok_def)
  have len: "length as = length xs" "unat (m_size l) = length xs"
    using as(2) path(3) assms(2) unat_of_nat_small [where ?'a = 64, of "length xs"] by (simp_all add: ll_data_def)
  have ge: "i \<ge> m_size l \<longleftrightarrow> \<not> unat i < length xs" using len(2) by (simp add: word_le_nat_alt not_less)
  obtain l' where l': "ll_destroy l = Some (Inr l')" "\<forall>a. ll_nodes l' a = (if a \<in> set as then None else ll_nodes l a)"
    using ll_destroy_loop_path [OF path(1,2)] by (auto simp: ll_destroy_def)
  have "dom (ll_nodes l) - dom (ll_nodes l') = set as" using l'(2) ll_path_dom [OF path(1)] by auto
  then have "card (dom (ll_nodes l) - dom (ll_nodes l')) = length xs" using path(2) len(1) by (simp add: distinct_card)
  moreover have "ll_get l i = (if unat i < length xs then Inl MissingReturn else Inr (Inl (create_from_string ''Index out of bounds!'')))"
    using ge ll_get_loop_end [OF path(1), of i 0] len(1) by (simp add: ll_get_def)
  moreover have "ll_remove l i = Inr l" using ll_remove_loop_id [OF path(1)] by (simp add: ll_remove_def)
  ultimately show ?thesis
    using ll_append_rel [OF assms(1)] ll_prepend_rel [OF assms(1)] l'(1) ll_find_loop_path [OF path(1), of P] as(2)
    by (simp add: ll_find_first_match_def)
qed

lemma ll_new_list: "ll_list ll_new []"
  by (auto simp: ll_list_def ll_nodes_ok_def ll_new_def ll_data_def)

theorem linked_list_contract_witness:
  "\<exists>l. ll_append ll_new (4 :: nat) = Inr l \<and> ll_list l [4]"
  using linked_list_contract [OF ll_new_list, of "4 :: nat" "\<lambda>_. True" 0] by simp

end
