(* ===== verification/HashMaps.thy ===== *)
theory HashMaps
  imports ArrayLists LinkedLists
begin

text \<open>
  \<^verbatim>\<open>Utils/Hashing\<close> and \<^verbatim>\<open>Utils/Maps/HashMap.h\<close>: the hash function and the chained map.
  The bucket array holds pointers to entries in a store; a null bucket is empty.  Reading a
  member through a null \<^verbatim>\<open>RefPtr\<close> is the fault \<^verbatim>\<open>NullDeref\<close>.  The hash of a key is an argument
  of the operations, as \<^verbatim>\<open>Function\<close> is a template argument.
\<close>

section \<open>Hashing\<close>

text \<open>The bytes a key is hashed by; \<^verbatim>\<open>char\<close> is unsigned on RISC-V.\<close>

type_synonym hash_input = "u8 list"

definition djb2 :: "hash_input \<Rightarrow> u32" where
  "djb2 input = fold (\<lambda>c hash. push_bit 5 hash + hash + ucast c) input 5381"

text \<open>\<^verbatim>\<open>calculate_size\<close> of a zero-terminated string is the number of bytes before the zero.\<close>

definition to_hash_input_cstring :: "u8 list \<Rightarrow> hash_input" where
  "to_hash_input_cstring value = takeWhile (\<lambda>c. c \<noteq> 0) value"

lemma djb2_step: "djb2 (cs @ [c]) = 33 * djb2 cs + ucast c"
proof -
  have "push_bit 5 h + h = 33 * h" for h :: u32 by (simp add: push_bit_eq_mult algebra_simps)
  then show ?thesis by (simp add: djb2_def)
qed

section \<open>\<^verbatim>\<open>HashMap\<close>\<close>

record ('k, 'v) Entry =
  entry_key :: 'k
  entry_value :: 'v
  entry_next :: "nat option"

record ('k, 'v) HashMap =
  m_entries :: "nat option list"
  hm_nodes :: "nat \<Rightarrow> ('k, 'v) Entry option"
  hm_brk :: nat

definition DefaultSize :: u32 where
  "DefaultSize = 20"

definition hm_new :: "('k, 'v) HashMap" where
  "hm_new = \<lparr>m_entries = replicate (unat DefaultSize) None, hm_nodes = \<lambda>_. None, hm_brk = 0\<rparr>"

definition hm_move :: "('k, 'v) HashMap \<Rightarrow> ('k, 'v) HashMap \<times> ('k, 'v) HashMap" where
  "hm_move other = (other, other\<lparr>m_entries := replicate (unat DefaultSize) None\<rparr>)"

text \<open>Move assignment; \<^verbatim>\<open>same\<close> tells whether the two objects are one.\<close>

definition hm_assign_move :: "bool \<Rightarrow> ('k, 'v) HashMap \<Rightarrow> ('k, 'v) HashMap \<Rightarrow> ('k, 'v) HashMap \<times> ('k, 'v) HashMap" where
  "hm_assign_move same this other =
     (if same then (this, other) else (other, other\<lparr>m_entries := replicate (unat DefaultSize) None\<rparr>))"

definition hm_index :: "('k \<Rightarrow> u32) \<Rightarrow> 'k \<Rightarrow> nat" where
  "hm_index h key = unat (h key mod DefaultSize)"

definition hm_bucket :: "('k, 'v) HashMap \<Rightarrow> nat \<Rightarrow> nat option exec" where
  "hm_bucket m index = (if index < length (m_entries m) then Inr (m_entries m ! index)
     else Inl (AssertFailed ''Array: Index out of bounds!''))"

definition hm_entry :: "('k, 'v) HashMap \<Rightarrow> nat option \<Rightarrow> ('k, 'v) Entry exec" where
  "hm_entry m e = (case e of None \<Rightarrow> Inl NullDeref
     | Some a \<Rightarrow> (case hm_nodes m a of None \<Rightarrow> Inl Uninitialised | Some n \<Rightarrow> Inr n))"

partial_function (option) hm_get_loop :: "('k, 'v) HashMap \<Rightarrow> 'k \<Rightarrow> nat option \<Rightarrow> 'v error_or exec option" where
  "hm_get_loop m key entry =
     (if entry \<noteq> None then
        (case hm_entry m entry of Inl f \<Rightarrow> Some (Inl f)
         | Inr n \<Rightarrow> if entry_key n = key then Some (Inr (Inr (entry_value n))) else hm_get_loop m key (entry_next n))
      else Some (Inr (Inl (create_from_string ''Key not found in map!''))))"

definition hm_get :: "('k \<Rightarrow> u32) \<Rightarrow> ('k, 'v) HashMap \<Rightarrow> 'k \<Rightarrow> 'v error_or exec option" where
  "hm_get h m key = (case hm_bucket m (hm_index h key) of Inl f \<Rightarrow> Some (Inl f) | Inr entry \<Rightarrow> hm_get_loop m key entry)"

text \<open>\<^verbatim>\<open>while(!entry->next) entry = entry->next;\<close>\<close>

partial_function (option) hm_last_loop :: "('k, 'v) HashMap \<Rightarrow> nat option \<Rightarrow> nat option exec option" where
  "hm_last_loop m entry =
     (case hm_entry m entry of Inl f \<Rightarrow> Some (Inl f)
      | Inr n \<Rightarrow> if entry_next n = None then hm_last_loop m (entry_next n) else Some (Inr entry))"

definition hm_new_entry :: "'k \<Rightarrow> 'v \<Rightarrow> ('k, 'v) HashMap \<Rightarrow> nat \<times> ('k, 'v) HashMap" where
  "hm_new_entry key value m =
     (hm_brk m, m\<lparr>hm_nodes := (hm_nodes m)(hm_brk m \<mapsto> \<lparr>entry_key = key, entry_value = value, entry_next = None\<rparr>),
                  hm_brk := Suc (hm_brk m)\<rparr>)"

definition hm_set :: "('k \<Rightarrow> u32) \<Rightarrow> ('k, 'v) HashMap \<Rightarrow> 'k \<Rightarrow> 'v \<Rightarrow> ('k, 'v) HashMap exec option" where
  "hm_set h m key value =
     (let index = hm_index h key in
      case hm_bucket m index of Inl f \<Rightarrow> Some (Inl f)
      | Inr entry \<Rightarrow>
          if entry = None then
            (let (e, m) = hm_new_entry key value m in Some (Inr (m\<lparr>m_entries := (m_entries m)[index := Some e]\<rparr>)))
          else
            (case hm_last_loop m entry of None \<Rightarrow> None
             | Some (Inl f) \<Rightarrow> Some (Inl f)
             | Some (Inr entry) \<Rightarrow>
                 (let (e, m) = hm_new_entry key value m in
                  Some (exec_bind (hm_entry m entry) (\<lambda>n.
                    Inr (m\<lparr>hm_nodes := (hm_nodes m)(the entry \<mapsto> n\<lparr>entry_next := Some e\<rparr>)\<rparr>))))))"

text \<open>\<^verbatim>\<open>while(!entry) ...\<close>: the body runs only with a null entry, and begins by reading its key.\<close>

partial_function (option) hm_remove_loop ::
    "('k, 'v) HashMap \<Rightarrow> nat \<Rightarrow> 'k \<Rightarrow> nat option \<Rightarrow> nat option \<Rightarrow> ('k, 'v) HashMap exec option" where
  "hm_remove_loop m index key previous entry =
     (if entry = None then
        (case hm_entry m entry of Inl f \<Rightarrow> Some (Inl f)
         | Inr n \<Rightarrow>
             if entry_key n = key then
               (if previous = None then Some (Inr (m\<lparr>m_entries := (m_entries m)[index := entry_next n]\<rparr>))
                else Some (exec_bind (hm_entry m previous) (\<lambda>p.
                  Inr (m\<lparr>hm_nodes := (hm_nodes m)(the previous \<mapsto> p\<lparr>entry_next := entry_next n\<rparr>)\<rparr>))))
             else hm_remove_loop m index key entry (entry_next n))
      else Some (Inr m))"

definition hm_remove :: "('k \<Rightarrow> u32) \<Rightarrow> ('k, 'v) HashMap \<Rightarrow> 'k \<Rightarrow> ('k, 'v) HashMap exec option" where
  "hm_remove h m key =
     (let index = hm_index h key in
      case hm_bucket m index of Inl f \<Rightarrow> Some (Inl f) | Inr entry \<Rightarrow> hm_remove_loop m index key None entry)"

partial_function (option) hm_has_loop :: "('k, 'v) HashMap \<Rightarrow> 'k \<Rightarrow> nat option \<Rightarrow> bool exec option" where
  "hm_has_loop m key entry =
     (if entry \<noteq> None then
        (case hm_entry m entry of Inl f \<Rightarrow> Some (Inl f)
         | Inr n \<Rightarrow> if entry_key n = key then Some (Inr True) else hm_has_loop m key (entry_next n))
      else Some (Inr False))"

definition hm_has_key :: "('k \<Rightarrow> u32) \<Rightarrow> ('k, 'v) HashMap \<Rightarrow> 'k \<Rightarrow> bool exec option" where
  "hm_has_key h m key = (case hm_bucket m (hm_index h key) of Inl f \<Rightarrow> Some (Inl f) | Inr entry \<Rightarrow> hm_has_loop m key entry)"

partial_function (option) hm_visit_chain ::
    "('k, 'v) HashMap \<Rightarrow> ('k \<Rightarrow> 'v \<Rightarrow> 's \<Rightarrow> 's) \<Rightarrow> nat option \<Rightarrow> 's \<Rightarrow> 's exec option" where
  "hm_visit_chain m callback entry s =
     (if entry \<noteq> None then
        (case hm_entry m entry of Inl f \<Rightarrow> Some (Inl f)
         | Inr n \<Rightarrow> hm_visit_chain m callback (entry_next n) (callback (entry_key n) (entry_value n) s))
      else Some (Inr s))"

definition hm_for_each :: "('k, 'v) HashMap \<Rightarrow> ('k \<Rightarrow> 'v \<Rightarrow> 's \<Rightarrow> 's) \<Rightarrow> 's \<Rightarrow> 's exec option" where
  "hm_for_each m callback s =
     fold (\<lambda>i r. case r of Some (Inr s) \<Rightarrow>
         (case hm_bucket m i of Inl f \<Rightarrow> Some (Inl f) | Inr entry \<Rightarrow> hm_visit_chain m callback entry s)
       | _ \<Rightarrow> r) [0..<unat DefaultSize] (Some (Inr s))"

section \<open>What the buckets hold\<close>

text \<open>
  In the states the operations produce every chain has at most one entry.  \<^verbatim>\<open>hm_rel\<close> gives
  the map from bucket numbers to the key and the value stored there.
\<close>

definition hm_rel :: "('k, 'v) HashMap \<Rightarrow> (nat \<Rightarrow> ('k \<times> 'v) option) \<Rightarrow> bool" where
  "hm_rel m b \<longleftrightarrow> length (m_entries m) = unat DefaultSize \<and>
     (\<forall>i < unat DefaultSize. b i = None \<longrightarrow> m_entries m ! i = None) \<and>
     (\<forall>i < unat DefaultSize. \<forall>k v. b i = Some (k, v) \<longrightarrow> (\<exists>a. m_entries m ! i = Some a \<and> a < hm_brk m \<and>
          hm_nodes m a = Some \<lparr>entry_key = k, entry_value = v, entry_next = None\<rparr>))"

lemma hm_index_less: "hm_index h key < unat DefaultSize"
proof -
  have "h key mod DefaultSize < DefaultSize" by (rule word_mod_less_divisor) (simp add: DefaultSize_def)
  then show ?thesis by (simp add: hm_index_def word_less_nat_alt)
qed

lemma hm_bucket_rel:
  assumes "hm_rel m b" "i < unat DefaultSize"
  shows "hm_bucket m i = Inr (m_entries m ! i)"
  using assms by (simp add: hm_bucket_def hm_rel_def)

lemma hm_rel_Some:
  assumes "hm_rel m b" "i < unat DefaultSize" "b i = Some (k, v)"
  obtains a where "m_entries m ! i = Some a" "a < hm_brk m" "hm_nodes m a = Some \<lparr>entry_key = k, entry_value = v, entry_next = None\<rparr>"
  using assms unfolding hm_rel_def by meson

lemma hm_rel_None: "hm_rel m b \<Longrightarrow> i < unat DefaultSize \<Longrightarrow> b i = None \<Longrightarrow> m_entries m ! i = None"
  by (auto simp: hm_rel_def)

lemma hm_new_rel: "hm_rel hm_new (\<lambda>_. None)"
  by (simp add: hm_rel_def hm_new_def)

lemma hm_get_rel:
  assumes "hm_rel m b"
  shows "hm_get h m key = Some (Inr (case b (hm_index h key) of
     Some (k, v) \<Rightarrow> if k = key then Inr v else Inl (create_from_string ''Key not found in map!'')
   | None \<Rightarrow> Inl (create_from_string ''Key not found in map!'')))"
proof (cases "b (hm_index h key)")
  case None
  then show ?thesis using hm_bucket_rel [OF assms hm_index_less [of h key]] hm_rel_None [OF assms hm_index_less None]
    by (simp add: hm_get_def hm_get_loop.simps)
next
  case (Some kv)
  then obtain a where a: "m_entries m ! hm_index h key = Some a" "hm_nodes m a = Some \<lparr>entry_key = fst kv, entry_value = snd kv, entry_next = None\<rparr>"
    using hm_rel_Some [OF assms hm_index_less [of h key], of "fst kv" "snd kv"] by auto
  have "hm_get h m key = hm_get_loop m key (Some a)"
    using hm_bucket_rel [OF assms hm_index_less [of h key]] a(1) by (simp add: hm_get_def)
  also have "\<dots> = Some (Inr (if fst kv = key then Inr (snd kv) else Inl (create_from_string ''Key not found in map!'')))"
    using a(2) by (subst hm_get_loop.simps, simp add: hm_entry_def, subst hm_get_loop.simps, simp)
  finally show ?thesis using Some by (simp split: prod.split)
qed

lemma hm_has_rel:
  assumes "hm_rel m b"
  shows "hm_has_key h m key = Some (Inr (case b (hm_index h key) of Some (k, v) \<Rightarrow> k = key | None \<Rightarrow> False))"
proof (cases "b (hm_index h key)")
  case None
  then show ?thesis using hm_bucket_rel [OF assms hm_index_less [of h key]] hm_rel_None [OF assms hm_index_less None]
    by (simp add: hm_has_key_def hm_has_loop.simps)
next
  case (Some kv)
  then obtain a where a: "m_entries m ! hm_index h key = Some a" "hm_nodes m a = Some \<lparr>entry_key = fst kv, entry_value = snd kv, entry_next = None\<rparr>"
    using hm_rel_Some [OF assms hm_index_less [of h key], of "fst kv" "snd kv"] by auto
  have "hm_has_key h m key = hm_has_loop m key (Some a)"
    using hm_bucket_rel [OF assms hm_index_less [of h key]] a(1) by (simp add: hm_has_key_def)
  also have "\<dots> = Some (Inr (fst kv = key))"
    using a(2) by (subst hm_has_loop.simps, simp add: hm_entry_def, subst hm_has_loop.simps, simp)
  finally show ?thesis using Some by (simp split: prod.split)
qed

lemma hm_set_empty:
  assumes "hm_rel m b" "b (hm_index h key) = None"
  shows "\<exists>m'. hm_set h m key value = Some (Inr m') \<and> hm_rel m' (b(hm_index h key \<mapsto> (key, value)))"
proof -
  let ?i = "hm_index h key"
  have i: "?i < unat DefaultSize" by (rule hm_index_less)
  let ?m = "m\<lparr>hm_nodes := (hm_nodes m)(hm_brk m \<mapsto> \<lparr>entry_key = key, entry_value = value, entry_next = None\<rparr>),
    hm_brk := Suc (hm_brk m), m_entries := (m_entries m)[?i := Some (hm_brk m)]\<rparr>"
  have "hm_set h m key value = Some (Inr ?m)"
    using hm_bucket_rel [OF assms(1) i] hm_rel_None [OF assms(1) i assms(2)]
    by (simp add: hm_set_def hm_new_entry_def Let_def)
  moreover have "hm_rel ?m (b(?i \<mapsto> (key, value)))"
    unfolding hm_rel_def
  proof (intro conjI allI impI)
    show "length (m_entries ?m) = unat DefaultSize" using assms(1) by (simp add: hm_rel_def)
    show "m_entries ?m ! j = None" if "j < unat DefaultSize" "(b(?i \<mapsto> (key, value))) j = None" for j
      using that assms(1) i by (auto simp: hm_rel_def split: if_splits)
    show "\<exists>a. m_entries ?m ! j = Some a \<and> a < hm_brk ?m \<and> hm_nodes ?m a = Some \<lparr>entry_key = k, entry_value = v, entry_next = None\<rparr>"
      if j: "j < unat DefaultSize" and jv: "(b(?i \<mapsto> (key, value))) j = Some (k, v)" for j k v
    proof (cases "j = ?i")
      case True
      then show ?thesis using jv assms(1) i by (simp add: hm_rel_def)
    next
      case False
      then have "b j = Some (k, v)" using jv by simp
      then obtain a where "m_entries m ! j = Some a" "a < hm_brk m" "hm_nodes m a = Some \<lparr>entry_key = k, entry_value = v, entry_next = None\<rparr>"
        by (rule hm_rel_Some [OF assms(1) j])
      then show ?thesis using False by simp
    qed
  qed
  ultimately show ?thesis by blast
qed

lemma hm_set_occupied:
  assumes "hm_rel m b" "b (hm_index h key) = Some kv"
  shows "hm_set h m key value = Some (Inl NullDeref)"
proof -
  obtain a where a: "m_entries m ! hm_index h key = Some a" "hm_nodes m a = Some \<lparr>entry_key = fst kv, entry_value = snd kv, entry_next = None\<rparr>"
    using hm_rel_Some [OF assms(1) hm_index_less [of h key], of "fst kv" "snd kv"] assms(2) by auto
  have "hm_last_loop m (Some a) = Some (Inl NullDeref)"
    using a(2) by (subst hm_last_loop.simps, simp add: hm_entry_def, subst hm_last_loop.simps, simp add: hm_entry_def)
  then show ?thesis using hm_bucket_rel [OF assms(1) hm_index_less [of h key]] a(1) by (simp add: hm_set_def Let_def)
qed

lemma hm_remove_rel:
  assumes "hm_rel m b"
  shows "hm_remove h m key = Some (case b (hm_index h key) of None \<Rightarrow> Inl NullDeref | Some _ \<Rightarrow> Inr m)"
proof (cases "b (hm_index h key)")
  case None
  then show ?thesis using hm_bucket_rel [OF assms hm_index_less [of h key]] hm_rel_None [OF assms hm_index_less None]
    by (simp add: hm_remove_def hm_remove_loop.simps hm_entry_def)
next
  case (Some kv)
  then obtain a where a: "m_entries m ! hm_index h key = Some a"
    using hm_rel_Some [OF assms hm_index_less [of h key], of "fst kv" "snd kv"] by auto
  then show ?thesis using hm_bucket_rel [OF assms hm_index_less [of h key]] Some
    by (simp add: hm_remove_def hm_remove_loop.simps)
qed

section \<open>Properties\<close>

text \<open>
  C13. \<^verbatim>\<open>HashMap\<close> is a map as long as no two keys share a bucket.  Setting a key whose bucket is
  empty makes \<^verbatim>\<open>get\<close> and \<^verbatim>\<open>has_key\<close> find it and changes nothing for keys of other buckets;
  setting a key whose bucket is occupied (a second key or the same key again) dereferences a
  null entry, as the loop that looks for the end of the chain tests the wrong way round;
  \<^verbatim>\<open>remove\<close> never removes, and dereferences a null entry when the bucket is empty.
\<close>

theorem hash_map_contract:
  assumes "hm_rel m b"
  shows "(b (hm_index h key) = None \<longrightarrow> (\<exists>m'. hm_set h m key value = Some (Inr m') \<and>
      hm_get h m' key = Some (Inr (Inr value)) \<and> hm_has_key h m' key = Some (Inr True) \<and>
      (\<forall>key'. hm_index h key' \<noteq> hm_index h key \<longrightarrow> hm_get h m' key' = hm_get h m key'))) \<and>
    (b (hm_index h key) \<noteq> None \<longrightarrow> hm_set h m key value = Some (Inl NullDeref)) \<and>
    hm_remove h m key = Some (if b (hm_index h key) = None then Inl NullDeref else Inr m)"
proof -
  have "\<exists>m'. hm_set h m key value = Some (Inr m') \<and> hm_get h m' key = Some (Inr (Inr value)) \<and>
      hm_has_key h m' key = Some (Inr True) \<and>
      (\<forall>key'. hm_index h key' \<noteq> hm_index h key \<longrightarrow> hm_get h m' key' = hm_get h m key')"
    if none: "b (hm_index h key) = None"
  proof -
    obtain m' where m': "hm_set h m key value = Some (Inr m')" "hm_rel m' (b(hm_index h key \<mapsto> (key, value)))"
      using hm_set_empty [OF assms none] by blast
    then show ?thesis using hm_get_rel [OF m'(2), of h] hm_has_rel [OF m'(2), of h] hm_get_rel [OF assms, of h] by simp
  qed
  moreover have "hm_set h m key value = Some (Inl NullDeref)" if "b (hm_index h key) \<noteq> None"
    using hm_set_occupied [OF assms] that by auto
  moreover have "hm_remove h m key = Some (if b (hm_index h key) = None then Inl NullDeref else Inr m)"
    using hm_remove_rel [OF assms, of h key] by (simp split: option.splits)
  ultimately show ?thesis by blast
qed

theorem hash_map_contract_witness:
  "\<exists>m. hm_set djb2 hm_new [97] (1 :: nat) = Some (Inr m) \<and> hm_get djb2 m [97] = Some (Inr (Inr 1))"
  using hash_map_contract [OF hm_new_rel, of djb2 "[97]" "1 :: nat"] by auto

end
