(* ===== verification/Buffers.thy ===== *)
theory Buffers
  imports ArrayLists
begin

text \<open>
  \<^verbatim>\<open>Utils/Arrays/Array.h\<close>, the array of fixed size, and
  \<^verbatim>\<open>Utils/Arrays/CircularStringBuffer.cpp\<close>, the buffer that collects characters until a
  write does not fit and then starts over.
\<close>

section \<open>\<^verbatim>\<open>Array\<close>\<close>

text \<open>The null pointer is the empty storage; \<^verbatim>\<open>dflt\<close> is the value of \<^verbatim>\<open>T()\<close>.\<close>

record 'a Array =
  arr_data :: "'a list"
  arr_m_size :: size_t

definition arr_new :: "'a \<Rightarrow> size_t \<Rightarrow> 'a Array" where
  "arr_new dflt n = (if n = 0 then \<lparr>arr_data = [], arr_m_size = n\<rparr>
     else \<lparr>arr_data = replicate (unat n) dflt, arr_m_size = n\<rparr>)"

definition arr_of :: "size_t \<Rightarrow> 'a list \<Rightarrow> 'a Array" where
  "arr_of n array = \<lparr>arr_data = array, arr_m_size = n\<rparr>"

definition arr_clear :: "'a Array \<Rightarrow> 'a Array" where
  "arr_clear a = (if arr_data a \<noteq> [] then \<lparr>arr_data = [], arr_m_size = 0\<rparr> else a)"

definition arr_store :: "'a list \<Rightarrow> size_t \<Rightarrow> 'a \<Rightarrow> 'a list exec" where
  "arr_store xs i v = (if unat i < length xs then Inr (xs[unat i := v]) else Inl OutOfBounds)"

definition arr_load :: "'a list \<Rightarrow> size_t \<Rightarrow> 'a exec" where
  "arr_load xs i = (if unat i < length xs then Inr (xs ! unat i) else Inl OutOfBounds)"

definition arr_copy :: "'a \<Rightarrow> 'a Array \<Rightarrow> 'a Array exec" where
  "arr_copy dflt other =
     exec_bind (for_exec 0 (arr_m_size other) (\<lambda>i xs. exec_bind (arr_load (arr_data other) i) (\<lambda>v. arr_store xs i v))
       (replicate (unat (arr_m_size other)) dflt)) (\<lambda>xs.
     Inr \<lparr>arr_data = xs, arr_m_size = arr_m_size other\<rparr>)"

definition arr_move :: "'a Array \<Rightarrow> 'a Array \<times> 'a Array" where
  "arr_move other = (other, \<lparr>arr_data = [], arr_m_size = 0\<rparr>)"

definition arr_assign :: "'a \<Rightarrow> bool \<Rightarrow> 'a Array \<Rightarrow> 'a Array \<Rightarrow> 'a Array exec" where
  "arr_assign dflt same this other =
     (if \<not> same then let this = arr_clear this in arr_copy dflt other else Inr this)"

definition arr_assign_move :: "bool \<Rightarrow> 'a Array \<Rightarrow> 'a Array \<Rightarrow> 'a Array \<times> 'a Array" where
  "arr_assign_move same this other = (if \<not> same then let this = arr_clear this in arr_move other else (this, this))"

definition arr_fill :: "'a Array \<Rightarrow> 'a \<Rightarrow> 'a Array exec" where
  "arr_fill a value =
     exec_bind (for_exec 0 (arr_m_size a) (\<lambda>i xs. arr_store xs i value) (arr_data a)) (\<lambda>xs. Inr (a\<lparr>arr_data := xs\<rparr>))"

text \<open>\<^verbatim>\<open>set\<close> does not check the index.\<close>

definition arr_set :: "'a Array \<Rightarrow> size_t \<Rightarrow> 'a \<Rightarrow> 'a Array exec" where
  "arr_set a index element = exec_bind (arr_store (arr_data a) index element) (\<lambda>xs. Inr (a\<lparr>arr_data := xs\<rparr>))"

definition arr_get :: "'a Array \<Rightarrow> size_t \<Rightarrow> 'a exec" where
  "arr_get a index = (if \<not> index < arr_m_size a then Inl (AssertFailed ''Array: Index out of bounds!'')
     else arr_load (arr_data a) index)"

definition arr_size :: "'a Array \<Rightarrow> size_t" where
  "arr_size a = arr_m_size a"

definition arr_rel :: "'a Array \<Rightarrow> 'a list \<Rightarrow> bool" where
  "arr_rel a xs \<longleftrightarrow> arr_data a = xs \<and> unat (arr_m_size a) = length xs"

interpretation fixed_array: indexed arr_get arr_size arr_rel
  by unfold_locales (auto simp: arr_rel_def arr_size_def arr_get_def arr_load_def word_less_nat_alt)

lemma arr_new_rel: "arr_rel (arr_new dflt n) (replicate (unat n) dflt)"
  by (simp add: arr_rel_def arr_new_def)

lemma arr_set_rel:
  "arr_rel a xs \<Longrightarrow> arr_set a i v = (if unat i < length xs then Inr (a\<lparr>arr_data := xs[unat i := v]\<rparr>) else Inl OutOfBounds)"
  by (simp add: arr_rel_def arr_set_def arr_store_def)

lemma arr_fill_rel:
  assumes "arr_rel a xs"
  shows "\<exists>a'. arr_fill a v = Inr a' \<and> arr_rel a' (replicate (length xs) v)"
proof -
  let ?P = "\<lambda>k ys. length ys = length xs \<and> (\<forall>j < k. ys ! j = v)"
  have "\<exists>ys. for_exec 0 (arr_m_size a) (\<lambda>i xs. arr_store xs i v) (arr_data a) = Inr ys \<and> ?P (unat (arr_m_size a)) ys"
  proof (rule for_exec_invariant)
    show "?P (unat (0 :: size_t)) (arr_data a)" using assms by (simp add: arr_rel_def)
    show "\<exists>zs. arr_store ys j v = Inr zs \<and> ?P (Suc (unat j)) zs"
      if "0 \<le> j" "j < arr_m_size a" "?P (unat j) ys" for j ys
    proof -
      have "unat j < length ys" using that(2,3) assms by (simp add: arr_rel_def word_less_nat_alt)
      then show ?thesis using that(3) by (auto simp: arr_store_def nth_list_update less_Suc_eq)
    qed
  qed simp
  then obtain ys where ys: "for_exec 0 (arr_m_size a) (\<lambda>i xs. arr_store xs i v) (arr_data a) = Inr ys"
      "length ys = length xs" "\<forall>j < length xs. ys ! j = v"
    using assms by (auto simp: arr_rel_def)
  then have "ys = replicate (length xs) v" by (auto intro: nth_equalityI)
  then show ?thesis using ys(1) assms by (simp add: arr_fill_def arr_rel_def)
qed

lemma arr_copy_rel:
  assumes "arr_rel a xs"
  shows "\<exists>a'. arr_copy dflt a = Inr a' \<and> arr_rel a' xs"
proof -
  let ?P = "\<lambda>k ys. length ys = length xs \<and> (\<forall>j < k. ys ! j = xs ! j)"
  let ?body = "\<lambda>i ys. exec_bind (arr_load (arr_data a) i) (\<lambda>v. arr_store ys i v)"
  have "\<exists>ys. for_exec 0 (arr_m_size a) ?body (replicate (unat (arr_m_size a)) dflt) = Inr ys \<and> ?P (unat (arr_m_size a)) ys"
  proof (rule for_exec_invariant)
    show "?P (unat (0 :: size_t)) (replicate (unat (arr_m_size a)) dflt)" using assms by (simp add: arr_rel_def)
    show "\<exists>zs. ?body j ys = Inr zs \<and> ?P (Suc (unat j)) zs" if "0 \<le> j" "j < arr_m_size a" "?P (unat j) ys" for j ys
    proof -
      have "unat j < length ys" using that(2,3) assms by (simp add: arr_rel_def word_less_nat_alt)
      then show ?thesis using that(3) assms
        by (auto simp: arr_rel_def arr_load_def arr_store_def nth_list_update less_Suc_eq)
    qed
  qed simp
  then obtain ys where ys: "for_exec 0 (arr_m_size a) ?body (replicate (unat (arr_m_size a)) dflt) = Inr ys"
      "length ys = length xs" "\<forall>j < length xs. ys ! j = xs ! j"
    using assms by (auto simp: arr_rel_def)
  then have "ys = xs" by (auto intro: nth_equalityI)
  then show ?thesis using ys(1) assms by (simp add: arr_copy_def arr_rel_def)
qed

section \<open>\<^verbatim>\<open>CircularStringBuffer\<close>\<close>

record CircularStringBuffer =
  csb_buffer :: "u8 list"
  csb_size :: size_t
  csb_head :: size_t

definition csb_new :: "size_t \<Rightarrow> CircularStringBuffer exec" where
  "csb_new capacity =
     (if \<not> capacity > 0 then Inl (AssertFailed ''CircularStringBuffer: capacity must be > 0'')
      else Inr \<lparr>csb_buffer = replicate (unat capacity) 0, csb_size = capacity, csb_head = 0\<rparr>)"

definition csb_clear :: "CircularStringBuffer \<Rightarrow> CircularStringBuffer" where
  "csb_clear b = b\<lparr>csb_buffer := replicate (unat (csb_size b)) 0, csb_head := 0\<rparr>"

definition csb_flush :: "CircularStringBuffer \<Rightarrow> CircularStringBuffer exec" where
  "csb_flush b =
     (if csb_head b = 0 then Inr b
      else exec_bind (arr_store (csb_buffer b) (csb_head b) 0) (\<lambda>buf. Inr (csb_clear (b\<lparr>csb_buffer := buf\<rparr>))))"

text \<open>
  \<^verbatim>\<open>memcpy(m_buffer + m_head, data, len)\<close>: the length argument of \<^verbatim>\<open>memcpy\<close> is an \<^verbatim>\<open>int\<close>, and
  copying beyond the end of the buffer is a fault.
\<close>

definition csb_copy_in :: "CircularStringBuffer \<Rightarrow> u8 list \<Rightarrow> size_t \<Rightarrow> u8 list exec" where
  "csb_copy_in b data len =
     (let n = unat (ucast len :: u32); h = unat (csb_head b) in
      if h + n \<le> length (csb_buffer b) \<and> n \<le> length data
      then Inr (take h (csb_buffer b) @ take n data @ drop (h + n) (csb_buffer b))
      else Inl OutOfBounds)"

definition csb_write :: "CircularStringBuffer \<Rightarrow> u8 list \<Rightarrow> size_t \<Rightarrow> CircularStringBuffer exec" where
  "csb_write b data len =
     exec_bind (if csb_head b + len \<ge> csb_size b then csb_flush b else Inr b) (\<lambda>b.
     exec_bind (csb_copy_in b data len) (\<lambda>buf.
     Inr (b\<lparr>csb_buffer := buf, csb_head := csb_head b + len\<rparr>)))"

definition csb_write_char :: "CircularStringBuffer \<Rightarrow> u8 \<Rightarrow> CircularStringBuffer exec" where
  "csb_write_char b c =
     exec_bind (if csb_head b + 1 \<ge> csb_size b then csb_flush b else Inr b) (\<lambda>b.
     exec_bind (arr_store (csb_buffer b) (csb_head b) c) (\<lambda>buf.
     Inr (b\<lparr>csb_buffer := buf, csb_head := csb_head b + 1\<rparr>)))"

definition csb_to_string :: "CircularStringBuffer \<Rightarrow> u8 list" where
  "csb_to_string b = take (unat (csb_head b)) (csb_buffer b)"

definition csb_is_empty :: "CircularStringBuffer \<Rightarrow> bool" where
  "csb_is_empty b = (csb_head b = 0)"

definition csb_inv :: "CircularStringBuffer \<Rightarrow> bool" where
  "csb_inv b \<longleftrightarrow> length (csb_buffer b) = unat (csb_size b) \<and> csb_head b < csb_size b"

lemma csb_new_inv: "0 < capacity \<Longrightarrow> \<exists>b. csb_new capacity = Inr b \<and> csb_inv b \<and> csb_to_string b = []"
  by (auto simp: csb_new_def csb_inv_def csb_to_string_def)

lemma csb_flush_inv:
  assumes "csb_inv b"
  shows "\<exists>b'. csb_flush b = Inr b' \<and> csb_inv b' \<and> csb_size b' = csb_size b \<and> csb_head b' = 0 \<and> csb_to_string b' = []"
proof (cases "csb_head b = 0")
  case True
  then show ?thesis using assms by (simp add: csb_flush_def csb_to_string_def)
next
  case False
  have "unat (csb_head b) < length (csb_buffer b)" using assms by (simp add: csb_inv_def word_less_nat_alt)
  moreover have "0 < csb_size b" using assms word_gt_0_no by (auto simp: csb_inv_def word_gt_0 intro!: notI)
  ultimately show ?thesis using False by (simp add: csb_flush_def arr_store_def csb_clear_def csb_inv_def csb_to_string_def)
qed

lemma csb_copy_in_ok:
  assumes "unat len = length data" "length data < 2 ^ 32" "unat (csb_head b) + length data \<le> length (csb_buffer b)"
  shows "csb_copy_in b data len = Inr (take (unat (csb_head b)) (csb_buffer b) @ data @
    drop (unat (csb_head b) + length data) (csb_buffer b))"
proof -
  have "unat (ucast len :: u32) = length data"
    using assms(1,2) by (simp add: unsigned_ucast_eq take_bit_nat_eq_self)
  then show ?thesis using assms(3) by (simp add: csb_copy_in_def Let_def)
qed

lemma csb_write_fits:
  assumes "csb_inv b" "unat len = length data" "length data < 2 ^ 32"
    "\<not> csb_head b + len \<ge> csb_size b" "unat (csb_head b) + length data < 2 ^ 64"
  shows "\<exists>b'. csb_write b data len = Inr b' \<and> csb_inv b' \<and> csb_size b' = csb_size b \<and> csb_to_string b' = csb_to_string b @ data"
proof -
  have sum: "unat (csb_head b + len) = unat (csb_head b) + length data"
    using assms(2,5) by (subst unat_add_no_wrap) simp_all
  have len: "unat (csb_head b) + length data < length (csb_buffer b)"
    using assms(1,4) sum by (simp add: csb_inv_def word_le_nat_alt)
  let ?buf = "take (unat (csb_head b)) (csb_buffer b) @ data @ drop (unat (csb_head b) + length data) (csb_buffer b)"
  have "csb_copy_in b data len = Inr ?buf" using csb_copy_in_ok [OF assms(2,3)] len by simp
  then have "csb_write b data len = Inr (b\<lparr>csb_buffer := ?buf, csb_head := csb_head b + len\<rparr>)"
    using assms(4) by (simp add: csb_write_def)
  moreover have "length ?buf = length (csb_buffer b)" using len by simp
  ultimately show ?thesis using assms(1,4) sum len by (simp add: csb_inv_def csb_to_string_def)
qed

text \<open>A write shorter than the capacity: appended, or alone in the flushed buffer.\<close>

lemma csb_write_short:
  assumes "csb_inv b" "unat len = length data" "unat (csb_size b) < 2 ^ 31" and lt: "length data < unat (csb_size b)"
  shows "\<exists>b'. csb_write b data len = Inr b' \<and> csb_inv b' \<and> csb_size b' = csb_size b \<and>
    csb_to_string b' = (if unat (csb_head b) + length data < unat (csb_size b) then csb_to_string b @ data else data)"
proof -
  have head: "unat (csb_head b) < unat (csb_size b)" using assms(1) by (simp add: csb_inv_def word_less_nat_alt)
  have sum: "unat (csb_head b + len) = unat (csb_head b) + length data"
    using assms(2,3) lt head by (subst unat_add_no_wrap) simp_all
  have over: "csb_head b + len \<ge> csb_size b \<longleftrightarrow> \<not> unat (csb_head b) + length data < unat (csb_size b)"
    using sum by (simp add: word_le_nat_alt not_less)
  show ?thesis
  proof (cases "unat (csb_head b) + length data < unat (csb_size b)")
    case True
    then have "\<exists>b'. csb_write b data len = Inr b' \<and> csb_inv b' \<and> csb_size b' = csb_size b \<and>
        csb_to_string b' = csb_to_string b @ data"
      using assms over by (intro csb_write_fits) simp_all
    then show ?thesis using True by auto
  next
    case False
    obtain f where f: "csb_flush b = Inr f" "csb_inv f" "csb_size f = csb_size b" "csb_head f = 0" "csb_to_string f = []"
      using csb_flush_inv [OF assms(1)] by blast
    have no: "\<not> csb_head f + len \<ge> csb_size f" using f(3,4) lt assms(2) by (simp add: word_le_nat_alt not_le)
    have "\<exists>b'. csb_write f data len = Inr b' \<and> csb_inv b' \<and> csb_size b' = csb_size f \<and> csb_to_string b' = csb_to_string f @ data"
      using assms(2,3) lt f(4) no by (intro csb_write_fits [OF f(2)]) simp_all
    moreover have "csb_write f data len = csb_write b data len" using False over f(1) no by (simp add: csb_write_def)
    ultimately show ?thesis using False f(3,5) by auto
  qed
qed

text \<open>Writes that do not fit an empty buffer, with the terminating slot or without it.\<close>

lemma csb_write_flushed:
  assumes "csb_inv b" "unat len = length data" "unat (csb_size b) < 2 ^ 31" "length data < 2 ^ 31" "unat (csb_size b) \<le> length data"
  shows "csb_write b data len = (if length data = unat (csb_size b)
    then Inr \<lparr>csb_buffer = data, csb_size = csb_size b, csb_head = csb_size b\<rparr> else Inl OutOfBounds)"
proof -
  have head: "unat (csb_head b) < unat (csb_size b)" using assms(1) by (simp add: csb_inv_def word_less_nat_alt)
  have "unat (csb_head b + len) = unat (csb_head b) + length data"
    using assms(2-4) head by (subst unat_add_no_wrap) simp_all
  then have over: "csb_head b + len \<ge> csb_size b" using assms(5) by (simp add: word_le_nat_alt)
  have n: "unat (ucast len :: u32) = length data"
    using assms(2,4) by (simp add: unsigned_ucast_eq take_bit_nat_eq_self)
  obtain f where f: "csb_flush b = Inr f" "csb_inv f" "csb_size f = csb_size b" "csb_head f = 0" "csb_to_string f = []"
    using csb_flush_inv [OF assms(1)] by blast
  have lf: "length (csb_buffer f) = unat (csb_size b)" using f(2,3) by (simp add: csb_inv_def)
  have "csb_write b data len = exec_bind (csb_copy_in f data len)
      (\<lambda>buf. Inr (f\<lparr>csb_buffer := buf, csb_head := csb_head f + len\<rparr>))"
    using over f(1) by (simp add: csb_write_def)
  moreover have "f\<lparr>csb_buffer := data, csb_head := csb_size b\<rparr> = \<lparr>csb_buffer = data, csb_size = csb_size b, csb_head = csb_size b\<rparr>"
    using f(3) by (cases f) simp
  moreover have "len = csb_size b" if "length data = unat (csb_size b)" using that assms(2) by (simp add: word_unat_eq_iff)
  ultimately show ?thesis using assms(5) lf f(4) n by (auto simp: csb_copy_in_def)
qed

lemma csb_full_faults:
  assumes "unat n = length data" "0 < n"
  shows "csb_flush \<lparr>csb_buffer = data, csb_size = n, csb_head = n\<rparr> = Inl OutOfBounds"
  using assms by (simp add: csb_flush_def arr_store_def)

lemma csb_full_write:
  assumes "unat n = length data" "0 < n" "unat n < 2 ^ 31" "unat len < 2 ^ 31"
  shows "csb_write \<lparr>csb_buffer = data, csb_size = n, csb_head = n\<rparr> txt len = Inl OutOfBounds"
proof -
  have "unat (n + len) = unat n + unat len" using assms(3,4) by (subst unat_add_no_wrap) simp_all
  then have "n + len \<ge> n" by (simp add: word_le_nat_alt)
  then show ?thesis using csb_full_faults [OF assms(1,2)] by (simp add: csb_write_def)
qed

section \<open>Properties\<close>

text \<open>
  C14. A \<^verbatim>\<open>CircularStringBuffer\<close> collects writes shorter than its capacity: a write that fits is
  appended, one that does not fit throws the collected characters away and starts over with
  its own, and the terminating slot is kept free.  A write of exactly the capacity fills that
  slot, after which the next write that flushes stores outside the buffer; a longer write overruns the
  buffer at once.
\<close>

theorem string_buffer_writes:
  assumes "csb_inv b" "unat len = length data" "unat (csb_size b) < 2 ^ 31" "length data < 2 ^ 31"
  shows "(length data < unat (csb_size b) \<longrightarrow> (\<exists>b'. csb_write b data len = Inr b' \<and> csb_inv b' \<and>
      csb_to_string b' = (if unat (csb_head b) + length data < unat (csb_size b) then csb_to_string b @ data else data))) \<and>
    (length data = unat (csb_size b) \<longrightarrow> (\<exists>b'. csb_write b data len = Inr b' \<and> csb_write_char b' c = Inl OutOfBounds)) \<and>
    (unat (csb_size b) < length data \<longrightarrow> csb_write b data len = Inl OutOfBounds)"
proof -
  have size: "0 < csb_size b" using assms(1) by (auto simp: csb_inv_def word_less_nat_alt)
  have "csb_write_char \<lparr>csb_buffer = data, csb_size = csb_size b, csb_head = csb_size b\<rparr> c = Inl OutOfBounds"
    if eq: "length data = unat (csb_size b)"
  proof -
    have "unat (csb_size b + 1) = Suc (unat (csb_size b))" using assms(3) by (subst unat_add_no_wrap) simp_all
    then have "csb_size b + 1 \<ge> csb_size b" by (simp add: word_le_nat_alt)
    then show ?thesis using csb_full_faults [OF eq [symmetric] size] by (simp add: csb_write_char_def)
  qed
  then show ?thesis using csb_write_short [OF assms(1-3)] csb_write_flushed [OF assms] by (auto split: if_splits)
qed

theorem string_buffer_writes_witness:
  "\<exists>b. csb_write \<lparr>csb_buffer = [0, 0, 0], csb_size = 3, csb_head = 0\<rparr> [72, 105] 2 = Inr b \<and> csb_to_string b = [72, 105]"
  using string_buffer_writes [of "\<lparr>csb_buffer = [0, 0, 0], csb_size = 3, csb_head = 0\<rparr>" 2 "[72, 105]" 0]
  by (auto simp: csb_inv_def csb_to_string_def)

end
