(* ===== verification/FileTables.thy ===== *)
theory FileTables
  imports HashMaps Buffers
begin

text \<open>
  The tables of open files.  \<^verbatim>\<open>Kernel/FileSystem/FileDescriptorTable.cpp\<close> gives a process
  its numbered descriptors, \<^verbatim>\<open>OpenFileDescriptor.cpp\<close> shares one descriptor per path among the
  openers of a file system, \<^verbatim>\<open>FileOpenMode.h\<close> decodes the flags of an open, and
  \<^verbatim>\<open>Process/Request.h\<close> is the answer of an operation that may have to wait.  Descriptors and
  request contexts are shared objects and live in a store; paths are texts.
\<close>

section \<open>\<^verbatim>\<open>FileDescriptorTable\<close>\<close>

type_synonym 'd fd_table = "'d option Array"

definition MAX_FDS :: size_t where
  "MAX_FDS = 256"

definition fdt_new :: "'d fd_table" where
  "fdt_new = arr_new None MAX_FDS"

definition fdt_open :: "'d fd_table \<Rightarrow> 'd \<Rightarrow> (size_t error_or \<times> 'd fd_table) exec" where
  "fdt_open fds descriptor =
     exec_bind (scan 0 (arr_size fds) (\<lambda>i. exec_bind (arr_get fds i) (\<lambda>d. Inr (if d = None then Some i else None)))) (\<lambda>r.
     case r of
       Some i \<Rightarrow> exec_bind (arr_set fds i (Some descriptor)) (\<lambda>fds. Inr (Inr i, fds))
     | None \<Rightarrow> Inr (Inl (create_from_string ''No free file descriptors!''), fds))"

definition fdt_close :: "'d fd_table \<Rightarrow> size_t \<Rightarrow> (unit error_or \<times> 'd fd_table) exec" where
  "fdt_close fds fd =
     (if fd \<ge> arr_size fds then Inr (Inl (create_from_string ''Invalid file descriptor!''), fds)
      else exec_bind (arr_get fds fd) (\<lambda>d.
        if d = None then Inr (Inl (create_from_string ''File descriptor already closed!''), fds)
        else exec_bind (arr_set fds fd None) (\<lambda>fds. Inr (Inr (), fds))))"

definition fdt_close_all :: "'d fd_table \<Rightarrow> (unit error_or \<times> 'd fd_table) exec" where
  "fdt_close_all fds =
     exec_bind (for_exec 0 (arr_size fds) (\<lambda>i fds. exec_bind (arr_get fds i) (\<lambda>d.
       if d \<noteq> None then arr_set fds i None else Inr fds)) fds) (\<lambda>fds. Inr (Inr (), fds))"

definition fdt_get :: "'d fd_table \<Rightarrow> size_t \<Rightarrow> 'd error_or exec" where
  "fdt_get fds fd =
     exec_bind (arr_get fds fd) (\<lambda>d. Inr (case d of None \<Rightarrow> Inl (create_from_string ''Invalid file descriptor!'') | Some d \<Rightarrow> Inr d))"

definition fdt_index :: "'d fd_table \<Rightarrow> size_t \<Rightarrow> 'd option exec" where
  "fdt_index fds fd = exec_bind (fdt_get fds fd) (\<lambda>r. Inr (case r of Inl e \<Rightarrow> None | Inr d \<Rightarrow> Some d))"

section \<open>\<^verbatim>\<open>FileOpenMode\<close>\<close>

datatype FileAccessMode = Read | Write | ReadWrite
datatype FileOperationMode = Create | Append | Exclusive | Truncate

fun access_mode_value :: "FileAccessMode \<Rightarrow> u8" where
  "access_mode_value Read = 0"
| "access_mode_value Write = 1"
| "access_mode_value ReadWrite = 2"

fun operation_mode_value :: "FileOperationMode \<Rightarrow> u8" where
  "operation_mode_value Create = push_bit 3 0"
| "operation_mode_value Append = push_bit 3 1"
| "operation_mode_value Exclusive = push_bit 3 2"
| "operation_mode_value Truncate = push_bit 3 3"

type_synonym FileOpenMode = size_t

definition is_read :: "FileOpenMode \<Rightarrow> bool" where "is_read mode = (mode AND 1 \<noteq> 0)"
definition is_write :: "FileOpenMode \<Rightarrow> bool" where "is_write mode = (mode AND 2 \<noteq> 0)"
definition is_read_write :: "FileOpenMode \<Rightarrow> bool" where "is_read_write mode = (mode AND 3 \<noteq> 0)"
definition is_create :: "FileOpenMode \<Rightarrow> bool" where "is_create mode = (mode AND 8 \<noteq> 0)"
definition is_append :: "FileOpenMode \<Rightarrow> bool" where "is_append mode = (mode AND 16 \<noteq> 0)"
definition is_exclusive :: "FileOpenMode \<Rightarrow> bool" where "is_exclusive mode = (mode AND 32 \<noteq> 0)"
definition is_truncate :: "FileOpenMode \<Rightarrow> bool" where "is_truncate mode = (mode AND 64 \<noteq> 0)"

definition is_access_mode :: "FileOpenMode \<Rightarrow> FileAccessMode \<Rightarrow> bool" where
  "is_access_mode mode m = (mode AND ucast (access_mode_value m) \<noteq> 0)"

definition is_operation_mode :: "FileOpenMode \<Rightarrow> FileOperationMode \<Rightarrow> bool" where
  "is_operation_mode mode m = (mode AND ucast (operation_mode_value m) \<noteq> 0)"

section \<open>\<^verbatim>\<open>OpenFileDescriptorTable\<close>\<close>

type_synonym path = "u8 list"

text \<open>\<^verbatim>\<open>od_refs\<close> counts the references the map and the callers hold.\<close>

record 'i OpenFileDescriptor =
  od_inode :: 'i
  od_openers :: size_t
  od_refs :: nat

record 'i open_files =
  of_descriptors :: "(path, nat) HashMap"
  of_store :: "nat \<Rightarrow> 'i OpenFileDescriptor option"
  of_brk :: nat

definition of_new :: "'i open_files" where
  "of_new = \<lparr>of_descriptors = hm_new, of_store = \<lambda>_. None, of_brk = 0\<rparr>"

definition path_hash :: "path \<Rightarrow> u32" where
  "path_hash s = djb2 s"

definition of_at :: "'i open_files \<Rightarrow> nat \<Rightarrow> 'i OpenFileDescriptor exec" where
  "of_at t a = (case of_store t a of None \<Rightarrow> Inl Uninitialised | Some d \<Rightarrow> Inr d)"

definition of_put :: "'i open_files \<Rightarrow> nat \<Rightarrow> 'i OpenFileDescriptor \<Rightarrow> 'i open_files" where
  "of_put t a d = t\<lparr>of_store := (of_store t)(a \<mapsto> d)\<rparr>"

definition od_open :: "'i OpenFileDescriptor \<Rightarrow> 'i OpenFileDescriptor" where
  "od_open d = d\<lparr>od_openers := od_openers d + 1\<rparr>"

definition od_close :: "'i OpenFileDescriptor \<Rightarrow> bool \<times> 'i OpenFileDescriptor" where
  "od_close d = (od_openers d - 1 = 0, d\<lparr>od_openers := od_openers d - 1\<rparr>)"

text \<open>A caller drops the reference it was given.\<close>

definition of_release :: "'i open_files \<Rightarrow> nat \<Rightarrow> 'i open_files exec" where
  "of_release t a = exec_bind (of_at t a) (\<lambda>d. Inr (of_put t a (d\<lparr>od_refs := od_refs d - 1\<rparr>)))"

definition of_has_descriptor :: "'i open_files \<Rightarrow> path \<Rightarrow> bool run" where
  "of_has_descriptor t name = hm_has_key path_hash (of_descriptors t) name"

definition of_create_and_open :: "'i open_files \<Rightarrow> path \<Rightarrow> 'i \<Rightarrow> (nat error_or \<times> 'i open_files) run" where
  "of_create_and_open t path inode =
     (let a = of_brk t;
          descriptor = od_open \<lparr>od_inode = inode, od_openers = 0, od_refs = 2\<rparr>;
          t = (of_put t a descriptor)\<lparr>of_brk := Suc a\<rparr> in
      run_bind (hm_set path_hash (of_descriptors t) path a) (\<lambda>m.
      Some (Inr (Inr a, t\<lparr>of_descriptors := m\<rparr>))))"

definition of_open :: "'i open_files \<Rightarrow> path \<Rightarrow> (nat error_or \<times> 'i open_files) run" where
  "of_open t path =
     run_bind (of_has_descriptor t path) (\<lambda>has.
       if \<not> has then Some (Inr (Inl (create_from_string ''File not found, cannot open''), t))
       else run_bind (hm_get path_hash (of_descriptors t) path) (\<lambda>r.
         case r of Inl e \<Rightarrow> Some (Inr (Inl e, t))
         | Inr a \<Rightarrow> run_bind (Some (of_at t a)) (\<lambda>d.
             Some (Inr (Inr a, of_put t a (od_open (d\<lparr>od_refs := od_refs d + 1\<rparr>)))))))"

text \<open>
  When the assertion at the end of \<^verbatim>\<open>close\<close> reads the reference count, the result of
  \<^verbatim>\<open>m_descriptors.get\<close> and the local \<^verbatim>\<open>descriptor\<close> hold a reference each.
\<close>

definition of_close :: "'i open_files \<Rightarrow> path \<Rightarrow> (unit error_or \<times> 'i open_files) run" where
  "of_close t path =
     run_bind (of_has_descriptor t path) (\<lambda>has.
       if \<not> has then Some (Inr (Inl (create_from_string ''File not found, cannot close''), t))
       else run_bind (hm_get path_hash (of_descriptors t) path) (\<lambda>r.
         case r of Inl e \<Rightarrow> Some (Inr (Inl e, t))
         | Inr a \<Rightarrow> run_bind (Some (of_at t a)) (\<lambda>d.
             let (last, d) = od_close (d\<lparr>od_refs := od_refs d + 2\<rparr>); t = of_put t a d in
             run_bind (if last then run_bind (hm_remove path_hash (of_descriptors t) path) (\<lambda>m. Some (Inr (t\<lparr>of_descriptors := m\<rparr>)))
                       else Some (Inr t)) (\<lambda>t.
             run_bind (Some (of_at t a)) (\<lambda>d.
             if od_refs d \<noteq> 1 then Some (Inl (AssertFailed ''OpenFileDescriptor still has references''))
             else Some (Inr (Inr (), of_put t a (d\<lparr>od_refs := od_refs d - 2\<rparr>))))))))"

definition of_get_descriptor :: "'i open_files \<Rightarrow> path \<Rightarrow> (nat error_or \<times> 'i open_files) run" where
  "of_get_descriptor t path =
     run_bind (of_has_descriptor t path) (\<lambda>has.
       if \<not> has then Some (Inr (Inl (create_from_string ''File not found, cannot get descriptor''), t))
       else run_bind (hm_get path_hash (of_descriptors t) path) (\<lambda>r.
         case r of Inl e \<Rightarrow> Some (Inr (Inl e, t))
         | Inr a \<Rightarrow> run_bind (Some (of_at t a)) (\<lambda>d. Some (Inr (Inr a, of_put t a (d\<lparr>od_refs := od_refs d + 1\<rparr>))))))"

section \<open>\<^verbatim>\<open>Request\<close>\<close>

datatype RequestState = Blocked | Finalized

record RequestContext =
  rc_pid :: u64
  rc_tid :: u64

type_synonym contexts = "nat \<Rightarrow> RequestContext option"

record 'v Request =
  rq_value :: "'v option"
  rq_context :: "nat option"
  rq_state :: RequestState

definition create_context :: "contexts \<Rightarrow> nat \<Rightarrow> contexts" where
  "create_context s a = s(a \<mapsto> \<lparr>rc_pid = 0, rc_tid = 0\<rparr>)"

definition context_assign :: "RequestContext \<Rightarrow> u64 \<Rightarrow> u64 \<Rightarrow> RequestContext" where
  "context_assign c pid tid = (if rc_pid c = 0 then c\<lparr>rc_pid := pid, rc_tid := tid\<rparr> else c)"

text \<open>\<^verbatim>\<open>a\<close> is the address of the new context.\<close>

definition create_blocked :: "contexts \<Rightarrow> nat \<Rightarrow> 'v Request \<times> contexts" where
  "create_blocked s a = (\<lparr>rq_value = None, rq_context = Some a, rq_state = Blocked\<rparr>, create_context s a)"

definition create_finalized :: "'v \<Rightarrow> 'v Request" where
  "create_finalized value = \<lparr>rq_value = Some value, rq_context = None, rq_state = Finalized\<rparr>"

definition propagate_blocked :: "'u Request \<Rightarrow> 'v Request" where
  "propagate_blocked request = \<lparr>rq_value = None, rq_context = rq_context request, rq_state = Blocked\<rparr>"

definition is_blocked :: "'v Request \<Rightarrow> bool" where
  "is_blocked r = (rq_state r = Blocked)"

definition is_finalized :: "'v Request \<Rightarrow> bool" where
  "is_finalized r = (rq_state r = Finalized)"

definition request_assign :: "'v Request \<Rightarrow> u64 \<Rightarrow> u64 \<Rightarrow> contexts \<Rightarrow> contexts" where
  "request_assign r pid tid s =
     (case rq_context r of None \<Rightarrow> s
      | Some a \<Rightarrow> (case s a of None \<Rightarrow> s | Some c \<Rightarrow> s(a \<mapsto> context_assign c pid tid)))"

definition release_value :: "'v Request \<Rightarrow> 'v exec" where
  "release_value r =
     (if rq_state r \<noteq> Finalized then Inl (AssertFailed ''The request is not finalized!'')
      else (case rq_value r of None \<Rightarrow> Inl (AssertFailed ''Accessing value of an empty Optional!'') | Some v \<Rightarrow> Inr v))"

section \<open>Descriptors are a finite map with lowest-first allocation\<close>

lemma arr_get_rel: "arr_rel a xs \<Longrightarrow> arr_get a i = (if unat i < length xs then Inr (xs ! unat i) else Inl (AssertFailed ''Array: Index out of bounds!''))"
  by (auto simp: arr_rel_def arr_get_def arr_load_def word_less_nat_alt)

lemma arr_set_in: "arr_rel a xs \<Longrightarrow> unat i < length xs \<Longrightarrow> \<exists>a'. arr_set a i v = Inr a' \<and> arr_rel a' (xs[unat i := v])"
  by (simp add: arr_set_rel) (simp add: arr_rel_def)

text \<open>The lowest free number, if there is one.\<close>

definition first_free :: "'d option list \<Rightarrow> nat option" where
  "first_free xs = List.find (\<lambda>i. xs ! i = None) [0..<length xs]"

lemma first_free_Some: "first_free xs = Some i \<longleftrightarrow> i < length xs \<and> xs ! i = None \<and> (\<forall>j < i. xs ! j \<noteq> None)"
  by (auto simp: first_free_def find_Some_iff)

lemma first_free_None: "first_free xs = None \<longleftrightarrow> None \<notin> set xs"
  by (auto simp: first_free_def find_None_iff in_set_conv_nth)

lemma fdt_open_rel:
  assumes "arr_rel fds xs"
  shows "\<exists>fds'. fdt_open fds d = Inr (case first_free xs of Some i \<Rightarrow> Inr (of_nat i)
       | None \<Rightarrow> Inl (create_from_string ''No free file descriptors!''), fds') \<and>
     arr_rel fds' (case first_free xs of Some i \<Rightarrow> xs[i := Some d] | None \<Rightarrow> xs)"
proof -
  note sc = fixed_array.scan_index [OF assms, of "\<lambda>d. d = None"]
  show ?thesis
  proof (cases "first_free xs")
    case None
    then show ?thesis using sc assms by (simp add: fdt_open_def first_free_def)
  next
    case (Some i)
    have i: "i < length xs" using Some by (simp add: first_free_Some)
    have "length xs < 2 ^ 64" using assms unsigned_less [of "arr_m_size fds", where ?'a = nat] by (simp add: arr_rel_def)
    then have u: "unat (of_nat i :: size_t) = i" using i by (intro unat_of_nat_small) simp
    obtain fds' where "arr_set fds (of_nat i) (Some d) = Inr fds'" "arr_rel fds' (xs[i := Some d])"
      using arr_set_in [OF assms, of "of_nat i" "Some d"] i u by auto
    then show ?thesis using sc Some by (simp add: fdt_open_def first_free_def)
  qed
qed

lemma fdt_close_rel:
  assumes "arr_rel fds xs"
  shows "\<exists>fds'. fdt_close fds fd = Inr (if unat fd \<ge> length xs then Inl (create_from_string ''Invalid file descriptor!'')
       else if xs ! unat fd = None then Inl (create_from_string ''File descriptor already closed!'') else Inr (), fds') \<and>
     arr_rel fds' (xs[unat fd := None])"
proof -
  have ge: "fd \<ge> arr_size fds \<longleftrightarrow> unat fd \<ge> length xs" using assms by (simp add: arr_rel_def arr_size_def word_le_nat_alt)
  show ?thesis
  proof (cases "unat fd < length xs \<and> xs ! unat fd \<noteq> None")
    case True
    then obtain fds' where "arr_set fds fd None = Inr fds'" "arr_rel fds' (xs[unat fd := None])"
      using arr_set_in [OF assms, of fd None] by auto
    moreover obtain y where "xs ! unat fd = Some y" using True by auto
    ultimately show ?thesis using True ge arr_get_rel [OF assms, of fd] by (simp add: fdt_close_def not_le)
  next
    case False
    then have "xs[unat fd := None] = xs" by (cases "unat fd < length xs") (auto simp: list_update_same_conv list_update_beyond not_less)
    then show ?thesis using False ge arr_get_rel [OF assms, of fd] assms by (auto simp: fdt_close_def not_le)
  qed
qed

lemma fdt_close_all_rel:
  assumes "arr_rel fds xs"
  shows "\<exists>fds'. fdt_close_all fds = Inr (Inr (), fds') \<and> arr_rel fds' (replicate (length xs) None)"
proof -
  have n: "unat (arr_size fds) = length xs" using assms by (simp add: arr_rel_def arr_size_def)
  have "\<exists>fds'. for_exec 0 (arr_size fds) (\<lambda>i fds. exec_bind (arr_get fds i) (\<lambda>d.
       if d \<noteq> None then arr_set fds i None else Inr fds)) fds = Inr fds' \<and>
     arr_rel fds' (replicate (unat (arr_size fds)) None @ drop (unat (arr_size fds)) xs)"
  proof (rule for_exec_invariant [where P = "\<lambda>k f. arr_rel f (replicate k None @ drop k xs)"])
    show "arr_rel fds (replicate (unat (0 :: size_t)) None @ drop (unat (0 :: size_t)) xs)" using assms by simp
    show "\<exists>s'. exec_bind (arr_get f j) (\<lambda>d. if d \<noteq> None then arr_set f j None else Inr f) = Inr s' \<and>
        arr_rel s' (replicate (Suc (unat j)) None @ drop (Suc (unat j)) xs)"
      if "0 \<le> j" "j < arr_size fds" "arr_rel f (replicate (unat j) None @ drop (unat j) xs)" for j f
    proof -
      have j: "unat j < length xs" using that(2) n by (simp add: word_less_nat_alt)
      let ?ys = "replicate (unat j) None @ drop (unat j) xs"
      have ys: "unat j < length ?ys" "?ys ! unat j = xs ! unat j" using j by (simp_all add: nth_append)
      have upd: "?ys[unat j := None] = replicate (Suc (unat j)) None @ drop (Suc (unat j)) xs"
        using j by (simp add: list_update_append Cons_nth_drop_Suc [symmetric] replicate_append_same)
      show ?thesis
      proof (cases "xs ! unat j = None")
        case True
        then have "?ys[unat j := None] = ?ys" using ys by (simp add: list_update_same_conv)
        then show ?thesis using upd arr_get_rel [OF that(3), of j] ys True that(3) by simp
      next
        case False
        then show ?thesis using upd arr_get_rel [OF that(3), of j] ys arr_set_in [OF that(3) ys(1), of None] by simp
      qed
    qed
  qed simp
  then show ?thesis using n by (auto simp: fdt_close_all_def)
qed

lemma fdt_index_rel:
  assumes "arr_rel fds xs"
  shows "fdt_index fds fd = (if unat fd < length xs then Inr (xs ! unat fd) else Inl (AssertFailed ''Array: Index out of bounds!''))"
  using arr_get_rel [OF assms, of fd] by (simp add: fdt_index_def fdt_get_def split: option.split)

text \<open>
  C21. The descriptor table is a map from numbers to descriptors.  \<^verbatim>\<open>open\<close> takes the lowest
  free number and fails only when all are taken, the new number then leads to the
  descriptor and every other number is untouched; \<^verbatim>\<open>close\<close> frees exactly its number and reports
  numbers that are out of range or not open; \<^verbatim>\<open>close_all\<close> frees all of them.  Looking up a
  number out of range is not an error value but a failed assertion.
\<close>

theorem fd_table_contract:
  assumes "arr_rel fds xs"
  shows "(\<exists>fds'. fdt_open fds d = Inr (case first_free xs of Some i \<Rightarrow> Inr (of_nat i)
         | None \<Rightarrow> Inl (create_from_string ''No free file descriptors!''), fds') \<and>
       arr_rel fds' (case first_free xs of Some i \<Rightarrow> xs[i := Some d] | None \<Rightarrow> xs)) \<and>
    (first_free xs = None \<longleftrightarrow> None \<notin> set xs) \<and>
    (\<exists>fds'. fdt_close fds fd = Inr (if unat fd \<ge> length xs then Inl (create_from_string ''Invalid file descriptor!'')
         else if xs ! unat fd = None then Inl (create_from_string ''File descriptor already closed!'') else Inr (), fds') \<and>
       arr_rel fds' (xs[unat fd := None])) \<and>
    (\<exists>fds'. fdt_close_all fds = Inr (Inr (), fds') \<and> arr_rel fds' (replicate (length xs) None)) \<and>
    fdt_index fds fd = (if unat fd < length xs then Inr (xs ! unat fd)
      else Inl (AssertFailed ''Array: Index out of bounds!''))"
  using fdt_open_rel [OF assms] first_free_None [of xs] fdt_close_rel [OF assms] fdt_close_all_rel [OF assms] fdt_index_rel [OF assms]
  by blast

theorem fd_table_contract_witness:
  "\<exists>fds'. fdt_open (arr_of 2 [Some 7, None]) (9 :: nat) = Inr (Inr 1, fds') \<and> arr_rel fds' [Some 7, Some 9]"
  using fd_table_contract [of "arr_of 2 [Some 7, None]" "[Some 7, None]" "9 :: nat" 0]
  by (simp add: arr_rel_def arr_of_def first_free_def upt_rec)

end
