(* ===== verification/Strings.thy ===== *)
theory Strings
  imports Loops ErrorOr
begin

text \<open>
  \<^verbatim>\<open>Utils/Strings\<close> and \<^verbatim>\<open>Utils/Basic.cpp\<close>: characters, number conversion, \<^verbatim>\<open>StringValue\<close>,
  \<^verbatim>\<open>String\<close> and \<^verbatim>\<open>StringView\<close>.  A \<^verbatim>\<open>char*\<close> is the list of the bytes of its object from the
  pointer on, and reading past that list is a fault; \<^verbatim>\<open>char\<close> is unsigned on RISC-V.  The list
  \<^verbatim>\<open>split\<close> returns is the list its \<^verbatim>\<open>ArrayList\<close> represents.  \<^verbatim>\<open>str_ok\<close> says which text a
  string object holds.
\<close>

type_synonym cstr = "u8 list"

text \<open>The characters of a string literal.\<close>

definition cchars :: "string \<Rightarrow> cstr" where
  "cchars s = map of_char s"

definition char_at :: "cstr \<Rightarrow> size_t \<Rightarrow> u8 exec" where
  "char_at s i = (if unat i < length s then Inr (s ! unat i) else Inl OutOfBounds)"

definition put_char :: "cstr \<Rightarrow> nat \<Rightarrow> u8 \<Rightarrow> cstr exec" where
  "put_char s i c = (if i < length s then Inr (s[i := c]) else Inl OutOfBounds)"

section \<open>Characters\<close>

definition to_lower :: "u8 \<Rightarrow> u8" where
  "to_lower c = (if c \<ge> 65 \<and> c \<le> 90 then c + 32 else c)"

definition to_upper :: "u8 \<Rightarrow> u8" where
  "to_upper c = (if c \<ge> 97 \<and> c \<le> 122 then c - 32 else c)"

definition is_ascii :: "u32 \<Rightarrow> bool" where
  "is_ascii code_point = (code_point \<le> 0x7F)"

definition is_printable :: "u32 \<Rightarrow> bool" where
  "is_printable code_point =
     ((code_point \<ge> 0x20 \<and> code_point \<le> 0x7E) \<or> (code_point \<ge> 0xA0 \<and> code_point \<le> 0xD7FF) \<or>
      (code_point \<ge> 0xE000 \<and> code_point \<le> 0xFFFD) \<or> (code_point \<ge> 0x10000 \<and> code_point \<le> 0x10FFFF))"

section \<open>\<^verbatim>\<open>itoa\<close> and \<^verbatim>\<open>atoi\<close>\<close>

definition digit_char :: "u64 \<Rightarrow> u8" where
  "digit_char tmp = (if tmp < 10 then ucast (tmp + 48) else ucast (tmp + 97 - 10))"

text \<open>\<^verbatim>\<open>do { tmp = n % base; buf[i++] = ...; } while(n /= base);\<close> returns the buffer and \<^verbatim>\<open>i\<close>.\<close>

partial_function (option) itoa_digits :: "u64 \<Rightarrow> cstr \<Rightarrow> nat \<Rightarrow> u64 \<Rightarrow> (cstr \<times> nat) exec option" where
  "itoa_digits base buf i n =
     (if base = 0 then Some (Inl DivideByZero)
      else (case put_char buf i (digit_char (n mod base)) of
        Inl e \<Rightarrow> Some (Inl e)
      | Inr buf \<Rightarrow> if n div base \<noteq> 0 then itoa_digits base buf (Suc i) (n div base) else Some (Inr (buf, Suc i))))"

text \<open>\<^verbatim>\<open>for(j = 0; j < i; j++, i--)\<close> swaps the two ends.\<close>

function itoa_reverse :: "cstr \<Rightarrow> nat \<Rightarrow> nat \<Rightarrow> cstr" where
  "itoa_reverse buf j i =
     (if j < i then (let tmp = buf ! j in itoa_reverse (buf[j := buf ! i, i := tmp]) (j + 1) (i - 1)) else buf)"
  by auto
termination by (relation "measure (\<lambda>(buf, j, i). i)") auto

definition itoa :: "cstr \<Rightarrow> u64 \<Rightarrow> u64 \<Rightarrow> cstr exec option" where
  "itoa buf n base =
     (case itoa_digits base buf 0 n of None \<Rightarrow> None
      | Some (Inl e) \<Rightarrow> Some (Inl e)
      | Some (Inr (buf, i)) \<Rightarrow> Some (exec_bind (put_char buf i 0) (\<lambda>buf. Inr (itoa_reverse buf 0 (i - 1)))))"

fun atoi_loop :: "size_t \<Rightarrow> size_t \<Rightarrow> cstr \<Rightarrow> size_t exec" where
  "atoi_loop base result [] = Inl OutOfBounds"
| "atoi_loop base result (c # cs) =
     (if c = 0 then Inr result
      else if c \<ge> 48 \<and> c \<le> 57 then atoi_loop base (result * base + (ucast c - 48)) cs
      else if c \<ge> 97 \<and> c \<le> 102 then atoi_loop base (result * base + (ucast c - 97 + 10)) cs
      else if c \<ge> 65 \<and> c \<le> 70 then atoi_loop base (result * base + (ucast c - 65 + 10)) cs
      else Inr result)"

definition atoi :: "cstr \<Rightarrow> size_t \<Rightarrow> size_t exec" where
  "atoi str base =
     exec_bind (char_at str 0) (\<lambda>c.
       let (sign, rest) = (if c = 45 then (- 1, drop 1 str) else (1, str)) in
       exec_bind (atoi_loop base 0 rest) (\<lambda>result. Inr (sign * result)))"

section \<open>\<^verbatim>\<open>StringValue\<close>\<close>

datatype ValueType = ASCII | UTF16

record StringValue =
  sv_data :: cstr
  sv_length :: size_t
  sv_type :: ValueType

text \<open>\<^verbatim>\<open>memcpy(target + at, source, n)\<close> with its \<^verbatim>\<open>int\<close> length.\<close>

definition copy_chars :: "cstr \<Rightarrow> nat \<Rightarrow> cstr \<Rightarrow> size_t \<Rightarrow> cstr exec" where
  "copy_chars target at source n =
     (let k = unat (ucast n :: u32) in
      if at + k \<le> length target \<and> k \<le> length source
      then Inr (take at target @ take k source @ drop (at + k) target) else Inl OutOfBounds)"

text \<open>\<^verbatim>\<open>new char[n]\<close>; every byte is written before it is read.\<close>

definition new_chars :: "size_t \<Rightarrow> cstr" where
  "new_chars n = replicate (unat n) 0"

definition sv_create :: "cstr \<Rightarrow> size_t \<Rightarrow> StringValue exec" where
  "sv_create cstring len =
     exec_bind (if len \<noteq> 0 then copy_chars (new_chars (len + 1)) 0 cstring len else Inr (new_chars (len + 1))) (\<lambda>buf.
     exec_bind (put_char buf (unat len) 0) (\<lambda>buf.
     Inr \<lparr>sv_data = buf, sv_length = len, sv_type = ASCII\<rparr>))"

definition sv_adopt :: "cstr \<Rightarrow> size_t \<Rightarrow> StringValue" where
  "sv_adopt cstring len = \<lparr>sv_data = cstring, sv_length = len, sv_type = ASCII\<rparr>"

definition sv_empty_string :: StringValue where
  "sv_empty_string = \<lparr>sv_data = [], sv_length = 0, sv_type = ASCII\<rparr>"

definition sv_append :: "StringValue \<Rightarrow> StringValue \<Rightarrow> StringValue exec" where
  "sv_append this other =
     (let new_length = sv_length this + sv_length other in
      exec_bind (copy_chars (new_chars (new_length + 1)) 0 (sv_data this) (sv_length this)) (\<lambda>buf.
      exec_bind (copy_chars buf (unat (sv_length this)) (sv_data other) (sv_length other)) (\<lambda>buf.
      exec_bind (put_char buf (unat new_length) 0) (\<lambda>buf.
      Inr (this\<lparr>sv_data := buf, sv_length := new_length\<rparr>)))))"

definition sv_append_char :: "StringValue \<Rightarrow> u8 \<Rightarrow> StringValue exec" where
  "sv_append_char this value =
     (let new_length = sv_length this + 1 in
      exec_bind (copy_chars (new_chars (new_length + 1)) 0 (sv_data this) (sv_length this)) (\<lambda>buf.
      exec_bind (put_char buf (unat (sv_length this)) value) (\<lambda>buf.
      exec_bind (put_char buf (unat new_length) 0) (\<lambda>buf.
      Inr (this\<lparr>sv_data := buf, sv_length := new_length\<rparr>)))))"

text \<open>The UTF-16 units are copied as bytes, little end first; the length stays that in units.\<close>

definition sv_from_utf16 :: "cstr \<Rightarrow> size_t \<Rightarrow> StringValue exec" where
  "sv_from_utf16 bytes len =
     exec_bind (if len \<noteq> 0 then copy_chars (new_chars (len * 2 + 2)) 0 bytes (len * 2)
                else Inr (new_chars (len * 2 + 2))) (\<lambda>buf.
     exec_bind (put_char buf (unat (len * 2)) 0) (\<lambda>buf.
     exec_bind (put_char buf (unat (len * 2 + 1)) 0) (\<lambda>buf.
     Inr \<lparr>sv_data = buf, sv_length = len, sv_type = UTF16\<rparr>)))"

definition sv_index :: "StringValue \<Rightarrow> int \<Rightarrow> u8 exec" where
  "sv_index v index =
     (if \<not> (0 \<le> index \<and> index < uint (sv_length v)) then Inl (AssertFailed ''Index out of bounds'')
      else if sv_type v = ASCII then char_at (sv_data v) (word_of_int index)
      else char_at (sv_data v) (word_of_int (index + 1)))"

section \<open>\<^verbatim>\<open>String\<close>\<close>

text \<open>\<^verbatim>\<open>calculate_size\<close> counts the bytes before the first zero.\<close>

fun calculate_size_from :: "u64 \<Rightarrow> cstr \<Rightarrow> u64 exec" where
  "calculate_size_from i [] = Inl OutOfBounds"
| "calculate_size_from i (c # cs) = (if c \<noteq> 0 then calculate_size_from (i + 1) cs else Inr i)"

definition calculate_size :: "cstr \<Rightarrow> u64 exec" where
  "calculate_size cstring = calculate_size_from 0 cstring"

definition str_new :: "cstr \<Rightarrow> StringValue exec" where
  "str_new value = exec_bind (calculate_size value) (\<lambda>n. sv_create value n)"

definition str_copy :: "StringValue \<Rightarrow> StringValue exec" where
  "str_copy other = sv_create (sv_data other) (sv_length other)"

definition str_assign :: "bool \<Rightarrow> StringValue \<Rightarrow> StringValue \<Rightarrow> StringValue exec" where
  "str_assign same this other = (if same then Inr this else sv_create (sv_data other) (sv_length other))"

definition str_adopt :: "cstr \<Rightarrow> StringValue exec" where
  "str_adopt cstring = exec_bind (calculate_size cstring) (\<lambda>n. Inr (sv_adopt cstring n))"

text \<open>The comparing loops return false at the first difference.\<close>

definition chars_equal :: "(u8 \<Rightarrow> u8) \<Rightarrow> size_t \<Rightarrow> cstr \<Rightarrow> cstr \<Rightarrow> bool exec" where
  "chars_equal f n s t =
     exec_bind (scan 0 n (\<lambda>i. exec_bind (char_at s i) (\<lambda>c. exec_bind (char_at t i) (\<lambda>d.
       Inr (if f c \<noteq> f d then Some False else None))))) (\<lambda>r. Inr (case r of Some b \<Rightarrow> b | None \<Rightarrow> True))"

definition str_equals_cstr :: "StringValue \<Rightarrow> cstr \<Rightarrow> bool exec" where
  "str_equals_cstr v other =
     exec_bind (calculate_size other) (\<lambda>n.
       if sv_length v \<noteq> n then Inr False else chars_equal (\<lambda>c. c) (sv_length v) (sv_data v) other)"

definition str_equals :: "StringValue \<Rightarrow> StringValue \<Rightarrow> bool exec" where
  "str_equals v other = str_equals_cstr v (sv_data other)"

definition str_equals_ignore_case :: "StringValue \<Rightarrow> cstr option \<Rightarrow> bool exec" where
  "str_equals_ignore_case v other =
     (case other of None \<Rightarrow> Inr False
      | Some other \<Rightarrow> exec_bind (calculate_size other) (\<lambda>n.
          if sv_length v \<noteq> n then Inr False else chars_equal to_lower (sv_length v) (sv_data v) other))"

definition str_starts_with :: "StringValue \<Rightarrow> StringValue \<Rightarrow> bool exec" where
  "str_starts_with v other =
     (if sv_length other > sv_length v then Inr False
      else exec_bind (scan 0 (sv_length other) (\<lambda>i. exec_bind (char_at (sv_data v) i) (\<lambda>c.
             exec_bind (sv_index other (uint i)) (\<lambda>d. Inr (if c \<noteq> d then Some False else None))))) (\<lambda>r.
           Inr (case r of Some b \<Rightarrow> b | None \<Rightarrow> True)))"

definition str_to_uint :: "StringValue \<Rightarrow> size_t \<Rightarrow> size_t exec" where
  "str_to_uint v base = atoi (sv_data v) base"

definition str_plus :: "StringValue \<Rightarrow> StringValue \<Rightarrow> StringValue exec" where
  "str_plus this other =
     exec_bind (str_new [0]) (\<lambda>result.
     exec_bind (sv_append result this) (\<lambda>result. sv_append result other))"

text \<open>The inner loop writes \<^verbatim>\<open>buffer[i * string_length + j] = string[j]\<close>.\<close>

definition str_repeat_cstr :: "cstr \<Rightarrow> size_t \<Rightarrow> StringValue exec" where
  "str_repeat_cstr string count =
     (if count = 0 then str_new [0]
      else exec_bind (calculate_size string) (\<lambda>string_length.
        let len = string_length * count in
        exec_bind (for_exec 0 count (\<lambda>i buffer.
            for_exec 0 string_length (\<lambda>j buffer. exec_bind (char_at string j) (\<lambda>c.
              put_char buffer (unat (i * string_length + j)) c)) buffer) (new_chars (len + 1))) (\<lambda>buffer.
        exec_bind (put_char buffer (unat len) 0) str_adopt)))"

definition str_repeat :: "StringValue \<Rightarrow> size_t \<Rightarrow> StringValue exec" where
  "str_repeat v count = str_repeat_cstr (sv_data v) count"

text \<open>\<^verbatim>\<open>itoa\<close> takes the \<^verbatim>\<open>int\<close> as an unsigned long.\<close>

definition str_from_int :: "int \<Rightarrow> StringValue exec option" where
  "str_from_int value =
     (case itoa (new_chars 20) (word_of_int value) 10 of None \<Rightarrow> None | Some r \<Rightarrow> Some (exec_bind r str_adopt))"

definition str_from_u64 :: "u64 \<Rightarrow> StringValue exec option" where
  "str_from_u64 value =
     (case itoa (new_chars 22) value 10 of None \<Rightarrow> None | Some r \<Rightarrow> Some (exec_bind r str_adopt))"

text \<open>One step of the outer loop of \<^verbatim>\<open>split\<close>, on \<^verbatim>\<open>last_index\<close> and the parts found so far.\<close>

definition part :: "cstr \<Rightarrow> size_t \<Rightarrow> size_t \<Rightarrow> cstr" where
  "part s from n = take (unat n) (drop (unat from) s)"

definition split_step :: "StringValue \<Rightarrow> StringValue \<Rightarrow> size_t \<Rightarrow> size_t \<times> cstr list \<Rightarrow> fault + size_t \<times> cstr list" where
  "split_step v separator i = (\<lambda>(last_index, result).
     exec_bind (char_at (sv_data v) i) (\<lambda>c.
     exec_bind (sv_index separator 0) (\<lambda>s0.
       if c = s0 then
         if i = 0 \<or> i = sv_length v - 1 then Inr (i + 1, result)
         else
           exec_bind (if sv_length separator > 1
             then scan (i + 1) (sv_length v) (\<lambda>j. exec_bind (char_at (sv_data v) j) (\<lambda>d.
                    exec_bind (sv_index separator (uint (j - i))) (\<lambda>s. Inr (if d \<noteq> s then Some False else None))))
             else Inr None) (\<lambda>r.
           let found = (case r of Some b \<Rightarrow> b | None \<Rightarrow> True) in
           if found then
             Inr (i + sv_length separator,
                  if i - last_index > 0 then result @ [part (sv_data v) last_index (i - last_index)] else result)
           else Inr (last_index, result))
       else Inr (last_index, result))))"

definition str_split :: "StringValue \<Rightarrow> StringValue \<Rightarrow> cstr list exec" where
  "str_split v separator =
     exec_bind (for_exec 0 (sv_length v) (split_step v separator) (0, [])) (\<lambda>(last_index, result).
       if last_index < sv_length v \<and> sv_length v - last_index > 0
       then Inr (result @ [part (sv_data v) last_index (sv_length v - last_index)])
       else Inr result)"

section \<open>\<^verbatim>\<open>StringView\<close>\<close>

record StringView =
  view_value :: StringValue
  view_offset :: size_t

definition view_of :: "StringValue \<Rightarrow> StringView" where
  "view_of v = \<lparr>view_value = v, view_offset = 0\<rparr>"

definition view_set_offset :: "StringView \<Rightarrow> size_t \<Rightarrow> StringView" where
  "view_set_offset this n = this\<lparr>view_offset := n\<rparr>"

definition view_cstr :: "StringView \<Rightarrow> cstr" where
  "view_cstr w = drop (unat (view_offset w)) (sv_data (view_value w))"

definition view_length :: "StringView \<Rightarrow> size_t" where
  "view_length w = sv_length (view_value w) - view_offset w"

text \<open>\<^verbatim>\<open>value()\<close> has the offset already, and the index adds it once more.\<close>

definition view_index :: "StringView \<Rightarrow> size_t \<Rightarrow> u8 exec" where
  "view_index w index = char_at (view_cstr w) (view_offset w + index)"

text \<open>The comparisons use the whole underlying string.\<close>

definition view_equals :: "StringView \<Rightarrow> cstr \<Rightarrow> bool exec" where
  "view_equals w other =
     exec_bind (calculate_size other) (\<lambda>n.
       if sv_length (view_value w) \<noteq> n then Inr False
       else chars_equal (\<lambda>c. c) (sv_length (view_value w)) (sv_data (view_value w)) other)"

definition view_equals_ignore_case :: "StringView \<Rightarrow> cstr \<Rightarrow> bool exec" where
  "view_equals_ignore_case w other =
     exec_bind (calculate_size other) (\<lambda>n.
       if sv_length (view_value w) \<noteq> n then Inr False
       else chars_equal to_lower (sv_length (view_value w)) (sv_data (view_value w)) other)"

section \<open>The text of a string\<close>

definition str_ok :: "StringValue \<Rightarrow> cstr \<Rightarrow> bool" where
  "str_ok v s \<longleftrightarrow> sv_data v = s @ [0] \<and> unat (sv_length v) = length s \<and> sv_type v = ASCII \<and> length s < 2 ^ 31"

lemma calculate_size_from_text:
  "0 \<notin> set s \<Longrightarrow> calculate_size_from i (s @ 0 # r) = Inr (i + of_nat (length s))"
  by (induction s arbitrary: i) (auto simp: algebra_simps)

lemma calculate_size_text: "0 \<notin> set s \<Longrightarrow> calculate_size (s @ 0 # r) = Inr (of_nat (length s))"
  by (simp add: calculate_size_def calculate_size_from_text)

lemma unat_u32_len: "unat n = k \<Longrightarrow> k < 2 ^ 32 \<Longrightarrow> unat (ucast (n :: u64) :: u32) = k"
  by (simp add: unsigned_ucast_eq take_bit_nat_eq_self)

lemma copy_chars_ok:
  assumes "unat n = length s" "length s < 2 ^ 32" "at + length s \<le> length t"
  shows "copy_chars t at (s @ r) n = Inr (take at t @ s @ drop (at + length s) t)"
  using assms unat_u32_len [OF assms(1,2)] by (simp add: copy_chars_def Let_def)

lemma length_new_chars [simp]: "length (new_chars n) = unat n"
  by (simp add: new_chars_def)

lemma unat_Suc_small: "unat n = k \<Longrightarrow> k < 2 ^ 33 \<Longrightarrow> unat ((n :: u64) + 1) = Suc k"
  by (subst unat_add_no_wrap) simp_all

lemma list_update_last_drop: "length s < length t \<Longrightarrow> length t = Suc (length s) \<Longrightarrow>
    (s @ drop (length s) t)[length s := c] = s @ [c]"
  by (rule nth_equalityI) (auto simp: nth_append nth_list_update)

lemma sv_create_ok:
  assumes "unat n = length s" "length s < 2 ^ 31"
  shows "\<exists>v. sv_create (s @ r) n = Inr v \<and> str_ok v s"
proof -
  have n: "unat (n + 1) = Suc (length s)" using assms by (intro unat_Suc_small) simp_all
  have "(if n \<noteq> 0 then copy_chars (new_chars (n + 1)) 0 (s @ r) n else Inr (new_chars (n + 1))) =
      Inr (s @ drop (length s) (new_chars (n + 1)))"
    using assms n copy_chars_ok [of n s 0 "new_chars (n + 1)" r] by (auto simp: word_unat_eq_iff)
  moreover have "(s @ drop (length s) (new_chars (n + 1)))[length s := 0] = s @ [0]"
    using n by (intro list_update_last_drop) simp_all
  ultimately show ?thesis using assms n by (simp add: sv_create_def put_char_def str_ok_def)
qed

lemma str_new_ok:
  assumes "0 \<notin> set s" "length s < 2 ^ 31"
  shows "\<exists>v. str_new (s @ 0 # r) = Inr v \<and> str_ok v s"
proof -
  have "unat (of_nat (length s) :: u64) = length s" using assms(2) by (intro unat_of_nat_small) simp
  then show ?thesis using sv_create_ok [OF _ assms(2), of "of_nat (length s)" "0 # r"] assms(1)
    by (simp add: str_new_def calculate_size_text)
qed

lemma str_copy_ok: "str_ok v s \<Longrightarrow> \<exists>w. str_copy v = Inr w \<and> str_ok w s"
  using sv_create_ok [of "sv_length v" s "[0]"] by (auto simp: str_copy_def str_ok_def)

lemma sv_append_ok:
  assumes "str_ok v s" "str_ok w t" "length s + length t < 2 ^ 31"
  shows "\<exists>x. sv_append v w = Inr x \<and> str_ok x (s @ t)"
proof -
  let ?n = "sv_length v + sv_length w"
  have len: "unat (sv_length v) = length s" "unat (sv_length w) = length t" "sv_data v = s @ [0]" "sv_data w = t @ [0]"
    using assms(1,2) by (simp_all add: str_ok_def)
  have n: "unat ?n = length s + length t" using assms(3) len by (subst unat_add_no_wrap) simp_all
  then have n1: "unat (?n + 1) = Suc (length s + length t)" using assms(3) by (intro unat_Suc_small) simp_all
  let ?b = "new_chars (?n + 1)"
  let ?b1 = "s @ drop (length s) ?b"
  have c1: "copy_chars ?b 0 (sv_data v) (sv_length v) = Inr ?b1"
    using copy_chars_ok [of "sv_length v" s 0 ?b "[0]"] len n1 assms(3) by simp
  have c2: "copy_chars ?b1 (unat (sv_length v)) (sv_data w) (sv_length w) =
      Inr (s @ t @ drop (length (s @ t)) ?b)"
    using copy_chars_ok [of "sv_length w" t "length s" ?b1 "[0]"] len n1 assms(3) by (simp add: add.commute)
  have "((s @ t) @ drop (length (s @ t)) ?b)[length (s @ t) := 0] = (s @ t) @ [0]"
    using n1 by (intro list_update_last_drop) simp_all
  then show ?thesis
    using c1 c2 n n1 assms by (simp add: sv_append_def Let_def put_char_def str_ok_def)
qed

lemma sv_append_char_ok:
  assumes "str_ok v s" "length s + 1 < 2 ^ 31"
  shows "\<exists>x. sv_append_char v c = Inr x \<and> str_ok x (s @ [c])"
proof -
  let ?n = "sv_length v + 1"
  have len: "unat (sv_length v) = length s" "sv_data v = s @ [0]" using assms(1) by (simp_all add: str_ok_def)
  have n: "unat ?n = Suc (length s)" using assms(2) len unat_Suc_small [of "sv_length v" "length s"] by simp
  then have n1: "unat (?n + 1) = Suc (Suc (length s))" using assms(2) unat_Suc_small [of ?n "Suc (length s)"] by simp
  let ?b = "new_chars (?n + 1)"
  have c1: "copy_chars ?b 0 (sv_data v) (sv_length v) = Inr (s @ drop (length s) ?b)"
    using copy_chars_ok [of "sv_length v" s 0 ?b "[0]"] len n1 assms(2) by simp
  have "(s @ drop (length s) ?b)[length s := c, Suc (length s) := 0] = (s @ [c]) @ [0]"
    by (rule nth_equalityI) (use n1 in \<open>auto simp: nth_append nth_list_update less_Suc_eq\<close>)
  then show ?thesis
    using c1 n n1 len assms by (simp add: sv_append_char_def Let_def put_char_def str_ok_def)
qed

text \<open>Comparing two texts.\<close>

lemma find_difference:
  "(case List.find (\<lambda>x. (case x of (c, d) \<Rightarrow> if f c \<noteq> f d then Some False else None) \<noteq> None) (zip s t) of
      None \<Rightarrow> None | Some x \<Rightarrow> (case x of (c, d) \<Rightarrow> if f c \<noteq> f d then Some False else None)) =
   (if \<forall>(c, d) \<in> set (zip s t). f c = f d then None else Some False)"
  by (induction s t rule: list_induct2') auto

lemma chars_equal_rel:
  assumes "unat n = length s" "length s = length t"
  shows "chars_equal f n (s @ q) (t @ r) = Inr (map f s = map f t)"
proof -
  let ?g = "\<lambda>(c, d). if f c \<noteq> f d then Some False else None"
  have "scan 0 n (\<lambda>i. exec_bind (char_at (s @ q) i) (\<lambda>c. exec_bind (char_at (t @ r) i) (\<lambda>d.
      Inr (if f c \<noteq> f d then Some False else None)))) =
      Inr (case List.find (\<lambda>x. ?g x \<noteq> None) (drop (unat (0 :: size_t)) (zip s t)) of None \<Rightarrow> None | Some x \<Rightarrow> ?g x)"
    by (rule scan_list) (use assms in \<open>auto simp: char_at_def word_less_nat_alt nth_append\<close>)
  also have "\<dots> = Inr (if \<forall>(c, d) \<in> set (zip s t). f c = f d then None else Some False)"
    using find_difference [of f s t] by simp
  finally have r: "scan 0 n (\<lambda>i. exec_bind (char_at (s @ q) i) (\<lambda>c. exec_bind (char_at (t @ r) i) (\<lambda>d.
      Inr (if f c \<noteq> f d then Some False else None)))) =
      Inr (if \<forall>(c, d) \<in> set (zip s t). f c = f d then None else Some False)" .
  have "(\<forall>(c, d) \<in> set (zip s t). f c = f d) \<longleftrightarrow> map f s = map f t"
    using assms(2) by (induction s t rule: list_induct2) auto
  then show ?thesis by (simp add: chars_equal_def r)
qed

lemma len_neq:
  assumes "unat (n :: u64) = length s" "length t < 2 ^ 31"
  shows "n \<noteq> of_nat (length t) \<longleftrightarrow> length s \<noteq> length t"
proof -
  have "unat (of_nat (length t) :: u64) = length t" using assms(2) by (intro unat_of_nat_small) simp
  then show ?thesis using assms(1) by (auto simp: word_unat_eq_iff)
qed

lemma str_equals_cstr_ok:
  assumes "str_ok v s" "0 \<notin> set t" "length t < 2 ^ 31"
  shows "str_equals_cstr v (t @ 0 # r) = Inr (s = t)"
  using assms chars_equal_rel [of "sv_length v" s t "\<lambda>c. c" "[0]" "0 # r"] len_neq [of "sv_length v" s t]
  by (auto simp: str_equals_cstr_def calculate_size_text str_ok_def)

lemma str_equals_ok:
  assumes "str_ok v s" "str_ok w t" "0 \<notin> set t"
  shows "str_equals v w = Inr (s = t)"
  using str_equals_cstr_ok [OF assms(1,3), of "[]"] assms(2) by (simp add: str_equals_def str_ok_def)

lemma str_equals_ignore_case_ok:
  assumes "str_ok v s" "0 \<notin> set t" "length t < 2 ^ 31"
  shows "str_equals_ignore_case v (Some (t @ 0 # r)) = Inr (map to_lower s = map to_lower t)"
  using assms chars_equal_rel [of "sv_length v" s t to_lower "[0]" "0 # r"] len_neq [of "sv_length v" s t]
  by (auto simp: str_equals_ignore_case_def calculate_size_text str_ok_def dest: map_eq_imp_length_eq)

lemma sv_index_ok:
  fixes i :: size_t
  assumes "str_ok v s" "unat i < length s"
  shows "sv_index v (uint i) = Inr (s ! unat i)"
proof -
  have "int (unat i) < int (unat (sv_length v))" using assms by (simp only: str_ok_def of_nat_less_iff)
  then have "uint i < uint (sv_length v)" by simp
  then show ?thesis using assms by (simp add: sv_index_def str_ok_def char_at_def nth_append ucast_id)
qed

lemma str_starts_with_ok:
  assumes "str_ok v s" "str_ok w t"
  shows "str_starts_with v w = Inr (take (length t) s = t)"
proof (cases "length t \<le> length s")
  case True
  let ?g = "\<lambda>(c, d). if c \<noteq> d then Some False else None"
  let ?s = "take (length t) s"
  have n: "unat (sv_length w) = length t" using assms(2) by (simp add: str_ok_def)
  have "scan 0 (sv_length w) (\<lambda>i. exec_bind (char_at (sv_data v) i) (\<lambda>c.
        exec_bind (sv_index w (uint i)) (\<lambda>d. Inr (if c \<noteq> d then Some False else None)))) =
      Inr (case List.find (\<lambda>x. ?g x \<noteq> None) (drop (unat (0 :: size_t)) (zip ?s t)) of None \<Rightarrow> None | Some x \<Rightarrow> ?g x)"
  proof (rule scan_list)
    fix j :: size_t assume "j < sv_length w"
    then have j: "unat j < length t" using n by (simp add: word_less_nat_alt)
    then have "char_at (sv_data v) j = Inr (s ! unat j)"
      using assms(1) True by (simp add: char_at_def str_ok_def nth_append)
    then show "exec_bind (char_at (sv_data v) j) (\<lambda>c. exec_bind (sv_index w (uint j)) (\<lambda>d. Inr (if c \<noteq> d then Some False else None)))
        = Inr (?g (zip ?s t ! unat j))"
      using sv_index_ok [OF assms(2) j] j True by simp
  qed (use n True in auto)
  also have "\<dots> = Inr (if \<forall>(c, d) \<in> set (zip ?s t). c = d then None else Some False)"
    using find_difference [of "\<lambda>c. c" ?s t] by simp
  finally have r: "scan 0 (sv_length w) (\<lambda>i. exec_bind (char_at (sv_data v) i) (\<lambda>c.
        exec_bind (sv_index w (uint i)) (\<lambda>d. Inr (if c \<noteq> d then Some False else None)))) =
      Inr (if \<forall>(c, d) \<in> set (zip ?s t). c = d then None else Some False)" .
  have eq: "(\<forall>(c, d) \<in> set (zip xs ys). c = d) \<longleftrightarrow> xs = ys" if "length xs = length ys" for xs ys :: cstr
    using that by (induction xs ys rule: list_induct2) auto
  have "\<not> sv_length w > sv_length v" using assms True by (simp add: str_ok_def word_less_nat_alt)
  then show ?thesis using r eq [of ?s t] True by (simp add: str_starts_with_def)
next
  case False
  then have "sv_length w > sv_length v" using assms by (simp add: str_ok_def word_less_nat_alt)
  then show ?thesis using False by (auto simp: str_starts_with_def)
qed

section \<open>Splitting\<close>

text \<open>The parts of a text between the separators, the empty ones included.\<close>

fun pieces :: "'a \<Rightarrow> 'a list \<Rightarrow> 'a list \<Rightarrow> 'a list list" where
  "pieces c cur [] = [cur]"
| "pieces c cur (x # xs) = (if x = c then cur # pieces c [] xs else pieces c (cur @ [x]) xs)"

lemma pieces_not_Nil [simp]: "pieces c cur xs \<noteq> []"
  by (induction c cur xs rule: pieces.induct) auto

lemma pieces_snoc:
  "pieces c cur (xs @ [x]) =
     (if x = c then pieces c cur xs @ [[]] else butlast (pieces c cur xs) @ [last (pieces c cur xs) @ [x]])"
  by (induction c cur xs rule: pieces.induct) auto

definition split_spec :: "u8 \<Rightarrow> cstr \<Rightarrow> cstr list" where
  "split_spec c s =
     (if s \<noteq> [] \<and> last s = c then filter (\<lambda>p. p \<noteq> []) (butlast (pieces c [] (butlast s)))
      else filter (\<lambda>p. p \<noteq> []) (pieces c [] s))"

text \<open>After \<^verbatim>\<open>k\<close> characters: the finished parts, and where the current one starts.\<close>

definition split_upto :: "u8 \<Rightarrow> cstr \<Rightarrow> nat \<Rightarrow> size_t \<times> cstr list \<Rightarrow> bool" where
  "split_upto c s k = (\<lambda>(last_index, result).
     unat last_index \<le> k \<and>
     result = filter (\<lambda>p. p \<noteq> []) (butlast (pieces c [] (take k s))) \<and>
     drop (unat last_index) (take k s) = last (pieces c [] (take k s)))"

lemma part_nth:
  assumes "unat from \<le> unat i" "unat i \<le> length s"
  shows "part (s @ r) from (i - from) = drop (unat from) (take (unat i) s)"
proof -
  have "unat (i - from) = unat i - unat from" using assms(1) by (simp add: unat_sub word_le_nat_alt)
  then show ?thesis using assms by (simp add: part_def drop_take)
qed

lemma split_step_other:
  assumes "str_ok v s" "str_ok sep [c]" "split_upto c s (unat i) st" "unat i < length s" "s ! unat i \<noteq> c"
  shows "split_step v sep i st = Inr st \<and> split_upto c s (Suc (unat i)) st"
proof -
  obtain li res where st: "st = (li, res)" by (cases st)
  have ch: "char_at (sv_data v) i = Inr (s ! unat i)" using assms(1,4) by (simp add: char_at_def str_ok_def nth_append)
  have se: "sv_index sep 0 = Inr c" using sv_index_ok [OF assms(2), of 0] by simp
  have tk: "take (Suc (unat i)) s = take (unat i) s @ [s ! unat i]" using assms(4) by (simp add: take_Suc_conv_app_nth)
  have "split_upto c s (Suc (unat i)) st"
    using assms(3,5) assms(4) unfolding split_upto_def st tk by (auto simp: pieces_snoc)
  then show ?thesis using assms(5) ch se st by (simp add: split_step_def)
qed

lemma split_step_sep:
  assumes "str_ok v s" "str_ok sep [c]" "split_upto c s (unat i) st" "unat i + 1 < length s" "s ! unat i = c"
  shows "\<exists>st'. split_step v sep i st = Inr st' \<and> split_upto c s (Suc (unat i)) st'"
proof -
  obtain li res where st: "st = (li, res)" by (cases st)
  have i: "unat i < length s" using assms(4) by simp
  have ch: "char_at (sv_data v) i = Inr (s ! unat i)" using assms(1) i by (simp add: char_at_def str_ok_def nth_append)
  have se: "sv_index sep 0 = Inr c" using sv_index_ok [OF assms(2), of 0] by simp
  have tk: "take (Suc (unat i)) s = take (unat i) s @ [c]" using i assms(5) by (simp add: take_Suc_conv_app_nth)
  have s31: "length s < 2 ^ 31" "unat (sv_length v) = length s" "sv_data v = s @ [0]" using assms(1) by (simp_all add: str_ok_def)
  have suc: "unat (i + 1) = Suc (unat i)" using s31(1) i by (intro unat_Suc_small) simp_all
  have sep1: "sv_length sep = 1" using assms(2) by (simp add: str_ok_def word_unat_eq_iff)
  have li: "unat li \<le> unat i" "res = filter (\<lambda>p. p \<noteq> []) (butlast (pieces c [] (take (unat i) s)))"
    "drop (unat li) (take (unat i) s) = last (pieces c [] (take (unat i) s))"
    using assms(3) st by (simp_all add: split_upto_def)
  have nl: "i \<noteq> sv_length v - 1"
  proof
    assume "i = sv_length v - 1"
    moreover have "sv_length v \<noteq> 0" using s31(2) i by (auto simp: word_unat_eq_iff)
    ultimately have "unat i = length s - 1" using s31(2) by (simp add: unat_minus_one)
    then show False using assms(4) by simp
  qed
  have pc: "pieces c [] (take (Suc (unat i)) s) = pieces c [] (take (unat i) s) @ [[]]" unfolding tk by (simp add: pieces_snoc)
  have fin: "filter (\<lambda>p. p \<noteq> []) (pieces c [] (take (unat i) s)) =
      res @ (if last (pieces c [] (take (unat i) s)) = [] then [] else [last (pieces c [] (take (unat i) s))])"
    using li(2) append_butlast_last_id [OF pieces_not_Nil [of c "[]" "take (unat i) s"]]
      filter_append [of "\<lambda>p. p \<noteq> []" "butlast (pieces c [] (take (unat i) s))" "[last (pieces c [] (take (unat i) s))]"] by simp
  show ?thesis
  proof (cases "i = 0")
    case True
    then have "split_step v sep i st = Inr (1, res)" using ch se st assms(5) by (simp add: split_step_def)
    moreover have "split_upto c s (Suc (unat i)) (1, res)"
      using pc li(2) True tk by (simp add: split_upto_def)
    ultimately show ?thesis by blast
  next
    case False
    have pos: "i - li > 0 \<longleftrightarrow> last (pieces c [] (take (unat i) s)) \<noteq> []"
    proof -
      have "unat (i - li) = unat i - unat li" using li(1) by (simp add: unat_sub word_le_nat_alt)
      moreover have "length (last (pieces c [] (take (unat i) s))) = unat i - unat li"
        using li(3) i by (metis length_drop length_take min.absorb2 less_imp_le)
      ultimately show ?thesis by (simp add: word_less_nat_alt flip: length_greater_0_conv)
    qed
    have pt: "part (sv_data v) li (i - li) = last (pieces c [] (take (unat i) s))"
      using part_nth [OF li(1), of s "[0]"] i li(3) s31(3) by simp
    let ?res = "if i - li > 0 then res @ [last (pieces c [] (take (unat i) s))] else res"
    have "split_step v sep i st = Inr (i + 1, ?res)"
      using ch se st assms(5) False nl sep1 pt by (simp add: split_step_def)
    moreover have "split_upto c s (Suc (unat i)) (i + 1, ?res)"
      unfolding split_upto_def using pc fin pos suc tk i by simp
    ultimately show ?thesis by blast
  qed
qed

lemma str_split_ok:
  assumes v: "str_ok v s" and sep: "str_ok sep [c]"
  shows "str_split v sep = Inr (split_spec c s)"
proof -
  have s31: "length s < 2 ^ 31" "unat (sv_length v) = length s" "sv_data v = s @ [0]" using v by (simp_all add: str_ok_def)
  let ?P = "\<lambda>k st. if k = length s \<and> s \<noteq> [] \<and> last s = c
    then unat (fst st) = length s \<and> snd st = filter (\<lambda>p. p \<noteq> []) (butlast (pieces c [] (butlast s)))
    else split_upto c s k st"
  have "\<exists>st. for_exec 0 (sv_length v) (split_step v sep) (0, []) = Inr st \<and> ?P (unat (sv_length v)) st"
  proof (rule for_exec_invariant [where P = ?P])
    show "?P (unat (0 :: size_t)) (0, [])" by (simp add: split_upto_def)
    show "\<exists>st'. split_step v sep i st = Inr st' \<and> ?P (Suc (unat i)) st'"
      if "0 \<le> i" "i < sv_length v" and P: "?P (unat i) st" for i st
    proof -
      have i: "unat i < length s" using that(2) s31(2) by (simp add: word_less_nat_alt)
      then have up: "split_upto c s (unat i) st" using P by (simp split: if_splits)
      consider (other) "s ! unat i \<noteq> c" | (inner) "s ! unat i = c" "unat i + 1 < length s"
        | (final) "s ! unat i = c" "unat i + 1 = length s" using i by linarith
      then show ?thesis
      proof cases
        case other
        then have "\<not> (Suc (unat i) = length s \<and> s \<noteq> [] \<and> last s = c)"
          by (auto simp: last_conv_nth dest: sym)
        then show ?thesis using split_step_other [OF v sep up i other] by auto
      next
        case inner
        then show ?thesis using split_step_sep [OF v sep up inner(2,1)] by auto
      next
        case final
        have ne: "s \<noteq> []" using i by auto
        have lst: "last s = c" using final ne by (simp add: last_conv_nth flip: final(2))
        have bl: "butlast s = take (unat i) s" using final(2) by (simp add: butlast_conv_take flip: final(2))
        have ch: "char_at (sv_data v) i = Inr c" using i final(1) s31(3) by (simp add: char_at_def nth_append)
        have se: "sv_index sep 0 = Inr c" using sv_index_ok [OF sep, of 0] by simp
        have "sv_length v \<noteq> 0" using s31(2) i by (auto simp: word_unat_eq_iff)
        then have "unat (sv_length v - 1) = unat i" using s31(2) final(2) by (simp add: unat_minus_one)
        then have "i = sv_length v - 1" by (simp add: word_unat_eq_iff)
        then have "split_step v sep i st = Inr (i + 1, snd st)"
          using ch se by (simp add: split_step_def split: prod.split)
        moreover have "unat (i + 1) = length s" using s31(1) i final(2) unat_Suc_small [of i "unat i"] by simp
        moreover have "snd st = filter (\<lambda>p. p \<noteq> []) (butlast (pieces c [] (butlast s)))"
          using up bl by (auto simp: split_upto_def)
        ultimately show ?thesis using final(2) ne lst by auto
      qed
    qed
  qed simp
  then obtain st0 where "for_exec 0 (sv_length v) (split_step v sep) (0, []) = Inr st0" "?P (length s) st0"
    unfolding s31(2) by blast
  moreover obtain li res where "st0 = (li, res)" by (cases st0)
  ultimately have st: "for_exec 0 (sv_length v) (split_step v sep) (0, []) = Inr (li, res)" "?P (length s) (li, res)"
    by (simp_all only:)
  have len: "li < sv_length v \<longleftrightarrow> unat li < length s" using s31(2) by (simp add: word_less_nat_alt)
  show ?thesis
  proof (cases "s \<noteq> [] \<and> last s = c")
    case True
    then show ?thesis using st len by (simp add: str_split_def split_spec_def)
  next
    case False
    then have up: "unat li \<le> length s" "res = filter (\<lambda>p. p \<noteq> []) (butlast (pieces c [] s))" "drop (unat li) s = last (pieces c [] s)"
      using st(2) by (auto simp: split_upto_def)
    have pt: "part (sv_data v) li (sv_length v - li) = last (pieces c [] s)"
      using part_nth [of li "sv_length v" s "[0]"] up(1,3) s31(2,3) by simp
    have pos: "sv_length v - li > 0 \<longleftrightarrow> unat li < length s"
      using up(1) s31(2) by (simp add: word_less_nat_alt unat_sub word_le_nat_alt)
    have "filter (\<lambda>p. p \<noteq> []) (pieces c [] s) = res @ (if last (pieces c [] s) = [] then [] else [last (pieces c [] s)])"
      using up(2) append_butlast_last_id [OF pieces_not_Nil [of c "[]" s]]
        filter_append [of "\<lambda>p. p \<noteq> []" "butlast (pieces c [] s)" "[last (pieces c [] s)]"] by simp
    moreover have "last (pieces c [] s) = [] \<longleftrightarrow> \<not> unat li < length s" using up(3) by (auto simp: not_less dest: arg_cong [where f = length] sym)
    ultimately show ?thesis using False st(1) len pos pt by (auto simp: str_split_def split_spec_def)
  qed
qed

section \<open>Numbers\<close>

definition digit :: "nat \<Rightarrow> u8" where
  "digit d = digit_char (of_nat d)"

fun digits_value :: "nat \<Rightarrow> nat list \<Rightarrow> nat" where
  "digits_value b [] = 0"
| "digits_value b (d # ds) = d + b * digits_value b ds"

lemma digit_atoi:
  assumes "d < 16"
  shows "atoi_loop b acc (digit d # cs) = atoi_loop b (acc * b + of_nat d) cs" "digit d \<noteq> 45" "digit d \<noteq> 0"
proof -
  have "d \<in> {0, 1, 2, 3, 4, 5, 6, 7, 8, 9, 10, 11, 12, 13, 14, 15}"
    using assms unfolding insert_iff empty_iff by presburger
  then show "atoi_loop b acc (digit d # cs) = atoi_loop b (acc * b + of_nat d) cs" "digit d \<noteq> 45" "digit d \<noteq> 0"
    unfolding insert_iff empty_iff digit_def digit_char_def by (elim disjE; simp)+
qed

lemma itoa_digits_ok:
  fixes base n :: u64
  assumes "2 \<le> unat base" "unat n < unat base ^ k" "k = 1 \<or> unat base ^ (k - 1) \<le> unat n" "0 < k" "i + k \<le> length buf"
  shows "\<exists>ds. itoa_digits base buf i n = Some (Inr (take i buf @ map digit ds @ drop (i + k) buf, i + k)) \<and>
    length ds = k \<and> (\<forall>d \<in> set ds. d < unat base) \<and> digits_value (unat base) ds = unat n"
  using assms
proof (induction k arbitrary: n i buf)
  case (Suc k)
  let ?b = "unat base"
  have b: "base \<noteq> 0" using Suc.prems(1) by auto
  have d: "n mod base = of_nat (unat n mod ?b)" by (simp add: word_arith_nat_mod)
  have q: "unat (n div base) = unat n div ?b" by (simp add: unat_div)
  have i: "i < length buf" using Suc.prems(5) by simp
  have put: "put_char buf i (digit_char (n mod base)) = Inr (buf[i := digit (unat n mod ?b)])"
    using i unfolding d by (simp add: put_char_def digit_def)
  have upd: "buf[i := c] = take i buf @ [c] @ drop (Suc i) buf" for c
    using i by (simp add: upd_conv_take_nth_drop)
  show ?case
  proof (cases "k = 0")
    case True
    then have "unat n < ?b" using Suc.prems(2) by simp
    then have "n div base = 0" "unat n mod ?b = unat n" using q by (simp_all add: word_unat_eq_iff)
    then show ?thesis using b put upd True \<open>unat n < ?b\<close>
      by (intro exI [of _ "[unat n]"], subst itoa_digits.simps) simp
  next
    case False
    then have lo: "?b ^ k \<le> unat n" using Suc.prems(3) by simp
    have "unat n div ?b < ?b ^ k" using Suc.prems(1,2) by (simp add: less_mult_imp_div_less mult.commute)
    moreover have "?b ^ (k - 1) \<le> unat n div ?b"
    proof -
      have "?b ^ (k - 1) * ?b \<le> unat n" using lo False by (cases k) (simp_all add: mult.commute)
      then show ?thesis using Suc.prems(1) by (simp add: less_eq_div_iff_mult_less_eq)
    qed
    ultimately have ih: "\<exists>ds. itoa_digits base (buf[i := digit (unat n mod ?b)]) (Suc i) (n div base) =
        Some (Inr (take (Suc i) (buf[i := digit (unat n mod ?b)]) @ map digit ds @
          drop (Suc i + k) (buf[i := digit (unat n mod ?b)]), Suc i + k)) \<and>
        length ds = k \<and> (\<forall>d \<in> set ds. d < ?b) \<and> digits_value ?b ds = unat (n div base)"
      using Suc.prems(1,5) False q by (intro Suc.IH) simp_all
    then obtain ds where ds: "itoa_digits base (buf[i := digit (unat n mod ?b)]) (Suc i) (n div base) =
        Some (Inr (take (Suc i) (buf[i := digit (unat n mod ?b)]) @ map digit ds @
          drop (Suc i + k) (buf[i := digit (unat n mod ?b)]), Suc i + k))"
      "length ds = k" "\<forall>d \<in> set ds. d < ?b" "digits_value ?b ds = unat (n div base)" by blast
    have "0 < unat n div ?b"
      using \<open>?b ^ (k - 1) \<le> unat n div ?b\<close> Suc.prems(1) by (metis gr0I le_zero_eq not_numeral_le_zero power_eq_0_iff)
    then have nz: "n div base \<noteq> 0" using q by (auto simp: word_unat_eq_iff)
    have step: "itoa_digits base buf i n = itoa_digits base (buf[i := digit (unat n mod ?b)]) (Suc i) (n div base)"
      using b put nz by (subst itoa_digits.simps) simp
    have "unat n mod ?b + ?b * (unat n div ?b) = unat n" by simp
    then have "digits_value ?b (unat n mod ?b # ds) = unat n" using ds(4) q by simp
    moreover have "unat n mod ?b < ?b" using Suc.prems(1) by simp
    ultimately show ?thesis using step ds i by (intro exI [of _ "unat n mod ?b # ds"]) (simp add: take_Suc_conv_app_nth)
  qed
qed simp

lemma itoa_reverse_ok:
  "mid \<noteq> [] \<Longrightarrow> itoa_reverse (pre @ mid @ post) (length pre) (length pre + length mid - 1) = pre @ rev mid @ post"
proof (induction "length mid" arbitrary: pre mid post rule: less_induct)
  case less
  show ?case
  proof (cases "length mid = 1")
    case True
    then obtain x where "mid = [x]" by (cases mid) auto
    then show ?thesis by (subst itoa_reverse.simps) simp
  next
    case False
    then obtain x m y where mid: "mid = x # m @ [y]"
      using less.prems by (cases mid; cases "tl mid" rule: rev_cases) auto
    have upd: "(pre @ mid @ post)[length pre := y, length pre + length mid - 1 := x] = (pre @ [y]) @ m @ (x # post)"
      using mid by (simp add: list_update_append)
    have nth: "(pre @ mid @ post) ! (length pre + length mid - 1) = y" "(pre @ mid @ post) ! length pre = x"
      using mid by (simp_all add: nth_append)
    have step: "itoa_reverse (pre @ mid @ post) (length pre) (length pre + length mid - 1) =
        itoa_reverse ((pre @ [y]) @ m @ (x # post)) (length pre + 1) (length pre + length mid - 1 - 1)"
      using mid upd nth by (subst itoa_reverse.simps) (simp add: Let_def)
    show ?thesis
    proof (cases "m = []")
      case True
      then show ?thesis unfolding step using mid by (subst itoa_reverse.simps) simp
    next
      case False
      then have e: "length pre + length mid - 1 - 1 = length (pre @ [y]) + length m - 1" "length pre + 1 = length (pre @ [y])"
        using mid by (cases m; simp)+
      show ?thesis unfolding step e using less.hyps [of m "pre @ [y]" "x # post"] False mid by simp
    qed
  qed
qed

lemma atoi_loop_digits:
  "\<forall>d \<in> set ds. d < 16 \<Longrightarrow>
   atoi_loop b acc (map digit ds @ 0 # r) = Inr (foldl (\<lambda>a d. a * b + of_nat d) acc ds)"
proof (induction ds arbitrary: acc)
  case (Cons d ds)
  then show ?case using digit_atoi(1) [of d b acc "map digit ds @ 0 # r"] by (simp del: atoi_loop.simps)
qed simp

lemma foldl_digits_value:
  "foldl (\<lambda>a d. a * b + of_nat d) 0 (rev ds) = (of_nat (digits_value (unat b) ds) :: u64)"
  by (induction ds) (simp_all add: algebra_simps)

declare itoa_reverse.simps [simp del]

text \<open>What \<^verbatim>\<open>itoa\<close> leaves in a buffer that holds \<^verbatim>\<open>k\<close> digits and the terminator.\<close>

lemma itoa_ok:
  fixes base n :: u64
  assumes "2 \<le> unat base" "unat base \<le> 16" "unat n < unat base ^ k" "k = 1 \<or> unat base ^ (k - 1) \<le> unat n" "0 < k"
  shows "k < length buf \<Longrightarrow> \<exists>s. itoa buf n base = Some (Inr (s @ 0 # drop (Suc k) buf)) \<and> length s = k \<and> 0 \<notin> set s \<and>
      atoi (s @ 0 # drop (Suc k) buf) base = Inr n"
    and "k = length buf \<Longrightarrow> itoa buf n base = Some (Inl OutOfBounds)"
proof -
  show "itoa buf n base = Some (Inl OutOfBounds)" if "k = length buf"
    using itoa_digits_ok [OF assms(1,3-5), of 0 buf] that by (auto simp: itoa_def put_char_def)
  show "\<exists>s. itoa buf n base = Some (Inr (s @ 0 # drop (Suc k) buf)) \<and> length s = k \<and> 0 \<notin> set s \<and>
      atoi (s @ 0 # drop (Suc k) buf) base = Inr n" if k: "k < length buf"
  proof -
    obtain ds where ds: "itoa_digits base buf 0 n = Some (Inr (map digit ds @ drop k buf, k))" "length ds = k"
        "\<forall>d \<in> set ds. d < unat base" "digits_value (unat base) ds = unat n"
      using itoa_digits_ok [OF assms(1,3-5), of 0 buf] k by auto
    let ?s = "map digit (rev ds)"
    have small: "\<forall>d \<in> set ds. d < 16" using ds(3) assms(2) by auto
    have "drop k buf = buf ! k # drop (Suc k) buf" using k by (simp add: Cons_nth_drop_Suc)
    then have put: "put_char (map digit ds @ drop k buf) k 0 = Inr (map digit ds @ 0 # drop (Suc k) buf)"
      using ds(2) by (simp add: put_char_def list_update_append)
    have ne: "map digit ds \<noteq> []" using ds(2) assms(5) by auto
    have "itoa_reverse (map digit ds @ 0 # drop (Suc k) buf) 0 (k - 1) = ?s @ 0 # drop (Suc k) buf"
      using itoa_reverse_ok [OF ne, of "[]" "0 # drop (Suc k) buf"] ds(2) by (simp add: rev_map)
    then have "itoa buf n base = Some (Inr (?s @ 0 # drop (Suc k) buf))" using ds(1) put by (simp add: itoa_def)
    moreover have "0 \<notin> set ?s" using small digit_atoi(3) by fastforce
    moreover have "atoi (?s @ 0 # drop (Suc k) buf) base = Inr n"
    proof -
      obtain e es where es: "rev ds = e # es" using ne by (cases "rev ds") auto
      then have "e < 16" using small by (metis in_set_conv_decomp_first list.set_intros(1) set_rev)
      then have "digit e \<noteq> 45" by (rule digit_atoi(2))
      then have "atoi (?s @ 0 # drop (Suc k) buf) base =
          exec_bind (atoi_loop base 0 (?s @ 0 # drop (Suc k) buf)) (\<lambda>result. Inr (1 * result))"
        using es by (simp add: atoi_def char_at_def)
      also have "atoi_loop base 0 (?s @ 0 # drop (Suc k) buf) = Inr (foldl (\<lambda>a d. a * base + of_nat d) 0 (rev ds))"
        using small by (intro atoi_loop_digits) simp
      finally show ?thesis using ds(4) by (simp add: foldl_digits_value)
    qed
    ultimately show ?thesis using ds(2) by (intro exI [of _ ?s]) simp
  qed
qed

lemma digit_count:
  assumes "2 \<le> b" "n < b ^ m" "0 < m"
  obtains k where "0 < k" "k \<le> m" "n < b ^ k" "k = 1 \<or> b ^ (k - 1) \<le> (n :: nat)"
proof -
  define Q where "Q k \<longleftrightarrow> 0 < k \<and> n < b ^ k" for k
  have m: "Q m" using assms(2,3) by (simp add: Q_def)
  have k: "Q (Least Q)" "\<And>i. i < Least Q \<Longrightarrow> \<not> Q i" "Least Q \<le> m"
    by (rule LeastI [of Q m, OF m], erule not_less_Least, rule Least_le [of Q m, OF m])
  have "Least Q = 1 \<or> b ^ (Least Q - 1) \<le> n"
    using k(1) k(2) [of "Least Q - 1"] by (cases "Least Q = 1") (simp_all add: Q_def not_less)
  then show thesis using k(1,3) by (intro that [of "Least Q"]) (simp_all add: Q_def)
qed

lemma itoa_fits:
  fixes base n :: u64
  assumes "2 \<le> unat base" "unat base \<le> 16" "unat n < unat base ^ m" "0 < m" "m < length buf"
  shows "\<exists>s r. itoa buf n base = Some (Inr (s @ 0 # r)) \<and> 0 \<notin> set s \<and> length s \<le> m \<and> atoi (s @ 0 # r) base = Inr n"
proof -
  obtain k where k: "0 < k" "k \<le> m" "unat n < unat base ^ k" "k = 1 \<or> unat base ^ (k - 1) \<le> unat n"
    using digit_count [OF assms(1,3,4)] .
  have "k < length buf" using k(2) assms(5) by simp
  from itoa_ok(1) [OF assms(1,2) k(3,4,1) this] show ?thesis using k(2) by blast
qed

lemma str_from_u64_ok:
  "\<exists>v s r. str_from_u64 n = Some (Inr v) \<and> sv_data v = s @ 0 # r \<and> 0 \<notin> set s \<and> length s \<le> 20 \<and>
     unat (sv_length v) = length s \<and> str_to_uint v 10 = Inr n"
proof -
  have "unat n < 10 ^ 20" using unsigned_less [of n, where ?'a = nat] by simp
  then obtain s r where s: "itoa (new_chars 22) n 10 = Some (Inr (s @ 0 # r))" "0 \<notin> set s" "length s \<le> 20"
      "atoi (s @ 0 # r) 10 = Inr n"
    using itoa_fits [of 10 n 20 "new_chars 22"] by auto
  moreover have "unat (of_nat (length s) :: u64) = length s" using s(3) by (intro unat_of_nat_small) simp
  ultimately show ?thesis
    by (simp add: str_from_u64_def str_adopt_def calculate_size_text sv_adopt_def str_to_uint_def) blast
qed

lemma itoa_fits_64:
  fixes base n :: u64
  assumes "2 \<le> unat base" "unat base \<le> 16" "64 < length buf"
  shows "\<exists>s. itoa buf n base = Some (Inr s) \<and> atoi s base = Inr n"
proof -
  have "unat n < 2 ^ 64" using unsigned_less [of n, where ?'a = nat] by simp
  also have "(2 :: nat) ^ 64 \<le> unat base ^ 64" using assms(1) by (rule power_mono) simp
  finally have "unat n < unat base ^ 64" .
  from itoa_fits [OF assms(1,2) this zero_less_numeral assms(3)] show ?thesis by blast
qed

lemma str_from_int_nonneg:
  assumes "0 \<le> i" "i < 2 ^ 31"
  shows "\<exists>v. str_from_int i = Some (Inr v) \<and> str_to_uint v 10 = Inr (word_of_int i)"
proof -
  have i: "i < 2147483648" using assms(2) by simp
  have "uint (word_of_int i :: u64) = i" using assms(1) i by (simp add: unsigned_of_int take_bit_int_eq_self)
  then have "unat (word_of_int i :: u64) = nat i" unfolding unat_eq_nat_uint by (rule arg_cong)
  moreover have "nat i < 10 ^ 10" using assms(1) i by simp
  ultimately have "unat (word_of_int i :: u64) < unat (10 :: u64) ^ 10" by simp
  then obtain s r where s: "itoa (new_chars 20) (word_of_int i) 10 = Some (Inr (s @ 0 # r))" "0 \<notin> set s"
      "length s \<le> 10" "atoi (s @ 0 # r) 10 = Inr (word_of_int i)"
    using itoa_fits [of 10 "word_of_int i" 10 "new_chars 20"] by auto
  then show ?thesis
    by (simp add: str_from_int_def str_adopt_def calculate_size_text sv_adopt_def str_to_uint_def)
qed

lemma itoa_overruns_20:
  fixes n :: u64
  assumes "10 ^ 19 \<le> unat n"
  shows "itoa (new_chars 20) n 10 = Some (Inl OutOfBounds)"
proof (rule itoa_ok(2))
  show "20 = 1 \<or> unat (10 :: u64) ^ (20 - 1) \<le> unat n" using assms by simp
  show "unat n < unat (10 :: u64) ^ 20" using unsigned_less [of n, where ?'a = nat] by simp
qed (simp_all add: new_chars_def)

lemma unat_negative:
  assumes "- (2 ^ 31) \<le> j" "j < 0"
  shows "unat (word_of_int j :: u64) = nat (j + 2 ^ 64)"
proof -
  have "j mod 2 ^ 64 = (j + 2 ^ 64) mod 2 ^ 64" by simp
  also have "\<dots> = j + 2 ^ 64" using assms by (intro mod_pos_pos_trivial) simp_all
  finally have "uint (word_of_int j :: u64) = j + 2 ^ 64" by (simp only: unsigned_of_int take_bit_eq_mod) simp
  then show ?thesis by (simp only: unat_eq_nat_uint)
qed

lemma str_from_int_negative:
  assumes "- (2 ^ 31) \<le> j" "j < 0"
  shows "str_from_int j = Some (Inl OutOfBounds)"
proof -
  have "- 2147483648 \<le> j" using assms(1) by simp
  then have "10 ^ 19 \<le> nat (j + 2 ^ 64)" by simp
  then have "itoa (new_chars 20) (word_of_int j) 10 = Some (Inl OutOfBounds)"
    by (intro itoa_overruns_20) (simp only: unat_negative [OF assms])
  then show ?thesis unfolding str_from_int_def by (simp only:) simp
qed

section \<open>Properties\<close>

text \<open>
  C19. Numbers survive printing and parsing: \<^verbatim>\<open>atoi\<close> reads back what \<^verbatim>\<open>itoa\<close> writes, in every base from
  two to sixteen, and \<^verbatim>\<open>from_u64\<close> always has room.  \<^verbatim>\<open>from_int\<close> has not: its argument
  becomes an unsigned long, so that a negative number takes twenty digits and the
  terminator is stored behind its buffer of twenty bytes.
\<close>

theorem number_conversion:
  assumes "2 \<le> unat base" "unat base \<le> 16" "64 < length buf" "0 \<le> i" "i < 2 ^ 31" "- (2 ^ 31) \<le> j" "j < 0"
  shows "(\<exists>s. itoa buf n base = Some (Inr s) \<and> atoi s base = Inr n) \<and>
    (\<exists>v. str_from_u64 n = Some (Inr v) \<and> str_to_uint v 10 = Inr n) \<and>
    (\<exists>v. str_from_int i = Some (Inr v) \<and> str_to_uint v 10 = Inr (word_of_int i)) \<and>
    str_from_int j = Some (Inl OutOfBounds)"
proof (intro conjI)
  show "\<exists>s. itoa buf n base = Some (Inr s) \<and> atoi s base = Inr n" by (rule itoa_fits_64 [OF assms(1-3)])
  show "\<exists>v. str_from_u64 n = Some (Inr v) \<and> str_to_uint v 10 = Inr n" using str_from_u64_ok [of n] by blast
qed (fact str_from_int_nonneg [OF assms(4,5)] str_from_int_negative [OF assms(6,7)])+

theorem number_conversion_witness: "str_from_int (- 1) = Some (Inl OutOfBounds)"
  using number_conversion [of 10 "new_chars 65" 0 "- 1" 0] by simp

text \<open>
  C17. \<^verbatim>\<open>String\<close> implements texts without zero bytes: construction and copying keep the
  text, appending concatenates, the comparisons compare the texts (with and without
  case), and \<^verbatim>\<open>starts_with\<close> is the prefix relation.
\<close>

theorem string_refines_text:
  assumes "str_ok v s" "str_ok w t" "0 \<notin> set s" "0 \<notin> set t" "length s + length t < 2 ^ 31"
  shows "(\<exists>x. str_new (s @ [0]) = Inr x \<and> str_ok x s) \<and> (\<exists>x. str_copy v = Inr x \<and> str_ok x s) \<and>
    (\<exists>x. str_plus v w = Inr x \<and> str_ok x (s @ t)) \<and>
    (length s + 1 < 2 ^ 31 \<longrightarrow> (\<exists>x. sv_append_char v c = Inr x \<and> str_ok x (s @ [c]))) \<and>
    str_equals v w = Inr (s = t) \<and>
    str_equals_ignore_case v (Some (t @ [0])) = Inr (map to_lower s = map to_lower t) \<and>
    str_starts_with v w = Inr (\<exists>u. s = t @ u)"
proof -
  have len: "length s < 2 ^ 31" "length t < 2 ^ 31" using assms(1,2) by (simp_all add: str_ok_def)
  obtain e where e: "str_new [0] = Inr e" "str_ok e []" using str_new_ok [of "[]" "[]"] by auto
  obtain x where x: "sv_append e v = Inr x" "str_ok x s" using sv_append_ok [OF e(2) assms(1)] len by auto
  obtain y where y: "sv_append x w = Inr y" "str_ok y (s @ t)" using sv_append_ok [OF x(2) assms(2,5)] by auto
  have "(take (length t) s = t) = (\<exists>u. s = t @ u)" by (metis append_eq_conv_conj append_take_drop_id)
  then show ?thesis
    using str_new_ok [OF assms(3) len(1), of "[]"] str_copy_ok [OF assms(1)] e x y sv_append_char_ok [OF assms(1), of c]
      str_equals_ok [OF assms(1,2,4)] str_equals_ignore_case_ok [OF assms(1,4) len(2), of "[]"] str_starts_with_ok [OF assms(1,2)]
    by (auto simp: str_plus_def)
qed

lemma str_ok_literal: "length s < 2 ^ 31 \<Longrightarrow> str_ok \<lparr>sv_data = s @ [0], sv_length = of_nat (length s), sv_type = ASCII\<rparr> s"
  by (simp add: str_ok_def, rule unat_of_nat_small) simp

theorem string_refines_text_witness:
  "\<exists>x. str_plus \<lparr>sv_data = [72, 0], sv_length = 1, sv_type = ASCII\<rparr> \<lparr>sv_data = [105, 0], sv_length = 1, sv_type = ASCII\<rparr> = Inr x \<and>
    str_ok x [72, 105]"
  using string_refines_text [of "\<lparr>sv_data = [72, 0], sv_length = 1, sv_type = ASCII\<rparr>" "[72]"
      "\<lparr>sv_data = [105, 0], sv_length = 1, sv_type = ASCII\<rparr>" "[105]" 0]
  by (simp add: str_ok_def)

text \<open>
  C18. Splitting a text at a separator of one character returns its non-empty parts in
  order, except that a text that ends with the separator loses its last part: the path
  \<^verbatim>\<open>/a/b/\<close> has the parts of \<^verbatim>\<open>/a\<close> only.
\<close>

theorem split_correct:
  assumes "str_ok v s" "str_ok sep [c]"
  shows "str_split v sep = Inr (if s \<noteq> [] \<and> last s = c
    then filter (\<lambda>p. p \<noteq> []) (butlast (pieces c [] (butlast s))) else filter (\<lambda>p. p \<noteq> []) (pieces c [] s))"
  using str_split_ok [OF assms] by (simp add: split_spec_def)

theorem split_correct_witness:
  "str_split \<lparr>sv_data = [47, 97, 47, 98, 47, 0], sv_length = 5, sv_type = ASCII\<rparr> \<lparr>sv_data = [47, 0], sv_length = 1, sv_type = ASCII\<rparr>
    = Inr [[97]]"
  using split_correct [of "\<lparr>sv_data = [47, 97, 47, 98, 47, 0], sv_length = 5, sv_type = ASCII\<rparr>" "[47, 97, 47, 98, 47]"
      "\<lparr>sv_data = [47, 0], sv_length = 1, sv_type = ASCII\<rparr>" 47]
  by (simp add: str_ok_def)

end
