(* ===== verification/FileSystems.thy ===== *)
theory FileSystems
  imports FileTables Strings
begin

text \<open>
  \<^verbatim>\<open>Kernel/FileSystem/FileSystem.cpp\<close>, \<^verbatim>\<open>VirtualFileSystem.cpp\<close>, \<^verbatim>\<open>File.cpp\<close> and the RAM file
  system.  The virtual functions of \<^verbatim>\<open>Inode\<close> and \<^verbatim>\<open>FileSystem\<close> are records of functions, as
  a vtable is.  Paths are texts; their parts are what \<^verbatim>\<open>String::split\<close> returns
  (\<^verbatim>\<open>Strings.split_spec\<close>, which Strings proves of the code).
\<close>

section \<open>\<^verbatim>\<open>FileSystem::open\<close>\<close>

text \<open>\<^verbatim>\<open>v_list_dir\<close> gives the names of the directory entries.\<close>

record 'i inode_ops =
  v_is_directory :: "'i \<Rightarrow> bool"
  v_list_dir :: "'i \<Rightarrow> path list error_or"
  v_get_child :: "'i \<Rightarrow> path \<Rightarrow> 'i error_or"

definition slash :: u8 where
  "slash = 47"

text \<open>
  One part of the path: the inode of \<^verbatim>\<open>name\<close> below \<^verbatim>\<open>inode\<close> is taken from the table of open
  files or put there, and the entry is closed again unless \<^verbatim>\<open>inode\<close> is the root.
\<close>

definition fs_enter :: "'i inode_ops \<Rightarrow> 'i \<Rightarrow> 'i \<Rightarrow> path \<Rightarrow> path \<Rightarrow> 'i open_files \<Rightarrow> ('i error_or \<times> 'i open_files) run" where
  "fs_enter ops root_inode inode path_so_far name t =
     run_bind (of_has_descriptor t path_so_far) (\<lambda>has.
     run_bind (if has then
         run_bind (of_open t path_so_far) (\<lambda>(r, t).
           case r of Inl e \<Rightarrow> Some (Inr (Inl e, t))
           | Inr a \<Rightarrow> run_bind (Some (of_at t a)) (\<lambda>d.
               run_bind (Some (of_release t a)) (\<lambda>t. Some (Inr (Inr (od_inode d), t)))))
       else (case v_get_child ops inode name of Inl e \<Rightarrow> Some (Inr (Inl e, t))
         | Inr new_inode \<Rightarrow> run_bind (of_create_and_open t path_so_far new_inode) (\<lambda>(r, t).
             case r of Inl e \<Rightarrow> Some (Inr (Inr new_inode, t))
             | Inr a \<Rightarrow> run_bind (Some (of_release t a)) (\<lambda>t. Some (Inr (Inr new_inode, t)))))) (\<lambda>(r, t).
     case r of Inl e \<Rightarrow> Some (Inr (Inl e, t))
     | Inr new_inode \<Rightarrow>
         (if root_inode \<noteq> inode then run_bind (of_close t path_so_far) (\<lambda>(_, t). Some (Inr (Inr new_inode, t)))
          else Some (Inr (Inr new_inode, t)))))"

fun fs_walk :: "'i inode_ops \<Rightarrow> 'i \<Rightarrow> 'i \<Rightarrow> path \<Rightarrow> path list \<Rightarrow> 'i open_files \<Rightarrow> (unit error_or \<times> 'i open_files) run" where
  "fs_walk ops root_inode inode path_so_far [] t = Some (Inr (Inr (), t))"
| "fs_walk ops root_inode inode path_so_far (name # parts) t =
     (if \<not> v_is_directory ops inode then Some (Inr (Inl (create_from_string ''Not a directory''), t))
      else (case v_list_dir ops inode of Inl e \<Rightarrow> Some (Inr (Inl e, t))
        | Inr directory_entries \<Rightarrow>
            if name \<notin> set directory_entries then Some (Inr (Inl (create_from_string ''Path not found''), t))
            else (let path_so_far = path_so_far @ [slash] @ name in
              run_bind (fs_enter ops root_inode inode path_so_far name t) (\<lambda>(r, t).
                case r of Inl e \<Rightarrow> Some (Inr (Inl e, t))
                | Inr new_inode \<Rightarrow> fs_walk ops root_inode new_inode path_so_far parts t))))"

text \<open>\<^verbatim>\<open>root\<close> is the result of the virtual function \<^verbatim>\<open>root()\<close>.\<close>

definition fs_open :: "'i inode_ops \<Rightarrow> 'i error_or \<Rightarrow> path \<Rightarrow> 'i open_files \<Rightarrow> (nat error_or \<times> 'i open_files) run" where
  "fs_open ops root path t =
     run_bind (of_has_descriptor t path) (\<lambda>has.
       if has then of_open t path
       else (let path_parts = split_spec slash path in
         case root of Inl e \<Rightarrow> Some (Inr (Inl e, t))
         | Inr root_inode \<Rightarrow>
             if path_parts = [] then of_create_and_open t path root_inode
             else run_bind (fs_walk ops root_inode root_inode [] path_parts t) (\<lambda>(r, t).
               case r of Inl e \<Rightarrow> Some (Inr (Inl e, t)) | Inr _ \<Rightarrow> of_get_descriptor t path)))"

section \<open>\<^verbatim>\<open>VirtualFileSystem\<close>\<close>

text \<open>\<^verbatim>\<open>'f\<close> is a reference to a file system; a mount may hold a null one.\<close>

record 'f MountContext =
  mc_file_system :: "'f option"
  mc_mount_flags :: u64

record ('i, 'f) VirtualFileSystem =
  vfs_root_inode :: "'i option"
  vfs_mounts :: "(path, 'f MountContext) HashMap"

definition vfs_new :: "('i, 'f) VirtualFileSystem" where
  "vfs_new = \<lparr>vfs_root_inode = None, vfs_mounts = hm_new\<rparr>"

definition implicit_flags :: u64 where
  "implicit_flags = 0"

definition vfs_fs_mount :: "('i, 'f) VirtualFileSystem \<Rightarrow> path \<Rightarrow> 'f option \<Rightarrow> u64 \<Rightarrow> (unit error_or \<times> ('i, 'f) VirtualFileSystem) run" where
  "vfs_fs_mount vfs mount_point file_system mount_flags =
     run_bind (hm_has_key path_hash (vfs_mounts vfs) mount_point) (\<lambda>has.
       if has then Some (Inr (Inl (create_from_string ''A filesystem already mounted here!''), vfs))
       else run_bind (hm_set path_hash (vfs_mounts vfs) mount_point
           \<lparr>mc_file_system = file_system, mc_mount_flags = mount_flags\<rparr>) (\<lambda>m.
         Some (Inr (Inr (), vfs\<lparr>vfs_mounts := m\<rparr>))))"

definition vfs_mount :: "('i, 'f) VirtualFileSystem \<Rightarrow> path \<Rightarrow> 'f option \<Rightarrow> (unit error_or \<times> ('i, 'f) VirtualFileSystem) run" where
  "vfs_mount vfs mount_point file_system =
     run_bind (hm_has_key path_hash (vfs_mounts vfs) mount_point) (\<lambda>has.
       if has then Some (Inr (Inl (create_from_string ''A filesystem already mounted here!''), vfs))
       else run_bind (hm_set path_hash (vfs_mounts vfs) mount_point
           \<lparr>mc_file_system = file_system, mc_mount_flags = implicit_flags\<rparr>) (\<lambda>m.
         Some (Inr (Inr (), vfs\<lparr>vfs_mounts := m\<rparr>))))"

text \<open>\<^verbatim>\<open>root\<close> is the result of \<^verbatim>\<open>file_system->root()\<close>; the error of \<^verbatim>\<open>fs_mount\<close> is dropped.\<close>

definition vfs_mount_root_fs :: "('i, 'f) VirtualFileSystem \<Rightarrow> 'f \<Rightarrow> 'i error_or \<Rightarrow> (unit error_or \<times> ('i, 'f) VirtualFileSystem) run" where
  "vfs_mount_root_fs vfs file_system root =
     (case root of Inl e \<Rightarrow> Some (Inr (Inl e, vfs))
      | Inr inode \<Rightarrow>
          run_bind (vfs_fs_mount (vfs\<lparr>vfs_root_inode := Some inode\<rparr>) [slash] (Some file_system) implicit_flags) (\<lambda>(_, vfs).
          Some (Inr (Inr (), vfs))))"

text \<open>
  The inner loop of \<^verbatim>\<open>longest_common_prefix\<close> over the parts of the path and of the mount
  point from \<^verbatim>\<open>i\<close> on, on the file system and the length found so far.
\<close>

fun prefix_step :: "'f option \<Rightarrow> path list \<Rightarrow> path list \<Rightarrow> nat \<Rightarrow> 'f option \<times> nat \<Rightarrow> 'f option \<times> nat" where
  "prefix_step context_fs (p # path) (m # mount_parts) i (fs, longest) =
     (if p \<noteq> m then (fs, longest)
      else if i + 1 > longest then prefix_step context_fs path mount_parts (i + 1) (context_fs, i + 1)
      else prefix_step context_fs path mount_parts (i + 1) (fs, longest))"
| "prefix_step context_fs _ _ i acc = acc"

definition longest_common_prefix :: "('i \<Rightarrow> 'f option) \<Rightarrow> ('i, 'f) VirtualFileSystem \<Rightarrow> path list \<Rightarrow> ('f \<times> nat) error_or run" where
  "longest_common_prefix v_fs vfs path =
     (case vfs_root_inode vfs of None \<Rightarrow> Some (Inr (Inl (create_from_string ''No root filesystem mounted!'')))
      | Some root_inode \<Rightarrow>
          run_bind (hm_for_each (vfs_mounts vfs) (\<lambda>mount_point ctx acc.
              prefix_step (mc_file_system ctx) path (split_spec slash mount_point) 0 acc) (v_fs root_inode, 0)) (\<lambda>(fs, longest).
          case fs of None \<Rightarrow> Some (Inr (Inl (create_from_string ''No filesystem mounted at this path!'')))
          | Some fs \<Rightarrow> Some (Inr (Inr (fs, longest)))))"

text \<open>The path below the mount point, from part \<^verbatim>\<open>i\<close> on.\<close>

fun join_parts :: "path list \<Rightarrow> path" where
  "join_parts [] = []"
| "join_parts [p] = p"
| "join_parts (p # q # ps) = p @ [slash] @ join_parts (q # ps)"

definition relative_path :: "path list \<Rightarrow> nat \<Rightarrow> path" where
  "relative_path path_parts longest = slash # join_parts (drop longest path_parts)"

text \<open>\<^verbatim>\<open>'s\<close> is the state of the mounted file systems, on which their \<^verbatim>\<open>exists\<close> and \<^verbatim>\<open>open\<close> work.\<close>

record ('f, 's) fs_ops =
  v_exists :: "'f \<Rightarrow> path \<Rightarrow> 's \<Rightarrow> bool run"
  v_open :: "'f \<Rightarrow> path \<Rightarrow> FileOpenMode \<Rightarrow> 's \<Rightarrow> (nat error_or \<times> 's) run"

definition vfs_open :: "('f, 's) fs_ops \<Rightarrow> ('i \<Rightarrow> 'f option) \<Rightarrow> ('i, 'f) VirtualFileSystem \<Rightarrow> path \<Rightarrow> FileOpenMode \<Rightarrow> 's \<Rightarrow>
    (nat error_or \<times> 's) run" where
  "vfs_open ops v_fs vfs path mode s =
     (let path_parts = split_spec slash path in
      run_bind (longest_common_prefix v_fs vfs path_parts) (\<lambda>r.
        case r of Inl e \<Rightarrow> Some (Inr (Inl e, s))
        | Inr (fs, longest) \<Rightarrow>
            (let relative_path = relative_path path_parts longest in
             run_bind (v_exists ops fs relative_path s) (\<lambda>exists.
               if exists \<and> is_operation_mode mode Exclusive
               then Some (Inr (Inl (create_from_string ''Cannot open file in exclusive mode! File already exists!''), s))
               else v_open ops fs relative_path mode s))))"

definition vfs_list_directory :: "('i \<Rightarrow> path list error_or) \<Rightarrow> ('i, 'f) VirtualFileSystem \<Rightarrow> path list error_or exec" where
  "vfs_list_directory list_dir vfs = (case vfs_root_inode vfs of None \<Rightarrow> Inl NullDeref | Some root \<Rightarrow> Inr (list_dir root))"

section \<open>\<^verbatim>\<open>File\<close>\<close>

record File =
  f_descriptor :: nat
  f_offset :: size_t
  f_mode :: FileOpenMode

definition file_new :: "nat \<Rightarrow> FileOpenMode \<Rightarrow> File" where
  "file_new descriptor mode = \<lparr>f_descriptor = descriptor, f_offset = 0, f_mode = mode\<rparr>"

text \<open>\<^verbatim>\<open>inode_read\<close> is the \<^verbatim>\<open>read\<close> of the inode behind the descriptor.\<close>

definition file_read :: "(size_t \<Rightarrow> size_t \<Rightarrow> size_t Request error_or) \<Rightarrow> File \<Rightarrow> size_t \<Rightarrow> (size_t Request error_or \<times> File) exec" where
  "file_read inode_read file n =
     (let request = inode_read n (f_offset file) in
      case request of Inl e \<Rightarrow> Inr (request, file)
      | Inr value \<Rightarrow>
          if is_finalized value
          then exec_bind (release_value value) (\<lambda>v. Inr (request, file\<lparr>f_offset := f_offset file + v\<rparr>))
          else Inr (request, file))"

section \<open>The RAM file system\<close>

datatype ram_type = RamDirectory | RamFile | DeviceNode

text \<open>\<^verbatim>\<open>rn_fs\<close> is a pointer no operation ever sets; \<^verbatim>\<open>rn_device\<close> is the device of a \<^verbatim>\<open>DevInode\<close>.\<close>

record ('f, 'd) RamInode =
  rn_children :: "(path, nat) HashMap"
  rn_fs :: "'f option"
  rn_type :: ram_type
  rn_device :: "'d option"

definition ram_inode_new :: "ram_type \<Rightarrow> ('f, 'd) RamInode" where
  "ram_inode_new t = \<lparr>rn_children = hm_new, rn_fs = None, rn_type = t, rn_device = None\<rparr>"

definition ram_create_directory :: "('f, 'd) RamInode" where
  "ram_create_directory = ram_inode_new RamDirectory"

definition dev_inode_new :: "'d \<Rightarrow> ('f, 'd) RamInode" where
  "dev_inode_new device = (ram_inode_new DeviceNode)\<lparr>rn_device := Some device\<rparr>"

definition ram_get_child :: "('f, 'd) RamInode \<Rightarrow> path \<Rightarrow> nat error_or run" where
  "ram_get_child inode name = hm_get path_hash (rn_children inode) name"

definition ram_list_dir :: "('f, 'd) RamInode \<Rightarrow> path list run" where
  "ram_list_dir inode = hm_for_each (rn_children inode) (\<lambda>name _ entries. entries @ [name]) []"

definition ram_is_directory :: "('f, 'd) RamInode \<Rightarrow> bool" where
  "ram_is_directory inode = (if rn_device inode \<noteq> None then False else rn_type inode = RamDirectory)"

definition ram_is_file :: "('f, 'd) RamInode \<Rightarrow> bool" where
  "ram_is_file inode = (if rn_device inode \<noteq> None then True else rn_type inode = RamFile)"

definition ram_read :: "size_t Request error_or" where
  "ram_read = Inl (create_from_string ''Not implemented!'')"

text \<open>
  \<^verbatim>\<open>DevInode::read\<close> of a console: the line \<^verbatim>\<open>read_async\<close> delivers, with its terminator, as
  far as the buffer goes.  Returned are the bytes copied to the user's buffer and the request.
\<close>

definition dev_read :: "bool \<Rightarrow> StringValue Request error_or \<Rightarrow> size_t \<Rightarrow> (cstr \<times> size_t Request error_or) exec" where
  "dev_read is_console console_read n =
     (if is_console then
        (case console_read of Inl e \<Rightarrow> Inr ([], Inl e)
         | Inr device_request \<Rightarrow>
             if is_blocked device_request then Inr ([], Inr (propagate_blocked device_request))
             else exec_bind (release_value device_request) (\<lambda>line.
               let to_copy = min n (sv_length line + 1); k = unat (ucast to_copy :: u32) in
               if k \<le> length (sv_data line) then Inr (take k (sv_data line), Inr (create_finalized to_copy))
               else Inl OutOfBounds))
      else Inr ([], Inl (create_from_string ''Not implemented!'')))"

text \<open>\<^verbatim>\<open>RamFileSystem\<close>: its root, and \<^verbatim>\<open>exists\<close>, which looks the whole path up as one name.\<close>

definition ramfs_root :: "nat option \<Rightarrow> nat error_or" where
  "ramfs_root m_root = (case m_root of None \<Rightarrow> Inl (create_from_string ''Root inode not found!'') | Some r \<Rightarrow> Inr r)"

definition ramfs_exists :: "('f, 'd) RamInode \<Rightarrow> path \<Rightarrow> bool run" where
  "ramfs_exists root path = run_bind (ram_get_child root path) (\<lambda>r. Some (Inr (case r of Inl _ \<Rightarrow> False | Inr _ \<Rightarrow> True)))"

section \<open>Opening below a file system\<close>

text \<open>The map behind the table of open files: bucket numbers to paths and descriptors.\<close>

definition of_rel :: "'i open_files \<Rightarrow> (nat \<Rightarrow> (path \<times> nat) option) \<Rightarrow> bool" where
  "of_rel t b \<longleftrightarrow> hm_rel (of_descriptors t) b \<and>
     (\<forall>i < unat DefaultSize. \<forall>p a. b i = Some (p, a) \<longrightarrow> (\<exists>d. of_store t a = Some d))"

abbreviation path_slot :: "path \<Rightarrow> nat" where
  "path_slot p \<equiv> hm_index path_hash p"

lemma of_rel_has:
  "of_rel t b \<Longrightarrow> of_has_descriptor t p = Some (Inr (case b (path_slot p) of Some (k, v) \<Rightarrow> k = p | None \<Rightarrow> False))"
  by (simp add: of_rel_def of_has_descriptor_def hm_has_rel)

lemma of_rel_get:
  "of_rel t b \<Longrightarrow> b (path_slot p) = Some (p, a) \<Longrightarrow> hm_get path_hash (of_descriptors t) p = Some (Inr (Inr a))"
  using hm_get_rel [of "of_descriptors t" b path_hash p] by (simp add: of_rel_def)

lemma of_rel_store:
  assumes "of_rel t b" "b (path_slot p) = Some (p, a)"
  obtains d where "of_store t a = Some d"
proof -
  have "\<exists>d. of_store t a = Some d" using assms hm_index_less [of path_hash p] unfolding of_rel_def by blast
  then show thesis using that by blast
qed

lemma of_rel_put: "of_rel t b \<Longrightarrow> of_rel (of_put t a d) b"
  by (auto simp: of_rel_def of_put_def)

text \<open>
  Closing an open path always fails its own assertion: the map, the looked up result and the
  local variable make at least three references.
\<close>

lemma of_close_open:
  assumes "of_rel t b" "b (path_slot p) = Some (p, a)"
  shows "of_close t p = Some (Inl (AssertFailed ''OpenFileDescriptor still has references''))"
proof -
  obtain d where d: "of_store t a = Some d" by (rule of_rel_store [OF assms])
  obtain last d' where od: "od_close (d\<lparr>od_refs := od_refs d + 2\<rparr>) = (last, d')" by (cases "od_close (d\<lparr>od_refs := od_refs d + 2\<rparr>)")
  have d': "od_refs d' = od_refs d + 2" using od by (auto simp: od_close_def)
  have "of_rel (of_put t a d') b" by (rule of_rel_put [OF assms(1)])
  then have "hm_remove path_hash (of_descriptors (of_put t a d')) p = Some (Inr (of_descriptors (of_put t a d')))"
    using hm_remove_rel [of "of_descriptors (of_put t a d')" b path_hash p] assms(2) by (simp add: of_rel_def)
  then show ?thesis
    using of_rel_has [OF assms(1), of p] of_rel_get [OF assms] assms(2) d od d'
    by (cases last) (simp_all add: of_close_def of_at_def of_put_def)
qed

lemma of_create_ok:
  assumes "of_rel t b" "b (path_slot p) = None"
  shows "\<exists>t'. of_create_and_open t p i = Some (Inr (Inr (of_brk t), t')) \<and> of_rel t' (b(path_slot p \<mapsto> (p, of_brk t))) \<and>
     of_store t' = (of_store t)(of_brk t \<mapsto> \<lparr>od_inode = i, od_openers = 1, od_refs = 2\<rparr>) \<and> of_brk t' = Suc (of_brk t)"
proof -
  obtain m where "hm_set path_hash (of_descriptors t) p (of_brk t) = Some (Inr m)" "hm_rel m (b(path_slot p \<mapsto> (p, of_brk t)))"
    using hm_set_empty [of "of_descriptors t" b path_hash p "of_brk t"] assms by (auto simp: of_rel_def)
  then show ?thesis using assms(1) by (simp add: of_create_and_open_def of_put_def od_open_def of_rel_def Let_def)
qed

lemma fs_enter_create:
  assumes "of_rel t b" "b (path_slot p) = None" "v_get_child ops i name = Inr child"
  shows "root = i \<Longrightarrow> \<exists>t'. fs_enter ops root i p name t = Some (Inr (Inr child, t')) \<and> of_rel t' (b(path_slot p \<mapsto> (p, of_brk t))) \<and>
      of_store t' (of_brk t) = Some \<lparr>od_inode = child, od_openers = 1, od_refs = 1\<rparr>"
    and "root \<noteq> i \<Longrightarrow> fs_enter ops root i p name t = Some (Inl (AssertFailed ''OpenFileDescriptor still has references''))"
proof -
  obtain t' where t': "of_create_and_open t p child = Some (Inr (Inr (of_brk t), t'))" "of_rel t' (b(path_slot p \<mapsto> (p, of_brk t)))"
      "of_store t' = (of_store t)(of_brk t \<mapsto> \<lparr>od_inode = child, od_openers = 1, od_refs = 2\<rparr>)"
    using of_create_ok [OF assms(1,2)] by blast
  let ?t = "of_put t' (of_brk t) \<lparr>od_inode = child, od_openers = 1, od_refs = 1\<rparr>"
  have r: "of_release t' (of_brk t) = Inr ?t" using t'(3) by (simp add: of_release_def of_at_def)
  have rel: "of_rel ?t (b(path_slot p \<mapsto> (p, of_brk t)))" by (rule of_rel_put [OF t'(2)])
  note has = of_rel_has [OF assms(1), of p]
  show "\<exists>t'. fs_enter ops root i p name t = Some (Inr (Inr child, t')) \<and> of_rel t' (b(path_slot p \<mapsto> (p, of_brk t))) \<and>
      of_store t' (of_brk t) = Some \<lparr>od_inode = child, od_openers = 1, od_refs = 1\<rparr>" if "root = i"
    using has assms(2,3) t'(1) r rel that by (intro exI [of _ ?t]) (simp add: fs_enter_def, simp add: of_put_def)
  show "fs_enter ops root i p name t = Some (Inl (AssertFailed ''OpenFileDescriptor still has references''))" if "root \<noteq> i"
    using has assms(2,3) t'(1) r of_close_open [OF rel, of p "of_brk t"] that by (simp add: fs_enter_def)
qed

lemma pieces_none: "c \<notin> set xs \<Longrightarrow> pieces c cur xs = [cur @ xs]"
  by (induction c cur xs rule: pieces.induct) auto

lemma pieces_sep: "pieces c cur (xs @ c # ys) = pieces c cur xs @ pieces c [] ys"
  by (induction c cur xs rule: pieces.induct) auto

lemma split_spec_parts:
  assumes "n \<noteq> []" "slash \<notin> set n"
  shows "split_spec slash [slash] = []" "split_spec slash (slash # n) = [n]"
    and "m \<noteq> [] \<Longrightarrow> slash \<notin> set m \<Longrightarrow> split_spec slash (slash # n @ slash # m) = [n, m]"
proof -
  have lst: "last n \<noteq> slash" "m \<noteq> [] \<Longrightarrow> slash \<notin> set m \<Longrightarrow> last m \<noteq> slash" using assms last_in_set by metis+
  show "split_spec slash [slash] = []" by (simp add: split_spec_def)
  show "split_spec slash (slash # n) = [n]" using assms lst(1) by (simp add: split_spec_def pieces_none)
  show "split_spec slash (slash # n @ slash # m) = [n, m]" if "m \<noteq> []" "slash \<notin> set m"
    using assms lst(2) that by (simp add: split_spec_def pieces_none pieces_sep)
qed

definition fresh_open :: "'i open_files \<Rightarrow> bool" where
  "fresh_open t = of_rel t (\<lambda>_. None)"

lemma fs_open_root:
  assumes "fresh_open t"
  shows "\<exists>a t'. fs_open ops (Inr root) [slash] t = Some (Inr (Inr a, t')) \<and>
    of_store t' a = Some \<lparr>od_inode = root, od_openers = 1, od_refs = 2\<rparr>"
proof -
  have t: "of_rel t (\<lambda>_. None)" using assms by (simp add: fresh_open_def)
  obtain t' where "of_create_and_open t [slash] root = Some (Inr (Inr (of_brk t), t'))"
      "of_store t' = (of_store t)(of_brk t \<mapsto> \<lparr>od_inode = root, od_openers = 1, od_refs = 2\<rparr>)"
    using of_create_ok [OF t, of "[slash]" root] by auto
  then show ?thesis using of_rel_has [OF t, of "[slash]"] by (simp add: fs_open_def split_spec_def)
qed

lemma fs_open_one:
  assumes "fresh_open t" "n \<noteq> []" "slash \<notin> set n" "v_is_directory ops root"
    "v_list_dir ops root = Inr names" "n \<in> set names" "v_get_child ops root n = Inr child"
  shows "\<exists>a t'. fs_open ops (Inr root) (slash # n) t = Some (Inr (Inr a, t')) \<and>
    of_store t' a = Some \<lparr>od_inode = child, od_openers = 1, od_refs = 2\<rparr>"
proof -
  have t: "of_rel t (\<lambda>_. None)" using assms(1) by (simp add: fresh_open_def)
  let ?p = "slash # n"
  let ?b = "[path_slot ?p \<mapsto> (?p, of_brk t)]"
  obtain t' where t': "fs_enter ops root root ?p n t = Some (Inr (Inr child, t'))" "of_rel t' ?b"
      "of_store t' (of_brk t) = Some \<lparr>od_inode = child, od_openers = 1, od_refs = 1\<rparr>"
    using fs_enter_create(1) [OF t, where p = ?p and ops = ops and i = root and name = n and child = child and root = root] assms(7) by auto
  have g: "of_get_descriptor t' ?p = Some (Inr (Inr (of_brk t),
      of_put t' (of_brk t) \<lparr>od_inode = child, od_openers = 1, od_refs = 2\<rparr>))"
    using of_rel_has [OF t'(2), of ?p] of_rel_get [OF t'(2), of ?p "of_brk t"] t'(3)
    by (simp add: of_get_descriptor_def of_at_def numeral_2_eq_2)
  have "fs_open ops (Inr root) ?p t = Some (Inr (Inr (of_brk t),
      of_put t' (of_brk t) \<lparr>od_inode = child, od_openers = 1, od_refs = 2\<rparr>))"
    using of_rel_has [OF t, of ?p] split_spec_parts(2) [OF assms(2,3)] assms(4-6) t'(1) g by (simp add: fs_open_def)
  then show ?thesis by (auto simp: of_put_def)
qed

lemma fs_open_two:
  assumes "fresh_open t" "n \<noteq> []" "slash \<notin> set n" "v_is_directory ops root"
    "v_list_dir ops root = Inr names" "n \<in> set names" "v_get_child ops root n = Inr child"
    "m \<noteq> []" "slash \<notin> set m" "v_is_directory ops child" "v_list_dir ops child = Inr names'" "m \<in> set names'"
    "v_get_child ops child m = Inr grandchild" "root \<noteq> child"
  shows "fs_open ops (Inr root) (slash # n @ slash # m) t =
    Some (Inl (if path_slot (slash # n @ slash # m) = path_slot (slash # n) then NullDeref
      else AssertFailed ''OpenFileDescriptor still has references''))"
proof -
  have t: "of_rel t (\<lambda>_. None)" using assms(1) by (simp add: fresh_open_def)
  let ?p = "slash # n" and ?q = "slash # n @ slash # m"
  let ?b = "[path_slot ?p \<mapsto> (?p, of_brk t)]"
  obtain t' where t': "fs_enter ops root root ?p n t = Some (Inr (Inr child, t'))" "of_rel t' ?b"
    using fs_enter_create(1) [OF t, where p = ?p and ops = ops and i = root and name = n and child = child and root = root] assms(7) by auto
  have second: "fs_enter ops root child ?q m t' =
    Some (Inl (if path_slot ?q = path_slot ?p then NullDeref else AssertFailed ''OpenFileDescriptor still has references''))"
  proof (cases "path_slot ?q = path_slot ?p")
    case True
    have has: "of_has_descriptor t' ?q = Some (Inr False)" using of_rel_has [OF t'(2), of ?q] True by simp
    have "hm_rel (of_descriptors t') ?b" using t'(2) by (simp add: of_rel_def)
    then have "hm_set path_hash (of_descriptors t') ?q (of_brk t') = Some (Inl NullDeref)"
      using hm_set_occupied [of "of_descriptors t'" ?b path_hash ?q] True by simp
    then have "of_create_and_open t' ?q grandchild = Some (Inl NullDeref)"
      by (simp add: of_create_and_open_def of_put_def Let_def)
    then show ?thesis using has assms(13) True by (simp add: fs_enter_def)
  next
    case False
    then show ?thesis using fs_enter_create(2) [OF t'(2), of ?q ops child m grandchild root] assms(13,14) by simp
  qed
  show ?thesis
    using of_rel_has [OF t, of ?q] split_spec_parts(3) [OF assms(2,3,8,9)] assms(4-6,10-12) t'(1) second by (simp add: fs_open_def)
qed

text \<open>
  Opening in a file system with no open files: the root and an entry of the root are
  opened once, with one reference for the table and one for the caller.  A path of two
  parts never gets that far: entering the second directory closes the entry just made,
  and \<^verbatim>\<open>close\<close> asserts a reference count that its own variables already exceed (or, when
  the two paths share a bucket, the hash map dereferences a null entry first).
\<close>

theorem fs_open_depth:
  assumes "fresh_open t" "n \<noteq> []" "slash \<notin> set n" "v_is_directory ops root"
    "v_list_dir ops root = Inr names" "n \<in> set names" "v_get_child ops root n = Inr child"
    "m \<noteq> []" "slash \<notin> set m" "v_is_directory ops child" "v_list_dir ops child = Inr names'" "m \<in> set names'"
    "v_get_child ops child m = Inr grandchild" "root \<noteq> child"
  shows "(\<exists>a t'. fs_open ops (Inr root) [slash] t = Some (Inr (Inr a, t')) \<and>
      of_store t' a = Some \<lparr>od_inode = root, od_openers = 1, od_refs = 2\<rparr>) \<and>
    (\<exists>a t'. fs_open ops (Inr root) (slash # n) t = Some (Inr (Inr a, t')) \<and>
      of_store t' a = Some \<lparr>od_inode = child, od_openers = 1, od_refs = 2\<rparr>) \<and>
    fs_open ops (Inr root) (slash # n @ slash # m) t =
      Some (Inl (if path_slot (slash # n @ slash # m) = path_slot (slash # n) then NullDeref
        else AssertFailed ''OpenFileDescriptor still has references''))"
  using fs_open_root [OF assms(1)] fs_open_one [OF assms(1-7)] fs_open_two [OF assms] by blast

lemma fresh_open_new: "fresh_open of_new"
  by (simp add: fresh_open_def of_rel_def of_new_def hm_new_rel)

definition sample_tree :: "nat inode_ops" where
  "sample_tree = \<lparr>v_is_directory = (\<lambda>i. True), v_list_dir = (\<lambda>i. Inr [[97]]), v_get_child = (\<lambda>i _. Inr (Suc i))\<rparr>"

theorem fs_open_depth_witness:
  "\<exists>a t'. fs_open sample_tree (Inr 0) [slash, 97] of_new = Some (Inr (Inr a, t')) \<and>
     of_store t' a = Some \<lparr>od_inode = 1, od_openers = 1, od_refs = 2\<rparr>"
  using fs_open_depth [OF fresh_open_new, of "[97]" sample_tree 0 "[[97]]" 1 "[97]" "[[97]]" 2]
  by (simp add: sample_tree_def slash_def)

section \<open>Which mount serves a path\<close>

fun common_prefix :: "path list \<Rightarrow> path list \<Rightarrow> nat" where
  "common_prefix (p # ps) (q # qs) = (if p = q then Suc (common_prefix ps qs) else 0)"
| "common_prefix _ _ = 0"

lemma prefix_step_common:
  "i \<le> longest \<Longrightarrow> prefix_step c path parts i (fs, longest) =
     (if i + common_prefix path parts > longest then (c, i + common_prefix path parts) else (fs, longest))"
  by (induction c path parts i "(fs, longest)" arbitrary: fs longest rule: prefix_step.induct) auto

text \<open>The mounts in the order \<^verbatim>\<open>for_each\<close> visits them.\<close>

definition mounts_of :: "(nat \<Rightarrow> (path \<times> 'f MountContext) option) \<Rightarrow> (path \<times> 'f MountContext) list" where
  "mounts_of b = map the (filter (\<lambda>e. e \<noteq> None) (map b [0..<unat DefaultSize]))"

lemma hm_visit_bucket:
  assumes "hm_rel m b" "i < unat DefaultSize"
  shows "(case hm_bucket m i of Inl f \<Rightarrow> Some (Inl f) | Inr entry \<Rightarrow> hm_visit_chain m cb entry s) =
    Some (Inr (case b i of None \<Rightarrow> s | Some (k, v) \<Rightarrow> cb k v s))"
proof (cases "b i")
  case None
  then show ?thesis using hm_bucket_rel [OF assms] hm_rel_None [OF assms None] by (simp add: hm_visit_chain.simps)
next
  case (Some kv)
  then obtain a where a: "m_entries m ! i = Some a" "hm_nodes m a = Some \<lparr>entry_key = fst kv, entry_value = snd kv, entry_next = None\<rparr>"
    using hm_rel_Some [OF assms, of "fst kv" "snd kv"] by auto
  then show ?thesis using hm_bucket_rel [OF assms] Some
    by (subst hm_visit_chain.simps) (simp add: hm_entry_def hm_visit_chain.simps [of m cb None] split: prod.split)
qed

lemma hm_for_each_rel:
  assumes "hm_rel m b"
  shows "hm_for_each m cb s = Some (Inr (fold (\<lambda>(k, v). cb k v) (mounts_of b) s))"
proof -
  have "fold (\<lambda>i r. case r of Some (Inr s) \<Rightarrow>
         (case hm_bucket m i of Inl f \<Rightarrow> Some (Inl f) | Inr entry \<Rightarrow> hm_visit_chain m cb entry s)
       | _ \<Rightarrow> r) ks (Some (Inr s)) =
      Some (Inr (fold (\<lambda>(k, v). cb k v) (map the (filter (\<lambda>e. e \<noteq> None) (map b ks))) s))"
    if "set ks \<subseteq> {..<unat DefaultSize}" for ks
    using that
  proof (induction ks arbitrary: s)
    case (Cons k ks)
    then show ?case using hm_visit_bucket [OF assms, of k cb s] by (auto split: option.split)
  qed simp
  then show ?thesis by (simp add: hm_for_each_def mounts_of_def lessThan_atLeast0)
qed

definition best_mount :: "'f option \<Rightarrow> path list \<Rightarrow> (path \<times> 'f MountContext) list \<Rightarrow> 'f option \<times> nat" where
  "best_mount root_fs path ms = fold (\<lambda>(mount_point, ctx) acc.
     prefix_step (mc_file_system ctx) path (split_spec slash mount_point) 0 acc) ms (root_fs, 0)"

lemma best_mount_max:
  "best_mount root_fs path ms = (fs, n) \<Longrightarrow>
   (\<forall>(mp, ctx) \<in> set ms. common_prefix path (split_spec slash mp) \<le> n) \<and>
   (if n = 0 then fs = root_fs
    else \<exists>(mp, ctx) \<in> set ms. common_prefix path (split_spec slash mp) = n \<and> fs = mc_file_system ctx)"
proof (induction ms arbitrary: fs n rule: rev_induct)
  case (snoc x ms)
  obtain mp ctx where x: "x = (mp, ctx)" by (cases x)
  obtain fs0 n0 where best: "best_mount root_fs path ms = (fs0, n0)" by (cases "best_mount root_fs path ms")
  have "(fs, n) = (if common_prefix path (split_spec slash mp) > n0 then (mc_file_system ctx, common_prefix path (split_spec slash mp)) else (fs0, n0))"
    using snoc.prems best prefix_step_common [of 0 n0 "mc_file_system ctx" path "split_spec slash mp" fs0] x
    by (simp add: best_mount_def cong: if_cong)
  then show ?case using snoc.IH [OF best] x by (auto split: if_splits)
qed (simp add: best_mount_def)

lemma longest_common_prefix_best:
  assumes "hm_rel (vfs_mounts vfs) b" "vfs_root_inode vfs = Some root"
  shows "longest_common_prefix v_fs vfs path = Some (Inr (case best_mount (v_fs root) path (mounts_of b) of
    (None, n) \<Rightarrow> Inl (create_from_string ''No filesystem mounted at this path!'') | (Some fs, n) \<Rightarrow> Inr (fs, n)))"
proof -
  obtain fs n where best: "best_mount (v_fs root) path (mounts_of b) = (fs, n)" by (cases "best_mount (v_fs root) path (mounts_of b)")
  then have "hm_for_each (vfs_mounts vfs) (\<lambda>mount_point ctx acc.
      prefix_step (mc_file_system ctx) path (split_spec slash mount_point) 0 acc) (v_fs root, 0) = Some (Inr (fs, n))"
    unfolding best_mount_def by (subst hm_for_each_rel [OF assms(1)]) simp
  then show ?thesis using best assms(2) by (cases fs) (simp_all add: longest_common_prefix_def)
qed

text \<open>
  C22. The virtual file system sends a path to the mount point that shares most leading
  parts with it, and strips that many parts; with no part in common the root inode's file
  system serves it, and it is an error when that has none.  The mount point need not be a
  prefix of the path: a mount at \<^verbatim>\<open>/a/b\<close> also takes the path \<^verbatim>\<open>/a/c\<close>, as \<^verbatim>\<open>/c\<close>.
\<close>

theorem vfs_resolution:
  assumes "hm_rel (vfs_mounts vfs) b" "vfs_root_inode vfs = Some root"
  shows "\<exists>fs n. best_mount (v_fs root) (split_spec slash path) (mounts_of b) = (fs, n) \<and>
    (\<forall>(mp, ctx) \<in> set (mounts_of b). common_prefix (split_spec slash path) (split_spec slash mp) \<le> n) \<and>
    (if n = 0 then fs = v_fs root
     else \<exists>(mp, ctx) \<in> set (mounts_of b). common_prefix (split_spec slash path) (split_spec slash mp) = n \<and> fs = mc_file_system ctx) \<and>
    vfs_open ops v_fs vfs path mode s = (case fs of
      None \<Rightarrow> Some (Inr (Inl (create_from_string ''No filesystem mounted at this path!''), s))
    | Some f \<Rightarrow> (let relative_path = relative_path (split_spec slash path) n in
        run_bind (v_exists ops f relative_path s) (\<lambda>exists.
          if exists \<and> is_operation_mode mode Exclusive
          then Some (Inr (Inl (create_from_string ''Cannot open file in exclusive mode! File already exists!''), s))
          else v_open ops f relative_path mode s)))"
proof -
  obtain fs n where best: "best_mount (v_fs root) (split_spec slash path) (mounts_of b) = (fs, n)"
    by (cases "best_mount (v_fs root) (split_spec slash path) (mounts_of b)")
  have opened: "vfs_open ops v_fs vfs path mode s = (case fs of
      None \<Rightarrow> Some (Inr (Inl (create_from_string ''No filesystem mounted at this path!''), s))
    | Some f \<Rightarrow> (let relative_path = relative_path (split_spec slash path) n in
        run_bind (v_exists ops f relative_path s) (\<lambda>exists.
          if exists \<and> is_operation_mode mode Exclusive
          then Some (Inr (Inl (create_from_string ''Cannot open file in exclusive mode! File already exists!''), s))
          else v_open ops f relative_path mode s)))"
    using longest_common_prefix_best [OF assms, of v_fs "split_spec slash path"] best
    by (cases fs) (simp_all add: vfs_open_def)
  show ?thesis by (intro exI conjI) (rule best, use best_mount_max [OF best] opened in simp_all)
qed

lemma mounts_of_set: "set (mounts_of b) = {e. \<exists>i < unat DefaultSize. b i = Some e}"
proof (intro set_eqI iffI)
  fix e assume "e \<in> {e. \<exists>i < unat DefaultSize. b i = Some e}"
  then obtain i where "i < unat DefaultSize" "b i = Some e" by blast
  then have "Some e \<in> set (filter (\<lambda>e. e \<noteq> None) (map b [0..<unat DefaultSize]))" by (auto intro: rev_image_eqI)
  then have "the (Some e) \<in> set (mounts_of b)" unfolding mounts_of_def set_map by (rule imageI)
  then show "e \<in> set (mounts_of b)" by simp
qed (auto simp: mounts_of_def)

lemma mounts_of_single: "i < unat DefaultSize \<Longrightarrow> set (mounts_of [i \<mapsto> x]) = {x}"
  by (auto simp: mounts_of_set split: if_splits)

definition sample_fs_ops :: "(nat, unit) fs_ops" where
  "sample_fs_ops = \<lparr>v_exists = (\<lambda>f p s. Some (Inr False)),
     v_open = (\<lambda>f p mode s. if f = 1 \<and> p = [slash, 99] then Some (Inr (Inr 7, s)) else None)\<rparr>"

theorem vfs_resolution_witness:
  "\<exists>vfs :: (nat, nat) VirtualFileSystem. vfs_open sample_fs_ops (\<lambda>i. None) vfs [slash, 97, slash, 99] 0 () = Some (Inr (Inr 7, ()))"
proof -
  let ?mp = "[slash, 97, slash, 98] :: path"
  let ?c = "\<lparr>mc_file_system = Some (1 :: nat), mc_mount_flags = 0\<rparr>"
  obtain m where m: "hm_rel m [path_slot ?mp \<mapsto> (?mp, ?c)]"
    using hm_set_empty [OF hm_new_rel, of path_hash ?mp ?c] by auto
  have sp: "split_spec slash ?mp = [[97], [98]]" "split_spec slash [slash, 97, slash, 99] = [[97], [99]]"
    by (simp_all add: split_spec_def slash_def)
  have cp: "common_prefix [[97], [99 :: u8]] [[97], [98]] = 1" by simp
  let ?vfs = "\<lparr>vfs_root_inode = Some (0 :: nat), vfs_mounts = m\<rparr>"
  have rel: "hm_rel (vfs_mounts ?vfs) [path_slot ?mp \<mapsto> (?mp, ?c)]" "vfs_root_inode ?vfs = Some 0" using m by simp_all
  have "vfs_open sample_fs_ops (\<lambda>i. None) ?vfs [slash, 97, slash, 99] 0 () = Some (Inr (Inr 7, ()))"
    using vfs_resolution [OF rel, of "\<lambda>i. None" "[slash, 97, slash, 99]" sample_fs_ops 0 "()"] cp
      mounts_of_single [OF hm_index_less, of path_hash ?mp "(?mp, ?c)"]
    unfolding sp by (auto simp: sp relative_path_def sample_fs_ops_def split: if_splits)
  then show ?thesis by blast
qed

end
