(* ===== verification/ByteViews.thy ===== *)
theory ByteViews
  imports PhysMem Strings
begin

text \<open>
  Reading structures out of bytes, as the parsers of on-disk and in-memory formats do: the fields
  of a packed little-endian structure, and a zero-terminated string at an address.
\<close>

definition field :: "nat \<Rightarrow> nat \<Rightarrow> u8 list \<Rightarrow> 'a::len word" where
  "field off n bs = le_word (take n (drop off bs))"

definition byte_field :: "nat \<Rightarrow> nat \<Rightarrow> u8 list \<Rightarrow> u8 list" where
  "byte_field off n bs = take n (drop off bs)"

text \<open>\<^verbatim>\<open>String(const char*)\<close> looks for the zero byte.\<close>

partial_function (option) mem_cstr :: "pmem \<Rightarrow> u64 \<Rightarrow> cstr option" where
  "mem_cstr m a = (if m a = 0 then Some [] else Option.bind (mem_cstr m (a + 1)) (\<lambda>s. Some (m a # s)))"

lemma read_bytes_Suc: "read_bytes m a (Suc n) = m a # read_bytes m (a + 1) n"
  unfolding read_bytes_def map_upt_Suc by (simp add: algebra_simps)

text \<open>The memory whose first bytes are \<^verbatim>\<open>bs\<close>, for examples.\<close>

definition list_memory :: "u8 list \<Rightarrow> pmem" where
  "list_memory bs a = (if unat a < length bs then bs ! unat a else 0)"

lemma read_bytes_list_memory:
  assumes "k + n \<le> length bs" "length bs < 2 ^ 64"
  shows "read_bytes (list_memory bs) (of_nat k) n = take n (drop k bs)"
proof (rule nth_equalityI)
  fix i assume "i < length (read_bytes (list_memory bs) (of_nat k) n)"
  then have i: "i < n" by (simp add: read_bytes_def)
  then have "unat (of_nat (k + i) :: u64) = k + i" using assms by (intro unat_of_nat_small) simp
  then show "read_bytes (list_memory bs) (of_nat k) n ! i = take n (drop k bs) ! i"
    using i assms by (simp add: read_bytes_def list_memory_def)
qed (use assms in \<open>simp add: read_bytes_def\<close>)

end
