(* ===== verification/DeviceTrees.thy ===== *)
theory DeviceTrees
  imports Endian ByteViews
begin

text \<open>
  \<^verbatim>\<open>Kernel/Firmware/FDT\<close> and \<^verbatim>\<open>Firmware/DeviceTree.cpp\<close>: reading the flattened device tree
  the firmware leaves in memory, and looking nodes up in the parsed tree.  Memory is the
  function from addresses to bytes, pointers are addresses, and strings are texts.
  \<^verbatim>\<open>node_at\<close> says which tree a region of memory encodes.
\<close>

section \<open>\<^verbatim>\<open>FDT.h\<close>\<close>

text \<open>\<^verbatim>\<open>*field\<close> of an \<^verbatim>\<open>Endian<u32, Big>\<close> or \<^verbatim>\<open>Endian<u64, Big>\<close> at address \<^verbatim>\<open>a\<close>.\<close>

definition be32 :: "pmem \<Rightarrow> u64 \<Rightarrow> u32" where
  "be32 m a = in_system_endian BigEndian \<lparr>e_raw = le_word (read_bytes m a 4)\<rparr>"

definition be64 :: "pmem \<Rightarrow> u64 \<Rightarrow> u64" where
  "be64 m a = in_system_endian BigEndian \<lparr>e_raw = le_word (read_bytes m a 8)\<rparr>"

record FDTHeader =
  h_magic :: u32
  h_totalsize :: u32
  h_off_dt_struct :: u32
  h_off_dt_strings :: u32
  h_off_mem_rsvmap :: u32
  h_version :: u32
  h_last_comp_version :: u32
  h_boot_cpuid_phys :: u32
  h_size_dt_strings :: u32
  h_size_dt_struct :: u32

definition fdt_header :: "pmem \<Rightarrow> u64 \<Rightarrow> FDTHeader" where
  "fdt_header m h = \<lparr>h_magic = be32 m h, h_totalsize = be32 m (h + 4), h_off_dt_struct = be32 m (h + 8),
     h_off_dt_strings = be32 m (h + 12), h_off_mem_rsvmap = be32 m (h + 16), h_version = be32 m (h + 20),
     h_last_comp_version = be32 m (h + 24), h_boot_cpuid_phys = be32 m (h + 28), h_size_dt_strings = be32 m (h + 32),
     h_size_dt_struct = be32 m (h + 36)\<rparr>"

record FDTReserveEntry =
  re_address :: u64
  re_size :: u64

definition reserve_entry :: "pmem \<Rightarrow> u64 \<Rightarrow> FDTReserveEntry" where
  "reserve_entry m a = \<lparr>re_address = be64 m a, re_size = be64 m (a + 8)\<rparr>"

record FDTProp =
  pr_len :: u32
  pr_name_offset :: u32

definition fdt_prop :: "pmem \<Rightarrow> u64 \<Rightarrow> FDTProp" where
  "fdt_prop m a = \<lparr>pr_len = be32 m a, pr_name_offset = be32 m (a + 4)\<rparr>"

definition FDT_BEGIN_NODE :: u32 where "FDT_BEGIN_NODE = 1"
definition FDT_END_NODE :: u32 where "FDT_END_NODE = 2"
definition FDT_PROP :: u32 where "FDT_PROP = 3"
definition FDT_NOP :: u32 where "FDT_NOP = 4"
definition FDT_END :: u32 where "FDT_END = 9"

lemmas fdt_tokens = FDT_BEGIN_NODE_def FDT_END_NODE_def FDT_PROP_def FDT_NOP_def FDT_END_def

section \<open>The parser\<close>

datatype FDTProperty = FDTProperty (prop_name: cstr) (prop_value: cstr)

datatype FDTNode = FDTNode (node_name: cstr) (node_properties: "FDTProperty list") (node_children: "FDTNode list")

datatype ParserState = PNone | PBeginNode | PNodeName | PEndNode | PProp | PEnd

text \<open>The mask \<^verbatim>\<open>~(alignment - 1)\<close> has 32 bits and is extended by zeroes.\<close>

definition fdt_align_to :: "u32 \<Rightarrow> u64 \<Rightarrow> u64" where
  "fdt_align_to alignment address = (address + ucast alignment - 1) AND ucast (NOT (alignment - 1))"

definition add_name :: "FDTNode \<Rightarrow> cstr \<Rightarrow> FDTNode" where
  "add_name node n = FDTNode n (node_properties node) (node_children node)"

definition add_property :: "FDTNode \<Rightarrow> FDTProperty \<Rightarrow> FDTNode" where
  "add_property node p = FDTNode (node_name node) (node_properties node @ [p]) (node_children node)"

definition add_child :: "FDTNode \<Rightarrow> FDTNode \<Rightarrow> FDTNode" where
  "add_child node c = FDTNode (node_name node) (node_properties node) (node_children node @ [c])"

text \<open>
  One iteration of the loop of \<^verbatim>\<open>parse_node\<close>: go on with new local variables, parse a child at
  the current offset first, or return the node with the pointer stored to \<^verbatim>\<open>*offset\<close>
  (\<^verbatim>\<open>None\<close> for the null pointer).
\<close>

datatype parse_action = Goto ParserState FDTNode u64 | ParseChild FDTNode u64 | Return "(FDTNode \<times> u64) option"

definition parse_step :: "pmem \<Rightarrow> u64 \<Rightarrow> ParserState \<Rightarrow> FDTNode \<Rightarrow> u64 \<Rightarrow> parse_action option" where
  "parse_step m h state current_node current_offset =
     (let type = be32 m current_offset in
      case state of
        PNone \<Rightarrow> Some (if type = FDT_BEGIN_NODE then Goto PBeginNode current_node (current_offset + 4) else Return None)
      | PBeginNode \<Rightarrow>
          Option.bind (mem_cstr m current_offset) (\<lambda>name.
            Some (Goto PNodeName (add_name current_node name) (fdt_align_to 4 (current_offset + of_nat (length name)))))
      | PNodeName \<Rightarrow>
          Some (if type = 0 \<or> type = FDT_NOP then Goto PNodeName current_node (current_offset + 4)
            else if type = FDT_PROP then Goto PProp current_node (current_offset + 4)
            else if type = FDT_BEGIN_NODE then ParseChild current_node current_offset
            else if type = FDT_END_NODE then Goto PEndNode current_node current_offset
            else if type = FDT_END then Goto PEnd current_node (current_offset + 4)
            else Return None)
      | PProp \<Rightarrow>
          (let prop = fdt_prop m current_offset; value_at = current_offset + 8 in
           Option.bind (mem_cstr m (h + ucast (h_off_dt_strings (fdt_header m h)) + ucast (pr_name_offset prop))) (\<lambda>name.
             Some (Goto PNodeName
               (add_property current_node (FDTProperty name (read_bytes m value_at (unat (pr_len prop)))))
               (fdt_align_to 4 (value_at + ucast (pr_len prop))))))
      | PEndNode \<Rightarrow> Some (Return (Some (current_node, current_offset)))
      | PEnd \<Rightarrow> Some (Goto PEnd current_node (current_offset + 4)))"

definition attach_child :: "FDTNode \<Rightarrow> (FDTNode \<times> u64) option \<Rightarrow> FDTNode" where
  "attach_child node r = (case r of None \<Rightarrow> node | Some (child, _) \<Rightarrow> add_child node child)"

definition after_child :: "u64 \<Rightarrow> (FDTNode \<times> u64) option \<Rightarrow> u64" where
  "after_child offset r = (case r of None \<Rightarrow> offset + 4 | Some (_, child_offset) \<Rightarrow> child_offset + 4)"

partial_function (option) parse_node_loop ::
    "pmem \<Rightarrow> u64 \<Rightarrow> ParserState \<Rightarrow> FDTNode \<Rightarrow> u64 \<Rightarrow> (FDTNode \<times> u64) option option" where
  "parse_node_loop m h state current_node current_offset =
     (if current_offset - h < ucast (h_size_dt_struct (fdt_header m h)) then
        Option.bind (parse_step m h state current_node current_offset) (\<lambda>action.
          case action of
            Goto state' node' offset' \<Rightarrow> parse_node_loop m h state' node' offset'
          | ParseChild node' offset' \<Rightarrow>
              Option.bind (parse_node_loop m h PNone (FDTNode [] [] []) offset') (\<lambda>r.
                parse_node_loop m h PNodeName (attach_child node' r) (after_child offset' r))
          | Return r \<Rightarrow> Some r)
      else Some (Some (current_node, current_offset)))"

definition parse_node :: "pmem \<Rightarrow> u64 \<Rightarrow> u64 \<Rightarrow> (FDTNode \<times> u64) option option" where
  "parse_node m h offset = parse_node_loop m h PNone (FDTNode [] [] []) offset"

text \<open>\<^verbatim>\<open>m_root_node\<close> stays null when the root cannot be parsed.\<close>

definition parse_nodes :: "pmem \<Rightarrow> u64 \<Rightarrow> FDTNode option option" where
  "parse_nodes m h = map_option (map_option fst) (parse_node m h (h + ucast (h_off_dt_struct (fdt_header m h))))"

partial_function (option) parse_reserve_entries_from :: "pmem \<Rightarrow> u64 \<Rightarrow> FDTReserveEntry list option" where
  "parse_reserve_entries_from m a =
     (let e = reserve_entry m a in
      if re_address e \<noteq> 0 \<and> re_size e \<noteq> 0
      then Option.bind (parse_reserve_entries_from m (a + 16)) (\<lambda>es. Some (e # es)) else Some [])"

definition parse_reserve_entries :: "pmem \<Rightarrow> u64 \<Rightarrow> FDTReserveEntry list option" where
  "parse_reserve_entries m h = parse_reserve_entries_from m (h + ucast (h_off_mem_rsvmap (fdt_header m h)))"

record FDTParser =
  ps_reserve_entries :: "FDTReserveEntry list"
  ps_root_node :: "FDTNode option"

definition fdt_parse :: "pmem \<Rightarrow> u64 \<Rightarrow> FDTParser option" where
  "fdt_parse m h = Option.bind (parse_reserve_entries m h) (\<lambda>es. Option.bind (parse_nodes m h) (\<lambda>r.
     Some \<lparr>ps_reserve_entries = es, ps_root_node = r\<rparr>))"

text \<open>\<^verbatim>\<open>DeviceTree::init\<close> on the static instance.\<close>

definition device_tree_init :: "FDTParser option \<Rightarrow> pmem \<Rightarrow> u64 \<Rightarrow> FDTParser option exec option" where
  "device_tree_init s_device_tree m header =
     (if s_device_tree \<noteq> None then Some (Inr s_device_tree)
      else if h_magic (fdt_header m header) = 0xd00dfeed
      then Option.bind (fdt_parse m header) (\<lambda>p. Some (Inr (Some p)))
      else Some (Inl (AssertFailed ''Invalid FDT header'')))"

section \<open>Looking up\<close>

definition at_sign :: u8 where
  "at_sign = 64"

text \<open>\<^verbatim>\<open>splitted[0]\<close> of a name without parts reads a slot of the list that holds no element.\<close>

definition node_get_name :: "FDTNode \<Rightarrow> cstr exec" where
  "node_get_name node = (case split_spec at_sign (node_name node) of [] \<Rightarrow> Inl Uninitialised | p # _ \<Rightarrow> Inr p)"

definition node_get_address :: "FDTNode \<Rightarrow> cstr exec" where
  "node_get_address node = (case split_spec at_sign (node_name node) of [] \<Rightarrow> Inl Uninitialised | [p] \<Rightarrow> Inr [] | _ # a # _ \<Rightarrow> Inr a)"

definition find_property :: "FDTNode \<Rightarrow> cstr \<Rightarrow> FDTProperty error_or" where
  "find_property node name = (case List.find (\<lambda>p. prop_name p = name) (node_properties node) of
     Some p \<Rightarrow> Inr p | None \<Rightarrow> Inl (create_from_string ''Property not found''))"

definition number_of_u32_values :: "FDTProperty \<Rightarrow> u32" where
  "number_of_u32_values p = of_nat (length (prop_value p) div 4)"

text \<open>
  The value is kept as a \<^verbatim>\<open>String\<close>, whose buffer ends with a zero byte; \<^verbatim>\<open>get_value_as_u32\<close> does not
  compare its index with the number of values.
\<close>

definition get_value_as_string :: "FDTProperty \<Rightarrow> cstr" where
  "get_value_as_string p = takeWhile (\<lambda>c. c \<noteq> 0) (prop_value p)"

definition get_value_as_u32 :: "FDTProperty \<Rightarrow> size_t \<Rightarrow> u32 exec" where
  "get_value_as_u32 p index =
     (let bytes = prop_value p @ [0]; offset = 4 * unat index in
      if offset + 4 \<le> length bytes
      then Inr (in_system_endian BigEndian \<lparr>e_raw = le_word (take 4 (drop offset bytes))\<rparr>) else Inl OutOfBounds)"

text \<open>The loop of \<^verbatim>\<open>find_node\<close>; \<^verbatim>\<open>path_index\<close> counts the parts found.\<close>

partial_function (option) find_node_loop :: "cstr list \<Rightarrow> FDTNode \<Rightarrow> nat \<Rightarrow> nat \<Rightarrow> (FDTNode \<times> nat) run" where
  "find_node_loop path current_node i path_index =
     (if i < length (node_children current_node) \<and> path_index < length path then
        (case node_get_name (node_children current_node ! i) of Inl f \<Rightarrow> Some (Inl f)
         | Inr n \<Rightarrow>
             if n = path ! path_index then find_node_loop path (node_children current_node ! i) 0 (Suc path_index)
             else find_node_loop path current_node (Suc i) path_index)
      else Some (Inr (current_node, path_index)))"

definition find_node :: "FDTNode \<Rightarrow> cstr \<Rightarrow> FDTNode error_or run" where
  "find_node root path =
     (let path_array = split_spec 47 path in
      run_bind (find_node_loop path_array root 0 0) (\<lambda>(node, path_index).
        Some (Inr (if path_index = length path_array then Inr node else Inl (create_from_string ''Node not found'')))))"

partial_function (option) find_nodes_loop :: "cstr list \<Rightarrow> FDTNode \<Rightarrow> nat \<Rightarrow> nat \<Rightarrow> FDTNode list \<Rightarrow> FDTNode list run" where
  "find_nodes_loop path current_node i path_index nodes =
     (if i < length (node_children current_node) \<and> path_index < length path then
        (case node_get_name (node_children current_node ! i) of Inl f \<Rightarrow> Some (Inl f)
         | Inr n \<Rightarrow>
             if n = path ! path_index then
               if path_index = length path - 1
               then find_nodes_loop path current_node (Suc i) path_index (nodes @ [node_children current_node ! i])
               else find_nodes_loop path (node_children current_node ! i) 0 (Suc path_index) nodes
             else find_nodes_loop path current_node (Suc i) path_index nodes)
      else Some (Inr nodes))"

definition find_nodes :: "FDTNode \<Rightarrow> cstr \<Rightarrow> FDTNode list run" where
  "find_nodes root path = find_nodes_loop (split_spec 47 path) root 0 0 []"

section \<open>Which tree a region encodes\<close>

text \<open>Positions are natural numbers; \<^verbatim>\<open>hb\<close> is the position of the header.\<close>

definition word_at :: "pmem \<Rightarrow> nat \<Rightarrow> u32" where
  "word_at m a = be32 m (of_nat a)"

definition cstr_at :: "pmem \<Rightarrow> nat \<Rightarrow> cstr \<Rightarrow> bool" where
  "cstr_at m a s \<longleftrightarrow> 0 \<notin> set s \<and> read_bytes m (of_nat a) (length s) = s \<and> m (of_nat (a + length s)) = 0"

definition al4 :: "nat \<Rightarrow> nat" where
  "al4 a = (a + 3) div 4 * 4"

definition strings_at :: "pmem \<Rightarrow> nat \<Rightarrow> nat" where
  "strings_at m hb = hb + unat (h_off_dt_strings (fdt_header m (of_nat hb)))"

fun props_at :: "pmem \<Rightarrow> nat \<Rightarrow> FDTProperty list \<Rightarrow> nat \<Rightarrow> nat \<Rightarrow> bool" where
  "props_at m st [] a b \<longleftrightarrow> a = b"
| "props_at m st (p # ps) a b \<longleftrightarrow> word_at m a = FDT_PROP \<and> unat (word_at m (a + 4)) = length (prop_value p) \<and>
     cstr_at m (st + unat (word_at m (a + 8))) (prop_name p) \<and>
     read_bytes m (of_nat (a + 12)) (length (prop_value p)) = prop_value p \<and>
     props_at m st ps (al4 (a + 12 + length (prop_value p))) b"

text \<open>
  A node is its begin token, its padded name, its properties, its children and its end token
  at \<^verbatim>\<open>e\<close>.  A name whose length is a multiple of four is followed by a zero word.
\<close>

fun node_at :: "pmem \<Rightarrow> nat \<Rightarrow> FDTNode \<Rightarrow> nat \<Rightarrow> nat \<Rightarrow> bool"
  and children_at :: "pmem \<Rightarrow> nat \<Rightarrow> FDTNode list \<Rightarrow> nat \<Rightarrow> nat \<Rightarrow> bool" where
  "node_at m st (FDTNode n ps cs) a e \<longleftrightarrow> a mod 4 = 0 \<and> word_at m a = FDT_BEGIN_NODE \<and> cstr_at m (a + 4) n \<and>
     (length n mod 4 = 0 \<longrightarrow> word_at m (a + 4 + length n) = 0) \<and>
     (\<exists>b. props_at m st ps (al4 (a + 4 + length n + 1)) b \<and> children_at m st cs b e) \<and> word_at m e = FDT_END_NODE"
| "children_at m st [] a e \<longleftrightarrow> a = e"
| "children_at m st (c # cs) a e \<longleftrightarrow> (\<exists>e1. node_at m st c a e1 \<and> children_at m st cs (e1 + 4) e)"

lemma al4_ge: "a \<le> al4 a"
  by (simp add: al4_def)

lemma al4_le: "al4 a \<le> a + 3"
  by (simp add: al4_def)

lemma props_at_mono: "props_at m st ps a b \<Longrightarrow> a \<le> b"
proof (induction m st ps a b rule: props_at.induct)
  case (2 m st p ps a b)
  then show ?case using al4_ge [of "a + 12 + length (prop_value p)"] by simp
qed simp

lemma node_at_mono:
  shows "node_at m st t a e \<Longrightarrow> a < e" and "children_at m st cs a e \<Longrightarrow> a \<le> e"
proof (induction m st t a e and m st cs a e rule: node_at_children_at.induct)
  case (1 m st n ps cs a e)
  then obtain b where "props_at m st ps (al4 (a + 4 + length n + 1)) b" "children_at m st cs b e" by auto
  then show ?case using 1 props_at_mono [of m st ps _ b] al4_ge [of "a + 4 + length n + 1"] by fastforce
qed fastforce+

lemma mem_cstr_at: "cstr_at m a s \<Longrightarrow> mem_cstr m (of_nat a) = Some s"
proof (induction s arbitrary: a)
  case Nil
  then show ?case by (simp add: cstr_at_def mem_cstr.simps)
next
  case (Cons c s)
  have e: "of_nat a + 1 = (of_nat (a + 1) :: u64)" by simp
  have "read_bytes m (of_nat a) (length (c # s)) = c # s" using Cons.prems by (simp add: cstr_at_def)
  then have c: "m (of_nat a) = c" "read_bytes m (of_nat (a + 1)) (length s) = s" unfolding e [symmetric] by (simp_all add: read_bytes_Suc)
  then have "cstr_at m (a + 1) s" using Cons.prems by (simp add: cstr_at_def add.assoc)
  then have "mem_cstr m (of_nat a + 1) = Some s" unfolding e by (rule Cons.IH)
  then show ?case using c(1) Cons.prems by (subst mem_cstr.simps) (simp add: cstr_at_def)
qed

lemma mask_align:
  fixes x :: nat
  assumes "x < 2 ^ 32"
  shows "(of_nat x :: u64) AND ucast (NOT 3 :: u32) = of_nat (push_bit 2 (drop_bit 2 x))"
proof (rule bit_word_eqI)
  fix n assume "n < LENGTH(64)"
  have bits: "bit (of_nat y :: u64) n \<longleftrightarrow> bit y n" if "y < 2 ^ 32" for y
    using bit_unat_iff [of "of_nat y :: u64" n] unat_of_nat_small [of y, where ?'a = 64] that by simp
  have mask: "bit (ucast (NOT 3 :: u32) :: u64) n \<longleftrightarrow> 2 \<le> n \<and> n < 32"
  proof -
    have "(3 :: u32) = mask 2" by (simp add: mask_eq_exp_minus_1)
    then show ?thesis by (simp only: bit_simps) (auto simp: bit_simps)
  qed
  have small: "n < 32" if "bit x n"
    using that assms by (metis bit_take_bit_iff take_bit_nat_eq_self)
  have pd: "push_bit 2 (drop_bit 2 x) < 2 ^ 32" using assms by (simp add: push_bit_eq_mult drop_bit_eq_div)
  have sh: "bit (push_bit 2 (drop_bit 2 x)) n \<longleftrightarrow> 2 \<le> n \<and> bit x n"
    using le_add_diff_inverse [of 2 n] by (auto simp: bit_push_bit_iff_nat bit_drop_bit_eq simp flip: numeral_2_eq_2 add_2_eq_Suc)
  show "bit ((of_nat x :: u64) AND ucast (NOT 3 :: u32)) n = bit (of_nat (push_bit 2 (drop_bit 2 x)) :: u64) n"
    unfolding bit_and_iff bits [OF assms] bits [OF pd] mask sh using small by blast
qed

lemma fdt_align_to_small:
  assumes "a + 3 < 2 ^ 32"
  shows "fdt_align_to 4 (of_nat a) = of_nat (al4 a)"
proof -
  have "al4 a = push_bit 2 (drop_bit 2 (a + 3))" by (simp add: al4_def push_bit_eq_mult drop_bit_eq_div)
  moreover have "of_nat a + ucast (4 :: u32) - 1 = (of_nat (a + 3) :: u64)" "(4 :: u32) - 1 = 3" by simp_all
  ultimately show ?thesis unfolding fdt_align_to_def by (simp only: mask_align [OF assms])
qed

lemma ucast_high: "bit (ucast (w :: u32) :: u64) n \<Longrightarrow> n < 32"
  using bit_imp_le_length [of w n] by (simp add: bit_simps)

section \<open>The parser reads what is encoded\<close>

text \<open>The positions the loop bound admits; it is measured from the header.\<close>

definition readable :: "pmem \<Rightarrow> nat \<Rightarrow> nat \<Rightarrow> bool" where
  "readable m hb a \<longleftrightarrow> hb \<le> a \<and> a < hb + unat (h_size_dt_struct (fdt_header m (of_nat hb))) \<and> a + 8 < 2 ^ 32"

lemma readable_between: "readable m hb e \<Longrightarrow> hb \<le> a \<Longrightarrow> a \<le> e \<Longrightarrow> readable m hb a"
  by (simp add: readable_def)

lemma ucast_u32_of_nat: "(ucast (w :: u32) :: u64) = of_nat (unat w)"
  by (simp add: word_unat_eq_iff unsigned_ucast_eq unsigned_of_nat)

lemma readable_bound:
  assumes "readable m hb a"
  shows "of_nat a - of_nat hb < (ucast (h_size_dt_struct (fdt_header m (of_nat hb))) :: u64)"
proof -
  let ?s = "unat (h_size_dt_struct (fdt_header m (of_nat hb)))"
  have r: "hb \<le> a" "a - hb < ?s" "a < 4294967296" using assms by (auto simp: readable_def)
  have "?s < 4294967296" using unsigned_less [of "h_size_dt_struct (fdt_header m (of_nat hb))", where ?'a = nat] by simp
  then have "unat (of_nat ?s :: u64) = ?s" "unat (of_nat (a - hb) :: u64) = a - hb"
    using r(3) by (intro unat_of_nat_small; simp)+
  then show ?thesis using r(1,2) unfolding ucast_u32_of_nat by (simp add: word_less_nat_alt of_nat_diff)
qed

lemma loop_goto:
  assumes "readable m hb a" "parse_step m (of_nat hb) state node (of_nat a) = Some (Goto state' node' offset')"
  shows "parse_node_loop m (of_nat hb) state node (of_nat a) = parse_node_loop m (of_nat hb) state' node' offset'"
  using readable_bound [OF assms(1)] assms(2) by (subst parse_node_loop.simps) simp

lemma loop_child:
  assumes "readable m hb a" "parse_step m (of_nat hb) state node (of_nat a) = Some (ParseChild node' offset')"
    "parse_node_loop m (of_nat hb) PNone (FDTNode [] [] []) offset' = Some r"
  shows "parse_node_loop m (of_nat hb) state node (of_nat a) =
    parse_node_loop m (of_nat hb) PNodeName (attach_child node' r) (after_child offset' r)"
  using readable_bound [OF assms(1)] assms(2,3) by (subst parse_node_loop.simps) simp

lemma loop_return:
  assumes "readable m hb a" "parse_step m (of_nat hb) state node (of_nat a) = Some (Return r)"
  shows "parse_node_loop m (of_nat hb) state node (of_nat a) = Some r"
  using readable_bound [OF assms(1)] assms(2) by (subst parse_node_loop.simps) simp

text \<open>Properties are collected one after the other.\<close>

lemma loop_props:
  assumes "props_at m (strings_at m hb) ps a b" "hb \<le> a" "readable m hb b"
  shows "parse_node_loop m (of_nat hb) PNodeName (FDTNode n qs cs) (of_nat a) =
    parse_node_loop m (of_nat hb) PNodeName (FDTNode n (qs @ ps) cs) (of_nat b)"
  using assms
proof (induction ps arbitrary: a qs)
  case (Cons p ps)
  let ?v = "prop_value p" and ?h = "of_nat hb :: u64"
  let ?a' = "al4 (a + 12 + length ?v)"
  have p: "be32 m (of_nat a) = FDT_PROP" "unat (be32 m (of_nat (a + 4))) = length ?v"
      "cstr_at m (strings_at m hb + unat (be32 m (of_nat (a + 8)))) (prop_name p)"
      "read_bytes m (of_nat (a + 12)) (length ?v) = ?v" "props_at m (strings_at m hb) ps ?a' b"
    using Cons.prems(1) by (simp_all add: word_at_def)
  have le: "?a' \<le> b" by (rule props_at_mono [OF p(5)])
  have ge: "a + 12 + length ?v \<le> ?a'" by (rule al4_ge)
  have r: "readable m hb a" "readable m hb (a + 4)"
    using readable_between [OF Cons.prems(3)] Cons.prems(2) le ge by simp_all
  have small: "a + 12 + length ?v + 3 < 2 ^ 32" using Cons.prems(3) le ge by (simp add: readable_def)
  have "?h + ucast (h_off_dt_strings (fdt_header m ?h)) + ucast (be32 m (of_nat (a + 8))) =
      of_nat (strings_at m hb + unat (be32 m (of_nat (a + 8))))"
    by (simp only: strings_at_def ucast_u32_of_nat of_nat_add)
  then have nm: "mem_cstr m (?h + ucast (h_off_dt_strings (fdt_header m ?h)) + ucast (be32 m (of_nat (a + 8)))) = Some (prop_name p)"
    using mem_cstr_at [OF p(3)] by simp
  have len: "ucast (be32 m (of_nat (a + 4))) = (of_nat (length ?v) :: u64)" using p(2) by (simp only: ucast_u32_of_nat)
  have fp: "fdt_prop m (of_nat (a + 4)) = \<lparr>pr_len = be32 m (of_nat (a + 4)), pr_name_offset = be32 m (of_nat (a + 8))\<rparr>"
    by (simp add: fdt_prop_def add.commute)
  have va: "of_nat (a + 4) + 8 = (of_nat (a + 12) :: u64)" by simp
  have al: "fdt_align_to 4 (of_nat (a + 12) + of_nat (length ?v)) = of_nat ?a'"
    using fdt_align_to_small [OF small] by simp
  have "parse_step m ?h PNodeName (FDTNode n qs cs) (of_nat a) = Some (Goto PProp (FDTNode n qs cs) (of_nat (a + 4)))"
    using p(1) by (simp add: parse_step_def fdt_tokens)
  from loop_goto [OF r(1) this]
  have "parse_node_loop m ?h PNodeName (FDTNode n qs cs) (of_nat a) =
      parse_node_loop m ?h PProp (FDTNode n qs cs) (of_nat (a + 4))" .
  moreover have "parse_step m ?h PProp (FDTNode n qs cs) (of_nat (a + 4)) =
      Some (Goto PNodeName (FDTNode n (qs @ [p]) cs) (of_nat ?a'))"
    unfolding parse_step_def Let_def fp va using nm len al p(2,4) by (simp add: add_property_def)
  from loop_goto [OF r(2) this]
  have "parse_node_loop m ?h PProp (FDTNode n qs cs) (of_nat (a + 4)) =
      parse_node_loop m ?h PNodeName (FDTNode n (qs @ [p]) cs) (of_nat ?a')" .
  moreover have "\<dots> = parse_node_loop m ?h PNodeName (FDTNode n ((qs @ [p]) @ ps) cs) (of_nat b)"
    using Cons.prems(2,3) ge by (intro Cons.IH [OF p(5)]) simp_all
  ultimately show ?case by simp
qed simp

lemma loop_node:
  shows "node_at m st t a e \<Longrightarrow> st = strings_at m hb \<Longrightarrow> hb \<le> a \<Longrightarrow> readable m hb e \<Longrightarrow>
      parse_node_loop m (of_nat hb) PNone (FDTNode [] [] []) (of_nat a) = Some (Some (t, of_nat e))"
    and "children_at m st cs a e \<Longrightarrow> st = strings_at m hb \<Longrightarrow> hb \<le> a \<Longrightarrow> readable m hb e \<Longrightarrow>
      parse_node_loop m (of_nat hb) PNodeName (FDTNode n qs ds) (of_nat a) =
      parse_node_loop m (of_nat hb) PNodeName (FDTNode n qs (ds @ cs)) (of_nat e)"
proof (induction m st t a e and m st cs a e arbitrary: and n qs ds rule: node_at_children_at.induct)
  case (1 m st n ps cs a e)
  let ?h = "of_nat hb :: u64" and ?p = "al4 (a + 4 + length n + 1)"
  obtain b where b: "props_at m (strings_at m hb) ps ?p b" "children_at m (strings_at m hb) cs b e" using "1.prems"(1,2) by auto
  have nd: "be32 m (of_nat a) = FDT_BEGIN_NODE" "cstr_at m (a + 4) n" "be32 m (of_nat e) = FDT_END_NODE" "a mod 4 = 0"
      "length n mod 4 = 0 \<Longrightarrow> be32 m (of_nat (a + 4 + length n)) = 0"
    using "1.prems"(1) by (auto simp: word_at_def)
  have ord: "a + 4 + length n + 1 \<le> ?p" "?p \<le> b" "b \<le> e"
    using al4_ge props_at_mono [OF b(1)] node_at_mono(2) [OF b(2)] by simp_all
  have rd: "readable m hb x" if "a \<le> x" "x \<le> e" for x
    using readable_between [OF "1.prems"(4), of x] that "1.prems"(3) by simp
  have small: "a + 4 + length n + 3 < 2 ^ 32" using ord "1.prems"(4) by (simp add: readable_def)
  have "parse_node_loop m ?h PNone (FDTNode [] [] []) (of_nat a) = parse_node_loop m ?h PBeginNode (FDTNode [] [] []) (of_nat (a + 4))"
    using nd(1) ord by (intro loop_goto rd) (simp_all add: parse_step_def)
  also have "\<dots> = parse_node_loop m ?h PNodeName (FDTNode n [] []) (of_nat (al4 (a + 4 + length n)))"
    using ord mem_cstr_at [OF nd(2)] fdt_align_to_small [OF small]
    by (intro loop_goto rd) (simp_all add: parse_step_def add_name_def add.assoc)
  also have "\<dots> = parse_node_loop m ?h PNodeName (FDTNode n [] []) (of_nat ?p)"
  proof (cases "length n mod 4 = 0")
    case True
    then have al: "al4 (a + 4 + length n) = a + 4 + length n" "?p = a + 4 + length n + 4"
      using nd(4) unfolding al4_def by presburger+
    show ?thesis unfolding al using nd(5) [OF True] ord
      by (intro loop_goto rd) (simp_all add: parse_step_def add.assoc)
  next
    case False
    then have "al4 (a + 4 + length n) = ?p" using nd(4) unfolding al4_def by presburger
    then show ?thesis by simp
  qed
  also have "\<dots> = parse_node_loop m ?h PNodeName (FDTNode n ps []) (of_nat b)"
    using loop_props [OF b(1), of n "[]" "[]"] ord "1.prems"(3) rd [of b] by simp
  also have "\<dots> = parse_node_loop m ?h PNodeName (FDTNode n ps cs) (of_nat e)"
    using "1.IH" [of b n ps "[]"] b(2) "1.prems"(2-4) ord by simp
  also have "\<dots> = parse_node_loop m ?h PEndNode (FDTNode n ps cs) (of_nat e)"
    using nd(3) by (intro loop_goto "1.prems"(4)) (simp add: parse_step_def fdt_tokens)
  also have "\<dots> = Some (Some (FDTNode n ps cs, of_nat e))"
    by (intro loop_return "1.prems"(4)) (simp add: parse_step_def)
  finally show ?case .
next
  case (3 m st c cs a e)
  let ?h = "of_nat hb :: u64"
  obtain e1 where e1: "node_at m st c a e1" "children_at m st cs (e1 + 4) e" using "3.prems"(1) by auto
  have ord: "a < e1" "e1 + 4 \<le> e" using node_at_mono e1 by blast+
  have rd: "readable m hb x" if "a \<le> x" "x \<le> e" for x
    using readable_between [OF "3.prems"(4), of x] that "3.prems"(3) by simp
  have "be32 m (of_nat a) = FDT_BEGIN_NODE" using e1(1) by (cases c) (simp add: word_at_def)
  then have "parse_step m ?h PNodeName (FDTNode n qs ds) (of_nat a) = Some (ParseChild (FDTNode n qs ds) (of_nat a))"
    by (simp add: parse_step_def fdt_tokens)
  moreover have "parse_node_loop m ?h PNone (FDTNode [] [] []) (of_nat a) = Some (Some (c, of_nat e1))"
    using "3.IH"(1) [OF e1(1) "3.prems"(2,3)] rd [of e1] ord by simp
  ultimately have "parse_node_loop m ?h PNodeName (FDTNode n qs ds) (of_nat a) =
      parse_node_loop m ?h PNodeName (attach_child (FDTNode n qs ds) (Some (c, of_nat e1))) (after_child (of_nat a) (Some (c, of_nat e1)))"
    using ord by (intro loop_child rd) simp_all
  also have "\<dots> = parse_node_loop m ?h PNodeName (FDTNode n qs (ds @ [c])) (of_nat (e1 + 4))"
    by (simp add: attach_child_def after_child_def add_child_def)
  also have "\<dots> = parse_node_loop m ?h PNodeName (FDTNode n qs ((ds @ [c]) @ cs)) (of_nat e)"
    using "3.IH"(2) [OF e1(2) "3.prems"(2)] "3.prems"(3,4) ord by simp
  finally show ?case by simp
qed simp

section \<open>Looking a path up\<close>

text \<open>The name of a node without its unit address, and the nodes all of whose children have one.\<close>

definition base_name :: "FDTNode \<Rightarrow> cstr" where
  "base_name node = hd (split_spec at_sign (node_name node))"

fun all_named :: "FDTNode \<Rightarrow> bool" where
  "all_named (FDTNode n ps cs) \<longleftrightarrow> (\<forall>c \<in> set cs. split_spec at_sign (node_name c) \<noteq> [] \<and> all_named c)"

text \<open>The first child of the right name at every level, and how many parts were found.\<close>

fun descend :: "FDTNode \<Rightarrow> cstr list \<Rightarrow> FDTNode \<times> nat" where
  "descend node [] = (node, 0)"
| "descend node (p # ps) = (case List.find (\<lambda>c. base_name c = p) (node_children node) of
     None \<Rightarrow> (node, 0) | Some c \<Rightarrow> (let (r, k) = descend c ps in (r, Suc k)))"

lemma all_named_child:
  assumes "all_named node" "c \<in> set (node_children node)"
  shows "all_named c" "node_get_name c = Inr (base_name c)"
proof -
  have c: "split_spec at_sign (node_name c) \<noteq> [] \<and> all_named c" using assms by (cases node) simp
  then show "all_named c" "node_get_name c = Inr (base_name c)"
    by (simp_all add: node_get_name_def base_name_def split: list.split)
qed

definition descend_from :: "FDTNode \<Rightarrow> nat \<Rightarrow> cstr list \<Rightarrow> FDTNode \<times> nat" where
  "descend_from node i path = (case path of [] \<Rightarrow> (node, 0)
   | p # ps \<Rightarrow> (case List.find (\<lambda>c. base_name c = p) (drop i (node_children node)) of
       None \<Rightarrow> (node, 0) | Some c \<Rightarrow> (let (r, k) = descend c ps in (r, Suc k))))"

lemma descend_from_0: "descend_from node 0 path = descend node path"
  by (cases path) (simp_all add: descend_from_def)

lemma find_node_loop_descend:
  assumes "all_named node" "k \<le> length path"
  shows "find_node_loop path node i k = Some (Inr (case descend_from node i (drop k path) of (r, n) \<Rightarrow> (r, k + n)))"
  using assms
proof (induction "length path - k" arbitrary: node i k rule: less_induct)
  case less
  note outer = less
  show ?case
  proof (induction "length (node_children node) - i" arbitrary: i rule: less_induct)
    case less
    show ?case
    proof (cases "i < length (node_children node) \<and> k < length path")
      case False
      then show ?thesis using outer(3)
        by (subst find_node_loop.simps) (auto simp: descend_from_def not_less split: list.split)
    next
      case True
      let ?c = "node_children node ! i"
      have c: "all_named ?c" "node_get_name ?c = Inr (base_name ?c)" using all_named_child [OF outer(2)] True by simp_all
      have dp: "drop k path = path ! k # drop (Suc k) path" using True by (simp add: Cons_nth_drop_Suc)
      have dc: "drop i (node_children node) = ?c # drop (Suc i) (node_children node)" using True by (simp add: Cons_nth_drop_Suc)
      show ?thesis
      proof (cases "base_name ?c = path ! k")
        case hit: True
        have "find_node_loop path ?c 0 (Suc k) = Some (Inr (case descend_from ?c 0 (drop (Suc k) path) of (r, n) \<Rightarrow> (r, Suc k + n)))"
        proof (rule outer(1) [OF _ c(1)])
          show "length path - Suc k < length path - k" "Suc k \<le> length path" using True by linarith+
        qed
        then show ?thesis using True c(2) hit dp dc
          by (subst find_node_loop.simps) (simp add: descend_from_def [of node] descend_from_0 split: prod.split)
      next
        case miss: False
        have "find_node_loop path node (Suc i) k = Some (Inr (case descend_from node (Suc i) (drop k path) of (r, n) \<Rightarrow> (r, k + n)))"
        proof (rule less)
          show "length (node_children node) - Suc i < length (node_children node) - i" using True by linarith
        qed
        then show ?thesis using True c(2) miss dp dc by (subst find_node_loop.simps) (simp add: descend_from_def)
      qed
    qed
  qed
qed

lemma find_node_descend:
  assumes "all_named root"
  shows "find_node root path = Some (Inr (case descend root (split_spec 47 path) of (r, n) \<Rightarrow>
     if n = length (split_spec 47 path) then Inr r else Inl (create_from_string ''Node not found'')))"
  using find_node_loop_descend [OF assms, of 0 "split_spec 47 path" 0]
  by (simp add: find_node_def descend_from_0 split: prod.split)

section \<open>Properties\<close>

text \<open>
  C25. A region that encodes a tree is parsed to that tree, and the returned pointer is that of
  the end token, as long as the end token lies within \<^verbatim>\<open>size_dt_struct\<close> bytes of the header
  (not of the structure block, so that the blocks in between shorten what is read) and
  below four gigabytes, where the 32-bit alignment mask cuts addresses off.  In the parsed
  tree \<^verbatim>\<open>find_node\<close> descends into the first child of the right name at every level.
\<close>

theorem device_tree_parsed:
  assumes "node_at m (strings_at m hb) t a e" "hb \<le> a" "readable m hb e" "all_named t"
  shows "parse_node m (of_nat hb) (of_nat a) = Some (Some (t, of_nat e)) \<and>
    find_node t path = Some (Inr (case descend t (split_spec 47 path) of (r, n) \<Rightarrow>
      if n = length (split_spec 47 path) then Inr r else Inl (create_from_string ''Node not found''))) \<and>
    (2 ^ 32 \<le> b \<and> b < 2 ^ 64 - 4 \<longrightarrow> unat (fdt_align_to 4 (of_nat b)) < 2 ^ 32)"
proof (intro conjI impI)
  show "parse_node m (of_nat hb) (of_nat a) = Some (Some (t, of_nat e))"
    unfolding parse_node_def by (rule loop_node(1) [OF assms(1) refl assms(2,3)])
  show "find_node t path = Some (Inr (case descend t (split_spec 47 path) of (r, n) \<Rightarrow>
      if n = length (split_spec 47 path) then Inr r else Inl (create_from_string ''Node not found'')))"
    by (rule find_node_descend [OF assms(4)])
  have "fdt_align_to 4 (of_nat b) = take_bit 32 (fdt_align_to 4 (of_nat b))"
  proof (rule bit_word_eqI)
    fix n assume "n < LENGTH(64)"
    show "bit (fdt_align_to 4 (of_nat b)) n = bit (take_bit 32 (fdt_align_to 4 (of_nat b))) n"
      unfolding fdt_align_to_def bit_and_iff bit_take_bit_iff using ucast_high by blast
  qed
  then have "unat (fdt_align_to 4 (of_nat b)) = take_bit 32 (unat (fdt_align_to 4 (of_nat b)))"
    by (metis unsigned_take_bit_eq)
  then show "unat (fdt_align_to 4 (of_nat b)) < 2 ^ 32" by (metis take_bit_nat_less_exp)
qed

text \<open>A header whose structure block has 100 bytes, and at 40 a root without name or contents.\<close>

definition sample_memory :: pmem where
  "sample_memory x = (if x = 39 then 100 else if x = 43 then 1 else if x = 51 then 2 else 0)"

lemma be32_bytes: "be32 m a = le_word [m (a + 3), m (a + 2), m (a + 1), m a]"
proof -
  have n: "[0..<4] = [0, 1, 2, 3 :: nat]" by (simp add: upt_rec)
  have bs: "read_bytes m a 4 = [m a, m (a + 1), m (a + 2), m (a + 3)]" unfolding read_bytes_def n by simp
  have "be32 m a = le_word (rev (le_bytes 4 (le_word (read_bytes m a 4) :: u32)))"
    by (simp add: be32_def in_system_endian_def BYTE_ORDER_def swap_endian_def bswap_def)
  also have "le_bytes 4 (le_word (read_bytes m a 4) :: u32) = read_bytes m a 4"
    using le_bytes_le_word [of "read_bytes m a 4", where ?'a = 32] by (simp add: read_bytes_def)
  finally show ?thesis unfolding bs by simp
qed

lemma sample_words: "word_at sample_memory 40 = 1" "word_at sample_memory 44 = 0" "word_at sample_memory 48 = 2"
    "h_size_dt_struct (fdt_header sample_memory 0) = 100"
  unfolding word_at_def by (simp_all add: fdt_header_def be32_bytes sample_memory_def)

theorem device_tree_parsed_witness: "parse_node sample_memory 0 40 = Some (Some (FDTNode [] [] [], 48))"
proof -
  have "node_at sample_memory (strings_at sample_memory 0) (FDTNode [] [] []) 40 48"
    by (simp add: sample_words fdt_tokens cstr_at_def read_bytes_def sample_memory_def al4_def)
  moreover have "readable sample_memory 0 48" by (simp add: readable_def sample_words)
  ultimately show ?thesis using device_tree_parsed [of sample_memory 0 "FDTNode [] [] []" 40 48 "[]" 0] by simp
qed

end
