(* ===== verification/Devices.thy ===== *)
theory Devices
  imports VirtIO Scheduling FileSystems DeviceTrees
begin

text \<open>
  The objects of the device layer: the devices of \<^verbatim>\<open>Device.h\<close>, \<^verbatim>\<open>ConsoleDevice.cpp\<close> and
  \<^verbatim>\<open>NS16550ADriver.cpp\<close>.  Devices are numbered by
  their place in \<^verbatim>\<open>m_devices\<close>.  An object keeps the class it was created with, and the unchecked
  casts of the code (\<^verbatim>\<open>as<T>()\<close>, conversions of \<^verbatim>\<open>RefPtr\<close>) fault with \<^verbatim>\<open>BadCast\<close> on an object of another
  class.  The UART is modelled after the 16550 data sheet; block devices work as in \<^verbatim>\<open>VirtIO\<close>.
\<close>

section \<open>Objects\<close>

datatype UnderlyingDeviceType = TypeVirtIO | TypeSBIConsole | TypeUniversal

record UniversalDevice =
  ud_device_id :: u32
  ud_vendor_id :: u32
  ud_device_tree_path :: cstr
  ud_device_type :: cstr
  ud_address :: size_t

datatype UnderlyingDevice = UVirtIO VirtIODevice | USBIConsole | UUniversal UniversalDevice

fun underlying_device_type :: "UnderlyingDevice \<Rightarrow> UnderlyingDeviceType" where
  "underlying_device_type (UVirtIO _) = TypeVirtIO"
| "underlying_device_type USBIConsole = TypeSBIConsole"
| "underlying_device_type (UUniversal _) = TypeUniversal"

fun underlying_device_id :: "bus_device \<Rightarrow> UnderlyingDevice \<Rightarrow> u32" where
  "underlying_device_id hw (UVirtIO v) = get_device_id hw (m_bus v) (m_mmio_device v)"
| "underlying_device_id hw USBIConsole = 0"
| "underlying_device_id hw (UUniversal u) = ud_device_id u"

fun underlying_vendor_id :: "bus_device \<Rightarrow> UnderlyingDevice \<Rightarrow> u32" where
  "underlying_vendor_id hw (UVirtIO v) = get_vendor_id hw (m_bus v) (m_mmio_device v)"
| "underlying_vendor_id hw USBIConsole = 0"
| "underlying_vendor_id hw (UUniversal u) = ud_vendor_id u"

fun underlying_reset :: "UnderlyingDevice \<Rightarrow> UnderlyingDevice" where
  "underlying_reset (UVirtIO v) = UVirtIO (virtio_reset v)"
| "underlying_reset USBIConsole = USBIConsole"
| "underlying_reset (UUniversal u) = UUniversal u"

datatype DeviceType = TypeNone | TypeNetwork | TypeBlock | TypeConsole | TypeEntropy | TypeGpu | TypeInput | TypeMemory

fun device_type_value :: "DeviceType \<Rightarrow> size_t" where
  "device_type_value TypeNone = 0"
| "device_type_value TypeNetwork = 1"
| "device_type_value TypeBlock = 2"
| "device_type_value TypeConsole = 3"
| "device_type_value TypeEntropy = 4"
| "device_type_value TypeGpu = 5"
| "device_type_value TypeInput = 6"
| "device_type_value TypeMemory = 7"

text \<open>\<^verbatim>\<open>m_device\<close> of both drivers is a device number; the UART driver's is null until \<^verbatim>\<open>init\<close>.\<close>

record NS16550ADriver =
  ns_device :: "nat option"
  ns_buffer :: cstr
  ns_lines :: "cstr list"

datatype DriverObject = DrvBlock nat "u64 list" | DrvUart NS16550ADriver

text \<open>The members each class adds: the requests and the next number, or the waiting contexts.\<close>

datatype DeviceBody = PlainBody | EntropyBody | BlockBody "BlockDeviceAsyncRequest list" u64 | ConsoleBody "nat list"

record Device =
  dv_body :: DeviceBody
  dv_type :: DeviceType
  dv_interrupts :: "u64 list"
  dv_needs_driver :: bool
  dv_driver :: "DriverObject option"
  dv_underlying :: UnderlyingDevice

definition device_new :: "UnderlyingDevice \<Rightarrow> u64 list \<Rightarrow> Device" where
  "device_new u interrupts = \<lparr>dv_body = PlainBody, dv_type = TypeNone, dv_interrupts = interrupts, dv_needs_driver = False,
     dv_driver = None, dv_underlying = u\<rparr>"

definition entropy_device_new :: "UnderlyingDevice \<Rightarrow> u64 list \<Rightarrow> Device" where
  "entropy_device_new u interrupts = (device_new u interrupts)\<lparr>dv_body := EntropyBody, dv_type := TypeEntropy\<rparr>"

definition block_device_new :: "UnderlyingDevice \<Rightarrow> u64 list \<Rightarrow> Device" where
  "block_device_new u interrupts =
     (device_new u interrupts)\<lparr>dv_body := BlockBody [] 0, dv_type := TypeBlock, dv_needs_driver := True\<rparr>"

definition console_device_new :: "UnderlyingDevice \<Rightarrow> u64 list \<Rightarrow> Device" where
  "console_device_new u interrupts =
     (device_new u interrupts)\<lparr>dv_body := ConsoleBody [], dv_type := TypeConsole, dv_needs_driver := True\<rparr>"

definition has_driver :: "Device \<Rightarrow> bool" where
  "has_driver d = (dv_driver d \<noteq> None)"

definition handles_interrupt :: "Device \<Rightarrow> u64 \<Rightarrow> bool" where
  "handles_interrupt d interrupt_id = (List.find (\<lambda>interrupt. interrupt_id = interrupt) (dv_interrupts d) \<noteq> None)"

section \<open>The UART\<close>

text \<open>
  Received characters not yet read, transmitted ones, the registers 1 to 7 and the divisor behind
  the bit \<^verbatim>\<open>DLAB\<close> of register 3.  Reading register 0 takes the oldest character; register 5 shows in its
  lowest bit whether there is one; bit 1 of register 2 clears the queue.
\<close>

record Uart =
  ur_received :: "u8 list"
  ur_sent :: "u8 list"
  ur_registers :: "nat \<Rightarrow> u8"
  ur_divisor :: "u8 \<times> u8"

definition uart_read :: "nat \<Rightarrow> Uart \<Rightarrow> u8 \<times> Uart" where
  "uart_read r u =
     (if r = 0 then (case ur_received u of [] \<Rightarrow> (0, u) | c # cs \<Rightarrow> (c, u\<lparr>ur_received := cs\<rparr>))
      else if r = 5 then (if ur_received u = [] then 0x60 else 0x61, u)
      else (ur_registers u r, u))"

definition uart_write :: "nat \<Rightarrow> u8 \<Rightarrow> Uart \<Rightarrow> Uart" where
  "uart_write r v u =
     (if r < 2 \<and> ur_registers u 3 AND 0x80 \<noteq> 0
      then u\<lparr>ur_divisor := (if r = 0 then (v, snd (ur_divisor u)) else (fst (ur_divisor u), v))\<rparr>
      else if r = 0 then u\<lparr>ur_sent := ur_sent u @ [v]\<rparr>
      else if r = 2 \<and> v AND 2 \<noteq> 0 then u\<lparr>ur_received := []\<rparr>
      else u\<lparr>ur_registers := (ur_registers u)(r := v)\<rparr>)"

section \<open>The state of the device layer\<close>

text \<open>
  \<^verbatim>\<open>mc_devfs\<close> are the children of the root of the file system mounted on \<^verbatim>\<open>/dev\<close>, each a \<^verbatim>\<open>DevInode\<close> of a
  device; \<^verbatim>\<open>mc_mapped\<close> are the calls of \<^verbatim>\<open>identity_map_range\<close> on the current root table.
\<close>

record machine =
  mc_devices :: "Device list"
  mc_devfs :: "(path, nat) HashMap"
  mc_mapped :: "(u64 \<times> u64 \<times> u64) list"
  mc_heap :: blk_heap
  mc_uarts :: "u64 \<Rightarrow> Uart"
  mc_kernel :: kernel
  mc_contexts :: contexts
  mc_next_context :: nat
  mc_callbacks :: "callback list"

definition device_at :: "machine \<Rightarrow> nat \<Rightarrow> Device exec" where
  "device_at mc i = (if i < length (mc_devices mc) then Inr (mc_devices mc ! i) else Inl OutOfBounds)"

definition put_device :: "nat \<Rightarrow> Device \<Rightarrow> machine \<Rightarrow> machine" where
  "put_device i d mc = mc\<lparr>mc_devices := (mc_devices mc)[i := d]\<rparr>"

definition as_universal :: "UnderlyingDevice \<Rightarrow> UniversalDevice exec" where
  "as_universal u = (case u of UUniversal v \<Rightarrow> Inr v | _ \<Rightarrow> Inl BadCast)"

definition as_virtio :: "UnderlyingDevice \<Rightarrow> VirtIODevice exec" where
  "as_virtio u = (case u of UVirtIO v \<Rightarrow> Inr v | _ \<Rightarrow> Inl BadCast)"

definition as_console_driver :: "DriverObject \<Rightarrow> NS16550ADriver exec" where
  "as_console_driver drv = (case drv of DrvUart n \<Rightarrow> Inr n | DrvBlock _ _ \<Rightarrow> Inl BadCast)"

definition as_block_driver :: "DriverObject \<Rightarrow> (nat \<times> u64 list) exec" where
  "as_block_driver drv = (case drv of DrvBlock i ignored \<Rightarrow> Inr (i, ignored) | DrvUart _ \<Rightarrow> Inl BadCast)"

definition as_console :: "Device \<Rightarrow> nat list exec" where
  "as_console d = (case dv_body d of ConsoleBody rs \<Rightarrow> Inr rs | _ \<Rightarrow> Inl BadCast)"

section \<open>\<^verbatim>\<open>NS16550ADriver\<close>\<close>

definition ns_new :: NS16550ADriver where
  "ns_new = \<lparr>ns_device = None, ns_buffer = [], ns_lines = []\<rparr>"

text \<open>The address of the registers, from the device of the driver.\<close>

definition ns_address :: "NS16550ADriver \<Rightarrow> machine \<Rightarrow> u64 exec" where
  "ns_address drv mc = (case ns_device drv of None \<Rightarrow> Inl NullDeref
     | Some i \<Rightarrow> exec_bind (device_at mc i) (\<lambda>d. exec_bind (as_universal (dv_underlying d)) (\<lambda>u. Inr (ud_address u))))"

definition on_uart :: "u64 \<Rightarrow> (Uart \<Rightarrow> Uart) \<Rightarrow> machine \<Rightarrow> machine" where
  "on_uart a f mc = mc\<lparr>mc_uarts := (mc_uarts mc)(a := f (mc_uarts mc a))\<rparr>"

definition ns_init :: "nat \<Rightarrow> NS16550ADriver \<Rightarrow> machine \<Rightarrow> (NS16550ADriver \<times> machine) exec" where
  "ns_init i drv mc =
     exec_bind (device_at mc i) (\<lambda>d. exec_bind (as_console d) (\<lambda>_.
       let drv = drv\<lparr>ns_device := Some i\<rparr> in
       exec_bind (as_universal (dv_underlying d)) (\<lambda>u.
         let w = (\<lambda>r v. on_uart (ud_address u) (uart_write r v)) in
         Inr (drv, w 4 0x0F (w 1 0x01 (w 2 0x07 (w 3 0x03 (w 1 0x00 (w 0 0x03 (w 3 0x80 (w 1 0x00 mc)))))))))))"

definition ns_read_line :: "NS16550ADriver \<Rightarrow> cstr error_or \<times> NS16550ADriver" where
  "ns_read_line drv =
     (case ns_lines drv of l # ls \<Rightarrow> (Inr l, drv\<lparr>ns_lines := ls\<rparr>)
      | [] \<Rightarrow> (Inl (create_from_string ''Buffer is empty.''), drv))"

definition ns_write_char :: "NS16550ADriver \<Rightarrow> u8 \<Rightarrow> machine \<Rightarrow> machine exec" where
  "ns_write_char drv c mc = exec_bind (ns_address drv mc) (\<lambda>a. Inr (on_uart a (uart_write 0 c) mc))"

definition ns_write :: "NS16550ADriver \<Rightarrow> cstr \<Rightarrow> machine \<Rightarrow> machine exec" where
  "ns_write drv message mc = exec_bind (ns_address drv mc) (\<lambda>a. Inr (fold (\<lambda>c. on_uart a (uart_write 0 c)) message mc))"

definition ns_read_char :: "NS16550ADriver \<Rightarrow> machine \<Rightarrow> (u8 error_or \<times> machine) exec" where
  "ns_read_char drv mc =
     exec_bind (ns_address drv mc) (\<lambda>a.
       if fst (uart_read 5 (mc_uarts mc a)) AND 1 = 0 then Inr (Inl (create_from_string ''No data available.''), mc)
       else let (c, u) = uart_read 0 (mc_uarts mc a) in Inr (Inr c, on_uart a (\<lambda>_. u) mc))"

definition ns_line_available :: "NS16550ADriver \<Rightarrow> bool" where
  "ns_line_available drv = (ns_lines drv \<noteq> [])"

definition ns_handle_interrupt :: "NS16550ADriver \<Rightarrow> machine \<Rightarrow> (NS16550ADriver \<times> machine) exec" where
  "ns_handle_interrupt drv mc =
     exec_bind (ns_read_char drv mc) (\<lambda>(r, mc).
       case r of Inl _ \<Rightarrow> Inr (drv, mc)
       | Inr value \<Rightarrow>
           if value = 13 then
             let drv = drv\<lparr>ns_lines := ns_lines drv @ [ns_buffer drv], ns_buffer := []\<rparr> in
             exec_bind (ns_write_char drv 10 mc) (\<lambda>mc. Inr (drv, mc))
           else
             let drv = drv\<lparr>ns_buffer := ns_buffer drv @ [value]\<rparr> in
             exec_bind (ns_write_char drv value mc) (\<lambda>mc. Inr (drv, mc)))"

section \<open>\<^verbatim>\<open>ConsoleDevice\<close>\<close>

definition no_console_driver :: "Error" where
  "no_console_driver = create_from_string ''ConsoleDevice: No driver.''"

fun unblock_requests :: "bool \<Rightarrow> nat list \<Rightarrow> machine \<Rightarrow> machine exec" where
  "unblock_requests available [] mc = Inr mc"
| "unblock_requests available (a # rs) mc =
     exec_bind (if available
       then (case mc_contexts mc a of None \<Rightarrow> Inl Uninitialised
             | Some c \<Rightarrow> exec_bind (unblock (rc_pid c) (rc_tid c) (mc_kernel mc)) (\<lambda>k. Inr (mc\<lparr>mc_kernel := k\<rparr>)))
       else Inr mc) (unblock_requests available rs)"

definition console_handle_interrupt :: "nat \<Rightarrow> machine \<Rightarrow> (unit error_or \<times> machine) exec" where
  "console_handle_interrupt i mc =
     exec_bind (device_at mc i) (\<lambda>d. exec_bind (as_console d) (\<lambda>requests.
       case dv_driver d of None \<Rightarrow> Inr (Inl no_console_driver, mc)
       | Some drv \<Rightarrow>
           exec_bind (as_console_driver drv) (\<lambda>n.
           exec_bind (ns_handle_interrupt n mc) (\<lambda>(n, mc).
           exec_bind (unblock_requests (ns_line_available n) requests mc) (\<lambda>mc.
             Inr (Inr (), put_device i (d\<lparr>dv_driver := Some (DrvUart n),
               dv_body := ConsoleBody (if ns_line_available n then [] else requests)\<rparr>) mc))))))"

definition console_write :: "nat \<Rightarrow> cstr \<Rightarrow> machine \<Rightarrow> (unit error_or \<times> machine) exec" where
  "console_write i message mc =
     exec_bind (device_at mc i) (\<lambda>d.
       case dv_driver d of None \<Rightarrow> Inr (Inl no_console_driver, mc)
       | Some drv \<Rightarrow> exec_bind (as_console_driver drv) (\<lambda>n. exec_bind (ns_write n message mc) (\<lambda>mc. Inr (Inr (), mc))))"

definition console_write_char :: "nat \<Rightarrow> u8 \<Rightarrow> machine \<Rightarrow> (unit error_or \<times> machine) exec" where
  "console_write_char i c mc =
     exec_bind (device_at mc i) (\<lambda>d.
       case dv_driver d of None \<Rightarrow> Inr (Inl no_console_driver, mc)
       | Some drv \<Rightarrow> exec_bind (as_console_driver drv) (\<lambda>n. exec_bind (ns_write_char n c mc) (\<lambda>mc. Inr (Inr (), mc))))"

definition console_read :: "nat \<Rightarrow> machine \<Rightarrow> (cstr error_or \<times> machine) exec" where
  "console_read i mc =
     exec_bind (device_at mc i) (\<lambda>d.
       case dv_driver d of None \<Rightarrow> Inr (Inl no_console_driver, mc)
       | Some drv \<Rightarrow> exec_bind (as_console_driver drv) (\<lambda>n.
           let (r, n) = ns_read_line n in Inr (r, put_device i (d\<lparr>dv_driver := Some (DrvUart n)\<rparr>) mc)))"

definition console_read_async :: "nat \<Rightarrow> machine \<Rightarrow> (cstr Request error_or \<times> machine) exec" where
  "console_read_async i mc =
     exec_bind (console_read i mc) (\<lambda>(r, mc).
       case r of
         Inl _ \<Rightarrow>
           (let a = mc_next_context mc; (request, contexts) = create_blocked (mc_contexts mc) a;
                mc = mc\<lparr>mc_contexts := contexts, mc_next_context := Suc a\<rparr> in
            exec_bind (device_at mc i) (\<lambda>d. exec_bind (as_console d) (\<lambda>requests.
              Inr (Inr request, put_device i (d\<lparr>dv_body := ConsoleBody (requests @ [a])\<rparr>) mc))))
       | Inr line \<Rightarrow> Inr (Inr (create_finalized line), mc))"

end
