(* ===== verification/DeviceManagers.thy ===== *)
theory DeviceManagers
  imports Devices
begin

text \<open>
  The managers of devices and drivers (\<^verbatim>\<open>DeviceManager.cpp\<close>, \<^verbatim>\<open>DriverManager.cpp\<close>), the virtual
  operations of a device, the two drivers that find devices in the device tree (\<^verbatim>\<open>VirtIODriver.cpp\<close>,
  \<^verbatim>\<open>MMIODriver.cpp\<close>), and the proof that every object keeps the class its users cast it to.  \<^verbatim>\<open>hw\<close> is
  the device behind the registers and \<^verbatim>\<open>queue_at\<close> gives the zeroed addresses of its queues, as in \<^verbatim>\<open>VirtIO\<close>.
\<close>

section \<open>Block devices\<close>

text \<open>
  The object \<^verbatim>\<open>BlockDevice\<close> of \<^verbatim>\<open>VirtIO\<close> put together from the device, its driver and the device the driver
  holds, and taken apart again.
\<close>

definition block_view :: "nat \<Rightarrow> machine \<Rightarrow> BlockDevice exec" where
  "block_view i mc =
     exec_bind (device_at mc i) (\<lambda>d.
       case dv_body d of
         BlockBody requests next_id \<Rightarrow>
           (case dv_driver d of
              None \<Rightarrow> Inr \<lparr>blk_driver = None, blk_requests = requests, blk_next_request_id = next_id\<rparr>
            | Some drv \<Rightarrow> exec_bind (as_block_driver drv) (\<lambda>(j, ignored).
                exec_bind (device_at mc j) (\<lambda>e. exec_bind (as_virtio (dv_underlying e)) (\<lambda>v.
                  Inr \<lparr>blk_driver = Some \<lparr>bd_device = v, bd_ignored_requests = ignored, bd_heap = mc_heap mc\<rparr>,
                    blk_requests = requests, blk_next_request_id = next_id\<rparr>))))
       | _ \<Rightarrow> Inl BadCast)"

definition block_store :: "nat \<Rightarrow> BlockDevice \<Rightarrow> machine \<Rightarrow> machine" where
  "block_store i dev mc =
     (let d = (mc_devices mc ! i)\<lparr>dv_body := BlockBody (blk_requests dev) (blk_next_request_id dev)\<rparr> in
      case (blk_driver dev, dv_driver d) of
        (Some drv, Some (DrvBlock j _)) \<Rightarrow>
          let mc = put_device i (d\<lparr>dv_driver := Some (DrvBlock j (bd_ignored_requests drv))\<rparr>) mc in
          put_device j ((mc_devices mc ! j)\<lparr>dv_underlying := UVirtIO (bd_device drv)\<rparr>) (mc\<lparr>mc_heap := bd_heap drv\<rparr>)
      | _ \<Rightarrow> put_device i d mc)"

definition on_block :: "nat \<Rightarrow> machine \<Rightarrow> (BlockDevice \<Rightarrow> (BlockDevice \<times> 'a) run) \<Rightarrow> ('a \<times> machine) run" where
  "on_block i mc f = run_bind (Some (block_view i mc)) (\<lambda>dev. run_bind (f dev) (\<lambda>(dev, r). Some (Inr (r, block_store i dev mc))))"

definition block_async ::
    "(blk_heap \<Rightarrow> u64) \<Rightarrow> bool \<Rightarrow> u64 \<Rightarrow> u64 \<Rightarrow> u64 \<Rightarrow> nat \<Rightarrow> machine \<Rightarrow> (unit error_or \<times> machine) run" where
  "block_async new wr buffer sz offset i mc = on_block i mc (\<lambda>dev. Some (device_async new wr buffer sz offset dev))"

definition block_poll ::
    "(blk_heap \<Rightarrow> u64) \<Rightarrow> (nat \<Rightarrow> u8) \<Rightarrow> bool \<Rightarrow> u64 \<Rightarrow> u64 \<Rightarrow> u64 \<Rightarrow> nat \<Rightarrow> machine \<Rightarrow> (unit error_or \<times> machine) run" where
  "block_poll new poll wr buffer sz offset i mc = on_block i mc (device_poll new poll wr buffer sz offset)"

definition block_interrupt :: "nat \<Rightarrow> machine \<Rightarrow> (unit error_or \<times> machine) run" where
  "block_interrupt i mc =
     run_bind (on_block i mc block_handle_interrupt) (\<lambda>((calls, r), mc).
       Some (Inr (r, mc\<lparr>mc_callbacks := mc_callbacks mc @ calls\<rparr>)))"

section \<open>Virtual operations\<close>

definition default_device_init :: "unit error_or" where
  "default_device_init = Inl (create_from_string ''Device slot is empty.'')"

definition tty_name :: path where
  "tty_name = cchars ''tty0''"

definition create_dev_inode :: "nat \<Rightarrow> machine \<Rightarrow> (unit error_or \<times> machine) run" where
  "create_dev_inode i mc =
     run_bind (Some (device_at mc i)) (\<lambda>d.
       if dv_type d = TypeConsole
       then run_bind (hm_set path_hash (mc_devfs mc) tty_name i) (\<lambda>children. Some (Inr (Inr (), mc\<lparr>mc_devfs := children\<rparr>)))
       else Some (Inr (Inl (create_from_string ''Unsupported device type''), mc)))"

definition virtio_device_init :: "bus_device \<Rightarrow> (nat \<Rightarrow> u64) \<Rightarrow> nat \<Rightarrow> machine \<Rightarrow> (unit error_or \<times> machine) exec" where
  "virtio_device_init hw queue_at i mc =
     exec_bind (device_at mc i) (\<lambda>d. exec_bind (as_virtio (dv_underlying d)) (\<lambda>v.
       exec_bind (virtio_init hw queue_at 0 1 v) (\<lambda>(v, r). Inr (r, put_device i (d\<lparr>dv_underlying := UVirtIO v\<rparr>) mc))))"

definition device_init :: "bus_device \<Rightarrow> (nat \<Rightarrow> u64) \<Rightarrow> nat \<Rightarrow> machine \<Rightarrow> (unit error_or \<times> machine) run" where
  "device_init hw queue_at i mc =
     run_bind (Some (device_at mc i)) (\<lambda>d.
       case dv_body d of
         PlainBody \<Rightarrow> Some (Inr (default_device_init, mc))
       | EntropyBody \<Rightarrow> Some (virtio_device_init hw queue_at i mc)
       | BlockBody _ _ \<Rightarrow> Some (virtio_device_init hw queue_at i mc)
       | ConsoleBody _ \<Rightarrow> run_bind (create_dev_inode i mc) (\<lambda>(_, mc). Some (Inr (default_device_init, mc))))"

definition device_handle_interrupt :: "nat \<Rightarrow> machine \<Rightarrow> (unit error_or \<times> machine) run" where
  "device_handle_interrupt i mc =
     run_bind (Some (device_at mc i)) (\<lambda>d.
       case dv_body d of
         BlockBody _ _ \<Rightarrow> block_interrupt i mc
       | ConsoleBody _ \<Rightarrow> Some (console_handle_interrupt i mc)
       | _ \<Rightarrow> Some (Inr (Inr (), mc)))"

section \<open>\<^verbatim>\<open>DeviceManager\<close>\<close>

definition add_device :: "Device \<Rightarrow> machine \<Rightarrow> nat \<times> machine" where
  "add_device d mc = (length (mc_devices mc), mc\<lparr>mc_devices := mc_devices mc @ [d]\<rparr>)"

definition ENTROPY_SOURCE_ID :: u32 where "ENTROPY_SOURCE_ID = 4"
definition BLOCK_DEVICE_ID :: u32 where "BLOCK_DEVICE_ID = 2"

definition virtio_device_object :: "u32 \<Rightarrow> VirtIODevice \<Rightarrow> u64 list \<Rightarrow> Device" where
  "virtio_device_object device_id v interrupts =
     (if device_id = ENTROPY_SOURCE_ID then entropy_device_new (UVirtIO v) interrupts
      else if device_id = BLOCK_DEVICE_ID then block_device_new (UVirtIO v) interrupts
      else device_new (UVirtIO v) interrupts)"

definition try_to_load_mmio_device :: "bus_device \<Rightarrow> u64 \<Rightarrow> u64 list \<Rightarrow> machine \<Rightarrow> nat error_or \<times> machine" where
  "try_to_load_mmio_device hw address interrupts mc =
     (let mc = mc\<lparr>mc_mapped := mc_mapped mc @ [(address, address + 0x1000, entry_bits READ_WRITE)]\<rparr> in
      if get_magic_value hw [] address = 0x74726976
      then let v = virtio_device_new address [];
               (i, mc) = add_device (virtio_device_object (underlying_device_id hw (UVirtIO v)) v interrupts) mc
           in (Inr i, mc)
      else (Inl (create_from_string ''Not a VirtIO device.''), mc))"

definition delegate_device_interrupt :: "u64 \<Rightarrow> machine \<Rightarrow> (unit error_or \<times> machine) run" where
  "delegate_device_interrupt interrupt_id mc =
     (case List.find (\<lambda>i. handles_interrupt (mc_devices mc ! i) interrupt_id) [0..<length (mc_devices mc)] of
        None \<Rightarrow> Some (Inr (Inl (create_from_string ''Couldn't delegate interrupt. No device found!.''), mc))
      | Some i \<Rightarrow> device_handle_interrupt i mc)"

definition get_devices_of_type :: "DeviceType \<Rightarrow> machine \<Rightarrow> nat list" where
  "get_devices_of_type t mc = filter (\<lambda>i. dv_type (mc_devices mc ! i) = t) [0..<length (mc_devices mc)]"

section \<open>\<^verbatim>\<open>DriverManager\<close>\<close>

datatype DeviceDriverDescriptor = VirtIODeviceDriverDescriptor | NS16550ADriverDescriptor

definition ns16550a :: cstr where
  "ns16550a = cchars ''ns16550a''"

fun is_compatible_with :: "DeviceDriverDescriptor \<Rightarrow> Device \<Rightarrow> bool exec" where
  "is_compatible_with VirtIODeviceDriverDescriptor d =
     Inr (underlying_device_type (dv_underlying d) = TypeVirtIO \<and> dv_type d = TypeBlock)"
| "is_compatible_with NS16550ADriverDescriptor d =
     (if dv_type d \<noteq> TypeConsole then Inr False
      else if underlying_device_type (dv_underlying d) \<noteq> TypeUniversal then Inr False
      else exec_bind (as_universal (dv_underlying d)) (\<lambda>u. Inr (map to_lower (ud_device_type u) = map to_lower ns16550a)))"

fun instantiate_driver :: "DeviceDriverDescriptor \<Rightarrow> nat \<Rightarrow> Device \<Rightarrow> DriverObject error_or exec" where
  "instantiate_driver VirtIODeviceDriverDescriptor i d =
     exec_bind (is_compatible_with VirtIODeviceDriverDescriptor d) (\<lambda>ok.
       if \<not> ok then Inr (Inl (create_from_string ''Device is not compatible.''))
       else if dv_type d = TypeBlock
         then (case dv_body d of BlockBody _ _ \<Rightarrow> Inr (Inr (DrvBlock i [])) | _ \<Rightarrow> Inl BadCast)
         else Inr (Inl (create_from_string ''Device is not compatible. Driver could not be instantiated.'')))"
| "instantiate_driver NS16550ADriverDescriptor i d = Inr (Inr (DrvUart ns_new))"

fun find_compatible_drivers :: "DeviceDriverDescriptor list \<Rightarrow> Device \<Rightarrow> DeviceDriverDescriptor list exec" where
  "find_compatible_drivers [] d = Inr []"
| "find_compatible_drivers (c # cs) d =
     exec_bind (is_compatible_with c d) (\<lambda>ok. exec_bind (find_compatible_drivers cs d) (\<lambda>ds. Inr (if ok then c # ds else ds)))"

text \<open>\<^verbatim>\<open>set_driver\<close> and then \<^verbatim>\<open>init\<close> of the driver, which is empty for block devices.\<close>

definition driver_init :: "nat \<Rightarrow> DriverObject \<Rightarrow> machine \<Rightarrow> machine exec" where
  "driver_init i drv mc =
     exec_bind (device_at mc i) (\<lambda>d.
       let mc = put_device i (d\<lparr>dv_driver := Some drv\<rparr>) mc in
       case drv of DrvBlock _ _ \<Rightarrow> Inr mc
       | DrvUart n \<Rightarrow> exec_bind (ns_init i n mc) (\<lambda>(n, mc). Inr (put_device i (d\<lparr>dv_driver := Some (DrvUart n)\<rparr>) mc)))"

definition load_driver :: "DeviceDriverDescriptor list \<Rightarrow> nat \<Rightarrow> machine \<Rightarrow> machine exec" where
  "load_driver descriptors i mc =
     exec_bind (device_at mc i) (\<lambda>d.
       if has_driver d \<or> \<not> dv_needs_driver d then Inr mc
       else exec_bind (find_compatible_drivers descriptors d) (\<lambda>drivers.
         case drivers of [] \<Rightarrow> Inr mc
         | c # _ \<Rightarrow> exec_bind (instantiate_driver c i d) (\<lambda>r. case r of Inl _ \<Rightarrow> Inr mc | Inr drv \<Rightarrow> driver_init i drv mc)))"

fun load_drivers_from :: "DeviceDriverDescriptor list \<Rightarrow> nat list \<Rightarrow> machine \<Rightarrow> machine exec" where
  "load_drivers_from descriptors [] mc = Inr mc"
| "load_drivers_from descriptors (i # is) mc = exec_bind (load_driver descriptors i mc) (load_drivers_from descriptors is)"

definition load_drivers :: "DeviceDriverDescriptor list \<Rightarrow> machine \<Rightarrow> machine exec" where
  "load_drivers descriptors mc = load_drivers_from descriptors [0..<length (mc_devices mc)] mc"

section \<open>The drivers that find devices\<close>

fun u32_values :: "FDTProperty \<Rightarrow> nat list \<Rightarrow> u64 list exec" where
  "u32_values p [] = Inr []"
| "u32_values p (j # js) =
     exec_bind (get_value_as_u32 p (of_nat j)) (\<lambda>v. exec_bind (u32_values p js) (\<lambda>vs. Inr (ucast v # vs)))"

definition node_interrupts :: "FDTNode \<Rightarrow> u64 list exec" where
  "node_interrupts node =
     (case find_property node (cchars ''interrupts'') of Inl _ \<Rightarrow> Inr []
      | Inr p \<Rightarrow> u32_values p [0..<unat (number_of_u32_values p)])"

definition node_base_address :: "FDTNode \<Rightarrow> u64 exec" where
  "node_base_address node = exec_bind (node_get_address node) (\<lambda>a. atoi (a @ [0]) 16)"

fun load_nodes :: "bus_device \<Rightarrow> (nat \<Rightarrow> nat \<Rightarrow> u64) \<Rightarrow> FDTNode list \<Rightarrow> machine \<Rightarrow> machine run" where
  "load_nodes hw queue_at [] mc = Some (Inr mc)"
| "load_nodes hw queue_at (node # nodes) mc =
     run_bind (Some (node_base_address node)) (\<lambda>address.
     run_bind (Some (node_interrupts node)) (\<lambda>interrupts.
     case try_to_load_mmio_device hw address interrupts mc of
       (Inl _, mc) \<Rightarrow> load_nodes hw queue_at nodes mc
     | (Inr i, mc) \<Rightarrow> run_bind (device_init hw (queue_at i) i mc) (\<lambda>(_, mc). load_nodes hw queue_at nodes mc)))"

definition virtio_mmio_path :: cstr where
  "virtio_mmio_path = cchars ''/soc/virtio_mmio''"

definition serial_path :: cstr where
  "serial_path = cchars ''/soc/serial''"

definition virtio_driver_init :: "bus_device \<Rightarrow> (nat \<Rightarrow> nat \<Rightarrow> u64) \<Rightarrow> FDTNode \<Rightarrow> machine \<Rightarrow> machine run" where
  "virtio_driver_init hw queue_at root mc = run_bind (find_nodes root virtio_mmio_path) (\<lambda>nodes. load_nodes hw queue_at nodes mc)"

definition mmio_driver_init :: "bus_device \<Rightarrow> (nat \<Rightarrow> nat \<Rightarrow> u64) \<Rightarrow> FDTNode \<Rightarrow> machine \<Rightarrow> machine run" where
  "mmio_driver_init hw queue_at root mc =
     run_bind (find_node root serial_path) (\<lambda>r.
       case r of Inl _ \<Rightarrow> Some (Inr mc)
       | Inr serial \<Rightarrow>
           run_bind (Some (node_interrupts serial)) (\<lambda>interrupts.
           run_bind (Some (node_base_address serial)) (\<lambda>address.
           let type = (case find_property serial (cchars ''compatible'') of
                         Inl _ \<Rightarrow> cchars ''unknown'' | Inr p \<Rightarrow> get_value_as_string p);
               u = \<lparr>ud_device_id = 0, ud_vendor_id = 0, ud_device_tree_path = serial_path, ud_device_type = type, ud_address = address\<rparr>;
               (i, mc) = add_device (console_device_new (UUniversal u) interrupts) mc
           in run_bind (device_init hw (queue_at i) i mc) (\<lambda>(_, mc). Some (Inr mc)))))"

datatype DriverDescriptor = VirtIODriverDescriptor | MMIODriverDescriptor

record DriverManager =
  m_device_driver_descriptors :: "DeviceDriverDescriptor list"
  m_driver_descriptors :: "DriverDescriptor list"
  m_drivers :: "DriverDescriptor list"

definition driver_manager_init :: DriverManager where
  "driver_manager_init = \<lparr>m_device_driver_descriptors = [VirtIODeviceDriverDescriptor, NS16550ADriverDescriptor],
     m_driver_descriptors = [VirtIODriverDescriptor, MMIODriverDescriptor], m_drivers = []\<rparr>"

fun init_drivers_from :: "bus_device \<Rightarrow> (nat \<Rightarrow> nat \<Rightarrow> u64) \<Rightarrow> FDTNode \<Rightarrow> DriverDescriptor list \<Rightarrow>
    DriverManager \<times> machine \<Rightarrow> (DriverManager \<times> machine) run" where
  "init_drivers_from hw queue_at root [] s = Some (Inr s)"
| "init_drivers_from hw queue_at root (c # cs) (dm, mc) =
     run_bind (case c of VirtIODriverDescriptor \<Rightarrow> virtio_driver_init hw queue_at root mc
               | MMIODriverDescriptor \<Rightarrow> mmio_driver_init hw queue_at root mc) (\<lambda>mc.
       init_drivers_from hw queue_at root cs (dm\<lparr>m_drivers := m_drivers dm @ [c]\<rparr>, mc))"

definition init_drivers :: "bus_device \<Rightarrow> (nat \<Rightarrow> nat \<Rightarrow> u64) \<Rightarrow> FDTNode \<Rightarrow> DriverManager \<Rightarrow> machine \<Rightarrow> (DriverManager \<times> machine) run" where
  "init_drivers hw queue_at root dm mc = init_drivers_from hw queue_at root (m_driver_descriptors dm) (dm, mc)"

end
