(* ===== verification/Plics.thy ===== *)
theory Plics
  imports DeviceManagers
begin

text \<open>
  The interrupt controller and the timer: \<^verbatim>\<open>Plic.cpp\<close>, \<^verbatim>\<open>InterruptManager.cpp\<close>, \<^verbatim>\<open>Timer.cpp\<close>, and the
  harts of \<^verbatim>\<open>System.cpp\<close>.  A device behind registers is a function of the accesses made to it; reading the
  claim register is one of them.
\<close>

section \<open>\<^verbatim>\<open>Plic\<close>\<close>

datatype mmio_access = MRead u64 | MWrite u64 u32

type_synonym mmio_device = "mmio_access list \<Rightarrow> u64 \<Rightarrow> u32"

datatype PlicOffsets = Priority | Pending | InterruptEnable | PriorityThreshold | Claim | Complete

fun plic_offset :: "PlicOffsets \<Rightarrow> size_t" where
  "plic_offset Priority = 0x000000"
| "plic_offset Pending = 0x001000"
| "plic_offset InterruptEnable = 0x002000"
| "plic_offset PriorityThreshold = 0x200000"
| "plic_offset Claim = 0x200004"
| "plic_offset Complete = 0x200004"

record Plic =
  pl_base :: size_t
  pl_log :: "mmio_access list"

definition plic_read :: "mmio_device \<Rightarrow> u64 \<Rightarrow> Plic \<Rightarrow> u32 \<times> Plic" where
  "plic_read hw a p = (hw (pl_log p) a, p\<lparr>pl_log := pl_log p @ [MRead a]\<rparr>)"

definition plic_write :: "u64 \<Rightarrow> u32 \<Rightarrow> Plic \<Rightarrow> Plic" where
  "plic_write a v p = p\<lparr>pl_log := pl_log p @ [MWrite a v]\<rparr>"

text \<open>Without a node in the device tree \<^verbatim>\<open>m_base\<close> stays uninitialised.\<close>

definition plic_new :: "FDTNode \<Rightarrow> Plic run" where
  "plic_new root =
     run_bind (find_node root (cchars ''/soc/plic'')) (\<lambda>r.
       case r of Inl _ \<Rightarrow> Some (Inl Uninitialised)
       | Inr node \<Rightarrow> run_bind (Some (node_base_address node)) (\<lambda>b. Some (Inr \<lparr>pl_base = b, pl_log = []\<rparr>)))"

definition enable_register :: "Plic \<Rightarrow> u32 \<Rightarrow> u32 \<Rightarrow> u64" where
  "enable_register p context_id n = pl_base p + plic_offset InterruptEnable + ucast (4 * (n div 32)) + ucast (0x80 * context_id)"

definition interrupt_bit :: "u32 \<Rightarrow> u32" where
  "interrupt_bit n = push_bit (unat (n mod 32)) 1"

definition plic_enable :: "mmio_device \<Rightarrow> u32 \<Rightarrow> u32 \<Rightarrow> Plic \<Rightarrow> Plic" where
  "plic_enable hw context_id n p =
     (let enable = enable_register p context_id n; (v, p) = plic_read hw enable p in plic_write enable (v OR interrupt_bit n) p)"

definition plic_disable :: "mmio_device \<Rightarrow> u32 \<Rightarrow> u32 \<Rightarrow> Plic \<Rightarrow> Plic" where
  "plic_disable hw context_id n p =
     (let enable = enable_register p context_id n; (v, p) = plic_read hw enable p in plic_write enable (v AND NOT (interrupt_bit n)) p)"

definition plic_set_priority :: "u32 \<Rightarrow> u8 \<Rightarrow> Plic \<Rightarrow> Plic" where
  "plic_set_priority n priority p = plic_write (pl_base p + plic_offset Priority + ucast (4 * n)) (ucast (priority AND 7)) p"

definition plic_set_threshold :: "u32 \<Rightarrow> u8 \<Rightarrow> Plic \<Rightarrow> Plic" where
  "plic_set_threshold context_id threshold p =
     plic_write (pl_base p + plic_offset PriorityThreshold + ucast (0x1000 * context_id)) (ucast (threshold AND 7)) p"

definition plic_next :: "mmio_device \<Rightarrow> u32 \<Rightarrow> Plic \<Rightarrow> u32 option \<times> Plic" where
  "plic_next hw context_id p =
     (let (claim, p) = plic_read hw (pl_base p + plic_offset Claim + ucast (0x1000 * context_id)) p
      in (if claim = 0 then None else Some claim, p))"

definition plic_complete :: "u32 \<Rightarrow> u32 \<Rightarrow> Plic \<Rightarrow> Plic" where
  "plic_complete context_id n p = plic_write (pl_base p + plic_offset Complete + ucast (0x1000 * context_id)) n p"

definition plic_is_pending :: "mmio_device \<Rightarrow> u32 \<Rightarrow> Plic \<Rightarrow> bool \<times> Plic" where
  "plic_is_pending hw n p =
     (let (v, p) = plic_read hw (pl_base p + plic_offset Pending + ucast (4 * (n div 32))) p in (v AND interrupt_bit n \<noteq> 0, p))"

section \<open>\<^verbatim>\<open>InterruptManager\<close>\<close>

text \<open>Contexts and interrupts are 64-bit numbers here and 32-bit numbers in \<^verbatim>\<open>Plic\<close>.\<close>

definition DEFAULT_CONTEXT_ID :: u64 where
  "DEFAULT_CONTEXT_ID = 1"

definition im_handle_interrupt :: "u64 \<Rightarrow> unit error_or" where
  "im_handle_interrupt interrupt_id = Inl (create_from_string ''InterruptManager: Not implemented.'')"

definition enable_interrupt :: "mmio_device \<Rightarrow> u64 \<Rightarrow> u64 \<Rightarrow> Plic \<Rightarrow> Plic" where
  "enable_interrupt hw context_id interrupt_id = plic_enable hw (ucast context_id) (ucast interrupt_id)"

definition disable_interrupt :: "mmio_device \<Rightarrow> u64 \<Rightarrow> u64 \<Rightarrow> Plic \<Rightarrow> Plic" where
  "disable_interrupt hw context_id interrupt_id = plic_disable hw (ucast context_id) (ucast interrupt_id)"

definition enable_device_interrupts :: "mmio_device \<Rightarrow> Device list \<Rightarrow> Plic \<Rightarrow> Plic" where
  "enable_device_interrupts hw devices p =
     fold (\<lambda>device. fold (\<lambda>interrupt_id p.
       plic_set_priority (ucast interrupt_id) 1 (plic_enable hw (ucast DEFAULT_CONTEXT_ID) (ucast interrupt_id) p))
       (dv_interrupts device)) devices p"

definition im_set_threshold :: "u64 \<Rightarrow> Plic \<Rightarrow> Plic" where
  "im_set_threshold threshold = plic_set_threshold (ucast DEFAULT_CONTEXT_ID) (ucast threshold)"

section \<open>\<^verbatim>\<open>Timer\<close>\<close>

text \<open>The frequency, and the calls of \<^verbatim>\<open>sbi_set_timer\<close>; \<^verbatim>\<open>time\<close> is the CSR of that name.\<close>

record Timer =
  tm_frequency :: u32
  tm_set :: "u64 list"

definition DEFAULT_PROCESS_TIME :: size_t where
  "DEFAULT_PROCESS_TIME = 100"

definition timer_init :: "Timer option \<Rightarrow> FDTNode \<Rightarrow> Timer option run" where
  "timer_init s_timer root =
     (if s_timer \<noteq> None then Some (Inr s_timer)
      else run_bind (find_node root (cchars ''/cpus'')) (\<lambda>r.
        case r of Inl _ \<Rightarrow> Some (Inl (AssertFailed ''Cpus not found in device tree''))
        | Inr cpus \<Rightarrow>
            (case find_property cpus (cchars ''timebase-frequency'') of
               Inl _ \<Rightarrow> Some (Inl (AssertFailed ''Timebase frequency not found in device tree''))
             | Inr frequency \<Rightarrow> run_bind (Some (get_value_as_u32 frequency 0)) (\<lambda>f.
                 Some (Inr (Some \<lparr>tm_frequency = f, tm_set = []\<rparr>))))))"

definition set_timer :: "u64 \<Rightarrow> u64 \<Rightarrow> Timer \<Rightarrow> Timer" where
  "set_timer time time_in_ms t =
     (let ticks = ucast (tm_frequency t div 1000) * time_in_ms in t\<lparr>tm_set := tm_set t @ [time + ticks]\<rparr>)"

definition current_time_in_ms :: "u64 \<Rightarrow> u64" where
  "current_time_in_ms time = time"

section \<open>The harts\<close>

text \<open>\<^verbatim>\<open>status i\<close> is the error \<^verbatim>\<open>sbi_hart_get_status\<close> returns for hart \<^verbatim>\<open>i\<close>.\<close>

fun count_harts :: "(nat \<Rightarrow> int) \<Rightarrow> nat \<Rightarrow> nat \<Rightarrow> nat \<Rightarrow> nat" where
  "count_harts status 0 i n = n"
| "count_harts status (Suc k) i n = (if status i = -3 then n else count_harts status k (Suc i) (Suc n))"

definition init_harts :: "(nat \<Rightarrow> int) \<Rightarrow> nat" where
  "init_harts status = count_harts status 100 0 0"

text \<open>The kernel trap frame of every hart, with the stack it runs on.\<close>

definition hart_frame :: "MemoryManager \<Rightarrow> u64 \<Rightarrow> nat \<Rightarrow> pmem \<Rightarrow> u64 \<times> pmem" where
  "hart_frame mm satp i m =
     (let (m, frame) = zalloc mm m 1; (m, bottom) = zalloc mm m 2; top = bottom + 4096 * 2;
          m = frame_set frame cpu_id (of_nat i) m;
          m = frame_set frame (regs 2) top m;
          m = frame_set frame kernel_sp top m;
          m = frame_set frame kernel_trap_frame_ptr frame m;
          m = frame_set frame kernel_satp satp m
      in (frame, m))"

fun hart_frames :: "MemoryManager \<Rightarrow> u64 \<Rightarrow> nat list \<Rightarrow> u64 list \<Rightarrow> pmem \<Rightarrow> u64 list \<times> pmem" where
  "hart_frames mm satp [] frames m = (frames, m)"
| "hart_frames mm satp (i # is) frames m = (let (f, m) = hart_frame mm satp i m in hart_frames mm satp is (frames @ [f]) m)"

definition system_new :: "MemoryManager \<Rightarrow> u64 \<Rightarrow> (nat \<Rightarrow> int) \<Rightarrow> pmem \<Rightarrow> u64 list \<times> pmem" where
  "system_new mm satp status m = hart_frames mm satp [0..<init_harts status] [] m"

section \<open>Enabled interrupts\<close>

text \<open>A register that keeps what was written to it last.\<close>

definition last_write :: "mmio_access list \<Rightarrow> u64 \<Rightarrow> u32" where
  "last_write l a = fold (\<lambda>x v. case x of MWrite b w \<Rightarrow> if b = a then w else v | MRead _ \<Rightarrow> v) l 0"

definition keeps_writes :: "mmio_device \<Rightarrow> u64 set \<Rightarrow> bool" where
  "keeps_writes hw A \<longleftrightarrow> (\<forall>l. \<forall>a \<in> A. hw l a = last_write l a)"

lemma last_write_append [simp]:
  "last_write (l @ m) a = fold (\<lambda>x v. case x of MWrite b w \<Rightarrow> if b = a then w else v | MRead _ \<Rightarrow> v) m (last_write l a)"
  by (simp add: last_write_def)

lemma enable_register_log [simp]: "enable_register (p\<lparr>pl_log := l\<rparr>) = enable_register p"
  by (simp add: enable_register_def fun_eq_iff)

text \<open>
  The registers as the specification of the PLIC numbers them: a word of priority for each interrupt from offset 0 on, and from 0x2000 on
  the enable bits, 0x80 bytes for each context and 32 interrupts to the word.  Context 1 is the supervisor mode of the
  first hart, in which the kernel runs.
\<close>

definition enable_address :: "u64 \<Rightarrow> nat \<Rightarrow> nat \<Rightarrow> u64" where
  "enable_address base c n = base + of_nat (0x2000 + 0x80 * c + 4 * (n div 32))"

definition enabled :: "Plic \<Rightarrow> u32 \<Rightarrow> bool" where
  "enabled p n = bit (last_write (pl_log p) (enable_address (pl_base p) 1 (unat n))) (unat n mod 32)"

definition priority_of :: "Plic \<Rightarrow> u32 \<Rightarrow> u32" where
  "priority_of p n = last_write (pl_log p) (pl_base p + of_nat (4 * unat n))"

definition plic_registers :: "Plic \<Rightarrow> u64 set" where
  "plic_registers p = {enable_address (pl_base p) 1 n | n. n < 1024}"

text \<open>There are 1024 interrupts; the registers for them lie apart.\<close>

lemma enable_offset:
  fixes n :: u32
  assumes "n < 1024"
  shows "unat (4 * (n div 32)) = 4 * (unat n div 32)" "unat (4 * n) = 4 * unat n" "unat n < 1024"
proof -
  show n: "unat n < 1024" using assms by (simp add: word_less_nat_alt)
  then show "unat (4 * (n div 32)) = 4 * (unat n div 32)" "unat (4 * n) = 4 * unat n"
    by (simp_all add: unat_word_ariths unat_div)
qed

lemma enable_register_eq:
  fixes n k :: u32
  assumes "n < 1024" "k < 1024"
  shows "enable_register p c n = enable_register p c k \<longleftrightarrow> n div 32 = k div 32"
proof -
  have "enable_register p c n = enable_register p c k \<longleftrightarrow> (ucast (4 * (n div 32)) :: u64) = ucast (4 * (k div 32))"
    by (simp add: enable_register_def)
  also have "\<dots> \<longleftrightarrow> unat (4 * (n div 32)) = unat (4 * (k div 32))"
    by (simp add: word_unat_eq_iff unat_ucast_up)
  also have "\<dots> \<longleftrightarrow> n div 32 = k div 32"
    using enable_offset [OF assms(1)] enable_offset [OF assms(2)] by (simp add: word_unat_eq_iff unat_div)
  finally show ?thesis .
qed

lemma bit_interrupt: "v AND interrupt_bit n \<noteq> 0 \<longleftrightarrow> bit v (unat (n mod 32))"
  by (simp add: interrupt_bit_def push_bit_eq_mult and_exp_eq_0_iff_not_bit)

lemma bit_interrupt_bit: "bit (interrupt_bit m) (unat (n mod 32)) \<longleftrightarrow> n mod 32 = m mod 32"
proof -
  have "unat (n mod 32) < 32" by (simp add: unat_mod)
  then show ?thesis by (auto simp: interrupt_bit_def bit_simps word_unat_eq_iff)
qed

text \<open>The code's addresses are those of the specification.\<close>

lemma code_registers:
  assumes "n < 1024"
  shows "enable_register p (ucast DEFAULT_CONTEXT_ID) n = enable_address (pl_base p) 1 (unat n)"
    "pl_base p + plic_offset Priority + ucast (4 * n) = pl_base p + of_nat (4 * unat n)"
    "enable_register p (ucast DEFAULT_CONTEXT_ID) n \<in> plic_registers p"
proof -
  have "(ucast (4 * (n div 32)) :: u64) = of_nat (4 * (unat n div 32))" "(ucast (4 * n) :: u64) = of_nat (4 * unat n)"
    using enable_offset(1,2) [OF assms] by (metis of_nat_unat)+
  then show e: "enable_register p (ucast DEFAULT_CONTEXT_ID) n = enable_address (pl_base p) 1 (unat n)"
    and "pl_base p + plic_offset Priority + ucast (4 * n) = pl_base p + of_nat (4 * unat n)"
    by (simp_all add: enable_register_def enable_address_def DEFAULT_CONTEXT_ID_def)
  show "enable_register p (ucast DEFAULT_CONTEXT_ID) n \<in> plic_registers p"
    using enable_offset(3) [OF assms] by (auto simp: e plic_registers_def)
qed

lemma enabled_code:
  "n < 1024 \<Longrightarrow> enabled p n \<longleftrightarrow> last_write (pl_log p) (enable_register p (ucast DEFAULT_CONTEXT_ID) n) AND interrupt_bit n \<noteq> 0"
  by (simp add: enabled_def code_registers(1) bit_interrupt unat_mod)

lemma priority_code: "n < 1024 \<Longrightarrow> priority_of p n = last_write (pl_log p) (pl_base p + plic_offset Priority + ucast (4 * n))"
  unfolding priority_of_def by (subst code_registers(2)) simp_all

text \<open>Enabling one interrupt.\<close>

definition enable_one :: "mmio_device \<Rightarrow> u32 \<Rightarrow> Plic \<Rightarrow> Plic" where
  "enable_one hw k p = plic_set_priority k 1 (plic_enable hw (ucast DEFAULT_CONTEXT_ID) k p)"

lemma enable_one_base [simp]: "pl_base (enable_one hw k p) = pl_base p"
  by (simp add: enable_one_def plic_enable_def plic_set_priority_def plic_read_def plic_write_def Let_def)

lemma priority_not_enable:
  fixes n k :: u32
  assumes "n < 1024" "k < 1024"
  shows "pl_base p + plic_offset Priority + ucast (4 * n) \<noteq> enable_register p (ucast DEFAULT_CONTEXT_ID) k"
proof -
  have "unat (ucast (4 * n) :: u64) < 4096" "4 * (unat k div 32) < 128"
    using enable_offset [OF assms(1)] enable_offset [OF assms(2)] by (simp_all add: unat_ucast_up)
  moreover have "unat (0x2000 + ucast (4 * (k div 32)) + 0x80 :: u64) = 0x2080 + 4 * (unat k div 32)"
    using enable_offset [OF assms(2)] by (simp add: unat_word_ariths unat_ucast_up)
  ultimately have "(ucast (4 * n) :: u64) \<noteq> 0x2000 + ucast (4 * (k div 32)) + 0x80" by force
  then show ?thesis by (simp add: enable_register_def DEFAULT_CONTEXT_ID_def add.assoc)
qed

lemma priority_register_eq:
  fixes n k :: u32
  assumes "n < 1024" "k < 1024"
  shows "b + ucast (4 * n) = b + (ucast (4 * k) :: u64) \<longleftrightarrow> n = k"
proof -
  have "(ucast (4 * n) :: u64) = ucast (4 * k) \<longleftrightarrow> n = k"
    using enable_offset [OF assms(1)] enable_offset [OF assms(2)] by (simp add: word_unat_eq_iff unat_ucast_up)
  then show ?thesis by simp
qed

lemma enable_one_effect:
  assumes hw: "keeps_writes hw (plic_registers p)" and k: "k < 1024" and n: "n < 1024"
  shows "enabled (enable_one hw k p) n \<longleftrightarrow> enabled p n \<or> n = k"
    "priority_of (enable_one hw k p) n = (if n = k then 1 else priority_of p n)"
proof -
  let ?a = "enable_register p (ucast DEFAULT_CONTEXT_ID)"
  have v: "hw l (?a k) = last_write l (?a k)" for l
    using hw code_registers(3) [OF k, of p] unfolding keeps_writes_def by blast
  have "n = k \<longleftrightarrow> n div 32 = k div 32 \<and> n mod 32 = k mod 32" by (metis div_mult_mod_eq)
  moreover have "enable_register (enable_one hw k p) (ucast DEFAULT_CONTEXT_ID) n = ?a n" by (simp add: enable_register_def)
  ultimately show "enabled (enable_one hw k p) n \<longleftrightarrow> enabled p n \<or> n = k"
    using enable_register_eq [OF k n, of p "ucast DEFAULT_CONTEXT_ID"] priority_not_enable [OF k n, of p] v
    by (auto simp: enabled_code [OF n] enable_one_def plic_enable_def plic_set_priority_def plic_read_def plic_write_def Let_def
        bit_interrupt bit_or_iff bit_interrupt_bit)
  show "priority_of (enable_one hw k p) n = (if n = k then 1 else priority_of p n)"
    using priority_register_eq [OF k n] priority_not_enable [OF n k, of p, symmetric]
    by (auto simp: priority_code [OF n] enable_one_def plic_enable_def plic_set_priority_def plic_read_def plic_write_def Let_def)
qed

lemma enable_fold:
  assumes "\<forall>k \<in> set ks. k < 1024" "keeps_writes hw (plic_registers p)" "n < 1024"
  shows "enabled (fold (enable_one hw) ks p) n \<longleftrightarrow> enabled p n \<or> n \<in> set ks"
    "priority_of (fold (enable_one hw) ks p) n = (if n \<in> set ks then 1 else priority_of p n)"
proof -
  have "(enabled (fold (enable_one hw) ks p) n \<longleftrightarrow> enabled p n \<or> n \<in> set ks) \<and>
    priority_of (fold (enable_one hw) ks p) n = (if n \<in> set ks then 1 else priority_of p n)"
    using assms
  proof (induction ks arbitrary: p)
    case (Cons k ks)
    have "plic_registers (enable_one hw k p) = plic_registers p" by (simp add: plic_registers_def)
    then show ?case using Cons enable_one_effect [of hw p k n] by auto
  qed simp
  then show "enabled (fold (enable_one hw) ks p) n \<longleftrightarrow> enabled p n \<or> n \<in> set ks"
    "priority_of (fold (enable_one hw) ks p) n = (if n \<in> set ks then 1 else priority_of p n)" by simp_all
qed

lemma enable_device_interrupts_fold:
  "enable_device_interrupts hw devices p = fold (enable_one hw) (map ucast (concat (map dv_interrupts devices))) p"
proof -
  have "fold (\<lambda>interrupt_id p. plic_set_priority (ucast interrupt_id) 1 (plic_enable hw (ucast DEFAULT_CONTEXT_ID) (ucast interrupt_id) p)) is q =
      fold (enable_one hw) (map ucast is) q" for "is" :: "u64 list" and q
    by (simp add: fold_map comp_def enable_one_def [abs_def])
  then show ?thesis unfolding enable_device_interrupts_def
    by (induction devices arbitrary: p) simp_all
qed

lemma handles_interrupt_iff: "handles_interrupt d n \<longleftrightarrow> n \<in> set (dv_interrupts d)"
  by (auto simp: handles_interrupt_def find_None_iff)

text \<open>
  C34. After \<^verbatim>\<open>enable_device_interrupts\<close> exactly the interrupts some device handles have been enabled in
  addition to those that were, for the supervisor mode of the first hart and each in its own bit, and those have priority
  1; no other interrupt's priority changed.  The registers are where the specification of the PLIC has them.  The interrupt numbers are below 1024, and the
  enable registers keep what is written to them.
\<close>

theorem device_interrupts_enabled:
  assumes "\<forall>d \<in> set devices. \<forall>k \<in> set (dv_interrupts d). k < 1024" "keeps_writes hw (plic_registers p)" "n < 1024"
  shows "(enabled (enable_device_interrupts hw devices p) (ucast n) \<longleftrightarrow>
      enabled p (ucast n) \<or> (\<exists>d \<in> set devices. handles_interrupt d n)) \<and>
    priority_of (enable_device_interrupts hw devices p) (ucast n) =
      (if \<exists>d \<in> set devices. handles_interrupt d n then 1 else priority_of p (ucast n))"
proof -
  let ?ks = "concat (map dv_interrupts devices)"
  have small: "unat k < 1024" if "k < 1024" for k :: u64 using that by (simp add: word_less_nat_alt)
  have u: "unat (ucast k :: u32) = unat k" if "k < 1024" for k :: u64
    using small [OF that] by (simp add: unsigned_ucast_eq take_bit_nat_eq_self)
  have lt: "(ucast k :: u32) < 1024" if "k < 1024" for k :: u64
    using u [OF that] small [OF that] by (simp add: word_less_nat_alt)
  have ks: "\<forall>k \<in> set ?ks. k < 1024" using assms(1) by auto
  have "ucast n \<in> (ucast ` set ?ks :: u32 set) \<longleftrightarrow> n \<in> set ?ks"
  proof
    assume "ucast n \<in> (ucast ` set ?ks :: u32 set)"
    then obtain k where "k \<in> set ?ks" "(ucast n :: u32) = ucast k" by auto
    then show "n \<in> set ?ks" using u [OF assms(3)] u [of k] ks by (metis word_unat_eq_iff)
  qed simp
  then have mem: "ucast n \<in> set (map ucast ?ks :: u32 list) \<longleftrightarrow> (\<exists>d \<in> set devices. handles_interrupt d n)"
    by (simp add: handles_interrupt_iff)
  have all: "\<forall>k \<in> set (map ucast ?ks :: u32 list). k < 1024" using ks lt by auto
  show ?thesis unfolding enable_device_interrupts_fold
    using enable_fold [OF all assms(2) lt [OF assms(3)]] mem by simp
qed

theorem device_interrupts_enabled_witness:
  "enabled (enable_device_interrupts last_write [device_new USBIConsole [10]] \<lparr>pl_base = 0xc000000, pl_log = []\<rparr>) 10 \<and>
   priority_of (enable_device_interrupts last_write [device_new USBIConsole [10]] \<lparr>pl_base = 0xc000000, pl_log = []\<rparr>) 10 = 1"
  using device_interrupts_enabled [of "[device_new USBIConsole [10]]" last_write "\<lparr>pl_base = 0xc000000, pl_log = []\<rparr>" 10]
  by (simp add: device_new_def keeps_writes_def handles_interrupt_iff)

end
