(* ===== verification/DeviceTyping.thy ===== *)
theory DeviceTyping
  imports DeviceManagers
begin

text \<open>
  Every object of the device layer keeps the class its users cast it to.  \<^verbatim>\<open>typed P r\<close> says of a
  result that it is not the fault of a bad cast and that \<^verbatim>\<open>P\<close> holds of the value; the operations are
  checked against it one by one, and the state is followed along the steps of \<^verbatim>\<open>device_step\<close>.
\<close>

section \<open>Results without bad casts\<close>

named_theorems typed_intros

definition typed :: "('a \<Rightarrow> bool) \<Rightarrow> 'a exec \<Rightarrow> bool" where
  "typed P r \<longleftrightarrow> (case r of Inl f \<Rightarrow> f \<noteq> BadCast | Inr x \<Rightarrow> P x)"

definition typed_run :: "('a \<Rightarrow> bool) \<Rightarrow> 'a run \<Rightarrow> bool" where
  "typed_run P r \<longleftrightarrow> (case r of None \<Rightarrow> True | Some e \<Rightarrow> typed P e)"

abbreviation typed_any :: "'a exec \<Rightarrow> bool" where
  "typed_any r \<equiv> typed (\<lambda>_. True) r"

lemma typed_simps [simp]:
  "typed P (Inl f) \<longleftrightarrow> f \<noteq> BadCast" "typed P (Inr x) \<longleftrightarrow> P x"
  "typed_run P None" "typed_run P (Some e) \<longleftrightarrow> typed P e"
  by (simp_all add: typed_def typed_run_def)

lemma typed_mono: "typed P r \<Longrightarrow> (\<And>x. P x \<Longrightarrow> Q x) \<Longrightarrow> typed Q r"
  by (auto simp: typed_def split: sum.splits)

lemma typed_run_mono: "typed_run P r \<Longrightarrow> (\<And>x. P x \<Longrightarrow> Q x) \<Longrightarrow> typed_run Q r"
  by (auto simp: typed_run_def split: option.splits intro: typed_mono)

lemma typed_bind [typed_intros]: "typed P r \<Longrightarrow> (\<And>x. P x \<Longrightarrow> typed Q (f x)) \<Longrightarrow> typed Q (exec_bind r f)"
  by (cases r) simp_all

lemma typed_run_bind [typed_intros]: "typed_run P r \<Longrightarrow> (\<And>x. P x \<Longrightarrow> typed_run Q (f x)) \<Longrightarrow> typed_run Q (run_bind r f)"
  by (cases r; cases "the r") (simp_all add: typed_def)

lemma typed_any_intro: "typed P r \<Longrightarrow> typed_any r"
  by (erule typed_mono) simp

lemma typed_no_cast: "typed P r \<Longrightarrow> r \<noteq> Inl BadCast"
  by auto

lemma typed_run_no_cast: "typed_run P r \<Longrightarrow> r \<noteq> Some (Inl BadCast)"
  by auto

section \<open>The operations below the devices\<close>

lemma typed_scan: "(\<And>j. typed_any (body j)) \<Longrightarrow> typed_any (scan i e body)"
proof (induction i e body rule: scan.induct)
  case (1 i e body)
  then have b: "body i \<noteq> Inl BadCast" using typed_no_cast by blast
  show ?case using 1 b by (subst scan.simps) (auto split: sum.splits option.splits)
qed

lemma typed_al_get: "typed_any (al_get l i)"
  by (auto simp: al_get_def read_slot_def typed_def split: sum.splits if_splits option.splits)

lemma typed_find: "typed_any (al_find_first_match l p)"
  unfolding al_find_first_match_def
  by (intro typed_bind [where P = "\<lambda>_. True"] typed_scan typed_al_get) simp_all

lemma typed_get_thread: "typed_any (get_thread k pid tid)"
  unfolding get_thread_def get_process_def
  by (rule typed_bind [where P = "\<lambda>_. True"], rule typed_find)
    (auto simp: try_bind_def typed_find split: sum.splits option.splits)

lemma typed_unblock: "typed_any (unblock pid tid k)"
  unfolding unblock_def
  by (rule typed_bind [where P = "\<lambda>_. True"], rule typed_get_thread)
    (auto simp: set_thread_state_def split: sum.splits option.splits)

lemma typed_selected: "typed_any (selected d)"
  by (simp add: selected_def)

lemma typed_array_at: "typed_any (array_at xs i)"
  by (simp add: array_at_def)

lemma typed_put_descriptor: "typed_any (put_descriptor q i v)"
  by (simp add: put_descriptor_def)

lemmas typed_virtio = typed_selected typed_array_at typed_put_descriptor

lemma typed_any_bind: "typed_any r \<Longrightarrow> (\<And>x. typed Q (f x)) \<Longrightarrow> typed Q (exec_bind r f)"
  by (rule typed_bind) auto

lemma typed_add_to_queue: "typed_any (add_to_queue v d)"
  unfolding add_to_queue_def get_next_queue_index_def Let_def
  by (intro typed_any_bind typed_virtio) (auto intro!: typed_any_bind typed_virtio)

lemma typed_add_to_available: "typed_any (add_to_available i d)"
  unfolding add_to_available_def Let_def by (intro typed_any_bind typed_virtio) simp

lemma typed_get_next_used: "typed_any (get_next_used_descriptor d)"
  unfolding get_next_used_descriptor_def Let_def by (intro typed_any_bind typed_virtio) (auto simp: Let_def)

lemma typed_block_operation: "typed_any (block_operation new rid buffer sz off wr drv)"
  unfolding block_operation_def Let_def
  by (auto intro!: typed_any_bind typed_add_to_queue typed_add_to_available split: sum.split)

lemma typed_driver_async: "typed_any (driver_async new wr rid buffer sz off drv)"
  unfolding driver_async_def by (intro typed_any_bind typed_block_operation) auto

lemma typed_device_async: "typed_any (device_async new wr buffer sz off dev)"
  unfolding device_async_def Let_def
  by (auto intro!: typed_any_bind typed_driver_async split: option.split)

lemma typed_run_any_bind: "typed_run (\<lambda>_. True) r \<Longrightarrow> (\<And>x. typed_run Q (f x)) \<Longrightarrow> typed_run Q (run_bind r f)"
  by (rule typed_run_bind) auto

lemma typed_device_poll: "typed_run (\<lambda>_. True) (device_poll new poll wr buffer sz off dev)"
  unfolding device_poll_def driver_poll_def
  by (auto intro!: typed_run_any_bind typed_block_operation split: option.split sum.split Option.bind_split)

lemma typed_notify_step: "typed_any (notify_step drv)"
  unfolding notify_step_def clear_address_def descriptor_address_def live_request_def Let_def
  by (rule typed_any_bind, rule typed_get_next_used)
    (auto intro!: typed_any_bind typed_virtio simp: Let_def split: sum.split option.split)

lemma typed_notify_loop: "typed_run (\<lambda>_. True) (notify_loop drv results)"
proof -
  have "typed_any y" if "notify_loop drv results = Some y" for y
    using that
  proof (induction rule: notify_loop.raw_induct [rotated, consumes 1, case_names step])
    case (step loop drv results y)
    then show ?case using typed_notify_step [of drv] by (auto split: sum.splits option.splits prod.splits)
  qed
  then show ?thesis by (cases "notify_loop drv results") auto
qed

lemma typed_block_handle_interrupt: "typed_run (\<lambda>_. True) (block_handle_interrupt dev)"
  unfolding block_handle_interrupt_def driver_notify_def
  by (auto intro!: typed_run_any_bind typed_notify_loop split: option.split)

lemma typed_virtio_init: "typed_any (virtio_init hw q features n d)"
  unfolding virtio_init_def Let_def init_queues_def
  by (auto intro!: typed_any_bind split: list.split)

lemma typed_hm_last_loop: "typed_run (\<lambda>_. True) (hm_last_loop m e)"
proof -
  have "typed_any y" if "hm_last_loop m e = Some y" for y
    using that
  proof (induction rule: hm_last_loop.raw_induct [rotated, consumes 1, case_names step])
    case (step loop m e y)
    then show ?case by (auto simp: hm_entry_def split: sum.splits option.splits if_splits)
  qed
  then show ?thesis by (cases "hm_last_loop m e") auto
qed

lemma typed_hm_set: "typed_run (\<lambda>_. True) (hm_set h m k v)"
proof -
  have "typed_any (hm_entry m e)" for m :: "('a, 'b) HashMap" and e by (simp add: hm_entry_def split: option.split)
  moreover have "hm_last_loop m e \<noteq> Some (Inl BadCast)" for e by (rule typed_run_no_cast, rule typed_hm_last_loop)
  ultimately show ?thesis unfolding hm_set_def hm_bucket_def Let_def hm_new_entry_def typed_run_def
    by (auto intro!: typed_any_bind split: sum.splits option.splits if_splits prod.splits)
qed

lemma typed_atoi: "typed_any (atoi s b)"
proof -
  have "typed_any (atoi_loop b r cs)" for r and cs :: cstr by (induction b r cs rule: atoi_loop.induct) simp_all
  then show ?thesis unfolding atoi_def by (intro typed_any_bind) (auto simp: char_at_def split: prod.split intro!: typed_any_bind)
qed

lemma typed_node_interrupts: "typed_any (node_interrupts node)"
proof -
  have "typed_any (u32_values p js)" for p js
    by (induction p js rule: u32_values.induct) (auto simp: get_value_as_u32_def Let_def intro!: typed_any_bind)
  then show ?thesis by (simp add: node_interrupts_def split: sum.split)
qed

lemma typed_node_base_address: "typed_any (node_base_address node)"
  unfolding node_base_address_def node_get_address_def by (intro typed_any_bind typed_atoi) (simp split: list.split)

lemma typed_node_get_name: "typed_any (node_get_name node)"
  by (simp add: node_get_name_def split: list.split)

lemma typed_find_node: "typed_run (\<lambda>_. True) (find_node root path)"
proof -
  have "typed_any y" if "find_node_loop ps node i k = Some y" for ps node i k y
    using that
  proof (induction rule: find_node_loop.raw_induct [rotated, consumes 1, case_names step])
    case (step loop ps node i k y)
    then show ?case using typed_node_get_name [of "node_children node ! i"] by (auto split: sum.splits if_splits)
  qed
  then have "typed_run (\<lambda>_. True) (find_node_loop ps node i k)" for ps node i k by (cases "find_node_loop ps node i k") auto
  then show ?thesis unfolding find_node_def Let_def by (auto intro!: typed_run_any_bind)
qed

lemma typed_find_nodes: "typed_run (\<lambda>_. True) (find_nodes root path)"
proof -
  have "typed_any y" if "find_nodes_loop ps node i k ns = Some y" for ps node i k ns y
    using that
  proof (induction rule: find_nodes_loop.raw_induct [rotated, consumes 1, case_names step])
    case (step loop ps node i k ns y)
    then show ?case using typed_node_get_name [of "node_children node ! i"] by (auto split: sum.splits if_splits)
  qed
  then show ?thesis unfolding find_nodes_def
    by (cases "find_nodes_loop (split_spec 47 path) root 0 0 []") auto
qed

section \<open>Well-formed devices\<close>

definition device_ok :: "nat \<Rightarrow> Device \<Rightarrow> bool" where
  "device_ok i d \<longleftrightarrow>
     (case dv_body d of
        PlainBody \<Rightarrow> dv_type d = TypeNone \<and> dv_driver d = None
      | EntropyBody \<Rightarrow> dv_type d = TypeEntropy \<and> dv_driver d = None \<and> (\<exists>v. dv_underlying d = UVirtIO v)
      | BlockBody _ _ \<Rightarrow> dv_type d = TypeBlock \<and> (\<exists>v. dv_underlying d = UVirtIO v) \<and>
          (dv_driver d = None \<or> (\<exists>ignored. dv_driver d = Some (DrvBlock i ignored)))
      | ConsoleBody _ \<Rightarrow> dv_type d = TypeConsole \<and> (\<exists>u. dv_underlying d = UUniversal u) \<and>
          (dv_driver d = None \<or> (\<exists>n. dv_driver d = Some (DrvUart n) \<and> ns_device n = Some i)))"

definition waiting :: "Device \<Rightarrow> nat list" where
  "waiting d = (case dv_body d of ConsoleBody requests \<Rightarrow> requests | _ \<Rightarrow> [])"

definition devices_ok :: "machine \<Rightarrow> bool" where
  "devices_ok mc \<longleftrightarrow> (\<forall>i < length (mc_devices mc). device_ok i (mc_devices mc ! i) \<and>
     (\<forall>a \<in> set (waiting (mc_devices mc ! i)). mc_contexts mc a \<noteq> None))"

lemma devices_okD:
  "devices_ok mc \<Longrightarrow> i < length (mc_devices mc) \<Longrightarrow> device_ok i (mc_devices mc ! i)"
  "devices_ok mc \<Longrightarrow> i < length (mc_devices mc) \<Longrightarrow> a \<in> set (waiting (mc_devices mc ! i)) \<Longrightarrow> mc_contexts mc a \<noteq> None"
  by (auto simp: devices_ok_def)

lemma typed_device_at: "devices_ok mc \<Longrightarrow> typed (\<lambda>d. i < length (mc_devices mc) \<and> d = mc_devices mc ! i \<and> device_ok i d) (device_at mc i)"
  by (simp add: device_at_def devices_okD)

text \<open>The body of a device is the one its type names.\<close>

lemma device_ok_body:
  assumes "device_ok i d"
  shows "dv_type d = TypeConsole \<longleftrightarrow> (\<exists>rs. dv_body d = ConsoleBody rs)"
    "dv_type d = TypeBlock \<longleftrightarrow> (\<exists>rs n. dv_body d = BlockBody rs n)"
  using assms by (auto simp: device_ok_def split: DeviceBody.splits)

lemma devices_ok_put:
  "devices_ok mc \<Longrightarrow> device_ok i d \<Longrightarrow> (\<And>a. a \<in> set (waiting d) \<Longrightarrow> mc_contexts mc a \<noteq> None) \<Longrightarrow> devices_ok (put_device i d mc)"
  by (cases "i < length (mc_devices mc)") (auto simp: devices_ok_def put_device_def nth_list_update)

lemma devices_ok_add:
  "devices_ok mc \<Longrightarrow> device_ok (length (mc_devices mc)) d \<Longrightarrow> (\<And>a. a \<in> set (waiting d) \<Longrightarrow> mc_contexts mc a \<noteq> None) \<Longrightarrow>
    devices_ok (snd (add_device d mc))"
  by (auto simp: devices_ok_def add_device_def nth_append less_Suc_eq)

lemma devices_ok_simps [simp]:
  "devices_ok (mc\<lparr>mc_devfs := fs\<rparr>) = devices_ok mc" "devices_ok (mc\<lparr>mc_mapped := ms\<rparr>) = devices_ok mc"
  "devices_ok (mc\<lparr>mc_heap := h\<rparr>) = devices_ok mc" "devices_ok (mc\<lparr>mc_uarts := us\<rparr>) = devices_ok mc"
  "devices_ok (mc\<lparr>mc_kernel := k\<rparr>) = devices_ok mc" "devices_ok (mc\<lparr>mc_callbacks := cs\<rparr>) = devices_ok mc"
  "devices_ok (mc\<lparr>mc_next_context := nc\<rparr>) = devices_ok mc" "devices_ok (on_uart a f mc) = devices_ok mc"
  by (simp_all add: devices_ok_def on_uart_def)

section \<open>The console\<close>

text \<open>The driver's device has the registers of a UART.\<close>

definition uart_ok :: "machine \<Rightarrow> NS16550ADriver \<Rightarrow> bool" where
  "uart_ok mc n \<longleftrightarrow> (\<exists>i. ns_device n = Some i \<and> (i < length (mc_devices mc) \<longrightarrow> (\<exists>u. dv_underlying (mc_devices mc ! i) = UUniversal u)))"

abbreviation only_uarts :: "machine \<Rightarrow> machine \<Rightarrow> bool" where
  "only_uarts mc mc' \<equiv> \<exists>us. mc' = mc\<lparr>mc_uarts := us\<rparr>"

lemma uart_ok_uarts [simp]: "uart_ok (mc\<lparr>mc_uarts := us\<rparr>) n = uart_ok mc n"
  by (simp add: uart_ok_def)

lemma uart_ok_device: "uart_ok mc n \<Longrightarrow> ns_device n' = ns_device n \<Longrightarrow> uart_ok mc n'"
  by (simp add: uart_ok_def)

lemma typed_ns_address: "uart_ok mc n \<Longrightarrow> typed_any (ns_address n mc)"
  by (auto simp: uart_ok_def ns_address_def device_at_def as_universal_def)

lemma typed_ns_write_char: "uart_ok mc n \<Longrightarrow> typed (only_uarts mc) (ns_write_char n c mc)"
  unfolding ns_write_char_def by (rule typed_any_bind, rule typed_ns_address) (auto simp: on_uart_def)

lemma only_uarts_refl: "only_uarts mc mc"
  by (rule exI [of _ "mc_uarts mc"]) simp

lemma only_uarts_fold: "only_uarts mc (fold (\<lambda>c. on_uart a (uart_write 0 c)) cs mc)"
proof (induction cs arbitrary: mc)
  case Nil
  then show ?case by (simp add: only_uarts_refl)
next
  case (Cons c cs)
  obtain us where "fold (\<lambda>c. on_uart a (uart_write 0 c)) cs (on_uart a (uart_write 0 c) mc) = (on_uart a (uart_write 0 c) mc)\<lparr>mc_uarts := us\<rparr>"
    using Cons by blast
  moreover have "(on_uart a (uart_write 0 c) mc)\<lparr>mc_uarts := us\<rparr> = mc\<lparr>mc_uarts := us\<rparr>" by (simp add: on_uart_def)
  ultimately show ?case by (intro exI [of _ us]) simp
qed

lemma only_uarts_set: "only_uarts mc (mc\<lparr>mc_uarts := us\<rparr>)"
  by blast

lemma typed_ns_write: "uart_ok mc n \<Longrightarrow> typed (only_uarts mc) (ns_write n cs mc)"
  unfolding ns_write_def by (rule typed_any_bind, rule typed_ns_address) (simp_all add: only_uarts_fold)

lemma typed_ns_read_char: "uart_ok mc n \<Longrightarrow> typed (\<lambda>(r, mc'). only_uarts mc mc') (ns_read_char n mc)"
  unfolding ns_read_char_def
  by (rule typed_any_bind, erule typed_ns_address) (auto simp: on_uart_def only_uarts_refl split: prod.split)

lemma typed_ns_handle_interrupt:
  assumes "uart_ok mc n"
  shows "typed (\<lambda>(n', mc'). ns_device n' = ns_device n \<and> only_uarts mc mc') (ns_handle_interrupt n mc)"
proof -
  have w: "typed (only_uarts (mc\<lparr>mc_uarts := us\<rparr>)) (ns_write_char n' c (mc\<lparr>mc_uarts := us\<rparr>))"
    if "ns_device n' = ns_device n" for n' c us
    using typed_ns_write_char [of "mc\<lparr>mc_uarts := us\<rparr>" n' c] assms uart_ok_device [OF _ that] by simp
  show ?thesis unfolding ns_handle_interrupt_def
    by (rule typed_bind [OF typed_ns_read_char [OF assms]]) (auto simp: Let_def split: sum.split intro!: typed_bind [OF w] only_uarts_set)
qed

abbreviation only_kernel :: "machine \<Rightarrow> machine \<Rightarrow> bool" where
  "only_kernel mc mc' \<equiv> \<exists>k. mc' = mc\<lparr>mc_kernel := k\<rparr>"

lemma only_kernel_refl: "only_kernel mc mc"
  by (rule exI [of _ "mc_kernel mc"]) simp

lemma typed_unblock_requests: "typed (only_kernel mc) (unblock_requests available rs mc)"
proof (induction rs arbitrary: mc)
  case Nil
  then show ?case by (simp add: only_kernel_refl)
next
  case (Cons a rs)
  have one: "typed (only_kernel mc) (if available
       then (case mc_contexts mc a of None \<Rightarrow> Inl Uninitialised
             | Some c \<Rightarrow> exec_bind (unblock (rc_pid c) (rc_tid c) (mc_kernel mc)) (\<lambda>k. Inr (mc\<lparr>mc_kernel := k\<rparr>)))
       else Inr mc)"
    by (simp add: only_kernel_refl split: option.split) (auto intro!: typed_any_bind typed_unblock)
  show ?case unfolding unblock_requests.simps
  proof (rule typed_bind [OF one])
    fix mc1 assume "only_kernel mc mc1"
    then obtain k where k: "mc1 = mc\<lparr>mc_kernel := k\<rparr>" ..
    show "typed (only_kernel mc) (unblock_requests available rs mc1)"
      by (rule typed_mono [OF Cons [of mc1]]) (auto simp: k)
  qed
qed

lemma device_ok_console:
  assumes "device_ok i d" "as_console d = Inr rs"
  shows "dv_type d = TypeConsole" "\<exists>u. dv_underlying d = UUniversal u" "waiting d = rs"
    "dv_driver d = Some drv \<Longrightarrow> \<exists>n. drv = DrvUart n \<and> ns_device n = Some i"
  using assms by (auto simp: device_ok_def as_console_def waiting_def split: DeviceBody.splits)

lemma console_ok:
  assumes "devices_ok mc" "i < length (mc_devices mc)" "dv_type (mc_devices mc ! i) = TypeConsole"
  shows "\<exists>rs. as_console (mc_devices mc ! i) = Inr rs"
  using device_ok_body(1) [OF devices_okD(1) [OF assms(1,2)]] assms(3) by (auto simp: as_console_def)

lemma uart_ok_device_ok:
  assumes "devices_ok mc" "device_ok i d" "as_console d = Inr rs" "dv_driver d = Some drv" "i < length (mc_devices mc)" "mc_devices mc ! i = d"
  shows "\<exists>n. drv = DrvUart n \<and> ns_device n = Some i \<and> uart_ok mc n"
  using device_ok_console(2) [OF assms(2,3)] device_ok_console(4) [OF assms(2,3,4)] assms(5,6) by (auto simp: uart_ok_def)

lemma device_ok_console_update:
  assumes "device_ok i d" "as_console d = Inr rs" "ns_device n = Some i"
  shows "device_ok i (d\<lparr>dv_driver := Some (DrvUart n), dv_body := ConsoleBody rs'\<rparr>)" "device_ok i (d\<lparr>dv_driver := Some (DrvUart n)\<rparr>)"
    "device_ok i (d\<lparr>dv_body := ConsoleBody rs'\<rparr>)"
  using assms by (auto simp: device_ok_def as_console_def split: DeviceBody.splits)

lemma waiting_simps [simp]:
  "waiting (d\<lparr>dv_driver := drv, dv_body := ConsoleBody rs\<rparr>) = rs" "waiting (d\<lparr>dv_driver := drv\<rparr>) = waiting d"
  "waiting (d\<lparr>dv_body := ConsoleBody rs\<rparr>) = rs" "waiting (d\<lparr>dv_underlying := u\<rparr>) = waiting d"
  "waiting (d\<lparr>dv_body := BlockBody bs k\<rparr>) = []"
  "waiting (d\<lparr>dv_driver := drv, dv_body := BlockBody bs k\<rparr>) = []" "waiting (d\<lparr>dv_body := BlockBody bs k, dv_driver := drv\<rparr>) = []"
  by (simp_all add: waiting_def)

text \<open>Every operation of a console keeps the devices well-formed.\<close>

abbreviation ok_after :: "('a \<times> machine) \<Rightarrow> bool" where
  "ok_after \<equiv> \<lambda>(r, mc). devices_ok mc"

lemma typed_console_handle_interrupt:
  assumes ok: "devices_ok mc" and i: "i < length (mc_devices mc)" "dv_type (mc_devices mc ! i) = TypeConsole"
  shows "typed ok_after (console_handle_interrupt i mc)"
proof -
  let ?d = "mc_devices mc ! i"
  obtain rs where rs: "as_console ?d = Inr rs" using console_ok [OF ok i] by blast
  have d: "device_ok i ?d" by (rule devices_okD(1) [OF ok i(1)])
  show ?thesis
  proof (cases "dv_driver ?d")
    case None
    then show ?thesis using ok i rs by (simp add: console_handle_interrupt_def device_at_def)
  next
    case (Some drv)
    then obtain n where n: "drv = DrvUart n" "ns_device n = Some i" "uart_ok mc n"
      using uart_ok_device_ok [OF ok d rs Some i(1)] by blast
    have w: "\<And>a. a \<in> set rs \<Longrightarrow> mc_contexts mc a \<noteq> None"
      using devices_okD(2) [OF ok i(1)] device_ok_console(3) [OF d rs] by simp
    have "devices_ok (put_device i (?d\<lparr>dv_driver := Some (DrvUart n'), dv_body := ConsoleBody (if ns_line_available n' then [] else rs)\<rparr>)
        (mc\<lparr>mc_uarts := us, mc_kernel := k\<rparr>))" if "ns_device n' = ns_device n" for n' us k
      using ok w device_ok_console_update(1) [OF d rs] n(2) that by (intro devices_ok_put) (auto split: if_splits)
    then show ?thesis using Some n i rs unfolding console_handle_interrupt_def
      by (auto simp: device_at_def as_console_driver_def
          intro!: typed_bind [OF typed_ns_handle_interrupt] typed_bind [OF typed_unblock_requests])
  qed
qed

lemma typed_console_output:
  assumes ok: "devices_ok mc" and i: "i < length (mc_devices mc)" "dv_type (mc_devices mc ! i) = TypeConsole"
  shows "typed ok_after (console_write i cs mc)" "typed ok_after (console_write_char i c mc)"
proof -
  let ?d = "mc_devices mc ! i"
  obtain rs where rs: "as_console ?d = Inr rs" using console_ok [OF ok i] by blast
  have d: "device_ok i ?d" by (rule devices_okD(1) [OF ok i(1)])
  have u: "\<exists>n. drv = DrvUart n \<and> uart_ok mc n" if "dv_driver ?d = Some drv" for drv
    using uart_ok_device_ok [OF ok d rs that i(1)] by blast
  show "typed ok_after (console_write i cs mc)"
    using ok i u unfolding console_write_def
    by (auto simp: device_at_def as_console_driver_def split: option.split intro!: typed_bind [OF typed_ns_write] dest!: u)
  show "typed ok_after (console_write_char i c mc)"
    using ok i u unfolding console_write_char_def
    by (auto simp: device_at_def as_console_driver_def split: option.split intro!: typed_bind [OF typed_ns_write_char] dest!: u)
qed

lemma typed_console_read:
  assumes ok: "devices_ok mc" and i: "i < length (mc_devices mc)" "dv_type (mc_devices mc ! i) = TypeConsole"
  shows "typed (\<lambda>(r, mc'). devices_ok mc' \<and> length (mc_devices mc') = length (mc_devices mc) \<and>
    dv_type (mc_devices mc' ! i) = TypeConsole) (console_read i mc)"
proof -
  let ?d = "mc_devices mc ! i"
  obtain rs where rs: "as_console ?d = Inr rs" using console_ok [OF ok i] by blast
  have d: "device_ok i ?d" by (rule devices_okD(1) [OF ok i(1)])
  show ?thesis
  proof (cases "dv_driver ?d")
    case None
    then show ?thesis using ok i by (simp add: console_read_def device_at_def)
  next
    case (Some drv)
    then obtain n where n: "drv = DrvUart n" "ns_device n = Some i" "uart_ok mc n"
      using uart_ok_device_ok [OF ok d rs Some i(1)] by blast
    have "devices_ok (put_device i (?d\<lparr>dv_driver := Some (DrvUart n')\<rparr>) mc)" if "ns_device n' = ns_device n" for n'
      using ok device_ok_console_update(2) [OF d rs] n(2) that devices_okD(2) [OF ok i(1)] by (intro devices_ok_put) auto
    moreover have "ns_device (snd (ns_read_line n)) = ns_device n" by (simp add: ns_read_line_def split: list.split)
    ultimately show ?thesis using Some n i unfolding console_read_def
      by (auto simp: device_at_def as_console_driver_def put_device_def split: prod.split)
  qed
qed

lemma devices_ok_contexts:
  "devices_ok mc \<Longrightarrow> (\<And>a. mc_contexts mc a \<noteq> None \<Longrightarrow> cs a \<noteq> None) \<Longrightarrow> devices_ok (mc\<lparr>mc_contexts := cs\<rparr>)"
  by (simp add: devices_ok_def)

lemma console_enqueue:
  assumes ok: "devices_ok mc" and i: "i < length (mc_devices mc)" "dv_type (mc_devices mc ! i) = TypeConsole"
  shows "\<exists>rs. as_console (mc_devices mc ! i) = Inr rs \<and>
    devices_ok (put_device i ((mc_devices mc ! i)\<lparr>dv_body := ConsoleBody (rs @ [a])\<rparr>)
      (mc\<lparr>mc_contexts := create_context (mc_contexts mc) a, mc_next_context := k\<rparr>))"
proof -
  let ?mc = "mc\<lparr>mc_contexts := create_context (mc_contexts mc) a, mc_next_context := k\<rparr>" let ?d = "mc_devices mc ! i"
  have ok': "devices_ok ?mc"
    using devices_ok_contexts [OF ok, of "create_context (mc_contexts mc) a"] by (simp add: create_context_def)
  obtain rs where rs: "as_console ?d = Inr rs" using console_ok [OF ok i] by blast
  have d: "device_ok i ?d" by (rule devices_okD(1) [OF ok i(1)])
  have "mc_contexts ?mc b \<noteq> None" if "b \<in> set (rs @ [a])" for b
    using that devices_okD(2) [OF ok i(1)] device_ok_console(3) [OF d rs] by (auto simp: create_context_def)
  moreover have "device_ok i (?d\<lparr>dv_body := ConsoleBody (rs @ [a])\<rparr>)"
    using d rs by (auto simp: device_ok_def as_console_def split: DeviceBody.splits)
  ultimately have "devices_ok (put_device i (?d\<lparr>dv_body := ConsoleBody (rs @ [a])\<rparr>) ?mc)"
    by (intro devices_ok_put [OF ok']) auto
  then show ?thesis using rs by blast
qed

lemma typed_console_read_async:
  assumes ok: "devices_ok mc" and i: "i < length (mc_devices mc)" "dv_type (mc_devices mc ! i) = TypeConsole"
  shows "typed ok_after (console_read_async i mc)"
  unfolding console_read_async_def
proof (rule typed_bind [OF typed_console_read [OF ok i]], elim case_prodE conjE)
  fix x and r :: "cstr error_or" and mc'
  assume mc': "devices_ok mc'" "length (mc_devices mc') = length (mc_devices mc)" "dv_type (mc_devices mc' ! i) = TypeConsole"
    and x: "x = (r, mc')"
  have i': "i < length (mc_devices mc')" using i(1) mc'(2) by simp
  obtain rs where "as_console (mc_devices mc' ! i) = Inr rs"
    "devices_ok (put_device i ((mc_devices mc' ! i)\<lparr>dv_body := ConsoleBody (rs @ [mc_next_context mc'])\<rparr>)
      (mc'\<lparr>mc_contexts := create_context (mc_contexts mc') (mc_next_context mc'), mc_next_context := Suc (mc_next_context mc')\<rparr>))"
    using console_enqueue [OF mc'(1) i' mc'(3)] by blast
  then show "typed ok_after (case x of (r, mc) \<Rightarrow> (case r of
         Inl _ \<Rightarrow>
           (let a = mc_next_context mc; (request, contexts) = create_blocked (mc_contexts mc) a;
                mc = mc\<lparr>mc_contexts := contexts, mc_next_context := Suc a\<rparr> in
            exec_bind (device_at mc i) (\<lambda>d. exec_bind (as_console d) (\<lambda>requests.
              Inr (Inr request, put_device i (d\<lparr>dv_body := ConsoleBody (requests @ [a])\<rparr>) mc))))
       | Inr line \<Rightarrow> Inr (Inr (create_finalized line), mc)))"
    using mc' i' x by (simp add: Let_def create_blocked_def device_at_def split: sum.split)
qed

section \<open>Block devices\<close>

lemma typed_on_block:
  assumes ok: "devices_ok mc" and i: "i < length (mc_devices mc)" "dv_type (mc_devices mc ! i) = TypeBlock"
    and f: "\<And>dev. typed_run (\<lambda>_. True) (f dev)"
  shows "typed_run ok_after (on_block i mc f)"
proof -
  let ?d = "mc_devices mc ! i"
  have d: "device_ok i ?d" by (rule devices_okD(1) [OF ok i(1)])
  obtain bs k where b: "dv_body ?d = BlockBody bs k" using device_ok_body(2) [OF d] i(2) by blast
  obtain v where v: "dv_underlying ?d = UVirtIO v" using d b by (auto simp: device_ok_def)
  have drv: "dv_driver ?d = None \<or> (\<exists>ignored. dv_driver ?d = Some (DrvBlock i ignored))" using d b by (simp add: device_ok_def)
  have view: "typed_any (block_view i mc)"
    using i b v drv by (auto simp: block_view_def device_at_def as_block_driver_def as_virtio_def)
  have "devices_ok (put_device i (?d\<lparr>dv_body := BlockBody bs' k'\<rparr>) mc)" for bs' k'
    using d b i(2) v ok by (intro devices_ok_put) (auto simp: device_ok_def waiting_def)
  moreover have "devices_ok (put_device i (?d\<lparr>dv_body := BlockBody bs' k', dv_driver := Some (DrvBlock i ig), dv_underlying := UVirtIO v'\<rparr>) mc)" for bs' k' ig v'
    using d b i(2) v ok by (intro devices_ok_put) (auto simp: device_ok_def waiting_def)
  ultimately have store: "devices_ok (block_store i dev mc)" for dev
    using drv i by (auto simp: block_store_def Let_def put_device_def devices_ok_def split: option.split)
  show ?thesis unfolding on_block_def
    by (auto intro!: typed_run_any_bind f view store)
qed

lemma typed_block_ops:
  assumes ok: "devices_ok mc" and i: "i < length (mc_devices mc)" "dv_type (mc_devices mc ! i) = TypeBlock"
  shows "typed_run ok_after (block_async new wr buffer sz off i mc)"
    "typed_run ok_after (block_poll new poll wr buffer sz off i mc)"
    "typed_run ok_after (block_interrupt i mc)"
proof -
  show "typed_run ok_after (block_async new wr buffer sz off i mc)" unfolding block_async_def
    by (rule typed_on_block [OF ok i]) (simp add: typed_device_async)
  show "typed_run ok_after (block_poll new poll wr buffer sz off i mc)" unfolding block_poll_def
    by (rule typed_on_block [OF ok i typed_device_poll])
  show "typed_run ok_after (block_interrupt i mc)" unfolding block_interrupt_def
    by (rule typed_run_bind [OF typed_on_block [OF ok i typed_block_handle_interrupt]]) auto
qed

section \<open>Managers and drivers\<close>

lemma typed_run_device_at: "typed_any (device_at mc i)"
  by (simp add: device_at_def)

lemma typed_create_dev_inode: "devices_ok mc \<Longrightarrow> typed_run ok_after (create_dev_inode i mc)"
  unfolding create_dev_inode_def
  by (rule typed_run_any_bind) (auto simp: typed_run_device_at intro!: typed_run_any_bind typed_hm_set)

lemma typed_virtio_device_init:
  assumes ok: "devices_ok mc" and i: "i < length (mc_devices mc)" and u: "dv_underlying (mc_devices mc ! i) = UVirtIO v"
  shows "typed ok_after (virtio_device_init hw q i mc)"
proof -
  let ?d = "mc_devices mc ! i"
  have "device_ok i (?d\<lparr>dv_underlying := UVirtIO v'\<rparr>)" for v'
    using devices_okD(1) [OF ok i] u by (auto simp: device_ok_def split: DeviceBody.splits)
  then have "devices_ok (put_device i (?d\<lparr>dv_underlying := UVirtIO v'\<rparr>) mc)" for v'
    using devices_okD(2) [OF ok i] by (intro devices_ok_put [OF ok]) auto
  then show ?thesis unfolding virtio_device_init_def using i u
    by (auto simp: device_at_def as_virtio_def intro!: typed_any_bind typed_virtio_init)
qed

lemma typed_device_init:
  assumes ok: "devices_ok mc"
  shows "typed_run ok_after (device_init hw q i mc)"
proof (cases "i < length (mc_devices mc)")
  case True
  then show ?thesis unfolding device_init_def
    using devices_okD(1) [OF ok True] typed_virtio_device_init [OF ok True, of _ hw q] ok
    by (auto simp: device_at_def device_ok_def split: DeviceBody.splits
        intro!: typed_run_bind [OF typed_create_dev_inode [OF ok]])
qed (simp add: device_init_def device_at_def)

lemma typed_delegate: "devices_ok mc \<Longrightarrow> typed_run ok_after (delegate_device_interrupt interrupt_id mc)"
proof (cases "List.find (\<lambda>i. handles_interrupt (mc_devices mc ! i) interrupt_id) [0..<length (mc_devices mc)]")
  case (Some i)
  assume ok: "devices_ok mc"
  have i: "i < length (mc_devices mc)" using Some by (auto simp: find_Some_iff)
  then show ?thesis using Some devices_okD(1) [OF ok i] typed_block_ops(3) [OF ok i] typed_console_handle_interrupt [OF ok i] ok
    by (auto simp: delegate_device_interrupt_def device_handle_interrupt_def device_at_def device_ok_def split: DeviceBody.splits)
qed (simp add: delegate_device_interrupt_def)

lemma typed_is_compatible: "typed_any (is_compatible_with c d)"
  by (cases c; cases "dv_underlying d") (simp_all add: as_universal_def)

lemma find_compatible_sound:
  "typed (\<lambda>ds. \<forall>c \<in> set ds. is_compatible_with c d = Inr True) (find_compatible_drivers cs d)"
proof (induction cs)
  case (Cons c cs)
  then show ?case using typed_is_compatible [of c d]
    by (cases "is_compatible_with c d"; cases "find_compatible_drivers cs d") auto
qed simp

lemma put_put_device: "put_device i d (put_device i d' mc) = put_device i d mc"
  by (simp add: put_device_def)

lemma typed_driver_init_uart:
  assumes ok: "devices_ok mc" and i: "i < length (mc_devices mc)" "dv_type (mc_devices mc ! i) = TypeConsole"
  shows "typed devices_ok (driver_init i (DrvUart ns_new) mc)"
proof -
  let ?d = "mc_devices mc ! i" let ?n = "ns_new\<lparr>ns_device := Some i\<rparr>"
  have d: "device_ok i ?d" by (rule devices_okD(1) [OF ok i(1)])
  obtain rs where rs: "as_console ?d = Inr rs" using console_ok [OF ok i] by blast
  obtain u where u: "dv_underlying ?d = UUniversal u" using device_ok_console(2) [OF d rs] by blast
  have "devices_ok (put_device i (?d\<lparr>dv_driver := Some (DrvUart ?n)\<rparr>) (mc\<lparr>mc_uarts := us\<rparr>))" for us
    using ok devices_okD(2) [OF ok i(1)] device_ok_console_update(2) [OF d rs] by (intro devices_ok_put) auto
  moreover have "as_console (?d\<lparr>dv_driver := drv\<rparr>) = Inr rs" for drv using rs by (simp add: as_console_def)
  ultimately show ?thesis using i u
    by (simp add: driver_init_def ns_init_def Let_def device_at_def as_universal_def put_device_def on_uart_def)
qed

lemma typed_load_driver:
  assumes ok: "devices_ok mc"
  shows "typed devices_ok (load_driver cs i mc)"
proof (cases "i < length (mc_devices mc)")
  case i: True
  let ?d = "mc_devices mc ! i"
  have d: "device_ok i ?d" by (rule devices_okD(1) [OF ok i])
  have one: "typed devices_ok (exec_bind (instantiate_driver c i ?d) (\<lambda>r. case r of Inl _ \<Rightarrow> Inr mc | Inr drv \<Rightarrow> driver_init i drv mc))"
    if c: "is_compatible_with c ?d = Inr True" for c
  proof (cases c)
    case VirtIODeviceDriverDescriptor
    then have ty: "dv_type ?d = TypeBlock" using c by simp
    then obtain bs k where b: "dv_body ?d = BlockBody bs k" using device_ok_body(2) [OF d] by blast
    have "devices_ok (put_device i (?d\<lparr>dv_driver := Some (DrvBlock i [])\<rparr>) mc)"
      using d b ty devices_okD(2) [OF ok i] by (intro devices_ok_put [OF ok]) (auto simp: device_ok_def)
    then show ?thesis using VirtIODeviceDriverDescriptor c ty b i by (simp add: driver_init_def device_at_def Let_def)
  next
    case NS16550ADriverDescriptor
    then have "dv_type ?d = TypeConsole" using c by (auto split: if_splits)
    then show ?thesis using NS16550ADriverDescriptor typed_driver_init_uart [OF ok i] by simp
  qed
  have "typed devices_ok (exec_bind (find_compatible_drivers cs ?d) (\<lambda>drivers.
         case drivers of [] \<Rightarrow> Inr mc
         | c # _ \<Rightarrow> exec_bind (instantiate_driver c i ?d) (\<lambda>r. case r of Inl _ \<Rightarrow> Inr mc | Inr drv \<Rightarrow> driver_init i drv mc)))"
    by (rule typed_bind [OF find_compatible_sound]) (use ok one in \<open>auto split: list.split\<close>)
  then show ?thesis using i ok by (simp add: load_driver_def device_at_def)
qed (simp add: load_driver_def device_at_def)

lemma typed_load_drivers: "devices_ok mc \<Longrightarrow> typed devices_ok (load_drivers cs mc)"
proof -
  have "devices_ok mc \<Longrightarrow> typed devices_ok (load_drivers_from cs is mc)" for "is" mc
    by (induction "is" arbitrary: mc) (auto intro!: typed_bind [OF typed_load_driver])
  then show "devices_ok mc \<Longrightarrow> ?thesis" by (simp add: load_drivers_def)
qed

text \<open>Devices found on a bus are added with the class their type names.\<close>

lemma device_ok_new:
  "device_ok i (virtio_device_object k v ints)" "waiting (virtio_device_object k v ints) = []"
  "device_ok i (console_device_new (UUniversal u) ints)" "waiting (console_device_new (UUniversal u) ints) = []"
  by (simp_all add: virtio_device_object_def entropy_device_new_def block_device_new_def console_device_new_def
      device_new_def device_ok_def waiting_def)

lemma add_virtio_ok: "devices_ok mc \<Longrightarrow> devices_ok (snd (add_device (virtio_device_object k v ints) mc))"
  by (rule devices_ok_add) (simp_all add: device_ok_new)

lemma try_to_load_ok: "devices_ok mc \<Longrightarrow> devices_ok (snd (try_to_load_mmio_device hw address ints mc))"
  by (simp add: try_to_load_mmio_device_def Let_def case_prod_beta add_virtio_ok)

lemma typed_load_nodes: "devices_ok mc \<Longrightarrow> typed_run devices_ok (load_nodes hw q nodes mc)"
proof (induction nodes arbitrary: mc)
  case (Cons node nodes)
  have "typed_run devices_ok (case try_to_load_mmio_device hw address ints mc of
       (Inl _, mc) \<Rightarrow> load_nodes hw q nodes mc
     | (Inr i, mc) \<Rightarrow> run_bind (device_init hw (q i) i mc) (\<lambda>(_, mc). load_nodes hw q nodes mc))" for address ints
    using try_to_load_ok [OF Cons.prems, of hw address ints] Cons.IH
    by (auto split: prod.split sum.split intro!: typed_run_bind [OF typed_device_init])
  then show ?case unfolding load_nodes.simps
    by (intro typed_run_any_bind) (simp_all add: typed_node_base_address typed_node_interrupts)
qed simp

lemma typed_bus_drivers:
  assumes ok: "devices_ok mc"
  shows "typed_run devices_ok (virtio_driver_init hw q root mc)" "typed_run devices_ok (mmio_driver_init hw q root mc)"
proof -
  show "typed_run devices_ok (virtio_driver_init hw q root mc)" unfolding virtio_driver_init_def
    by (intro typed_run_any_bind typed_find_nodes typed_load_nodes ok)
  have "typed_run devices_ok (run_bind (device_init hw (q i) i mc') (\<lambda>(_, mc). Some (Inr mc)))"
    if "add_device (console_device_new (UUniversal u) ints) mc = (i, mc')" for u ints i mc'
  proof (rule typed_run_bind [OF typed_device_init])
    show "devices_ok mc'" using devices_ok_add [OF ok, of "console_device_new (UUniversal u) ints"] that by (simp add: device_ok_new)
  qed auto
  then show "typed_run devices_ok (mmio_driver_init hw q root mc)" unfolding mmio_driver_init_def Let_def
    by (auto simp: ok typed_node_base_address typed_node_interrupts typed_find_node split: sum.split prod.split
        intro!: typed_run_any_bind)
qed

section \<open>The steps of the device layer\<close>

text \<open>
  What the kernel does with its devices, in any order, and what happens outside: characters arrive at
  a UART, a VirtIO device writes its rings, the kernel assigns contexts and uses its heap.
\<close>

inductive device_step :: "bus_device \<Rightarrow> FDTNode \<Rightarrow> machine \<Rightarrow> machine \<Rightarrow> bool" for hw root where
  virtio: "virtio_driver_init hw q root mc = Some (Inr mc') \<Longrightarrow> device_step hw root mc mc'"
| mmio: "mmio_driver_init hw q root mc = Some (Inr mc') \<Longrightarrow> device_step hw root mc mc'"
| drivers: "load_drivers cs mc = Inr mc' \<Longrightarrow> device_step hw root mc mc'"
| interrupt: "delegate_device_interrupt n mc = Some (Inr (r, mc')) \<Longrightarrow> device_step hw root mc mc'"
| async: "i \<in> set (get_devices_of_type TypeBlock mc) \<Longrightarrow> block_async new wr buffer sz off i mc = Some (Inr (r, mc')) \<Longrightarrow>
    device_step hw root mc mc'"
| poll: "i \<in> set (get_devices_of_type TypeBlock mc) \<Longrightarrow> block_poll new status wr buffer sz off i mc = Some (Inr (r, mc')) \<Longrightarrow>
    device_step hw root mc mc'"
| write_string: "i \<in> set (get_devices_of_type TypeConsole mc) \<Longrightarrow> console_write i cs mc = Inr (r, mc') \<Longrightarrow> device_step hw root mc mc'"
| write_character: "i \<in> set (get_devices_of_type TypeConsole mc) \<Longrightarrow> console_write_char i c mc = Inr (r, mc') \<Longrightarrow> device_step hw root mc mc'"
| read_line: "i \<in> set (get_devices_of_type TypeConsole mc) \<Longrightarrow> console_read i mc = Inr (l, mc') \<Longrightarrow> device_step hw root mc mc'"
| read_request: "i \<in> set (get_devices_of_type TypeConsole mc) \<Longrightarrow> console_read_async i mc = Inr (rq, mc') \<Longrightarrow> device_step hw root mc mc'"
| outside: "(\<And>a. mc_contexts mc a \<noteq> None \<Longrightarrow> cs a \<noteq> None) \<Longrightarrow>
    device_step hw root mc (mc\<lparr>mc_contexts := cs, mc_heap := h, mc_uarts := us, mc_kernel := k\<rparr>)"
| device_memory: "i < length (mc_devices mc) \<Longrightarrow> dv_underlying (mc_devices mc ! i) = UVirtIO v \<Longrightarrow>
    device_step hw root mc (put_device i ((mc_devices mc ! i)\<lparr>dv_underlying := UVirtIO v'\<rparr>) mc)"

lemma devices_of_typeD:
  "i \<in> set (get_devices_of_type t mc) \<Longrightarrow> i < length (mc_devices mc)"
  "i \<in> set (get_devices_of_type t mc) \<Longrightarrow> dv_type (mc_devices mc ! i) = t"
  by (simp_all add: get_devices_of_type_def)

lemma typed_ok_afterD: "typed ok_after e \<Longrightarrow> e = Inr (r, mc') \<Longrightarrow> devices_ok mc'"
  by simp

lemma typed_run_ok_afterD: "typed_run ok_after e \<Longrightarrow> e = Some (Inr (r, mc')) \<Longrightarrow> devices_ok mc'"
  by simp

lemma device_step_ok: "device_step hw root mc mc' \<Longrightarrow> devices_ok mc \<Longrightarrow> devices_ok mc'"
proof (induction rule: device_step.induct)
  case (virtio q mc mc')
  then show ?case using typed_bus_drivers(1) [of mc hw q root] by simp
next
  case (mmio q mc mc')
  then show ?case using typed_bus_drivers(2) [of mc hw q root] by simp
next
  case (drivers cs mc mc')
  then show ?case using typed_load_drivers [of mc cs] by simp
next
  case (interrupt n mc r mc')
  then show ?case using typed_run_ok_afterD [OF typed_delegate] by blast
next
  case (async i mc new wr buffer sz off r mc')
  then show ?case using typed_run_ok_afterD [OF typed_block_ops(1)] devices_of_typeD by blast
next
  case (poll i mc new status wr buffer sz off r mc')
  then show ?case using typed_run_ok_afterD [OF typed_block_ops(2)] devices_of_typeD by blast
next
  case (write_string i mc cs r mc')
  then show ?case using typed_ok_afterD [OF typed_console_output(1)] devices_of_typeD by blast
next
  case (write_character i mc c r mc')
  then show ?case using typed_ok_afterD [OF typed_console_output(2)] devices_of_typeD by blast
next
  case (read_line i mc l mc')
  then show ?case using typed_console_read [of mc i] devices_of_typeD by fastforce
next
  case (read_request i mc rq mc')
  then show ?case using typed_ok_afterD [OF typed_console_read_async] devices_of_typeD by blast
next
  case (outside mc cs h us k)
  then show ?case using devices_ok_contexts [of mc cs] by simp
next
  case (device_memory i mc v v')
  have "device_ok i ((mc_devices mc ! i)\<lparr>dv_underlying := UVirtIO v'\<rparr>)"
    using devices_okD(1) [OF device_memory(3,1)] device_memory(2) by (auto simp: device_ok_def split: DeviceBody.splits)
  then show ?case using devices_okD(2) [OF device_memory(3,1)] by (intro devices_ok_put device_memory(3)) auto
qed

definition devices_reachable :: "bus_device \<Rightarrow> FDTNode \<Rightarrow> machine \<Rightarrow> bool" where
  "devices_reachable hw root mc \<longleftrightarrow> (\<exists>mc0. mc_devices mc0 = [] \<and> (device_step hw root)\<^sup>*\<^sup>* mc0 mc)"

lemma devices_reachable_ok: "devices_reachable hw root mc \<Longrightarrow> devices_ok mc"
proof -
  have "(device_step hw root)\<^sup>*\<^sup>* mc0 mc \<Longrightarrow> mc_devices mc0 = [] \<Longrightarrow> devices_ok mc" for mc0
  proof (induction rule: rtranclp_induct)
    case base
    then show ?case by (simp add: devices_ok_def)
  next
    case (step y z)
    then show ?case using device_step_ok by blast
  qed
  then show "devices_reachable hw root mc \<Longrightarrow> devices_ok mc" by (auto simp: devices_reachable_def)
qed

text \<open>
  C33. In every state the kernel and the devices can reach from a device manager without devices, each
  device has the class its type names (block and entropy devices sit on a VirtIO device, consoles on
  a universal device) and a driver of the class it is cast to, whose device is the device itself; and
  none of the unchecked casts of the code is wrong: not in the bus drivers, in loading drivers, in the
  delegation of an interrupt, and not in the operations of the devices \<^verbatim>\<open>get_devices_of_type\<close> returns.
\<close>

theorem device_layer_typed:
  assumes "devices_reachable hw root mc"
  shows "(\<forall>i < length (mc_devices mc). device_ok i (mc_devices mc ! i)) \<and>
    (\<forall>q. virtio_driver_init hw q root mc \<noteq> Some (Inl BadCast) \<and> mmio_driver_init hw q root mc \<noteq> Some (Inl BadCast)) \<and>
    (\<forall>cs. load_drivers cs mc \<noteq> Inl BadCast) \<and>
    (\<forall>n. delegate_device_interrupt n mc \<noteq> Some (Inl BadCast)) \<and>
    (\<forall>i \<in> set (get_devices_of_type TypeBlock mc). \<forall>new poll wr buffer sz off.
       block_async new wr buffer sz off i mc \<noteq> Some (Inl BadCast) \<and> block_poll new poll wr buffer sz off i mc \<noteq> Some (Inl BadCast)) \<and>
    (\<forall>i \<in> set (get_devices_of_type TypeConsole mc). \<forall>cs c.
       console_write i cs mc \<noteq> Inl BadCast \<and> console_write_char i c mc \<noteq> Inl BadCast \<and>
       console_read i mc \<noteq> Inl BadCast \<and> console_read_async i mc \<noteq> Inl BadCast)"
proof -
  have ok: "devices_ok mc" by (rule devices_reachable_ok [OF assms])
  note b = devices_of_typeD [of _ TypeBlock mc] and c = devices_of_typeD [of _ TypeConsole mc]
  show ?thesis
    by (intro conjI allI ballI impI; (rule devices_okD(1) [OF ok] typed_run_no_cast [OF typed_bus_drivers(1) [OF ok]]
        typed_run_no_cast [OF typed_bus_drivers(2) [OF ok]] typed_no_cast [OF typed_load_drivers [OF ok]]
        typed_run_no_cast [OF typed_delegate [OF ok]] typed_run_no_cast [OF typed_block_ops(1) [OF ok b]]
        typed_run_no_cast [OF typed_block_ops(2) [OF ok b]] typed_no_cast [OF typed_console_output(1) [OF ok c]]
        typed_no_cast [OF typed_console_output(2) [OF ok c]] typed_no_cast [OF typed_console_read [OF ok c]]
        typed_no_cast [OF typed_console_read_async [OF ok c]]); assumption?)
qed

definition serial_tree :: FDTNode where
  "serial_tree = FDTNode [] [] [FDTNode (cchars ''soc'') [] [FDTNode (cchars ''serial@10000000'')
     [FDTProperty (cchars ''interrupts'') [0, 0, 0, 10], FDTProperty (cchars ''compatible'') (cchars ''ns16550a'' @ [0])] []]]"

definition machine_new :: "kernel \<Rightarrow> machine" where
  "machine_new k = \<lparr>mc_devices = [], mc_devfs = hm_new, mc_mapped = [], mc_heap = \<lambda>_. None,
     mc_uarts = \<lambda>_. \<lparr>ur_received = [], ur_sent = [], ur_registers = \<lambda>_. 0, ur_divisor = (0, 0)\<rparr>,
     mc_kernel = k, mc_contexts = \<lambda>_. None, mc_next_context = 0, mc_callbacks = []\<rparr>"

declare find_node_loop.simps [code]

lemma serial_found: "find_node serial_tree serial_path = Some (Inr (Inr (FDTNode (cchars ''serial@10000000'')
     [FDTProperty (cchars ''interrupts'') [0, 0, 0, 10], FDTProperty (cchars ''compatible'') (cchars ''ns16550a'' @ [0])] [])))"
  by code_simp

lemma serial_booted:
  "case mmio_driver_init (\<lambda>b r. 0) (\<lambda>i j. 0) serial_tree (machine_new k) of Some (Inr mc) \<Rightarrow>
     (case load_drivers [VirtIODeviceDriverDescriptor, NS16550ADriverDescriptor] mc of
        Inr mc' \<Rightarrow> get_devices_of_type TypeConsole mc' = [0] \<and> has_driver (mc_devices mc' ! 0) \<and>
          dv_interrupts (mc_devices mc' ! 0) = [10] | _ \<Rightarrow> False)
   | _ \<Rightarrow> False"
  by code_simp

theorem device_layer_typed_witness:
  "\<exists>mc. devices_reachable (\<lambda>b r. 0) serial_tree mc \<and> get_devices_of_type TypeConsole mc = [0] \<and> has_driver (mc_devices mc ! 0) \<and>
     device_ok 0 (mc_devices mc ! 0) \<and> console_read_async 0 mc \<noteq> Inl BadCast"
proof -
  fix k :: kernel
  obtain mc mc' where m: "mmio_driver_init (\<lambda>b r. 0) (\<lambda>i j. 0) serial_tree (machine_new k) = Some (Inr mc)"
      "load_drivers [VirtIODeviceDriverDescriptor, NS16550ADriverDescriptor] mc = Inr mc'"
      "get_devices_of_type TypeConsole mc' = [0]" "has_driver (mc_devices mc' ! 0)"
    using serial_booted [of k] by (auto split: option.splits sum.splits)
  have "device_step (\<lambda>b r. 0) serial_tree (machine_new k) mc" by (rule device_step.mmio [OF m(1)])
  moreover have "device_step (\<lambda>b r. 0) serial_tree mc mc'" by (rule device_step.drivers [OF m(2)])
  moreover have "mc_devices (machine_new k) = []" by (simp add: machine_new_def)
  ultimately have r: "devices_reachable (\<lambda>b r. 0) serial_tree mc'"
    unfolding devices_reachable_def by (meson converse_rtranclp_into_rtranclp rtranclp.rtrancl_refl)
  show ?thesis using device_layer_typed [OF r] r m(3,4) devices_of_typeD(1) [of 0 TypeConsole mc'] by auto
qed

end
