(* ===== verification/Consoles.thy ===== *)
theory Consoles
  imports DeviceTyping
begin

text \<open>
  The line discipline of the console, from the UART's receive queue to the threads that wait for a
  line: what the interrupts of a sequence of characters do, and what reading afterwards returns.
\<close>

section \<open>A console and its UART\<close>

definition console_at :: "machine \<Rightarrow> nat \<Rightarrow> NS16550ADriver \<Rightarrow> nat list \<Rightarrow> u64 \<Rightarrow> bool" where
  "console_at mc i n rs a \<longleftrightarrow> i < length (mc_devices mc) \<and> dv_type (mc_devices mc ! i) = TypeConsole \<and> dv_body (mc_devices mc ! i) = ConsoleBody rs \<and>
     dv_driver (mc_devices mc ! i) = Some (DrvUart n) \<and> ns_device n = Some i \<and>
     (\<exists>u. dv_underlying (mc_devices mc ! i) = UUniversal u \<and> ud_address u = a)"

text \<open>The divisor latch is closed, as \<^verbatim>\<open>init\<close> leaves it.\<close>

definition uart_open :: "Uart \<Rightarrow> bool" where
  "uart_open u \<longleftrightarrow> ur_registers u 3 AND 0x80 = 0"

lemma console_at_address: "console_at mc i n rs a \<Longrightarrow> ns_device n' = ns_device n \<Longrightarrow>
  ns_address n' (mc\<lparr>mc_uarts := us\<rparr>) = Inr a" "console_at mc i n rs a \<Longrightarrow> ns_device n' = ns_device n \<Longrightarrow> ns_address n' mc = Inr a"
  by (auto simp: console_at_def ns_address_def device_at_def as_universal_def)

definition echo :: "u8 \<Rightarrow> u8" where
  "echo c = (if c = 13 then 10 else c)"

definition feed :: "u8 \<Rightarrow> NS16550ADriver \<Rightarrow> NS16550ADriver" where
  "feed c n = (if c = 13 then n\<lparr>ns_lines := ns_lines n @ [ns_buffer n], ns_buffer := []\<rparr> else n\<lparr>ns_buffer := ns_buffer n @ [c]\<rparr>)"

definition uart_after :: "u8 \<Rightarrow> Uart \<Rightarrow> Uart" where
  "uart_after c u = u\<lparr>ur_received := tl (ur_received u), ur_sent := ur_sent u @ [echo c]\<rparr>"

lemma uart_write_open: "uart_open u \<Longrightarrow> uart_write 0 c u = u\<lparr>ur_sent := ur_sent u @ [c]\<rparr>"
  by (simp add: uart_write_def uart_open_def)

lemma driver_interrupt:
  assumes "console_at mc i n rs a" "ur_received (mc_uarts mc a) = c # later" "uart_open (mc_uarts mc a)"
  shows "ns_handle_interrupt n mc = Inr (feed c n, on_uart a (uart_after c) mc)"
proof -
  have o: "uart_open (mc_uarts mc a\<lparr>ur_received := later\<rparr>)" using assms(3) by (simp add: uart_open_def)
  have "ns_read_char n mc = Inr (Inr c, mc\<lparr>mc_uarts := (mc_uarts mc)(a := (mc_uarts mc a)\<lparr>ur_received := later\<rparr>)\<rparr>)"
    using assms by (simp add: ns_read_char_def console_at_address uart_read_def on_uart_def)
  then show ?thesis using assms o
    by (simp add: ns_handle_interrupt_def ns_write_char_def console_at_address feed_def Let_def on_uart_def
        uart_write_open uart_after_def echo_def)
qed

section \<open>Waking the threads that wait\<close>

definition wake :: "nat set \<Rightarrow> kernel \<Rightarrow> kernel" where
  "wake T k = k\<lparr>k_threads := \<lambda>t. if t \<in> T then map_option (\<lambda>th. th\<lparr>t_state := Running\<rparr>) (k_threads k t) else k_threads k t\<rparr>"

text \<open>The context \<^verbatim>\<open>a\<close> names the thread \<^verbatim>\<open>t\<close>.\<close>

definition waits :: "machine \<Rightarrow> nat \<Rightarrow> nat \<Rightarrow> bool" where
  "waits mc a t \<longleftrightarrow> (\<exists>c th. mc_contexts mc a = Some c \<and>
     get_thread (mc_kernel mc) (rc_pid c) (rc_tid c) = Inr (Inr (Some t)) \<and> k_threads (mc_kernel mc) t = Some th)"

lemma wake_empty [simp]: "wake {} k = k"
  by (simp add: wake_def)

lemma wake_wake [simp]: "wake S (wake T k) = wake (S \<union> T) k"
  by (simp add: wake_def option.map_comp comp_def fun_eq_iff)

lemma wake_get_thread: "get_thread (wake T k) pid tid = get_thread k pid tid"
proof -
  have same: "(case x of None \<Rightarrow> False | Some u \<Rightarrow> (case k_threads (wake T k) u of None \<Rightarrow> False | Some th \<Rightarrow> t_tid th = tid)) =
      (case x of None \<Rightarrow> False | Some u \<Rightarrow> (case k_threads k u of None \<Rightarrow> False | Some th \<Rightarrow> t_tid th = tid))" for x
    by (auto simp: wake_def split: option.split)
  show ?thesis unfolding get_thread_def get_process_def same by (simp add: wake_def)
qed

lemma wake_waits: "waits (mc\<lparr>mc_kernel := wake T (mc_kernel mc)\<rparr>) a t = waits mc a t"
  unfolding waits_def by (auto simp: wake_get_thread) (auto simp: wake_def split: if_splits)

lemma unblock_waits:
  assumes "waits mc a t"
  shows "\<exists>c. mc_contexts mc a = Some c \<and> unblock (rc_pid c) (rc_tid c) (mc_kernel mc) = Inr (wake {t} (mc_kernel mc))"
proof -
  obtain c th where c: "mc_contexts mc a = Some c"
    "get_thread (mc_kernel mc) (rc_pid c) (rc_tid c) = Inr (Inr (Some t))" "k_threads (mc_kernel mc) t = Some th"
    using assms by (auto simp: waits_def)
  have "(k_threads (mc_kernel mc))(t \<mapsto> th\<lparr>t_state := Running\<rparr>) = k_threads (wake {t} (mc_kernel mc))"
    using c(3) by (auto simp: wake_def)
  then have "unblock (rc_pid c) (rc_tid c) (mc_kernel mc) = Inr (wake {t} (mc_kernel mc))"
    using c by (simp add: unblock_def set_thread_state_def wake_def)
  then show ?thesis using c(1) by blast
qed

lemma unblock_requests_wake:
  "(\<And>a. a \<in> set rs \<Longrightarrow> waits mc a (t a)) \<Longrightarrow>
    unblock_requests True rs mc = Inr (mc\<lparr>mc_kernel := wake (t ` set rs) (mc_kernel mc)\<rparr>)"
proof (induction rs arbitrary: mc)
  case (Cons a rs)
  let ?mc = "mc\<lparr>mc_kernel := wake {t a} (mc_kernel mc)\<rparr>"
  have "\<And>b. b \<in> set rs \<Longrightarrow> waits ?mc b (t b)" using Cons.prems by (simp add: wake_waits)
  then have IH: "unblock_requests True rs ?mc = Inr (?mc\<lparr>mc_kernel := wake (t ` set rs) (mc_kernel ?mc)\<rparr>)" by (rule Cons.IH)
  obtain c where "mc_contexts mc a = Some c" "unblock (rc_pid c) (rc_tid c) (mc_kernel mc) = Inr (wake {t a} (mc_kernel mc))"
    using unblock_waits [of mc a "t a"] Cons.prems by auto
  then show ?case using IH by (simp add: Un_commute insert_commute)
qed simp

lemma unblock_requests_none: "unblock_requests False rs mc = Inr mc"
  by (induction rs arbitrary: mc) simp_all

section \<open>A sequence of characters\<close>

fun console_interrupts :: "nat \<Rightarrow> nat \<Rightarrow> machine \<Rightarrow> machine exec" where
  "console_interrupts 0 i mc = Inr mc"
| "console_interrupts (Suc k) i mc = exec_bind (console_handle_interrupt i mc) (\<lambda>(_, mc). console_interrupts k i mc)"

fun console_reads :: "nat \<Rightarrow> nat \<Rightarrow> machine \<Rightarrow> (cstr error_or list \<times> machine) exec" where
  "console_reads 0 i mc = Inr ([], mc)"
| "console_reads (Suc k) i mc = exec_bind (console_read i mc) (\<lambda>(r, mc).
     exec_bind (console_reads k i mc) (\<lambda>(rs, mc). Inr (r # rs, mc)))"

text \<open>What one interrupt with a character waiting does to the whole state.\<close>

definition fed :: "nat \<Rightarrow> u64 \<Rightarrow> (nat \<Rightarrow> nat) \<Rightarrow> u8 \<Rightarrow> NS16550ADriver \<times> nat list \<times> machine \<Rightarrow> NS16550ADriver \<times> nat list \<times> machine" where
  "fed i a t c = (\<lambda>(n, rs, mc).
     let n' = feed c n; rs' = (if ns_line_available n' then [] else rs);
         mc = on_uart a (uart_after c) mc;
         mc = (if ns_line_available n' then mc\<lparr>mc_kernel := wake (t ` set rs) (mc_kernel mc)\<rparr> else mc)
     in (n', rs', put_device i ((mc_devices mc ! i)\<lparr>dv_driver := Some (DrvUart n'), dv_body := ConsoleBody rs'\<rparr>) mc))"

lemma waits_uart [simp]: "waits (on_uart a f mc) b u = waits mc b u"
  by (simp add: waits_def on_uart_def)

lemma interrupt_fed:
  assumes c: "console_at mc i n rs a" and u: "ur_received (mc_uarts mc a) = c # later" "uart_open (mc_uarts mc a)"
    and w: "\<And>b. b \<in> set rs \<Longrightarrow> waits mc b (t b)"
  shows "console_handle_interrupt i mc = Inr (Inr (), snd (snd (fed i a t c (n, rs, mc))))"
proof -
  let ?mc = "on_uart a (uart_after c) mc"
  have d: "device_at mc i = Inr (mc_devices mc ! i)" "as_console (mc_devices mc ! i) = Inr rs" "dv_driver (mc_devices mc ! i) = Some (DrvUart n)"
    using c by (simp_all add: console_at_def device_at_def as_console_def)
  have "unblock_requests True rs ?mc = Inr (?mc\<lparr>mc_kernel := wake (t ` set rs) (mc_kernel ?mc)\<rparr>)"
    by (rule unblock_requests_wake) (simp add: w)
  then show ?thesis using d driver_interrupt [OF c u]
    by (cases "ns_line_available (feed c n)")
      (simp_all add: console_handle_interrupt_def as_console_driver_def unblock_requests_none fed_def Let_def put_device_def on_uart_def)
qed

lemma feed_device [simp]: "ns_device (feed c n) = ns_device n"
  by (simp add: feed_def)

lemma fed_keeps:
  assumes c: "console_at mc i n rs a" and "fed i a t c (n, rs, mc) = (n', rs', mc')"
  shows "console_at mc' i n' rs' a" "mc_uarts mc' = (mc_uarts mc)(a := uart_after c (mc_uarts mc a))"
    "n' = feed c n" "rs' = (if ns_line_available n' then [] else rs)" "mc_contexts mc' = mc_contexts mc"
    "mc_kernel mc' = (if ns_line_available n' then wake (t ` set rs) (mc_kernel mc) else mc_kernel mc)"
  using assms by (auto simp: fed_def Let_def console_at_def put_device_def on_uart_def split: if_splits)

lemma uart_after_open: "uart_open u \<Longrightarrow> uart_open (uart_after c u)"
  by (simp add: uart_open_def uart_after_def)

lemma feed_lines_mono: "ns_lines n \<noteq> [] \<Longrightarrow> ns_lines (fold feed cs n) \<noteq> []"
  by (induction cs arbitrary: n) (auto simp: feed_def)

lemma interrupts_fed:
  assumes "console_at mc i n rs a" "ur_received (mc_uarts mc a) = cs @ later" "uart_open (mc_uarts mc a)"
    and "\<And>b. b \<in> set rs \<Longrightarrow> waits mc b (t b)"
  shows "\<exists>mc' rs'. console_interrupts (length cs) i mc = Inr mc' \<and> console_at mc' i (fold feed cs n) rs' a \<and>
    mc_uarts mc' a = fold uart_after cs (mc_uarts mc a) \<and>
    (rs', mc_kernel mc') = (if cs = [] \<or> ns_lines (fold feed cs n) = [] then (rs, mc_kernel mc) else ([], wake (t ` set rs) (mc_kernel mc)))"
  using assms
proof (induction cs arbitrary: mc n rs)
  case (Cons c cs)
  obtain n' rs' mc' where f: "fed i a t c (n, rs, mc) = (n', rs', mc')" by (cases "fed i a t c (n, rs, mc)") auto
  note k = fed_keeps [OF Cons.prems(1) f]
  have step: "console_handle_interrupt i mc = Inr (Inr (), mc')"
    using interrupt_fed [OF Cons.prems(1) _ Cons.prems(3), of c "cs @ later" t] Cons.prems(2,4) f by simp
  have "waits mc' b (t b)" if "b \<in> set rs'" for b
    using that Cons.prems(4) k(4,5,6) by (auto simp: waits_def wake_get_thread split: if_splits)
  moreover have u: "mc_uarts mc' a = uart_after c (mc_uarts mc a)" by (simp add: k(2))
  moreover have "ur_received (mc_uarts mc' a) = cs @ later" "uart_open (mc_uarts mc' a)"
    using u Cons.prems(2,3) by (simp_all add: uart_after_open) (simp add: uart_after_def)
  ultimately obtain mc2 rs2 where IH: "console_interrupts (length cs) i mc' = Inr mc2" "console_at mc2 i (fold feed cs n') rs2 a"
      "mc_uarts mc2 a = fold uart_after cs (uart_after c (mc_uarts mc a))"
      "(rs2, mc_kernel mc2) = (if cs = [] \<or> ns_lines (fold feed cs n') = [] then (rs', mc_kernel mc') else ([], wake (t ` set rs') (mc_kernel mc')))"
    using Cons.IH [OF k(1)] by metis
  have "(rs2, mc_kernel mc2) = (if ns_lines (fold feed cs n') = [] then (rs, mc_kernel mc) else ([], wake (t ` set rs) (mc_kernel mc)))"
    using IH(4) k(4,6) feed_lines_mono [of n' cs] by (auto simp: ns_line_available_def split: if_splits)
  then show ?case using IH step k(3) by (intro exI [of _ mc2] exI [of _ rs2]) simp
qed simp

text \<open>Lines as the driver keeps them.\<close>

lemma feed_return: "feed 13 n = n\<lparr>ns_lines := ns_lines n @ [ns_buffer n], ns_buffer := []\<rparr>"
  by (simp add: feed_def)

lemma feed_other: "c \<noteq> 13 \<Longrightarrow> feed c n = n\<lparr>ns_buffer := ns_buffer n @ [c]\<rparr>"
  by (simp add: feed_def)

lemma feed_decompose:
  assumes "13 \<notin> set (ns_buffer n)"
  shows "\<exists>lines rest. ns_buffer n @ cs = concat (map (\<lambda>l. l @ [13]) lines) @ rest \<and> 13 \<notin> set rest \<and>
    (\<forall>l \<in> set lines. 13 \<notin> set l) \<and> fold feed cs n = n\<lparr>ns_lines := ns_lines n @ lines, ns_buffer := rest\<rparr>"
  using assms
proof (induction cs arbitrary: n)
  case Nil
  then show ?case by (intro exI [of _ "[]"] exI [of _ "ns_buffer n"]) simp
next
  case (Cons c cs)
  have "13 \<notin> set (ns_buffer (feed c n))" using Cons.prems by (simp add: feed_def)
  from Cons.IH [OF this] obtain lines rest where l: "ns_buffer (feed c n) @ cs = concat (map (\<lambda>l. l @ [13]) lines) @ rest" "13 \<notin> set rest"
      "\<forall>l \<in> set lines. 13 \<notin> set l" "fold feed cs (feed c n) = (feed c n)\<lparr>ns_lines := ns_lines (feed c n) @ lines, ns_buffer := rest\<rparr>"
    by blast
  show ?case
  proof (cases "c = 13")
    case True
    then show ?thesis using l Cons.prems by (intro exI [of _ "ns_buffer n # lines"] exI [of _ rest]) (auto simp: feed_return)
  next
    case False
    then show ?thesis using l by (intro exI [of _ lines] exI [of _ rest]) (auto simp: feed_other)
  qed
qed

lemma uart_after_fold:
  "ur_sent (fold uart_after cs u) = ur_sent u @ map echo cs" "ur_received u = cs @ later \<Longrightarrow> ur_received (fold uart_after cs u) = later"
  by (induction cs arbitrary: u) (simp_all add: uart_after_def)

lemma console_read_line:
  assumes "console_at mc i n rs a"
  shows "\<exists>mc'. console_read i mc = Inr ((case ns_lines n of [] \<Rightarrow> Inl (create_from_string ''Buffer is empty.'') | l # _ \<Rightarrow> Inr l), mc') \<and>
    console_at mc' i (n\<lparr>ns_lines := tl (ns_lines n)\<rparr>) rs a"
  using assms
  by (cases "ns_lines n") (auto simp: console_read_def console_at_def device_at_def as_console_driver_def ns_read_line_def put_device_def)

lemma console_reads_lines:
  assumes "console_at mc i n rs a"
  shows "\<exists>mc'. console_reads (length (ns_lines n)) i mc = Inr (map Inr (ns_lines n), mc') \<and> console_at mc' i (n\<lparr>ns_lines := []\<rparr>) rs a"
  using assms
proof (induction "ns_lines n" arbitrary: n mc)
  case Nil
  have e: "n\<lparr>ns_lines := []\<rparr> = n" using Nil.hyps by (cases n) simp
  show ?case using Nil.prems Nil.hyps [symmetric] by (simp add: e)
next
  case (Cons l ls)
  obtain mc1 where mc1: "console_read i mc = Inr (Inr l, mc1)" "console_at mc1 i (n\<lparr>ns_lines := ls\<rparr>) rs a"
    using console_read_line [OF Cons.prems] Cons.hyps(2) [symmetric] by auto
  have "ls = ns_lines (n\<lparr>ns_lines := ls\<rparr>)" by simp
  from Cons.hyps(1) [OF this mc1(2)] obtain mc2 where "console_reads (length ls) i mc1 = Inr (map Inr ls, mc2)"
      "console_at mc2 i (n\<lparr>ns_lines := []\<rparr>) rs a" by auto
  then show ?case using mc1(1) Cons.hyps(2) [symmetric] by auto
qed

text \<open>
  C32. A console receives a sequence of characters, one interrupt each.  The driver cuts them at carriage
  returns into lines, after the characters it already had; every character is echoed, a return as a line
  feed.  As soon as a line is complete every thread that waits for one is made runnable and no context
  waits any more; until then the scheduler's state is unchanged.  Reading returns the lines in
  the order they came and then the error of an empty buffer.
\<close>

theorem console_lines:
  assumes "console_at mc i n rs a" "13 \<notin> set (ns_buffer n)"
    and "ur_received (mc_uarts mc a) = cs @ later" "uart_open (mc_uarts mc a)" "\<forall>b \<in> set rs. waits mc b (t b)"
  shows "\<exists>mc' mc'' lines rest. console_interrupts (length cs) i mc = Inr mc' \<and>
    ns_buffer n @ cs = concat (map (\<lambda>l. l @ [13]) lines) @ rest \<and> 13 \<notin> set rest \<and> (\<forall>l \<in> set lines. 13 \<notin> set l) \<and>
    ur_received (mc_uarts mc' a) = later \<and> ur_sent (mc_uarts mc' a) = ur_sent (mc_uarts mc a) @ map echo cs \<and>
    dv_body (mc_devices mc' ! i) = ConsoleBody (if cs = [] \<or> ns_lines n @ lines = [] then rs else []) \<and>
    mc_kernel mc' = (if cs = [] \<or> ns_lines n @ lines = [] then mc_kernel mc else wake (t ` set rs) (mc_kernel mc)) \<and>
    console_reads (length (ns_lines n @ lines)) i mc' = Inr (map Inr (ns_lines n @ lines), mc'') \<and>
    (\<exists>mc3. console_read i mc'' = Inr (Inl (create_from_string ''Buffer is empty.''), mc3))"
proof -
  obtain mc' rs' where s: "console_interrupts (length cs) i mc = Inr mc'" "console_at mc' i (fold feed cs n) rs' a"
    "mc_uarts mc' a = fold uart_after cs (mc_uarts mc a)"
    "(rs', mc_kernel mc') = (if cs = [] \<or> ns_lines (fold feed cs n) = [] then (rs, mc_kernel mc) else ([], wake (t ` set rs) (mc_kernel mc)))"
    using interrupts_fed [OF assms(1,3,4)] assms(5) by blast
  obtain lines rest where l: "ns_buffer n @ cs = concat (map (\<lambda>l. l @ [13]) lines) @ rest" "13 \<notin> set rest"
    "\<forall>l \<in> set lines. 13 \<notin> set l" "fold feed cs n = n\<lparr>ns_lines := ns_lines n @ lines, ns_buffer := rest\<rparr>"
    using feed_decompose [OF assms(2)] by blast
  obtain mc'' where r: "console_reads (length (ns_lines n @ lines)) i mc' = Inr (map Inr (ns_lines n @ lines), mc'')"
    "console_at mc'' i ((fold feed cs n)\<lparr>ns_lines := []\<rparr>) rs' a"
    using console_reads_lines [OF s(2)] l(4) by auto
  have e: "\<exists>mc3. console_read i mc'' = Inr (Inl (create_from_string ''Buffer is empty.''), mc3)"
    using console_read_line [OF r(2)] by auto
  have "dv_body (mc_devices mc' ! i) = ConsoleBody rs'" using s(2) by (simp add: console_at_def)
  then have "dv_body (mc_devices mc' ! i) = ConsoleBody (if cs = [] \<or> ns_lines n @ lines = [] then rs else [])"
    "mc_kernel mc' = (if cs = [] \<or> ns_lines n @ lines = [] then mc_kernel mc else wake (t ` set rs) (mc_kernel mc))"
    using s(4) l(4) by (auto split: if_splits)
  then show ?thesis using s(1,3) l(1,2,3) r(1) e uart_after_fold [where u = "mc_uarts mc a" and cs = cs] assms(3)
    by (intro exI [of _ mc'] exI [of _ mc''] exI [of _ lines] exI [of _ rest]) simp
qed

lemma one_line:
  assumes "[104, 105, 13 :: u8] = concat (map (\<lambda>l. l @ [13]) lines) @ rest" "13 \<notin> set rest" "\<forall>l \<in> set lines. 13 \<notin> set l"
  shows "lines = [[104, 105]]"
proof -
  obtain l ls where ls: "lines = l # ls" using assms(1,2) by (cases lines) auto
  then have "[104, 105, 13] = l @ 13 # concat (map (\<lambda>l. l @ [13]) ls) @ rest" using assms(1) by simp
  then have l: "l = [104, 105]" "concat (map (\<lambda>l. l @ [13]) ls) @ rest = []"
    using assms(3) ls by (auto simp: Cons_eq_append_conv)
  then show ?thesis using ls by (cases ls) auto
qed

theorem console_lines_witness:
  "\<exists>mc mc' mc'' t. waits mc 7 t \<and> dv_body (mc_devices mc ! 0) = ConsoleBody [7] \<and>
     console_interrupts 3 0 mc = Inr mc' \<and> ur_sent (mc_uarts mc' 0x10000000) = [104, 105, 10] \<and>
     dv_body (mc_devices mc' ! 0) = ConsoleBody [] \<and> mc_kernel mc' = wake {t} (mc_kernel mc) \<and>
     console_reads 1 0 mc' = Inr ([Inr [104, 105]], mc'')"
proof -
  obtain k t th where k: "get_thread k 1 0 = Inr (Inr (Some t))" "k_threads k t = Some th"
    using block_unblock_witness by blast
  let ?u = "\<lparr>ud_device_id = 0, ud_vendor_id = 0, ud_device_tree_path = serial_path, ud_device_type = ns16550a, ud_address = 0x10000000\<rparr>"
  let ?n = "ns_new\<lparr>ns_device := Some 0\<rparr>"
  let ?mc = "(machine_new k)\<lparr>mc_devices := [(console_device_new (UUniversal ?u) [10])\<lparr>dv_driver := Some (DrvUart ?n), dv_body := ConsoleBody [7]\<rparr>],
    mc_contexts := [7 \<mapsto> \<lparr>rc_pid = 1, rc_tid = 0\<rparr>],
    mc_uarts := \<lambda>_. \<lparr>ur_received = [104, 105, 13], ur_sent = [], ur_registers = \<lambda>_. 0, ur_divisor = (0, 0)\<rparr>\<rparr>"
  have w: "waits ?mc 7 t" using k by (simp add: waits_def machine_new_def)
  have c: "console_at ?mc 0 ?n [7] 0x10000000" by (simp add: console_at_def console_device_new_def device_new_def)
  have u: "13 \<notin> set (ns_buffer ?n)" "ur_received (mc_uarts ?mc 0x10000000) = [104, 105, 13] @ []" "uart_open (mc_uarts ?mc 0x10000000)"
    "\<forall>b \<in> set [7]. waits ?mc b ((\<lambda>_. t) b)" using w by (simp_all add: ns_new_def uart_open_def)
  obtain mc' mc'' lines rest where r: "console_interrupts (length [104, 105, 13 :: u8]) 0 ?mc = Inr mc'"
    "ns_buffer ?n @ [104, 105, 13] = concat (map (\<lambda>l. l @ [13]) lines) @ rest" "13 \<notin> set rest" "\<forall>l \<in> set lines. 13 \<notin> set l"
    "ur_sent (mc_uarts mc' 0x10000000) = ur_sent (mc_uarts ?mc 0x10000000) @ map echo [104, 105, 13]"
    "dv_body (mc_devices mc' ! 0) = ConsoleBody (if [104, 105, 13 :: u8] = [] \<or> ns_lines ?n @ lines = [] then [7] else [])"
    "mc_kernel mc' = (if [104, 105, 13 :: u8] = [] \<or> ns_lines ?n @ lines = [] then mc_kernel ?mc else wake ((\<lambda>_. t) ` set [7 :: nat]) (mc_kernel ?mc))"
    "console_reads (length (ns_lines ?n @ lines)) 0 mc' = Inr (map Inr (ns_lines ?n @ lines), mc'')"
    using console_lines [OF c u] by blast
  have "lines = [[104, 105]]" by (rule one_line) (use r(2,3,4) in \<open>simp_all add: ns_new_def\<close>)
  moreover have three: "length [104, 105, 13 :: u8] = 3" by simp
  ultimately show ?thesis using w r(1) [unfolded three] r(5,6,7,8)
    by (intro exI [of _ ?mc] exI [of _ mc'] exI [of _ mc''] exI [of _ t] conjI) (simp_all add: echo_def ns_new_def machine_new_def)
qed

end
