(* ===== verification/Formatting.thy ===== *)
theory Formatting
  imports Strings
begin

text \<open>
  \<^verbatim>\<open>Utils/Strings/StringBuilder.cpp\<close> and \<^verbatim>\<open>Utils/Strings/Formatter.h\<close>.  The builder's
  buffer is a list of bytes of which some have never been written (\<^verbatim>\<open>None\<close>).  In the
  formatter, \<^verbatim>\<open>String\<close> values are the texts they hold (Strings shows that the operations of
  \<^verbatim>\<open>String\<close> implement those of texts), and the format is its characters up to the zero byte.
\<close>

section \<open>\<^verbatim>\<open>StringBuilder\<close>\<close>

record StringBuilder =
  sb_data :: "u8 option list"
  sb_capacity :: size_t
  sb_size :: size_t

definition DEFAULT_CAPACITY :: size_t where
  "DEFAULT_CAPACITY = 16"

definition sb_raw :: "size_t \<Rightarrow> u8 option list" where
  "sb_raw n = replicate (unat n) None"

definition sb_new :: StringBuilder where
  "sb_new = \<lparr>sb_data = sb_raw DEFAULT_CAPACITY, sb_capacity = DEFAULT_CAPACITY, sb_size = 0\<rparr>"

definition sb_memcpy :: "u8 option list \<Rightarrow> size_t \<Rightarrow> u8 option list \<Rightarrow> size_t \<Rightarrow> u8 option list exec" where
  "sb_memcpy target at source n =
     (let k = unat (ucast n :: u32) in
      if unat at + k \<le> length target \<and> k \<le> length source
      then Inr (take (unat at) target @ take k source @ drop (unat at + k) target) else Inl OutOfBounds)"

definition sb_grow :: "StringBuilder \<Rightarrow> size_t \<Rightarrow> StringBuilder exec" where
  "sb_grow sb new_capacity =
     (let new_capacity = new_capacity + DEFAULT_CAPACITY in
      exec_bind (sb_memcpy (sb_raw new_capacity) 0 (sb_data sb) (sb_size sb)) (\<lambda>new_data.
      Inr (sb\<lparr>sb_data := new_data, sb_capacity := new_capacity\<rparr>)))"

text \<open>Appending a C string copies it behind the contents and leaves \<^verbatim>\<open>m_size\<close> alone.\<close>

definition sb_append_cstr :: "StringBuilder \<Rightarrow> cstr \<Rightarrow> StringBuilder exec" where
  "sb_append_cstr sb str =
     exec_bind (calculate_size str) (\<lambda>len.
     exec_bind (if sb_size sb + len \<ge> sb_capacity sb then sb_grow sb (sb_capacity sb + len) else Inr sb) (\<lambda>sb.
     exec_bind (sb_memcpy (sb_data sb) (sb_size sb) (map Some str) len) (\<lambda>d. Inr (sb\<lparr>sb_data := d\<rparr>))))"

definition sb_append_char :: "StringBuilder \<Rightarrow> u8 \<Rightarrow> StringBuilder exec" where
  "sb_append_char sb c =
     exec_bind (if sb_size sb + 1 \<ge> sb_capacity sb then sb_grow sb (sb_capacity sb + 1) else Inr sb) (\<lambda>sb.
     if unat (sb_size sb) < length (sb_data sb)
     then Inr (sb\<lparr>sb_data := (sb_data sb)[unat (sb_size sb) := Some c], sb_size := sb_size sb + 1\<rparr>)
     else Inl OutOfBounds)"

definition sb_append_string :: "StringBuilder \<Rightarrow> StringValue \<Rightarrow> StringBuilder exec" where
  "sb_append_string sb str = sb_append_cstr sb (sv_data str)"

definition sb_copy :: "StringBuilder \<Rightarrow> StringBuilder exec" where
  "sb_copy other =
     exec_bind (sb_memcpy (sb_raw (sb_capacity other)) 0 (sb_data other) (sb_size other)) (\<lambda>d.
     Inr \<lparr>sb_data = d, sb_capacity = sb_capacity other, sb_size = sb_size other\<rparr>)"

definition sb_moved_from :: StringBuilder where
  "sb_moved_from = \<lparr>sb_data = [], sb_capacity = 0, sb_size = 0\<rparr>"

definition sb_move :: "StringBuilder \<Rightarrow> StringBuilder \<times> StringBuilder" where
  "sb_move other = (other, sb_moved_from)"

definition sb_assign :: "bool \<Rightarrow> StringBuilder \<Rightarrow> StringBuilder \<Rightarrow> StringBuilder exec" where
  "sb_assign same this other = (if same then Inr this else sb_copy other)"

definition sb_assign_move :: "bool \<Rightarrow> StringBuilder \<Rightarrow> StringBuilder \<Rightarrow> StringBuilder \<times> StringBuilder" where
  "sb_assign_move same this other = (if same then (this, this) else sb_move other)"

text \<open>\<^verbatim>\<open>String(m_data)\<close> reads the buffer up to its first zero byte.\<close>

fun read_cstr :: "u8 option list \<Rightarrow> cstr exec" where
  "read_cstr [] = Inl OutOfBounds"
| "read_cstr (None # r) = Inl Uninitialised"
| "read_cstr (Some c # r) = (if c = 0 then Inr [0] else exec_bind (read_cstr r) (\<lambda>s. Inr (c # s)))"

definition sb_to_string :: "StringBuilder \<Rightarrow> StringValue exec" where
  "sb_to_string sb = exec_bind (read_cstr (sb_data sb)) str_new"

section \<open>\<^verbatim>\<open>to_string\<close>\<close>

text \<open>The text of a C string, the value \<^verbatim>\<open>{buffer}\<close> returns.\<close>

definition text_of :: "cstr \<Rightarrow> cstr exec" where
  "text_of buffer = exec_bind (str_new buffer) (\<lambda>v. Inr (take (unat (sv_length v)) (sv_data v)))"

definition itoa_text :: "size_t \<Rightarrow> size_t \<Rightarrow> cstr exec option" where
  "itoa_text value base =
     (case itoa (new_chars 64) value base of None \<Rightarrow> None | Some r \<Rightarrow> Some (exec_bind r text_of))"

text \<open>An \<^verbatim>\<open>s64\<close> is given by its two's complement, which \<^verbatim>\<open>itoa\<close> prints as unsigned.\<close>

definition to_string_signed :: "u64 \<Rightarrow> cstr exec option" where
  "to_string_signed value = itoa_text value 10"

definition to_string_char :: "u8 \<Rightarrow> cstr exec" where
  "to_string_char value = text_of [value, 0]"

definition to_string_bool :: "bool \<Rightarrow> cstr" where
  "to_string_bool value = (if value then [116, 114, 117, 101] else [102, 97, 108, 115, 101])"

definition to_string_size :: "size_t \<Rightarrow> cstr exec option" where
  "to_string_size value = itoa_text value 10"

definition to_string_flags :: "size_t \<Rightarrow> cstr \<Rightarrow> cstr exec option" where
  "to_string_flags value flags =
     (let base = (if flags = [49, 54] then 16 else if flags = [50] then 2 else 10) in itoa_text value base)"

section \<open>The formatter\<close>

text \<open>
  Overload resolution: every argument that converts to \<^verbatim>\<open>size_t\<close> (integers, characters,
  booleans) satisfies \<^verbatim>\<open>StringifiableWithFlags\<close> and is printed by \<^verbatim>\<open>to_string(size_t, String&)\<close>;
  strings of both kinds are printed as they are.
\<close>

datatype format_arg = WordArg size_t | TextArg cstr

record FormatterContext =
  fc_escaped :: bool
  fc_open :: bool
  fc_flags :: cstr
  fc_result :: cstr
  fc_format :: cstr

text \<open>What the closing brace does to the context.\<close>

definition close_placeholder :: "FormatterContext \<Rightarrow> format_arg \<Rightarrow> FormatterContext exec option" where
  "close_placeholder ctx value =
     (let ctx = ctx\<lparr>fc_open := False\<rparr> in
      case value of
        WordArg n \<Rightarrow> (case to_string_flags n (fc_flags ctx) of None \<Rightarrow> None
          | Some r \<Rightarrow> Some (exec_bind r (\<lambda>s. Inr (ctx\<lparr>fc_result := fc_result ctx @ s, fc_flags := []\<rparr>))))
      | TextArg s \<Rightarrow> Some (Inr (ctx\<lparr>fc_result := fc_result ctx @ s\<rparr>)))"

text \<open>The other characters of the format.\<close>

definition format_char :: "FormatterContext \<Rightarrow> u8 \<Rightarrow> FormatterContext" where
  "format_char ctx c =
     (if c = 123 \<and> \<not> fc_escaped ctx then ctx\<lparr>fc_open := True\<rparr>
      else if c = 92 then
        (if fc_escaped ctx then ctx\<lparr>fc_escaped := False, fc_result := fc_result ctx @ [c]\<rparr>
         else ctx\<lparr>fc_escaped := True\<rparr>)
      else
        (let ctx = ctx\<lparr>fc_escaped := False\<rparr> in
         if fc_open ctx then ctx\<lparr>fc_flags := fc_flags ctx @ [c]\<rparr>
         else ctx\<lparr>fc_result := fc_result ctx @ [c]\<rparr>))"

fun process_from :: "FormatterContext \<Rightarrow> cstr \<Rightarrow> format_arg list \<Rightarrow> FormatterContext exec option" where
  "process_from ctx fmt [] = Some (Inr (ctx\<lparr>fc_format := fmt, fc_result := fc_result ctx @ fmt\<rparr>))"
| "process_from ctx [] (value # args) = Some (Inr (ctx\<lparr>fc_format := []\<rparr>))"
| "process_from ctx (c # rest) (value # args) =
     (if c = 125 \<and> \<not> fc_escaped ctx \<and> fc_open ctx
      then (case close_placeholder ctx value of None \<Rightarrow> None
        | Some (Inl e) \<Rightarrow> Some (Inl e)
        | Some (Inr ctx) \<Rightarrow> process_from ctx rest args)
      else process_from (format_char ctx c) rest (value # args))"

definition process :: "FormatterContext \<Rightarrow> format_arg list \<Rightarrow> FormatterContext exec option" where
  "process ctx args = process_from ctx (fc_format ctx) args"

definition format :: "cstr \<Rightarrow> format_arg list \<Rightarrow> cstr exec option" where
  "format fmt args =
     (case process \<lparr>fc_escaped = False, fc_open = False, fc_flags = [], fc_result = [], fc_format = fmt\<rparr> args of
        None \<Rightarrow> None | Some r \<Rightarrow> Some (exec_bind r (\<lambda>ctx. Inr (fc_result ctx))))"

section \<open>What a format string means\<close>

text \<open>
  A piece of a format is a literal and the flags between the braces.  Flags collect until
  a number uses them, so that a string argument passes its flags on.
\<close>

definition plain :: "cstr \<Rightarrow> bool" where
  "plain s = (\<forall>c \<in> set s. c \<noteq> 123 \<and> c \<noteq> 125 \<and> c \<noteq> 92)"

fun pieces_format :: "(cstr \<times> cstr) list \<Rightarrow> cstr" where
  "pieces_format [] = []"
| "pieces_format ((lit, flags) # ps) = lit @ [123] @ flags @ [125] @ pieces_format ps"

fun render :: "cstr \<Rightarrow> (cstr \<times> cstr) list \<Rightarrow> format_arg list \<Rightarrow> cstr exec option" where
  "render pending ((lit, flags) # ps) (WordArg n # args) =
     (case to_string_flags n (pending @ flags) of None \<Rightarrow> None
      | Some (Inl e) \<Rightarrow> Some (Inl e)
      | Some (Inr s) \<Rightarrow> (case render [] ps args of None \<Rightarrow> None | Some r \<Rightarrow> Some (exec_bind r (\<lambda>t. Inr (lit @ s @ t)))))"
| "render pending ((lit, flags) # ps) (TextArg s # args) =
     (case render (pending @ flags) ps args of None \<Rightarrow> None | Some r \<Rightarrow> Some (exec_bind r (\<lambda>t. Inr (lit @ s @ t))))"
| "render pending _ _ = Some (Inr [])"

lemma process_from_literal:
  assumes "plain s" "args \<noteq> []" "\<not> fc_open ctx" "\<not> fc_escaped ctx"
  shows "process_from ctx (s @ fmt) args = process_from (ctx\<lparr>fc_result := fc_result ctx @ s\<rparr>) fmt args"
  using assms
proof (induction s arbitrary: ctx)
  case (Cons c s)
  then have c: "c \<noteq> 123" "c \<noteq> 125" "c \<noteq> 92" "plain s" by (auto simp: plain_def)
  obtain v as where args: "args = v # as" using assms(2) by (cases args) auto
  have esc: "ctx\<lparr>fc_escaped := False\<rparr> = ctx" using Cons.prems(4) by (cases ctx) simp
  have "process_from ctx ((c # s) @ fmt) args = process_from (ctx\<lparr>fc_result := fc_result ctx @ [c]\<rparr>) (s @ fmt) args"
    using c Cons.prems(3,4) unfolding args by (simp add: format_char_def Let_def esc)
  also have "\<dots> = process_from (ctx\<lparr>fc_result := fc_result ctx @ (c # s)\<rparr>) fmt args"
    using Cons.IH [of "ctx\<lparr>fc_result := fc_result ctx @ [c]\<rparr>"] c(4) Cons.prems(2-4) by simp
  finally show ?case .
qed simp

lemma process_from_flags:
  assumes "plain s" "args \<noteq> []" "fc_open ctx" "\<not> fc_escaped ctx"
  shows "process_from ctx (s @ fmt) args = process_from (ctx\<lparr>fc_flags := fc_flags ctx @ s\<rparr>) fmt args"
  using assms
proof (induction s arbitrary: ctx)
  case (Cons c s)
  then have c: "c \<noteq> 123" "c \<noteq> 125" "c \<noteq> 92" "plain s" by (auto simp: plain_def)
  obtain v as where args: "args = v # as" using assms(2) by (cases args) auto
  have esc: "ctx\<lparr>fc_escaped := False\<rparr> = ctx" using Cons.prems(4) by (cases ctx) simp
  have "process_from ctx ((c # s) @ fmt) args = process_from (ctx\<lparr>fc_flags := fc_flags ctx @ [c]\<rparr>) (s @ fmt) args"
    using c Cons.prems(3,4) unfolding args by (simp add: format_char_def Let_def esc)
  also have "\<dots> = process_from (ctx\<lparr>fc_flags := fc_flags ctx @ (c # s)\<rparr>) fmt args"
    using Cons.IH [of "ctx\<lparr>fc_flags := fc_flags ctx @ [c]\<rparr>"] c(4) Cons.prems(2-4) by simp
  finally show ?case .
qed simp

definition idle :: "cstr \<Rightarrow> cstr \<Rightarrow> FormatterContext \<Rightarrow> bool" where
  "idle flags result ctx \<longleftrightarrow> \<not> fc_open ctx \<and> \<not> fc_escaped ctx \<and> fc_flags ctx = flags \<and> fc_result ctx = result"

lemma process_from_piece:
  assumes "plain lit" "plain flags" "idle pending result ctx"
  shows "process_from ctx (lit @ [123] @ flags @ [125] @ fmt) (v # args) =
    (case close_placeholder (ctx\<lparr>fc_open := True, fc_result := result @ lit, fc_flags := pending @ flags\<rparr>) v of None \<Rightarrow> None
      | Some (Inl e) \<Rightarrow> Some (Inl e) | Some (Inr ctx) \<Rightarrow> process_from ctx fmt args)"
proof -
  let ?c1 = "ctx\<lparr>fc_result := result @ lit\<rparr>"
  have i: "\<not> fc_open ctx" "\<not> fc_escaped ctx" "fc_flags ctx = pending" "fc_result ctx = result"
    using assms(3) by (simp_all add: idle_def)
  have "process_from ctx (lit @ [123] @ flags @ [125] @ fmt) (v # args) =
      process_from ?c1 (123 # flags @ [125] @ fmt) (v # args)"
    using process_from_literal [OF assms(1), of "v # args" ctx "[123] @ flags @ [125] @ fmt"] i by simp
  also have "\<dots> = process_from (?c1\<lparr>fc_open := True\<rparr>) (flags @ [125] @ fmt) (v # args)"
    using i by (simp add: format_char_def)
  also have "\<dots> = process_from (?c1\<lparr>fc_open := True, fc_flags := pending @ flags\<rparr>) (125 # fmt) (v # args)"
    using process_from_flags [OF assms(2), of "v # args" "?c1\<lparr>fc_open := True\<rparr>" "[125] @ fmt"] i by simp
  also have "?c1\<lparr>fc_open := True, fc_flags := pending @ flags\<rparr> =
      ctx\<lparr>fc_open := True, fc_result := result @ lit, fc_flags := pending @ flags\<rparr>" by simp
  finally show ?thesis using i by simp
qed

lemma process_from_render:
  assumes "\<forall>(lit, flags) \<in> set ps. plain lit \<and> plain flags" "length ps = length args" "idle pending result ctx"
  shows "(case process_from ctx (pieces_format ps @ tail) args of None \<Rightarrow> None
      | Some r \<Rightarrow> Some (exec_bind r (\<lambda>ctx. Inr (fc_result ctx)))) =
    (case render pending ps args of None \<Rightarrow> None | Some r \<Rightarrow> Some (exec_bind r (\<lambda>t. Inr (result @ t @ tail))))"
  using assms
proof (induction pending ps args arbitrary: result ctx rule: render.induct)
  case (1 pending lit flags ps n args)
  let ?c = "ctx\<lparr>fc_open := True, fc_result := result @ lit, fc_flags := pending @ flags\<rparr>"
  have p: "plain lit" "plain flags" "\<forall>(lit, flags) \<in> set ps. plain lit \<and> plain flags" "length ps = length args"
    using "1.prems"(1,2) by auto
  note step = process_from_piece [OF p(1,2) "1.prems"(3), of "pieces_format ps @ tail" "WordArg n" args]
  show ?case
  proof (cases "to_string_flags n (pending @ flags)")
    case None
    then show ?thesis using step by (simp add: close_placeholder_def)
  next
    case (Some r)
    show ?thesis
    proof (cases r)
      case (Inl e)
      then show ?thesis using step Some by (simp add: close_placeholder_def)
    next
      case (Inr s)
      let ?d = "?c\<lparr>fc_open := False, fc_result := (result @ lit) @ s, fc_flags := []\<rparr>"
      have d: "idle [] ((result @ lit) @ s) ?d" using "1.prems"(3) by (simp add: idle_def)
      show ?thesis using step Some Inr "1.IH" [OF Some Inr p(3,4) d]
        by (cases "render [] ps args") (simp_all add: close_placeholder_def fault_simps)
    qed
  qed
next
  case (2 pending lit flags ps s args)
  let ?c = "ctx\<lparr>fc_open := True, fc_result := result @ lit, fc_flags := pending @ flags\<rparr>"
  let ?d = "?c\<lparr>fc_open := False, fc_result := (result @ lit) @ s\<rparr>"
  have p: "plain lit" "plain flags" "\<forall>(lit, flags) \<in> set ps. plain lit \<and> plain flags" "length ps = length args"
    using "2.prems"(1,2) by auto
  have d: "idle (pending @ flags) ((result @ lit) @ s) ?d" using "2.prems"(3) by (simp add: idle_def)
  show ?case
    using process_from_piece [OF p(1,2) "2.prems"(3), of "pieces_format ps @ tail" "TextArg s" args] "2.IH" [OF p(3,4) d]
    by (cases "render (pending @ flags) ps args") (simp_all add: close_placeholder_def fault_simps)
qed (simp_all add: idle_def)

section \<open>Printed numbers\<close>

lemma atoi_loop_prefix: "0 \<notin> set s \<Longrightarrow> atoi_loop base acc (s @ 0 # r) = atoi_loop base acc (s @ [0])"
  by (induction base acc s rule: atoi_loop.induct) simp_all

lemma atoi_prefix: "0 \<notin> set s \<Longrightarrow> atoi (s @ 0 # r) base = atoi (s @ [0]) base"
  using atoi_loop_prefix [of s base 0 r] atoi_loop_prefix [of "tl s" base 0 r]
  by (cases s) (simp_all add: atoi_def char_at_def)

lemma text_of_buffer: "0 \<notin> set s \<Longrightarrow> length s < 2 ^ 31 \<Longrightarrow> text_of (s @ 0 # r) = Inr s"
  using str_new_ok [of s r] by (auto simp: text_of_def str_ok_def)

lemma itoa_text_ok:
  fixes base n :: u64
  assumes "2 \<le> unat base" "unat base \<le> 16" "unat n < unat base ^ 63"
  shows "\<exists>s. itoa_text n base = Some (Inr s) \<and> atoi (s @ [0]) base = Inr n"
proof -
  have "63 < length (new_chars 64)" by (simp add: new_chars_def)
  from itoa_fits [OF assms zero_less_numeral this] obtain s r where
    s: "itoa (new_chars 64) n base = Some (Inr (s @ 0 # r))" "0 \<notin> set s" "length s \<le> 63" "atoi (s @ 0 # r) base = Inr n"
    by blast
  then show ?thesis using text_of_buffer [of s r] atoi_prefix [of s r base] by (simp add: itoa_text_def)
qed

lemma unat_less_power_63:
  assumes "10 \<le> b"
  shows "unat (n :: u64) < b ^ 63"
proof -
  have "unat n < 10 ^ 63" using unsigned_less [of n, where ?'a = nat] by simp
  also have "10 ^ 63 \<le> b ^ 63" using assms by (rule power_mono) simp
  finally show ?thesis .
qed

lemma itoa_text_binary_overrun:
  fixes n :: u64
  assumes "2 ^ 63 \<le> unat n"
  shows "itoa_text n 2 = Some (Inl OutOfBounds)"
proof -
  have "itoa (new_chars 64) n 2 = Some (Inl OutOfBounds)"
  proof (rule itoa_ok(2))
    show "64 = 1 \<or> unat (2 :: u64) ^ (64 - 1) \<le> unat n" using assms by simp
    show "unat n < unat (2 :: u64) ^ 64" using unsigned_less [of n, where ?'a = nat] by simp
  qed (simp_all add: new_chars_def)
  then show ?thesis by (simp add: itoa_text_def)
qed

text \<open>
  C20. \<^verbatim>\<open>format\<close> replaces every pair of braces by its argument and keeps the literals,
  the text after the last argument included.  Numbers come out in base ten, or in base
  sixteen with the flag 16, and are read back by \<^verbatim>\<open>atoi\<close>; in base two a number with its
  top bit set writes its terminator behind the buffer of 64 characters.
\<close>

theorem format_correct:
  assumes "\<forall>(lit, flags) \<in> set ps. plain lit \<and> plain flags" "length ps = length args"
  shows "format (pieces_format ps @ tail) args =
      (case render [] ps args of None \<Rightarrow> None | Some r \<Rightarrow> Some (exec_bind r (\<lambda>t. Inr (t @ tail)))) \<and>
    (\<exists>s. to_string_flags n [] = Some (Inr s) \<and> atoi (s @ [0]) 10 = Inr n) \<and>
    (\<exists>s. to_string_flags n [49, 54] = Some (Inr s) \<and> atoi (s @ [0]) 16 = Inr n) \<and>
    (2 ^ 63 \<le> unat n \<longrightarrow> to_string_flags n [50] = Some (Inl OutOfBounds))"
proof -
  let ?c = "\<lparr>fc_escaped = False, fc_open = False, fc_flags = [], fc_result = [], fc_format = pieces_format ps @ tail\<rparr>"
  have "idle [] [] ?c" by (simp add: idle_def)
  from process_from_render [OF assms this, of tail]
  have 1: "format (pieces_format ps @ tail) args =
      (case render [] ps args of None \<Rightarrow> None | Some r \<Rightarrow> Some (exec_bind r (\<lambda>t. Inr (t @ tail))))"
    by (simp add: format_def process_def cong: option.case_cong)
  have 2: "\<exists>s. to_string_flags n [] = Some (Inr s) \<and> atoi (s @ [0]) 10 = Inr n"
    using itoa_text_ok [of 10 n] unat_less_power_63 [of 10 n] by (simp add: to_string_flags_def)
  have 3: "\<exists>s. to_string_flags n [49, 54] = Some (Inr s) \<and> atoi (s @ [0]) 16 = Inr n"
    using itoa_text_ok [of 16 n] unat_less_power_63 [of 16 n] by (simp add: to_string_flags_def)
  have "2 ^ 63 \<le> unat n \<longrightarrow> to_string_flags n [50] = Some (Inl OutOfBounds)"
    using itoa_text_binary_overrun [of n] by (simp add: to_string_flags_def)
  with 1 2 3 show ?thesis by blast
qed

theorem format_correct_witness:
  "format [112, 105, 100, 123, 125, 33] [TextArg [65]] = Some (Inr [112, 105, 100, 65, 33])"
  using format_correct [of "[([112, 105, 100], [])]" "[TextArg [65]]" "[33]"] by (simp add: plain_def)

section \<open>What a builder holds\<close>

definition sb_fresh :: "StringBuilder \<Rightarrow> cstr \<Rightarrow> bool" where
  "sb_fresh sb s \<longleftrightarrow> length s < unat (sb_capacity sb) \<and> unat (sb_size sb) = length s \<and> length s < 2 ^ 31 \<and>
     sb_data sb = map Some s @ replicate (unat (sb_capacity sb) - length s) None"

lemma sb_new_fresh: "sb_fresh sb_new []"
  by (simp add: sb_fresh_def sb_new_def sb_raw_def DEFAULT_CAPACITY_def)

lemma sb_grow_fresh:
  assumes "sb_fresh sb s" "unat n + 16 < 2 ^ 64" "unat (sb_capacity sb) \<le> unat n"
  shows "\<exists>sb'. sb_grow sb n = Inr sb' \<and> sb_fresh sb' s \<and> sb_size sb' = sb_size sb \<and> unat (sb_capacity sb') = unat n + 16"
proof -
  have n: "unat (n + DEFAULT_CAPACITY) = unat n + 16" using assms(2) by (simp add: DEFAULT_CAPACITY_def unat_add_no_wrap)
  have s: "length s < unat (sb_capacity sb)" "unat (sb_size sb) = length s" "length s < 2 ^ 31"
      "sb_data sb = map Some s @ replicate (unat (sb_capacity sb) - length s) None"
    using assms(1) by (simp_all add: sb_fresh_def)
  have k: "unat (ucast (sb_size sb) :: u32) = length s" using s(2,3) by (intro unat_u32_len) simp_all
  show ?thesis
    using s k n assms(3) by (simp add: sb_grow_def sb_memcpy_def sb_raw_def Let_def sb_fresh_def)
qed

text \<open>A builder filled character by character holds them, and can never be turned into a string.\<close>

lemma sb_append_char_fresh:
  assumes "sb_fresh sb s" "unat (sb_capacity sb) < 2 ^ 63" "length s + 1 < 2 ^ 31"
  shows "\<exists>sb'. sb_append_char sb c = Inr sb' \<and> sb_fresh sb' (s @ [c])"
proof -
  have s: "length s < unat (sb_capacity sb)" "unat (sb_size sb) = length s" using assms(1) by (simp_all add: sb_fresh_def)
  have cap: "unat (sb_capacity sb) < 9223372036854775808" using assms(2) by simp
  have sz: "unat (sb_size sb + 1) = length s + 1" "unat (sb_capacity sb + 1) = unat (sb_capacity sb) + 1"
    using s cap by (simp_all add: unat_add_no_wrap)
  have put: "\<exists>sb'. (if unat (sb_size t) < length (sb_data t)
      then Inr (t\<lparr>sb_data := (sb_data t)[unat (sb_size t) := Some c], sb_size := sb_size t + 1\<rparr>) else Inl OutOfBounds) = Inr sb' \<and>
      sb_fresh sb' (s @ [c])" if t: "sb_fresh t s" "sb_size t = sb_size sb" "length s + 1 < unat (sb_capacity t)" for t
  proof -
    have "replicate (unat (sb_capacity t) - length s) None = None # replicate (unat (sb_capacity t) - Suc (length s)) (None :: u8 option)"
      using t(3) by (cases "unat (sb_capacity t) - length s") (simp_all add: Suc_diff_Suc flip: replicate_Suc)
    then show ?thesis using t sz assms(3) by (simp add: sb_fresh_def list_update_append)
  qed
  show ?thesis
  proof (cases "sb_size sb + 1 \<ge> sb_capacity sb")
    case True
    have "unat (sb_capacity sb + 1) + 16 < 2 ^ 64" "unat (sb_capacity sb) \<le> unat (sb_capacity sb + 1)" using sz(2) cap by simp_all
    from sb_grow_fresh [OF assms(1) this] obtain t where t: "sb_grow sb (sb_capacity sb + 1) = Inr t" "sb_fresh t s"
      "sb_size t = sb_size sb" "unat (sb_capacity t) = unat (sb_capacity sb + 1) + 16" by blast
    show ?thesis using put [OF t(2,3)] t(1,4) True s(1) sz(2) by (simp add: sb_append_char_def)
  next
    case False
    then have "length s + 1 < unat (sb_capacity sb)" using sz(1) by (simp add: word_le_nat_alt)
    then show ?thesis using put [OF assms(1)] False by (simp add: sb_append_char_def)
  qed
qed

lemma sb_to_string_fresh:
  assumes "sb_fresh sb s" "0 \<notin> set s"
  shows "sb_to_string sb = Inl Uninitialised"
proof -
  have "read_cstr (map Some s @ None # r) = Inl Uninitialised" for r using assms(2) by (induction s) auto
  moreover have "\<exists>r. sb_data sb = map Some s @ None # r"
    using assms(1) by (cases "unat (sb_capacity sb) - length s") (auto simp: sb_fresh_def)
  ultimately show ?thesis by (auto simp: sb_to_string_def)
qed

end
