(* ===== verification/Traps.thy ===== *)
theory Traps
  imports Plics Consoles Formatting KernelHeap
begin

text \<open>
  Traps and system calls: \<^verbatim>\<open>Arch/riscv64/Interrupts/Interrupts.cpp\<close>, \<^verbatim>\<open>SyscallManager.cpp\<close>, the handlers in
  \<^verbatim>\<open>SyscallFile.cpp\<close>, \<^verbatim>\<open>SyscallProcess.cpp\<close> and \<^verbatim>\<open>SyscallDebug.cpp\<close>, and \<^verbatim>\<open>Userspace.h\<close>.  The state joins the
  device layer, which holds the kernel's threads and memory, with the descriptor tables of the
  processes, the interrupt controller, the timer and the statistics.  Messages for diagnosis (\<^verbatim>\<open>dbgln\<close>) are
  left out; what the handlers send to the user through the logger is recorded.
\<close>

section \<open>The state and its surroundings\<close>

datatype SysError = SysFailed | SysBlocked

fun sys_error_value :: "SysError \<Rightarrow> size_t" where
  "sys_error_value SysFailed = 0"
| "sys_error_value SysBlocked = 1"

datatype Syscalls = SysOpen | SysClose | SysDbgln | SysRead | SysWrite | SysExit | SysDmesg | SysStats | SysMem | SysLs

definition all_syscalls :: "Syscalls list" where
  "all_syscalls = [SysOpen, SysClose, SysDbgln, SysRead, SysWrite, SysExit, SysDmesg, SysStats, SysMem, SysLs]"

fun syscall_name :: "Syscalls \<Rightarrow> cstr" where
  "syscall_name SysOpen = cchars ''open''"
| "syscall_name SysClose = cchars ''close''"
| "syscall_name SysDbgln = cchars ''dbgln''"
| "syscall_name SysRead = cchars ''read''"
| "syscall_name SysWrite = cchars ''write''"
| "syscall_name SysExit = cchars ''exit''"
| "syscall_name SysDmesg = cchars ''dmesg''"
| "syscall_name SysStats = cchars ''stats''"
| "syscall_name SysMem = cchars ''mem''"
| "syscall_name SysLs = cchars ''ls''"

definition SYSCALL_COUNT :: u64 where
  "SYSCALL_COUNT = 10"

text \<open>Calls of \<^verbatim>\<open>log_to_console\<close> and \<^verbatim>\<open>print_logfile\<close>.\<close>

datatype log_call = LogDirect cstr | PrintLogfile

record 's trap_world =
  tw_mc :: machine
  tw_fds :: "nat \<Rightarrow> File fd_table"
  tw_plic :: Plic
  tw_timer :: Timer
  tw_stats :: "u64 Array"
  tw_fs :: 's
  tw_log :: "log_call list"

text \<open>
  The file systems are seen through the operations of \<^verbatim>\<open>VirtualFileSystem\<close> and \<^verbatim>\<open>Inode\<close>, on a state of
  their own; \<^verbatim>\<open>ev_inode\<close> tells which device the inode of a descriptor is, if it is a \<^verbatim>\<open>DevInode\<close>.
  \<^verbatim>\<open>ev_tp\<close> is the hart's \<^verbatim>\<open>KernelTrapFrame\<close>, \<^verbatim>\<open>ev_time\<close> the CSR \<^verbatim>\<open>time\<close>,
  \<^verbatim>\<open>ev_log_size\<close> the size of the logger's buffer.
\<close>

record 's environment =
  ev_plic :: mmio_device
  ev_time :: u64
  ev_tp :: u64
  ev_open :: "path \<Rightarrow> FileOpenMode \<Rightarrow> 's \<Rightarrow> (nat error_or \<times> 's) run"
  ev_inode :: "'s \<Rightarrow> nat \<Rightarrow> nat option"
  ev_read :: "nat \<Rightarrow> size_t \<Rightarrow> size_t \<Rightarrow> 's \<Rightarrow> (cstr \<times> size_t Request error_or) \<times> 's"
  ev_list :: "'s \<Rightarrow> path list error_or run"
  ev_mm :: MemoryManager
  ev_heap :: KernelMemoryAllocator
  ev_log_size :: u64

definition kern :: "'s trap_world \<Rightarrow> kernel" where
  "kern w = mc_kernel (tw_mc w)"

definition mem :: "'s trap_world \<Rightarrow> pmem" where
  "mem w = k_mem (kern w)"

definition set_kern :: "kernel \<Rightarrow> 's trap_world \<Rightarrow> 's trap_world" where
  "set_kern k w = w\<lparr>tw_mc := (tw_mc w)\<lparr>mc_kernel := k\<rparr>\<rparr>"

definition set_mem :: "pmem \<Rightarrow> 's trap_world \<Rightarrow> 's trap_world" where
  "set_mem m w = set_kern ((kern w)\<lparr>k_mem := m\<rparr>) w"

lemma kern_simps [simp]:
  "kern (set_kern k w) = k" "kern (set_mem m w) = (kern w)\<lparr>k_mem := m\<rparr>" "mem (set_mem m w) = m" "mem (set_kern k w) = k_mem k"
  by (simp_all add: kern_def mem_def set_kern_def set_mem_def)

definition process_at :: "'s trap_world \<Rightarrow> nat \<Rightarrow> Process exec" where
  "process_at w pr = (case k_processes (kern w) pr of None \<Rightarrow> Inl Uninitialised | Some p \<Rightarrow> Inr p)"

definition thread_at :: "'s trap_world \<Rightarrow> nat option \<Rightarrow> Thread exec" where
  "thread_at w t = (case t of None \<Rightarrow> Inl NullDeref
     | Some t \<Rightarrow> (case k_threads (kern w) t of None \<Rightarrow> Inl Uninitialised | Some thread \<Rightarrow> Inr thread))"

text \<open>\<^verbatim>\<open>Userspace::get\<close>.\<close>

definition user_get :: "'s trap_world \<Rightarrow> Process \<Rightarrow> u64 \<Rightarrow> string + u64" where
  "user_get w p ptr = translate (mem w) (p_page_table p) ptr"

type_synonym 's handler_run = "((SysError + u64) \<times> 's trap_world) run"

definition sys_fail :: "'s trap_world \<Rightarrow> 's handler_run" where
  "sys_fail w = Some (Inr (Inl SysFailed, w))"

definition sys_ok :: "u64 \<Rightarrow> 's trap_world \<Rightarrow> 's handler_run" where
  "sys_ok v w = Some (Inr (Inr v, w))"

definition log_direct :: "cstr run \<Rightarrow> 's trap_world \<Rightarrow> ('s trap_world \<Rightarrow> 's handler_run) \<Rightarrow> 's handler_run" where
  "log_direct text w f = run_bind text (\<lambda>s. f (w\<lparr>tw_log := tw_log w @ [LogDirect s]\<rparr>))"

section \<open>Files\<close>

definition handle_open :: "'s environment \<Rightarrow> nat \<Rightarrow> u64 \<Rightarrow> u64 \<Rightarrow> 's trap_world \<Rightarrow> 's handler_run" where
  "handle_open ev pr path flags w =
     run_bind (Some (process_at w pr)) (\<lambda>p.
     case user_get w p path of Inl _ \<Rightarrow> sys_fail w
     | Inr a \<Rightarrow>
         Option.bind (mem_cstr (mem w) a) (\<lambda>path_in_kernel.
         run_bind (ev_open ev path_in_kernel flags (tw_fs w)) (\<lambda>(file_or_error, fs).
         let w = w\<lparr>tw_fs := fs\<rparr> in
         case file_or_error of Inl _ \<Rightarrow> sys_fail w
         | Inr descriptor \<Rightarrow>
             run_bind (Some (fdt_open (tw_fds w pr) (file_new descriptor flags))) (\<lambda>(open_or_error, fds).
             let w = w\<lparr>tw_fds := (tw_fds w)(pr := fds)\<rparr> in
             case open_or_error of Inl _ \<Rightarrow> sys_fail w | Inr fd \<Rightarrow> sys_ok fd w))))"

definition handle_close :: "nat \<Rightarrow> u64 \<Rightarrow> 's trap_world \<Rightarrow> 's handler_run" where
  "handle_close pr fd w =
     run_bind (Some (fdt_index (tw_fds w pr) fd)) (\<lambda>descriptor.
     if descriptor = None then sys_fail w
     else run_bind (Some (fdt_close (tw_fds w pr) fd)) (\<lambda>(_, fds). sys_ok 0 (w\<lparr>tw_fds := (tw_fds w)(pr := fds)\<rparr>)))"

text \<open>A line as the \<^verbatim>\<open>String\<close> that holds it.\<close>

definition string_value :: "cstr \<Rightarrow> StringValue" where
  "string_value s = \<lparr>sv_data = s @ [0], sv_length = of_nat (length s), sv_type = ASCII\<rparr>"

definition string_request :: "cstr Request \<Rightarrow> StringValue Request" where
  "string_request r = \<lparr>rq_value = map_option string_value (rq_value r), rq_context = rq_context r, rq_state = rq_state r\<rparr>"

definition inode_read :: "'s environment \<Rightarrow> nat \<Rightarrow> size_t \<Rightarrow> size_t \<Rightarrow> 's trap_world \<Rightarrow>
    ((cstr \<times> size_t Request error_or) \<times> 's trap_world) exec" where
  "inode_read ev descriptor n offset w =
     (case ev_inode ev (tw_fs w) descriptor of
        None \<Rightarrow> (let (r, fs) = ev_read ev descriptor n offset (tw_fs w) in Inr (r, w\<lparr>tw_fs := fs\<rparr>))
      | Some i \<Rightarrow>
          exec_bind (device_at (tw_mc w) i) (\<lambda>d.
            if dv_type d = TypeConsole
            then exec_bind (console_read_async i (tw_mc w)) (\<lambda>(r, mc).
              exec_bind (dev_read True (case r of Inl e \<Rightarrow> Inl e | Inr q \<Rightarrow> Inr (string_request q)) n) (\<lambda>r.
                Inr (r, w\<lparr>tw_mc := mc\<rparr>)))
            else exec_bind (dev_read False (Inl (create_from_string '''')) n) (\<lambda>r. Inr (r, w))))"

definition handle_read :: "'s environment \<Rightarrow> nat \<Rightarrow> u32 \<Rightarrow> u64 \<Rightarrow> size_t \<Rightarrow> 's trap_world \<Rightarrow> 's handler_run" where
  "handle_read ev pr file_descriptor buffer n w =
     (let fd = scast file_descriptor in
      run_bind (Some (fdt_index (tw_fds w pr) fd)) (\<lambda>file.
      run_bind (Some (process_at w pr)) (\<lambda>p.
      case user_get w p buffer of Inl _ \<Rightarrow> sys_fail w
      | Inr a \<Rightarrow>
          (case file of None \<Rightarrow> Some (Inl NullDeref)
           | Some f \<Rightarrow>
               run_bind (Some (inode_read ev (f_descriptor f) n (f_offset f) w)) (\<lambda>((bytes, q), w).
               run_bind (Some (file_read (\<lambda>_ _. q) f n)) (\<lambda>(error_or_request, f).
               run_bind (Some (arr_set (tw_fds w pr) fd (Some f))) (\<lambda>fds.
               let w = set_mem (write_bytes (mem w) a bytes) (w\<lparr>tw_fds := (tw_fds w)(pr := fds)\<rparr>) in
               case error_or_request of Inl _ \<Rightarrow> sys_fail w
               | Inr request \<Rightarrow>
                   run_bind (Some (get_current_thread (ev_tp ev) (kern w))) (\<lambda>current_thread.
                   if current_thread = None then Some (Inl (AssertFailed ''No current thread found.''))
                   else run_bind (Some (thread_at w current_thread)) (\<lambda>thread.
                     if is_blocked request
                     then let mc = tw_mc w; w = w\<lparr>tw_mc := mc\<lparr>mc_contexts := request_assign request (p_pid p) (t_tid thread) (mc_contexts mc)\<rparr>\<rparr> in
                          run_bind (Some (block (p_pid p) (t_tid thread) (kern w))) (\<lambda>k.
                            Some (Inr (Inl SysBlocked, set_kern k w)))
                     else run_bind (Some (release_value request)) (\<lambda>v. sys_ok v w))))))))))"

definition handle_write :: "'s trap_world \<Rightarrow> 's handler_run" where
  "handle_write w = sys_fail w"

section \<open>Processes and reports\<close>

definition handle_exit :: "nat \<Rightarrow> u32 \<Rightarrow> 's trap_world \<Rightarrow> 's handler_run" where
  "handle_exit pr exit_code w =
     run_bind (Some (process_at w pr)) (\<lambda>p.
       sys_ok (scast exit_code) (set_kern ((kern w)\<lparr>k_processes := (k_processes (kern w))(pr \<mapsto> p\<lparr>p_state := PDead\<rparr>)\<rparr>) w))"

definition handle_dbgln :: "nat \<Rightarrow> u64 \<Rightarrow> 's trap_world \<Rightarrow> 's handler_run" where
  "handle_dbgln pr message w =
     run_bind (Some (process_at w pr)) (\<lambda>p.
     case user_get w p message of Inl _ \<Rightarrow> sys_fail w
     | Inr a \<Rightarrow> Option.bind (mem_cstr (mem w) a) (\<lambda>s. log_direct (format (cchars ''{}'' @ [10]) [TextArg s]) w (sys_ok 0)))"

definition handle_dmesg :: "'s trap_world \<Rightarrow> 's handler_run" where
  "handle_dmesg w = sys_ok 0 (w\<lparr>tw_log := tw_log w @ [PrintLogfile]\<rparr>)"

definition stats_increment :: "u64 \<Rightarrow> u64 Array \<Rightarrow> u64 Array exec" where
  "stats_increment syscall_id a = exec_bind (arr_get a syscall_id) (\<lambda>c. arr_set a syscall_id (c + 1))"

fun stats_text :: "nat \<Rightarrow> u64 \<Rightarrow> u64 Array \<Rightarrow> cstr \<Rightarrow> cstr run" where
  "stats_text 0 i a syscalls = Some (Inr syscalls)"
| "stats_text (Suc n) i a syscalls =
     run_bind (Some (arr_get a i)) (\<lambda>count.
     if unat i < length all_syscalls
     then run_bind (format (cchars ''\"{}\": {}, '') [TextArg (syscall_name (all_syscalls ! unat i)), WordArg count]) (\<lambda>t.
       stats_text n (i + 1) a (syscalls @ t))
     else Some (Inl OutOfBounds))"

definition backslash :: cstr where
  "backslash = [92]"

definition handle_stats :: "'s environment \<Rightarrow> 's trap_world \<Rightarrow> 's handler_run" where
  "handle_stats ev w =
     run_bind (stats_text (unat (arr_size (tw_stats w))) 0 (tw_stats w) []) (\<lambda>syscalls.
       log_direct (format (backslash @ cchars ''{\"cpus\": ['' @ backslash @ cchars ''{\"id\": 0, \"time\": {}, \"syscalls\": '' @
         backslash @ cchars ''{ {} }}}'' @ [10]) [WordArg (ev_time ev), TextArg syscalls]) w (sys_ok 0))"

fun log_entries :: "path list \<Rightarrow> 's trap_world \<Rightarrow> 's handler_run" where
  "log_entries [] w = sys_ok 0 w"
| "log_entries (entry # entries) w = log_direct (format (cchars ''{}'' @ [10]) [TextArg entry]) w (log_entries entries)"

definition handle_ls :: "'s environment \<Rightarrow> 's trap_world \<Rightarrow> 's handler_run" where
  "handle_ls ev w = run_bind (ev_list ev (tw_fs w)) (\<lambda>r. case r of Inl _ \<Rightarrow> sys_fail w | Inr entries \<Rightarrow> log_entries entries w)"

definition page_report :: "'s environment \<Rightarrow> 's trap_world \<Rightarrow> cstr run" where
  "page_report ev w =
     (let s = get_statistics (ev_mm ev) (mem w) in
      format (backslash @ cchars ''{\"total_pages\": {}, \"free_pages\": {}, \"used_pages\": {}}'')
        [WordArg (total_pages s), WordArg (free_pages s), WordArg (used_pages s)])"

definition heap_report :: "'s environment \<Rightarrow> 's trap_world \<Rightarrow> cstr run" where
  "heap_report ev w =
     Option.bind (heap_statistics (ev_heap ev) (mem w)) (\<lambda>s.
      format (backslash @ cchars ''{\"total_bytes\": {}, \"free_bytes\": {}, \"used_bytes\": {}}'')
        [WordArg (total_size s), WordArg (free_size s), WordArg (used_size s)])"

definition handle_mem :: "'s environment \<Rightarrow> 's trap_world \<Rightarrow> 's handler_run" where
  "handle_mem ev w =
     run_bind (page_report ev w) (\<lambda>memory. run_bind (heap_report ev w) (\<lambda>kernel_memory.
       log_direct (format (backslash @ cchars ''{\"memory\": {}, \"kernel_memory_allocator\": {}, \"logfile\": {}}'' @ [10])
         [TextArg memory, TextArg kernel_memory, WordArg (ev_log_size ev)]) w (sys_ok 0)))"

section \<open>\<^verbatim>\<open>SyscallManager\<close>\<close>

text \<open>The wrappers cast the arguments a handler has from the registers and drop the others.\<close>

fun syscall_handler :: "'s environment \<Rightarrow> Syscalls \<Rightarrow> nat \<Rightarrow> u64 \<Rightarrow> u64 \<Rightarrow> u64 \<Rightarrow> 's trap_world \<Rightarrow> 's handler_run" where
  "syscall_handler ev SysOpen pr a0 a1 a2 w = handle_open ev pr a0 a1 w"
| "syscall_handler ev SysClose pr a0 a1 a2 w = handle_close pr a0 w"
| "syscall_handler ev SysDbgln pr a0 a1 a2 w = handle_dbgln pr a0 w"
| "syscall_handler ev SysRead pr a0 a1 a2 w = handle_read ev pr (ucast a0) a1 a2 w"
| "syscall_handler ev SysWrite pr a0 a1 a2 w = handle_write w"
| "syscall_handler ev SysExit pr a0 a1 a2 w = handle_exit pr (ucast a0) w"
| "syscall_handler ev SysDmesg pr a0 a1 a2 w = handle_dmesg w"
| "syscall_handler ev SysStats pr a0 a1 a2 w = handle_stats ev w"
| "syscall_handler ev SysMem pr a0 a1 a2 w = handle_mem ev w"
| "syscall_handler ev SysLs pr a0 a1 a2 w = handle_ls ev w"

definition handle_syscall :: "'s environment \<Rightarrow> nat option \<Rightarrow> u64 \<Rightarrow> 's trap_world \<Rightarrow> ((SysError + unit) \<times> 's trap_world) run" where
  "handle_syscall ev proc syscall_id w =
     (if syscall_id \<ge> SYSCALL_COUNT then Some (Inr (Inr (), w))
      else
        case proc of None \<Rightarrow> Some (Inl NullDeref)
        | Some pr \<Rightarrow>
            run_bind (Some (stats_increment syscall_id (tw_stats w))) (\<lambda>stats.
            let w = w\<lparr>tw_stats := stats\<rparr> in
            run_bind (Some (get_current_thread (ev_tp ev) (kern w))) (\<lambda>current_thread.
            run_bind (Some (thread_at w current_thread)) (\<lambda>thread.
            let trap_frame = t_trap_frame thread; arg = get_register (mem w) trap_frame in
            run_bind (syscall_handler ev (all_syscalls ! unat syscall_id) pr (arg GP0) (arg GP1) (arg GP2) w) (\<lambda>(result, w).
            case result of
              Inl e \<Rightarrow> if e = SysBlocked then Some (Inr (Inl SysBlocked, w))
                else Some (Inr (Inr (), set_mem (set_register trap_frame GP0 (- 1) (mem w)) w))
            | Inr v \<Rightarrow> Some (Inr (Inr (), set_mem (set_register trap_frame GP0 v (mem w)) w)))))))"

section \<open>Traps\<close>

datatype Interrupts = SoftwareInterrupt | TimerInterrupt | ExternalInterrupt | CounterOverflowInterrupt | SystemCall
  | InstructionPageFault | LoadPageFault | StorePageFault | IllegalInstruction

fun interrupt_cause :: "Interrupts \<Rightarrow> u64" where
  "interrupt_cause SoftwareInterrupt = 0x8000000000000001"
| "interrupt_cause TimerInterrupt = 0x8000000000000005"
| "interrupt_cause ExternalInterrupt = 0x8000000000000009"
| "interrupt_cause CounterOverflowInterrupt = 0x800000000000000d"
| "interrupt_cause SystemCall = 8"
| "interrupt_cause InstructionPageFault = 12"
| "interrupt_cause LoadPageFault = 13"
| "interrupt_cause StorePageFault = 15"
| "interrupt_cause IllegalInstruction = 2"

definition is_kernel_trap :: "pmem \<Rightarrow> u64 \<Rightarrow> bool" where
  "is_kernel_trap m tf = (frame_get m tf sstatus AND push_bit 8 1 \<noteq> 0)"

type_synonym 's trap_run = "(u64 \<times> 's trap_world) run"

definition handle_timer_interrupt :: "'s environment \<Rightarrow> u64 \<Rightarrow> 's trap_world \<Rightarrow> 's trap_run" where
  "handle_timer_interrupt ev tf w =
     run_bind (schedule (ev_tp ev) (kern w)) (\<lambda>(next_thread, k).
     let w = (set_kern k w)\<lparr>tw_timer := set_timer (ev_time ev) DEFAULT_PROCESS_TIME (tw_timer w)\<rparr> in
     run_bind (Some (thread_at w next_thread)) (\<lambda>thread. Some (Inr (t_trap_frame thread, w))))"

definition handle_external_interrupt :: "'s environment \<Rightarrow> u64 \<Rightarrow> 's trap_world \<Rightarrow> 's trap_run" where
  "handle_external_interrupt ev tf w =
     (let (next_interrupt, p) = plic_next (ev_plic ev) (ucast DEFAULT_CONTEXT_ID) (tw_plic w); w = w\<lparr>tw_plic := p\<rparr> in
      case next_interrupt of None \<Rightarrow> Some (Inr (tf, w))
      | Some interrupt \<Rightarrow>
          run_bind (delegate_device_interrupt (ucast interrupt) (tw_mc w)) (\<lambda>(_, mc).
            Some (Inr (tf, w\<lparr>tw_mc := mc, tw_plic := plic_complete (ucast DEFAULT_CONTEXT_ID) interrupt (tw_plic w)\<rparr>))))"

definition handle_system_call :: "'s environment \<Rightarrow> u64 \<Rightarrow> 's trap_world \<Rightarrow> 's trap_run" where
  "handle_system_call ev tf w =
     run_bind (Some (get_current_process (ev_tp ev) (kern w))) (\<lambda>proc.
     run_bind (Some (get_current_thread (ev_tp ev) (kern w))) (\<lambda>current_thread.
     run_bind (Some (thread_at w current_thread)) (\<lambda>thread.
     let syscallId = get_register (mem w) (t_trap_frame thread) SyscallId in
     run_bind (handle_syscall ev proc syscallId w) (\<lambda>(error_or_ok, w).
     if error_or_ok = Inl SysBlocked
     then run_bind (schedule (ev_tp ev) (kern w)) (\<lambda>(new_thread, k).
       let w = set_kern k w in run_bind (Some (thread_at w new_thread)) (\<lambda>thread. Some (Inr (t_trap_frame thread, w))))
     else Some (Inr (tf, set_mem (frame_set tf sepc (frame_get (mem w) tf sepc + 4) (mem w)) w))))))"

text \<open>\<^verbatim>\<open>kernel_panic\<close> does not return.\<close>

definition kernel_panic :: "'s trap_run" where
  "kernel_panic = None"

definition handle_interrupt :: "'s environment \<Rightarrow> u64 \<Rightarrow> 's trap_world \<Rightarrow> 's trap_run" where
  "handle_interrupt ev tf w =
     (let cause = frame_get (mem w) tf scause in
      if is_kernel_trap (mem w) tf then
        if cause = interrupt_cause InstructionPageFault \<or> cause = interrupt_cause LoadPageFault \<or>
           cause = interrupt_cause StorePageFault \<or> cause = interrupt_cause IllegalInstruction then kernel_panic
        else if cause = interrupt_cause ExternalInterrupt then handle_external_interrupt ev tf w
        else Some (Inr (tf, w))
      else if cause = interrupt_cause SoftwareInterrupt then Some (Inr (tf, w))
      else if cause = interrupt_cause TimerInterrupt then handle_timer_interrupt ev tf w
      else if cause = interrupt_cause ExternalInterrupt then handle_external_interrupt ev tf w
      else if cause = interrupt_cause SystemCall then handle_system_call ev tf w
      else Some (Inr (tf, w)))"

end
