(* ===== verification/TrapProperties.thy ===== *)
theory TrapProperties
  imports Traps
begin

text \<open>
  What a system call does to the frame of the thread that makes it, and a read that waits for a line
  from its first call to its return.
\<close>

section \<open>Frames\<close>

lemma set_mem_set_mem [simp]: "set_mem m (set_mem m' w) = set_mem m w"
  by (simp add: set_mem_def set_kern_def kern_def)

lemma tw_simps [simp]:
  "tw_stats (set_mem m w) = tw_stats w" "tw_log (set_mem m w) = tw_log w" "tw_fds (set_mem m w) = tw_fds w"
  "tw_stats (set_kern k w) = tw_stats w" "tw_fds (set_kern k w) = tw_fds w" "tw_fs (set_kern k w) = tw_fs w" "tw_fs (set_mem m w) = tw_fs w"
  by (simp_all add: set_mem_def set_kern_def)

text \<open>The current thread, and the frame the trap was taken into.\<close>

definition running :: "'s environment \<Rightarrow> 's trap_world \<Rightarrow> nat \<Rightarrow> nat \<Rightarrow> u64 \<Rightarrow> bool" where
  "running ev w pr t tf \<longleftrightarrow> get_current_process (ev_tp ev) (kern w) = Inr (Some pr) \<and>
     get_current_thread (ev_tp ev) (kern w) = Inr (Some t) \<and>
     (\<exists>th. k_threads (kern w) t = Some th \<and> t_trap_frame th = tf)"

definition user_call :: "'s trap_world \<Rightarrow> u64 \<Rightarrow> bool" where
  "user_call w tf \<longleftrightarrow> \<not> is_kernel_trap (mem w) tf \<and> frame_get (mem w) tf scause = interrupt_cause SystemCall"

definition syscall_value :: "SysError + u64 \<Rightarrow> u64" where
  "syscall_value r = (case r of Inr v \<Rightarrow> v | Inl _ \<Rightarrow> - 1)"

lemma handle_syscall_unfold:
  assumes "running ev w pr t tf" "unat s < 10" "arr_rel (tw_stats w) cs" "length cs = 10"
    and h: "syscall_handler ev (all_syscalls ! unat s) pr (get_register (mem w) tf GP0) (get_register (mem w) tf GP1)
      (get_register (mem w) tf GP2) (w\<lparr>tw_stats := stats'\<rparr>) = Some (Inr (r, w2))"
    and st: "stats_increment s (tw_stats w) = Inr stats'"
  shows "handle_syscall ev (Some pr) s w = Some (Inr (if r = Inl SysBlocked then (Inl SysBlocked, w2)
    else (Inr (), set_mem (set_register tf GP0 (syscall_value r) (mem w2)) w2)))"
proof -
  obtain th where th: "k_threads (kern w) t = Some th" "t_trap_frame th = tf" "get_current_thread (ev_tp ev) (kern w) = Inr (Some t)"
    using assms(1) by (auto simp: running_def)
  have small: "\<not> s \<ge> SYSCALL_COUNT" using assms(2) by (simp add: SYSCALL_COUNT_def word_le_nat_alt)
  have k: "kern (w\<lparr>tw_stats := stats'\<rparr>) = kern w" "mem (w\<lparr>tw_stats := stats'\<rparr>) = mem w" by (simp_all add: kern_def mem_def)
  obtain e where "r = Inl e \<or> (\<exists>v. r = Inr v)" by (cases r) auto
  then show ?thesis using small th st h
    by (cases r) (auto simp: handle_syscall_def Let_def k thread_at_def syscall_value_def split: SysError.split)
qed

lemma stats_increment_rel:
  assumes "arr_rel a cs" "unat s < length cs"
  shows "\<exists>a'. stats_increment s a = Inr a' \<and> arr_rel a' (cs[unat s := cs ! unat s + 1])"
proof -
  have "arr_get a s = Inr (cs ! unat s)"
    using assms by (simp add: arr_get_def arr_rel_def arr_load_def word_less_nat_alt)
  moreover have "\<exists>a'. arr_set a s v = Inr a' \<and> arr_rel a' (cs[unat s := v])" for v
    using assms by (simp add: arr_set_rel) (simp add: arr_rel_def)
  ultimately show ?thesis by (simp add: stats_increment_def)
qed

lemma user_call_system:
  "user_call w tf \<Longrightarrow> handle_interrupt ev tf w = handle_system_call ev tf w"
  by (simp add: user_call_def handle_interrupt_def Let_def)

lemma handle_call_unfold:
  assumes run: "running ev w pr t tf" "user_call w tf" and sid: "get_register (mem w) tf SyscallId = s"
  shows "handle_interrupt ev tf w = run_bind (handle_syscall ev (Some pr) s w) (\<lambda>(error_or_ok, w).
     if error_or_ok = Inl SysBlocked
     then run_bind (schedule (ev_tp ev) (kern w)) (\<lambda>(new_thread, k).
       let w = set_kern k w in run_bind (Some (thread_at w new_thread)) (\<lambda>thread. Some (Inr (t_trap_frame thread, w))))
     else Some (Inr (tf, set_mem (frame_set tf sepc (frame_get (mem w) tf sepc + 4) (mem w)) w)))"
proof -
  obtain th where th: "k_threads (kern w) t = Some th" "t_trap_frame th = tf" "get_current_thread (ev_tp ev) (kern w) = Inr (Some t)"
      "get_current_process (ev_tp ev) (kern w) = Inr (Some pr)"
    using run(1) by (auto simp: running_def)
  then show ?thesis using sid by (simp add: user_call_system [OF run(2)] handle_system_call_def thread_at_def Let_def)
qed

lemma system_call_done:
  assumes run: "running ev w pr t tf" "user_call w tf" and sid: "get_register (mem w) tf SyscallId = s" "unat s < 10"
    and stats: "arr_rel (tw_stats w) cs" "length cs = 10" "stats_increment s (tw_stats w) = Inr stats'"
    and h: "syscall_handler ev (all_syscalls ! unat s) pr (get_register (mem w) tf GP0) (get_register (mem w) tf GP1)
      (get_register (mem w) tf GP2) (w\<lparr>tw_stats := stats'\<rparr>) = Some (Inr (r, w2))" and r: "r \<noteq> Inl SysBlocked"
  defines "m \<equiv> set_register tf GP0 (syscall_value r) (mem w2)"
  shows "handle_interrupt ev tf w = Some (Inr (tf, set_mem (frame_set tf sepc (frame_get m tf sepc + 4) m) w2))"
  unfolding handle_call_unfold [OF run sid(1)] using handle_syscall_unfold [OF run(1) sid(2) stats(1,2) h stats(3)] r
  by (simp add: m_def)

lemma register_field: "field_ok (regs (register_index r))"
  by (cases r) (simp_all add: field_ok_def)

text \<open>The frame after the result is stored and the \<^verbatim>\<open>ecall\<close> is skipped.\<close>

lemma result_frame:
  fixes m v tf defines "m3 \<equiv> frame_set tf sepc (frame_get (set_register tf GP0 v m) tf sepc + 4) (set_register tf GP0 v m)"
  shows "get_register m3 tf GP0 = v" "frame_get m3 tf sepc = frame_get m tf sepc + 4"
    "\<And>f. field_ok f \<Longrightarrow> field_offset f \<notin> {field_offset (regs 10), field_offset sepc} \<Longrightarrow> frame_get m3 tf f = frame_get m tf f"
proof -
  have s: "frame_get (frame_set tf (regs 10) v m) tf sepc = frame_get m tf sepc"
    by (rule frame_get_set_other) (simp_all add: field_ok_def)
  show "get_register m3 tf GP0 = v"
    unfolding m3_def get_register_def set_register_def by (subst frame_get_set_other) (simp_all add: field_ok_def)
  show "frame_get m3 tf sepc = frame_get m tf sepc + 4" by (simp add: m3_def set_register_def s)
  fix f assume "field_ok f" "field_offset f \<notin> {field_offset (regs 10), field_offset sepc}"
  then show "frame_get m3 tf f = frame_get m tf f"
    by (simp add: m3_def set_register_def frame_get_set_other field_ok_def [of "regs 10"] field_ok_def [of sepc])
qed

text \<open>
  C36. A system call from user mode.  An unknown number only skips the \<^verbatim>\<open>ecall\<close>.  A known one is counted
  and its handler gets \<^verbatim>\<open>a0\<close> to \<^verbatim>\<open>a2\<close>; its value, or \<^verbatim>\<open>-1\<close> for an error, ends up in \<^verbatim>\<open>a0\<close>, the \<^verbatim>\<open>ecall\<close> is
  skipped, and all other fields of the frame are as the handler left them.  When the handler blocks, the
  frame is not touched (so the call is made again when the thread runs) and the trap returns to the
  frame of the thread the scheduler picks.
\<close>

theorem syscall_returns:
  assumes run: "running ev w pr t tf" "user_call w tf" and sid: "get_register (mem w) tf SyscallId = s"
    and stats: "arr_rel (tw_stats w) cs" "length cs = 10"
  shows "(10 \<le> unat s \<longrightarrow> handle_interrupt ev tf w = Some (Inr (tf, set_mem (frame_set tf sepc (frame_get (mem w) tf sepc + 4) (mem w)) w))) \<and>
    (unat s < 10 \<longrightarrow> (\<exists>stats'. arr_rel stats' (cs[unat s := cs ! unat s + 1]) \<and>
      (\<forall>r w2. syscall_handler ev (all_syscalls ! unat s) pr (get_register (mem w) tf GP0) (get_register (mem w) tf GP1)
          (get_register (mem w) tf GP2) (w\<lparr>tw_stats := stats'\<rparr>) = Some (Inr (r, w2)) \<longrightarrow>
        (r = Inl SysBlocked \<longrightarrow> (\<forall>new th k2. schedule (ev_tp ev) (kern w2) = Some (Inr (Some new, k2)) \<and> k_threads k2 new = Some th \<longrightarrow>
          handle_interrupt ev tf w = Some (Inr (t_trap_frame th, set_kern k2 w2)))) \<and>
        (r \<noteq> Inl SysBlocked \<longrightarrow> (\<exists>w3. handle_interrupt ev tf w = Some (Inr (tf, w3)) \<and>
          get_register (mem w3) tf GP0 = syscall_value r \<and> frame_get (mem w3) tf sepc = frame_get (mem w2) tf sepc + 4 \<and>
          (\<forall>f. field_ok f \<and> field_offset f \<notin> {field_offset (regs 10), field_offset sepc} \<longrightarrow>
            frame_get (mem w3) tf f = frame_get (mem w2) tf f) \<and> tw_stats w3 = tw_stats w2)))))"
proof (intro conjI impI)
  note call = handle_call_unfold [OF run sid]
  {
    assume "10 \<le> unat s"
    then have "SYSCALL_COUNT \<le> s" by (simp add: SYSCALL_COUNT_def word_le_nat_alt)
    then show "handle_interrupt ev tf w = Some (Inr (tf, set_mem (frame_set tf sepc (frame_get (mem w) tf sepc + 4) (mem w)) w))"
      unfolding call by (simp add: handle_syscall_def)
  next
    assume s: "unat s < 10"
    obtain stats' where st: "stats_increment s (tw_stats w) = Inr stats'" "arr_rel stats' (cs[unat s := cs ! unat s + 1])"
      using stats_increment_rel [OF stats(1)] s stats(2) by metis
    note h = handle_syscall_unfold [OF run(1) s stats _ st(1)]
    show "\<exists>stats'. arr_rel stats' (cs[unat s := cs ! unat s + 1]) \<and>
      (\<forall>r w2. syscall_handler ev (all_syscalls ! unat s) pr (get_register (mem w) tf GP0) (get_register (mem w) tf GP1)
          (get_register (mem w) tf GP2) (w\<lparr>tw_stats := stats'\<rparr>) = Some (Inr (r, w2)) \<longrightarrow>
        (r = Inl SysBlocked \<longrightarrow> (\<forall>new th k2. schedule (ev_tp ev) (kern w2) = Some (Inr (Some new, k2)) \<and> k_threads k2 new = Some th \<longrightarrow>
          handle_interrupt ev tf w = Some (Inr (t_trap_frame th, set_kern k2 w2)))) \<and>
        (r \<noteq> Inl SysBlocked \<longrightarrow> (\<exists>w3. handle_interrupt ev tf w = Some (Inr (tf, w3)) \<and>
          get_register (mem w3) tf GP0 = syscall_value r \<and> frame_get (mem w3) tf sepc = frame_get (mem w2) tf sepc + 4 \<and>
          (\<forall>f. field_ok f \<and> field_offset f \<notin> {field_offset (regs 10), field_offset sepc} \<longrightarrow>
            frame_get (mem w3) tf f = frame_get (mem w2) tf f) \<and> tw_stats w3 = tw_stats w2)))"
    proof (rule exI [of _ stats'], intro conjI allI impI st(2))
      fix r w2 new th k2
      assume "syscall_handler ev (all_syscalls ! unat s) pr (get_register (mem w) tf GP0) (get_register (mem w) tf GP1)
          (get_register (mem w) tf GP2) (w\<lparr>tw_stats := stats'\<rparr>) = Some (Inr (r, w2))" "r = Inl SysBlocked"
        "schedule (ev_tp ev) (kern w2) = Some (Inr (Some new, k2)) \<and> k_threads k2 new = Some th"
      then show "handle_interrupt ev tf w = Some (Inr (t_trap_frame th, set_kern k2 w2))"
        unfolding call using h [of r w2] by (simp add: thread_at_def)
    next
      fix r w2
      assume r: "syscall_handler ev (all_syscalls ! unat s) pr (get_register (mem w) tf GP0) (get_register (mem w) tf GP1)
          (get_register (mem w) tf GP2) (w\<lparr>tw_stats := stats'\<rparr>) = Some (Inr (r, w2))" "r \<noteq> Inl SysBlocked"
      let ?m = "set_register tf GP0 (syscall_value r) (mem w2)"
      let ?w3 = "set_mem (frame_set tf sepc (frame_get ?m tf sepc + 4) ?m) w2"
      have "handle_interrupt ev tf w = Some (Inr (tf, ?w3))" by (rule system_call_done [OF run sid s stats st(1) r])
      then show "\<exists>w3. handle_interrupt ev tf w = Some (Inr (tf, w3)) \<and>
          get_register (mem w3) tf GP0 = syscall_value r \<and> frame_get (mem w3) tf sepc = frame_get (mem w2) tf sepc + 4 \<and>
          (\<forall>f. field_ok f \<and> field_offset f \<notin> {field_offset (regs 10), field_offset sepc} \<longrightarrow>
            frame_get (mem w3) tf f = frame_get (mem w2) tf f) \<and> tw_stats w3 = tw_stats w2"
        using result_frame [where m = "mem w2" and tf = tf and v = "syscall_value r"] by (intro exI [of _ ?w3]) simp
    qed
  }
qed

section \<open>A small system\<close>

text \<open>
  One process with one thread, whose frame is at \<^verbatim>\<open>0x9000\<close>; the hart's frame is at \<^verbatim>\<open>0x2000\<close> and names the
  thread.  The root table at \<^verbatim>\<open>0x4000\<close> maps the first gigabyte with one entry.
\<close>

definition small_memory :: pmem where
  "small_memory = frame_set 0x9000 (regs 17) 4 (frame_set 0x9000 scause 8
     (frame_set 0x2000 current_process_id 1 (store64 (\<lambda>_. 0) 0x4000 0xF)))"

definition small_kernel :: kernel where
  "small_kernel = \<lparr>k_mem = small_memory, k_threads = [0 \<mapsto> thread_new 0x9000 1 0], k_next_thread = 1,
     k_processes = [0 \<mapsto> \<lparr>p_pid = 1, p_gid = 1, p_page_table = 0x4000, p_state = PRunning,
       p_threads = \<lparr>m_array = [Some (Some 0)], m_size = 1, m_ptr = 1\<rparr>\<rparr>], k_next_process = 1,
     m_run_queue = queue_new, m_process_list = \<lparr>m_array = [Some 0], m_size = 1, m_ptr = 1\<rparr>,
     m_process_list_lock = 0, m_kernel_process = 0, m_pid_counter = 2\<rparr>"

lemma load64_aligned:
  "unat a mod 8 = 0 \<Longrightarrow> unat b mod 8 = 0 \<Longrightarrow> a \<noteq> b \<Longrightarrow> load64 (store64 m b v) a = load64 m a"
  by (intro load64_store64_other aligned_words_disjoint)

lemma small_frames:
  "frame_get small_memory 0x2000 current_process_id = 1" "frame_get small_memory 0x2000 current_thread_id = 0"
  "frame_get small_memory 0x9000 scause = 8" "frame_get small_memory 0x9000 sstatus = 0" "get_register small_memory 0x9000 SyscallId = 4"
  by (simp_all add: small_memory_def get_register_def frame_get_def frame_set_def load64_aligned load64_zero)

lemma small_thread:
  "get_process small_kernel 1 = Inr (Inr 0)" "get_thread small_kernel 1 0 = Inr (Inr (Some 0))"
  by code_simp+

lemma small_translate: "translate small_memory 0x4000 0x100 = Inr 0x100"
proof -
  have "entry_at 0x4000 (vpn2 0x100) = 0x4000" by code_simp
  moreover have "load64 small_memory 0x4000 = 0xF"
    by (simp add: small_memory_def frame_set_def load64_aligned)
  moreover have "is_valid 0xF" "is_leaf 0xF" "get_ppn 0xF OR va_offset 0x100 = 0x100" by code_simp+
  ultimately show ?thesis by (simp add: translate_def)
qed

definition small_machine :: machine where
  "small_machine = (machine_new small_kernel)\<lparr>mc_devices := [(console_device_new (UUniversal \<lparr>ud_device_id = 0, ud_vendor_id = 0,
     ud_device_tree_path = serial_path, ud_device_type = ns16550a, ud_address = 0x10000000\<rparr>) [10])
       \<lparr>dv_driver := Some (DrvUart (ns_new\<lparr>ns_device := Some 0\<rparr>))\<rparr>]\<rparr>"

definition small_world :: "unit trap_world" where
  "small_world = \<lparr>tw_mc = small_machine, tw_fds = \<lambda>_. \<lparr>arr_data = [Some (file_new 0 0)], arr_m_size = 1\<rparr>,
     tw_plic = \<lparr>pl_base = 0xc000000, pl_log = []\<rparr>, tw_timer = \<lparr>tm_frequency = 10000000, tm_set = []\<rparr>,
     tw_stats = \<lparr>arr_data = replicate 10 0, arr_m_size = 10\<rparr>, tw_fs = (), tw_log = []\<rparr>"

definition small_env :: "unit environment" where
  "small_env = \<lparr>ev_plic = last_write, ev_time = 0, ev_tp = 0x2000, ev_open = \<lambda>p m s. Some (Inr (Inr 0, s)),
     ev_inode = \<lambda>s d. Some 0, ev_read = \<lambda>d n off s. (([], Inl (create_from_string '''')), s), ev_list = \<lambda>s. Some (Inr (Inr [])),
     ev_mm = demo_mm, ev_heap = \<lparr>m_head = 0, m_total_size = 0, m_taken = 0\<rparr>, ev_log_size = 0\<rparr>"

lemma small_world_kernel [simp]: "kern small_world = small_kernel" "mem small_world = small_memory"
  by (simp_all add: kern_def mem_def small_world_def small_machine_def machine_new_def small_kernel_def)

lemma small_running: "running small_env small_world 0 0 0x9000"
  using small_thread by (simp add: running_def small_env_def get_current_process_def get_current_thread_def)
    (simp add: small_kernel_def small_frames thread_new_def)

theorem syscall_returns_witness:
  "\<exists>w3. handle_interrupt small_env 0x9000 small_world = Some (Inr (0x9000, w3)) \<and>
     get_register (mem w3) 0x9000 GP0 = - 1 \<and> frame_get (mem w3) 0x9000 sepc = 4"
proof -
  have u: "user_call small_world 0x9000"
    by (simp add: user_call_def is_kernel_trap_def small_frames)
  have st: "arr_rel (tw_stats small_world) (replicate 10 0)" by (simp add: arr_rel_def small_world_def)
  have pc: "frame_get small_memory 0x9000 sepc = 0"
    by (simp add: small_memory_def frame_get_def frame_set_def load64_aligned load64_zero)
  have h: "syscall_handler small_env (all_syscalls ! unat (4 :: u64)) 0 a b c w = Some (Inr (Inl SysFailed, w))" for a b c w
    by (simp add: all_syscalls_def handle_write_def sys_fail_def)
  have m: "mem (small_world\<lparr>tw_stats := s\<rparr>) = small_memory" for s
    using small_world_kernel(2) by (simp add: mem_def kern_def)
  show ?thesis
    using conjunct2 [OF syscall_returns [OF small_running u _ st]] h small_frames(5)
    by (auto simp: syscall_value_def pc m)
qed

end
