(* ===== verification/ContextSwitch.thy ===== *)
theory ContextSwitch
  imports TrapProperties
begin

text \<open>
  The context switch of \<^verbatim>\<open>Arch/riscv64/trap.S\<close>: \<^verbatim>\<open>m_trap_vector\<close> up to the call of \<^verbatim>\<open>handle_interrupt\<close>, its
  second half, and \<^verbatim>\<open>switch_to_user\<close>, as programs of a small part of the RISC-V instruction set.  The
  translation of addresses by the hart is a parameter \<^verbatim>\<open>mmu\<close>, which gives the physical address of a virtual
  one under a value of \<^verbatim>\<open>satp\<close>; the trap frames are in physical memory.
\<close>

section \<open>Instructions\<close>

datatype csr = CsrSepc | CsrSstatus | CsrScause | CsrStval | CsrSatp | CsrSscratch | CsrStvec | CsrSie

record hart =
  h_x :: "nat \<Rightarrow> u64"
  h_f :: "nat \<Rightarrow> u64"
  h_csr :: "csr \<Rightarrow> u64"
  h_mem :: pmem

text \<open>Registers by number: \<^verbatim>\<open>x0\<close> reads as zero and is not written.\<close>

definition rx :: "hart \<Rightarrow> nat \<Rightarrow> u64" where
  "rx h r = (if r = 0 then 0 else h_x h r)"

definition wx :: "nat \<Rightarrow> u64 \<Rightarrow> hart \<Rightarrow> hart" where
  "wx r v h = (if r = 0 then h else h\<lparr>h_x := (h_x h)(r := v)\<rparr>)"

datatype instr = Sd nat u64 nat | Ld nat u64 nat | Fsd nat u64 nat | Fld nat u64 nat
  | Csrr nat csr | Csrw csr nat | Csrrw nat csr nat | Mv nat nat | Li nat u64 | SfenceVma
  | UnlessEq nat nat "instr list"

type_synonym mmu = "u64 \<Rightarrow> u64 \<Rightarrow> u64"

text \<open>\<^verbatim>\<open>UnlessEq\<close> is a \<^verbatim>\<open>beq\<close> over the instructions it holds.\<close>

fun execute :: "mmu \<Rightarrow> instr \<Rightarrow> hart \<Rightarrow> hart" and run_code :: "mmu \<Rightarrow> instr list \<Rightarrow> hart \<Rightarrow> hart" where
  "execute mmu (Sd r off b) h = h\<lparr>h_mem := store64 (h_mem h) (mmu (h_csr h CsrSatp) (rx h b + off)) (rx h r)\<rparr>"
| "execute mmu (Ld r off b) h = wx r (load64 (h_mem h) (mmu (h_csr h CsrSatp) (rx h b + off))) h"
| "execute mmu (Fsd r off b) h = h\<lparr>h_mem := store64 (h_mem h) (mmu (h_csr h CsrSatp) (rx h b + off)) (h_f h r)\<rparr>"
| "execute mmu (Fld r off b) h = h\<lparr>h_f := (h_f h)(r := load64 (h_mem h) (mmu (h_csr h CsrSatp) (rx h b + off)))\<rparr>"
| "execute mmu (Csrr r c) h = wx r (h_csr h c) h"
| "execute mmu (Csrw c r) h = h\<lparr>h_csr := (h_csr h)(c := rx h r)\<rparr>"
| "execute mmu (Csrrw r c r') h = wx r (h_csr h c) (h\<lparr>h_csr := (h_csr h)(c := rx h r')\<rparr>)"
| "execute mmu (Mv r r') h = wx r (rx h r') h"
| "execute mmu (Li r v) h = wx r v h"
| "execute mmu SfenceVma h = h"
| "execute mmu (UnlessEq r r' is) h = (if rx h r = rx h r' then h else run_code mmu is h)"
| "run_code mmu [] h = h"
| "run_code mmu (i # is) h = run_code mmu is (execute mmu i h)"

lemma run_code_append [simp]: "run_code mmu (is @ js) h = run_code mmu js (run_code mmu is h)"
  by (induction "is" arbitrary: h) simp_all

section \<open>\<^verbatim>\<open>trap.S\<close>\<close>

abbreviation t0 :: nat where "t0 \<equiv> 5"
abbreviation t1 :: nat where "t1 \<equiv> 6"
abbreviation t2 :: nat where "t2 \<equiv> 7"
abbreviation t3 :: nat where "t3 \<equiv> 28"
abbreviation t4 :: nat where "t4 \<equiv> 29"
abbreviation t5 :: nat where "t5 \<equiv> 30"
abbreviation t6 :: nat where "t6 \<equiv> 31"
abbreviation a0 :: nat where "a0 \<equiv> 10"
abbreviation sp :: nat where "sp \<equiv> 2"
abbreviation tp :: nat where "tp \<equiv> 4"

definition TRAP_FRAME_ALIAS :: u64 where
  "TRAP_FRAME_ALIAS = 0x1000"

definition save_gp :: "nat \<Rightarrow> instr" where "save_gp i = Sd i (field_offset (regs (of_nat i))) t6"
definition load_gp :: "nat \<Rightarrow> instr" where "load_gp i = Ld i (field_offset (regs (of_nat i))) t6"
definition save_fp :: "nat \<Rightarrow> instr" where "save_fp i = Fsd i (field_offset (fregs (of_nat i))) t6"
definition load_fp :: "nat \<Rightarrow> instr" where "load_fp i = Fld i (field_offset (fregs (of_nat i))) t6"

definition trap_entry :: "instr list" where
  "trap_entry = [Csrrw t6 CsrSscratch t6] @ map save_gp [0..<31] @
     [Csrr t0 CsrSscratch, Sd t0 (field_offset (regs 31)) t6] @ map save_fp [0..<32] @
     [Csrr t0 CsrSepc, Sd t0 (field_offset sepc) t6, Csrr t1 CsrSstatus, Sd t1 (field_offset sstatus) t6,
      Csrr t2 CsrScause, Sd t2 (field_offset scause) t6, Csrr t3 CsrStval, Sd t3 (field_offset stval) t6,
      Ld t2 (field_offset kernel_addr) t6,
      Ld t4 (field_offset kernel_satp) t6, Csrr t5 CsrSatp, Sd t5 (field_offset kernel_satp) t6,
      UnlessEq t4 t5 [Csrw CsrSatp t4, SfenceVma],
      Mv t6 t2, Ld sp (field_offset kernel_sp) t6, Ld tp (field_offset kernel_trap_frame_ptr) t6, Mv a0 t6]"

definition restore_frame :: "instr list" where
  "restore_frame = map load_fp [0..<32] @ map load_gp (filter (\<lambda>i. i \<noteq> 5) [1..<31]) @
     [Ld t0 (field_offset (regs 31)) t6, Csrw CsrSscratch t0, Ld t0 (field_offset (regs 5)) t6, Csrrw t6 CsrSscratch t6]"

definition swap_to_user :: "instr list" where
  "swap_to_user = [Mv t6 a0, Ld t0 (field_offset sepc) t6, Csrw CsrSepc t0, Ld t1 (field_offset sstatus) t6, Csrw CsrSstatus t1,
     Ld t4 (field_offset kernel_satp) t6, Csrr t5 CsrSatp, Sd t5 (field_offset kernel_satp) t6, Csrw CsrSatp t4, SfenceVma,
     Li t6 TRAP_FRAME_ALIAS]"

definition trap_exit :: "instr list" where
  "trap_exit = swap_to_user @ restore_frame"

text \<open>\<^verbatim>\<open>switch_to_user\<close> writes \<^verbatim>\<open>stvec\<close>, the address of \<^verbatim>\<open>m_trap_vector\<close>, and \<^verbatim>\<open>sie\<close> before it does the same.\<close>

definition switch_to_user :: "u64 \<Rightarrow> instr list" where
  "switch_to_user m_trap_vector =
     [Li t0 m_trap_vector, Csrw CsrStvec t0, Li t0 (push_bit 1 1 OR push_bit 5 1 OR push_bit 9 1), Csrw CsrSie t0] @
     swap_to_user @ restore_frame"

section \<open>Frames as fields\<close>

lemma unat_offset:
  assumes "field_ok f"
  shows "unat (field_offset f) = (case f of regs i \<Rightarrow> 8 * unat i | fregs i \<Rightarrow> 256 + 8 * unat i | sepc \<Rightarrow> 512 | sstatus \<Rightarrow> 520
    | scause \<Rightarrow> 528 | stval \<Rightarrow> 536 | kernel_satp \<Rightarrow> 544 | kernel_sp \<Rightarrow> 552 | kernel_trap_frame_ptr \<Rightarrow> 560 | kernel_addr \<Rightarrow> 568
    | cpu_id \<Rightarrow> 576 | current_thread_id \<Rightarrow> 584 | current_process_id \<Rightarrow> 592)"
  using assms by (cases f) (auto simp: field_ok_def unat_times8 unat_times8_add)

lemma field_offset_inj:
  assumes "field_ok f" "field_ok g"
  shows "field_offset f = field_offset g \<longleftrightarrow> f = g"
proof
  assume "field_offset f = field_offset g"
  then have "unat (field_offset f) = unat (field_offset g)" by simp
  then show "f = g" unfolding unat_offset [OF assms(1)] unat_offset [OF assms(2)]
    using assms by (cases f; cases g) (auto simp: field_ok_def word_less_nat_alt word_unat_eq_iff)
qed simp

definition in_frame :: "frame_field \<Rightarrow> bool" where
  "in_frame f \<longleftrightarrow> field_ok f \<and> f \<notin> {cpu_id, current_thread_id, current_process_id}"

lemma in_frame_ok: "in_frame f \<Longrightarrow> field_ok f"
  by (simp add: in_frame_def)

lemma frame_get_set:
  "field_ok f \<Longrightarrow> field_ok g \<Longrightarrow> frame_get (frame_set tf g v m) tf f = (if f = g then v else frame_get m tf f)"
  using frame_get_set_other [of f g tf v m] by (auto simp: field_offset_inj)

lemma frame_set_apart:
  assumes "in_frame f" "x \<notin> span tf 576" shows "frame_set tf f v m x = m x"
proof -
  have "unat (field_offset f) + 8 \<le> 576"
    unfolding unat_offset [OF in_frame_ok [OF assms(1)]]
    using assms(1) by (cases f) (auto simp: in_frame_def field_ok_def word_less_nat_alt)
  then have "span (tf + field_offset f) 8 \<subseteq> span tf 576" by (intro span_sub) simp_all
  then have "x \<notin> span (tf + field_offset f) 8" using assms(2) by blast
  then show ?thesis by (simp add: frame_set_def)
qed

definition frame_sets :: "u64 \<Rightarrow> (frame_field \<times> u64) list \<Rightarrow> pmem \<Rightarrow> pmem" where
  "frame_sets tf ps m = fold (\<lambda>(f, v). frame_set tf f v) ps m"

lemma frame_sets_simps [simp]:
  "frame_sets tf [] m = m" "frame_sets tf (p # ps) m = frame_sets tf ps (frame_set tf (fst p) (snd p) m)"
  by (simp_all add: frame_sets_def split_beta)

lemma frame_sets_append: "frame_sets tf qs (frame_sets tf ps m) = frame_sets tf (ps @ qs) m"
  by (simp add: frame_sets_def)

lemma frame_get_sets:
  "field_ok f \<Longrightarrow> \<forall>p \<in> set ps. field_ok (fst p) \<Longrightarrow> distinct (map fst ps) \<Longrightarrow>
    frame_get (frame_sets tf ps m) tf f = (case map_of ps f of None \<Rightarrow> frame_get m tf f | Some v \<Rightarrow> v)"
proof (induction ps arbitrary: m)
  case (Cons p ps)
  then have "map_of ps (fst p) = None" by (simp add: map_of_eq_None_iff)
  then show ?case using Cons by (auto simp: frame_get_set split: option.split)
qed simp

lemma frame_sets_apart: "\<forall>p \<in> set ps. in_frame (fst p) \<Longrightarrow> x \<notin> span tf 576 \<Longrightarrow> frame_sets tf ps m x = m x"
  by (induction ps arbitrary: m) (simp_all add: frame_set_apart)

section \<open>Saving and restoring\<close>

definition maps :: "mmu \<Rightarrow> u64 \<Rightarrow> u64 \<Rightarrow> u64 \<Rightarrow> bool" where
  "maps mmu s va tf \<longleftrightarrow> (\<forall>f. in_frame f \<longrightarrow> mmu s (va + field_offset f) = tf + field_offset f)"

lemma of_nat_small: "i < 32 \<Longrightarrow> (of_nat i :: u64) < 32"
  by (simp add: word_less_nat_alt unat_of_nat)

lemma in_frame_register [simp]:
  "i < 32 \<Longrightarrow> in_frame (regs (of_nat i))" "i < 32 \<Longrightarrow> in_frame (fregs (of_nat i))" "in_frame sepc" "in_frame sstatus" "in_frame scause"
  "in_frame stval" "in_frame kernel_satp" "in_frame kernel_sp" "in_frame kernel_trap_frame_ptr" "in_frame kernel_addr"
  "in_frame (regs 31)" "in_frame (regs 5)"
  by (simp_all add: in_frame_def field_ok_def of_nat_small)

lemma rx_updates [simp]: "rx (h\<lparr>h_mem := m\<rparr>) r = rx h r" "rx (h\<lparr>h_f := f\<rparr>) r = rx h r" "rx (h\<lparr>h_csr := c\<rparr>) r = rx h r"
  by (simp_all add: rx_def)

lemma wx_keeps [simp]: "h_mem (wx r v h) = h_mem h" "h_f (wx r v h) = h_f h" "h_csr (wx r v h) = h_csr h"
  "rx (wx r v h) r' = (if r' = r \<and> r \<noteq> 0 then v else rx h r')"
  by (simp_all add: wx_def rx_def)

lemma access_field:
  assumes "maps mmu (h_csr h CsrSatp) (rx h b) tf" "in_frame f"
  shows "execute mmu (Sd r (field_offset f) b) h = h\<lparr>h_mem := frame_set tf f (rx h r) (h_mem h)\<rparr>"
    "execute mmu (Fsd r (field_offset f) b) h = h\<lparr>h_mem := frame_set tf f (h_f h r) (h_mem h)\<rparr>"
    "execute mmu (Ld r (field_offset f) b) h = wx r (frame_get (h_mem h) tf f) h"
    "execute mmu (Fld r (field_offset f) b) h = h\<lparr>h_f := (h_f h)(r := frame_get (h_mem h) tf f)\<rparr>"
proof -
  have "mmu (h_csr h CsrSatp) (rx h b + field_offset f) = tf + field_offset f" using assms by (simp add: maps_def)
  then show "execute mmu (Sd r (field_offset f) b) h = h\<lparr>h_mem := frame_set tf f (rx h r) (h_mem h)\<rparr>"
    "execute mmu (Fsd r (field_offset f) b) h = h\<lparr>h_mem := frame_set tf f (h_f h r) (h_mem h)\<rparr>"
    "execute mmu (Ld r (field_offset f) b) h = wx r (frame_get (h_mem h) tf f) h"
    "execute mmu (Fld r (field_offset f) b) h = h\<lparr>h_f := (h_f h)(r := frame_get (h_mem h) tf f)\<rparr>"
    by (simp_all add: frame_get_def frame_set_def)
qed

declare field_offset.simps [simp del] execute.simps(1-4) [simp del]

lemma run_save_gp:
  assumes "maps mmu (h_csr h CsrSatp) (rx h t6) tf" "\<forall>i \<in> set is. i < 32"
  shows "run_code mmu (map save_gp is) h = h\<lparr>h_mem := frame_sets tf (map (\<lambda>i. (regs (of_nat i), rx h i)) is) (h_mem h)\<rparr>"
  using assms
proof (induction "is" arbitrary: h)
  case (Cons i "is")
  have "execute mmu (save_gp i) h = h\<lparr>h_mem := frame_set tf (regs (of_nat i)) (rx h i) (h_mem h)\<rparr>"
    using Cons.prems unfolding save_gp_def by (intro access_field) simp_all
  then show ?case using Cons.IH [of "h\<lparr>h_mem := frame_set tf (regs (of_nat i)) (rx h i) (h_mem h)\<rparr>"] Cons.prems
    by simp
qed simp

lemma run_save_fp:
  assumes "maps mmu (h_csr h CsrSatp) (rx h t6) tf" "\<forall>i \<in> set is. i < 32"
  shows "run_code mmu (map save_fp is) h = h\<lparr>h_mem := frame_sets tf (map (\<lambda>i. (fregs (of_nat i), h_f h i)) is) (h_mem h)\<rparr>"
  using assms
proof (induction "is" arbitrary: h)
  case (Cons i "is")
  have "execute mmu (save_fp i) h = h\<lparr>h_mem := frame_set tf (fregs (of_nat i)) (h_f h i) (h_mem h)\<rparr>"
    using Cons.prems unfolding save_fp_def by (intro access_field) simp_all
  then show ?case using Cons.IH [of "h\<lparr>h_mem := frame_set tf (fregs (of_nat i)) (h_f h i) (h_mem h)\<rparr>"] Cons.prems
    by simp
qed simp

lemma run_load_gp:
  assumes "maps mmu (h_csr h CsrSatp) (rx h t6) tf" "\<forall>i \<in> set is. 0 < i \<and> i < 31"
  shows "run_code mmu (map load_gp is) h =
    h\<lparr>h_x := \<lambda>r. if r \<in> set is then frame_get (h_mem h) tf (regs (of_nat r)) else h_x h r\<rparr>"
  using assms
proof (induction "is" arbitrary: h)
  case (Cons i "is")
  have i: "i < 32" using Cons.prems(2) by simp
  have "execute mmu (load_gp i) h = wx i (frame_get (h_mem h) tf (regs (of_nat i))) h"
    unfolding load_gp_def by (intro access_field Cons.prems(1) in_frame_register(1) i)
  moreover have "maps mmu (h_csr (wx i v h) CsrSatp) (rx (wx i v h) t6) tf" for v
    using Cons.prems by (auto simp: wx_def rx_def)
  ultimately show ?case using Cons.IH [of "wx i (frame_get (h_mem h) tf (regs (of_nat i))) h"] Cons.prems(2)
    by (auto simp: wx_def fun_eq_iff)
qed simp

lemma run_load_fp:
  assumes "maps mmu (h_csr h CsrSatp) (rx h t6) tf" "\<forall>i \<in> set is. i < 32"
  shows "run_code mmu (map load_fp is) h =
    h\<lparr>h_f := \<lambda>r. if r \<in> set is then frame_get (h_mem h) tf (fregs (of_nat r)) else h_f h r\<rparr>"
  using assms
proof (induction "is" arbitrary: h)
  case (Cons i "is")
  have i: "i < 32" using Cons.prems(2) by simp
  have "execute mmu (load_fp i) h = h\<lparr>h_f := (h_f h)(i := frame_get (h_mem h) tf (fregs (of_nat i)))\<rparr>"
    unfolding load_fp_def by (intro access_field Cons.prems(1) in_frame_register(2) i)
  then show ?case using Cons.IH [of "h\<lparr>h_f := (h_f h)(i := frame_get (h_mem h) tf (fregs (of_nat i)))\<rparr>"] Cons.prems
    by (auto simp: fun_eq_iff)
qed simp

section \<open>What the two halves do\<close>

text \<open>The fields \<^verbatim>\<open>m_trap_vector\<close> saves before it swaps \<^verbatim>\<open>satp\<close>.\<close>

definition saved :: "hart \<Rightarrow> (frame_field \<times> u64) list" where
  "saved h = map (\<lambda>i. (regs (of_nat i), rx h i)) [0..<32] @ map (\<lambda>i. (fregs (of_nat i), h_f h i)) [0..<32] @
     [(sepc, h_csr h CsrSepc), (sstatus, h_csr h CsrSstatus), (scause, h_csr h CsrScause), (stval, h_csr h CsrStval)]"

lemma of_nat_inj32:
  assumes "i < 32" "j < 32" shows "(of_nat i :: u64) = of_nat j \<longleftrightarrow> i = j"
proof -
  have "unat (of_nat i :: u64) = i" "unat (of_nat j :: u64) = j" using assms by (simp_all add: unat_of_nat_small)
  then show ?thesis by metis
qed

lemma saved_fields:
  "\<forall>p \<in> set (saved h). in_frame (fst p)" "distinct (map fst (saved h))"
proof -
  show "\<forall>p \<in> set (saved h). in_frame (fst p)" by (auto simp: saved_def)
  have "inj_on (\<lambda>i. regs (of_nat i)) {..<32}" "inj_on (\<lambda>i. fregs (of_nat i)) {..<32}"
    by (auto simp: inj_on_def of_nat_inj32)
  then show "distinct (map fst (saved h))" by (auto simp: saved_def distinct_map comp_def inj_on_def)
qed

lemma saved_lookup:
  "i < 32 \<Longrightarrow> map_of (saved h) (regs (of_nat i)) = Some (rx h i)"
  "i < 32 \<Longrightarrow> map_of (saved h) (fregs (of_nat i)) = Some (h_f h i)"
  "map_of (saved h) sepc = Some (h_csr h CsrSepc)" "map_of (saved h) sstatus = Some (h_csr h CsrSstatus)"
  "map_of (saved h) scause = Some (h_csr h CsrScause)" "map_of (saved h) stval = Some (h_csr h CsrStval)"
  by (rule map_of_is_SomeI [OF saved_fields(2)], force simp: saved_def)+

lemma saved_others:
  "f \<in> {kernel_satp, kernel_sp, kernel_trap_frame_ptr, kernel_addr, cpu_id, current_thread_id, current_process_id} \<Longrightarrow> map_of (saved h) f = None"
  by (auto simp: saved_def map_of_eq_None_iff)

lemma frame_get_saved:
  "field_ok f \<Longrightarrow> frame_get (frame_sets tf (saved h) m) tf f = (case map_of (saved h) f of None \<Rightarrow> frame_get m tf f | Some v \<Rightarrow> v)"
  using saved_fields [of h] by (intro frame_get_sets) (auto simp: in_frame_def)

lemma run_trap_entry:
  assumes user: "maps mmu (h_csr h CsrSatp) (h_csr h CsrSscratch) tf" and kernel: "maps mmu (frame_get (h_mem h) tf kernel_satp) tf tf"
    and addr: "frame_get (h_mem h) tf kernel_addr = tf"
  defines "h' \<equiv> run_code mmu trap_entry h"
  shows "h_mem h' = frame_set tf kernel_satp (h_csr h CsrSatp) (frame_sets tf (saved h) (h_mem h))"
    "h_csr h' = (h_csr h)(CsrSscratch := rx h t6, CsrSatp := frame_get (h_mem h) tf kernel_satp)"
    "rx h' a0 = tf" "rx h' sp = frame_get (h_mem h) tf kernel_sp" "rx h' tp = frame_get (h_mem h) tf kernel_trap_frame_ptr"
proof -
  let ?m = "h_mem h" and ?us = "h_csr h CsrSatp" and ?ks = "frame_get (h_mem h) tf kernel_satp"
  define h1 where "h1 = execute mmu (Csrrw t6 CsrSscratch t6) h"
  have h1: "rx h1 t6 = h_csr h CsrSscratch" "\<And>i. i < 31 \<Longrightarrow> rx h1 i = rx h i" "h_mem h1 = ?m" "h_f h1 = h_f h"
      "h_csr h1 = (h_csr h)(CsrSscratch := rx h t6)"
    by (simp_all add: h1_def)
  have on: "maps mmu (h_csr h1 CsrSatp) (rx h1 t6) tf" using user by (simp add: h1)
  define h2 where "h2 = run_code mmu (map save_gp [0..<31]) h1"
  have h2: "h2 = h1\<lparr>h_mem := frame_sets tf (map (\<lambda>i. (regs (of_nat i), rx h i)) [0..<31]) ?m\<rparr>"
  proof -
    have e: "map (\<lambda>i. (regs (of_nat i), rx h1 i)) [0..<31] = map (\<lambda>i. (regs (of_nat i), rx h i)) [0..<31]"
      by (rule map_cong) (simp_all add: h1(2))
    show ?thesis using run_save_gp [OF on, of "[0..<31]"] unfolding h2_def e h1(3) by simp
  qed
  define h3 where "h3 = run_code mmu [Csrr t0 CsrSscratch, Sd t0 (field_offset (regs 31)) t6] h2"
  have h3: "h_mem h3 = frame_sets tf (map (\<lambda>i. (regs (of_nat i), rx h i)) [0..<31] @ [(regs 31, rx h t6)]) ?m"
    "rx h3 t6 = h_csr h CsrSscratch" "h_f h3 = h_f h" "h_csr h3 = (h_csr h)(CsrSscratch := rx h t6)"
    using user by (simp_all add: h3_def h2 h1 access_field frame_sets_append [symmetric])
  have on3: "maps mmu (h_csr h3 CsrSatp) (rx h3 t6) tf" using user by (simp add: h3)
  define h4 where "h4 = run_code mmu (map save_fp [0..<32]) h3"
  have h4: "h4 = h3\<lparr>h_mem := frame_sets tf (map (\<lambda>i. (fregs (of_nat i), h_f h i)) [0..<32]) (h_mem h3)\<rparr>"
    using run_save_fp [OF on3, of "[0..<32]"] h3(3) by (simp add: h4_def)
  define h5 where "h5 = run_code mmu [Csrr t0 CsrSepc, Sd t0 (field_offset sepc) t6, Csrr t1 CsrSstatus, Sd t1 (field_offset sstatus) t6,
      Csrr t2 CsrScause, Sd t2 (field_offset scause) t6, Csrr t3 CsrStval, Sd t3 (field_offset stval) t6] h4"
  have "map (\<lambda>i. (regs (of_nat i), rx h i)) [0..<32] = map (\<lambda>i. (regs (of_nat i), rx h i)) [0..<31] @ [(regs 31, rx h t6)]"
    using upt_Suc_append [of 0 31] by (simp add: numeral_eq_Suc)
  then have s: "saved h = (map (\<lambda>i. (regs (of_nat i), rx h i)) [0..<31] @ [(regs 31, rx h t6)]) @ map (\<lambda>i. (fregs (of_nat i), h_f h i)) [0..<32] @
     [(sepc, h_csr h CsrSepc), (sstatus, h_csr h CsrSstatus), (scause, h_csr h CsrScause), (stval, h_csr h CsrStval)]"
    by (simp only: saved_def)
  have h5: "h_mem h5 = frame_sets tf (saved h) ?m" "rx h5 t6 = h_csr h CsrSscratch" "h_csr h5 = (h_csr h)(CsrSscratch := rx h t6)"
    using user unfolding s by (simp_all add: h5_def h4 h3 access_field) (simp add: frame_sets_def)
  have code: "h' = run_code mmu [Ld t2 (field_offset kernel_addr) t6,
      Ld t4 (field_offset kernel_satp) t6, Csrr t5 CsrSatp, Sd t5 (field_offset kernel_satp) t6,
      UnlessEq t4 t5 [Csrw CsrSatp t4, SfenceVma],
      Mv t6 t2, Ld sp (field_offset kernel_sp) t6, Ld tp (field_offset kernel_trap_frame_ptr) t6, Mv a0 t6] h5"
    unfolding h'_def trap_entry_def h5_def h4_def h3_def h2_def h1_def run_code_append [symmetric] by simp
  have k: "frame_get (frame_sets tf (saved h) ?m) tf f = frame_get ?m tf f" if "f \<in> {kernel_satp, kernel_sp, kernel_trap_frame_ptr, kernel_addr}" for f
    using that by (auto simp: frame_get_saved field_ok_def saved_others)
  show "h_mem h' = frame_set tf kernel_satp ?us (frame_sets tf (saved h) ?m)" "h_csr h' = (h_csr h)(CsrSscratch := rx h t6, CsrSatp := ?ks)"
    "rx h' a0 = tf" "rx h' sp = frame_get ?m tf kernel_sp" "rx h' tp = frame_get ?m tf kernel_trap_frame_ptr"
    using user kernel addr unfolding code
    by (cases "?ks = ?us"; simp add: h5 access_field k frame_get_set in_frame_ok fun_upd_idem)+
qed

lemma run_swap_to_user:
  assumes kernel: "maps mmu (h_csr h CsrSatp) (rx h a0) (rx h a0)"
  defines "h' \<equiv> run_code mmu swap_to_user h" and "tf \<equiv> rx h a0"
  shows "h_mem h' = frame_set tf kernel_satp (h_csr h CsrSatp) (h_mem h)" "rx h' t6 = TRAP_FRAME_ALIAS" "h_f h' = h_f h"
    "h_csr h' = (h_csr h)(CsrSepc := frame_get (h_mem h) tf sepc, CsrSstatus := frame_get (h_mem h) tf sstatus,
       CsrSatp := frame_get (h_mem h) tf kernel_satp)"
  using kernel by (simp_all add: h'_def tf_def swap_to_user_def access_field)

lemma run_restore_frame:
  assumes user: "maps mmu (h_csr h CsrSatp) (rx h t6) tf"
  defines "h' \<equiv> run_code mmu restore_frame h"
  shows "h_mem h' = h_mem h" "h_csr h' = (h_csr h)(CsrSscratch := rx h t6)"
    "0 < i \<Longrightarrow> i < 32 \<Longrightarrow> rx h' i = frame_get (h_mem h) tf (regs (of_nat i))"
    "i < 32 \<Longrightarrow> h_f h' i = frame_get (h_mem h) tf (fregs (of_nat i))"
proof -
  let ?is = "filter (\<lambda>i. i \<noteq> 5) [1..<31]"
  define h1 where "h1 = run_code mmu (map load_fp [0..<32]) h"
  have h1: "h1 = h\<lparr>h_f := \<lambda>r. if r \<in> set [0..<32] then frame_get (h_mem h) tf (fregs (of_nat r)) else h_f h r\<rparr>"
    unfolding h1_def by (rule run_load_fp [OF user]) simp
  have on1: "maps mmu (h_csr h1 CsrSatp) (rx h1 t6) tf" using user by (simp add: h1)
  define h2 where "h2 = run_code mmu (map load_gp ?is) h1"
  have h2: "h2 = h1\<lparr>h_x := \<lambda>r. if r \<in> set ?is then frame_get (h_mem h1) tf (regs (of_nat r)) else h_x h1 r\<rparr>"
    unfolding h2_def by (rule run_load_gp [OF on1]) auto
  have r2: "rx h2 t6 = rx h t6" "h_csr h2 = h_csr h" "h_mem h2 = h_mem h" "h_f h2 = h_f h1"
    by (simp_all add: h2 h1 rx_def)
  have code: "h' = run_code mmu [Ld t0 (field_offset (regs 31)) t6, Csrw CsrSscratch t0, Ld t0 (field_offset (regs 5)) t6, Csrrw t6 CsrSscratch t6] h2"
    unfolding h'_def restore_frame_def h2_def h1_def run_code_append by (rule refl)
  have fin: "h_mem h' = h_mem h" "h_csr h' = (h_csr h)(CsrSscratch := rx h t6)" "h_f h' = h_f h1"
    "rx h' r = (if r = 31 then frame_get (h_mem h) tf (regs 31) else if r = 5 then frame_get (h_mem h) tf (regs 5) else rx h2 r)" for r
    using user unfolding code by (simp_all add: r2 access_field)
  show "h_mem h' = h_mem h" "h_csr h' = (h_csr h)(CsrSscratch := rx h t6)" by (fact fin)+
  show "i < 32 \<Longrightarrow> h_f h' i = frame_get (h_mem h) tf (fregs (of_nat i))" by (simp add: fin(3) h1)
  assume i: "0 < i" "i < 32"
  then consider "i = 31" | "i = 5" | "i \<in> set ?is" by force
  then show "rx h' i = frame_get (h_mem h) tf (regs (of_nat i))"
  proof cases
    case 3
    then have "i \<noteq> 31" "i \<noteq> 5" by auto
    moreover have "rx h2 i = frame_get (h_mem h) tf (regs (of_nat i))" using 3 i by (simp add: h2 h1 rx_def)
    ultimately show ?thesis by (simp add: fin(4))
  qed (simp_all add: fin(4))
qed

lemma run_trap_exit:
  assumes kernel: "maps mmu (h_csr h CsrSatp) (rx h a0) (rx h a0)"
    and user: "maps mmu (frame_get (h_mem h) (rx h a0) kernel_satp) TRAP_FRAME_ALIAS (rx h a0)"
  defines "h' \<equiv> run_code mmu trap_exit h" and "tf \<equiv> rx h a0"
  shows "h_mem h' = frame_set tf kernel_satp (h_csr h CsrSatp) (h_mem h)"
    "h_csr h' = (h_csr h)(CsrSepc := frame_get (h_mem h) tf sepc, CsrSstatus := frame_get (h_mem h) tf sstatus,
       CsrSatp := frame_get (h_mem h) tf kernel_satp, CsrSscratch := TRAP_FRAME_ALIAS)"
    "0 < i \<Longrightarrow> i < 32 \<Longrightarrow> rx h' i = frame_get (h_mem h) tf (regs (of_nat i))"
    "i < 32 \<Longrightarrow> h_f h' i = frame_get (h_mem h) tf (fregs (of_nat i))"
proof -
  define h1 where "h1 = run_code mmu swap_to_user h"
  note s = run_swap_to_user [OF kernel, folded h1_def tf_def]
  have on: "maps mmu (h_csr h1 CsrSatp) (rx h1 t6) tf" using user by (simp add: s tf_def)
  note r = run_restore_frame [OF on]
  have h': "h' = run_code mmu restore_frame h1" by (simp add: h'_def trap_exit_def h1_def)
  show "h_mem h' = frame_set tf kernel_satp (h_csr h CsrSatp) (h_mem h)"
    "h_csr h' = (h_csr h)(CsrSepc := frame_get (h_mem h) tf sepc, CsrSstatus := frame_get (h_mem h) tf sstatus,
       CsrSatp := frame_get (h_mem h) tf kernel_satp, CsrSscratch := TRAP_FRAME_ALIAS)"
    unfolding h' by (simp_all add: r s)
  have other: "frame_get (h_mem h1) tf f = frame_get (h_mem h) tf f" if "in_frame f" "f \<noteq> kernel_satp" for f
    using that by (simp add: s frame_get_set in_frame_ok)
  show "rx h' i = frame_get (h_mem h) tf (regs (of_nat i))" if "0 < i" "i < 32"
    unfolding h' r(3) [OF that] using that by (intro other) simp_all
  show "h_f h' i = frame_get (h_mem h) tf (fregs (of_nat i))" if "i < 32"
    unfolding h' r(4) [OF that] using that by (intro other) simp_all
qed

section \<open>The trap vector around \<^verbatim>\<open>handle_interrupt\<close>\<close>

text \<open>
  The call: \<^verbatim>\<open>handle_interrupt\<close> gets the frame in \<^verbatim>\<open>a0\<close> and returns the next one there; \<^verbatim>\<open>xs\<close> and \<^verbatim>\<open>fs\<close>
  are what the compiled code leaves in the other registers.
\<close>

definition call_handler :: "'s environment \<Rightarrow> (nat \<Rightarrow> u64) \<Rightarrow> (nat \<Rightarrow> u64) \<Rightarrow> 's trap_world \<Rightarrow> hart \<Rightarrow> (hart \<times> 's trap_world) run" where
  "call_handler ev xs fs w h =
     run_bind (handle_interrupt ev (rx h a0) (set_mem (h_mem h) w)) (\<lambda>(tf, w).
       Some (Inr (h\<lparr>h_x := xs(a0 := tf), h_f := fs, h_mem := mem w\<rparr>, w)))"

definition m_trap_vector :: "mmu \<Rightarrow> 's environment \<Rightarrow> (nat \<Rightarrow> u64) \<Rightarrow> (nat \<Rightarrow> u64) \<Rightarrow> 's trap_world \<Rightarrow> hart \<Rightarrow> (hart \<times> 's trap_world) run" where
  "m_trap_vector mmu ev xs fs w h =
     run_bind (call_handler ev xs fs w (run_code mmu trap_entry h)) (\<lambda>(h, w).
       let h = run_code mmu trap_exit h in Some (Inr (h, set_mem (h_mem h) w)))"

text \<open>
  A frame holds the context \<^verbatim>\<open>c\<close> of a thread that does not run, or belongs to the thread that runs, when
  it holds the kernel's \<^verbatim>\<open>satp\<close>.
\<close>

definition parked :: "pmem \<Rightarrow> u64 \<Rightarrow> hart \<Rightarrow> bool" where
  "parked m tf c \<longleftrightarrow> (\<forall>i. 0 < i \<and> i < 32 \<longrightarrow> frame_get m tf (regs (of_nat i)) = rx c i) \<and>
     (\<forall>i < 32. frame_get m tf (fregs (of_nat i)) = h_f c i) \<and> frame_get m tf sepc = h_csr c CsrSepc \<and>
     frame_get m tf sstatus = h_csr c CsrSstatus \<and> frame_get m tf kernel_satp = h_csr c CsrSatp \<and> frame_get m tf kernel_addr = tf"

definition active :: "pmem \<Rightarrow> u64 \<Rightarrow> u64 \<Rightarrow> bool" where
  "active m tf ks \<longleftrightarrow> frame_get m tf kernel_satp = ks \<and> frame_get m tf kernel_addr = tf"

definition same_context :: "hart \<Rightarrow> hart \<Rightarrow> bool" where
  "same_context h c \<longleftrightarrow> (\<forall>i. 0 < i \<and> i < 32 \<longrightarrow> rx h i = rx c i) \<and> (\<forall>i < 32. h_f h i = h_f c i) \<and>
     (\<forall>r \<in> {CsrSepc, CsrSstatus, CsrSatp}. h_csr h r = h_csr c r)"

text \<open>The frames of all threads, with the context each had when it was interrupted.\<close>

definition contexts_ok :: "mmu \<Rightarrow> u64 set \<Rightarrow> u64 \<Rightarrow> (u64 \<Rightarrow> hart) \<Rightarrow> u64 \<Rightarrow> pmem \<Rightarrow> bool" where
  "contexts_ok mmu F ks ctx cur m \<longleftrightarrow> cur \<in> F \<and> active m cur ks \<and>
     (\<forall>tf \<in> F. maps mmu ks tf tf \<and> (\<forall>tf' \<in> F. tf' \<noteq> tf \<longrightarrow> span tf 576 \<inter> span tf' 576 = {})) \<and>
     (\<forall>tf \<in> F - {cur}. parked m tf (ctx tf) \<and> maps mmu (h_csr (ctx tf) CsrSatp) TRAP_FRAME_ALIAS tf)"

lemma frame_get_cong:
  assumes "in_frame f" "\<And>x. x \<in> span tf 576 \<Longrightarrow> m x = m' x" shows "frame_get m tf f = frame_get m' tf f"
proof -
  have "unat (field_offset f) + 8 \<le> 576"
    unfolding unat_offset [OF in_frame_ok [OF assms(1)]]
    using assms(1) by (cases f) (auto simp: in_frame_def field_ok_def word_less_nat_alt)
  then have "span (tf + field_offset f) 8 \<subseteq> span tf 576" by (intro span_sub) simp_all
  then show ?thesis using assms(2) unfolding frame_get_def by (intro load64_cong) blast
qed

lemma parked_cong:
  assumes "\<And>f. in_frame f \<Longrightarrow> frame_get m tf f = frame_get m' tf f" shows "parked m tf c = parked m' tf c"
  by (simp add: parked_def assms)

lemma entry_parks:
  assumes "maps mmu (h_csr h CsrSatp) (h_csr h CsrSscratch) cur" "contexts_ok mmu F ks ctx cur (h_mem h)" "tf \<in> F"
  defines "m \<equiv> h_mem (run_code mmu trap_entry h)"
  shows "parked m tf ((ctx(cur := h)) tf)"
proof -
  have a: "frame_get (h_mem h) cur kernel_satp = ks" "frame_get (h_mem h) cur kernel_addr = cur" "maps mmu ks cur cur" "cur \<in> F"
    using assms(2) by (auto simp: contexts_ok_def active_def)
  have m: "m = frame_set cur kernel_satp (h_csr h CsrSatp) (frame_sets cur (saved h) (h_mem h))"
    unfolding m_def by (rule run_trap_entry) (use assms(1) a in simp_all)
  show ?thesis
  proof (cases "tf = cur")
    case True
    have "field_ok (regs (of_nat i))" "field_ok (fregs (of_nat i))" if "i < 32" for i
      using that in_frame_register(1,2) in_frame_ok by blast+
    then show ?thesis using True a(2)
      by (simp add: parked_def m frame_get_set frame_get_saved saved_lookup saved_others field_ok_def [of sepc] field_ok_def [of sstatus]
          field_ok_def [of kernel_satp] field_ok_def [of kernel_addr])
  next
    case False
    have "frame_get m tf f = frame_get (h_mem h) tf f" if f: "in_frame f" for f
    proof (rule frame_get_cong [OF f])
      fix x assume "x \<in> span tf 576"
      moreover have "span tf 576 \<inter> span cur 576 = {}" using assms(2,3) a(4) False unfolding contexts_ok_def by blast
      ultimately have "x \<notin> span cur 576" by blast
      then show "m x = h_mem h x" using saved_fields(1) [of h] by (simp add: m frame_set_apart frame_sets_apart)
    qed
    then have "parked m tf (ctx tf) = parked (h_mem h) tf (ctx tf)" by (rule parked_cong)
    then show ?thesis using False assms(2,3) by (simp add: contexts_ok_def)
  qed
qed

lemma exit_resumes:
  assumes p: "\<forall>tf \<in> F. parked (h_mem h) tf (ctx tf) \<and> maps mmu (h_csr (ctx tf) CsrSatp) TRAP_FRAME_ALIAS tf"
    and k: "\<forall>tf \<in> F. maps mmu ks tf tf \<and> (\<forall>tf' \<in> F. tf' \<noteq> tf \<longrightarrow> span tf 576 \<inter> span tf' 576 = {})"
    and s: "h_csr h CsrSatp = ks" "rx h a0 \<in> F"
  defines "h' \<equiv> run_code mmu trap_exit h"
  shows "same_context h' (ctx (rx h a0))" "h_csr h' CsrSscratch = TRAP_FRAME_ALIAS" "contexts_ok mmu F ks ctx (rx h a0) (h_mem h')"
proof -
  let ?b = "rx h a0"
  have b: "parked (h_mem h) ?b (ctx ?b)" "maps mmu (h_csr (ctx ?b) CsrSatp) TRAP_FRAME_ALIAS ?b" "maps mmu ks ?b ?b"
    using p k s(2) by blast+
  have r: "h_mem h' = frame_set ?b kernel_satp ks (h_mem h)"
    "h_csr h' = (h_csr h)(CsrSepc := frame_get (h_mem h) ?b sepc, CsrSstatus := frame_get (h_mem h) ?b sstatus,
       CsrSatp := frame_get (h_mem h) ?b kernel_satp, CsrSscratch := TRAP_FRAME_ALIAS)"
    "\<And>i. 0 < i \<Longrightarrow> i < 32 \<Longrightarrow> rx h' i = frame_get (h_mem h) ?b (regs (of_nat i))"
    "\<And>i. i < 32 \<Longrightarrow> h_f h' i = frame_get (h_mem h) ?b (fregs (of_nat i))"
    unfolding h'_def s(1) [symmetric] by (rule run_trap_exit; use b s(1) in \<open>simp add: parked_def\<close>)+
  show "same_context h' (ctx ?b)" "h_csr h' CsrSscratch = TRAP_FRAME_ALIAS"
    using b(1) by (simp_all add: same_context_def r parked_def)
  have "frame_get (h_mem h') tf f = frame_get (h_mem h) tf f" if "tf \<in> F" "tf \<noteq> ?b" "in_frame f" for tf f
  proof (rule frame_get_cong [OF that(3)])
    fix x assume "x \<in> span tf 576"
    moreover have "span tf 576 \<inter> span ?b 576 = {}" using k that s(2) by blast
    ultimately have "x \<notin> span ?b 576" by blast
    then show "h_mem h' x = h_mem h x" by (simp add: r(1) frame_set_apart)
  qed
  then have "parked (h_mem h') tf (ctx tf)" if "tf \<in> F" "tf \<noteq> ?b" for tf
    using that p parked_cong [of "h_mem h'" tf "h_mem h"] by blast
  moreover have "active (h_mem h') ?b ks"
    using b(1) by (simp add: active_def r(1) frame_get_set parked_def field_ok_def)
  ultimately show "contexts_ok mmu F ks ctx ?b (h_mem h')" using p k s(2) unfolding contexts_ok_def by blast
qed

section \<open>Switching contexts\<close>

lemma entry_state:
  assumes "contexts_ok mmu F ks ctx cur (h_mem h)" "maps mmu (h_csr h CsrSatp) TRAP_FRAME_ALIAS cur" "h_csr h CsrSscratch = TRAP_FRAME_ALIAS"
  defines "h1 \<equiv> run_code mmu trap_entry h"
  shows "rx h1 a0 = cur" "h_csr h1 CsrSatp = ks" "h_csr h1 CsrSscratch = rx h t6" "field_ok f \<Longrightarrow> f \<noteq> kernel_satp \<Longrightarrow>
      frame_get (h_mem h1) cur f = (case map_of (saved h) f of None \<Rightarrow> frame_get (h_mem h) cur f | Some v \<Rightarrow> v)"
    "x \<notin> span cur 576 \<Longrightarrow> h_mem h1 x = h_mem h x"
proof -
  have a: "frame_get (h_mem h) cur kernel_satp = ks" "frame_get (h_mem h) cur kernel_addr = cur" "maps mmu ks cur cur"
    using assms(1) by (auto simp: contexts_ok_def active_def)
  have e: "h_mem h1 = frame_set cur kernel_satp (h_csr h CsrSatp) (frame_sets cur (saved h) (h_mem h))" "rx h1 a0 = cur"
    "h_csr h1 = (h_csr h)(CsrSscratch := rx h t6, CsrSatp := ks)"
    using run_trap_entry(1,2,3) [of mmu h cur] assms(2,3) a unfolding h1_def by simp_all
  show "rx h1 a0 = cur" "h_csr h1 CsrSatp = ks" "h_csr h1 CsrSscratch = rx h t6" by (simp_all add: e)
  show "frame_get (h_mem h1) cur f = (case map_of (saved h) f of None \<Rightarrow> frame_get (h_mem h) cur f | Some v \<Rightarrow> v)"
    if "field_ok f" "f \<noteq> kernel_satp" using that by (simp add: e frame_get_set frame_get_saved field_ok_def [of kernel_satp])
  show "h_mem h1 x = h_mem h x" if "x \<notin> span cur 576"
    using that saved_fields(1) [of h] by (simp add: e frame_set_apart frame_sets_apart)
qed

lemma vector_resumes:
  assumes ok: "contexts_ok mmu F ks ctx cur (h_mem h)" "maps mmu (h_csr h CsrSatp) TRAP_FRAME_ALIAS cur" "h_csr h CsrSscratch = TRAP_FRAME_ALIAS"
    and call: "handle_interrupt ev cur (set_mem (h_mem (run_code mmu trap_entry h)) w) = Some (Inr (new, w2))" "new \<in> F"
    and keeps: "\<forall>tf \<in> F. parked (mem w2) tf (ctx' tf) \<and> h_csr (ctx' tf) CsrSatp = h_csr ((ctx(cur := h)) tf) CsrSatp"
  shows "\<exists>h'. m_trap_vector mmu ev xs fs w h = Some (Inr (h', set_mem (h_mem h') w2)) \<and> same_context h' (ctx' new) \<and>
    h_csr h' CsrSscratch = TRAP_FRAME_ALIAS \<and> contexts_ok mmu F ks ctx' new (h_mem h')"
proof -
  let ?h1 = "run_code mmu trap_entry h"
  let ?h2 = "?h1\<lparr>h_x := xs(a0 := new), h_f := fs, h_mem := mem w2\<rparr>"
  have h2: "rx ?h2 a0 = new" "h_csr ?h2 CsrSatp = ks" "h_mem ?h2 = mem w2" using entry_state(2) [OF ok] by (simp_all add: rx_def)
  have "m_trap_vector mmu ev xs fs w h = Some (Inr (run_code mmu trap_exit ?h2, set_mem (h_mem (run_code mmu trap_exit ?h2)) w2))"
    using call(1) entry_state(1) [OF ok] by (simp add: m_trap_vector_def call_handler_def Let_def)
  moreover have "maps mmu (h_csr (ctx' tf) CsrSatp) TRAP_FRAME_ALIAS tf" if "tf \<in> F" for tf
    using that keeps ok(1,2) by (cases "tf = cur") (auto simp: contexts_ok_def)
  moreover have "\<forall>tf \<in> F. maps mmu ks tf tf \<and> (\<forall>tf' \<in> F. tf' \<noteq> tf \<longrightarrow> span tf 576 \<inter> span tf' 576 = {})"
    using ok(1) by (simp add: contexts_ok_def)
  ultimately show ?thesis using exit_resumes [of F ?h2 ctx' mmu ks] keeps h2 call(2) by auto
qed

lemma kernel_mem_lookup:
  "get_process (k\<lparr>k_mem := m\<rparr>) pid = get_process k pid" "get_thread (k\<lparr>k_mem := m\<rparr>) pid tid = get_thread k pid tid"
  by (simp_all add: get_process_def get_thread_def cong: option.case_cong)

lemma running_mem:
  assumes "running ev (set_mem m w) pr t tf" "span (ev_tp ev) 600 \<inter> A = {}" "\<And>x. x \<notin> A \<Longrightarrow> m' x = m x"
  shows "running ev (set_mem m' w) pr t tf"
proof -
  have "frame_get m' (ev_tp ev) f = frame_get m (ev_tp ev) f" if f: "field_ok f" for f
  proof -
    have "span (ev_tp ev + field_offset f) 8 \<subseteq> span (ev_tp ev) 600" using field_offset_small [OF f] by (intro span_sub; simp)
    then have "m' x = m x" if "x \<in> span (ev_tp ev + field_offset f) 8" for x using that assms(2,3) by blast
    then show ?thesis unfolding frame_get_def by (rule load64_cong)
  qed
  then show ?thesis using assms(1)
    by (simp add: running_def get_current_process_def get_current_thread_def kernel_mem_lookup field_ok_def)
qed

lemma in_frame_result: "in_frame (regs 10)"
  using in_frame_register(1) [of 10] by simp

lemma parked_result:
  fixes v :: u64 assumes "parked m tf h"
  defines "m' \<equiv> set_register tf GP0 v m"
  shows "parked (frame_set tf sepc (frame_get m' tf sepc + 4) m') tf
    (h\<lparr>h_x := (h_x h)(10 := v), h_csr := (h_csr h)(CsrSepc := h_csr h CsrSepc + 4)\<rparr>)"
proof -
  have ok: "field_ok (regs (of_nat i))" "field_ok (fregs (of_nat i))" if "i < 32" for i
    using that in_frame_register(1,2) in_frame_ok by blast+
  have i: "(of_nat i :: u64) = 10 \<longleftrightarrow> i = 10" if "i < 32" for i using of_nat_inj32 [of i 10] that by simp
  have ten: "field_ok (regs 10)" using ok(1) [of 10] by simp
  show ?thesis using assms(1) ten
    by (simp add: parked_def m'_def set_register_def frame_get_set ok i field_ok_def [of sepc] field_ok_def [of sstatus]
        field_ok_def [of kernel_satp] field_ok_def [of kernel_addr] rx_def)
qed

section \<open>All runs of the hart\<close>

lemma run_switch_to_user:
  fixes v :: u64
  assumes "\<forall>tf \<in> F. parked (h_mem h) tf (ctx tf) \<and> maps mmu (h_csr (ctx tf) CsrSatp) TRAP_FRAME_ALIAS tf"
    and "\<forall>tf \<in> F. maps mmu ks tf tf \<and> (\<forall>tf' \<in> F. tf' \<noteq> tf \<longrightarrow> span tf 576 \<inter> span tf' 576 = {})"
    and "h_csr h CsrSatp = ks" "rx h a0 \<in> F"
  defines "h' \<equiv> run_code mmu (switch_to_user v) h"
  shows "same_context h' (ctx (rx h a0))" "h_csr h' CsrSscratch = TRAP_FRAME_ALIAS" "contexts_ok mmu F ks ctx (rx h a0) (h_mem h')"
proof -
  let ?h1 = "run_code mmu [Li t0 v, Csrw CsrStvec t0, Li t0 (push_bit 1 1 OR push_bit 5 1 OR push_bit 9 1), Csrw CsrSie t0] h"
  have s: "h_mem ?h1 = h_mem h" "rx ?h1 a0 = rx h a0" "h_csr ?h1 CsrSatp = h_csr h CsrSatp" by simp_all
  have h': "h' = run_code mmu trap_exit ?h1"
    unfolding h'_def switch_to_user_def trap_exit_def run_code_append by (rule refl)
  note e = exit_resumes [of F ?h1 ctx mmu ks, unfolded s, OF assms(1,2,3,4)]
  show "same_context h' (ctx (rx h a0))" "h_csr h' CsrSscratch = TRAP_FRAME_ALIAS" "contexts_ok mmu F ks ctx (rx h a0) (h_mem h')"
    unfolding h' by (fact e)+
qed

text \<open>
  The states in which threads run: the scheduler starts the first with \<^verbatim>\<open>switch_to_user\<close>; a thread changes its
  registers and memory other than the frames; a trap goes through the vector, and the kernel may change the
  contexts (the result of a call, say) but not their page tables.
\<close>

inductive hart_runs :: "mmu \<Rightarrow> 's environment \<Rightarrow> u64 set \<Rightarrow> u64 \<Rightarrow> (u64 \<Rightarrow> hart) \<Rightarrow> u64 \<Rightarrow> hart \<Rightarrow> bool"
  for mmu :: mmu and ev :: "'s environment" and F :: "u64 set" and ks :: u64 where
  start: "\<lbrakk> \<forall>tf \<in> F. parked (h_mem h) tf (ctx tf) \<and> maps mmu (h_csr (ctx tf) CsrSatp) TRAP_FRAME_ALIAS tf;
    \<forall>tf \<in> F. maps mmu ks tf tf \<and> (\<forall>tf' \<in> F. tf' \<noteq> tf \<longrightarrow> span tf 576 \<inter> span tf' 576 = {});
    h_csr h CsrSatp = ks; rx h a0 \<in> F \<rbrakk> \<Longrightarrow> hart_runs mmu ev F ks ctx (rx h a0) (run_code mmu (switch_to_user v) h)"
| user: "\<lbrakk> hart_runs mmu ev F ks ctx cur h; h_csr h' CsrSatp = h_csr h CsrSatp; h_csr h' CsrSscratch = h_csr h CsrSscratch;
    \<forall>tf \<in> F. \<forall>x \<in> span tf 576. h_mem h' x = h_mem h x \<rbrakk> \<Longrightarrow> hart_runs mmu ev F ks ctx cur h'"
| trap: "\<lbrakk> hart_runs mmu ev F ks ctx cur h;
    handle_interrupt ev cur (set_mem (h_mem (run_code mmu trap_entry h)) w) = Some (Inr (new, w2)); new \<in> F;
    \<forall>tf \<in> F. parked (mem w2) tf (ctx' tf) \<and> h_csr (ctx' tf) CsrSatp = h_csr ((ctx(cur := h)) tf) CsrSatp;
    m_trap_vector mmu ev xs fs w h = Some (Inr (h', w')) \<rbrakk> \<Longrightarrow> hart_runs mmu ev F ks ctx' new h'"

lemma satp_of_context:
  assumes "contexts_ok mmu F ks ctx cur m" "maps mmu (h_csr h CsrSatp) TRAP_FRAME_ALIAS cur" "new \<in> F"
    and "\<forall>tf \<in> F. h_csr (ctx' tf) CsrSatp = h_csr ((ctx(cur := h)) tf) CsrSatp"
  shows "maps mmu (h_csr (ctx' new) CsrSatp) TRAP_FRAME_ALIAS new"
  using assms by (cases "new = cur") (auto simp: contexts_ok_def)

lemma hart_runs_ready:
  "hart_runs mmu ev F ks ctx cur h \<Longrightarrow> contexts_ok mmu F ks ctx cur (h_mem h) \<and>
    maps mmu (h_csr h CsrSatp) TRAP_FRAME_ALIAS cur \<and> h_csr h CsrSscratch = TRAP_FRAME_ALIAS"
proof (induction rule: hart_runs.induct)
  case (start h ctx v)
  then show ?case using run_switch_to_user [of F h ctx mmu ks v] by (simp add: same_context_def)
next
  case (user ctx cur h h')
  have same: "frame_get (h_mem h') tf f = frame_get (h_mem h) tf f" if "tf \<in> F" "in_frame f" for tf f
    using that user.hyps(4) by (intro frame_get_cong) auto
  have "cur \<in> F" using user.IH by (simp add: contexts_ok_def)
  then have "active (h_mem h') cur ks" using user.IH same by (simp add: contexts_ok_def active_def)
  moreover have "parked (h_mem h') tf c = parked (h_mem h) tf c" if "tf \<in> F" for tf c
    using same [OF that] by (rule parked_cong)
  ultimately show ?case using user.IH user.hyps(2,3) by (simp add: contexts_ok_def)
next
  case (trap ctx cur h w new w2 ctx' xs fs h' w')
  then have "same_context h' (ctx' new) \<and> h_csr h' CsrSscratch = TRAP_FRAME_ALIAS \<and> contexts_ok mmu F ks ctx' new (h_mem h')"
    using vector_resumes [of mmu F ks ctx cur h ev w new w2 ctx' xs fs] by auto
  moreover have "maps mmu (h_csr (ctx' new) CsrSatp) TRAP_FRAME_ALIAS new"
    using trap satp_of_context [of mmu F ks ctx cur "h_mem h" h new ctx'] by blast
  ultimately show ?case by (simp add: same_context_def)
qed

text \<open>
  C37. In every state a run of the hart reaches, with the thread of frame \<^verbatim>\<open>cur\<close> running: all other frames hold
  the contexts of their threads, \<^verbatim>\<open>sscratch\<close> the alias of the frame, and the thread is on its own page table.
  A trap from there calls \<^verbatim>\<open>handle_interrupt\<close> when every frame holds the complete context of its thread (all registers,
  \<^verbatim>\<open>sepc\<close>, \<^verbatim>\<open>sstatus\<close> and \<^verbatim>\<open>satp\<close>), with \<^verbatim>\<open>sscratch\<close> holding the \<^verbatim>\<open>t6\<close> of the interrupted thread; and
  whatever frame \<^verbatim>\<open>handle_interrupt\<close> returns, the hart leaves the trap with exactly the context of that
  frame.  So a thread always continues with its own registers.
\<close>

theorem context_switch:
  assumes run: "hart_runs mmu ev F ks ctx cur h"
    and "handle_interrupt ev cur (set_mem (h_mem (run_code mmu trap_entry h)) w) = Some (Inr (new, w2))" "new \<in> F"
    and "\<forall>tf \<in> F. parked (mem w2) tf (ctx' tf) \<and> h_csr (ctx' tf) CsrSatp = h_csr ((ctx(cur := h)) tf) CsrSatp"
  shows "contexts_ok mmu F ks ctx cur (h_mem h) \<and> maps mmu (h_csr h CsrSatp) TRAP_FRAME_ALIAS cur \<and> h_csr h CsrSscratch = TRAP_FRAME_ALIAS \<and>
    (\<forall>tf \<in> F. parked (h_mem (run_code mmu trap_entry h)) tf ((ctx(cur := h)) tf)) \<and>
    h_csr (run_code mmu trap_entry h) CsrSscratch = rx h t6 \<and>
    (\<exists>h' w'. m_trap_vector mmu ev xs fs w h = Some (Inr (h', w')) \<and> same_context h' (ctx' new) \<and> hart_runs mmu ev F ks ctx' new h')"
proof -
  have ok: "contexts_ok mmu F ks ctx cur (h_mem h)" "maps mmu (h_csr h CsrSatp) TRAP_FRAME_ALIAS cur" "h_csr h CsrSscratch = TRAP_FRAME_ALIAS"
    using hart_runs_ready [OF run] by blast+
  obtain h' w' where h': "m_trap_vector mmu ev xs fs w h = Some (Inr (h', w'))" "same_context h' (ctx' new)"
    using vector_resumes [OF ok assms(2-4)] by blast
  have "hart_runs mmu ev F ks ctx' new h'" by (rule hart_runs.trap [OF run assms(2-4) h'(1)])
  then show ?thesis using ok h' entry_parks [of mmu h cur F ks ctx] entry_state(3) [OF ok] by auto
qed

text \<open>
  C38. An \<^verbatim>\<open>ecall\<close> from user mode, from the instruction to the one after it.  When the handler of the call does
  not block and leaves the frames alone, the thread continues behind the \<^verbatim>\<open>ecall\<close> with the result of
  the handler, applied to its registers \<^verbatim>\<open>a0\<close> to \<^verbatim>\<open>a2\<close>, in \<^verbatim>\<open>a0\<close>, and all other registers, integer and
  floating point, the status and the page table are what they were.
\<close>

theorem ecall_returns:
  assumes ok: "contexts_ok mmu F ks ctx cur (h_mem h)" "maps mmu (h_csr h CsrSatp) TRAP_FRAME_ALIAS cur" "h_csr h CsrSscratch = TRAP_FRAME_ALIAS"
    and user: "h_csr h CsrScause = interrupt_cause SystemCall" "h_csr h CsrSstatus AND push_bit 8 1 = 0"
    and run: "running ev (set_mem (h_mem h) w) pr t cur" and apart: "span (ev_tp ev) 600 \<inter> span cur 576 = {}"
    and stats: "arr_rel (tw_stats w) cs" "length cs = 10" "stats_increment (rx h 17) (tw_stats w) = Inr stats'"
    and num: "unat (rx h 17) < 10"
    and call: "syscall_handler ev (all_syscalls ! unat (rx h 17)) pr (rx h 10) (rx h 11) (rx h 12)
      ((set_mem (h_mem (run_code mmu trap_entry h)) w)\<lparr>tw_stats := stats'\<rparr>) = Some (Inr (r, w2))" "r \<noteq> Inl SysBlocked"
    and keeps: "\<forall>tf \<in> F. \<forall>f. in_frame f \<longrightarrow> frame_get (mem w2) tf f = frame_get (h_mem (run_code mmu trap_entry h)) tf f"
  shows "\<exists>h' w'. m_trap_vector mmu ev xs fs w h = Some (Inr (h', w')) \<and> rx h' 10 = syscall_value r \<and>
    (\<forall>i. 0 < i \<and> i < 32 \<and> i \<noteq> 10 \<longrightarrow> rx h' i = rx h i) \<and> (\<forall>i < 32. h_f h' i = h_f h i) \<and>
    h_csr h' CsrSepc = h_csr h CsrSepc + 4 \<and> h_csr h' CsrSstatus = h_csr h CsrSstatus \<and> h_csr h' CsrSatp = h_csr h CsrSatp \<and>
    h_csr h' CsrSscratch = TRAP_FRAME_ALIAS \<and> contexts_ok mmu F ks ctx cur (h_mem h')"
proof -
  let ?h1 = "run_code mmu trap_entry h"
  let ?w1 = "set_mem (h_mem ?h1) w"
  note e = entry_state [OF ok]
  have reg: "frame_get (h_mem ?h1) cur (regs (of_nat i)) = rx h i" if "i < 32" for i
    using that in_frame_ok [OF in_frame_register(1) [OF that]] by (simp add: e(4) saved_lookup)
  have args: "get_register (mem ?w1) cur SyscallId = rx h 17" "get_register (mem ?w1) cur GP0 = rx h 10"
    "get_register (mem ?w1) cur GP1 = rx h 11" "get_register (mem ?w1) cur GP2 = rx h 12"
    using reg [of 17] reg [of 10] reg [of 11] reg [of 12] by (simp_all add: get_register_def)
  have uc: "user_call ?w1 cur"
    using user by (simp add: user_call_def is_kernel_trap_def e(4) field_ok_def saved_lookup)
  have run1: "running ev ?w1 pr t cur" by (rule running_mem [OF run apart]) (simp add: e(5))
  let ?m = "set_register cur GP0 (syscall_value r) (mem w2)"
  let ?m3 = "frame_set cur sepc (frame_get ?m cur sepc + 4) ?m"
  have fin: "handle_interrupt ev cur ?w1 = Some (Inr (cur, set_mem ?m3 w2))"
    using system_call_done [OF run1 uc args(1) num _ stats(2) _ _ call(2), of stats' w2] stats(1,3) call(1) args by simp
  let ?c = "h\<lparr>h_x := (h_x h)(10 := syscall_value r), h_csr := (h_csr h)(CsrSepc := h_csr h CsrSepc + 4)\<rparr>"
  let ?ctx = "ctx(cur := ?c)"
  have "cur \<in> F" using ok(1) by (simp add: contexts_ok_def)
  have "parked ?m3 tf (?ctx tf) \<and> h_csr (?ctx tf) CsrSatp = h_csr ((ctx(cur := h)) tf) CsrSatp" if tf: "tf \<in> F" for tf
  proof -
    have p: "parked (mem w2) tf ((ctx(cur := h)) tf)"
      using entry_parks [of mmu h cur F ks ctx tf] ok tf keeps parked_cong [of "mem w2" tf "h_mem ?h1"] by simp
    show ?thesis
    proof (cases "tf = cur")
      case True
      then show ?thesis using p parked_result [of "mem w2" cur h] by simp
    next
      case False
      have "span tf 576 \<inter> span cur 576 = {}" using ok(1) tf False \<open>cur \<in> F\<close> unfolding contexts_ok_def by blast
      then have "frame_get ?m3 tf f = frame_get (mem w2) tf f" if "in_frame f" for f
        using that by (intro frame_get_cong) (auto simp: frame_set_apart set_register_def disjoint_iff in_frame_result)
      then show ?thesis using p False parked_cong [of ?m3 tf "mem w2"] by simp
    qed
  qed
  then have "\<forall>tf \<in> F. parked (mem (set_mem ?m3 w2)) tf (?ctx tf) \<and> h_csr (?ctx tf) CsrSatp = h_csr ((ctx(cur := h)) tf) CsrSatp"
    unfolding kern_simps by blast
  from vector_resumes [OF ok fin \<open>cur \<in> F\<close> this, of xs fs]
  obtain h' where h': "m_trap_vector mmu ev xs fs w h = Some (Inr (h', set_mem (h_mem h') (set_mem ?m3 w2)))"
    "same_context h' (?ctx cur)" "h_csr h' CsrSscratch = TRAP_FRAME_ALIAS" "contexts_ok mmu F ks ?ctx cur (h_mem h')"
    by blast
  have "contexts_ok mmu F ks ctx cur (h_mem h')" using h'(4) by (simp add: contexts_ok_def)
  then show ?thesis using h' by (auto simp: same_context_def rx_def)
qed

section \<open>Two threads\<close>

text \<open>
  The system of \<^theory_text>\<open>small_world\<close> with a second frame at \<^verbatim>\<open>0xA000\<close>.  The table with \<^verbatim>\<open>satp\<close> 1 maps the alias to the first
  frame, the one with 3 to the second; 2 is the kernel's.
\<close>

definition small_mmu :: mmu where
  "small_mmu s va = (if s = 1 then va + 0x8000 else if s = 3 then va + 0x9000 else va)"

definition parked_hart :: hart where
  "parked_hart = \<lparr>h_x = \<lambda>i. of_nat i, h_f = \<lambda>i. 0, h_csr = (\<lambda>_. 0)(CsrSatp := 3), h_mem = \<lambda>_. 0\<rparr>"

definition two_frames :: pmem where
  "two_frames = frame_sets 0x9000 [(kernel_satp, 2), (kernel_addr, 0x9000)]
     (frame_sets 0xA000 [(kernel_satp, 3), (kernel_addr, 0xA000)] (frame_sets 0xA000 (saved parked_hart) small_memory))"

definition small_hart :: "u64 \<Rightarrow> hart" where
  "small_hart cause = \<lparr>h_x = \<lambda>i. if i = 17 then 4 else of_nat i, h_f = \<lambda>i. of_nat i,
     h_csr = (\<lambda>_. 0)(CsrScause := cause, CsrSatp := 1, CsrSscratch := TRAP_FRAME_ALIAS, CsrSepc := 0x100), h_mem = two_frames\<rparr>"

lemma spans_apart: "span 0x9000 576 \<inter> span 0xA000 576 = {}" "span 0xA000 576 \<inter> span 0x9000 576 = {}"
    "span 0x2000 600 \<inter> span 0x9000 576 = {}" "span 0x2000 600 \<inter> span 0xA000 576 = {}"
  by (auto simp: span_eq_range)

lemma small_maps: "maps small_mmu 2 tf tf" "maps small_mmu 1 TRAP_FRAME_ALIAS 0x9000" "maps small_mmu 3 TRAP_FRAME_ALIAS 0xA000"
  by (simp_all add: maps_def small_mmu_def TRAP_FRAME_ALIAS_def)

lemma two_frames_parked: "parked two_frames 0xA000 parked_hart"
proof -
  let ?m = "frame_sets 0xA000 [(kernel_satp, 3), (kernel_addr, 0xA000)] (frame_sets 0xA000 (saved parked_hart) small_memory)"
  have "frame_get two_frames 0xA000 f = frame_get ?m 0xA000 f" if "in_frame f" for f
    unfolding two_frames_def using that spans_apart(2) by (intro frame_get_cong) (auto simp: frame_set_apart disjoint_iff)
  moreover have "field_ok (regs (of_nat i))" "field_ok (fregs (of_nat i))" if "i < 32" for i
    using that in_frame_register(1,2) in_frame_ok by blast+
  ultimately show ?thesis
    by (simp add: parked_def frame_get_set frame_get_saved saved_lookup field_ok_def [of sepc] field_ok_def [of sstatus]
        field_ok_def [of kernel_satp] field_ok_def [of kernel_addr] parked_cong [of two_frames _ ?m])
       (simp add: parked_hart_def)
qed

lemma small_contexts: "contexts_ok small_mmu {0x9000, 0xA000} 2 (\<lambda>_. parked_hart) 0x9000 (h_mem (small_hart c))"
proof -
  have "active two_frames 0x9000 2"
    by (simp add: active_def two_frames_def frame_get_set field_ok_def)
  moreover have "h_csr parked_hart CsrSatp = 3" by (simp add: parked_hart_def)
  ultimately show ?thesis using spans_apart small_maps two_frames_parked
    by (simp add: contexts_ok_def small_hart_def insert_Diff_if)
qed

lemma small_alias: "maps small_mmu (h_csr (small_hart c) CsrSatp) TRAP_FRAME_ALIAS 0x9000" "h_csr (small_hart c) CsrSscratch = TRAP_FRAME_ALIAS"
  using small_maps(2) by (simp_all add: small_hart_def)

text \<open>The kernel at the start, with both threads parked.\<close>

definition start_hart :: hart where
  "start_hart = \<lparr>h_x = (\<lambda>_. 0)(10 := 0x9000), h_f = \<lambda>_. 0, h_csr = (\<lambda>_. 0)(CsrSatp := 2),
     h_mem = frame_sets 0x9000 [(kernel_satp, 1), (kernel_addr, 0x9000)] (frame_sets 0x9000 (saved (small_hart 0)) two_frames)\<rparr>"

lemma start_parked:
  "parked (h_mem start_hart) 0x9000 (small_hart 0)" "parked (h_mem start_hart) 0xA000 parked_hart"
proof -
  have "field_ok (regs (of_nat i))" "field_ok (fregs (of_nat i))" if "i < 32" for i
    using that in_frame_register(1,2) in_frame_ok by blast+
  then show "parked (h_mem start_hart) 0x9000 (small_hart 0)"
    by (simp add: start_hart_def parked_def frame_get_set frame_get_saved saved_lookup field_ok_def [of sepc] field_ok_def [of sstatus]
        field_ok_def [of kernel_satp] field_ok_def [of kernel_addr]) (simp add: small_hart_def)
  have "frame_get (h_mem start_hart) 0xA000 f = frame_get two_frames 0xA000 f" if "in_frame f" for f
    unfolding start_hart_def using that spans_apart(2) saved_fields(1) [of "small_hart 0"]
    by (intro frame_get_cong) (auto simp: frame_set_apart frame_sets_apart disjoint_iff)
  then show "parked (h_mem start_hart) 0xA000 parked_hart"
    using two_frames_parked by (simp add: parked_cong [of "h_mem start_hart" _ two_frames])
qed

theorem context_switch_witness:
  "\<exists>h h' w'. hart_runs small_mmu small_env {0x9000, 0xA000} 2 ((\<lambda>_. parked_hart)(0x9000 := small_hart 0)) 0x9000 h \<and>
     m_trap_vector small_mmu small_env (\<lambda>_. 0) (\<lambda>_. 0) small_world h = Some (Inr (h', w')) \<and> same_context h' h"
proof -
  let ?F = "{0x9000, 0xA000} :: u64 set" and ?parked = "(\<lambda>_. parked_hart)(0x9000 :: u64 := small_hart 0)"
  have csr: "h_csr (small_hart 0) CsrSatp = 1" "h_csr parked_hart CsrSatp = 3" "h_csr start_hart CsrSatp = 2" "rx start_hart 10 = 0x9000"
    by (simp_all add: small_hart_def parked_hart_def start_hart_def rx_def)
  define h0 where "h0 = run_code small_mmu (switch_to_user 0) start_hart"
  have s: "\<forall>tf \<in> ?F. parked (h_mem start_hart) tf (?parked tf) \<and> maps small_mmu (h_csr (?parked tf) CsrSatp) TRAP_FRAME_ALIAS tf"
    "\<forall>tf \<in> ?F. maps small_mmu 2 tf tf \<and> (\<forall>tf' \<in> ?F. tf' \<noteq> tf \<longrightarrow> span tf 576 \<inter> span tf' 576 = {})"
    using start_parked small_maps spans_apart(1,2) by (simp_all add: csr)
  have in_F: "rx start_hart a0 \<in> ?F" by (simp add: csr)
  have r0: "hart_runs small_mmu small_env ?F 2 ?parked 0x9000 h0"
    using hart_runs.start [OF s csr(3) in_F, of small_env 0] unfolding csr(4) h0_def .
  define h where "h = h0\<lparr>h_csr := (h_csr h0)(CsrScause := 0x8000000000000001, CsrSstatus := 0)\<rparr>"
  have r: "hart_runs small_mmu small_env ?F 2 ?parked 0x9000 h"
    by (rule hart_runs.user [OF r0]) (simp_all add: h_def)
  let ?h1 = "run_code small_mmu trap_entry h" and ?c = "?parked(0x9000 := h)"
  have ok: "contexts_ok small_mmu ?F 2 ?parked 0x9000 (h_mem h)" "maps small_mmu (h_csr h CsrSatp) TRAP_FRAME_ALIAS 0x9000" "h_csr h CsrSscratch = TRAP_FRAME_ALIAS"
    using hart_runs_ready [OF r] by blast+
  have f: "frame_get (h_mem ?h1) 0x9000 scause = 0x8000000000000001" "frame_get (h_mem ?h1) 0x9000 sstatus = 0"
    using entry_state(4) [OF ok, of scause] entry_state(4) [OF ok, of sstatus]
    by (simp_all add: saved_lookup field_ok_def) (simp_all add: h_def)
  have c: "handle_interrupt small_env 0x9000 (set_mem (h_mem ?h1) small_world) = Some (Inr (0x9000, set_mem (h_mem ?h1) small_world))"
    by (simp add: handle_interrupt_def is_kernel_trap_def f Let_def)
  have on: "maps small_mmu (h_csr h CsrSatp) (h_csr h CsrSscratch) 0x9000" using ok(2,3) by simp
  have k: "\<forall>tf \<in> ?F. parked (mem (set_mem (h_mem ?h1) small_world)) tf (?c tf) \<and> h_csr (?c tf) CsrSatp = h_csr (?c tf) CsrSatp"
    unfolding kern_simps using entry_parks [OF on ok(1)] by blast
  have n: "(0x9000 :: u64) \<in> ?F" by simp
  from context_switch [OF r c n k, of "\<lambda>_. 0" "\<lambda>_. 0"]
  obtain h' w' where "m_trap_vector small_mmu small_env (\<lambda>_. 0) (\<lambda>_. 0) small_world h = Some (Inr (h', w'))" "same_context h' (?c 0x9000)"
    by (elim exE conjE) (rule that)
  then show ?thesis using r by (intro exI [of _ h] exI [of _ h'] exI [of _ w']) simp
qed

theorem ecall_returns_witness:
  "\<exists>h' w'. m_trap_vector small_mmu small_env (\<lambda>_. 0) (\<lambda>_. 0) small_world (small_hart 8) = Some (Inr (h', w')) \<and>
     rx h' 10 = - 1 \<and> rx h' 9 = 9 \<and> rx h' 31 = 31 \<and> h_f h' 3 = 3 \<and> h_csr h' CsrSepc = 0x104"
proof -
  let ?h = "small_hart 8"
  let ?m1 = "h_mem (run_code small_mmu trap_entry ?h)"
  note ok = small_contexts [of 8] small_alias
  have user: "h_csr ?h CsrScause = interrupt_cause SystemCall" "h_csr ?h CsrSstatus AND push_bit 8 1 = 0"
    by (simp_all add: small_hart_def)
  have out: "two_frames x = small_memory x" if "x \<notin> span 0x9000 576 \<union> span 0xA000 576" for x
    using that saved_fields(1) [of parked_hart] by (simp add: two_frames_def frame_set_apart frame_sets_apart)
  have run: "running small_env (set_mem (h_mem ?h) small_world) 0 0 0x9000"
  proof (rule running_mem [where m = small_memory and A = "span 0x9000 576 \<union> span 0xA000 576"])
    have "set_mem small_memory small_world = small_world" by (simp add: set_mem_def set_kern_def small_world_def small_machine_def machine_new_def kern_def small_kernel_def)
    then show "running small_env (set_mem small_memory small_world) 0 0 0x9000" using small_running by simp
    show "span (ev_tp small_env) 600 \<inter> (span 0x9000 576 \<union> span 0xA000 576) = {}"
      using spans_apart(3,4) by (auto simp: small_env_def)
    show "h_mem ?h x = small_memory x" if "x \<notin> span 0x9000 576 \<union> span 0xA000 576" for x
      using out [OF that] by (simp add: small_hart_def)
  qed
  have apart: "span (ev_tp small_env) 600 \<inter> span 0x9000 576 = {}" using spans_apart(3) by (simp add: small_env_def)
  have st: "arr_rel (tw_stats small_world) (replicate 10 0)" "length (replicate 10 (0 :: u64)) = 10" by (simp_all add: arr_rel_def small_world_def)
  have s: "rx ?h 17 = 4" by (simp add: rx_def small_hart_def)
  obtain stats' where inc: "stats_increment (rx ?h 17) (tw_stats small_world) = Inr stats'"
    using stats_increment_rel [OF st(1), of 4] s by auto
  let ?w2 = "(set_mem ?m1 small_world)\<lparr>tw_stats := stats'\<rparr>"
  have call: "syscall_handler small_env (all_syscalls ! unat (rx ?h 17)) 0 (rx ?h 10) (rx ?h 11) (rx ?h 12) ?w2 = Some (Inr (Inl SysFailed, ?w2))"
    by (simp add: s all_syscalls_def handle_write_def sys_fail_def)
  have keeps: "\<forall>tf \<in> {0x9000, 0xA000}. \<forall>f. in_frame f \<longrightarrow> frame_get (mem ?w2) tf f = frame_get ?m1 tf f"
    by (simp add: mem_def kern_def set_mem_def set_kern_def)
  have num: "unat (rx ?h 17) < 10" by (simp add: s)
  obtain h' w' where h': "m_trap_vector small_mmu small_env (\<lambda>_. 0) (\<lambda>_. 0) small_world ?h = Some (Inr (h', w'))" "rx h' 10 = syscall_value (Inl SysFailed)"
    "\<forall>i. 0 < i \<and> i < 32 \<and> i \<noteq> 10 \<longrightarrow> rx h' i = rx ?h i" "\<forall>i < 32. h_f h' i = h_f ?h i" "h_csr h' CsrSepc = h_csr ?h CsrSepc + 4"
    using ecall_returns [OF ok user run apart st inc num call _ keeps, of "\<lambda>_. 0" "\<lambda>_. 0"] by auto
  have "rx h' 9 = 9" "rx h' 31 = 31" "h_f h' 3 = 3"
    using h'(3,4) by (simp_all add: rx_def small_hart_def)
  then show ?thesis using h'(1,2,5) by (intro exI [of _ h'] exI [of _ w']) (simp add: syscall_value_def small_hart_def)
qed

end
