(* ===== verification/ProcessSpaces.thy ===== *)
theory ProcessSpaces
  imports ContextSwitch Boot
begin

text \<open>
  The address space of a new process (\<^verbatim>\<open>create_dummy_process\<close>): its tables, its trap frame and its
  stack, and that these are what the context switch relies on.
\<close>

section \<open>The memory part of \<^verbatim>\<open>create_dummy_process\<close>\<close>

definition image_ranges :: "Linker \<Rightarrow> (u64 \<times> u64 \<times> EntryBits) list" where
  "image_ranges l =
     [(l_text_start l, l_text_end l, USER_READ_EXECUTE), (l_text_special_start l, l_text_special_end l, USER_READ_EXECUTE),
      (l_context_switching_start l, l_context_switching_end l, READ_EXECUTE), (l_data_start l, l_data_end l, USER_READ_WRITE),
      (l_bss_start l, l_bss_end l, USER_READ_WRITE), (l_rodata_start l, l_rodata_end l, USER_READ)]"

lemma map_process_image_ranges: "map_process_image mm l root m = map_ranges mm root (image_ranges l) m"
  by (simp add: map_process_image_def map_ranges_def image_ranges_def Let_def)

definition frame_bits :: u64 where
  "frame_bits = entry_bits READ_WRITE OR entry_bits ACCESS OR entry_bits DIRTY"

definition initial_status :: u64 where
  "initial_status = 0 OR push_bit 5 1 OR push_bit 13 1 OR push_bit 18 1"

definition initial_frame :: "u64 \<Rightarrow> u64 \<Rightarrow> u64 \<Rightarrow> pmem \<Rightarrow> pmem" where
  "initial_frame tf satp pc =
     frame_sets tf [(kernel_satp, satp), (regs 2, STACK_ADDRESS), (sstatus, initial_status), (sepc, pc), (kernel_addr, tf)]"

definition process_memory :: "MemoryManager \<Rightarrow> Linker \<Rightarrow> u64 \<Rightarrow> pmem \<Rightarrow> u64 \<times> u64 \<times> u64 \<times> pmem" where
  "process_memory mm l pc m =
     (let (m, root) = zalloc mm m 1;
          m = map_process_image mm l root m;
          (m, tf) = zalloc mm m 1;
          m = initial_frame tf (build_satp 8 1 root) pc m;
          m = map_page mm root THREAD_FRAME_ADDRESS tf frame_bits 0 m;
          (m, stack) = zalloc mm m STACK_PAGES;
          m = map_range mm root (STACK_ADDRESS - PAGE_SIZE * STACK_PAGES) STACK_ADDRESS stack (entry_bits USER_READ_WRITE) m
      in (root, tf, stack, m))"

lemma create_dummy_process_memory:
  assumes "create_dummy_process mm l pc k = Inr (root, k')"
  shows "\<exists>tf stack. process_memory mm l pc (k_mem k) = (root, tf, stack, k_mem k') \<and>
    k_threads k' (k_next_thread k) = Some (thread_new tf (m_pid_counter k) 0)"
proof -
  obtain m1 r where 1: "zalloc mm (k_mem k) 1 = (m1, r)" by fastforce
  obtain m3 tf where 3: "zalloc mm (map_process_image mm l r m1) 1 = (m3, tf)" by fastforce
  obtain m6 stack where 6: "zalloc mm (map_page mm r THREAD_FRAME_ADDRESS tf frame_bits 0 (initial_frame tf (build_satp 8 1 r) pc m3)) STACK_PAGES = (m6, stack)"
    by fastforce
  note raw = 6 [unfolded initial_frame_def initial_status_def frame_bits_def, simplified]
  have p: "process_memory mm l pc (k_mem k) = (r, tf, stack,
      map_range mm r (STACK_ADDRESS - PAGE_SIZE * STACK_PAGES) STACK_ADDRESS stack (entry_bits USER_READ_WRITE) m6)"
    by (simp add: process_memory_def 1 3 6)
  show ?thesis
    using assms unfolding p create_dummy_process_def initialize_thread_def Let_def
    by (auto simp: 1 3 raw thread_new_def exec_bind_eq_Inr)
qed

section \<open>Steps\<close>

lemma fresh_root:
  assumes rel: "page_rel mm m L" and al: "unat (m_alloc_start mm) mod 4096 = 0" "unat (m_alloc_start mm) + 4096 * npages mm \<le> 2 ^ 56"
    and room: "pages_used L < npages mm"
  obtains m1 root i where "zalloc mm m 1 = (m1, root)" "pt_inv mm m1 (insert (i, 1) L) root" "(i, 1) \<notin> L"
    "page_extent mm (i, 1) = (root, 4096)" "L \<subseteq> others mm m1 (insert (i, 1) L) root"
    "\<And>va. access m1 root va = None"
    "\<And>b x. b \<in> L \<Longrightarrow> x \<in> span (fst (page_extent mm b)) (snd (page_extent mm b)) \<Longrightarrow> m1 x = m x"
proof -
  have "unat (1 :: u64) * Suc (pages_used L) \<le> npages mm" using room by simp
  then obtain m1 root where z: "zalloc mm m 1 = (m1, root)" "root \<noteq> 0" "page_request_ok mm m 1"
    using zalloc_low [OF rel, of 1] by (metis unsigned_1 zero_less_one)
  obtain i where i: "root = m_alloc_start mm + 4096 * of_nat i" "page_rel mm m1 (insert (i, 1) L)" "(i, 1) \<notin> L"
    "\<forall>x \<in> span root 4096. m1 x = 0" "\<forall>(j, q) \<in> L. \<forall>x \<in> span (m_alloc_start mm + 4096 * of_nat j) (4096 * q). m1 x = m x"
    using zalloc_effect [OF rel z(3,1,2)] by auto
  have ext: "page_extent mm (i, 1) = (root, 4096)" by (simp add: page_extent_def i(1))
  have "(root, 4096) \<in> page_extent mm ` insert (i, 1) L" using ext by (metis imageI insertI1)
  have zero: "m1 x = 0" if "x \<in> span root 4096" for x using i(4) that by blast
  have inv: "pt_inv mm m1 (insert (i, 1) L) root" by (rule pt_inv_empty(1) [OF i(2) _ al zero]) (metis ext imageI insertI1)
  have tab: "is_table m1 root p t \<longleftrightarrow> p = [] \<and> t = root" for p t
    by (rule pt_inv_empty(2) [OF i(2) _ al zero]) (metis ext imageI insertI1)
  have leaves: "leaf m1 root q = None" if "q \<noteq> []" "set q \<subseteq> {..<512}" for q
    by (rule pt_inv_empty(3) [OF i(2) _ al zero that]) (metis ext imageI insertI1)
  have "access m1 root va = None" for va by (simp add: access_def leaves va_path_def)
  moreover have "fst (page_extent mm b) \<noteq> root" if "b \<in> L" for b
    using page_extent_inj [OF i(2), of b "(i, 1)"] that i(3) ext by auto
  then have "L \<subseteq> others mm m1 (insert (i, 1) L) root" by (auto simp: others_def tab)
  moreover have "m1 x = m x" if "b \<in> L" "x \<in> span (fst (page_extent mm b)) (snd (page_extent mm b))" for b x
    using i(5) that by (cases b) (auto simp: page_extent_def)
  ultimately show thesis using that z(1) inv i(3) ext by blast
qed

lemma zalloc_step:
  assumes inv: "pt_inv mm m L root" and p: "0 < unat p" and room: "unat p * Suc (demand L m root P) \<le> npages mm"
  obtains m1 a i where "zalloc mm m p = (m1, a)" "page_extent mm (i, unat p) = (a, 4096 * unat p)" "(i, unat p) \<notin> L"
    "pt_inv mm m1 (insert (i, unat p) L) root" "\<forall>x \<in> span a (4096 * unat p). m1 x = 0"
    "\<And>q. length q = 3 \<Longrightarrow> set q \<subseteq> {..<512} \<Longrightarrow> leaf m1 root q = leaf m root q"
    "grows mm root m L m1 (insert (i, unat p) L)" "(i, unat p) \<in> others mm m1 (insert (i, unat p) L) root"
    "demand (insert (i, unat p) L) m1 root P = unat p + demand L m root P"
proof -
  have "unat p * Suc (pages_used L) \<le> npages mm"
    by (rule le_trans [OF _ room]) (simp add: pages_used_le)
  from zalloc_low [OF pt_invD(1) [OF inv] p this]
  obtain m1 a where z: "zalloc mm m p = (m1, a)" "a \<noteq> 0" "page_request_ok mm m p" by blast
  obtain i where i: "a = m_alloc_start mm + 4096 * of_nat i" "(i, unat p) \<notin> L" "pt_inv mm m1 (insert (i, unat p) L) root"
    "\<forall>x \<in> span a (4096 * unat p). m1 x = 0"
    "grows mm root m L m1 (insert (i, unat p) L)" "(i, unat p) \<in> others mm m1 (insert (i, unat p) L) root"
    and walk: "\<And>q. length q \<le> 3 \<Longrightarrow> set q \<subseteq> {..<512} \<Longrightarrow> walk m1 root q = walk m root q"
    and leaves: "\<And>q. length q = 3 \<Longrightarrow> set q \<subseteq> {..<512} \<Longrightarrow> leaf m1 root q = leaf m root q"
    by (rule zalloc_pages [OF inv z]) blast
  have "tables m1 root = tables m root" using walk by (auto simp: tables_def is_table_def)
  moreover have "pages_used (insert (i, unat p) L) = unat p + pages_used L"
    using i(2) page_rel_finite [OF pt_invD(1) [OF inv]] by (simp add: pages_used_def)
  ultimately have "demand (insert (i, unat p) L) m1 root P = unat p + demand L m root P" by (simp add: demand_def)
  moreover have "page_extent mm (i, unat p) = (a, 4096 * unat p)" by (simp add: page_extent_def i(1))
  ultimately show thesis using that [OF z(1) _ i(2-4) leaves i(5,6)] by blast
qed

lemma frame_sets_point: "m x = m' x \<Longrightarrow> frame_sets tf ps m x = frame_sets tf ps m' x"
proof (induction ps arbitrary: m m')
  case (Cons p ps)
  have "frame_set tf (fst p) (snd p) m x = frame_set tf (fst p) (snd p) m' x"
    unfolding frame_set_def store64_def write_bytes_def by (simp only: Cons.prems)
  then have "frame_sets tf ps (frame_set tf (fst p) (snd p) m) x = frame_sets tf ps (frame_set tf (fst p) (snd p) m') x"
    by (rule Cons.IH)
  then show ?case by (simp only: frame_sets_simps)
qed simp

text \<open>The two pages of the stack.\<close>

lemma stack_map:
  assumes "page_address stack"
  shows "map_range mm root (STACK_ADDRESS - PAGE_SIZE * STACK_PAGES) STACK_ADDRESS stack bits m =
    map_page mm root 0xeffff000 (stack + 4096) bits 0 (map_page mm root 0xefffe000 stack bits 0 m)"
proof -
  have "unat stack mod 4096 = 0" using assms by (simp add: page_address_def)
  then have "unat stack div 4096 * 4096 = unat stack" by (metis add_0_right div_mult_mod_eq)
  then have "page_of stack = stack" by (simp only: word_unat_eq_iff unat_page_of)
  then have pa: "stack AND NOT (PAGE_SIZE - 1) = stack" by (simp only: page_of_def)
  have va: "(STACK_ADDRESS - PAGE_SIZE * STACK_PAGES) AND NOT (PAGE_SIZE - 1) = 0xefffe000"
    by (simp add: STACK_ADDRESS_def STACK_PAGES_def PAGE_SIZE_def)
  have n: "unat ((align_value STACK_ADDRESS 12 - 0xefffe000) div PAGE_SIZE) = 2"
    by (simp add: STACK_ADDRESS_def PAGE_SIZE_def align_value_def)
  have two: "[0..<2] = [0, 1 :: nat]" by (simp add: upt_rec)
  show ?thesis unfolding map_range_def Let_def pa va for_upto_conv_fold unat_0 n two by simp
qed

definition image_tables :: "Linker \<Rightarrow> nat" where
  "image_tables l = (\<Sum>(s, e, b) \<leftarrow> image_ranges l. range_tables s e)"

definition process_paths :: "Linker \<Rightarrow> nat list set" where
  "process_paths l = (\<Union>(s, e, b) \<in> set (image_ranges l). range_paths s e) \<union>
     (table_paths 0x1000 \<union> (table_paths 0xefffe000 \<union> table_paths 0xeffff000))"

lemma process_paths_card: "finite (process_paths l)" "card (process_paths l) \<le> image_tables l + 6"
proof -
  have t: "finite (table_paths va)" "card (table_paths va) \<le> 2" for va
    by (simp_all add: table_paths_def card_insert_if)
  define I where "I = (\<Union>(s, e, b) \<in> set (image_ranges l). range_paths s e)"
  have I: "finite I" "card I \<le> image_tables l"
    using ranges_paths_card [of "image_ranges l"] by (simp_all add: I_def image_tables_def)
  have P: "process_paths l = I \<union> (table_paths 0x1000 \<union> (table_paths 0xefffe000 \<union> table_paths 0xeffff000))"
    by (simp add: process_paths_def I_def)
  show "finite (process_paths l)" unfolding P by (intro finite_UnI I(1) t(1))
  have "card (process_paths l) \<le> card I + (card (table_paths 0x1000) + (card (table_paths 0xefffe000) + card (table_paths 0xeffff000)))"
    unfolding P by (intro order_trans [OF card_Un_le] add_left_mono card_Un_le)
  then show "card (process_paths l) \<le> image_tables l + 6"
    using I(2) t(2) [where va = "0x1000"] t(2) [where va = "0xefffe000"] t(2) [where va = "0xeffff000"] by linarith
qed

section \<open>The tables of a new process\<close>

abbreviation special_paths :: "nat list set" where
  "special_paths \<equiv> {va_path 0x1000, va_path 0xefffe000, va_path 0xeffff000}"

lemma special_distinct: "va_path 0x1000 \<noteq> va_path 0xefffe000" "va_path 0x1000 \<noteq> va_path 0xeffff000" "va_path 0xefffe000 \<noteq> va_path 0xeffff000"
  by (simp_all add: va_path_def vpn0_def vpn1_def vpn2_def get_field_def)

text \<open>Frame and tables, before there is a stack.\<close>

lemma process_frame_tree:
  assumes inv0: "pt_inv mm m L kroot" and ok: "\<forall>r \<in> set (image_ranges l). range_ok r"
    and room: "pages_used L + image_tables l + 10 \<le> npages mm"
  obtains m1 root i m3 tf f m4 L4 where "zalloc mm m 1 = (m1, root)" "zalloc mm (map_process_image mm l root m1) 1 = (m3, tf)"
    "m4 = initial_frame tf (build_satp 8 1 root) pc m3" "pt_inv mm m4 L4 root" "page_extent mm (i, 1) = (root, 4096)" "(i, 1) \<in> L4 - L"
    "page_extent mm (f, 1) = (tf, 4096)" "(f, 1) \<in> others mm m4 L4 root - L" "L \<subseteq> others mm m4 L4 root"
    "demand L4 m4 root (process_paths l) \<le> pages_used L + image_tables l + 8"
    "\<And>x. x \<in> span tf 4096 \<Longrightarrow> m3 x = 0"
    "\<And>va. in_ranges (image_ranges l) va \<Longrightarrow> mapped m4 root va = Some va \<and> access m4 root va = Some (0xC1 OR granted (image_ranges l) va)"
    "\<And>b x. b \<in> L \<Longrightarrow> x \<in> span (fst (page_extent mm b)) (snd (page_extent mm b)) \<Longrightarrow> m4 x = m x"
proof -
  let ?P = "process_paths l"
  note P = process_paths_card [of l]
  have "pages_used L < npages mm" using room by simp
  from fresh_root [OF pt_invD(1-3) [OF inv0] this]
  obtain m1 root i where 1: "zalloc mm m 1 = (m1, root)" "pt_inv mm m1 (insert (i, 1) L) root" "(i, 1) \<notin> L"
    "page_extent mm (i, 1) = (root, 4096)" "L \<subseteq> others mm m1 (insert (i, 1) L) root"
    and empty: "\<And>va. access m1 root va = None"
    and keep1: "\<And>b x. b \<in> L \<Longrightarrow> x \<in> span (fst (page_extent mm b)) (snd (page_extent mm b)) \<Longrightarrow> m1 x = m x"
    by blast
  let ?L1 = "insert (i, 1) L"
  have "pages_used ?L1 = Suc (pages_used L)" by (rule pages_used_insert [OF page_rel_finite [OF pt_invD(1) [OF inv0]] 1(3)])
  then have d1: "demand ?L1 m1 root ?P \<le> pages_used L + image_tables l + 7" using demand_le [OF P, of ?L1 m1 root] by simp
  then have r1: "demand ?L1 m1 root ?P \<le> npages mm" using room by simp
  have sub: "\<forall>(s, e, b) \<in> set (image_ranges l). range_paths s e \<subseteq> ?P" by (auto simp: process_paths_def)
  let ?m2 = "map_process_image mm l root m1"
  obtain L2 where 2: "pt_inv mm ?m2 L2 root" "grows mm root m1 ?L1 ?m2 L2" "demand L2 ?m2 root ?P \<le> demand ?L1 m1 root ?P"
    and hit: "ranges_mapped (image_ranges l) root m1 ?m2"
    using map_ranges_tree [OF 1(2) r1 P(1) ok sub] unfolding map_process_image_ranges by blast
  have one: "0 < unat (1 :: u64)" "unat (1 :: u64) * Suc (demand L2 ?m2 root ?P) \<le> npages mm" using 2(3) d1 room by simp_all
  obtain m3 tf f where 3: "zalloc mm ?m2 1 = (m3, tf)" "page_extent mm (f, 1) = (tf, 4096)" "(f, 1) \<notin> L2"
    "pt_inv mm m3 (insert (f, 1) L2) root" "\<forall>x \<in> span tf 4096. m3 x = 0" "grows mm root ?m2 L2 m3 (insert (f, 1) L2)"
    "(f, 1) \<in> others mm m3 (insert (f, 1) L2) root" "demand (insert (f, 1) L2) m3 root ?P = 1 + demand L2 ?m2 root ?P"
    and leaf3: "\<And>q. length q = 3 \<Longrightarrow> set q \<subseteq> {..<512} \<Longrightarrow> leaf m3 root q = leaf ?m2 root q"
    by (rule zalloc_step [OF 2(1) one, unfolded unsigned_1 mult_1_right]) blast
  let ?L4 = "insert (f, 1) L2" and ?m4 = "initial_frame tf (build_satp 8 1 root) pc m3"
  have out: "?m4 x = m3 x" if "x \<notin> span (fst (page_extent mm (f, 1))) (snd (page_extent mm (f, 1)))" for x
  proof -
    have "x \<notin> span tf 4096" using that unfolding 3(2) fst_conv snd_conv .
    then have "x \<notin> span tf 576" using span_mono [of 576 4096 tf] by auto
    moreover have "in_frame (regs 2)" using in_frame_register(1) [of 2] by simp
    ultimately show ?thesis unfolding initial_frame_def by (intro frame_sets_apart) simp_all
  qed
  have w: "pt_inv mm ?m4 ?L4 root" "others mm ?m4 ?L4 root = others mm m3 ?L4 root"
    "length p \<le> 3 \<Longrightarrow> set p \<subseteq> {..<512} \<Longrightarrow> walk ?m4 root p = walk m3 root p"
    "length p = 3 \<Longrightarrow> set p \<subseteq> {..<512} \<Longrightarrow> leaf ?m4 root p = leaf m3 root p"
    "c \<in> ?L4 \<Longrightarrow> c \<noteq> (f, 1) \<Longrightarrow> x \<in> span (fst (page_extent mm c)) (snd (page_extent mm c)) \<Longrightarrow> ?m4 x = m3 x" for p c x
    using write_block [OF 3(4) 3(7), of ?m4] out by blast+
  have path: "length (va_path va) = 3" "set (va_path va) \<subseteq> {..<512}" "va_path va \<noteq> []" for va by (simp_all add: va_path_def)
  have g: "grows mm root m1 ?L1 m3 ?L4" by (rule grows_trans [OF 2(2) 3(6)])
  have L1: "?L1 \<subseteq> ?L4" using grows_subset [OF g] .
  have others: "L \<subseteq> others mm ?m4 ?L4 root" using 1(5) g w(2) by (auto simp: grows_def)
  have fL: "(f, 1) \<notin> ?L1" using grows_subset [OF 2(2)] 3(3) by blast
  have keep4: "?m4 x = m x" if b: "b \<in> L" "x \<in> span (fst (page_extent mm b)) (snd (page_extent mm b))" for b x
  proof -
    have "b \<in> ?L4" "b \<noteq> (f, 1)" using b(1) L1 fL by blast+
    then have "?m4 x = m3 x" using w(5) b(2) by blast
    also have "\<dots> = m1 x" using g 1(5) b by (auto simp: grows_def)
    finally show ?thesis using keep1 [OF b] by simp
  qed
  have ranges: "mapped ?m4 root va = Some va \<and> access ?m4 root va = Some (0xC1 OR granted (image_ranges l) va)"
    if "in_ranges (image_ranges l) va" for va
  proof -
    have "leaf ?m4 root (va_path va) = leaf ?m2 root (va_path va)" using w(4) [OF path(1,2)] leaf3 [OF path(1,2)] by simp
    then have "mapped ?m4 root va = mapped ?m2 root va" "access ?m4 root va = access ?m2 root va"
      using mapped_walk [OF w(1), of va] mapped_walk [OF 2(1), of va] by (simp_all add: walk_leaf [OF path(3)] access_def)
    then show ?thesis using hit system_ranges_small [OF ok that] that empty [of va] by (simp add: ranges_mapped_def old_access_def)
  qed
  have "tables ?m4 root = tables m3 root" using w(3) by (auto simp: tables_def is_table_def)
  then have d4: "demand ?L4 ?m4 root ?P \<le> pages_used L + image_tables l + 8" using 3(8) 2(3) d1 by (simp add: demand_def)
  have i4: "(i, 1) \<in> ?L4 - L" using L1 1(3) by blast
  have f4: "(f, 1) \<in> others mm ?m4 ?L4 root - L" using 3(7) w(2) fL by blast
  have zero: "m3 x = 0" if "x \<in> span tf 4096" for x using 3(5) that by blast
  show thesis by (rule that [OF 1(1) 3(1) refl w(1) 1(4) i4 3(2) f4 others d4 zero ranges keep4])
qed

text \<open>One more page of the process: the alias of the frame, or a page of the stack.\<close>

lemma alias_page:
  assumes inv: "pt_inv mm m L root" and room: "demand L m root P \<le> npages mm"
    and P: "finite P" "table_paths va \<subseteq> P" and bits: "bits AND NOT 0x1ff = 0" and pa: "page_address pa"
  obtains L' where "pt_inv mm (map_page mm root va pa bits 0 m) L' root" "grows mm root m L (map_page mm root va pa bits 0 m) L'"
    "demand L' (map_page mm root va pa bits 0 m) root P \<le> demand L m root P"
    "\<And>va'. walk (map_page mm root va pa bits 0 m) root (va_path va') =
       (if va_path va' = va_path va then Some pa else walk m root (va_path va'))"
    "\<And>va'. leaf (map_page mm root va pa bits 0 m) root (va_path va') =
       (if va_path va' = va_path va then Some (leaf_entry pa bits (old_leaf m root (va_path va'))) else leaf m root (va_path va'))"
proof -
  obtain L' where L': "pt_inv mm (map_page mm root va pa bits 0 m) L' root" "grows mm root m L (map_page mm root va pa bits 0 m) L'"
    "demand L' (map_page mm root va pa bits 0 m) root P \<le> demand L m root P"
    and walk: "\<And>p. length p = 3 \<Longrightarrow> set p \<subseteq> {..<512} \<Longrightarrow>
       walk (map_page mm root va pa bits 0 m) root p = (if p = va_path va then Some (phys_page pa) else walk m root p)"
    and leaves: "\<And>p. length p = 3 \<Longrightarrow> set p \<subseteq> {..<512} \<Longrightarrow> leaf (map_page mm root va pa bits 0 m) root p =
       (if p = va_path va then Some (leaf_entry pa bits (old_leaf m root p)) else leaf m root p)"
    by (rule map_page_tree [OF inv room P bits, where pa = pa]) blast
  have path: "length (va_path va') = 3" "set (va_path va') \<subseteq> {..<512}" for va' by (simp_all add: va_path_def)
  show thesis
    by (rule that [OF L']) (simp_all add: walk [OF path] leaves [OF path] page_address_phys_page [OF pa])
qed

lemma stack_pages:
  assumes inv: "pt_inv mm m L root" and b: "b \<in> L" "page_extent mm b = (stack, 8192)"
  shows "page_address stack" "page_address (stack + 4096)"
proof -
  have "(stack, 8192) \<in> page_extent mm ` L" using b by (metis imageI)
  then show a: "page_address stack" by (rule extent_page_address [OF pt_invD(1-3) [OF inv]])
  obtain i where i: "b = (i, 2)" "stack = m_alloc_start mm + 4096 * of_nat i" using b(2) by (cases b) (auto simp: page_extent_def)
  have "i + 2 \<le> npages mm" using page_relD(2) [OF pt_invD(1) [OF inv], of i 2] b(1) i(1) by simp
  moreover have "unat stack = unat (m_alloc_start mm) + 4096 * i"
    using block_in_range(1) [OF pt_invD(1) [OF inv] b(1) [unfolded i(1)]] unfolding i(2) by simp
  ultimately have "unat stack + 8192 \<le> 72057594037927936" using pt_invD(3) [OF inv] by simp
  moreover from this have "unat (stack + 4096) = unat stack + 4096" by (subst unat_add_no_wrap) auto
  ultimately show "page_address (stack + 4096)" using a by (simp add: page_address_def)
qed

text \<open>All of it: the frame's alias and the stack are mapped, and nothing that was there before has changed.\<close>

definition allows :: "pmem \<Rightarrow> u64 \<Rightarrow> u64 \<Rightarrow> u64 \<Rightarrow> bool" where
  "allows m root va bits \<longleftrightarrow> (case access m root va of None \<Rightarrow> False | Some a \<Rightarrow> a AND bits = bits)"

lemma leaf_allows:
  assumes "leaf m root (va_path va) = Some (leaf_entry pa bits w)" "need AND bits = need" "need AND 0xff = need"
  shows "allows m root va need"
proof -
  have "((w AND 0xff) OR 0xC1 OR (bits AND 0xff)) AND need = need"
  proof (rule bit_word_eqI)
    fix i
    have "bit need i \<Longrightarrow> bit bits i \<and> bit (0xff :: u64) i" using assms(2,3) by (metis bit_and_iff)
    then show "bit (((w AND 0xff) OR 0xC1 OR (bits AND 0xff)) AND need) i = bit need i" by (auto simp: bit_and_iff bit_or_iff)
  qed
  then show ?thesis unfolding allows_def access_def assms(1) by (simp only: option.map option.case leaf_entry_access)
qed

definition space_tables :: "MemoryManager \<Rightarrow> Linker \<Rightarrow> u64 \<Rightarrow> (nat \<times> nat) set \<Rightarrow> u64 \<Rightarrow> u64 \<Rightarrow> u64 \<Rightarrow> pmem \<Rightarrow> (nat \<times> nat) set \<Rightarrow> bool" where
  "space_tables mm l pc L root tf stack m L' \<longleftrightarrow> pt_inv mm m L' root \<and> L \<subseteq> others mm m L' root \<and>
     (\<exists>i f g. page_extent mm (i, 1) = (root, 4096) \<and> page_extent mm (f, 1) = (tf, 4096) \<and> page_extent mm (g, 2) = (stack, 8192) \<and>
        {(i, 1), (f, 1), (g, 2)} \<subseteq> L' - L) \<and>
     walk m root (va_path 0x1000) = Some tf \<and> walk m root (va_path 0xefffe000) = Some stack \<and>
     walk m root (va_path 0xeffff000) = Some (stack + 4096) \<and>
     allows m root 0x1000 (entry_bits READ_WRITE) \<and> allows m root 0xefffe000 (entry_bits USER_READ_WRITE) \<and>
     allows m root 0xeffff000 (entry_bits USER_READ_WRITE) \<and>
     (\<forall>va. in_ranges (image_ranges l) va \<and> va_path va \<notin> special_paths \<longrightarrow>
       mapped m root va = Some va \<and> access m root va = Some (0xC1 OR granted (image_ranges l) va)) \<and>
     (\<forall>x \<in> span stack 8192. m x = 0) \<and> (\<forall>x \<in> span tf 4096. m x = initial_frame tf (build_satp 8 1 root) pc (\<lambda>_. 0) x)"

lemma process_tree:
  assumes inv0: "pt_inv mm m L kroot" and ok: "\<forall>r \<in> set (image_ranges l). range_ok r"
    and room: "2 * (pages_used L + image_tables l + 9) \<le> npages mm"
  obtains root tf stack m' L' where "process_memory mm l pc m = (root, tf, stack, m')" "space_tables mm l pc L root tf stack m' L'"
    "\<And>b x. b \<in> L \<Longrightarrow> x \<in> span (fst (page_extent mm b)) (snd (page_extent mm b)) \<Longrightarrow> m' x = m x"
proof -
  let ?P = "process_paths l"
  have P: "finite ?P" "table_paths 0x1000 \<subseteq> ?P" "table_paths 0xefffe000 \<subseteq> ?P" "table_paths 0xeffff000 \<subseteq> ?P"
    using process_paths_card(1) [of l] by (auto simp: process_paths_def)
  have "pages_used L + image_tables l + 10 \<le> npages mm" using room by simp
  note frame_tree = process_frame_tree [OF inv0 ok this, of pc]
  obtain m1 root i m3 tf f m4 L4 where 3: "zalloc mm m 1 = (m1, root)" "zalloc mm (map_process_image mm l root m1) 1 = (m3, tf)"
    "m4 = initial_frame tf (build_satp 8 1 root) pc m3" and 4: "pt_inv mm m4 L4 root" and i: "page_extent mm (i, 1) = (root, 4096)" "(i, 1) \<in> L4 - L"
    and f: "page_extent mm (f, 1) = (tf, 4096)" "(f, 1) \<in> others mm m4 L4 root - L" and L4: "L \<subseteq> others mm m4 L4 root"
    and d4: "demand L4 m4 root ?P \<le> pages_used L + image_tables l + 8"
    and zero: "\<And>x. x \<in> span tf 4096 \<Longrightarrow> m3 x = 0"
    and hit: "\<And>va. in_ranges (image_ranges l) va \<Longrightarrow> mapped m4 root va = Some va \<and> access m4 root va = Some (0xC1 OR granted (image_ranges l) va)"
    and keep: "\<And>b x. b \<in> L \<Longrightarrow> x \<in> span (fst (page_extent mm b)) (snd (page_extent mm b)) \<Longrightarrow> m4 x = m x"
    by (rule frame_tree) blast
  have "frame_bits AND NOT 0x1ff = 0" "entry_bits USER_READ_WRITE AND NOT 0x1ff = 0"
    by (simp_all add: frame_bits_def)
  note bits = this
  have "(f, 1) \<in> L4" using f(2) by (simp add: others_def)
  then have "(tf, 4096) \<in> page_extent mm ` L4" using f(1) by (metis imageI)
  note ptf = extent_page_address [OF pt_invD(1-3) [OF 4] this]
  let ?m5 = "map_page mm root THREAD_FRAME_ADDRESS tf frame_bits 0 m4"
  have tfa: "THREAD_FRAME_ADDRESS = 0x1000" by (simp add: THREAD_FRAME_ADDRESS_def)
  have r4: "demand L4 m4 root ?P \<le> npages mm" using d4 room by simp
  obtain L5 where 5: "pt_inv mm ?m5 L5 root" "grows mm root m4 L4 ?m5 L5" "demand L5 ?m5 root ?P \<le> demand L4 m4 root ?P"
    and walk5: "\<And>va'. walk ?m5 root (va_path va') = (if va_path va' = va_path 0x1000 then Some tf else walk m4 root (va_path va'))"
    and leaf5: "\<And>va'. leaf ?m5 root (va_path va') = (if va_path va' = va_path 0x1000 then
       Some (leaf_entry tf frame_bits (old_leaf m4 root (va_path va'))) else leaf m4 root (va_path va'))"
    unfolding tfa by (rule alias_page [OF 4 r4 P(1,2) bits(1) ptf]) blast
  have two: "unat STACK_PAGES = 2" by (simp add: STACK_PAGES_def)
  have "0 < unat STACK_PAGES" "unat STACK_PAGES * Suc (demand L5 ?m5 root ?P) \<le> npages mm" using 5(3) d4 room by (simp_all add: two)
  note step = zalloc_step [OF 5(1) this, unfolded two]
  obtain m6 stack g where 6: "zalloc mm ?m5 STACK_PAGES = (m6, stack)" "page_extent mm (g, 2) = (stack, 4096 * 2)" "(g, 2) \<notin> L5"
    "pt_inv mm m6 (insert (g, 2) L5) root" "\<forall>x \<in> span stack (4096 * 2). m6 x = 0" "grows mm root ?m5 L5 m6 (insert (g, 2) L5)"
    "(g, 2) \<in> others mm m6 (insert (g, 2) L5) root" "demand (insert (g, 2) L5) m6 root ?P = 2 + demand L5 ?m5 root ?P"
    and leaf6: "\<And>q. length q = 3 \<Longrightarrow> set q \<subseteq> {..<512} \<Longrightarrow> leaf m6 root q = leaf ?m5 root q"
    by (rule step) blast
  let ?L6 = "insert (g, 2) L5"
  have ps: "page_address stack" "page_address (stack + 4096)" using stack_pages [OF 6(4) insertI1 6(2) [simplified]] by blast+
  let ?m7 = "map_page mm root 0xefffe000 stack (entry_bits USER_READ_WRITE) 0 m6"
  have r6: "demand ?L6 m6 root ?P \<le> npages mm" using 6(8) 5(3) d4 room by simp
  obtain L7 where 7: "pt_inv mm ?m7 L7 root" "grows mm root m6 ?L6 ?m7 L7" "demand L7 ?m7 root ?P \<le> demand ?L6 m6 root ?P"
    and walk7: "\<And>va'. walk ?m7 root (va_path va') = (if va_path va' = va_path 0xefffe000 then Some stack else walk m6 root (va_path va'))"
    and leaf7: "\<And>va'. leaf ?m7 root (va_path va') = (if va_path va' = va_path 0xefffe000 then
       Some (leaf_entry stack (entry_bits USER_READ_WRITE) (old_leaf m6 root (va_path va'))) else leaf m6 root (va_path va'))"
    by (rule alias_page [OF 6(4) r6 P(1,3) bits(2) ps(1)]) blast
  let ?m8 = "map_page mm root 0xeffff000 (stack + 4096) (entry_bits USER_READ_WRITE) 0 ?m7"
  have r7: "demand L7 ?m7 root ?P \<le> npages mm" using 7(3) r6 by simp
  obtain L8 where 8: "pt_inv mm ?m8 L8 root" "grows mm root ?m7 L7 ?m8 L8"
    and walk8: "\<And>va'. walk ?m8 root (va_path va') = (if va_path va' = va_path 0xeffff000 then Some (stack + 4096) else walk ?m7 root (va_path va'))"
    and leaf8: "\<And>va'. leaf ?m8 root (va_path va') = (if va_path va' = va_path 0xeffff000 then
       Some (leaf_entry (stack + 4096) (entry_bits USER_READ_WRITE) (old_leaf ?m7 root (va_path va'))) else leaf ?m7 root (va_path va'))"
    by (rule alias_page [OF 7(1) r7 P(1,4) bits(2) ps(2)]) blast
  have path: "length (va_path va) = 3" "set (va_path va) \<subseteq> {..<512}" "va_path va \<noteq> []" for va by (simp_all add: va_path_def)
  have walk6: "walk m6 root (va_path va) = walk ?m5 root (va_path va)" for va
    using leaf6 [OF path(1,2)] by (simp add: walk_leaf [OF path(3)])
  have g68: "grows mm root m6 ?L6 ?m8 L8" by (rule grows_trans [OF 7(2) 8(2)])
  have g48: "grows mm root m4 L4 ?m8 L8" by (rule grows_trans [OF grows_trans [OF 5(2) 6(6)] g68])
  have w: "walk ?m8 root (va_path 0x1000) = Some tf" "walk ?m8 root (va_path 0xefffe000) = Some stack"
    "walk ?m8 root (va_path 0xeffff000) = Some (stack + 4096)"
    using special_distinct by (simp_all add: walk8 walk7 walk6 walk5 del: entry_bits.simps)
  have l: "leaf ?m8 root (va_path 0x1000) = Some (leaf_entry tf frame_bits (old_leaf m4 root (va_path 0x1000)))"
    "leaf ?m8 root (va_path 0xefffe000) = Some (leaf_entry stack (entry_bits USER_READ_WRITE) (old_leaf m6 root (va_path 0xefffe000)))"
    "leaf ?m8 root (va_path 0xeffff000) = Some (leaf_entry (stack + 4096) (entry_bits USER_READ_WRITE) (old_leaf ?m7 root (va_path 0xeffff000)))"
    using special_distinct by (simp_all add: leaf8 leaf7 leaf6 [OF path(1,2)] leaf5 del: entry_bits.simps)
  have may1: "allows ?m8 root 0x1000 (entry_bits READ_WRITE)" by (rule leaf_allows [OF l(1)]; simp add: frame_bits_def)
  have may2: "allows ?m8 root 0xefffe000 (entry_bits USER_READ_WRITE)" by (rule leaf_allows [OF l(2)]; simp)
  have may3: "allows ?m8 root 0xeffff000 (entry_bits USER_READ_WRITE)" by (rule leaf_allows [OF l(3)]; simp)
  note may = may1 may2 may3
  have img: "mapped ?m8 root va = Some va \<and> access ?m8 root va = Some (0xC1 OR granted (image_ranges l) va)" if "in_ranges (image_ranges l) va" "va_path va \<notin> special_paths" for va
  proof -
    have "leaf ?m8 root (va_path va) = leaf m4 root (va_path va)"
      using that(2) by (simp add: leaf8 leaf7 leaf6 [OF path(1,2)] leaf5 del: entry_bits.simps)
    then show ?thesis
      using hit [OF that(1)] mapped_walk [OF 8(1), of va] mapped_walk [OF 4, of va]
      by (simp add: walk_leaf [OF path(3)] access_def del: entry_bits.simps)
  qed
  have frame: "?m8 x = initial_frame tf (build_satp 8 1 root) pc (\<lambda>_. 0) x" if x: "x \<in> span tf 4096" for x
  proof -
    have "?m8 x = m4 x" using g48 f x by (auto simp: grows_def)
    also have "\<dots> = initial_frame tf (build_satp 8 1 root) pc (\<lambda>_. 0) x"
      unfolding 3(3) initial_frame_def by (rule frame_sets_point) (rule zero [OF x])
    finally show ?thesis .
  qed
  have stack0: "?m8 x = 0" if x: "x \<in> span stack 8192" for x
  proof -
    have "?m8 x = m6 x" using g68 6(2,7) x by (auto simp: grows_def)
    then show ?thesis using 6(5) x by simp
  qed
  have new: "{(i, 1), (f, 1), (g, 2)} \<subseteq> L8 - L"
    using i(2) f(2) L4 6(3) grows_subset [OF 5(2)] grows_subset [OF g48] grows_subset [OF g68] by (auto simp: others_def)
  have "process_memory mm l pc m = (root, tf, stack, ?m8)"
    by (simp add: process_memory_def 3(1,2) 3(3) [symmetric] 6(1) stack_map [OF ps(1)] del: entry_bits.simps)
  moreover have "space_tables mm l pc L root tf stack ?m8 L8"
    unfolding space_tables_def
    using 8(1) L4 g48 i(1) f(1) 6(2) new w may img frame stack0 by (auto simp: grows_def)
  moreover have "?m8 x = m x" if b: "b \<in> L" "x \<in> span (fst (page_extent mm b)) (snd (page_extent mm b))" for b x
    using keep [OF b] g48 L4 b by (auto simp: grows_def)
  ultimately show thesis by (rule that)
qed

section \<open>What the context switch finds\<close>

lemma page_point:
  fixes base :: u64
  assumes "unat base mod 4096 = 0" "n < 4096"
  shows "page_of (base + of_nat n) = base" "va_path (base + of_nat n) = va_path base" "va_offset (base + of_nat n) = of_nat n"
    "base OR of_nat n = base + of_nat n"
proof -
  obtain q where q: "unat base = 4096 * q" using assms(1) by (auto simp: mod_eq_0_iff_dvd elim: dvdE)
  have "unat base < 18446744073709551616" using unsigned_less [of base, where ?'a = nat] by simp
  then have "unat base + 4096 \<le> 18446744073709551616" using q by simp
  then have u: "unat (base + of_nat n) = unat base + n" using assms(2) by (subst unat_add_no_wrap) (auto simp: unat_of_nat)
  show pg: "page_of (base + of_nat n) = base"
    unfolding word_unat_eq_iff unat_page_of u using q assms(2) by simp
  then show "va_path (base + of_nat n) = va_path base" by (metis va_path_page_of)
  have "(unat base + n) mod 4096 = n" using assms by (metis add_0 mod_add_left_eq mod_less)
  then show off: "va_offset (base + of_nat n) = of_nat n"
    using assms(2) by (simp add: word_unat_eq_iff va_offset_def unat_get_field unat_of_nat u)
  show "base OR of_nat n = base + of_nat n" using page_of_or_offset [of "base + of_nat n"] unfolding pg off .
qed

lemma mapped_point:
  assumes "pt_inv mm m L root" "walk m root (va_path va) = Some pa" "unat va mod 4096 = 0" "page_address pa" "n < 4096"
  shows "mapped m root (va + of_nat n) = Some (pa + of_nat n)"
proof -
  have "unat pa mod 4096 = 0" using assms(4) by (simp add: page_address_def)
  then show ?thesis using assms(2) page_point [OF assms(3,5)] page_point(4) [OF _ assms(5), of pa] by (simp add: mapped_walk [OF assms(1)])
qed

text \<open>Address translation by the tables in memory, as a hart with this \<^verbatim>\<open>satp\<close> does it.\<close>

definition table_mmu :: "pmem \<Rightarrow> mmu" where
  "table_mmu m satp va = (case mapped m (get_current_root_page_table satp) va of Some pa \<Rightarrow> pa | None \<Rightarrow> 0)"

definition first_context :: "u64 \<Rightarrow> u64 \<Rightarrow> pmem \<Rightarrow> hart" where
  "first_context pc satp m = \<lparr>h_x = (\<lambda>_. 0)(2 := STACK_ADDRESS), h_f = \<lambda>_. 0,
     h_csr = (\<lambda>_. 0)(CsrSepc := pc, CsrSstatus := initial_status, CsrSatp := satp), h_mem = m\<rparr>"

lemma initial_parked:
  assumes "\<And>x. x \<in> span tf 576 \<Longrightarrow> m x = initial_frame tf satp pc (\<lambda>_. 0) x"
  shows "parked m tf (first_context pc satp m')"
proof -
  have z: "frame_get (\<lambda>_. 0) tf f = 0" for f by (simp add: frame_get_def load64_zero)
  have "frame_get m tf f = (case map_of [(kernel_satp, satp), (regs 2, STACK_ADDRESS), (sstatus, initial_status), (sepc, pc), (kernel_addr, tf)] f of
      None \<Rightarrow> 0 | Some v \<Rightarrow> v)" if "in_frame f" for f
  proof -
    have "frame_get m tf f = frame_get (initial_frame tf satp pc (\<lambda>_. 0)) tf f" by (rule frame_get_cong [OF that]) (rule assms)
    then show ?thesis unfolding initial_frame_def
      by (simp add: frame_get_sets [OF in_frame_ok [OF that]] field_ok_def z del: frame_sets_simps)
  qed
  moreover have "(of_nat i :: u64) = 2 \<longleftrightarrow> i = 2" if "i < 32" for i using that by (auto simp: word_unat_eq_iff unat_of_nat)
  ultimately show ?thesis by (auto simp: parked_def first_context_def rx_def)
qed

lemma alias_maps:
  assumes "pt_inv mm m L root" "walk m root (va_path TRAP_FRAME_ALIAS) = Some tf" "page_address tf" "page_address root"
  shows "maps (table_mmu m) (build_satp 8 1 root) TRAP_FRAME_ALIAS tf"
  unfolding maps_def
proof (intro allI impI)
  fix f assume "in_frame f"
  then have "unat (field_offset f) < 4096"
    unfolding unat_offset [OF in_frame_ok [OF \<open>in_frame f\<close>]] by (cases f) (auto simp: in_frame_def field_ok_def word_less_nat_alt)
  then have "mapped m root (TRAP_FRAME_ALIAS + field_offset f) = Some (tf + field_offset f)"
    using mapped_point [OF assms(1,2) _ assms(3), of "unat (field_offset f)"] by (simp add: TRAP_FRAME_ALIAS_def)
  moreover have "get_current_root_page_table (build_satp 8 1 root) = root" using satp_roundtrip [OF assms(4), of 8 1] by simp
  ultimately show "table_mmu m (build_satp 8 1 root) (TRAP_FRAME_ALIAS + field_offset f) = tf + field_offset f" by (simp add: table_mmu_def)
qed

lemma stack_mapped:
  assumes inv: "pt_inv mm m L root" and w: "walk m root (va_path 0xefffe000) = Some stack" "walk m root (va_path 0xeffff000) = Some (stack + 4096)"
    and a: "page_address stack" "page_address (stack + 4096)" and n: "n < 8192"
  shows "mapped m root (STACK_ADDRESS - 8192 + of_nat n) = Some (stack + of_nat n)"
proof (cases "n < 4096")
  case True
  then show ?thesis using mapped_point [OF inv w(1) _ a(1)] by (simp add: STACK_ADDRESS_def)
next
  case False
  then have m: "n - 4096 < 4096" and e: "(of_nat n :: u64) = of_nat (n - 4096) + 4096" using n by (simp_all add: of_nat_diff)
  have "unat (0xeffff000 :: u64) mod 4096 = 0" by simp
  from mapped_point [OF inv w(2) this a(2) m] show ?thesis unfolding e by (simp add: STACK_ADDRESS_def add.commute add.left_commute)
qed

text \<open>
  C6. \<^verbatim>\<open>create_dummy_process\<close>, when it returns, builds an address space of its own, provided that the kernel's tables are well-formed,
  the image's ranges lie in the lower 512 GiB, and the memory has at least twice as many pages as are in use, the image's tables may need
  and nine more are together (the code does not look whether \<^verbatim>\<open>zalloc\<close> failed).  The program image is identity mapped with exactly the permissions of the ranges
  of its page, except in the pages of \<^verbatim>\<open>0x1000\<close>, \<^verbatim>\<open>0xefffe000\<close> and \<^verbatim>\<open>0xeffff000\<close>, which the frame and the stack take over.
  The two stack pages below \<^verbatim>\<open>0xf0000000\<close> are fresh zeroed pages the user may read and write, and the trap frame is a fresh page.
  Address translation by the new tables under the new \<^verbatim>\<open>satp\<close> takes the trap frame alias \<^verbatim>\<open>0x1000\<close> to that frame,
  where it may be read and written, and the frame holds the start context of the thread (entry point, stack pointer, status,
  \<^verbatim>\<open>satp\<close>, every other register zero), which is what the context switch needs of a thread that is not running.
  Nothing that was allocated before is written, so the kernel's own address space still translates every address as it did.
\<close>

theorem process_space:
  assumes "pt_inv mm (k_mem k) L kroot" "\<forall>r \<in> set (image_ranges l). range_ok r"
    and "2 * (pages_used L + image_tables l + 9) \<le> npages mm"
    and "create_dummy_process mm l pc k = Inr (root, k')"
  shows "\<exists>tf stack L'. k_threads k' (k_next_thread k) = Some (thread_new tf (m_pid_counter k) 0) \<and>
    pt_inv mm (k_mem k') L' root \<and> pt_inv mm (k_mem k') L' kroot \<and>
    {(root, 4096), (tf, 4096), (stack, 8192)} \<subseteq> page_extent mm ` (L' - L) \<and>
    (\<forall>va. mapped (k_mem k') kroot va = mapped (k_mem k) kroot va) \<and>
    (\<forall>b \<in> L. \<forall>x \<in> span (fst (page_extent mm b)) (snd (page_extent mm b)). k_mem k' x = k_mem k x) \<and>
    (\<forall>va. in_ranges (image_ranges l) va \<and> va_path va \<notin> special_paths \<longrightarrow>
      mapped (k_mem k') root va = Some va \<and> access (k_mem k') root va = Some (0xC1 OR granted (image_ranges l) va)) \<and>
    (\<forall>n < 8192. mapped (k_mem k') root (STACK_ADDRESS - 8192 + of_nat n) = Some (stack + of_nat n) \<and>
      allows (k_mem k') root (STACK_ADDRESS - 8192 + of_nat n) (entry_bits USER_READ_WRITE) \<and> k_mem k' (stack + of_nat n) = 0) \<and>
    (\<forall>n < 4096. allows (k_mem k') root (TRAP_FRAME_ALIAS + of_nat n) (entry_bits READ_WRITE)) \<and>
    maps (table_mmu (k_mem k')) (build_satp 8 1 root) TRAP_FRAME_ALIAS tf \<and>
    parked (k_mem k') tf (first_context pc (build_satp 8 1 root) (k_mem k'))"
proof -
  let ?m' = "k_mem k'"
  obtain tf stack where p: "process_memory mm l pc (k_mem k) = (root, tf, stack, ?m')"
    and thread: "k_threads k' (k_next_thread k) = Some (thread_new tf (m_pid_counter k) 0)"
    using create_dummy_process_memory [OF assms(4)] by blast
  obtain L' where space: "space_tables mm l pc L root tf stack ?m' L'"
    and keep: "\<And>b x. b \<in> L \<Longrightarrow> x \<in> span (fst (page_extent mm b)) (snd (page_extent mm b)) \<Longrightarrow> ?m' x = k_mem k x"
    by (rule process_tree [OF assms(1-3), of pc, unfolded p]) blast
  note s = space [unfolded space_tables_def]
  have inv: "pt_inv mm ?m' L' root" using s by blast
  obtain i f g where e: "page_extent mm (i, 1) = (root, 4096)" "page_extent mm (f, 1) = (tf, 4096)" "page_extent mm (g, 2) = (stack, 8192)"
    and new: "{(i, 1), (f, 1), (g, 2)} \<subseteq> L' - L" using s by blast
  have ext: "{(root, 4096), (tf, 4096), (stack, 8192)} \<subseteq> page_extent mm ` (L' - L)" 
    using new imageI [of _ "L' - L" "page_extent mm"] unfolding e [symmetric] by blast
  then have "{(root, 4096), (tf, 4096)} \<subseteq> page_extent mm ` L'" by blast
  then have a: "page_address root" "page_address tf" using extent_page_address [OF pt_invD(1-3) [OF inv]] by blast+
  have "(g, 2) \<in> L'" using new by blast
  note st = stack_pages [OF inv this e(3)]
  have "L \<subseteq> L'" using s by (auto simp: others_def)
  have same: "?m' x = k_mem k x" if tab: "is_table (k_mem k) kroot q r" "x \<in> span r 4096" for q r x
  proof -
    obtain b where "b \<in> L" "page_extent mm b = (r, 4096)" using pt_invD(4) [OF assms(1) tab(1)] by auto
    then show ?thesis using keep [of b x] tab(2) by simp
  qed
  have kern: "pt_inv mm ?m' L' kroot" "length q \<le> 3 \<Longrightarrow> set q \<subseteq> {..<512} \<Longrightarrow> walk ?m' kroot q = walk (k_mem k) kroot q" for q
    using pt_inv_frame [OF assms(1) pt_invD(1) [OF inv] \<open>L \<subseteq> L'\<close>] same by blast+
  have img: "\<forall>va. in_ranges (image_ranges l) va \<and> va_path va \<notin> special_paths \<longrightarrow>
      mapped ?m' root va = Some va \<and> access ?m' root va = Some (0xC1 OR granted (image_ranges l) va)" using s by blast
  have kernel: "mapped ?m' kroot va = mapped (k_mem k) kroot va" for va
    using kern(2) [of "va_path va"] mapped_walk [OF kern(1)] mapped_walk [OF assms(1)] by (simp add: va_path_def)
  have may: "allows ?m' root (va + of_nat n) bits" if "allows ?m' root va bits" "n < 4096" "unat va mod 4096 = 0" for va n bits
    using that(1) page_point(2) [OF that(3,2)] by (simp add: allows_def access_def)
  have user: "allows ?m' root (STACK_ADDRESS - 8192 + of_nat n) (entry_bits USER_READ_WRITE)" if "n < 8192" for n
  proof (cases "n < 4096")
    case True
    then show ?thesis using may [of "0xefffe000" "entry_bits USER_READ_WRITE" n] s by (simp add: STACK_ADDRESS_def)
  next
    case False
    then have e: "n - 4096 < 4096" "(of_nat n :: u64) = of_nat (n - 4096) + 4096" using that by (simp_all add: of_nat_diff)
    have "allows ?m' root (0xeffff000 + of_nat (n - 4096)) (entry_bits USER_READ_WRITE)" by (rule may) (use s e(1) in simp_all)
    then show ?thesis unfolding e(2) by (simp add: STACK_ADDRESS_def add.commute add.left_commute)
  qed
  have trap: "allows ?m' root (TRAP_FRAME_ALIAS + of_nat n) (entry_bits READ_WRITE)" if "n < 4096" for n
    using may [of TRAP_FRAME_ALIAS "entry_bits READ_WRITE" n] s that by (simp add: TRAP_FRAME_ALIAS_def)
  have stack: "mapped ?m' root (STACK_ADDRESS - 8192 + of_nat n) = Some (stack + of_nat n) \<and> ?m' (stack + of_nat n) = 0" if "n < 8192" for n
  proof
    have w: "walk ?m' root (va_path 0xefffe000) = Some stack" "walk ?m' root (va_path 0xeffff000) = Some (stack + 4096)" using s by blast+
    show "mapped ?m' root (STACK_ADDRESS - 8192 + of_nat n) = Some (stack + of_nat n)" by (rule stack_mapped [OF inv w st that])
    have "stack + of_nat n \<in> span stack 8192" using that by (simp add: in_span unat_of_nat)
    then show "?m' (stack + of_nat n) = 0" using s by blast
  qed
  have "span tf 576 \<subseteq> span tf 4096" by (rule span_mono) simp
  then have parked: "parked ?m' tf (first_context pc (build_satp 8 1 root) ?m')" using s by (intro initial_parked) blast
  have "walk ?m' root (va_path TRAP_FRAME_ALIAS) = Some tf" using s by (simp add: TRAP_FRAME_ALIAS_def)
  note frame_alias = alias_maps [OF inv this a(2,1)]
  have "\<forall>n < 8192. mapped ?m' root (STACK_ADDRESS - 8192 + of_nat n) = Some (stack + of_nat n) \<and>
      allows ?m' root (STACK_ADDRESS - 8192 + of_nat n) (entry_bits USER_READ_WRITE) \<and> ?m' (stack + of_nat n) = 0"
    using stack user by blast
  moreover have "\<forall>n < 4096. allows ?m' root (TRAP_FRAME_ALIAS + of_nat n) (entry_bits READ_WRITE)" using trap by blast
  moreover have "\<forall>b \<in> L. \<forall>x \<in> span (fst (page_extent mm b)) (snd (page_extent mm b)). ?m' x = k_mem k x" using keep by blast
  moreover have "\<forall>va. mapped ?m' kroot va = mapped (k_mem k) kroot va" using kernel by blast
  ultimately show ?thesis using thread inv kern(1) ext img frame_alias parked by (intro exI conjI)
qed

theorem process_space_witness:
  "\<exists>mm m kroot k root k' tf. process_manager_init m kroot = Inr k \<and> create_dummy_process mm small_linker 0x80001000 k = Inr (root, k') \<and>
     mapped (k_mem k') root 0x80000123 = Some 0x80000123 \<and> maps (table_mmu (k_mem k')) (build_satp 8 1 root) TRAP_FRAME_ALIAS tf \<and>
     parked (k_mem k') tf (first_context 0x80001000 (build_satp 8 1 root) (k_mem k'))"
proof -
  define mm where "mm = fst (mm_init (l_heap_start small_linker) (l_heap_size small_linker) boot_memory)"
  define m1 where "m1 = snd (mm_init (l_heap_start small_linker) (l_heap_size small_linker) boot_memory)"
  let ?m = "fst (alloc mm m1 1)" and ?kroot = "snd (alloc mm m1 1)"
  note root = boot_root [OF small_layout, folded mm_def m1_def]
  obtain k where k: "process_manager_init ?m ?kroot = Inr k" "process_inv k []" using process_inv_init by blast
  have mem: "k_mem k = ?m" and shape: "m_run_queue k = queue_new" "m_pid_counter k = 1" "m_process_list k = al_new"
    using k(1) by (auto simp: process_manager_init_def fault_simps)
  have "run_queue_ok k []" "unat (m_pid_counter k) + 1 < 2 ^ 64" "unat (ArrayList.m_size (m_process_list k)) < 2 ^ 62"
    by (simp_all add: shape run_queue_ok_def linked_queue.empty_rel al_new_def DEFAULT_SIZE_def)
  from create_dummy_process_ok [OF k(2) this, where mm = mm and l = small_linker and pc = "0x80001000"]
  obtain new k' where made: "create_dummy_process mm small_linker 0x80001000 k = Inr (new, k')" by auto
  have inv: "pt_inv mm (k_mem k) {(0, 1), (1, 1)} ?kroot" unfolding mem by (rule root(1))
  have ok: "\<forall>r \<in> set (image_ranges small_linker). range_ok r"
    by (simp add: image_ranges_def small_linker_def range_ok_def unat_page_of)
  have "image_tables small_linker \<le> 100" by (simp add: image_tables_def image_ranges_def small_linker_def range_tables_def unat_page_of)
  moreover have "tables_needed small_linker = 40"
    by (simp add: tables_needed_def system_ranges_def small_linker_def range_tables_def unat_page_of)
  moreover have "pages_used {(0 :: nat, 1 :: nat), (1, 1)} = 2" by (simp add: pages_used_def)
  ultimately have room: "2 * (pages_used {(0, 1), (1, 1)} + image_tables small_linker + 9) \<le> npages mm" using root(4) by simp
  have img: "in_ranges (image_ranges small_linker) 0x80000123"
    by (simp add: in_ranges_def image_ranges_def small_linker_def page_range_def unat_page_of)
  have apart: "va_path 0x80000123 \<notin> special_paths" by (simp add: va_path_def vpn0_def vpn1_def vpn2_def get_field_def)
  from process_space [OF inv ok room made]
  obtain tf where space: "\<forall>va. in_ranges (image_ranges small_linker) va \<and> va_path va \<notin> special_paths \<longrightarrow>
      mapped (k_mem k') new va = Some va \<and> access (k_mem k') new va = Some (0xC1 OR granted (image_ranges small_linker) va)"
    "maps (table_mmu (k_mem k')) (build_satp 8 1 new) TRAP_FRAME_ALIAS tf"
    "parked (k_mem k') tf (first_context 0x80001000 (build_satp 8 1 new) (k_mem k'))"
    by (elim exE conjE) (rule that)
  have "mapped (k_mem k') new 0x80000123 = Some 0x80000123" using space(1) img apart by blast
  then show ?thesis using k(1) made space(2,3) by (intro exI conjI)
qed

end
