(* ===== verification/RefCounting.thy ===== *)
theory RefCounting
  imports Prelude
begin

text \<open>
  The smart pointers of \<^verbatim>\<open>Utils/Pointers\<close>: \<^verbatim>\<open>RefPtr\<close> over the intrusive counter of
  \<^verbatim>\<open>RefCounted.h\<close>, \<^verbatim>\<open>Shared\<close> over a counter of its own, and \<^verbatim>\<open>Unique\<close>.  The state holds the
  live objects with their counters and the pointer variables (handles) in the order they
  were constructed; a destroyed or moved-from handle is null.  Sequences of handle
  operations are a step relation, and the counters are exact in every state it reaches.
\<close>

section \<open>\<^verbatim>\<open>RefCounted\<close> and \<^verbatim>\<open>RefPtr\<close>\<close>

type_synonym ref_objects = "nat \<Rightarrow> u32 option"

definition ref_object :: "ref_objects \<Rightarrow> nat \<Rightarrow> ref_objects exec" where
  "ref_object objs p = (case objs p of None \<Rightarrow> Inl Uninitialised | Some c \<Rightarrow> Inr (objs(p \<mapsto> c + 1)))"

text \<open>\<^verbatim>\<open>deref\<close> decrements the counter and returns it; \<^verbatim>\<open>unref\<close> deletes the object at zero.\<close>

definition deref_object :: "ref_objects \<Rightarrow> nat \<Rightarrow> (u32 \<times> ref_objects) exec" where
  "deref_object objs p = (case objs p of None \<Rightarrow> Inl Uninitialised | Some c \<Rightarrow> Inr (c - 1, objs(p \<mapsto> c - 1)))"

definition unref_object :: "ref_objects \<Rightarrow> nat \<Rightarrow> (bool \<times> ref_objects) exec" where
  "unref_object objs p =
     exec_bind (deref_object objs p) (\<lambda>(c, objs).
       if c = 0 then Inr (True, objs(p := None)) else Inr (False, objs))"

record ref_state =
  rs_objects :: ref_objects
  rs_handles :: "nat option list"

definition ref_if :: "nat option \<Rightarrow> ref_state \<Rightarrow> ref_state exec" where
  "ref_if v s = (case v of None \<Rightarrow> Inr s
     | Some p \<Rightarrow> exec_bind (ref_object (rs_objects s) p) (\<lambda>objs. Inr (s\<lparr>rs_objects := objs\<rparr>)))"

definition unref_if :: "nat option \<Rightarrow> ref_state \<Rightarrow> ref_state exec" where
  "unref_if v s = (case v of None \<Rightarrow> Inr s
     | Some p \<Rightarrow> exec_bind (unref_object (rs_objects s) p) (\<lambda>(_, objs). Inr (s\<lparr>rs_objects := objs\<rparr>)))"

text \<open>
  Every constructor appends the new handle.  \<^verbatim>\<open>rp_of_ptr\<close> wraps a raw pointer, \<^verbatim>\<open>rp_create\<close>
  first constructs the object, whose counter starts at zero.
\<close>

definition rp_of_ptr :: "nat option \<Rightarrow> ref_state \<Rightarrow> ref_state exec" where
  "rp_of_ptr ptr s = ref_if ptr (s\<lparr>rs_handles := rs_handles s @ [ptr]\<rparr>)"

definition rp_create :: "nat \<Rightarrow> ref_state \<Rightarrow> ref_state exec" where
  "rp_create p s = rp_of_ptr (Some p) (s\<lparr>rs_objects := (rs_objects s)(p \<mapsto> 0)\<rparr>)"

definition rp_copy :: "nat \<Rightarrow> ref_state \<Rightarrow> ref_state exec" where
  "rp_copy other s =
     (let value = rs_handles s ! other in ref_if value (s\<lparr>rs_handles := rs_handles s @ [value]\<rparr>))"

definition rp_move :: "nat \<Rightarrow> ref_state \<Rightarrow> ref_state exec" where
  "rp_move other s =
     (let value = rs_handles s ! other in Inr (s\<lparr>rs_handles := (rs_handles s @ [value])[other := None]\<rparr>))"

definition rp_destroy :: "nat \<Rightarrow> ref_state \<Rightarrow> ref_state exec" where
  "rp_destroy this s =
     exec_bind (unref_if (rs_handles s ! this) s) (\<lambda>s. Inr (s\<lparr>rs_handles := (rs_handles s)[this := None]\<rparr>))"

definition rp_assign :: "nat \<Rightarrow> nat \<Rightarrow> ref_state \<Rightarrow> ref_state exec" where
  "rp_assign this ptr s =
     (if this = ptr then Inr s
      else exec_bind (unref_if (rs_handles s ! this) s) (\<lambda>s.
        let s = s\<lparr>rs_handles := (rs_handles s)[this := rs_handles s ! ptr]\<rparr> in
        ref_if (rs_handles s ! this) s))"

definition rp_assign_move :: "nat \<Rightarrow> nat \<Rightarrow> ref_state \<Rightarrow> ref_state exec" where
  "rp_assign_move this ptr s =
     (if this = ptr then Inr s
      else exec_bind (unref_if (rs_handles s ! this) s) (\<lambda>s.
        let s = s\<lparr>rs_handles := (rs_handles s)[this := rs_handles s ! ptr]\<rparr> in
        Inr (s\<lparr>rs_handles := (rs_handles s)[ptr := None]\<rparr>)))"

definition rp_equal :: "nat \<Rightarrow> nat \<Rightarrow> ref_state \<Rightarrow> bool" where
  "rp_equal this other s = (rs_handles s ! this = rs_handles s ! other)"

definition rp_bool :: "nat \<Rightarrow> ref_state \<Rightarrow> bool" where
  "rp_bool this s = (rs_handles s ! this \<noteq> None)"

section \<open>Programs over handles\<close>

datatype ref_op =
  Create nat
  | Copy nat
  | Move nat
  | Destroy nat
  | Assign nat nat
  | AssignMove nat nat

fun ref_exec :: "ref_op \<Rightarrow> ref_state \<Rightarrow> ref_state exec" where
  "ref_exec (Create p) s = rp_create p s"
| "ref_exec (Copy i) s = rp_copy i s"
| "ref_exec (Move i) s = rp_move i s"
| "ref_exec (Destroy i) s = rp_destroy i s"
| "ref_exec (Assign i j) s = rp_assign i j s"
| "ref_exec (AssignMove i j) s = rp_assign_move i j s"

text \<open>
  An operation the program can name: it uses variables it has declared, \<^verbatim>\<open>new\<close> returns an
  address where no object lives, and there are fewer handles than the counter can count.
\<close>

fun ref_op_ok :: "ref_op \<Rightarrow> ref_state \<Rightarrow> bool" where
  "ref_op_ok (Create p) s \<longleftrightarrow> rs_objects s p = None"
| "ref_op_ok (Copy i) s \<longleftrightarrow> i < length (rs_handles s)"
| "ref_op_ok (Move i) s \<longleftrightarrow> i < length (rs_handles s)"
| "ref_op_ok (Destroy i) s \<longleftrightarrow> i < length (rs_handles s)"
| "ref_op_ok (Assign i j) s \<longleftrightarrow> i < length (rs_handles s) \<and> j < length (rs_handles s)"
| "ref_op_ok (AssignMove i j) s \<longleftrightarrow> i < length (rs_handles s) \<and> j < length (rs_handles s)"

definition ref_start :: ref_state where
  "ref_start = \<lparr>rs_objects = \<lambda>_. None, rs_handles = []\<rparr>"

inductive ref_reachable :: "ref_state \<Rightarrow> bool" where
  start: "ref_reachable ref_start"
| step: "ref_reachable s \<Longrightarrow> ref_op_ok oper s \<Longrightarrow> Suc (length (rs_handles s)) < 2 ^ 32 \<Longrightarrow>
    ref_exec oper s = Inr s' \<Longrightarrow> ref_reachable s'"

section \<open>The counters are exact\<close>

definition owners :: "ref_state \<Rightarrow> nat \<Rightarrow> nat" where
  "owners s p = count_list (rs_handles s) (Some p)"

definition counters_exact :: "ref_state \<Rightarrow> bool" where
  "counters_exact s \<longleftrightarrow> (\<forall>p. rs_objects s p = (if owners s p = 0 then None else Some (of_nat (owners s p))))"

lemma count_list_update:
  assumes "i < length hs"
  shows "count_list (hs[i := v]) x + (if hs ! i = x then 1 else 0) = count_list hs x + (if v = x then 1 else 0)"
  using assms
proof (induction hs arbitrary: i)
  case (Cons h hs)
  show ?case
  proof (cases i)
    case (Suc k)
    then show ?thesis using Cons.IH [of k] Cons.prems by auto
  qed auto
qed simp

lemma count_list_le: "count_list hs x \<le> length hs"
  by (induction hs) auto

lemma of_nat_u32_Suc:
  assumes "n < 2 ^ 32" shows "(of_nat n :: u32) = 0 \<longleftrightarrow> n = 0"
  using of_nat_word_inj [where ?'a = 32, of n 0] assms by simp

text \<open>Counting one owner more or less, apart from the handles.\<close>

definition objs_of :: "(nat \<Rightarrow> nat) \<Rightarrow> ref_objects" where
  "objs_of cnt = (\<lambda>p. if cnt p = 0 then None else Some (of_nat (cnt p)))"

lemma counters_exact_objs_of: "counters_exact s \<longleftrightarrow> rs_objects s = objs_of (owners s)"
  by (auto simp: counters_exact_def objs_of_def fun_eq_iff)

lemma ref_object_objs_of:
  assumes "0 < cnt p" "Suc (cnt p) < 2 ^ 32"
  shows "ref_object (objs_of cnt) p = Inr (objs_of (cnt(p := Suc (cnt p))))"
  using assms by (auto simp: ref_object_def objs_of_def fun_eq_iff)

lemma unref_object_objs_of:
  assumes "0 < cnt p" "cnt p < 2 ^ 32"
  shows "unref_object (objs_of cnt) p = Inr (cnt p = 1, objs_of (cnt(p := cnt p - 1)))"
proof -
  obtain n where n: "cnt p = Suc n" using assms(1) by (cases "cnt p") auto
  have "(of_nat n :: u32) = 0 \<longleftrightarrow> n = 0" using of_nat_u32_Suc [of n] assms(2) n by simp
  then show ?thesis using n by (auto simp: unref_object_def deref_object_def objs_of_def fun_eq_iff)
qed

lemma owners_less: "Suc (length (rs_handles s)) < 2 ^ 32 \<Longrightarrow> owners s p < 2 ^ 32"
  unfolding owners_def using count_list_le [of "rs_handles s" "Some p"] by linarith

lemma owners_pos: "i < length (rs_handles s) \<Longrightarrow> rs_handles s ! i = Some p \<Longrightarrow> 0 < owners s p"
  unfolding owners_def by (metis count_list_0_iff neq0_conv nth_mem)

definition bump :: "nat option \<Rightarrow> (nat \<Rightarrow> nat) \<Rightarrow> nat \<Rightarrow> nat" where
  "bump v cnt = (case v of None \<Rightarrow> cnt | Some p \<Rightarrow> cnt(p := Suc (cnt p)))"

definition drop_one :: "nat option \<Rightarrow> (nat \<Rightarrow> nat) \<Rightarrow> nat \<Rightarrow> nat" where
  "drop_one v cnt = (case v of None \<Rightarrow> cnt | Some p \<Rightarrow> cnt(p := cnt p - 1))"

lemma ref_if_objs_of:
  assumes "rs_objects s = objs_of cnt" "\<And>p. v = Some p \<Longrightarrow> 0 < cnt p \<and> Suc (cnt p) < 2 ^ 32"
  shows "ref_if v s = Inr (s\<lparr>rs_objects := objs_of (bump v cnt)\<rparr>)"
  using assms by (cases v) (simp_all add: ref_if_def bump_def ref_object_objs_of)

lemma unref_if_objs_of:
  assumes "rs_objects s = objs_of cnt" "\<And>p. v = Some p \<Longrightarrow> 0 < cnt p \<and> cnt p < 2 ^ 32"
  shows "unref_if v s = Inr (s\<lparr>rs_objects := objs_of (drop_one v cnt)\<rparr>)"
  using assms by (cases v) (simp_all add: unref_if_def drop_one_def unref_object_objs_of)

lemma owners_append: "owners (s\<lparr>rs_handles := rs_handles s @ [v]\<rparr>) = bump v (owners s)"
  by (auto simp: owners_def bump_def fun_eq_iff split: option.splits)

lemma owners_update:
  assumes "i < length (rs_handles s)"
  shows "owners (s\<lparr>rs_handles := (rs_handles s)[i := v]\<rparr>) = bump v (drop_one (rs_handles s ! i) (owners s))"
proof
  fix p
  show "owners (s\<lparr>rs_handles := (rs_handles s)[i := v]\<rparr>) p = bump v (drop_one (rs_handles s ! i) (owners s)) p"
    using count_list_update [OF assms, of v "Some p"] owners_pos [OF assms]
    by (auto simp: owners_def bump_def drop_one_def split: option.splits if_splits)
qed

lemma owners_cong: "rs_handles s = rs_handles t \<Longrightarrow> owners s = owners t"
  by (simp add: owners_def fun_eq_iff)

lemma bump_None [simp]: "bump None cnt = cnt" by (simp add: bump_def)

text \<open>Two handles on one object: after giving up one of them the other still owns it.\<close>

lemma drop_one_pos:
  assumes "i < length (rs_handles s)" "j < length (rs_handles s)" "i \<noteq> j" "rs_handles s ! j = Some p"
  shows "0 < drop_one (rs_handles s ! i) (owners s) p"
  using owners_update [OF assms(1), of None] owners_pos [of j "s\<lparr>rs_handles := (rs_handles s)[i := None]\<rparr>" p] assms
  by simp

lemma drop_one_le: "drop_one v cnt p \<le> cnt p"
  by (auto simp: drop_one_def split: option.splits)

lemma rp_create_exact:
  assumes "counters_exact s" "rs_objects s p = None"
  shows "\<exists>s'. rp_create p s = Inr s' \<and> counters_exact s'"
proof -
  have p: "owners s p = 0" using assms by (auto simp: counters_exact_def split: if_splits)
  let ?s = "s\<lparr>rs_objects := (rs_objects s)(p \<mapsto> 1), rs_handles := rs_handles s @ [Some p]\<rparr>"
  have "rp_create p s = Inr ?s" by (simp add: rp_create_def rp_of_ptr_def ref_if_def ref_object_def)
  moreover have "counters_exact ?s" using assms(1) p by (auto simp: counters_exact_def owners_def)
  ultimately show ?thesis by blast
qed

lemma rp_copy_exact:
  assumes "counters_exact s" "i < length (rs_handles s)" "Suc (length (rs_handles s)) < 2 ^ 32"
  shows "\<exists>s'. rp_copy i s = Inr s' \<and> counters_exact s'"
proof -
  let ?v = "rs_handles s ! i" and ?s = "s\<lparr>rs_handles := rs_handles s @ [rs_handles s ! i]\<rparr>"
  have "ref_if ?v ?s = Inr (?s\<lparr>rs_objects := objs_of (bump ?v (owners s))\<rparr>)"
  proof (rule ref_if_objs_of)
    show "rs_objects ?s = objs_of (owners s)" using assms(1) by (simp add: counters_exact_objs_of)
    show "0 < owners s p \<and> Suc (owners s p) < 2 ^ 32" if "?v = Some p" for p
      using owners_pos [OF assms(2) that] count_list_le [of "rs_handles s" "Some p"] assms(3)
      unfolding owners_def by linarith
  qed
  moreover have "counters_exact (?s\<lparr>rs_objects := objs_of (bump ?v (owners s))\<rparr>)"
    using owners_append [of s ?v] owners_cong [of "?s\<lparr>rs_objects := objs_of (bump ?v (owners s))\<rparr>" ?s]
    by (simp add: counters_exact_objs_of)
  ultimately show ?thesis by (auto simp: rp_copy_def Let_def)
qed

lemma rp_move_exact:
  assumes "counters_exact s" "i < length (rs_handles s)"
  shows "\<exists>s'. rp_move i s = Inr s' \<and> counters_exact s'"
proof -
  let ?s = "s\<lparr>rs_handles := (rs_handles s @ [rs_handles s ! i])[i := None]\<rparr>"
  have "owners ?s p = owners s p" for p
    using assms(2) count_list_update [of i "rs_handles s" None "Some p"]
    by (auto simp: owners_def list_update_append split: if_splits)
  then have "counters_exact ?s" using assms(1) by (simp add: counters_exact_def)
  then show ?thesis by (simp add: rp_move_def Let_def)
qed

lemma unref_handle:
  assumes "counters_exact s" "i < length (rs_handles s)" "Suc (length (rs_handles s)) < 2 ^ 32"
  shows "unref_if (rs_handles s ! i) s = Inr (s\<lparr>rs_objects := objs_of (drop_one (rs_handles s ! i) (owners s))\<rparr>)"
  using assms(1) owners_pos [OF assms(2)] owners_less [OF assms(3)]
  by (intro unref_if_objs_of) (auto simp: counters_exact_objs_of)

lemma rp_destroy_exact:
  assumes "counters_exact s" "i < length (rs_handles s)" "Suc (length (rs_handles s)) < 2 ^ 32"
  shows "\<exists>s'. rp_destroy i s = Inr s' \<and> counters_exact s'"
proof -
  let ?cnt = "drop_one (rs_handles s ! i) (owners s)"
  let ?s = "s\<lparr>rs_objects := objs_of ?cnt, rs_handles := (rs_handles s)[i := None]\<rparr>"
  have "owners ?s = ?cnt"
    using owners_update [OF assms(2), of None] owners_cong [of ?s "s\<lparr>rs_handles := (rs_handles s)[i := None]\<rparr>"] by simp
  then have "counters_exact ?s" by (simp add: counters_exact_objs_of)
  then show ?thesis using unref_handle [OF assms] by (simp add: rp_destroy_def)
qed

lemma rp_assign_exact:
  assumes "counters_exact s" "i < length (rs_handles s)" "j < length (rs_handles s)"
    "Suc (length (rs_handles s)) < 2 ^ 32"
  shows "\<exists>s'. rp_assign i j s = Inr s' \<and> counters_exact s'"
proof (cases "i = j")
  case False
  let ?v = "rs_handles s ! j" and ?cnt = "drop_one (rs_handles s ! i) (owners s)"
  let ?s = "s\<lparr>rs_objects := objs_of ?cnt, rs_handles := (rs_handles s)[i := ?v]\<rparr>"
  have less: "0 < ?cnt p \<and> Suc (?cnt p) < 2 ^ 32" if "?v = Some p" for p
    using drop_one_pos [OF assms(2,3) False that] drop_one_le [of "rs_handles s ! i" "owners s" p]
      count_list_le [of "rs_handles s" "Some p"] assms(4)
    unfolding owners_def by linarith
  have "ref_if ?v ?s = Inr (?s\<lparr>rs_objects := objs_of (bump ?v ?cnt)\<rparr>)"
    using less by (intro ref_if_objs_of) simp_all
  then have "rp_assign i j s = Inr (?s\<lparr>rs_objects := objs_of (bump ?v ?cnt)\<rparr>)"
    using False unref_handle [OF assms(1,2,4)] assms(2) by (simp add: rp_assign_def Let_def)
  moreover have "owners (?s\<lparr>rs_objects := objs_of (bump ?v ?cnt)\<rparr>) = bump ?v ?cnt"
    using owners_update [OF assms(2), of ?v]
      owners_cong [of "?s\<lparr>rs_objects := objs_of (bump ?v ?cnt)\<rparr>" "s\<lparr>rs_handles := (rs_handles s)[i := ?v]\<rparr>"] by simp
  ultimately show ?thesis by (auto simp: counters_exact_objs_of)
qed (use assms(1) in \<open>simp add: rp_assign_def\<close>)

lemma rp_assign_move_exact:
  assumes "counters_exact s" "i < length (rs_handles s)" "j < length (rs_handles s)"
    "Suc (length (rs_handles s)) < 2 ^ 32"
  shows "\<exists>s'. rp_assign_move i j s = Inr s' \<and> counters_exact s'"
proof (cases "i = j")
  case False
  let ?v = "rs_handles s ! j" and ?cnt = "drop_one (rs_handles s ! i) (owners s)"
  let ?s = "s\<lparr>rs_objects := objs_of ?cnt, rs_handles := (rs_handles s)[i := ?v, j := None]\<rparr>"
  let ?t = "s\<lparr>rs_handles := (rs_handles s)[i := ?v]\<rparr>"
  have t: "owners ?t = bump ?v ?cnt" using owners_update [OF assms(2), of ?v] .
  have "owners (?t\<lparr>rs_handles := (rs_handles ?t)[j := None]\<rparr>) = drop_one ?v (bump ?v ?cnt)"
    using owners_update [of j ?t None] assms(3) False t by simp
  moreover have "drop_one ?v (bump ?v ?cnt) = ?cnt" by (auto simp: drop_one_def bump_def split: option.splits)
  moreover have "owners ?s = owners (?t\<lparr>rs_handles := (rs_handles ?t)[j := None]\<rparr>)" by (rule owners_cong) simp
  ultimately have "counters_exact ?s" by (simp add: counters_exact_objs_of)
  then show ?thesis using False unref_handle [OF assms(1,2,4)] by (simp add: rp_assign_move_def Let_def)
qed (use assms(1) in \<open>simp add: rp_assign_move_def\<close>)

lemma ref_exec_exact:
  assumes "counters_exact s" "ref_op_ok oper s" "Suc (length (rs_handles s)) < 2 ^ 32"
  shows "\<exists>s'. ref_exec oper s = Inr s' \<and> counters_exact s'"
  using assms rp_create_exact rp_copy_exact rp_move_exact rp_destroy_exact rp_assign_exact rp_assign_move_exact
  by (cases oper) auto

lemma ref_reachable_exact: "ref_reachable s \<Longrightarrow> counters_exact s"
proof (induction rule: ref_reachable.induct)
  case start
  show ?case by (simp add: counters_exact_def ref_start_def owners_def)
next
  case (step s oper s')
  then show ?case using ref_exec_exact [of s oper] by auto
qed

section \<open>\<^verbatim>\<open>Shared\<close>\<close>

text \<open>
  \<^verbatim>\<open>Value\<close> holds the pointer and a signed counter that starts at one.  The state keeps the
  live \<^verbatim>\<open>Value\<close> cells; a copy and a move both count the new handle.  The lifetime of a
  destroyed handle is over, which is recorded as null.
\<close>

record Value =
  val_object :: "nat option"
  m_number_of_refs :: int

record shared_state =
  sh_cells :: "nat \<Rightarrow> Value option"
  sh_handles :: "nat option list"

definition value_new :: "nat \<Rightarrow> Value" where
  "value_new value = \<lparr>val_object = Some value, m_number_of_refs = 1\<rparr>"

definition value_ref :: "Value \<Rightarrow> Value" where
  "value_ref v = v\<lparr>m_number_of_refs := m_number_of_refs v + 1\<rparr>"

definition value_deref :: "Value \<Rightarrow> int \<times> Value" where
  "value_deref v =
     (let v = v\<lparr>m_number_of_refs := m_number_of_refs v - 1\<rparr> in
      let v = (if m_number_of_refs v = 0 then v\<lparr>val_object := None\<rparr> else v) in
      (m_number_of_refs v, v))"

definition shared_make :: "nat \<Rightarrow> nat \<Rightarrow> shared_state \<Rightarrow> shared_state" where
  "shared_make cell value s =
     s\<lparr>sh_cells := (sh_cells s)(cell \<mapsto> value_new value), sh_handles := sh_handles s @ [Some cell]\<rparr>"

text \<open>The copy and the move constructor have the same body.\<close>

definition shared_copy :: "nat \<Rightarrow> shared_state \<Rightarrow> shared_state exec" where
  "shared_copy other s =
     (let value = sh_handles s ! other; s = s\<lparr>sh_handles := sh_handles s @ [value]\<rparr> in
      case value of None \<Rightarrow> Inr s
      | Some c \<Rightarrow> (case sh_cells s c of None \<Rightarrow> Inl Uninitialised
          | Some v \<Rightarrow> Inr (s\<lparr>sh_cells := (sh_cells s)(c \<mapsto> value_ref v)\<rparr>)))"

definition shared_destroy :: "nat \<Rightarrow> shared_state \<Rightarrow> shared_state exec" where
  "shared_destroy this s =
     (case sh_handles s ! this of None \<Rightarrow> Inr s
      | Some c \<Rightarrow> (case sh_cells s c of None \<Rightarrow> Inl Uninitialised
          | Some v \<Rightarrow>
              (let (n, v) = value_deref v in
               if n = 0 then Inr (s\<lparr>sh_cells := (sh_cells s)(c := None), sh_handles := (sh_handles s)[this := None]\<rparr>)
               else Inr (s\<lparr>sh_cells := (sh_cells s)(c \<mapsto> v), sh_handles := (sh_handles s)[this := None]\<rparr>))))"

definition shared_get :: "nat \<Rightarrow> shared_state \<Rightarrow> nat exec" where
  "shared_get this s =
     (case sh_handles s ! this of None \<Rightarrow> Inl NullDeref
      | Some c \<Rightarrow> (case sh_cells s c of None \<Rightarrow> Inl Uninitialised
          | Some v \<Rightarrow> (case val_object v of None \<Rightarrow> Inl NullDeref | Some p \<Rightarrow> Inr p)))"

section \<open>\<^verbatim>\<open>Unique\<close>\<close>

text \<open>The live objects and the handles; \<^verbatim>\<open>delete\<close> of a null pointer does nothing.\<close>

record unique_state =
  un_live :: "nat set"
  un_handles :: "nat option list"

definition delete_object :: "nat option \<Rightarrow> nat set \<Rightarrow> nat set exec" where
  "delete_object v live = (case v of None \<Rightarrow> Inr live
     | Some p \<Rightarrow> if p \<in> live then Inr (live - {p}) else Inl Uninitialised)"

definition unique_make :: "nat \<Rightarrow> unique_state \<Rightarrow> unique_state" where
  "unique_make p s = s\<lparr>un_live := insert p (un_live s), un_handles := un_handles s @ [Some p]\<rparr>"

definition unique_move :: "nat \<Rightarrow> unique_state \<Rightarrow> unique_state" where
  "unique_move other s = s\<lparr>un_handles := (un_handles s @ [un_handles s ! other])[other := None]\<rparr>"

definition unique_destroy :: "nat \<Rightarrow> unique_state \<Rightarrow> unique_state exec" where
  "unique_destroy this s =
     exec_bind (delete_object (un_handles s ! this) (un_live s)) (\<lambda>live.
     Inr (s\<lparr>un_live := live, un_handles := (un_handles s)[this := None]\<rparr>))"

definition unique_assign_move :: "nat \<Rightarrow> nat \<Rightarrow> unique_state \<Rightarrow> unique_state exec" where
  "unique_assign_move this ptr s =
     (if this = ptr then Inr s
      else exec_bind (delete_object (un_handles s ! this) (un_live s)) (\<lambda>live.
        Inr (s\<lparr>un_live := live, un_handles := (un_handles s)[this := un_handles s ! ptr, ptr := None]\<rparr>)))"

text \<open>Every live object has exactly one handle.\<close>

definition unique_inv :: "unique_state \<Rightarrow> bool" where
  "unique_inv s \<longleftrightarrow> (\<forall>p. count_list (un_handles s) (Some p) = (if p \<in> un_live s then 1 else 0))"

lemma unique_make_inv: "unique_inv s \<Longrightarrow> p \<notin> un_live s \<Longrightarrow> unique_inv (unique_make p s)"
  by (auto simp: unique_inv_def unique_make_def)

lemma unique_move_inv:
  assumes "unique_inv s" "i < length (un_handles s)"
  shows "unique_inv (unique_move i s)"
proof -
  have "count_list ((un_handles s @ [un_handles s ! i])[i := None]) (Some p) = count_list (un_handles s) (Some p)" for p
    using count_list_update [OF assms(2), of None "Some p"] assms(2)
    by (auto simp: list_update_append split: if_splits)
  then show ?thesis using assms(1) by (simp add: unique_inv_def unique_move_def)
qed

lemma unique_drop:
  assumes "unique_inv s" "i < length (un_handles s)"
  shows "\<exists>live. delete_object (un_handles s ! i) (un_live s) = Inr live \<and>
    unique_inv (s\<lparr>un_live := live, un_handles := (un_handles s)[i := None]\<rparr>)"
proof (cases "un_handles s ! i")
  case None
  then have "(un_handles s)[i := None] = un_handles s" by (metis list_update_id)
  then show ?thesis using None assms(1) by (simp add: delete_object_def unique_inv_def)
next
  case (Some p)
  have "0 < count_list (un_handles s) (Some p)" using Some assms(2) by (metis count_list_0_iff neq0_conv nth_mem)
  then have "p \<in> un_live s" using assms(1) unfolding unique_inv_def by (metis less_irrefl)
  moreover have "count_list ((un_handles s)[i := None]) (Some q) = (if q \<in> un_live s - {p} then 1 else 0)" for q
    using count_list_update [OF assms(2), of None "Some q"] assms(1) Some
    by (cases "q = p") (auto simp: unique_inv_def split: if_splits)
  ultimately show ?thesis using Some by (simp add: delete_object_def unique_inv_def)
qed

lemma unique_destroy_inv:
  assumes "unique_inv s" "i < length (un_handles s)"
  shows "\<exists>s'. unique_destroy i s = Inr s' \<and> unique_inv s'"
  using unique_drop [OF assms] by (auto simp: unique_destroy_def)

lemma unique_assign_move_inv:
  assumes "unique_inv s" "i < length (un_handles s)" "j < length (un_handles s)"
  shows "\<exists>s'. unique_assign_move i j s = Inr s' \<and> unique_inv s'"
proof (cases "i = j")
  case False
  obtain live where live: "delete_object (un_handles s ! i) (un_live s) = Inr live"
      "unique_inv (s\<lparr>un_live := live, un_handles := (un_handles s)[i := None]\<rparr>)"
    using unique_drop [OF assms(1,2)] by blast
  let ?h = "(un_handles s)[i := None]"
  let ?v = "un_handles s ! j"
  have v: "?h ! j = ?v" using False by simp
  have "count_list (?h[i := ?v, j := None]) (Some q) = count_list ?h (Some q)" for q
    using count_list_update [of i ?h ?v "Some q"] count_list_update [of j "?h[i := ?v]" None "Some q"] assms(2,3) False v
    by simp
  moreover have "?h[i := ?v, j := None] = (un_handles s)[i := ?v, j := None]" by simp
  ultimately have "unique_inv (s\<lparr>un_live := live, un_handles := (un_handles s)[i := ?v, j := None]\<rparr>)"
    using live(2) by (simp add: unique_inv_def)
  then show ?thesis using False live(1) by (simp add: unique_assign_move_def)
qed (use assms(1) in \<open>simp add: unique_assign_move_def\<close>)

section \<open>\<^verbatim>\<open>Shared\<close> counts its handles\<close>

definition shared_inv :: "shared_state \<Rightarrow> bool" where
  "shared_inv s \<longleftrightarrow> (\<forall>c. sh_cells s c = None \<longrightarrow> count_list (sh_handles s) (Some c) = 0) \<and>
     (\<forall>c v. sh_cells s c = Some v \<longrightarrow> 0 < count_list (sh_handles s) (Some c) \<and>
         m_number_of_refs v = int (count_list (sh_handles s) (Some c)) \<and> val_object v \<noteq> None)"

lemma shared_inv_cell:
  assumes "shared_inv s" "i < length (sh_handles s)" "sh_handles s ! i = Some c"
  obtains v where "sh_cells s c = Some v" "m_number_of_refs v = int (count_list (sh_handles s) (Some c))" "val_object v \<noteq> None"
proof -
  have "0 < count_list (sh_handles s) (Some c)" using assms(2,3) by (metis count_list_0_iff neq0_conv nth_mem)
  then show thesis using assms(1) that by (cases "sh_cells s c") (auto simp: shared_inv_def)
qed

lemma shared_make_inv:
  assumes "shared_inv s" "sh_cells s c = None"
  shows "shared_inv (shared_make c p s)"
proof -
  have "count_list (sh_handles s) (Some c) = 0" using assms by (auto simp: shared_inv_def)
  then show ?thesis
    using assms(1) by (auto simp: shared_inv_def shared_make_def value_new_def split: option.splits)
qed

lemma shared_copy_inv:
  assumes "shared_inv s" "i < length (sh_handles s)"
  shows "\<exists>s'. shared_copy i s = Inr s' \<and> shared_inv s'"
proof (cases "sh_handles s ! i")
  case None
  then show ?thesis using assms(1) by (auto simp: shared_copy_def shared_inv_def split: option.splits)
next
  case (Some c)
  then obtain v where v: "sh_cells s c = Some v" "m_number_of_refs v = int (count_list (sh_handles s) (Some c))" "val_object v \<noteq> None"
    using shared_inv_cell [OF assms] by blast
  let ?s = "s\<lparr>sh_handles := sh_handles s @ [Some c], sh_cells := (sh_cells s)(c \<mapsto> value_ref v)\<rparr>"
  have "shared_inv ?s" using assms(1) v by (auto simp: shared_inv_def value_ref_def split: option.splits)
  then show ?thesis using Some v(1) by (simp add: shared_copy_def Let_def)
qed

lemma shared_destroy_inv:
  assumes "shared_inv s" "i < length (sh_handles s)"
  shows "\<exists>s'. shared_destroy i s = Inr s' \<and> shared_inv s' \<and> sh_handles s' = (sh_handles s)[i := None]"
proof (cases "sh_handles s ! i")
  case None
  then have "(sh_handles s)[i := None] = sh_handles s" by (metis list_update_id)
  then show ?thesis using None assms(1) by (simp add: shared_destroy_def)
next
  case (Some c)
  then obtain v where v: "sh_cells s c = Some v" "m_number_of_refs v = int (count_list (sh_handles s) (Some c))" "val_object v \<noteq> None"
    using shared_inv_cell [OF assms] by blast
  let ?n = "count_list (sh_handles s) (Some c)"
  have cnt: "count_list ((sh_handles s)[i := None]) (Some d) = count_list (sh_handles s) (Some d) - (if d = c then 1 else 0)" for d
    using count_list_update [OF assms(2), of None "Some d"] Some by (auto split: if_splits)
  have pos: "0 < ?n" using Some assms(2) by (metis count_list_0_iff neq0_conv nth_mem)
  let ?s = "s\<lparr>sh_cells := (sh_cells s)(c := if ?n = 1 then None else Some (v\<lparr>m_number_of_refs := int ?n - 1\<rparr>)),
    sh_handles := (sh_handles s)[i := None]\<rparr>"
  have "shared_destroy i s = Inr ?s"
    using Some v pos by (auto simp: shared_destroy_def value_deref_def Let_def fun_upd_def)
  moreover have "shared_inv ?s"
  proof (cases "?n = 1")
    case True
    then show ?thesis using assms(1) v cnt by (auto simp: shared_inv_def)
  next
    case False
    then have "0 < ?n - 1" "int (?n - 1) = int ?n - 1" using pos by simp_all
    then show ?thesis using False assms(1) v cnt by (auto simp: shared_inv_def)
  qed
  ultimately show ?thesis by simp
qed

section \<open>Properties\<close>

text \<open>
  C10. In every state a program over \<^verbatim>\<open>RefPtr\<close> handles can reach, the counter of an object is
  the number of handles that point to it, and exactly the objects with a handle are live:
  nothing leaks and no handle dangles.  Every next operation runs without touching a
  deleted object.
\<close>

theorem ref_counts_exact:
  assumes "ref_reachable s"
  shows "(\<forall>p. rs_objects s p = (if Some p \<in> set (rs_handles s)
            then Some (of_nat (count_list (rs_handles s) (Some p))) else None)) \<and>
    (\<forall>oper. ref_op_ok oper s \<longrightarrow> Suc (length (rs_handles s)) < 2 ^ 32 \<longrightarrow>
       (\<exists>s'. ref_exec oper s = Inr s' \<and> ref_reachable s'))"
proof -
  have exact: "counters_exact s" using ref_reachable_exact [OF assms] .
  have "rs_objects s p = (if Some p \<in> set (rs_handles s) then Some (of_nat (count_list (rs_handles s) (Some p))) else None)" for p
    using exact count_list_0_iff [of "rs_handles s" "Some p"] by (simp add: counters_exact_def owners_def)
  moreover have "\<exists>s'. ref_exec oper s = Inr s' \<and> ref_reachable s'"
    if "ref_op_ok oper s" "Suc (length (rs_handles s)) < 2 ^ 32" for oper
    using ref_exec_exact [OF exact that] ref_reachable.step [OF assms that] by blast
  ultimately show ?thesis by blast
qed

lemma ref_reachable_demo: "ref_reachable \<lparr>rs_objects = [7 \<mapsto> 2], rs_handles = [Some 7, Some 7]\<rparr>"
proof -
  have "ref_reachable \<lparr>rs_objects = [7 \<mapsto> 1], rs_handles = [Some 7]\<rparr>"
    using ref_reachable.step [OF ref_reachable.start, of "Create 7"]
    by (simp add: ref_start_def rp_create_def rp_of_ptr_def ref_if_def ref_object_def)
  from ref_reachable.step [OF this, of "Copy 0"] show ?thesis
    by (simp add: rp_copy_def ref_if_def ref_object_def Let_def)
qed

theorem ref_counts_exact_witness:
  "\<exists>s. ref_exec (Destroy 0) \<lparr>rs_objects = [7 \<mapsto> 2], rs_handles = [Some 7, Some 7]\<rparr> = Inr s \<and> ref_reachable s"
  using conjunct2 [OF ref_counts_exact [OF ref_reachable_demo], rule_format, of "Destroy 0"] by simp

end
