(* ===== verification/Fat.thy ===== *)
theory Fat
  imports FileTables ByteViews
begin

text \<open>
  The FAT32 file system, \<^verbatim>\<open>Kernel/FileSystem/FATFS\<close>, on the cached block device of
  \<^verbatim>\<open>BlockBackedFileSystem.h\<close>.  The packed structures are decoded from their bytes; the device
  is the function \<^verbatim>\<open>read_poll\<close> of an offset and a size.  \<^verbatim>\<open>fat_byte\<close> and \<^verbatim>\<open>dir_items\<close> say what
  the data on the device mean in terms of their bytes alone, and the properties compare the code with them.
\<close>

section \<open>\<^verbatim>\<open>FAT.h\<close>\<close>

record BootSector =
  bs_jump :: "u8 list"
  bs_oem :: "u8 list"
  bs_bytes_per_sector :: u16
  bs_sectors_per_cluster :: u8
  bs_reserved_sectors :: u16
  bs_fat_count :: u8
  bs_root_entries :: u16
  bs_total_sectors :: u16
  bs_media :: u8
  bs_sectors_per_fat :: u16
  bs_sectors_per_track :: u16
  bs_heads :: u16
  bs_hidden_sectors :: u32
  bs_total_sectors_large :: u32

definition boot_sector :: "u8 list \<Rightarrow> BootSector" where
  "boot_sector d = \<lparr>bs_jump = byte_field 0 3 d, bs_oem = byte_field 3 8 d, bs_bytes_per_sector = field 11 2 d,
     bs_sectors_per_cluster = field 13 1 d, bs_reserved_sectors = field 14 2 d, bs_fat_count = field 16 1 d,
     bs_root_entries = field 17 2 d, bs_total_sectors = field 19 2 d, bs_media = field 21 1 d,
     bs_sectors_per_fat = field 22 2 d, bs_sectors_per_track = field 24 2 d, bs_heads = field 26 2 d,
     bs_hidden_sectors = field 28 4 d, bs_total_sectors_large = field 32 4 d\<rparr>"

record BootSector32 = BootSector +
  bs_sectors_per_fat32 :: u32
  bs_flags :: u16
  bs_version :: u16
  bs_root_cluster :: u32
  bs_fsinfo_sector :: u16
  bs_backup_boot :: u16
  bs_reserved :: "u8 list"
  bs_drive_number :: u8
  bs_reserved1 :: u8
  bs_signature :: u8
  bs_volume_id :: u32
  bs_volume_label :: "u8 list"
  bs_system_id :: "u8 list"

definition boot_sector32 :: "u8 list \<Rightarrow> BootSector32" where
  "boot_sector32 d = BootSector.extend (boot_sector d)
     (BootSector32.fields (field 36 4 d) (field 40 2 d) (field 42 2 d) (field 44 4 d) (field 48 2 d) (field 50 2 d)
       (byte_field 52 12 d) (field 64 1 d) (field 65 1 d) (field 66 1 d) (field 67 4 d) (byte_field 71 11 d) (byte_field 82 8 d))"

record FATEntry =
  fe_value :: u32
  fe_reserved :: u32

definition fat_entry :: "u8 list \<Rightarrow> FATEntry" where
  "fat_entry d = (let w = field 0 4 d :: u32 in \<lparr>fe_value = take_bit 28 w, fe_reserved = drop_bit 28 w\<rparr>)"

definition is_end_of_chain :: "FATEntry \<Rightarrow> bool" where
  "is_end_of_chain e = (fe_value e \<ge> 0x0FFFFFF8)"

definition fat_entry_is_free :: "FATEntry \<Rightarrow> bool" where
  "fat_entry_is_free e = (fe_value e = 0)"

definition ATTR_ReadOnly :: u8 where "ATTR_ReadOnly = 0x01"
definition ATTR_Hidden :: u8 where "ATTR_Hidden = 0x02"
definition ATTR_System :: u8 where "ATTR_System = 0x04"
definition ATTR_VolumeID :: u8 where "ATTR_VolumeID = 0x08"
definition ATTR_Directory :: u8 where "ATTR_Directory = 0x10"
definition ATTR_Archive :: u8 where "ATTR_Archive = 0x20"
definition ATTR_LongName :: u8 where
  "ATTR_LongName = ATTR_ReadOnly OR ATTR_Hidden OR ATTR_System OR ATTR_VolumeID"

record LongDirectoryEntry =
  le_order :: u8
  le_name1 :: "u16 list"
  le_attributes :: u8
  le_type :: u8
  le_checksum :: u8
  le_name2 :: "u16 list"
  le_first_cluster :: u16
  le_name3 :: "u16 list"

definition units :: "nat \<Rightarrow> nat \<Rightarrow> u8 list \<Rightarrow> u16 list" where
  "units off n d = map (\<lambda>i. field (off + 2 * i) 2 d) [0..<n]"

definition long_entry :: "u8 list \<Rightarrow> LongDirectoryEntry" where
  "long_entry d = \<lparr>le_order = field 0 1 d, le_name1 = units 1 5 d, le_attributes = field 11 1 d, le_type = field 12 1 d,
     le_checksum = field 13 1 d, le_name2 = units 14 6 d, le_first_cluster = field 26 2 d, le_name3 = units 28 2 d\<rparr>"

definition is_final_entry :: "LongDirectoryEntry \<Rightarrow> bool" where
  "is_final_entry e = (le_order e AND 0x40 \<noteq> 0)"

definition long_is_free :: "LongDirectoryEntry \<Rightarrow> bool" where
  "long_is_free e = (le_order e AND 0x00 \<noteq> 0)"

record DirectoryEntry =
  de_name :: "u8 list"
  de_attributes :: u8
  de_reserved :: u8
  de_creation_time_tenths :: u8
  de_creation_time :: u16
  de_creation_date :: u16
  de_last_access_date :: u16
  de_first_cluster_high :: u16
  de_last_write_time :: u16
  de_last_write_date :: u16
  de_first_cluster_low :: u16
  de_size :: u32

definition directory_entry :: "u8 list \<Rightarrow> DirectoryEntry" where
  "directory_entry d = \<lparr>de_name = byte_field 0 11 d, de_attributes = field 11 1 d, de_reserved = field 12 1 d,
     de_creation_time_tenths = field 13 1 d, de_creation_time = field 14 2 d, de_creation_date = field 16 2 d,
     de_last_access_date = field 18 2 d, de_first_cluster_high = field 20 2 d, de_last_write_time = field 22 2 d,
     de_last_write_date = field 24 2 d, de_first_cluster_low = field 26 2 d, de_size = field 28 4 d\<rparr>"

definition de_is_free :: "DirectoryEntry \<Rightarrow> bool" where
  "de_is_free e = (de_name e ! 0 = 0xE5 \<or> de_name e ! 0 = 0)"

text \<open>
  \<^verbatim>\<open>attributes & LongName == LongName\<close>: the comparison binds tighter, so the test is of
  the lowest bit, the one for read-only entries.
\<close>

definition attr_is_directory :: "u8 \<Rightarrow> bool" where "attr_is_directory a = (a AND ATTR_Directory \<noteq> 0)"
definition attr_is_long_name :: "u8 \<Rightarrow> bool" where
  "attr_is_long_name a = (a AND (if ATTR_LongName = ATTR_LongName then 1 else 0) \<noteq> 0)"
definition attr_is_volume_id :: "u8 \<Rightarrow> bool" where "attr_is_volume_id a = (a AND ATTR_VolumeID \<noteq> 0)"
definition attr_is_system :: "u8 \<Rightarrow> bool" where "attr_is_system a = (a AND ATTR_System \<noteq> 0)"
definition attr_is_hidden :: "u8 \<Rightarrow> bool" where "attr_is_hidden a = (a AND ATTR_Hidden \<noteq> 0)"
definition attr_is_read_only :: "u8 \<Rightarrow> bool" where "attr_is_read_only a = (a AND ATTR_ReadOnly \<noteq> 0)"
definition attr_is_archive :: "u8 \<Rightarrow> bool" where "attr_is_archive a = (a AND ATTR_Archive \<noteq> 0)"

definition de_is_long_name :: "DirectoryEntry \<Rightarrow> bool" where
  "de_is_long_name e = attr_is_long_name (de_attributes e)"

record FullDirectoryEntry =
  fd_name :: cstr
  fd_size :: u32
  fd_first_cluster :: u32
  fd_attributes :: u8
  fd_creation_time_tenths :: u8
  fd_creation_time :: u16
  fd_creation_date :: u16
  fd_last_access_date :: u16
  fd_last_write_time :: u16
  fd_last_write_date :: u16

definition filled_from :: "cstr \<Rightarrow> DirectoryEntry \<Rightarrow> FullDirectoryEntry" where
  "filled_from name e = \<lparr>fd_name = name, fd_size = de_size e,
     fd_first_cluster = push_bit 16 (ucast (de_first_cluster_high e)) OR ucast (de_first_cluster_low e),
     fd_attributes = de_attributes e, fd_creation_time_tenths = de_creation_time_tenths e,
     fd_creation_time = de_creation_time e, fd_creation_date = de_creation_date e,
     fd_last_access_date = de_last_access_date e, fd_last_write_time = de_last_write_time e,
     fd_last_write_date = de_last_write_date e\<rparr>"

section \<open>The block cache\<close>

record DataBlock =
  db_data :: "u8 list"
  db_size :: size_t
  db_block_number :: size_t

text \<open>\<^verbatim>\<open>m_cache\<close> is the list its \<^verbatim>\<open>LinkedList\<close> holds, newest first.\<close>

type_synonym block_cache = "DataBlock list"

definition MaxCacheSize :: nat where
  "MaxCacheSize = 16"

definition evict_block :: "block_cache \<Rightarrow> block_cache" where
  "evict_block c = c"

definition cache_block :: "block_cache \<Rightarrow> DataBlock \<Rightarrow> block_cache" where
  "cache_block c block = (let c = (if length c \<ge> MaxCacheSize then evict_block c else c) in block # c)"

definition get_block_from_cache :: "block_cache \<Rightarrow> size_t \<Rightarrow> DataBlock error_or" where
  "get_block_from_cache c block_number =
     (case List.find (\<lambda>b. db_block_number b = block_number) c of
        Some b \<Rightarrow> Inr b | None \<Rightarrow> Inl (create_from_string ''Block not found''))"

section \<open>\<^verbatim>\<open>FATFileSystem\<close>\<close>

datatype FATType = FAT12 | FAT16 | FAT32

text \<open>\<^verbatim>\<open>read_poll n offset\<close> of the device gives the bytes it wrote to the buffer.\<close>

type_synonym device_read = "size_t \<Rightarrow> size_t \<Rightarrow> u8 list error_or"

record FATFileSystem =
  fs_type :: FATType
  fs_boot_sector :: BootSector32
  fs_root :: FullDirectoryEntry
  fs_block_size :: size_t
  fs_bytes_per_cluster :: size_t
  fs_reserved_and_fat_offset :: size_t
  fs_fat_start_offset :: size_t
  fs_number_of_fat_blocks :: size_t
  fs_cache :: block_cache

text \<open>Products of the small fields are computed as \<^verbatim>\<open>int\<close>, those with \<^verbatim>\<open>sectors_per_fat32\<close> as \<^verbatim>\<open>u32\<close>.\<close>

definition bytes_per_cluster :: "BootSector32 \<Rightarrow> size_t" where
  "bytes_per_cluster b = scast (ucast (bs_sectors_per_cluster b) * ucast (bs_bytes_per_sector b) :: u32)"

definition fat_fields :: "BootSector32 \<Rightarrow> FATFileSystem exec" where
  "fat_fields b =
     (let per_cluster = bytes_per_cluster b;
          fat_start = scast (ucast (bs_reserved_sectors b) * ucast (bs_bytes_per_sector b) :: u32);
          fat_bytes = ucast (ucast (bs_fat_count b) * bs_sectors_per_fat32 b * ucast (bs_bytes_per_sector b) :: u32);
          offset = fat_start + fat_bytes in
      if per_cluster = 0 then Inl DivideByZero
      else Inr \<lparr>fs_type = FAT32, fs_boot_sector = b,
        fs_root = (filled_from [] (directory_entry []))\<lparr>fd_attributes := ATTR_Directory, fd_first_cluster := bs_root_cluster b\<rparr>,
        fs_block_size = bytes_per_cluster b, fs_bytes_per_cluster = per_cluster,
        fs_reserved_and_fat_offset = offset, fs_fat_start_offset = fat_start,
        fs_number_of_fat_blocks = (offset - fat_start) div per_cluster, fs_cache = []\<rparr>)"

definition fat_root :: "FATFileSystem \<Rightarrow> FullDirectoryEntry error_or" where
  "fat_root fs = Inr (fs_root fs)"

definition fat_exists :: "FATFileSystem \<Rightarrow> cstr \<Rightarrow> bool" where
  "fat_exists fs path = False"

definition read_block_poll :: "device_read \<Rightarrow> FATFileSystem \<Rightarrow> size_t \<Rightarrow> DataBlock error_or \<times> FATFileSystem" where
  "read_block_poll dev fs block_number =
     (case get_block_from_cache (fs_cache fs) block_number of
        Inr b \<Rightarrow> (Inr b, fs\<lparr>fs_cache := cache_block (fs_cache fs) b\<rparr>)
      | Inl _ \<Rightarrow>
          (case dev (fs_block_size fs) (fs_fat_start_offset fs + block_number * fs_block_size fs) of
             Inl e \<Rightarrow> (Inl e, fs)
           | Inr d \<Rightarrow>
               (let block = \<lparr>db_data = d, db_size = fs_block_size fs, db_block_number = block_number\<rparr> in
                (Inr block, fs\<lparr>fs_cache := cache_block (fs_cache fs) block\<rparr>))))"

definition read_cluster_poll :: "device_read \<Rightarrow> FATFileSystem \<Rightarrow> size_t \<Rightarrow> DataBlock error_or \<times> FATFileSystem" where
  "read_cluster_poll dev fs cluster = (let block_number = fs_number_of_fat_blocks fs + cluster - 2 in read_block_poll dev fs block_number)"

definition get_fat_entry :: "device_read \<Rightarrow> FATFileSystem \<Rightarrow> u32 \<Rightarrow> (FATEntry error_or \<times> FATFileSystem) exec" where
  "get_fat_entry dev fs index =
     (let entry_offset_in_fat = ucast index * 4 :: size_t in
      if fs_block_size fs = 0 then Inl DivideByZero
      else
        (let fat_block = entry_offset_in_fat div fs_block_size fs; entry_offset_in_block = entry_offset_in_fat mod fs_block_size fs in
         case read_block_poll dev fs fat_block of
           (Inl e, fs) \<Rightarrow> Inr (Inl e, fs)
         | (Inr block, fs) \<Rightarrow>
             if unat entry_offset_in_block + 4 \<le> length (db_data block)
             then Inr (Inr (fat_entry (drop (unat entry_offset_in_block) (db_data block))), fs)
             else Inl OutOfBounds))"

definition get_root_directory :: "device_read \<Rightarrow> FATFileSystem \<Rightarrow> (u8 list error_or \<times> FATFileSystem) exec" where
  "get_root_directory dev fs =
     (if fs_type fs \<noteq> FAT32 then Inr (Inl (create_from_string ''Only FAT32 is supported''), fs)
      else (case read_cluster_poll dev fs (ucast (bs_root_cluster (fs_boot_sector fs))) of
          (Inl e, fs) \<Rightarrow> Inr (Inl e, fs)
        | (Inr cluster, fs) \<Rightarrow>
            (let n = unat (ucast (fs_bytes_per_cluster fs) :: u32) in
             if n \<le> length (db_data cluster) then Inr (Inr (take n (db_data cluster)), fs) else Inl OutOfBounds)))"

text \<open>The constructor also reads the root directory, and only prints when that fails.\<close>

definition fat_fs_new :: "device_read \<Rightarrow> BootSector32 \<Rightarrow> FATFileSystem exec" where
  "fat_fs_new dev b = exec_bind (fat_fields b) (\<lambda>fs. exec_bind (get_root_directory dev fs) (\<lambda>(_, fs). Inr fs))"

definition fat_try_create :: "device_read \<Rightarrow> FATFileSystem error_or exec" where
  "fat_try_create dev =
     (case dev 512 0 of Inl e \<Rightarrow> Inr (Inl e)
      | Inr buffer \<Rightarrow>
          (let fat32 = boot_sector32 buffer; bps = ucast (bs_bytes_per_sector fat32) :: u32 in
           if bps = 0 then Inl DivideByZero
           else
             (let root_dir_sectors = (ucast (bs_root_entries fat32) * 32 + (bps - 1)) div bps;
                  sectors_per_fat = (if bs_sectors_per_fat fat32 \<noteq> 0 then ucast (bs_sectors_per_fat fat32) else bs_sectors_per_fat32 fat32);
                  total_sectors = (if bs_total_sectors fat32 \<noteq> 0 then ucast (bs_total_sectors fat32) else bs_total_sectors_large fat32);
                  data_sectors = total_sectors - (ucast (bs_reserved_sectors fat32) + ucast (bs_fat_count fat32) * sectors_per_fat + root_dir_sectors) in
              if bs_sectors_per_cluster fat32 = 0 then Inl DivideByZero
              else
                (let count_of_clusters = data_sectors div ucast (bs_sectors_per_cluster fat32) :: u32 in
                 if count_of_clusters < 4085 then Inr (Inl (create_from_string ''FAT12 is not supported''))
                 else if count_of_clusters < 65525 then Inr (Inl (create_from_string ''FAT16 is not supported''))
                 else exec_bind (fat_fs_new dev fat32) (\<lambda>fs. Inr (Inr fs))))))"

text \<open>\<^verbatim>\<open>VirtualFileSystem::device_load_filesystem\<close>, for a device that is a block device or not.\<close>

definition device_load_filesystem :: "bool \<Rightarrow> device_read \<Rightarrow> FATFileSystem error_or exec" where
  "device_load_filesystem is_block dev =
     (if \<not> is_block then Inr (Inl (create_from_string ''Device is not a block device!'')) else fat_try_create dev)"

section \<open>\<^verbatim>\<open>FATInode\<close>: directories\<close>

definition entry_bytes :: "u8 list \<Rightarrow> nat \<Rightarrow> u8 list exec" where
  "entry_bytes d i = (if 32 * i + 32 \<le> length d then Inr (take 32 (drop (32 * i) d)) else Inl OutOfBounds)"

text \<open>The three loops over the name of a long entry; each stops at a terminator of its own.\<close>

definition name_units :: "u16 list \<Rightarrow> cstr" where
  "name_units us = map (\<lambda>u. ucast (u AND 0xFF)) (takeWhile (\<lambda>u. u \<noteq> 0 \<and> u \<noteq> 0xFFFF) us)"

definition long_name_part :: "LongDirectoryEntry \<Rightarrow> cstr" where
  "long_name_part e = name_units (le_name1 e) @ name_units (le_name2 e) @ name_units (le_name3 e)"

text \<open>The loop over the long entries from index \<^verbatim>\<open>i\<close> on gives the name and the index of the last one.\<close>

partial_function (option) long_name_loop :: "u8 list \<Rightarrow> nat \<Rightarrow> cstr \<Rightarrow> (cstr \<times> nat) run" where
  "long_name_loop d i entry_name =
     (case entry_bytes d i of Inl f \<Rightarrow> Some (Inl f)
      | Inr b \<Rightarrow>
          (let e = long_entry b; entry_name = long_name_part e @ entry_name in
           if is_final_entry e \<or> long_is_free e then Some (Inr (entry_name, i)) else long_name_loop d (Suc i) entry_name))"

partial_function (option) get_child_loop :: "u8 list \<Rightarrow> nat \<Rightarrow> nat \<Rightarrow> cstr \<Rightarrow> FullDirectoryEntry error_or run" where
  "get_child_loop d n i name =
     (if i < n then
        (case entry_bytes d i of Inl f \<Rightarrow> Some (Inl f)
         | Inr b \<Rightarrow>
             if de_is_free (directory_entry b) then get_child_loop d n (Suc i) name
             else if de_is_long_name (directory_entry b) then
               (case long_name_loop d i [] of None \<Rightarrow> None | Some (Inl f) \<Rightarrow> Some (Inl f)
                | Some (Inr (entry_name, j)) \<Rightarrow>
                    (case entry_bytes d (Suc j) of Inl f \<Rightarrow> Some (Inl f)
                     | Inr b \<Rightarrow>
                         if de_is_long_name (directory_entry b)
                         then Some (Inr (Inl (create_from_string ''Corrupt directory: Last Long name entry not followed by standard entry'')))
                         else if entry_name = name then Some (Inr (Inr (filled_from entry_name (directory_entry b))))
                         else get_child_loop d n (Suc (Suc j)) name))
             else if de_name (directory_entry b) = name then Some (Inr (Inr (filled_from (de_name (directory_entry b)) (directory_entry b))))
             else get_child_loop d n (Suc i) name)
      else Some (Inr (Inl (create_from_string ''Child not found''))))"

partial_function (option) list_dir_loop :: "u8 list \<Rightarrow> nat \<Rightarrow> nat \<Rightarrow> cstr list \<Rightarrow> cstr list run" where
  "list_dir_loop d n i entries =
     (if i < n then
        (case entry_bytes d i of Inl f \<Rightarrow> Some (Inl f)
         | Inr b \<Rightarrow>
             if de_is_free (directory_entry b) then list_dir_loop d n (Suc i) entries
             else if de_is_long_name (directory_entry b) then
               (case long_name_loop d i [] of None \<Rightarrow> None | Some (Inl f) \<Rightarrow> Some (Inl f)
                | Some (Inr (entry_name, j)) \<Rightarrow> list_dir_loop d n (Suc (Suc j)) (entries @ [entry_name]))
             else list_dir_loop d n (Suc i) (entries @ [de_name (directory_entry b)]))
      else Some (Inr entries))"

text \<open>\<^verbatim>\<open>FATFileSystem::get_name\<close>, on the entries that start at \<^verbatim>\<open>d\<close>.\<close>

definition get_name :: "u8 list \<Rightarrow> cstr run" where
  "get_name d =
     (case entry_bytes d 0 of Inl f \<Rightarrow> Some (Inl f)
      | Inr b \<Rightarrow>
          if \<not> de_is_long_name (directory_entry b) then Some (Inr (de_name (directory_entry b)))
          else run_bind (long_name_loop d 0 []) (\<lambda>(name, _). Some (Inr name)))"

definition fat_get_child :: "device_read \<Rightarrow> FATFileSystem \<Rightarrow> FullDirectoryEntry \<Rightarrow> cstr \<Rightarrow> (FullDirectoryEntry error_or \<times> FATFileSystem) run" where
  "fat_get_child dev fs entry name =
     (if \<not> attr_is_directory (fd_attributes entry) then Some (Inr (Inl (create_from_string ''Not a directory''), fs))
      else (case read_cluster_poll dev fs (ucast (fd_first_cluster entry)) of
          (Inl e, fs) \<Rightarrow> Some (Inr (Inl e, fs))
        | (Inr block, fs) \<Rightarrow> run_bind (get_child_loop (db_data block) (unat (fs_block_size fs div 32)) 0 name) (\<lambda>r. Some (Inr (r, fs)))))"

definition fat_list_dir :: "device_read \<Rightarrow> FATFileSystem \<Rightarrow> FullDirectoryEntry \<Rightarrow> (cstr list error_or \<times> FATFileSystem) run" where
  "fat_list_dir dev fs entry =
     (if \<not> attr_is_directory (fd_attributes entry) then Some (Inr (Inl (create_from_string ''Not a directory''), fs))
      else (case read_cluster_poll dev fs (ucast (fd_first_cluster entry)) of
          (Inl e, fs) \<Rightarrow> Some (Inr (Inl e, fs))
        | (Inr block, fs) \<Rightarrow> run_bind (list_dir_loop (db_data block) (unat (fs_block_size fs div 32)) 0 []) (\<lambda>r. Some (Inr (Inr r, fs)))))"

definition fat_is_directory :: "FullDirectoryEntry \<Rightarrow> bool" where
  "fat_is_directory entry = attr_is_directory (fd_attributes entry)"

definition fat_is_file :: "FullDirectoryEntry \<Rightarrow> bool" where
  "fat_is_file entry = (\<not> fat_is_directory entry)"

section \<open>\<^verbatim>\<open>FATInode::read\<close>\<close>

text \<open>The loop over the clusters before the offset.\<close>

fun skip_clusters :: "device_read \<Rightarrow> FATFileSystem \<Rightarrow> nat \<Rightarrow> u32 \<Rightarrow> (u32 error_or \<times> FATFileSystem) exec" where
  "skip_clusters dev fs 0 current_cluster = Inr (Inr current_cluster, fs)"
| "skip_clusters dev fs (Suc k) current_cluster =
     exec_bind (get_fat_entry dev fs current_cluster) (\<lambda>(r, fs).
       case r of Inl e \<Rightarrow> Inr (Inl e, fs)
       | Inr cluster_entry \<Rightarrow>
           if is_end_of_chain cluster_entry
           then Inr (Inl (create_from_string ''Corrupt FAT chain: Reached EOF before offset''), fs)
           else skip_clusters dev fs k (fe_value cluster_entry))"

text \<open>\<^verbatim>\<open>buffer\<close> collects the bytes copied, so that its length is \<^verbatim>\<open>bytes_read\<close>.\<close>

partial_function (option) fat_read_loop ::
    "device_read \<Rightarrow> FATFileSystem \<Rightarrow> size_t \<Rightarrow> size_t \<Rightarrow> u8 list \<Rightarrow> size_t \<Rightarrow> u32 \<Rightarrow> (u8 list error_or \<times> FATFileSystem) run" where
  "fat_read_loop dev fs n initial_cluster_offset buffer bytes_read current_cluster =
     (if bytes_read < n then
        (case read_cluster_poll dev fs (ucast current_cluster) of
           (Inl e, fs) \<Rightarrow> Some (Inr (Inl e, fs))
         | (Inr block, fs) \<Rightarrow>
             (let offset_in_cluster = (if bytes_read = 0 then initial_cluster_offset else 0);
                  available_bytes_in_cluster = fs_bytes_per_cluster fs - offset_in_cluster;
                  bytes_to_read = min (n - bytes_read) available_bytes_in_cluster;
                  k = unat (ucast bytes_to_read :: u32) in
              if unat offset_in_cluster + k \<le> length (db_data block) then
                (let buffer = buffer @ take k (drop (unat offset_in_cluster) (db_data block)); bytes_read = bytes_read + bytes_to_read in
                 if bytes_read < n then
                   (case get_fat_entry dev fs current_cluster of
                      Inl f \<Rightarrow> Some (Inl f)
                    | Inr (Inl e, fs) \<Rightarrow> Some (Inr (Inl e, fs))
                    | Inr (Inr cluster_entry, fs) \<Rightarrow>
                        if is_end_of_chain cluster_entry then Some (Inr (Inr buffer, fs))
                        else fat_read_loop dev fs n initial_cluster_offset buffer bytes_read (fe_value cluster_entry))
                 else Some (Inr (Inr buffer, fs)))
              else Some (Inl OutOfBounds)))
      else Some (Inr (Inr buffer, fs)))"

definition fat_read :: "device_read \<Rightarrow> FATFileSystem \<Rightarrow> FullDirectoryEntry \<Rightarrow> size_t \<Rightarrow> size_t \<Rightarrow> (u8 list error_or \<times> FATFileSystem) run" where
  "fat_read dev fs entry n offset =
     (if offset \<ge> ucast (fd_size entry) then Some (Inr (Inr [], fs))
      else
        (let n = (if offset + n > ucast (fd_size entry) then ucast (fd_size entry) - offset else n);
             cluster_size_in_bytes = fs_bytes_per_cluster fs in
         if cluster_size_in_bytes = 0 then Some (Inl DivideByZero)
         else
           (case skip_clusters dev fs (unat (offset div cluster_size_in_bytes)) (fd_first_cluster entry) of
              Inl f \<Rightarrow> Some (Inl f)
            | Inr (Inl e, fs) \<Rightarrow> Some (Inr (Inl e, fs))
            | Inr (Inr current_cluster, fs) \<Rightarrow>
                fat_read_loop dev fs n (offset mod cluster_size_in_bytes) [] 0 current_cluster)))"

section \<open>The cache does not show\<close>

definition cache_ok :: "device_read \<Rightarrow> FATFileSystem \<Rightarrow> bool" where
  "cache_ok dev fs \<longleftrightarrow> (\<forall>b \<in> set (fs_cache fs). db_size b = fs_block_size fs \<and>
     dev (fs_block_size fs) (fs_fat_start_offset fs + db_block_number b * fs_block_size fs) = Inr (db_data b))"

definition direct_block :: "device_read \<Rightarrow> FATFileSystem \<Rightarrow> size_t \<Rightarrow> DataBlock error_or" where
  "direct_block dev fs n =
     (case dev (fs_block_size fs) (fs_fat_start_offset fs + n * fs_block_size fs) of Inl e \<Rightarrow> Inl e
      | Inr d \<Rightarrow> Inr \<lparr>db_data = d, db_size = fs_block_size fs, db_block_number = n\<rparr>)"

abbreviation with_cache :: "FATFileSystem \<Rightarrow> block_cache \<Rightarrow> FATFileSystem" where
  "with_cache fs c \<equiv> fs\<lparr>fs_cache := c\<rparr>"

lemma read_block_transparent:
  assumes "cache_ok dev fs"
  obtains c where "read_block_poll dev fs n = (direct_block dev fs n, with_cache fs c)" "cache_ok dev (with_cache fs c)"
proof (cases "get_block_from_cache (fs_cache fs) n")
  case (Inr b)
  then have b: "b \<in> set (fs_cache fs)" "db_block_number b = n"
    by (auto simp: get_block_from_cache_def find_Some_iff split: option.splits)
  then have "direct_block dev fs n = Inr b" using assms by (cases b) (auto simp: cache_ok_def direct_block_def)
  moreover have "cache_ok dev (with_cache fs (cache_block (fs_cache fs) b))"
    using assms b(1) by (auto simp: cache_ok_def cache_block_def evict_block_def)
  ultimately show ?thesis using that Inr by (simp add: read_block_poll_def)
next
  case (Inl e)
  show ?thesis
  proof (cases "dev (fs_block_size fs) (fs_fat_start_offset fs + n * fs_block_size fs)")
    case (Inl e')
    have "with_cache fs (fs_cache fs) = fs" by simp
    then show ?thesis using that [of "fs_cache fs"] assms Inl \<open>get_block_from_cache (fs_cache fs) n = Inl e\<close>
      by (simp add: read_block_poll_def direct_block_def)
  next
    case (Inr d)
    let ?b = "\<lparr>db_data = d, db_size = fs_block_size fs, db_block_number = n\<rparr>"
    have "cache_ok dev (with_cache fs (cache_block (fs_cache fs) ?b))"
      using assms Inr by (auto simp: cache_ok_def cache_block_def evict_block_def)
    then show ?thesis using that Inr \<open>get_block_from_cache (fs_cache fs) n = Inl e\<close>
      by (simp add: read_block_poll_def direct_block_def Let_def)
  qed
qed

lemma direct_block_cache [simp]: "direct_block dev (with_cache fs c) n = direct_block dev fs n"
  by (simp add: direct_block_def split: sum.split)

section \<open>What the device holds\<close>

text \<open>The device of \<^verbatim>\<open>cap\<close> bytes delivers the bytes of \<^verbatim>\<open>disk\<close>.\<close>

definition serves :: "device_read \<Rightarrow> (nat \<Rightarrow> u8) \<Rightarrow> nat \<Rightarrow> bool" where
  "serves dev disk cap \<longleftrightarrow> cap < 2 ^ 63 \<and>
     (\<forall>n off. unat off + unat n \<le> cap \<longrightarrow> dev n off = Inr (map disk [unat off..<unat off + unat n]))"

definition geometry_ok :: "FATFileSystem \<Rightarrow> bool" where
  "geometry_ok fs \<longleftrightarrow> fs_bytes_per_cluster fs = fs_block_size fs \<and> 0 < unat (fs_block_size fs) \<and>
     unat (fs_block_size fs) mod 4 = 0 \<and> unat (fs_block_size fs) < 2 ^ 31"

abbreviation bsize :: "FATFileSystem \<Rightarrow> nat" where
  "bsize fs \<equiv> unat (fs_block_size fs)"

definition block_addr :: "FATFileSystem \<Rightarrow> nat \<Rightarrow> nat" where
  "block_addr fs k = unat (fs_fat_start_offset fs) + k * bsize fs"

definition block_in :: "FATFileSystem \<Rightarrow> nat \<Rightarrow> nat \<Rightarrow> bool" where
  "block_in fs cap k \<longleftrightarrow> block_addr fs (Suc k) \<le> cap"

definition cluster_block :: "FATFileSystem \<Rightarrow> u32 \<Rightarrow> nat" where
  "cluster_block fs c = unat (fs_number_of_fat_blocks fs) + unat c - 2"

lemma serves_block:
  assumes "serves dev disk cap" "block_in fs cap k" "unat n = k"
  shows "direct_block dev fs n = Inr \<lparr>db_data = map disk [block_addr fs k..<block_addr fs k + bsize fs],
     db_size = fs_block_size fs, db_block_number = n\<rparr>"
proof -
  have le: "unat (fs_fat_start_offset fs) + k * bsize fs + bsize fs \<le> cap"
    using assms(2) by (simp add: block_in_def block_addr_def)
  have cap: "cap < 9223372036854775808" using assms(1) by (simp add: serves_def)
  have "unat (n * fs_block_size fs) = k * bsize fs" using le cap assms(3) by (subst unat_mult_no_wrap) simp_all
  then have u: "unat (fs_fat_start_offset fs + n * fs_block_size fs) = block_addr fs k"
    using le cap by (subst unat_add_no_wrap) (simp_all add: block_addr_def)
  then have "unat (fs_fat_start_offset fs + n * fs_block_size fs) + bsize fs \<le> cap" using le by (simp add: block_addr_def)
  then show ?thesis using assms(1) u by (simp add: serves_def direct_block_def)
qed

definition fat_next :: "FATFileSystem \<Rightarrow> (nat \<Rightarrow> u8) \<Rightarrow> u32 \<Rightarrow> FATEntry" where
  "fat_next fs disk c = (let a = unat (fs_fat_start_offset fs) + 4 * unat c in fat_entry (map disk [a..<a + 4]))"

lemma fat_entry_take: "fat_entry d = fat_entry (take 4 d)"
  by (simp add: fat_entry_def field_def)

lemma map_upt_sub: "i + k \<le> n \<Longrightarrow> take k (drop i (map f [a..<a + n])) = map f [a + i..<a + i + k]"
  by (simp add: drop_map take_map)

lemma get_fat_entry_ok:
  assumes "serves dev disk cap" "cache_ok dev fs" "geometry_ok fs" "block_in fs cap (4 * unat c div bsize fs)"
  obtains ca where "get_fat_entry dev fs c = Inr (Inr (fat_next fs disk c), with_cache fs ca)" "cache_ok dev (with_cache fs ca)"
proof -
  have bs: "0 < bsize fs" "bsize fs mod 4 = 0" using assms(3) by (simp_all add: geometry_ok_def)
  have "unat c < 4294967296" using unsigned_less [of c, where ?'a = nat] by simp
  then have off: "unat (ucast c * 4 :: size_t) = 4 * unat c"
    by (subst unat_mult_no_wrap) (simp_all add: unsigned_ucast_eq take_bit_nat_eq_self)
  let ?k = "4 * unat c div bsize fs"
  have k: "unat ((ucast c * 4 :: size_t) div fs_block_size fs) = ?k" using off by (simp add: unat_div)
  have m: "unat ((ucast c * 4 :: size_t) mod fs_block_size fs) = 4 * unat c mod bsize fs" using off by (simp add: unat_mod)
  have nz: "fs_block_size fs \<noteq> 0" using bs(1) by auto
  obtain ca where ca: "read_block_poll dev fs ((ucast c * 4) div fs_block_size fs) =
      (direct_block dev fs ((ucast c * 4) div fs_block_size fs), with_cache fs ca)" "cache_ok dev (with_cache fs ca)"
    by (rule read_block_transparent [OF assms(2)])
  note blk = serves_block [OF assms(1,4) k]
  have fit: "4 * unat c mod bsize fs + 4 \<le> bsize fs"
  proof -
    obtain q where q: "bsize fs = 4 * q" using bs(2) by (auto simp: mod_eq_0_iff_dvd)
    then have "unat c mod q < q" using bs(1) by simp
    then show ?thesis unfolding q by (simp flip: mult_mod_right)
  qed
  have addr: "block_addr fs ?k + 4 * unat c mod bsize fs = unat (fs_fat_start_offset fs) + 4 * unat c"
    using div_mult_mod_eq [of "4 * unat c" "bsize fs"] by (simp add: block_addr_def)
  have "fat_entry (drop (4 * unat c mod bsize fs) (map disk [block_addr fs ?k..<block_addr fs ?k + bsize fs])) = fat_next fs disk c"
    unfolding fat_next_def Let_def
    by (subst fat_entry_take) (simp only: map_upt_sub [OF fit] addr)
  then have "get_fat_entry dev fs c = Inr (Inr (fat_next fs disk c), with_cache fs ca)"
    using ca(1) blk nz m fit by (simp add: get_fat_entry_def)
  then show ?thesis using that ca(2) by blast
qed

lemma read_cluster_ok:
  assumes "serves dev disk cap" "cache_ok dev fs" "block_in fs cap (cluster_block fs c)" "2 \<le> unat c"
    "unat (fs_number_of_fat_blocks fs) < 2 ^ 32"
  obtains b ca where "read_cluster_poll dev fs (ucast c) = (Inr b, with_cache fs ca)" "cache_ok dev (with_cache fs ca)"
    "db_data b = map disk [block_addr fs (cluster_block fs c)..<block_addr fs (cluster_block fs c) + bsize fs]"
proof -
  have "unat c < 4294967296" using unsigned_less [of c, where ?'a = nat] by simp
  then have "unat (fs_number_of_fat_blocks fs + ucast c :: size_t) = unat (fs_number_of_fat_blocks fs) + unat c"
    using assms(5) by (subst unat_add_no_wrap) (simp_all add: unsigned_ucast_eq take_bit_nat_eq_self)
  then have k: "unat (fs_number_of_fat_blocks fs + ucast c - 2 :: size_t) = cluster_block fs c"
    using assms(4) by (simp add: cluster_block_def unat_sub word_le_nat_alt)
  obtain ca where "read_block_poll dev fs (fs_number_of_fat_blocks fs + ucast c - 2) =
      (direct_block dev fs (fs_number_of_fat_blocks fs + ucast c - 2), with_cache fs ca)" "cache_ok dev (with_cache fs ca)"
    by (rule read_block_transparent [OF assms(2)])
  then show ?thesis using that serves_block [OF assms(1,3) k] by (simp add: read_cluster_poll_def)
qed

section \<open>Reading a file\<close>

fun nth_cluster :: "FATFileSystem \<Rightarrow> (nat \<Rightarrow> u8) \<Rightarrow> u32 \<Rightarrow> nat \<Rightarrow> u32" where
  "nth_cluster fs disk c 0 = c"
| "nth_cluster fs disk c (Suc k) = fe_value (fat_next fs disk (nth_cluster fs disk c k))"

text \<open>The byte at position \<^verbatim>\<open>p\<close> of the file whose first cluster is \<^verbatim>\<open>c\<close>.\<close>

definition fat_byte :: "FATFileSystem \<Rightarrow> (nat \<Rightarrow> u8) \<Rightarrow> u32 \<Rightarrow> nat \<Rightarrow> u8" where
  "fat_byte fs disk c p = disk (block_addr fs (cluster_block fs (nth_cluster fs disk c (p div bsize fs))) + p mod bsize fs)"

text \<open>The chain from \<^verbatim>\<open>c\<close> has \<^verbatim>\<open>k\<close> links, and its clusters and their entries lie on the device.\<close>

definition chain_ok :: "FATFileSystem \<Rightarrow> (nat \<Rightarrow> u8) \<Rightarrow> nat \<Rightarrow> u32 \<Rightarrow> nat \<Rightarrow> bool" where
  "chain_ok fs disk cap c k \<longleftrightarrow> unat (fs_number_of_fat_blocks fs) < 2 ^ 32 \<and>
     (\<forall>j \<le> k. 2 \<le> unat (nth_cluster fs disk c j) \<and> block_in fs cap (cluster_block fs (nth_cluster fs disk c j))) \<and>
     (\<forall>j < k. block_in fs cap (4 * unat (nth_cluster fs disk c j) div bsize fs) \<and>
        \<not> is_end_of_chain (fat_next fs disk (nth_cluster fs disk c j)))"

lemma with_cache_specs [simp]:
  "geometry_ok (with_cache fs c) = geometry_ok fs" "block_addr (with_cache fs c) = block_addr fs"
  "block_in (with_cache fs c) = block_in fs" "cluster_block (with_cache fs c) = cluster_block fs"
  "fat_next (with_cache fs c) = fat_next fs"
  by (simp_all add: geometry_ok_def block_addr_def block_in_def cluster_block_def fat_next_def fun_eq_iff)

lemma nth_cluster_cache [simp]: "nth_cluster (with_cache fs c) disk cl k = nth_cluster fs disk cl k"
  by (induction k) simp_all

lemma chain_ok_cache [simp]: "chain_ok (with_cache fs c) disk cap cl k = chain_ok fs disk cap cl k"
  by (simp add: chain_ok_def)

lemma fat_byte_cache [simp]: "fat_byte (with_cache fs c) disk cl p = fat_byte fs disk cl p"
  by (simp add: fat_byte_def)

lemma skip_clusters_ok:
  assumes "serves dev disk cap" "geometry_ok fs" "chain_ok fs disk cap c k" "j + i \<le> k" "cache_ok dev fs"
  shows "\<exists>ca. skip_clusters dev fs i (nth_cluster fs disk c j) = Inr (Inr (nth_cluster fs disk c (j + i)), with_cache fs ca) \<and>
    cache_ok dev (with_cache fs ca)"
  using assms
proof (induction i arbitrary: j fs)
  case 0
  then show ?case by (intro exI [of _ "fs_cache fs"]) simp
next
  case (Suc i)
  then have j: "j < k" by simp
  have "block_in fs cap (4 * unat (nth_cluster fs disk c j) div bsize fs)" "\<not> is_end_of_chain (fat_next fs disk (nth_cluster fs disk c j))"
    using Suc.prems(3) j by (simp_all add: chain_ok_def)
  moreover from this(1) obtain ca where ca: "get_fat_entry dev fs (nth_cluster fs disk c j) =
      Inr (Inr (fat_next fs disk (nth_cluster fs disk c j)), with_cache fs ca)" "cache_ok dev (with_cache fs ca)"
    by (rule get_fat_entry_ok [OF Suc.prems(1,5,2)])
  moreover obtain cb where "skip_clusters dev (with_cache fs ca) i (nth_cluster fs disk c (Suc j)) =
      Inr (Inr (nth_cluster fs disk c (Suc j + i)), with_cache fs cb)" "cache_ok dev (with_cache fs cb)"
    using Suc.IH [of "with_cache fs ca" "Suc j"] Suc.prems ca(2) by auto
  ultimately show ?case by auto
qed

lemma div_mod_within:
  fixes p i b :: nat
  assumes "p mod b + i < b"
  shows "(p + i) div b = p div b" "(p + i) mod b = p mod b + i"
proof -
  define q r where "q = p div b" and "r = p mod b"
  have p: "p = r + q * b" by (simp add: q_def r_def)
  have r: "r + i < b" using assms by (simp add: r_def)
  have e: "p + i = (r + i) + q * b" by (simp add: p)
  have "((r + i) + q * b) div b = q" using r by (subst div_mult_self1) simp_all
  moreover have "((r + i) + q * b) mod b = r + i" using r by (subst mod_mult_self1) simp
  ultimately show "(p + i) div b = p div b" "(p + i) mod b = p mod b + i" unfolding q_def [symmetric] r_def [symmetric] e by (simp_all only:)
qed

text \<open>The bytes one cluster contributes from position \<^verbatim>\<open>p\<close> on.\<close>

lemma fat_bytes_in_cluster:
  assumes "0 < bsize fs" "p mod bsize fs + t \<le> bsize fs"
  shows "map disk [block_addr fs (cluster_block fs (nth_cluster fs disk c (p div bsize fs))) + p mod bsize fs..<
      block_addr fs (cluster_block fs (nth_cluster fs disk c (p div bsize fs))) + p mod bsize fs + t] =
    map (fat_byte fs disk c) [p..<p + t]"
proof (rule nth_equalityI)
  fix i assume i: "i < length (map disk [block_addr fs (cluster_block fs (nth_cluster fs disk c (p div bsize fs))) + p mod bsize fs..<
      block_addr fs (cluster_block fs (nth_cluster fs disk c (p div bsize fs))) + p mod bsize fs + t])"
  then have lt: "p mod bsize fs + i < bsize fs" using assms(2) by simp
  show "map disk [block_addr fs (cluster_block fs (nth_cluster fs disk c (p div bsize fs))) + p mod bsize fs..<
      block_addr fs (cluster_block fs (nth_cluster fs disk c (p div bsize fs))) + p mod bsize fs + t] ! i =
    map (fat_byte fs disk c) [p..<p + t] ! i"
    using i div_mod_within [OF lt] by (simp add: fat_byte_def add.assoc)
qed simp

lemma fat_read_loop_ok:
  assumes "serves dev disk cap" "geometry_ok fs" "chain_ok fs disk cap c ((off + m - 1) div bsize fs)" "cache_ok dev fs"
    and "unat n = m" "unat br = r" "r < m" "unat init = off mod bsize fs" "r = 0 \<or> (off + r) mod bsize fs = 0"
  shows "\<exists>ca. fat_read_loop dev fs n init buf br (nth_cluster fs disk c ((off + r) div bsize fs)) =
      Some (Inr (Inr (buf @ map (fat_byte fs disk c) [off + r..<off + m]), with_cache fs ca)) \<and> cache_ok dev (with_cache fs ca)"
  using assms
proof (induction "m - r" arbitrary: r br buf fs rule: less_induct)
  case less
  note p = less.prems
  let ?bs = "bsize fs" and ?p = "off + r" and ?k = "(off + m - 1) div bsize fs"
  let ?q = "?p div ?bs"
  let ?c = "nth_cluster fs disk c ?q"
  let ?t = "min (m - r) (?bs - ?p mod ?bs)"
  have bs: "0 < ?bs" "?bs < 2147483648" "fs_bytes_per_cluster fs = fs_block_size fs" using p(2) by (simp_all add: geometry_ok_def)
  have md: "?p mod ?bs < ?bs" using bs(1) by simp
  have qk: "?q \<le> ?k" using p(7) by (intro div_le_mono) simp
  have cl: "2 \<le> unat ?c" "block_in fs cap (cluster_block fs ?c)" "unat (fs_number_of_fat_blocks fs) < 2 ^ 32"
    using p(3) qk by (simp_all add: chain_ok_def)
  obtain b ca where b: "read_cluster_poll dev fs (ucast ?c) = (Inr b, with_cache fs ca)" "cache_ok dev (with_cache fs ca)"
      "db_data b = map disk [block_addr fs (cluster_block fs ?c)..<block_addr fs (cluster_block fs ?c) + ?bs]"
    by (rule read_cluster_ok [OF p(1,4) cl(2,1,3)])
  define oc where "oc = (if br = 0 then init else 0)"
  have oc: "unat oc = ?p mod ?bs"
  proof (cases "br = 0")
    case True
    then show ?thesis using p(6,8) by (simp add: oc_def)
  next
    case False
    then have "r \<noteq> 0" using p(6) by (auto simp: word_unat_eq_iff)
    then show ?thesis using p(9) False by (simp add: oc_def)
  qed
  have ocle: "oc \<le> fs_block_size fs" unfolding word_le_nat_alt oc using md by simp
  have av: "unat (fs_block_size fs - oc) = ?bs - ?p mod ?bs" unfolding unat_sub [OF ocle] oc ..
  have "br \<le> n" using p(5-7) by (simp add: word_le_nat_alt)
  then have rest: "unat (n - br) = m - r" using p(5,6) by (simp add: unat_sub)
  define k where "k = min (n - br) (fs_block_size fs - oc)"
  have t: "unat k = ?t"
    unfolding k_def using av rest by (simp add: min_def word_le_nat_alt)
  have tb: "?t \<le> ?bs" "0 < ?t" using p(7) md by simp_all
  have t32: "unat (ucast (k) :: u32) = ?t"
    using tb(1) bs(2) by (intro unat_u32_len [OF t]) simp
  have mb: "m < 18446744073709551616" using p(5) unsigned_less [of n, where ?'a = nat] by simp
  have br: "unat (br + k) = r + ?t"
    using t p(6,7) mb by (subst unat_add_no_wrap) simp_all
  have fit: "?p mod ?bs + ?t \<le> ?bs" using md by simp
  let ?buf = "buf @ map (fat_byte fs disk c) [?p..<?p + ?t]"
  have got: "take ?t (drop (?p mod ?bs) (db_data b)) = map (fat_byte fs disk c) [?p..<?p + ?t]"
    unfolding b(3) map_upt_sub [OF fit] by (rule fat_bytes_in_cluster [OF bs(1) fit])
  have lt: "br < n" using p(5-7) by (simp add: word_less_nat_alt)
  have more: "br + k < n \<longleftrightarrow> r + ?t < m" using br p(5) by (simp add: word_less_nat_alt)
  have step: "fat_read_loop dev fs n init buf br ?c =
    (if r + ?t < m then
       (case get_fat_entry dev (with_cache fs ca) ?c of Inl f \<Rightarrow> Some (Inl f)
        | Inr (Inl e, fs) \<Rightarrow> Some (Inr (Inl e, fs))
        | Inr (Inr cluster_entry, fs) \<Rightarrow>
            if is_end_of_chain cluster_entry then Some (Inr (Inr ?buf, fs))
            else fat_read_loop dev fs n init ?buf (br + k) (fe_value cluster_entry))
     else Some (Inr (Inr ?buf, with_cache fs ca)))"
    using lt b(1) oc t32 fit got more bs(3) b(3) by (subst fat_read_loop.simps) (simp add: Let_def flip: oc_def k_def cong: sum.case_cong prod.case_cong if_cong)
  show ?case
  proof (cases "r + ?t < m")
    case False
    then have e: "off + r + ?t = off + m" using p(7) by simp
    show ?thesis using step False b(2) unfolding e by auto
  next
    case True
    then have tt: "?t = ?bs - ?p mod ?bs" by simp
    have "?p = ?bs * ?q + ?p mod ?bs" by simp
    then have e: "?p + ?t = ?bs * Suc ?q" unfolding tt mult_Suc_right using md by linarith
    have nq: "(off + (r + ?t)) div ?bs = Suc ?q" "(off + (r + ?t)) mod ?bs = 0"
      using e bs(1) by (simp_all add: add.assoc)
    have "Suc ?q \<le> ?k" unfolding nq(1) [symmetric] using True by (intro div_le_mono) simp
    then have qk': "?q < ?k" by simp
    have ne: "block_in fs cap (4 * unat ?c div ?bs)" "\<not> is_end_of_chain (fat_next fs disk ?c)"
      using p(3) qk' by (simp_all add: chain_ok_def)
    have "block_in (with_cache fs ca) cap (4 * unat ?c div bsize (with_cache fs ca))" "geometry_ok (with_cache fs ca)"
      using ne(1) p(2) by simp_all
    from get_fat_entry_ok [OF p(1) b(2) this(2,1)] obtain cb where
      cb: "get_fat_entry dev (with_cache fs ca) ?c = Inr (Inr (fat_next fs disk ?c), with_cache fs cb)" "cache_ok dev (with_cache fs cb)"
      by auto
    have "\<exists>cc. fat_read_loop dev (with_cache fs cb) n init ?buf (br + k)
        (nth_cluster (with_cache fs cb) disk c ((off + (r + ?t)) div bsize (with_cache fs cb))) =
      Some (Inr (Inr (?buf @ map (fat_byte (with_cache fs cb) disk c) [off + (r + ?t)..<off + m]), with_cache (with_cache fs cb) cc)) \<and>
      cache_ok dev (with_cache (with_cache fs cb) cc)"
    proof (rule less.hyps)
      show "m - (r + ?t) < m - r" using True tb(2) by simp
    qed (use p(1-3,5,8) cb(2) br True nq(2) in simp_all)
    then obtain cc where cc: "fat_read_loop dev (with_cache fs cb) n init ?buf (br + k)
        (fe_value (fat_next fs disk ?c)) =
      Some (Inr (Inr (?buf @ map (fat_byte fs disk c) [off + (r + ?t)..<off + m]), with_cache fs cc))" "cache_ok dev (with_cache fs cc)"
      unfolding nth_cluster_cache by (auto simp: nq(1))
    have "[off + r..<off + m] = [?p..<?p + ?t] @ [off + (r + ?t)..<off + m]"
      using True upt_add_eq_append [of ?p "?p + ?t" "m - (r + ?t)"] by (simp add: add.assoc)
    then show ?thesis using step True cb(1) ne(2) cc by auto
  qed
qed

section \<open>What a FAT directory holds\<close>

text \<open>
  This section follows the FAT format and not the code: an entry is its 32 bytes.  A first byte of 0 ends the
  directory and 0xE5 marks a deleted entry.  The six attribute bits 0x0F make an entry a part of a long name:
  the parts stand last first, the one that is stored first carries the mark 0x40 and starts the name anew, and the short entry
  they belong to follows.  An entry with the bit 0x08 alone is the label of the volume.  A short name is given as its eleven bytes.
\<close>

definition used_entry :: "u8 list \<Rightarrow> bool" where
  "used_entry b \<longleftrightarrow> b ! 0 \<noteq> 0 \<and> b ! 0 \<noteq> 0xE5"

definition long_part :: "u8 list \<Rightarrow> bool" where
  "long_part b \<longleftrightarrow> b ! 11 AND 0x3F = 0x0F"

definition last_part :: "u8 list \<Rightarrow> bool" where
  "last_part b \<longleftrightarrow> b ! 0 AND 0x40 \<noteq> 0"

definition volume_label :: "u8 list \<Rightarrow> bool" where
  "volume_label b \<longleftrightarrow> b ! 11 AND 0x08 \<noteq> 0"

definition read_only :: "u8 list \<Rightarrow> bool" where
  "read_only b \<longleftrightarrow> b ! 11 AND 0x01 \<noteq> 0"

definition long_units :: "u8 list \<Rightarrow> u16 list" where
  "long_units b = map (\<lambda>k. field k 2 b) [1, 3, 5, 7, 9, 14, 16, 18, 20, 22, 24, 28, 30]"

definition long_chars :: "u8 list \<Rightarrow> u16 list" where
  "long_chars b = takeWhile (\<lambda>u. u \<noteq> 0) (long_units b)"

fun dir_items :: "u16 list \<Rightarrow> u8 list list \<Rightarrow> (u16 list \<times> u8 list) list" where
  "dir_items long [] = []"
| "dir_items long (b # bs) =
     (if b ! 0 = 0 then []
      else if b ! 0 = 0xE5 then dir_items [] bs
      else if long_part b then dir_items (long_chars b @ (if last_part b then [] else long)) bs
      else if volume_label b then dir_items [] bs
      else (if long = [] then map ucast (take 11 b) else long, b) # dir_items [] bs)"

definition described :: "cstr \<Rightarrow> u8 list \<Rightarrow> FullDirectoryEntry" where
  "described name b = \<lparr>fd_name = name, fd_size = field 28 4 b,
     fd_first_cluster = of_nat (unat (field 26 2 b :: u16) + 65536 * unat (field 20 2 b :: u16)),
     fd_attributes = b ! 11, fd_creation_time_tenths = b ! 13, fd_creation_time = field 14 2 b,
     fd_creation_date = field 16 2 b, fd_last_access_date = field 18 2 b, fd_last_write_time = field 22 2 b,
     fd_last_write_date = field 24 2 b\<rparr>"

definition item_names :: "(u16 list \<times> u8 list) list \<Rightarrow> cstr list" where
  "item_names items = map (\<lambda>(n, b). map ucast n) items"

definition find_item :: "cstr \<Rightarrow> (u16 list \<times> u8 list) list \<Rightarrow> u8 list option" where
  "find_item name items = map_option snd (List.find (\<lambda>(n, b). n = map ucast name) items)"

text \<open>
  The directories the code reads as the format means them: the entries in use are neither read-only nor labels, and every
  long name has one part, of characters below 256, and is padded.
\<close>

definition plain_file :: "u8 list \<Rightarrow> bool" where
  "plain_file b \<longleftrightarrow> used_entry b \<and> \<not> read_only b \<and> \<not> volume_label b"

definition single_part :: "u8 list \<Rightarrow> bool" where
  "single_part b \<longleftrightarrow> long_part b \<and> last_part b \<and> long_chars b \<noteq> [] \<and> (\<forall>u \<in> set (long_chars b). u < 256) \<and>
     (\<forall>u \<in> set (drop (Suc (length (long_chars b))) (long_units b)). u = 0xFFFF)"

fun plain_dir :: "u8 list list \<Rightarrow> bool" where
  "plain_dir [] = True"
| "plain_dir (b # bs) =
     (if b ! 0 = 0 then (\<forall>c \<in> set bs. c ! 0 = 0)
      else if b ! 0 = 0xE5 then plain_dir bs
      else if long_part b then single_part b \<and> (case bs of [] \<Rightarrow> False | b' # bs' \<Rightarrow> plain_file b' \<and> plain_dir bs')
      else plain_file b \<and> plain_dir bs)"

text \<open>The predicates of the code on the bytes.\<close>

lemma field_1: "length b = 32 \<Longrightarrow> i < 32 \<Longrightarrow> field i 1 b = b ! i"
  by (simp add: field_def take_Suc_conv_app_nth Cons_nth_drop_Suc [symmetric])

lemma code_predicates:
  assumes "length b = 32"
  shows "de_is_free (directory_entry b) \<longleftrightarrow> \<not> used_entry b" "de_is_long_name (directory_entry b) \<longleftrightarrow> read_only b"
    "is_final_entry (long_entry b) \<longleftrightarrow> last_part b" "de_name (directory_entry b) = take 11 b"
  using assms field_1 [OF assms, of 0] field_1 [OF assms, of 11]
  by (auto simp: de_is_free_def directory_entry_def byte_field_def used_entry_def de_is_long_name_def attr_is_long_name_def
    read_only_def is_final_entry_def long_entry_def last_part_def)

lemma two_halves: "push_bit 16 (ucast (h :: u16)) OR ucast (l :: u16) = (of_nat (unat l + 65536 * unat h) :: u32)"
proof -
  have "push_bit 16 (ucast h) AND ucast l = (0 :: u32)"
    by (rule bit_word_eqI) (auto simp: bit_simps dest!: bit_imp_le_length)
  then have "push_bit 16 (ucast h) OR ucast l = push_bit 16 (ucast h) + (ucast l :: u32)"
    using word_plus_and_or [of "push_bit 16 (ucast h)" "ucast l :: u32"] by simp
  then show ?thesis by (simp add: push_bit_eq_mult of_nat_unat add.commute mult.commute)
qed

lemma filled_described: "length b = 32 \<Longrightarrow> filled_from n (directory_entry b) = described n b"
  using field_1 [of b 11] field_1 [of b 13] two_halves [of "field 20 2 b" "field 26 2 b"]
  by (simp add: filled_from_def directory_entry_def described_def)

lemma long_part_read_only: "long_part b \<Longrightarrow> read_only b"
proof -
  assume "long_part b"
  then have "(b ! 11 AND 0x3F) AND 1 = 1" by (simp add: long_part_def)
  then have "b ! 11 AND 1 = 1" by (simp add: and.assoc)
  then show ?thesis by (simp add: read_only_def)
qed

text \<open>A part of a long name that is padded gives its characters, whichever way its 13 units are grouped.\<close>

lemma group_chars:
  assumes "xs @ ys = c @ r" "\<forall>u \<in> set c. P u" "\<forall>u \<in> set r. \<not> P u"
  shows "takeWhile P xs = filter P xs \<and> (\<exists>c' r'. ys = c' @ r' \<and> (\<forall>u \<in> set c'. P u) \<and> (\<forall>u \<in> set r'. \<not> P u))"
  using assms
proof (induction xs arbitrary: c)
  case (Cons x xs)
  show ?case
  proof (cases c)
    case Nil
    then have "\<forall>u \<in> set (x # xs @ ys). \<not> P u" using Cons.prems by (metis append_Cons append_Nil)
    then show ?thesis by (auto intro: exI [of _ "[]"])
  next
    case (Cons y c')
    then show ?thesis using Cons.IH [of c'] Cons.prems by auto
  qed
qed auto

lemma single_part_name:
  assumes "length b = 32" "single_part b"
  shows "long_name_part (long_entry b) = map ucast (long_chars b)"
proof -
  let ?P = "\<lambda>u :: u16. u \<noteq> 0 \<and> u \<noteq> 0xFFFF" and ?c = "long_chars b" and ?e = "long_entry b"
  let ?r = "drop (length ?c) (long_units b)"
  have u: "long_units b = le_name1 ?e @ le_name2 ?e @ le_name3 ?e"
    by (simp add: long_units_def long_entry_def units_def upt_rec)
  have c: "\<forall>u \<in> set ?c. ?P u"
    using assms(2) by (auto simp: single_part_def long_chars_def dest: set_takeWhileD)
  have r0: "?r = [] \<or> ?r = 0 # drop (Suc (length ?c)) (long_units b)"
  proof (cases "dropWhile (\<lambda>u. u \<noteq> 0) (long_units b)")
    case (Cons x xs)
    then have "x = 0" using hd_dropWhile [of "\<lambda>u. u \<noteq> 0" "long_units b"] by simp
    then show ?thesis using Cons by (metis dropWhile_eq_drop long_chars_def drop_Suc tl_drop list.sel(3))
  qed (metis dropWhile_eq_drop long_chars_def)
  have r: "\<forall>u \<in> set ?r. \<not> ?P u" using r0 assms(2) by (auto simp: single_part_def)
  have eq: "long_units b = ?c @ ?r"
    by (metis append_take_drop_id long_chars_def takeWhile_eq_take)
  have 1: "takeWhile ?P (le_name1 ?e) = filter ?P (le_name1 ?e)"
    and "\<exists>c' r'. le_name2 ?e @ le_name3 ?e = c' @ r' \<and> (\<forall>u \<in> set c'. ?P u) \<and> (\<forall>u \<in> set r'. \<not> ?P u)"
    using group_chars [OF trans [OF u [symmetric] eq] c r] by blast+
  then obtain c' r' where 2: "le_name2 ?e @ le_name3 ?e = c' @ r'" "\<forall>u \<in> set c'. ?P u" "\<forall>u \<in> set r'. \<not> ?P u" by blast
  have 3: "takeWhile ?P (le_name2 ?e) = filter ?P (le_name2 ?e)"
    and "\<exists>c' r'. le_name3 ?e = c' @ r' \<and> (\<forall>u \<in> set c'. ?P u) \<and> (\<forall>u \<in> set r'. \<not> ?P u)"
    using group_chars [OF 2] by blast+
  then obtain d' s' where 4: "le_name3 ?e @ [] = d' @ s'" "\<forall>u \<in> set d'. ?P u" "\<forall>u \<in> set s'. \<not> ?P u" by auto
  have 5: "takeWhile ?P (le_name3 ?e) = filter ?P (le_name3 ?e)" using group_chars [OF 4] by blast
  have "filter ?P (long_units b) = ?c" using c r unfolding eq [symmetric]
    by (subst eq) (simp add: filter_id_conv del: append_take_drop_id)
  then have "filter ?P (le_name1 ?e) @ filter ?P (le_name2 ?e) @ filter ?P (le_name3 ?e) = ?c" by (simp add: u)
  moreover have "ucast (u AND 0xFF) = (ucast u :: u8)" for u :: u16
    by (rule bit_word_eqI) (auto simp: bit_simps numeral_eq_Suc less_Suc_eq)
  ultimately show ?thesis unfolding long_name_part_def name_units_def 1 3 5 by (simp flip: map_append)
qed

lemma narrow_name:
  assumes "\<forall>u \<in> set us. u < (256 :: u16)"
  shows "map ucast us = (name :: u8 list) \<longleftrightarrow> us = map ucast name"
proof -
  have "ucast (ucast u :: u8) = u" if "u < 256" for u :: u16
    using that by (simp add: word_unat_eq_iff unsigned_ucast_eq take_bit_eq_mod word_less_nat_alt unat_mod)
  then have "map ucast (map ucast us :: u8 list) = us" using assms by (auto intro: map_idI)
  moreover have "map ucast (map ucast name :: u16 list) = name"
    by (auto intro!: map_idI simp: ucast_up_ucast_id is_up)
  ultimately show ?thesis by metis
qed

lemma entry_bytes_concat:
  assumes "\<forall>b \<in> set bs. length b = 32" "i < length bs"
  shows "entry_bytes (concat bs @ r) i = Inr (bs ! i)"
  using assms
proof (induction bs arbitrary: i)
  case (Cons b bs)
  have b: "length b = 32" using Cons.prems(1) by simp
  show ?case
  proof (cases i)
    case 0
    then show ?thesis using b by (simp add: entry_bytes_def)
  next
    case (Suc j)
    then have "entry_bytes (concat bs @ r) j = Inr (bs ! j)" using Cons by simp
    then show ?thesis using b Suc by (simp add: entry_bytes_def split: if_splits)
  qed
qed simp

lemma long_name_single:
  assumes "entry_bytes d i = Inr b" "is_final_entry (long_entry b)"
  shows "long_name_loop d i [] = Some (Inr (long_name_part (long_entry b), i))"
  using assms by (subst long_name_loop.simps) simp

lemma dir_items_all_zero: "\<forall>c \<in> set bs. c ! 0 = 0 \<Longrightarrow> plain_dir bs \<and> dir_items [] bs = []"
  by (cases bs) auto

lemma plain_part:
  assumes "single_part b" "plain_file b'" "b ! 0 \<noteq> 0" "b ! 0 \<noteq> 0xE5"
  shows "dir_items [] (b # b' # bs) = (long_chars b, b') # dir_items [] bs"
proof -
  have "\<not> long_part b'" using long_part_read_only assms(2) by (auto simp: plain_file_def)
  then show ?thesis using assms by (simp add: single_part_def plain_file_def used_entry_def)
qed

lemma find_item_Cons: "find_item name ((n, b) # items) = (if n = map ucast name then Some b else find_item name items)"
  by (simp add: find_item_def)

lemma item_names_Cons: "item_names ((n, b) # items) = map ucast n # item_names items"
  by (simp add: item_names_def)

text \<open>The loops of \<^verbatim>\<open>get_child\<close> and \<^verbatim>\<open>list_dir\<close> pass a plain stretch of the directory with its items.\<close>

lemma plain_stretch:
  assumes "\<forall>b \<in> set (front @ mid @ rest). length b = 32" "plain_dir mid"
  shows "get_child_loop (concat (front @ mid @ rest)) (length (front @ mid @ rest)) (length front) name =
      (case find_item name (dir_items [] mid) of Some b \<Rightarrow> Some (Inr (Inr (described name b)))
       | None \<Rightarrow> get_child_loop (concat (front @ mid @ rest)) (length (front @ mid @ rest)) (length (front @ mid)) name) \<and>
    list_dir_loop (concat (front @ mid @ rest)) (length (front @ mid @ rest)) (length front) acc =
      list_dir_loop (concat (front @ mid @ rest)) (length (front @ mid @ rest)) (length (front @ mid)) (acc @ item_names (dir_items [] mid))"
  using assms
proof (induction "length mid" arbitrary: front mid acc rule: less_induct)
  case less
  show ?case
  proof (cases mid)
    case Nil
    then show ?thesis by (simp add: find_item_def item_names_def)
  next
    case (Cons b bs)
    let ?all = "front @ mid @ rest"
    have b: "length b = 32" using less.prems(1) Cons by simp
    note code = code_predicates [OF b]
    have eb: "entry_bytes (concat ?all) (length front) = Inr b"
      using entry_bytes_concat [OF less.prems(1), of "length front" "[]"] Cons by simp
    have n: "length front < length ?all" using Cons by simp
    note unfold = get_child_loop.simps [of "concat ?all" "length ?all" "length front"] list_dir_loop.simps [of "concat ?all" "length ?all" "length front"]
    have IH: "get_child_loop (concat ?all) (length ?all) (length (front @ [b])) name =
        (case find_item name (dir_items [] bs) of Some b \<Rightarrow> Some (Inr (Inr (described name b)))
         | None \<Rightarrow> get_child_loop (concat ?all) (length ?all) (length (front @ mid)) name)"
      "list_dir_loop (concat ?all) (length ?all) (length (front @ [b])) ac =
        list_dir_loop (concat ?all) (length ?all) (length (front @ mid)) (ac @ item_names (dir_items [] bs))"
      if "plain_dir bs" for ac
    proof -
      have "length bs < length mid" and eq: "(front @ [b]) @ bs @ rest = ?all" "(front @ [b]) @ bs = front @ mid" using Cons by simp_all
      note h = less.hyps [OF this(1), where front = "front @ [b]" and acc = ac, unfolded eq, OF less.prems(1) that]
      show "get_child_loop (concat ?all) (length ?all) (length (front @ [b])) name =
          (case find_item name (dir_items [] bs) of Some b \<Rightarrow> Some (Inr (Inr (described name b)))
           | None \<Rightarrow> get_child_loop (concat ?all) (length ?all) (length (front @ mid)) name)"
        "list_dir_loop (concat ?all) (length ?all) (length (front @ [b])) ac =
          list_dir_loop (concat ?all) (length ?all) (length (front @ mid)) (ac @ item_names (dir_items [] bs))"
        using h by blast+
    qed
    consider (free) "\<not> used_entry b"
      | (part) "used_entry b" "long_part b"
      | (short) "used_entry b" "\<not> long_part b" by blast
    then show ?thesis
    proof cases
      case free
      then have "plain_dir bs" "dir_items [] mid = dir_items [] bs"
        using less.prems(2) dir_items_all_zero [of bs] unfolding Cons by (auto simp: used_entry_def split: if_splits)
      then show ?thesis using IH n eb code free by (subst unfold(1), subst unfold(2)) simp
    next
      case short
      then have f: "plain_file b" "plain_dir bs" using less.prems(2) unfolding Cons by (auto simp: used_entry_def split: if_splits)
      have items: "dir_items [] mid = (map ucast (take 11 b), b) # dir_items [] bs"
        using short f(1) unfolding Cons by (simp add: used_entry_def plain_file_def)
      have wide: "map ucast (map ucast xs :: u16 list) = xs" for xs :: "u8 list" by (auto intro!: map_idI simp: ucast_up_ucast_id is_up)
      have "map ucast (take 11 b) = (map ucast name :: u16 list) \<longleftrightarrow> take 11 b = name" using wide by metis
      then show ?thesis using IH [OF f(2)] n eb code short f(1) filled_described [OF b] unfolding items find_item_Cons item_names_Cons wide
        by (subst unfold(1), subst unfold(2)) (simp add: plain_file_def del: concat_append map_map)
    next
      case part
      then obtain b' bs' where p: "bs = b' # bs'" "single_part b" "plain_file b'" "plain_dir bs'"
        using less.prems(2) unfolding Cons by (auto simp: used_entry_def split: if_splits list.splits)
      have b': "length b' = 32" using less.prems(1) Cons p(1) by simp
      have eb': "entry_bytes (concat ?all) (Suc (length front)) = Inr b'"
        using entry_bytes_concat [OF less.prems(1), of "Suc (length front)" "[]"] Cons p(1) by (simp add: nth_append)
      have items: "dir_items [] mid = (long_chars b, b') # dir_items [] bs'"
        unfolding Cons p(1) by (rule plain_part [OF p(2,3)]) (use part in \<open>simp_all add: used_entry_def\<close>)
      have IH2: "get_child_loop (concat ?all) (length ?all) (length (front @ [b, b'])) name =
          (case find_item name (dir_items [] bs') of Some b \<Rightarrow> Some (Inr (Inr (described name b)))
           | None \<Rightarrow> get_child_loop (concat ?all) (length ?all) (length (front @ mid)) name)"
        "list_dir_loop (concat ?all) (length ?all) (length (front @ [b, b'])) ac =
          list_dir_loop (concat ?all) (length ?all) (length (front @ mid)) (ac @ item_names (dir_items [] bs'))" for ac
      proof -
        have "length bs' < length mid" and eq: "(front @ [b, b']) @ bs' @ rest = ?all" "(front @ [b, b']) @ bs' = front @ mid"
          using Cons p(1) by simp_all
        note h = less.hyps [OF this(1), where front = "front @ [b, b']" and acc = ac, unfolded eq, OF less.prems(1) p(4)]
        show "get_child_loop (concat ?all) (length ?all) (length (front @ [b, b'])) name =
            (case find_item name (dir_items [] bs') of Some b \<Rightarrow> Some (Inr (Inr (described name b)))
             | None \<Rightarrow> get_child_loop (concat ?all) (length ?all) (length (front @ mid)) name)"
          "list_dir_loop (concat ?all) (length ?all) (length (front @ [b, b'])) ac =
            list_dir_loop (concat ?all) (length ?all) (length (front @ mid)) (ac @ item_names (dir_items [] bs'))"
          using h by blast+
      qed
      have "is_final_entry (long_entry b)" using code(3) p(2) by (simp add: single_part_def)
      from long_name_single [OF eb this] single_part_name [OF b p(2)]
      have long: "long_name_loop (concat ?all) (length front) [] = Some (Inr (map ucast (long_chars b), length front))" by simp
      have same: "long_chars b = map ucast name \<longleftrightarrow> map ucast (long_chars b) = name"
        by (rule narrow_name [symmetric]) (use p(2) in \<open>simp add: single_part_def\<close>)
      have "\<not> de_is_long_name (directory_entry b')" using code_predicates(2) [OF b'] p(3) by (simp add: plain_file_def)
      then show ?thesis using IH2 n eb eb' code part long same long_part_read_only [OF part(2)] filled_described [OF b'] unfolding items find_item_Cons item_names_Cons
        by (subst unfold(1), subst unfold(2)) (simp del: concat_append map_map)
    qed
  qed
qed

text \<open>
  An entry with the read-only bit and the mark of the last part, long name or not, is taken for a whole long name and the
  next entry for the one it belongs to.
\<close>

lemma taken_for_long:
  assumes "\<forall>b \<in> set (front @ b # b' # rest). length b = 32" "used_entry b" "read_only b" "last_part b"
  defines "all \<equiv> front @ b # b' # rest"
  shows "get_child_loop (concat all) (length all) (length front) name =
      (if read_only b' then Some (Inr (Inl (create_from_string ''Corrupt directory: Last Long name entry not followed by standard entry'')))
       else if long_name_part (long_entry b) = name then Some (Inr (Inr (described name b')))
       else get_child_loop (concat all) (length all) (length (front @ [b, b'])) name)"
    "list_dir_loop (concat all) (length all) (length front) acc =
      list_dir_loop (concat all) (length all) (length (front @ [b, b'])) (acc @ [long_name_part (long_entry b)])"
proof -
  have len: "length b = 32" "length b' = 32" using assms(1) by simp_all
  note code = code_predicates [OF len(1)] code_predicates(2) [OF len(2)]
  have eb: "entry_bytes (concat all) (length front) = Inr b" "entry_bytes (concat all) (Suc (length front)) = Inr b'"
    using entry_bytes_concat [OF assms(1), of "length front" "[]"] entry_bytes_concat [OF assms(1), of "Suc (length front)" "[]"]
    unfolding all_def by (simp_all add: nth_append)
  have "is_final_entry (long_entry b)" using code assms by simp
  note long = long_name_single [OF eb(1) this]
  have n: "length front < length all" by (simp add: all_def)
  show "get_child_loop (concat all) (length all) (length front) name =
      (if read_only b' then Some (Inr (Inl (create_from_string ''Corrupt directory: Last Long name entry not followed by standard entry'')))
       else if long_name_part (long_entry b) = name then Some (Inr (Inr (described name b')))
       else get_child_loop (concat all) (length all) (length (front @ [b, b'])) name)"
    using code assms(2,3) eb long n filled_described [OF len(2)]
    by (subst get_child_loop.simps [of "concat all" "length all" "length front"]) simp
  show "list_dir_loop (concat all) (length all) (length front) acc =
      list_dir_loop (concat all) (length all) (length (front @ [b, b'])) (acc @ [long_name_part (long_entry b)])"
    using code assms(2,3) eb long n by (subst list_dir_loop.simps [of "concat all" "length all" "length front"]) simp
qed

lemma loops_end:
  "get_child_loop d n n name = Some (Inr (Inl (create_from_string ''Child not found'')))" "list_dir_loop d n n acc = Some (Inr acc)"
  by (subst get_child_loop.simps, simp) (subst list_dir_loop.simps, simp)

text \<open>What the format says of a directory behind a plain beginning.\<close>

lemma dir_items_behind:
  assumes "plain_dir front" "\<forall>c \<in> set front. c ! 0 \<noteq> 0"
  shows "dir_items [] (front @ bs) = dir_items [] front @ dir_items [] bs"
  using assms
proof (induction "length front" arbitrary: front rule: less_induct)
  case less
  show ?case
  proof (cases front)
    case (Cons b r)
    show ?thesis
    proof (cases "used_entry b \<and> long_part b")
      case True
      then obtain b' r' where p: "r = b' # r'" "single_part b" "plain_file b'" "plain_dir r'"
        using less.prems(1) unfolding Cons by (auto simp: used_entry_def split: list.splits)
      have b: "b ! 0 \<noteq> 0" "b ! 0 \<noteq> 0xE5" using True by (simp_all add: used_entry_def)
      show ?thesis using less.hyps [of r'] less.prems(2) p(4) plain_part [OF p(2,3) b] unfolding Cons p(1) by simp
    next
      case False
      then have "plain_dir r" "\<not> (used_entry b \<and> volume_label b)" using less.prems unfolding Cons
        by (auto simp: used_entry_def plain_file_def split: if_splits)
      then show ?thesis using less.hyps [of r] less.prems(2) False unfolding Cons by (auto simp: used_entry_def)
    qed
  qed simp
qed

section \<open>Properties\<close>

text \<open>
  C23. Reading from a file returns the bytes of its cluster chain from the offset on, as many
  as were asked for and the file has, whatever the block cache holds; at or behind the end of
  the file nothing is read.  The cache stays a copy of the device.
\<close>

theorem fat_read_correct:
  assumes "serves dev disk cap" "geometry_ok fs" "cache_ok dev fs" "unat offset + unat n < 2 ^ 64" "0 < unat n"
    "unat offset < unat (fd_size entry) \<Longrightarrow> chain_ok fs disk cap (fd_first_cluster entry)
       ((unat offset + min (unat n) (unat (fd_size entry) - unat offset) - 1) div bsize fs)"
  shows "\<exists>ca. fat_read dev fs entry n offset =
      Some (Inr (Inr (map (fat_byte fs disk (fd_first_cluster entry))
        [unat offset..<min (unat offset + unat n) (max (unat offset) (unat (fd_size entry)))]), with_cache fs ca)) \<and>
    cache_ok dev (with_cache fs ca)"
proof -
  let ?o = "unat offset" and ?s = "unat (fd_size entry)" and ?c = "fd_first_cluster entry"
  have "?s < 4294967296" using unsigned_less [of "fd_size entry", where ?'a = nat] by simp
  then have sz: "unat (ucast (fd_size entry) :: size_t) = ?s" by (simp add: unsigned_ucast_eq take_bit_nat_eq_self)
  show ?thesis
  proof (cases "?o < ?s")
    case False
    then have "fat_read dev fs entry n offset = Some (Inr (Inr [], fs))" using sz by (simp add: fat_read_def word_le_nat_alt)
    then show ?thesis using False assms(3) by (intro exI [of _ "fs_cache fs"]) simp
  next
    case True
    let ?m = "min (unat n) (?s - ?o)"
    define n' where "n' = (if offset + n > ucast (fd_size entry) then ucast (fd_size entry) - offset else n)"
    have on: "unat (offset + n) = ?o + unat n" using assms(4) by (simp add: unat_add_no_wrap)
    have n': "unat n' = ?m"
    proof (cases "offset + n > ucast (fd_size entry)")
      case True
      then have "?s < ?o + unat n" using on sz by (simp add: word_less_nat_alt)
      moreover have "unat (ucast (fd_size entry) - offset) = ?s - ?o"
        using \<open>?o < ?s\<close> sz by (simp add: unat_sub word_le_nat_alt)
      ultimately show ?thesis using True by (simp add: n'_def)
    next
      case False
      then show ?thesis using on sz by (simp add: n'_def word_less_nat_alt)
    qed
    have g: "fs_bytes_per_cluster fs = fs_block_size fs" "0 < bsize fs" using assms(2) by (simp_all add: geometry_ok_def)
    have nz: "fs_bytes_per_cluster fs \<noteq> 0" using g by auto
    let ?k = "(?o + ?m - 1) div bsize fs"
    have ch: "chain_ok fs disk cap ?c ?k" using assms(6) True by simp
    have m0: "0 < ?m" using assms(5) True by simp
    have "?o \<le> ?o + ?m - 1" using m0 by linarith
    then have "?o div bsize fs \<le> ?k" by (rule div_le_mono)
    then obtain ca where ca: "skip_clusters dev fs (?o div bsize fs) ?c =
        Inr (Inr (nth_cluster fs disk ?c (?o div bsize fs)), with_cache fs ca)" "cache_ok dev (with_cache fs ca)"
      using skip_clusters_ok [OF assms(1,2) ch, of 0 "?o div bsize fs"] assms(3) by auto
    have "\<exists>cb. fat_read_loop dev (with_cache fs ca) n' (offset mod fs_block_size fs) [] 0
        (nth_cluster (with_cache fs ca) disk ?c ((?o + 0) div bsize (with_cache fs ca))) =
      Some (Inr (Inr ([] @ map (fat_byte (with_cache fs ca) disk ?c) [?o + 0..<?o + ?m]), with_cache (with_cache fs ca) cb)) \<and>
      cache_ok dev (with_cache (with_cache fs ca) cb)"
      using assms(1,2) ch ca(2) n' m0 by (intro fat_read_loop_ok) (simp_all add: unat_mod)
    then obtain cb where cb: "fat_read_loop dev (with_cache fs ca) n' (offset mod fs_block_size fs) [] 0
        (nth_cluster fs disk ?c (?o div bsize fs)) =
      Some (Inr (Inr (map (fat_byte fs disk ?c) [?o..<?o + ?m]), with_cache fs cb))" "cache_ok dev (with_cache fs cb)"
      by auto
    have "\<not> ucast (fd_size entry) \<le> offset" using True sz by (simp add: word_le_nat_alt)
    then have "fat_read dev fs entry n offset = fat_read_loop dev (with_cache fs ca) n' (offset mod fs_block_size fs) [] 0
        (nth_cluster fs disk ?c (?o div bsize fs))"
      using nz g(1) ca(1) by (simp add: fat_read_def unat_div Let_def flip: n'_def)
    moreover have "?o + ?m = min (?o + unat n) (max ?o ?s)" using True by simp
    ultimately show ?thesis using cb by auto
  qed
qed

definition sample_fat :: FATFileSystem where
  "sample_fat = \<lparr>fs_type = FAT32, fs_boot_sector = boot_sector32 [],
     fs_root = (filled_from [] (directory_entry []))\<lparr>fd_size := 3, fd_first_cluster := 2\<rparr>, fs_block_size = 4,
     fs_bytes_per_cluster = 4, fs_reserved_and_fat_offset = 4, fs_fat_start_offset = 0, fs_number_of_fat_blocks = 1, fs_cache = []\<rparr>"

definition sample_disk :: device_read where
  "sample_disk n off = Inr (map of_nat [unat off..<unat off + unat n])"

theorem fat_read_correct_witness:
  "\<exists>ca. fat_read sample_disk sample_fat (fs_root sample_fat) 9 1 = Some (Inr (Inr [5, 6], with_cache sample_fat ca))"
proof -
  have "serves sample_disk of_nat 100" by (simp add: serves_def sample_disk_def)
  moreover have "geometry_ok sample_fat" "cache_ok sample_disk sample_fat" by (simp_all add: geometry_ok_def cache_ok_def sample_fat_def)
  moreover have "chain_ok sample_fat of_nat 100 (fd_first_cluster (fs_root sample_fat)) 0"
    by (simp add: chain_ok_def sample_fat_def block_in_def block_addr_def cluster_block_def)
  ultimately show ?thesis
    using fat_read_correct [of sample_disk of_nat 100 sample_fat 1 9 "fs_root sample_fat"]
    by (simp add: sample_fat_def fat_byte_def cluster_block_def block_addr_def upt_rec) auto
qed

definition child_of :: "cstr \<Rightarrow> u8 list option \<Rightarrow> FullDirectoryEntry error_or" where
  "child_of name found = (case found of Some b \<Rightarrow> Inr (described name b) | None \<Rightarrow> Inl (create_from_string ''Child not found''))"

text \<open>
  C24. Directories of one cluster, compared with the FAT format.  If the entries in use are neither read-only nor labels, each long
  name has one padded part of characters below 256 and nothing stands behind the end mark, \<^verbatim>\<open>list_dir\<close> gives the names the directory holds, in order, and
  \<^verbatim>\<open>get_child\<close> the first entry of the name, or that there is none.  Outside these directories the code departs from the
  format: it takes every entry with the read-only bit for a part of a long name.  A read-only entry whose first byte has the bit 0x40, as every letter has, hides
  its own name and that of the next entry: \<^verbatim>\<open>list_dir\<close> gives instead one name made of its bytes, and for the names that do not stand before it
  \<^verbatim>\<open>get_child\<close> takes the next entry under that name, or calls the directory corrupt if that one is read-only too.  The same happens
  to a name of two parts, whose first stored part already carries the final mark: \<^verbatim>\<open>get_child\<close> calls the directory corrupt for every name that does not
  stand before it, and the name listed is made of the last part alone.
\<close>

theorem fat_directory:
  assumes "attr_is_directory (fd_attributes entry)" "read_cluster_poll dev fs (ucast (fd_first_cluster entry)) = (Inr block, fs')"
    "db_data block = concat bs" "\<forall>b \<in> set bs. length b = 32" "unat (fs_block_size fs' div 32) = length bs"
  shows "(plain_dir bs \<longrightarrow>
      fat_list_dir dev fs entry = Some (Inr (Inr (item_names (dir_items [] bs)), fs')) \<and>
      fat_get_child dev fs entry name = Some (Inr (child_of name (find_item name (dir_items [] bs)), fs'))) \<and>
    (\<forall>front b b' rest. bs = front @ b # b' # rest \<and> plain_dir front \<and> plain_dir rest \<and> used_entry b \<and> read_only b \<and> last_part b \<longrightarrow>
      fat_list_dir dev fs entry =
        Some (Inr (Inr (item_names (dir_items [] front) @ long_name_part (long_entry b) # item_names (dir_items [] rest)), fs')) \<and>
      fat_get_child dev fs entry name = Some (Inr (
        if find_item name (dir_items [] front) \<noteq> None then child_of name (find_item name (dir_items [] front))
        else if read_only b' then Inl (create_from_string ''Corrupt directory: Last Long name entry not followed by standard entry'')
        else if long_name_part (long_entry b) = name then Inr (described name b')
        else child_of name (find_item name (dir_items [] rest)), fs')) \<and>
      ((\<forall>c \<in> set front. c ! 0 \<noteq> 0) \<and> plain_file b' \<and> \<not> long_part b \<and> \<not> volume_label b \<longrightarrow>
        item_names (dir_items [] bs) =
          item_names (dir_items [] front) @ take 11 b # take 11 b' # item_names (dir_items [] rest)) \<and>
      (\<forall>c rest'. (\<forall>c \<in> set front. c ! 0 \<noteq> 0) \<and> rest = c # rest' \<and> plain_file c \<and> long_chars b \<noteq> [] \<and>
          used_entry b' \<and> long_part b \<and> long_part b' \<and> \<not> last_part b' \<longrightarrow>
        read_only b' \<and> dir_items [] bs = dir_items [] front @ (long_chars b' @ long_chars b, c) # dir_items [] rest'))"
proof (intro conjI allI impI)
  have get: "fat_get_child dev fs entry name =
      run_bind (get_child_loop (concat bs) (length bs) 0 name) (\<lambda>r. Some (Inr (r, fs')))"
    and ls: "fat_list_dir dev fs entry = run_bind (list_dir_loop (concat bs) (length bs) 0 []) (\<lambda>r. Some (Inr (Inr r, fs')))"
    using assms(1-3,5) by (simp_all add: fat_list_dir_def fat_get_child_def)
  {
    assume "plain_dir bs"
    from plain_stretch [of "[]" bs "[]" name "[]"] assms(4) this
    show "fat_list_dir dev fs entry = Some (Inr (Inr (item_names (dir_items [] bs)), fs'))"
      "fat_get_child dev fs entry name = Some (Inr (child_of name (find_item name (dir_items [] bs)), fs'))"
      unfolding get ls by (simp_all add: loops_end child_of_def split: option.splits)
  }
  fix front b b' rest
  assume b: "bs = front @ b # b' # rest \<and> plain_dir front \<and> plain_dir rest \<and> used_entry b \<and> read_only b \<and> last_part b"
  then have bs: "bs = front @ b # b' # rest" and plain: "plain_dir front" "plain_dir rest"
    and taken: "used_entry b" "read_only b" "last_part b" by simp_all
  have len: "\<forall>c \<in> set ([] @ front @ b # b' # rest). length c = 32" "\<forall>c \<in> set (front @ b # b' # rest). length c = 32"
    "\<forall>c \<in> set ((front @ [b, b']) @ rest @ []). length c = 32" using assms(4) bs by auto
  note s1 = plain_stretch [OF len(1) plain(1), of name "[]", unfolded append_Nil]
  note s2 = taken_for_long [OF len(2) taken]
  note s3 = plain_stretch [OF len(3) plain(2), of name]
  have end_of: "length ((front @ [b, b']) @ rest) = length (front @ b # b' # rest)" "(front @ [b, b']) @ rest @ [] = front @ b # b' # rest" by simp_all
  show "fat_list_dir dev fs entry =
      Some (Inr (Inr (item_names (dir_items [] front) @ long_name_part (long_entry b) # item_names (dir_items [] rest)), fs'))"
    using s1 s2(2) s3 unfolding ls bs end_of loops_end by (simp del: concat_append)
  show "fat_get_child dev fs entry name = Some (Inr (
        if find_item name (dir_items [] front) \<noteq> None then child_of name (find_item name (dir_items [] front))
        else if read_only b' then Inl (create_from_string ''Corrupt directory: Last Long name entry not followed by standard entry'')
        else if long_name_part (long_entry b) = name then Inr (described name b')
        else child_of name (find_item name (dir_items [] rest)), fs'))"
    using s1 s2(1) s3 unfolding get bs end_of loops_end
    by (simp del: concat_append add: child_of_def split: option.splits)
  show "item_names (dir_items [] bs) =
      item_names (dir_items [] front) @ take 11 b # take 11 b' # item_names (dir_items [] rest)"
    if "(\<forall>c \<in> set front. c ! 0 \<noteq> 0) \<and> plain_file b' \<and> \<not> long_part b \<and> \<not> volume_label b"
    using that taken(1) long_part_read_only [of b'] unfolding bs
    by (subst dir_items_behind [OF plain(1)])
      (auto simp: item_names_def used_entry_def plain_file_def ucast_up_ucast_id is_up intro!: map_idI)
  fix c rest'
  assume p: "(\<forall>c \<in> set front. c ! 0 \<noteq> 0) \<and> rest = c # rest' \<and> plain_file c \<and> long_chars b \<noteq> [] \<and>
    used_entry b' \<and> long_part b \<and> long_part b' \<and> \<not> last_part b'"
  then show "read_only b'" using long_part_read_only by blast
  show "dir_items [] bs = dir_items [] front @ (long_chars b' @ long_chars b, c) # dir_items [] rest'"
    using p taken(1,3) long_part_read_only [of c] unfolding bs
    by (subst dir_items_behind [OF plain(1)]) (auto simp: used_entry_def plain_file_def)
qed

text \<open>A short entry: eleven bytes of name, then the attributes; the name begins with \<^verbatim>\<open>c\<close>.\<close>

definition sample_dir_entry :: "u8 \<Rightarrow> u8 \<Rightarrow> u8 list" where
  "sample_dir_entry c attributes = [c, 32, 32, 32, 32, 32, 32, 32, 32, 32, 32, attributes] @ replicate 20 0"

lemma sample_dir:
  fixes bs :: "u8 list list"
  assumes "\<forall>b \<in> set bs. length b = 32" "length bs < 100"
  shows "\<exists>block fs'. read_cluster_poll (\<lambda>n off. Inr (concat bs)) (sample_fat\<lparr>fs_block_size := of_nat (32 * length bs)\<rparr>)
      (ucast (fd_first_cluster ((fs_root sample_fat)\<lparr>fd_attributes := ATTR_Directory\<rparr>))) = (Inr block, fs') \<and>
    db_data block = concat bs \<and> unat (fs_block_size fs' div 32) = length bs"
proof -
  have "unat (of_nat (32 * length bs) :: size_t) = 32 * length bs" using assms(2) by (intro unat_of_nat_small) simp
  then have "unat (of_nat (32 * length bs) div 32 :: size_t) = length bs" by (simp add: unat_div)
  then show ?thesis by (simp add: read_cluster_poll_def read_block_poll_def get_block_from_cache_def sample_fat_def Let_def)
qed

theorem fat_directory_witness:
  "(\<exists>dev fs fs'. fat_list_dir dev fs ((fs_root sample_fat)\<lparr>fd_attributes := ATTR_Directory\<rparr>) =
     Some (Inr (Inr [take 11 (sample_dir_entry 65 0x20)], fs'))) \<and>
   (\<exists>dev fs fs'. fat_list_dir dev fs ((fs_root sample_fat)\<lparr>fd_attributes := ATTR_Directory\<rparr>) =
     Some (Inr (Inr [[32, 32, 32, 32, 32]], fs'))) \<and>
   item_names (dir_items [] [sample_dir_entry 65 0x21, sample_dir_entry 66 0x20]) =
     [take 11 (sample_dir_entry 65 0x21), take 11 (sample_dir_entry 66 0x20)]"
proof -
  let ?e = "(fs_root sample_fat)\<lparr>fd_attributes := ATTR_Directory\<rparr>"
  let ?a = "sample_dir_entry 65 0x20" and ?r = "sample_dir_entry 65 0x21" and ?b = "sample_dir_entry 66 0x20"
  have dir: "attr_is_directory (fd_attributes ?e)" by (simp add: attr_is_directory_def ATTR_Directory_def)
  note defs = sample_dir_entry_def used_entry_def long_part_def last_part_def volume_label_def read_only_def plain_file_def
  have len: "\<forall>b \<in> set [?a]. length b = 32" "\<forall>b \<in> set [?r, ?b]. length b = 32" by (simp_all add: sample_dir_entry_def)
  obtain block fs' where r: "read_cluster_poll (\<lambda>n off. Inr (concat [?a])) (sample_fat\<lparr>fs_block_size := of_nat (32 * length [?a])\<rparr>)
      (ucast (fd_first_cluster ?e)) = (Inr block, fs')" "db_data block = concat [?a]" "unat (fs_block_size fs' div 32) = length [?a]"
    using sample_dir [OF len(1)] by auto
  have "plain_dir [?a]" "item_names (dir_items [] [?a]) = [take 11 ?a]" by (simp_all add: defs item_names_def)
  then have 1: "\<exists>dev fs fs'. fat_list_dir dev fs ?e = Some (Inr (Inr [take 11 ?a], fs'))"
    using fat_directory [OF dir r(1,2) len(1) r(3)] by (metis (no_types))
  obtain block fs' where q: "read_cluster_poll (\<lambda>n off. Inr (concat [?r, ?b])) (sample_fat\<lparr>fs_block_size := of_nat (32 * length [?r, ?b])\<rparr>)
      (ucast (fd_first_cluster ?e)) = (Inr block, fs')" "db_data block = concat [?r, ?b]" "unat (fs_block_size fs' div 32) = length [?r, ?b]"
    using sample_dir [OF len(2)] by auto
  have "[?r, ?b] = [] @ ?r # ?b # [] \<and> plain_dir [] \<and> plain_dir [] \<and> used_entry ?r \<and> read_only ?r \<and> last_part ?r" by (simp add: defs)
  note hidden = mp [OF spec [OF spec [OF spec [OF spec [OF conjunct2 [OF fat_directory [OF dir q(1,2) len(2) q(3)]]]]]] this]
  have "long_name_part (long_entry ?r) = [32, 32, 32, 32, 32]"
    by (simp add: long_name_part_def name_units_def long_entry_def units_def field_def sample_dir_entry_def upt_rec le_word_replicate_0)
  then have 2: "\<exists>dev fs fs'. fat_list_dir dev fs ?e = Some (Inr (Inr [[32, 32, 32, 32, 32]], fs'))"
    using hidden by (auto simp: item_names_def)
  have "plain_file ?b \<and> \<not> long_part ?r \<and> \<not> volume_label ?r" by (simp add: defs)
  then have "item_names (dir_items [] [?r, ?b]) = [take 11 ?r, take 11 ?b]" using hidden by (simp add: item_names_def)
  with 1 2 show ?thesis by blast
qed

end
