(* ===== verification/Loader.thy ===== *)
theory Loader
  imports ByteViews
begin

text \<open>
  \<^verbatim>\<open>Kernel/Process/Loader\<close>: the structures of \<^verbatim>\<open>ELF.h\<close>, decoded from the bytes of the loaded
  buffer, the checks of \<^verbatim>\<open>Loader::validate_elf_header\<close>, the parser of the \<^verbatim>\<open>.modinfo\<close> section
  and the part of \<^verbatim>\<open>load_module\<close> that is written.  The buffer \<^verbatim>\<open>Array<u8>\<close> is its address and
  its size in memory, so that reads outside of it read other memory, as they do in the kernel.
\<close>

section \<open>\<^verbatim>\<open>ELF.h\<close>\<close>

datatype FileType = FT_None | FT_Relocatable | FT_Executable | FT_Dynamic | FT_Core

fun file_type_value :: "FileType \<Rightarrow> u16" where
  "file_type_value FT_None = 0"
| "file_type_value FT_Relocatable = 1"
| "file_type_value FT_Executable = 2"
| "file_type_value FT_Dynamic = 3"
| "file_type_value FT_Core = 4"

datatype Machine = Machine_None | Machine_X86_64 | Machine_RISCV

fun machine_value :: "Machine \<Rightarrow> u16" where
  "machine_value Machine_None = 0"
| "machine_value Machine_X86_64 = 62"
| "machine_value Machine_RISCV = 243"

datatype SegmentType = Segment_Null | Segment_Load | Segment_Dynamic | Segment_Interp | Segment_Note | Segment_ShLib
  | Segment_Phdr | Segment_TLS

fun segment_type_value :: "SegmentType \<Rightarrow> u32" where
  "segment_type_value Segment_Null = 0"
| "segment_type_value Segment_Load = 1"
| "segment_type_value Segment_Dynamic = 2"
| "segment_type_value Segment_Interp = 3"
| "segment_type_value Segment_Note = 4"
| "segment_type_value Segment_ShLib = 5"
| "segment_type_value Segment_Phdr = 6"
| "segment_type_value Segment_TLS = 7"

datatype SegmentFlags = Segment_Execute | Segment_Write | Segment_Read | Segment_ReadWrite | Segment_ReadExecute
  | Segment_ReadWriteExecute

fun segment_flags_value :: "SegmentFlags \<Rightarrow> u32" where
  "segment_flags_value Segment_Execute = 1"
| "segment_flags_value Segment_Write = 2"
| "segment_flags_value Segment_Read = 4"
| "segment_flags_value Segment_ReadWrite = 6"
| "segment_flags_value Segment_ReadExecute = 5"
| "segment_flags_value Segment_ReadWriteExecute = 7"

datatype SectionType = Section_Null | Section_ProgBits | Section_SymTab | Section_StrTab | Section_Rela | Section_Hash
  | Section_Dynamic | Section_Note | Section_NoBits | Section_Rel | Section_ShLib | Section_DynSym
  | Section_RiscvAttributes

fun section_type_value :: "SectionType \<Rightarrow> u32" where
  "section_type_value Section_Null = 0"
| "section_type_value Section_ProgBits = 1"
| "section_type_value Section_SymTab = 2"
| "section_type_value Section_StrTab = 3"
| "section_type_value Section_Rela = 4"
| "section_type_value Section_Hash = 5"
| "section_type_value Section_Dynamic = 6"
| "section_type_value Section_Note = 7"
| "section_type_value Section_NoBits = 8"
| "section_type_value Section_Rel = 9"
| "section_type_value Section_ShLib = 10"
| "section_type_value Section_DynSym = 11"
| "section_type_value Section_RiscvAttributes = 0x70000003"

datatype SectionFlags = Section_Write | Section_Alloc | Section_ExecInstr | Section_Merge | Section_Strings

fun section_flags_value :: "SectionFlags \<Rightarrow> u64" where
  "section_flags_value Section_Write = push_bit 0 1"
| "section_flags_value Section_Alloc = push_bit 1 1"
| "section_flags_value Section_ExecInstr = push_bit 2 1"
| "section_flags_value Section_Merge = push_bit 4 1"
| "section_flags_value Section_Strings = push_bit 5 1"

datatype SymbolType = Symbol_NoType | Symbol_Object | Symbol_Func | Symbol_Section | Symbol_File

fun symbol_type_value :: "SymbolType \<Rightarrow> u8" where
  "symbol_type_value Symbol_NoType = 0"
| "symbol_type_value Symbol_Object = 1"
| "symbol_type_value Symbol_Func = 2"
| "symbol_type_value Symbol_Section = 3"
| "symbol_type_value Symbol_File = 4"

datatype SymbolBinding = Binding_Local | Binding_Global | Binding_Weak

fun symbol_binding_value :: "SymbolBinding \<Rightarrow> u8" where
  "symbol_binding_value Binding_Local = 0"
| "symbol_binding_value Binding_Global = 1"
| "symbol_binding_value Binding_Weak = 2"

datatype RelocationType = R_None | R_Riscv32 | R_Riscv64 | R_Relative | R_Copy | R_JumpSlot | R_TlsDtpMod64
  | R_TlsDtpRel64 | R_TlsTpRel64 | R_Branch | R_Jal | R_Call | R_CallPlt | R_GotHi20 | R_PcrelHi20 | R_PcrelLo12I
  | R_PcrelLo12S | R_Hi20 | R_Lo12I | R_Lo12S | R_TpRelHi20 | R_TpRelLo12I | R_TpRelLo12S | R_Add64 | R_Sub64

fun relocation_type_value :: "RelocationType \<Rightarrow> u32" where
  "relocation_type_value R_None = 0"
| "relocation_type_value R_Riscv32 = 1"
| "relocation_type_value R_Riscv64 = 2"
| "relocation_type_value R_Relative = 3"
| "relocation_type_value R_Copy = 4"
| "relocation_type_value R_JumpSlot = 5"
| "relocation_type_value R_TlsDtpMod64 = 7"
| "relocation_type_value R_TlsDtpRel64 = 9"
| "relocation_type_value R_TlsTpRel64 = 11"
| "relocation_type_value R_Branch = 16"
| "relocation_type_value R_Jal = 17"
| "relocation_type_value R_Call = 18"
| "relocation_type_value R_CallPlt = 19"
| "relocation_type_value R_GotHi20 = 20"
| "relocation_type_value R_PcrelHi20 = 23"
| "relocation_type_value R_PcrelLo12I = 24"
| "relocation_type_value R_PcrelLo12S = 25"
| "relocation_type_value R_Hi20 = 26"
| "relocation_type_value R_Lo12I = 27"
| "relocation_type_value R_Lo12S = 28"
| "relocation_type_value R_TpRelHi20 = 29"
| "relocation_type_value R_TpRelLo12I = 30"
| "relocation_type_value R_TpRelLo12S = 31"
| "relocation_type_value R_Add64 = 36"
| "relocation_type_value R_Sub64 = 40"

record ElfHeader =
  eh_ident :: "u8 list"
  eh_type :: u16
  eh_machine :: u16
  eh_version :: u32
  eh_entry :: u64
  eh_program_header_offset :: u64
  eh_section_header_offset :: u64
  eh_flags :: u32
  eh_elf_header_size :: u16
  eh_program_header_entry_size :: u16
  eh_program_header_entry_count :: u16
  eh_section_header_entry_size :: u16
  eh_section_header_entry_count :: u16
  eh_section_header_string_table_index :: u16

definition elf_header :: "u8 list \<Rightarrow> ElfHeader" where
  "elf_header d = \<lparr>eh_ident = byte_field 0 16 d, eh_type = field 16 2 d, eh_machine = field 18 2 d,
     eh_version = field 20 4 d, eh_entry = field 24 8 d, eh_program_header_offset = field 32 8 d,
     eh_section_header_offset = field 40 8 d, eh_flags = field 48 4 d, eh_elf_header_size = field 52 2 d,
     eh_program_header_entry_size = field 54 2 d, eh_program_header_entry_count = field 56 2 d,
     eh_section_header_entry_size = field 58 2 d, eh_section_header_entry_count = field 60 2 d,
     eh_section_header_string_table_index = field 62 2 d\<rparr>"

record ProgramHeader =
  ph_type :: u32
  ph_flags :: u32
  ph_offset :: u64
  ph_virtual_address :: u64
  ph_physical_address :: u64
  ph_in_file_size :: u64
  ph_in_memory_size :: u64
  ph_align :: u64

definition program_header :: "u8 list \<Rightarrow> ProgramHeader" where
  "program_header d = \<lparr>ph_type = field 0 4 d, ph_flags = field 4 4 d, ph_offset = field 8 8 d,
     ph_virtual_address = field 16 8 d, ph_physical_address = field 24 8 d, ph_in_file_size = field 32 8 d,
     ph_in_memory_size = field 40 8 d, ph_align = field 48 8 d\<rparr>"

definition ph_is_readable :: "ProgramHeader \<Rightarrow> bool" where
  "ph_is_readable p = (ph_flags p AND segment_flags_value Segment_Read \<noteq> 0)"

definition ph_is_writable :: "ProgramHeader \<Rightarrow> bool" where
  "ph_is_writable p = (ph_flags p AND segment_flags_value Segment_Write \<noteq> 0)"

definition ph_is_executable :: "ProgramHeader \<Rightarrow> bool" where
  "ph_is_executable p = (ph_flags p AND segment_flags_value Segment_Execute \<noteq> 0)"

record SectionHeader =
  sh_name_index :: u32
  sh_type :: u32
  sh_flags :: u64
  sh_addr :: u64
  sh_offset :: u64
  sh_size :: u64
  sh_link :: u32
  sh_info :: u32
  sh_align :: u64
  sh_entry_size :: u64

definition section_header :: "u8 list \<Rightarrow> SectionHeader" where
  "section_header d = \<lparr>sh_name_index = field 0 4 d, sh_type = field 4 4 d, sh_flags = field 8 8 d,
     sh_addr = field 16 8 d, sh_offset = field 24 8 d, sh_size = field 32 8 d, sh_link = field 40 4 d,
     sh_info = field 44 4 d, sh_align = field 48 8 d, sh_entry_size = field 56 8 d\<rparr>"

definition sh_is_writable :: "SectionHeader \<Rightarrow> bool" where
  "sh_is_writable h = (sh_flags h AND section_flags_value Section_Write \<noteq> 0)"

definition sh_is_alloc :: "SectionHeader \<Rightarrow> bool" where
  "sh_is_alloc h = (sh_flags h AND section_flags_value Section_Alloc \<noteq> 0)"

definition sh_is_executable :: "SectionHeader \<Rightarrow> bool" where
  "sh_is_executable h = (sh_flags h AND section_flags_value Section_ExecInstr \<noteq> 0)"

record ElfSymbol =
  sy_name_index :: u32
  sy_info :: u8
  sy_other :: u8
  sy_section_index :: u16
  sy_value :: u64
  sy_size :: u64

definition elf_symbol :: "u8 list \<Rightarrow> ElfSymbol" where
  "elf_symbol d = \<lparr>sy_name_index = field 0 4 d, sy_info = field 4 1 d, sy_other = field 5 1 d,
     sy_section_index = field 6 2 d, sy_value = field 8 8 d, sy_size = field 16 8 d\<rparr>"

definition symbol_binding :: "ElfSymbol \<Rightarrow> u8" where
  "symbol_binding s = drop_bit 4 (sy_info s)"

definition symbol_type :: "ElfSymbol \<Rightarrow> u8" where
  "symbol_type s = sy_info s AND 0xF"

record Relocation =
  re_offset :: u64
  re_info :: u64
  re_addend :: u64

definition relocation :: "u8 list \<Rightarrow> Relocation" where
  "relocation d = \<lparr>re_offset = field 0 8 d, re_info = field 8 8 d, re_addend = field 16 8 d\<rparr>"

definition relocation_symbol_index :: "Relocation \<Rightarrow> u32" where
  "relocation_symbol_index r = ucast (drop_bit 32 (re_info r))"

definition relocation_type :: "Relocation \<Rightarrow> u32" where
  "relocation_type r = ucast (re_info r AND 0xFFFFFFFF)"

section \<open>\<^verbatim>\<open>validate_elf_header\<close>\<close>

text \<open>The constants the loader takes from \<^verbatim>\<open>ELFDefs.h\<close>.\<close>

definition ELFMAG :: "u8 list" where "ELFMAG = [0x7f, 0x45, 0x4c, 0x46]"
definition SELFMAG :: size_t where "SELFMAG = 4"
definition EI_CLASS :: nat where "EI_CLASS = 4"
definition ELFCLASS64 :: u8 where "ELFCLASS64 = 2"
definition EI_DATA :: nat where "EI_DATA = 5"
definition ELFDATA2LSB :: u8 where "ELFDATA2LSB = 1"
definition EV_CURRENT :: u32 where "EV_CURRENT = 1"

text \<open>
  \<^verbatim>\<open>count * size\<close> of two \<^verbatim>\<open>u16\<close>: both are promoted to \<^verbatim>\<open>int\<close>, where a product of \<^verbatim>\<open>2^31\<close> or more
  is undefined.
\<close>

definition table_bytes :: "u16 \<Rightarrow> u16 \<Rightarrow> u64 exec" where
  "table_bytes count entry = (if unat count * unat entry < 2 ^ 31 then Inr (ucast count * ucast entry) else Inl IntegerOverflow)"

text \<open>
  The buffer is \<^verbatim>\<open>sz\<close> bytes at \<^verbatim>\<open>buffer\<close>; \<^verbatim>\<open>elfmag\<close> is the address of the string literal
  \<^verbatim>\<open>ELFMAG\<close>.  The result is the pointer to the header, which is \<^verbatim>\<open>buffer\<close> itself.
\<close>

definition validate_elf_header :: "pmem \<Rightarrow> u64 \<Rightarrow> u64 \<Rightarrow> size_t \<Rightarrow> FileType \<Rightarrow> u64 error_or exec" where
  "validate_elf_header m elfmag buffer sz expected_type =
     (if sz < 64 then Inr (Inl (create_from_string ''ELF buffer too small to contain ELF header''))
      else let h = elf_header (read_bytes m buffer 64) in
        if memcmp m buffer elfmag SELFMAG then Inr (Inl (create_from_string ''Invalid ELF magic''))
        else if eh_ident h ! EI_CLASS \<noteq> ELFCLASS64 then Inr (Inl (create_from_string ''Unsupported ELF class''))
        else if eh_ident h ! EI_DATA \<noteq> ELFDATA2LSB then Inr (Inl (create_from_string ''Unsupported ELF data encoding''))
        else if eh_machine h \<noteq> machine_value Machine_RISCV then Inr (Inl (create_from_string ''Unsupported ELF machine type''))
        else if eh_version h \<noteq> EV_CURRENT then Inr (Inl (create_from_string ''Unsupported ELF version''))
        else if eh_type h \<noteq> file_type_value expected_type \<and>
                \<not> (expected_type = FT_Executable \<and> eh_type h = file_type_value FT_Dynamic)
        then Inr (Inl (create_from_string ''Unexpected ELF type''))
        else exec_bind (table_bytes (eh_program_header_entry_count h) (eh_program_header_entry_size h)) (\<lambda>bytes.
          if eh_program_header_offset h + bytes > sz
          then Inr (Inl (create_from_string ''ELF program headers exceed ELF buffer size''))
          else exec_bind (table_bytes (eh_section_header_entry_count h) (eh_section_header_entry_size h)) (\<lambda>bytes.
            if eh_section_header_offset h + bytes > sz
            then Inr (Inl (create_from_string ''ELF section headers exceed ELF buffer size''))
            else Inr (Inr buffer))))"

section \<open>\<^verbatim>\<open>parse_modinfo\<close>\<close>

type_synonym ModuleProperty = "cstr \<times> cstr"

datatype ModinfoState = Key | Value

text \<open>
  The loop over the bytes of the section, with its local variables; \<^verbatim>\<open>out_properties\<close> is a
  reference, so what has been added stays added when the function returns an error.
  \<^verbatim>\<open>char\<close> is unsigned on RISC-V.
\<close>

fun modinfo_loop :: "u8 list \<Rightarrow> ModinfoState \<Rightarrow> cstr \<Rightarrow> ModuleProperty \<Rightarrow> ModuleProperty list \<Rightarrow>
    ModuleProperty list \<times> unit error_or" where
  "modinfo_loop [] state current_string current_property out_properties =
     (out_properties, if state = Value then Inl (create_from_string ''Unexpected end of modinfo. Expected null terminator after value.'') else Inr ())"
| "modinfo_loop (c # data) state current_string current_property out_properties =
     (if state = Key then
        if c = 61 then modinfo_loop data Value [] (current_string, snd current_property) out_properties
        else if c = 0 then (out_properties, Inl (create_from_string ''Unexpected end of line. Expected '=' separator.''))
        else if is_printable (ucast c) then modinfo_loop data Key (current_string @ [c]) current_property out_properties
        else (out_properties, Inl (create_from_string ''Invalid character in modinfo key.''))
      else
        if c = 0 then modinfo_loop data Key [] ([], []) (out_properties @ [(fst current_property, current_string)])
        else if is_printable (ucast c) then modinfo_loop data Value (current_string @ [c]) current_property out_properties
        else (out_properties, Inl (create_from_string ''Invalid character in modinfo value.'')))"

definition parse_modinfo :: "pmem \<Rightarrow> u64 \<Rightarrow> SectionHeader \<Rightarrow> ModuleProperty list \<Rightarrow> ModuleProperty list \<times> unit error_or" where
  "parse_modinfo m buffer h out_properties =
     modinfo_loop (read_bytes m (buffer + sh_offset h) (unat (sh_size h))) Key [] ([], []) out_properties"

section \<open>\<^verbatim>\<open>load_module\<close>\<close>

record ModuleHeader =
  mh_magic :: u32
  mh_abi_version :: u32
  mh_init :: u64
  mh_cleanup :: u64

definition module_header_of :: "u8 list \<Rightarrow> ModuleHeader" where
  "module_header_of d = \<lparr>mh_magic = field 0 4 d, mh_abi_version = field 4 4 d, mh_init = field 8 8 d, mh_cleanup = field 16 8 d\<rparr>"

datatype MemoryRegionPermissions = Perm_Read | Perm_Write | Perm_Execute

fun permission_value :: "MemoryRegionPermissions \<Rightarrow> u8" where
  "permission_value Perm_Read = push_bit 0 1"
| "permission_value Perm_Write = push_bit 1 1"
| "permission_value Perm_Execute = push_bit 2 1"

definition section_permissions :: "SectionHeader \<Rightarrow> u8" where
  "section_permissions h =
     (let permissions = permission_value Perm_Read;
          permissions = (if sh_flags h AND section_flags_value Section_Write \<noteq> 0
                         then permissions OR permission_value Perm_Write else permissions)
      in if sh_flags h AND section_flags_value Section_ExecInstr \<noteq> 0
         then permissions OR permission_value Perm_Execute else permissions)"

text \<open>
  \<^verbatim>\<open>load_module\<close> with \<^verbatim>\<open>get_section_header\<close>, which is declared and has no body, as a parameter.
  \<^verbatim>\<open>visit_section\<close> is the body of the loop.  The permissions of a section to be loaded are computed
  and dropped, and the function then ends without a \<^verbatim>\<open>return\<close>.
\<close>

type_synonym section_lookup = "pmem \<Rightarrow> u64 \<Rightarrow> size_t \<Rightarrow> size_t \<Rightarrow> SectionHeader error_or exec"

record LoadState =
  ld_properties :: "ModuleProperty list"
  ld_header :: ModuleHeader

definition visit_section :: "pmem \<Rightarrow> u64 \<Rightarrow> cstr \<Rightarrow> SectionHeader \<Rightarrow> LoadState \<Rightarrow> LoadState error_or" where
  "visit_section m buffer section_name h s =
     (let (properties, r) = (if section_name = cchars ''.modinfo'' then parse_modinfo m buffer h (ld_properties s)
                             else (ld_properties s, Inr ()));
          s = s\<lparr>ld_properties := properties\<rparr>
      in case r of Inl e \<Rightarrow> Inl e
         | Inr _ \<Rightarrow>
             if section_name = cchars ''.module_header'' then
               if sh_size h \<noteq> 24 then Inl (create_from_string ''Invalid .module_header size'')
               else Inr (s\<lparr>ld_header := module_header_of (read_bytes m (buffer + sh_offset h) 24)\<rparr>)
             else Inr s)"

definition section_step ::
    "section_lookup \<Rightarrow> pmem \<Rightarrow> u64 \<Rightarrow> size_t \<Rightarrow> u64 \<Rightarrow> size_t \<Rightarrow> LoadState \<Rightarrow> LoadState error_or run" where
  "section_step get_section_header m buffer sz names i s =
     run_bind (Some (get_section_header m buffer sz i)) (\<lambda>r. case r of Inl e \<Rightarrow> Some (Inr (Inl e))
     | Inr h \<Rightarrow> Option.bind (mem_cstr m (names + ucast (sh_name_index h))) (\<lambda>section_name.
         Some (Inr (visit_section m buffer section_name h s))))"

partial_function (option) load_sections ::
    "section_lookup \<Rightarrow> pmem \<Rightarrow> u64 \<Rightarrow> size_t \<Rightarrow> u64 \<Rightarrow> size_t \<Rightarrow> size_t \<Rightarrow> LoadState \<Rightarrow> LoadState error_or run" where
  "load_sections get_section_header m buffer sz names count i s =
     (if i < count then
        Option.bind (section_step get_section_header m buffer sz names i s) (\<lambda>r.
          case r of Inl f \<Rightarrow> Some (Inl f)
          | Inr v \<Rightarrow> (case v of Inl e \<Rightarrow> Some (Inr (Inl e))
             | Inr s' \<Rightarrow> load_sections get_section_header m buffer sz names count (i + 1) s'))
      else Some (Inr (Inr s)))"

definition load_module :: "section_lookup \<Rightarrow> pmem \<Rightarrow> u64 \<Rightarrow> u64 \<Rightarrow> size_t \<Rightarrow> unit error_or run" where
  "load_module get_section_header m elfmag buffer sz =
     run_bind (Some (validate_elf_header m elfmag buffer sz FT_Relocatable)) (\<lambda>v. case v of Inl e \<Rightarrow> Some (Inr (Inl e))
     | Inr a \<Rightarrow>
         let header = elf_header (read_bytes m a 64) in
         run_bind (Some (get_section_header m buffer sz (ucast (eh_section_header_string_table_index header)))) (\<lambda>r.
           case r of Inl e \<Rightarrow> Some (Inr (Inl e))
           | Inr shstrtab \<Rightarrow>
               run_bind (load_sections get_section_header m buffer sz (buffer + sh_offset shstrtab)
                          (ucast (eh_section_header_entry_count header)) 0
                          \<lparr>ld_properties = [], ld_header = module_header_of (replicate 24 0)\<rparr>) (\<lambda>r.
                 case r of Inl e \<Rightarrow> Some (Inr (Inl e)) | Inr _ \<Rightarrow> Some (Inl MissingReturn))))"

section \<open>What the checks accept\<close>

text \<open>The table of \<^verbatim>\<open>count\<close> entries of \<^verbatim>\<open>entry\<close> bytes at \<^verbatim>\<open>offset\<close>, as the code tests it: modulo the address space.\<close>

definition table_accepted :: "u64 \<Rightarrow> u16 \<Rightarrow> u16 \<Rightarrow> u64 \<Rightarrow> bool" where
  "table_accepted offset count entry sz \<longleftrightarrow>
     unat count * unat entry < 2 ^ 31 \<and> (unat offset + unat count * unat entry) mod 2 ^ 64 \<le> unat sz"

definition type_accepted :: "FileType \<Rightarrow> u16 \<Rightarrow> bool" where
  "type_accepted expected t \<longleftrightarrow>
     t = file_type_value expected \<or> expected = FT_Executable \<and> t = file_type_value FT_Dynamic"

lemma unat_table:
  fixes c e :: u16 and offset :: u64
  assumes "unat c * unat e < 2 ^ 31"
  shows "unat (offset + ucast c * ucast e) = (unat offset + unat c * unat e) mod 2 ^ 64"
proof -
  have "unat (ucast c :: u64) = unat c" "unat (ucast e :: u64) = unat e" by (simp_all add: unat_ucast_up)
  moreover from this have "unat (ucast c * ucast e :: u64) = unat c * unat e"
    using assms by (subst unat_mult_no_wrap) simp_all
  ultimately show ?thesis by (simp add: unat_word_ariths(1))
qed

lemma table_accepted_iff:
  "table_accepted offset c e sz \<longleftrightarrow> (\<exists>b. table_bytes c e = Inr b \<and> \<not> offset + b > sz)"
proof (cases "unat c * unat e < 2 ^ 31")
  case True
  then show ?thesis using unat_table [OF True, of offset]
    by (simp add: table_accepted_def table_bytes_def not_less word_le_nat_alt)
qed (simp add: table_accepted_def table_bytes_def)

lemma validate_elf_header_iff:
  "validate_elf_header m elfmag b sz expected = Inr (Inr a) \<longleftrightarrow>
     (let h = elf_header (read_bytes m b 64) in
      a = b \<and> 64 \<le> sz \<and> \<not> memcmp m b elfmag SELFMAG \<and> eh_ident h ! EI_CLASS = ELFCLASS64 \<and>
      eh_ident h ! EI_DATA = ELFDATA2LSB \<and> eh_machine h = machine_value Machine_RISCV \<and> eh_version h = EV_CURRENT \<and>
      type_accepted expected (eh_type h) \<and>
      table_accepted (eh_program_header_offset h) (eh_program_header_entry_count h) (eh_program_header_entry_size h) sz \<and>
      table_accepted (eh_section_header_offset h) (eh_section_header_entry_count h) (eh_section_header_entry_size h) sz)"
  unfolding validate_elf_header_def table_accepted_iff type_accepted_def Let_def
  by (auto simp: exec_bind_eq_Inr not_less not_le split: if_splits)

definition elf_magic_at :: "pmem \<Rightarrow> u64 \<Rightarrow> bool" where
  "elf_magic_at m a \<longleftrightarrow> read_bytes m a 4 = ELFMAG"

lemma memcmp_magic:
  "elf_magic_at m elfmag \<Longrightarrow> memcmp m b elfmag SELFMAG \<longleftrightarrow> elf_magic_at m b"
  by (simp add: memcmp_iff_read_bytes SELFMAG_def elf_magic_at_def)

lemma table_accepted_inside:
  assumes "table_accepted offset c e sz" "unat offset + unat c * unat e < 2 ^ 64"
  shows "unat offset + unat c * unat e \<le> unat sz"
  using assms by (simp add: table_accepted_def)

text \<open>
  C26. \<^verbatim>\<open>Loader::validate_elf_header\<close> accepts a buffer exactly when it has at least the 64 bytes of a
  header, its first four bytes are \<^emph>\<open>not\<close> the ELF magic (the \<^verbatim>\<open>memcmp\<close> of the kernel returns true for equal
  bytes, and the code compares the result with 0 as for the C function), it is a 64-bit
  little-endian RISC-V file of the current version and of the expected type, a shared object
  counting as an executable, and the end of each of the two header tables, computed modulo \<^verbatim>\<open>2^64\<close>, is not
  behind the buffer; a table whose end does not wrap around then lies in the buffer, while a table
  of one entry that starts 64 bytes before the end of the address space is accepted in
  every buffer.  Hence every genuine ELF file is refused with \<^verbatim>\<open>Invalid ELF magic\<close>, by
  \<^verbatim>\<open>load_module\<close> too, and \<^verbatim>\<open>load_module\<close> never succeeds: what gets past
  the checks runs off the end of the function.
\<close>

theorem elf_validation:
  assumes "elf_magic_at m elfmag"
  shows "(validate_elf_header m elfmag b sz expected = Inr (Inr a) \<longleftrightarrow>
     (let h = elf_header (read_bytes m b 64) in
      a = b \<and> 64 \<le> sz \<and> \<not> elf_magic_at m b \<and> eh_ident h ! EI_CLASS = ELFCLASS64 \<and>
      eh_ident h ! EI_DATA = ELFDATA2LSB \<and> eh_machine h = machine_value Machine_RISCV \<and> eh_version h = EV_CURRENT \<and>
      type_accepted expected (eh_type h) \<and>
      table_accepted (eh_program_header_offset h) (eh_program_header_entry_count h) (eh_program_header_entry_size h) sz \<and>
      table_accepted (eh_section_header_offset h) (eh_section_header_entry_count h) (eh_section_header_entry_size h) sz)) \<and>
     (64 \<le> sz \<and> elf_magic_at m b \<longrightarrow>
        validate_elf_header m elfmag b sz expected = Inr (Inl (create_from_string ''Invalid ELF magic'')) \<and>
        load_module get_section_header m elfmag b sz = Some (Inr (Inl (create_from_string ''Invalid ELF magic'')))) \<and>
     (sz < 64 \<longrightarrow> validate_elf_header m elfmag b sz expected =
        Inr (Inl (create_from_string ''ELF buffer too small to contain ELF header''))) \<and>
     (table_accepted offset c e sz \<and> unat offset + unat c * unat e < 2 ^ 64 \<longrightarrow> unat offset + unat c * unat e \<le> unat sz) \<and>
     table_accepted (- 64) 1 64 sz \<and>
     load_module get_section_header m elfmag b sz \<noteq> Some (Inr (Inr ()))"
proof (intro conjI impI)
  show "validate_elf_header m elfmag b sz expected = Inr (Inr a) \<longleftrightarrow>
     (let h = elf_header (read_bytes m b 64) in
      a = b \<and> 64 \<le> sz \<and> \<not> elf_magic_at m b \<and> eh_ident h ! EI_CLASS = ELFCLASS64 \<and>
      eh_ident h ! EI_DATA = ELFDATA2LSB \<and> eh_machine h = machine_value Machine_RISCV \<and> eh_version h = EV_CURRENT \<and>
      type_accepted expected (eh_type h) \<and>
      table_accepted (eh_program_header_offset h) (eh_program_header_entry_count h) (eh_program_header_entry_size h) sz \<and>
      table_accepted (eh_section_header_offset h) (eh_section_header_entry_count h) (eh_section_header_entry_size h) sz)"
    unfolding validate_elf_header_iff memcmp_magic [OF assms] ..
  show "unat offset + unat c * unat e \<le> unat sz"
    if "table_accepted offset c e sz \<and> unat offset + unat c * unat e < 2 ^ 64" using table_accepted_inside that by blast
  have magic: "validate_elf_header m elfmag b sz t = Inr (Inl (create_from_string ''Invalid ELF magic''))"
    if "64 \<le> sz \<and> elf_magic_at m b" for t
  proof -
    have "\<not> sz < 64" using that by (simp add: not_less)
    then show ?thesis using that by (simp add: validate_elf_header_def memcmp_magic [OF assms])
  qed
  then show "validate_elf_header m elfmag b sz expected = Inr (Inl (create_from_string ''Invalid ELF magic''))"
    if "64 \<le> sz \<and> elf_magic_at m b" using that by blast
  show "load_module get_section_header m elfmag b sz = Some (Inr (Inl (create_from_string ''Invalid ELF magic'')))"
    if "64 \<le> sz \<and> elf_magic_at m b" using magic [OF that] by (simp add: load_module_def)
  show "table_accepted (- 64) 1 64 sz" by (simp add: table_accepted_def)
  show "load_module get_section_header m elfmag b sz \<noteq> Some (Inr (Inr ()))"
    by (auto simp: load_module_def run_bind_def Let_def split: option.splits sum.splits)
qed (simp add: validate_elf_header_def)

text \<open>A header that passes: its first byte is not \<^verbatim>\<open>0x7f\<close>, and its program headers are far outside.\<close>

definition sample_elf_bytes :: "u8 list" where
  "sample_elf_bytes = [0, 0, 0, 0, 2, 1] @ replicate 10 0 @ [1, 0, 243, 0, 1, 0, 0, 0] @ replicate 8 0 @
     [192] @ replicate 7 255 @ replicate 14 0 @ [64, 0, 1, 0] @ replicate 6 0 @ ELFMAG"

lemma sample_elf_reads:
  "read_bytes (list_memory sample_elf_bytes) 0 64 = take 64 sample_elf_bytes"
  "read_bytes (list_memory sample_elf_bytes) 0 4 = take 4 sample_elf_bytes"
  "read_bytes (list_memory sample_elf_bytes) 64 4 = ELFMAG"
proof -
  have l: "length sample_elf_bytes = 68" by (simp add: sample_elf_bytes_def ELFMAG_def)
  show "read_bytes (list_memory sample_elf_bytes) 0 64 = take 64 sample_elf_bytes"
    "read_bytes (list_memory sample_elf_bytes) 0 4 = take 4 sample_elf_bytes"
    using read_bytes_list_memory [of 0 64 sample_elf_bytes] read_bytes_list_memory [of 0 4 sample_elf_bytes] by (simp_all add: l)
  show "read_bytes (list_memory sample_elf_bytes) 64 4 = ELFMAG"
    using read_bytes_list_memory [of 64 4 sample_elf_bytes] by (simp add: l) (simp add: sample_elf_bytes_def ELFMAG_def)
qed

theorem elf_validation_witness:
  "elf_magic_at (list_memory sample_elf_bytes) 64 \<and>
   validate_elf_header (list_memory sample_elf_bytes) 64 0 64 FT_Relocatable = Inr (Inr 0) \<and>
   unat (eh_program_header_offset (elf_header (read_bytes (list_memory sample_elf_bytes) 0 64))) = 2 ^ 64 - 64"
proof -
  have m: "elf_magic_at (list_memory sample_elf_bytes) 64" by (simp add: elf_magic_at_def sample_elf_reads)
  have h: "elf_header (take 64 sample_elf_bytes) = \<lparr>eh_ident = [0, 0, 0, 0, 2, 1, 0, 0, 0, 0, 0, 0, 0, 0, 0, 0], eh_type = 1, eh_machine = 243,
     eh_version = 1, eh_entry = 0, eh_program_header_offset = - 64, eh_section_header_offset = 0, eh_flags = 0,
     eh_elf_header_size = 0, eh_program_header_entry_size = 64, eh_program_header_entry_count = 1,
     eh_section_header_entry_size = 0, eh_section_header_entry_count = 0, eh_section_header_string_table_index = 0\<rparr>"
    by code_simp
  have "take 4 sample_elf_bytes \<noteq> ELFMAG" by code_simp
  then have n: "\<not> elf_magic_at (list_memory sample_elf_bytes) 0" by (simp add: elf_magic_at_def sample_elf_reads)
  show ?thesis
    using m n elf_validation [OF m, of 0 64 FT_Relocatable 0 undefined 0 0 0]
    by (simp add: h sample_elf_reads EI_CLASS_def ELFCLASS64_def EI_DATA_def ELFDATA2LSB_def EV_CURRENT_def type_accepted_def table_accepted_def)
qed

section \<open>The language of \<^verbatim>\<open>.modinfo\<close>\<close>

definition value_char :: "u8 \<Rightarrow> bool" where
  "value_char c \<longleftrightarrow> c \<noteq> 0 \<and> is_printable (ucast c)"

definition key_char :: "u8 \<Rightarrow> bool" where
  "key_char c \<longleftrightarrow> value_char c \<and> c \<noteq> 61"

fun modinfo_render :: "ModuleProperty list \<Rightarrow> u8 list" where
  "modinfo_render [] = []"
| "modinfo_render ((key, val) # ps) = key @ [61] @ val @ [0] @ modinfo_render ps"

definition modinfo_properties_ok :: "ModuleProperty list \<Rightarrow> bool" where
  "modinfo_properties_ok ps \<longleftrightarrow> (\<forall>(key, val) \<in> set ps. list_all key_char key \<and> list_all value_char val)"

lemma modinfo_key_chars:
  "list_all key_char k \<Longrightarrow> modinfo_loop (k @ bs) Key cur p out = modinfo_loop bs Key (cur @ k) p out"
  by (induction k arbitrary: cur) (auto simp: key_char_def value_char_def)

lemma modinfo_value_chars:
  "list_all value_char v \<Longrightarrow> modinfo_loop (v @ bs) Value cur p out = modinfo_loop bs Value (cur @ v) p out"
  by (induction v arbitrary: cur) (auto simp: value_char_def)

lemma modinfo_loop_render:
  assumes "modinfo_properties_ok ps" "list_all key_char rest"
  shows "modinfo_loop (modinfo_render ps @ rest) Key [] ([], []) out = (out @ ps, Inr ())"
  using assms(1)
proof (induction ps arbitrary: out)
  case Nil
  show ?case using modinfo_key_chars [OF assms(2), of "[]"] by simp
next
  case (Cons kv ps)
  obtain k v where kv: "kv = (k, v)" by fastforce
  have ok: "list_all key_char k" "list_all value_char v" "modinfo_properties_ok ps"
    using Cons.prems by (auto simp: modinfo_properties_ok_def kv)
  show ?case using Cons.IH [OF ok(3)] by (simp add: kv modinfo_key_chars ok modinfo_value_chars)
qed

text \<open>What a successful run has read, from any of its states on.\<close>

definition modinfo_read :: "ModinfoState \<Rightarrow> cstr \<Rightarrow> ModuleProperty \<Rightarrow> u8 list" where
  "modinfo_read state cur p = (case state of Key \<Rightarrow> cur | Value \<Rightarrow> fst p @ [61] @ cur)"

definition modinfo_state_ok :: "ModinfoState \<Rightarrow> cstr \<Rightarrow> ModuleProperty \<Rightarrow> bool" where
  "modinfo_state_ok state cur p \<longleftrightarrow>
     (case state of Key \<Rightarrow> list_all key_char cur | Value \<Rightarrow> list_all key_char (fst p) \<and> list_all value_char cur)"

lemma modinfo_loop_sound:
  assumes "modinfo_loop bs state cur p out = (out', Inr ())" "modinfo_state_ok state cur p"
  shows "\<exists>ps rest. out' = out @ ps \<and> modinfo_read state cur p @ bs = modinfo_render ps @ rest \<and>
     modinfo_properties_ok ps \<and> list_all key_char rest"
  using assms
proof (induction bs state cur p out rule: modinfo_loop.induct)
  case (1 state cur p out)
  then have "state = Key" "out' = out" by (auto split: if_splits intro: ModinfoState.exhaust [of state])
  then show ?case using 1 by (intro exI [of _ "[]"] exI [of _ cur]) (simp add: modinfo_read_def modinfo_state_ok_def modinfo_properties_ok_def)
next
  case (2 c bs state cur p out)
  show ?case
  proof (cases "state = Value \<and> c = 0")
    case True
    then have "modinfo_loop bs Key [] ([], []) (out @ [(fst p, cur)]) = (out', Inr ())" using 2(5) by simp
    moreover have "modinfo_state_ok Key [] ([], [])" by (simp add: modinfo_state_ok_def)
    ultimately obtain ps rest where ih: "out' = (out @ [(fst p, cur)]) @ ps" "bs = modinfo_render ps @ rest"
      "modinfo_properties_ok ps" "list_all key_char rest"
      using 2(3) True by (auto simp: modinfo_read_def)
    have "modinfo_properties_ok ((fst p, cur) # ps)" using ih(3) 2(6) True by (simp add: modinfo_properties_ok_def modinfo_state_ok_def)
    then show ?thesis using ih True
      by (intro exI [of _ "(fst p, cur) # ps"] exI [of _ rest]) (simp add: modinfo_read_def)
  next
    case False
    then show ?thesis using 2 by (cases state)
      (auto simp: modinfo_read_def modinfo_state_ok_def key_char_def value_char_def split: if_splits)
  qed
qed

text \<open>
  C27. \<^verbatim>\<open>Loader::parse_modinfo\<close> is the inverse of writing properties as \<^verbatim>\<open>key=value\<close> lines closed by a
  zero byte, keys and values of printable characters, the keys without \<^verbatim>\<open>=\<close>: the lines of any
  properties parse to these properties, added in order, and it succeeds on nothing
  else, except that an unfinished key at the end of the section is dropped silently;
  in every case, errors included, the properties handed in stay in front.
\<close>

theorem modinfo_roundtrip:
  assumes "read_bytes m (buffer + sh_offset h) (unat (sh_size h)) = data"
  shows "(parse_modinfo m buffer h out = (out @ ps, Inr ()) \<longleftrightarrow>
      (\<exists>rest. data = modinfo_render ps @ rest \<and> modinfo_properties_ok ps \<and> list_all key_char rest)) \<and>
    (\<forall>out'. parse_modinfo m buffer h out = (out', Inr ()) \<longrightarrow> (\<exists>ps. out' = out @ ps)) \<and>
    take (length out) (fst (parse_modinfo m buffer h out)) = out"
proof (intro conjI allI impI iffI)
  have p: "parse_modinfo m buffer h out = modinfo_loop data Key [] ([], []) out" by (simp add: parse_modinfo_def assms)
  note sound = modinfo_loop_sound [of data Key "[]" "([], [])" out, folded p]
  show "\<exists>rest. data = modinfo_render ps @ rest \<and> modinfo_properties_ok ps \<and> list_all key_char rest"
    if "parse_modinfo m buffer h out = (out @ ps, Inr ())"
    using sound [OF that] by (simp add: modinfo_read_def modinfo_state_ok_def)
  show "parse_modinfo m buffer h out = (out @ ps, Inr ())"
    if "\<exists>rest. data = modinfo_render ps @ rest \<and> modinfo_properties_ok ps \<and> list_all key_char rest"
    using that modinfo_loop_render by (auto simp: p)
  show "\<exists>ps. out' = out @ ps" if "parse_modinfo m buffer h out = (out', Inr ())" for out'
    using sound [OF that] by (auto simp: modinfo_state_ok_def)
  have "\<exists>ps. fst (modinfo_loop bs s cur q out) = out @ ps" for bs s cur q
    by (induction bs s cur q out rule: modinfo_loop.induct) auto
  then show "take (length out) (fst (parse_modinfo m buffer h out)) = out" by (metis p append_eq_conv_conj)
qed

theorem modinfo_roundtrip_witness:
  "parse_modinfo (list_memory [97, 61, 98, 61, 0, 99]) 0
     \<lparr>sh_name_index = 0, sh_type = 1, sh_flags = 0, sh_addr = 0, sh_offset = 0, sh_size = 6, sh_link = 0, sh_info = 0, sh_align = 0, sh_entry_size = 0\<rparr>
     [] = ([([97], [98, 61])], Inr ())"
proof -
  have r: "read_bytes (list_memory [97, 61, 98, 61, 0, 99]) 0 6 = [97, 61, 98, 61, 0, 99]"
    using read_bytes_list_memory [of 0 6 "[97, 61, 98, 61, 0, 99]"] by simp
  have "\<exists>rest. [97, 61, 98, 61, 0, 99] = modinfo_render [([97], [98, 61])] @ rest \<and>
      modinfo_properties_ok [([97], [98, 61])] \<and> list_all key_char rest"
    by (intro exI [of _ "[99]"]) (simp add: modinfo_properties_ok_def key_char_def value_char_def is_printable_def)
  then show ?thesis
    using modinfo_roundtrip [of "list_memory [97, 61, 98, 61, 0, 99]" 0
      "\<lparr>sh_name_index = 0, sh_type = 1, sh_flags = 0, sh_addr = 0, sh_offset = 0, sh_size = 6, sh_link = 0, sh_info = 0, sh_align = 0, sh_entry_size = 0\<rparr>"
      "[97, 61, 98, 61, 0, 99]" "[]" "[([97], [98, 61])]"] by (simp add: r)
qed

end
