(* ===== verification/Loggers.thy ===== *)
theory Loggers
  imports Traps
begin

text \<open>
  \<^verbatim>\<open>Logger.cpp\<close>: messages go to the SBI console, to a console device or to the log file, a
  \<^verbatim>\<open>CircularStringBuffer\<close>, which \<^verbatim>\<open>dmesg\<close> prints.  The characters given to \<^verbatim>\<open>sbi_console_putchar\<close> are recorded.
\<close>

section \<open>The logger\<close>

datatype LogLevel = LevelError | LevelWarning | LevelInfo | LevelDebug

fun log_level_value :: "LogLevel \<Rightarrow> u8" where
  "log_level_value LevelError = 0"
| "log_level_value LevelWarning = 1"
| "log_level_value LevelInfo = 2"
| "log_level_value LevelDebug = 3"

datatype LogOutput = OutputSBI | OutputConsole | OutputLogFile

record Logger =
  lg_output :: LogOutput
  lg_level :: LogLevel
  lg_console :: "nat option"
  lg_buffer :: CircularStringBuffer
  lg_sbi :: cstr

definition LOGGER_BUFFER_SIZE :: size_t where
  "LOGGER_BUFFER_SIZE = 10000"

definition logger_new :: "Logger exec" where
  "logger_new = exec_bind (csb_new LOGGER_BUFFER_SIZE) (\<lambda>b.
     Inr \<lparr>lg_output = OutputSBI, lg_level = LevelDebug, lg_console = None, lg_buffer = b, lg_sbi = []\<rparr>)"

definition switch_to_sbi :: "Logger \<Rightarrow> Logger" where
  "switch_to_sbi lg = lg\<lparr>lg_output := OutputSBI\<rparr>"

definition switch_to_logfile :: "Logger \<Rightarrow> Logger" where
  "switch_to_logfile lg = lg\<lparr>lg_output := OutputLogFile\<rparr>"

definition switch_to_console :: "Logger \<Rightarrow> Logger" where
  "switch_to_console lg = lg\<lparr>lg_output := OutputConsole\<rparr>"

text \<open>\<^verbatim>\<open>time\<close> is the CSR \<^verbatim>\<open>time\<close>; what \<^verbatim>\<open>write\<close> of the console returns is not looked at.\<close>

definition logger_log :: "u64 \<Rightarrow> cstr \<Rightarrow> LogLevel \<Rightarrow> bool \<Rightarrow> Logger \<times> machine \<Rightarrow> (Logger \<times> machine) run" where
  "logger_log time message level include_timestamp = (\<lambda>(lg, mc).
     if log_level_value level > log_level_value (lg_level lg) then Some (Inr (lg, mc))
     else case lg_output lg of
       OutputSBI \<Rightarrow> Some (Inr (lg\<lparr>lg_sbi := lg_sbi lg @ message\<rparr>, mc))
     | OutputConsole \<Rightarrow>
         (case lg_console lg of None \<Rightarrow> Some (Inr (lg, mc))
          | Some i \<Rightarrow> run_bind (Some (console_write i message mc)) (\<lambda>(_, mc). Some (Inr (lg, mc))))
     | OutputLogFile \<Rightarrow>
         run_bind (if include_timestamp
           then format (cchars ''[{}] {}'') [WordArg (current_time_in_ms time), TextArg message]
           else Some (Inr message)) (\<lambda>text.
         run_bind (Some (csb_write (lg_buffer lg) text (of_nat (length text)))) (\<lambda>b.
           Some (Inr (lg\<lparr>lg_buffer := b\<rparr>, mc)))))"

definition try_console_lookup :: "u64 \<Rightarrow> Logger \<times> machine \<Rightarrow> (Logger \<times> machine) run" where
  "try_console_lookup time = (\<lambda>(lg, mc).
     if lg_console lg \<noteq> None then Some (Inr (lg, mc))
     else case get_devices_of_type TypeConsole mc of
       [] \<Rightarrow> Some (Inr (lg, mc))
     | i # _ \<Rightarrow> logger_log time (cchars ''Logger: Console device found. Switching!'' @ [10]) LevelDebug True
         (lg\<lparr>lg_console := Some i, lg_output := OutputConsole\<rparr>, mc))"

definition log_char :: "u8 \<Rightarrow> Logger \<times> machine \<Rightarrow> (Logger \<times> machine) run" where
  "log_char c = (\<lambda>(lg, mc).
     case lg_console lg of None \<Rightarrow> Some (Inr (lg\<lparr>lg_sbi := lg_sbi lg @ [c]\<rparr>, mc))
     | Some i \<Rightarrow> run_bind (Some (console_write_char i c mc)) (\<lambda>(_, mc). Some (Inr (lg, mc))))"

definition log_to_console :: "u64 \<Rightarrow> cstr \<Rightarrow> Logger \<times> machine \<Rightarrow> (Logger \<times> machine) run" where
  "log_to_console time message = (\<lambda>(lg, mc).
     let previous = lg_output lg in
     run_bind (logger_log time message (lg_level lg) True (lg\<lparr>lg_output := OutputConsole\<rparr>, mc)) (\<lambda>(lg, mc).
       Some (Inr (lg\<lparr>lg_output := previous\<rparr>, mc))))"

definition print_logfile :: "u64 \<Rightarrow> Logger \<times> machine \<Rightarrow> (Logger \<times> machine) run" where
  "print_logfile time = (\<lambda>(lg, mc).
     let previous = lg_output lg in
     run_bind (logger_log time (csb_to_string (lg_buffer lg)) (lg_level lg) True (lg\<lparr>lg_output := OutputConsole\<rparr>, mc)) (\<lambda>(lg, mc).
       Some (Inr (lg\<lparr>lg_output := previous\<rparr>, mc))))"

definition get_buffer_size :: "Logger \<Rightarrow> size_t" where
  "get_buffer_size lg = csb_head (lg_buffer lg)"

text \<open>\<^verbatim>\<open>logln\<close>, behind \<^verbatim>\<open>dbgln\<close>, and \<^verbatim>\<open>logln_direct\<close>, behind \<^verbatim>\<open>dbglog_direct\<close>.\<close>

definition logln :: "u64 \<Rightarrow> cstr \<Rightarrow> format_arg list \<Rightarrow> Logger \<times> machine \<Rightarrow> (Logger \<times> machine) run" where
  "logln time fmt args s =
     run_bind (format fmt args) (\<lambda>message. run_bind (logger_log time message LevelDebug True s) (\<lambda>s.
       logger_log time [10] LevelDebug False s))"

definition logln_direct :: "u64 \<Rightarrow> cstr \<Rightarrow> format_arg list \<Rightarrow> Logger \<times> machine \<Rightarrow> (Logger \<times> machine) run" where
  "logln_direct time fmt args s = run_bind (format fmt args) (\<lambda>message. log_to_console time message s)"

text \<open>
  \<^verbatim>\<open>DebugConsole\<close>: characters go to SBI, and through the logger once \<^verbatim>\<open>switch_to_device\<close> has set \<^verbatim>\<open>use_device\<close>.
\<close>

definition debug_switch_to_device :: bool where
  "debug_switch_to_device = True"

definition debug_print_char :: "bool \<Rightarrow> u8 \<Rightarrow> Logger \<times> machine \<Rightarrow> (Logger \<times> machine) run" where
  "debug_print_char use_device c = (\<lambda>(lg, mc).
     if use_device then log_char c (lg, mc) else Some (Inr (lg\<lparr>lg_sbi := lg_sbi lg @ [c]\<rparr>, mc)))"

fun debug_print :: "bool \<Rightarrow> cstr \<Rightarrow> Logger \<times> machine \<Rightarrow> (Logger \<times> machine) run" where
  "debug_print use_device [] s = Some (Inr s)"
| "debug_print use_device (c # cs) s = run_bind (debug_print_char use_device c s) (debug_print use_device cs)"

definition debug_println :: "bool \<Rightarrow> cstr \<Rightarrow> Logger \<times> machine \<Rightarrow> (Logger \<times> machine) run" where
  "debug_println use_device str s = run_bind (debug_print use_device str s) (debug_print_char use_device 10)"

definition debug_print_number :: "bool \<Rightarrow> u64 \<Rightarrow> u32 \<Rightarrow> Logger \<times> machine \<Rightarrow> (Logger \<times> machine) run" where
  "debug_print_number use_device number base s =
     run_bind (itoa_text number (ucast base)) (\<lambda>buffer. debug_print use_device buffer s)"

definition debug_print_ln_number :: "bool \<Rightarrow> u64 \<Rightarrow> u32 \<Rightarrow> Logger \<times> machine \<Rightarrow> (Logger \<times> machine) run" where
  "debug_print_ln_number use_device number base s =
     run_bind (debug_print_number use_device number base s) (debug_print_char use_device 10)"

text \<open>What the system calls recorded for the logger, in order.\<close>

fun perform_log :: "u64 \<Rightarrow> log_call list \<Rightarrow> Logger \<times> machine \<Rightarrow> (Logger \<times> machine) run" where
  "perform_log time [] s = Some (Inr s)"
| "perform_log time (LogDirect message # calls) s = run_bind (log_to_console time message s) (perform_log time calls)"
| "perform_log time (PrintLogfile # calls) s = run_bind (print_logfile time s) (perform_log time calls)"

section \<open>What is kept and what is printed\<close>

text \<open>The digits of a time stamp and the text of an entry.\<close>

definition stamp :: "u64 \<Rightarrow> cstr" where
  "stamp time = (case to_string_flags time [] of Some (Inr d) \<Rightarrow> [91] @ d @ [93, 32] | _ \<Rightarrow> [])"

fun entry_text :: "u64 \<times> LogLevel \<times> bool \<times> cstr \<Rightarrow> cstr" where
  "entry_text (time, level, ts, message) = (if ts then stamp time @ message else message)"

text \<open>The collected text after an entry: one that does not fit starts the buffer over.\<close>

definition keep :: "nat \<Rightarrow> cstr \<Rightarrow> cstr \<Rightarrow> cstr" where
  "keep cap kept text = (if length kept + length text < cap then kept @ text else text)"

fun log_all :: "(u64 \<times> LogLevel \<times> bool \<times> cstr) list \<Rightarrow> Logger \<times> machine \<Rightarrow> (Logger \<times> machine) run" where
  "log_all [] s = Some (Inr s)"
| "log_all ((time, level, ts, message) # es) s = run_bind (logger_log time message level ts s) (log_all es)"

definition loud :: "LogLevel \<Rightarrow> u64 \<times> LogLevel \<times> bool \<times> cstr \<Rightarrow> bool" where
  "loud l e \<longleftrightarrow> log_level_value (fst (snd e)) \<le> log_level_value l"

lemma stamped:
  "format (cchars ''[{}] {}'') [WordArg time, TextArg message] = Some (Inr (stamp time @ message))"
proof -
  obtain d where d: "to_string_flags time [] = Some (Inr d)"
    using itoa_text_ok [of 10 time] unat_less_power_63 [of 10 time] by (auto simp: to_string_flags_def)
  have f: "cchars ''[{}] {}'' = pieces_format [([91], []), ([93, 32], [])] @ []" by (simp add: cchars_def)
  have i: "idle [] [] \<lparr>fc_escaped = False, fc_open = False, fc_flags = [], fc_result = [], fc_format = cchars ''[{}] {}''\<rparr>"
    by (simp add: idle_def)
  show ?thesis
    using process_from_render [OF _ _ i, of "[([91], []), ([93, 32], [])]" "[WordArg time, TextArg message]" "[]", folded f] d
    by (simp add: plain_def format_def process_def stamp_def split: option.splits)
qed

lemma console_writes_char:
  assumes "console_at mc i n rs a" "uart_open (mc_uarts mc a)"
  shows "console_write_char i c mc = Inr (Inr (), on_uart a (\<lambda>u. u\<lparr>ur_sent := ur_sent u @ [c]\<rparr>) mc)"
proof -
  have "ns_address n mc = Inr a" using assms(1) by (rule console_at_address(2)) simp
  then show ?thesis using assms
    by (auto simp: console_write_char_def console_at_def device_at_def as_console_driver_def ns_write_char_def on_uart_def uart_write_open)
qed

lemma console_writes:
  assumes "console_at mc i n rs a" "uart_open (mc_uarts mc a)"
  shows "console_write i message mc = Inr (Inr (), on_uart a (\<lambda>u. u\<lparr>ur_sent := ur_sent u @ message\<rparr>) mc)"
proof -
  have "fold (\<lambda>c. on_uart a (uart_write 0 c)) message mc = on_uart a (\<lambda>u. u\<lparr>ur_sent := ur_sent u @ message\<rparr>) mc"
    using assms(2)
  proof (induction message arbitrary: mc)
    case (Cons c message)
    then have w: "on_uart a (uart_write 0 c) mc = on_uart a (\<lambda>u. u\<lparr>ur_sent := ur_sent u @ [c]\<rparr>) mc"
      by (simp add: on_uart_def uart_write_open)
    have "uart_open (mc_uarts (on_uart a (\<lambda>u. u\<lparr>ur_sent := ur_sent u @ [c]\<rparr>) mc) a)"
      using Cons.prems by (simp add: on_uart_def uart_open_def)
    from Cons.IH [OF this] show ?case by (simp add: w) (simp add: on_uart_def)
  qed (simp add: on_uart_def)
  moreover have "ns_address n mc = Inr a" using assms(1) by (rule console_at_address(2)) simp
  ultimately show ?thesis using assms(1)
    by (auto simp: console_write_def console_at_def device_at_def as_console_driver_def ns_write_def)
qed

lemma debug_prints:
  "debug_print False str (lg, mc) = Some (Inr (lg\<lparr>lg_sbi := lg_sbi lg @ str\<rparr>, mc))"
  "lg_console lg = Some i \<Longrightarrow> console_at mc i n rs a \<Longrightarrow> uart_open (mc_uarts mc a) \<Longrightarrow>
    debug_print True str (lg, mc) = Some (Inr (lg, on_uart a (\<lambda>u. u\<lparr>ur_sent := ur_sent u @ str\<rparr>) mc))"
proof -
  show "debug_print False str (lg, mc) = Some (Inr (lg\<lparr>lg_sbi := lg_sbi lg @ str\<rparr>, mc))"
    by (induction str arbitrary: lg) (simp_all add: debug_print_char_def)
  show "debug_print True str (lg, mc) = Some (Inr (lg, on_uart a (\<lambda>u. u\<lparr>ur_sent := ur_sent u @ str\<rparr>) mc))"
    if "lg_console lg = Some i" "console_at mc i n rs a" "uart_open (mc_uarts mc a)"
    using that(2,3)
  proof (induction str arbitrary: mc)
    case (Cons c str)
    let ?mc = "on_uart a (\<lambda>u. u\<lparr>ur_sent := ur_sent u @ [c]\<rparr>) mc"
    have step: "debug_print_char True c (lg, mc) = Some (Inr (lg, ?mc))"
      using that(1) console_writes_char [OF Cons.prems] by (simp add: debug_print_char_def log_char_def)
    have keeps: "console_at ?mc i n rs a" "uart_open (mc_uarts ?mc a)"
      using Cons.prems by (simp_all add: on_uart_def uart_open_def console_at_def device_at_def)
    show ?case using Cons.IH [OF keeps] by (simp add: step) (simp add: on_uart_def)
  qed (simp add: on_uart_def)
qed

lemma logger_log_file:
  assumes "lg_output lg = OutputLogFile" "csb_inv (lg_buffer lg)" "unat (csb_size (lg_buffer lg)) < 2 ^ 31"
    and short: "length (entry_text (time, level, ts, message)) < unat (csb_size (lg_buffer lg))"
    and loud: "loud (lg_level lg) (time, level, ts, message)"
  shows "\<exists>b. logger_log time message level ts (lg, mc) = Some (Inr (lg\<lparr>lg_buffer := b\<rparr>, mc)) \<and> csb_inv b \<and>
    csb_size b = csb_size (lg_buffer lg) \<and>
    csb_to_string b = keep (unat (csb_size b)) (csb_to_string (lg_buffer lg)) (entry_text (time, level, ts, message))"
proof -
  let ?t = "entry_text (time, level, ts, message)" and ?b = "lg_buffer lg"
  have u: "unat (of_nat (length ?t) :: size_t) = length ?t" using short assms(3) by (intro unat_of_nat_small) simp
  obtain b where b: "csb_write ?b ?t (of_nat (length ?t)) = Inr b" "csb_inv b" "csb_size b = csb_size ?b"
    "csb_to_string b = (if unat (csb_head ?b) + length ?t < unat (csb_size ?b) then csb_to_string ?b @ ?t else ?t)"
    using csb_write_short [OF assms(2) u assms(3) short] by blast
  have h: "length (csb_to_string ?b) = unat (csb_head ?b)"
    using assms(2) by (simp add: csb_inv_def csb_to_string_def word_less_nat_alt)
  have "logger_log time message level ts (lg, mc) = Some (Inr (lg\<lparr>lg_buffer := b\<rparr>, mc))"
    using assms(1) loud b(1) by (cases ts) (simp_all add: logger_log_def stamped current_time_in_ms_def loud_def not_less)
  moreover have "csb_to_string b = keep (unat (csb_size b)) (csb_to_string ?b) ?t" unfolding keep_def b(3) h by (rule b(4))
  ultimately show ?thesis using b(2,3) by blast
qed

lemma log_all_file:
  assumes "lg_output lg = OutputLogFile" "csb_inv (lg_buffer lg)" "unat (csb_size (lg_buffer lg)) < 2 ^ 31"
    and "\<forall>e \<in> set es. loud (lg_level lg) e \<longrightarrow> length (entry_text e) < unat (csb_size (lg_buffer lg))"
  shows "\<exists>b. log_all es (lg, mc) = Some (Inr (lg\<lparr>lg_buffer := b\<rparr>, mc)) \<and> csb_inv b \<and>
    csb_size b = csb_size (lg_buffer lg) \<and>
    csb_to_string b = foldl (keep (unat (csb_size b))) (csb_to_string (lg_buffer lg)) (map entry_text (filter (loud (lg_level lg)) es))"
  using assms
proof (induction es arbitrary: lg)
  case Nil
  have "lg\<lparr>lg_buffer := lg_buffer lg\<rparr> = lg" by (cases lg) simp
  then show ?case using Nil.prems by (intro exI [of _ "lg_buffer lg"]) simp
next
  case (Cons e es)
  obtain time level ts message where e: "e = (time, level, ts, message)" by (cases e) auto
  show ?case
  proof (cases "loud (lg_level lg) e")
    case True
    obtain b1 where b1: "logger_log time message level ts (lg, mc) = Some (Inr (lg\<lparr>lg_buffer := b1\<rparr>, mc))" "csb_inv b1"
      "csb_size b1 = csb_size (lg_buffer lg)" "csb_to_string b1 = keep (unat (csb_size b1)) (csb_to_string (lg_buffer lg)) (entry_text e)"
      using logger_log_file [OF Cons.prems(1-3)] Cons.prems(4) True unfolding e by (metis list.set_intros(1))
    show ?thesis using Cons.IH [of "lg\<lparr>lg_buffer := b1\<rparr>"] Cons.prems b1 True by (auto simp: e)
  next
    case False
    then have "logger_log time message level ts (lg, mc) = Some (Inr (lg, mc))" by (simp add: logger_log_def loud_def e not_le)
    then show ?thesis using Cons.IH [of lg] Cons.prems False by (auto simp: e)
  qed
qed

lemma log_all_append: "log_all (xs @ ys) s = run_bind (log_all xs s) (log_all ys)"
proof (induction xs arbitrary: s)
  case (Cons e xs)
  show ?case
  proof (cases e)
    case (fields time level ts message)
    then show ?thesis
      by (cases "logger_log time message level ts s"; cases "the (logger_log time message level ts s)") (simp_all add: Cons.IH)
  qed
qed simp

lemma logger_log_write:
  assumes "lg_output lg = OutputLogFile" "loud (lg_level lg) e"
  shows "log_all [e] (lg, mc) = run_bind (Some (csb_write (lg_buffer lg) (entry_text e) (of_nat (length (entry_text e)))))
    (\<lambda>b. Some (Inr (lg\<lparr>lg_buffer := b\<rparr>, mc)))"
proof -
  obtain time level ts message where e: "e = (time, level, ts, message)" by (cases e) auto
  show ?thesis using assms unfolding e
    by (cases ts; cases "csb_write (lg_buffer lg) (entry_text e) (of_nat (length (entry_text e)))")
      (simp_all add: e logger_log_def stamped current_time_in_ms_def loud_def not_less)
qed

text \<open>An entry that does not fit the empty buffer.\<close>

lemma log_overrun:
  assumes "lg_output lg = OutputLogFile" "csb_inv (lg_buffer lg)" "unat (csb_size (lg_buffer lg)) < 2 ^ 31" "loud (lg_level lg) e"
    and "length (entry_text e) < 2 ^ 31"
  shows "unat (csb_size (lg_buffer lg)) < length (entry_text e) \<Longrightarrow> log_all [e] (lg, mc) = Some (Inl OutOfBounds)"
    and "unat (csb_size (lg_buffer lg)) = length (entry_text e) \<Longrightarrow> loud (lg_level lg) e' \<Longrightarrow> length (entry_text e') < 2 ^ 31 \<Longrightarrow>
      log_all [e, e'] (lg, mc) = Some (Inl OutOfBounds)"
proof -
  let ?n = "csb_size (lg_buffer lg)"
  have u: "unat (of_nat (length (entry_text x)) :: size_t) = length (entry_text x)" if "length (entry_text x) < 2 ^ 31" for x
    using that by (intro unat_of_nat_small) simp
  note w = csb_write_flushed [OF assms(2) u [OF assms(5)] assms(3,5)]
  show "log_all [e] (lg, mc) = Some (Inl OutOfBounds)" if "unat ?n < length (entry_text e)"
    using w that unfolding logger_log_write [OF assms(1,4)] by simp
  show "log_all [e, e'] (lg, mc) = Some (Inl OutOfBounds)"
    if eq: "unat ?n = length (entry_text e)" and e': "loud (lg_level lg) e'" "length (entry_text e') < 2 ^ 31"
  proof -
    let ?lg = "lg\<lparr>lg_buffer := \<lparr>csb_buffer = entry_text e, csb_size = ?n, csb_head = ?n\<rparr>\<rparr>"
    have "log_all [e] (lg, mc) = Some (Inr (?lg, mc))" using w eq unfolding logger_log_write [OF assms(1,4)] by simp
    moreover have "log_all [e'] (?lg, mc) = Some (Inl OutOfBounds)"
    proof -
      have "0 < ?n" using assms(2) by (auto simp: csb_inv_def word_less_nat_alt)
      then show ?thesis using csb_full_write [OF eq _ assms(3)] u [OF e'(2)] e'(2) assms(1) e'(1)
        by (subst logger_log_write) simp_all
    qed
    ultimately show ?thesis using log_all_append [of "[e]" "[e']" "(lg, mc)"] by simp
  qed
qed

text \<open>
  C39. The log file and \<^verbatim>\<open>dmesg\<close>.  Messages logged while the output is the log file change nothing but the buffer, those above the
  logger's level nothing at all.  As long as every other entry, with its time stamp, is shorter than the buffer, the buffer collects
  them and starts over with the one that does not fit any more; \<^verbatim>\<open>print_logfile\<close> then sends exactly the collected text to the
  UART of the console and leaves the logger as it was, and a direct message goes only to the UART.  The first
  entry longer than the buffer is written behind its end, whatever the buffer holds; after one of exactly its size, the next entry is.
  (The buffer and these two entries have less than \<^verbatim>\<open>2 ^ 31\<close> bytes; the console is open.)
\<close>

theorem logger_dmesg:
  assumes "lg_output lg = OutputLogFile" "csb_inv (lg_buffer lg)" "unat (csb_size (lg_buffer lg)) < 2 ^ 31"
    and "\<forall>e \<in> set es. loud (lg_level lg) e \<longrightarrow> length (entry_text e) < unat (csb_size (lg_buffer lg))"
    and con: "lg_console lg = Some i" "console_at mc i n rs a" "uart_open (mc_uarts mc a)"
  shows "(\<exists>b. let lg' = lg\<lparr>lg_buffer := b\<rparr>;
      kept = foldl (keep (unat (csb_size b))) (csb_to_string (lg_buffer lg)) (map entry_text (filter (loud (lg_level lg)) es)) in
    log_all es (lg, mc) = Some (Inr (lg', mc)) \<and> csb_inv b \<and> csb_size b = csb_size (lg_buffer lg) \<and> csb_to_string b = kept \<and>
    perform_log time [PrintLogfile] (lg', mc) = Some (Inr (lg', on_uart a (\<lambda>u. u\<lparr>ur_sent := ur_sent u @ kept\<rparr>) mc)) \<and>
    perform_log time [LogDirect m] (lg', mc) = Some (Inr (lg', on_uart a (\<lambda>u. u\<lparr>ur_sent := ur_sent u @ m\<rparr>) mc))) \<and>
    (\<forall>e. loud (lg_level lg) e \<and> length (entry_text e) < 2 ^ 31 \<longrightarrow>
      (unat (csb_size (lg_buffer lg)) < length (entry_text e) \<longrightarrow> log_all (es @ [e]) (lg, mc) = Some (Inl OutOfBounds)) \<and>
      (unat (csb_size (lg_buffer lg)) = length (entry_text e) \<longrightarrow> (\<forall>e'. loud (lg_level lg) e' \<and> length (entry_text e') < 2 ^ 31 \<longrightarrow>
        log_all (es @ [e, e']) (lg, mc) = Some (Inl OutOfBounds))))"
proof -
  obtain b where b: "log_all es (lg, mc) = Some (Inr (lg\<lparr>lg_buffer := b\<rparr>, mc))" "csb_inv b" "csb_size b = csb_size (lg_buffer lg)"
    "csb_to_string b = foldl (keep (unat (csb_size b))) (csb_to_string (lg_buffer lg)) (map entry_text (filter (loud (lg_level lg)) es))"
    using log_all_file [OF assms(1-4)] by blast
  have same: "lg\<lparr>lg_buffer := b, lg_output := OutputLogFile\<rparr> = lg\<lparr>lg_buffer := b\<rparr>" using assms(1) by (cases lg) simp
  note w = console_writes [OF con(2,3)]
  have "perform_log time [PrintLogfile] (lg\<lparr>lg_buffer := b\<rparr>, mc) =
      Some (Inr (lg\<lparr>lg_buffer := b\<rparr>, on_uart a (\<lambda>u. u\<lparr>ur_sent := ur_sent u @ csb_to_string b\<rparr>) mc))"
    using assms(1) con(1) by (simp add: print_logfile_def logger_log_def Let_def w same)
  moreover have "perform_log time [LogDirect m] (lg\<lparr>lg_buffer := b\<rparr>, mc) =
      Some (Inr (lg\<lparr>lg_buffer := b\<rparr>, on_uart a (\<lambda>u. u\<lparr>ur_sent := ur_sent u @ m\<rparr>) mc))"
    using assms(1) con(1) by (simp add: log_to_console_def logger_log_def Let_def w same)
  moreover have tail: "log_all (es @ r) (lg, mc) = log_all r (lg\<lparr>lg_buffer := b\<rparr>, mc)" for r using b(1) by (simp add: log_all_append)
  moreover have "(unat (csb_size (lg_buffer lg)) < length (entry_text e) \<longrightarrow> log_all (es @ [e]) (lg, mc) = Some (Inl OutOfBounds)) \<and>
      (unat (csb_size (lg_buffer lg)) = length (entry_text e) \<longrightarrow> (\<forall>e'. loud (lg_level lg) e' \<and> length (entry_text e') < 2 ^ 31 \<longrightarrow>
        log_all (es @ [e, e']) (lg, mc) = Some (Inl OutOfBounds)))"
    if "loud (lg_level lg) e" "length (entry_text e) < 2 ^ 31" for e
    using log_overrun [of "lg\<lparr>lg_buffer := b\<rparr>" e] assms(1,3) b(2,3) that unfolding tail by simp
  ultimately show ?thesis using b by (intro conjI exI [of _ b]) (simp_all add: Let_def)
qed

theorem logger_dmesg_witness:
  "\<exists>lg b mc. log_all [(0, LevelDebug, False, [104, 105]), (0, LevelDebug, False, [111, 107])] (lg, mc) = Some (Inr (lg\<lparr>lg_buffer := b\<rparr>, mc)) \<and>
     csb_to_string b = [104, 105, 111, 107] \<and>
     perform_log 0 [PrintLogfile] (lg\<lparr>lg_buffer := b\<rparr>, mc) =
       Some (Inr (lg\<lparr>lg_buffer := b\<rparr>, on_uart 0x10000000 (\<lambda>u. u\<lparr>ur_sent := ur_sent u @ [104, 105, 111, 107]\<rparr>) mc))"
proof -
  let ?n = "ns_new\<lparr>ns_device := Some 0\<rparr>" and ?b = "\<lparr>csb_buffer = replicate 8 0, csb_size = 8, csb_head = 0\<rparr>"
  let ?u = "\<lparr>ud_device_id = 0, ud_vendor_id = 0, ud_device_tree_path = serial_path, ud_device_type = ns16550a, ud_address = 0x10000000\<rparr>"
  let ?mc = "(machine_new undefined)\<lparr>mc_devices := [(console_device_new (UUniversal ?u) [10])\<lparr>dv_driver := Some (DrvUart ?n)\<rparr>]\<rparr>"
  let ?lg = "\<lparr>lg_output = OutputLogFile, lg_level = LevelDebug, lg_console = Some 0, lg_buffer = ?b, lg_sbi = []\<rparr>"
  let ?es = "[(0, LevelDebug, False, [104, 105]), (0, LevelDebug, False, [111, 107])]"
  have b: "lg_output ?lg = OutputLogFile" "csb_inv (lg_buffer ?lg)" "unat (csb_size (lg_buffer ?lg)) < 2 ^ 31"
    "\<forall>e \<in> set ?es. loud (lg_level ?lg) e \<longrightarrow> length (entry_text e) < unat (csb_size (lg_buffer ?lg))" "lg_console ?lg = Some 0"
    by (simp_all add: csb_inv_def)
  have c: "console_at ?mc 0 ?n [] 0x10000000" "uart_open (mc_uarts ?mc 0x10000000)"
    by (simp_all add: console_at_def console_device_new_def device_new_def machine_new_def uart_open_def)
  have k: "foldl (keep (unat (8 :: size_t))) (csb_to_string (lg_buffer ?lg)) (map entry_text (filter (loud (lg_level ?lg)) ?es)) = [104, 105, 111, 107]"
    by (simp add: keep_def loud_def csb_to_string_def)
  obtain bb where "log_all ?es (?lg, ?mc) = Some (Inr (?lg\<lparr>lg_buffer := bb\<rparr>, ?mc))" "csb_to_string bb = [104, 105, 111, 107]"
    "perform_log 0 [PrintLogfile] (?lg\<lparr>lg_buffer := bb\<rparr>, ?mc) =
       Some (Inr (?lg\<lparr>lg_buffer := bb\<rparr>, on_uart 0x10000000 (\<lambda>u. u\<lparr>ur_sent := ur_sent u @ [104, 105, 111, 107]\<rparr>) ?mc))"
    using conjunct1 [OF logger_dmesg [OF b c, of 0 "[]"]] k unfolding Let_def by (elim exE conjE) simp
  then show ?thesis by blast
qed

end
