(* ===== verification/BlockingReads.thy ===== *)
theory BlockingReads
  imports TrapProperties
begin

text \<open>
  A \<^verbatim>\<open>read\<close> of the console from the system call that blocks to the one that returns: the first call
  registers a context and blocks its thread, the interrupt that completes a line makes the thread
  runnable, and the call made again copies the line.
\<close>

section \<open>States that differ in the states of threads\<close>

definition same_identities :: "kernel \<Rightarrow> kernel \<Rightarrow> bool" where
  "same_identities k k' \<longleftrightarrow> k_processes k' = k_processes k \<and> m_process_list k' = m_process_list k \<and> k_mem k' = k_mem k \<and>
     (\<forall>t. map_option t_tid (k_threads k' t) = map_option t_tid (k_threads k t)) \<and>
     (\<forall>t. map_option t_trap_frame (k_threads k' t) = map_option t_trap_frame (k_threads k t))"

lemma same_identities_get_thread:
  assumes "same_identities k k'"
  shows "get_thread k' pid tid = get_thread k pid tid"
proof -
  have tid: "(case k_threads k' u of None \<Rightarrow> False | Some th \<Rightarrow> t_tid th = tid) =
      (case k_threads k u of None \<Rightarrow> False | Some th \<Rightarrow> t_tid th = tid)" for u
  proof -
    have "map_option t_tid (k_threads k' u) = map_option t_tid (k_threads k u)" using assms by (simp add: same_identities_def)
    then show ?thesis by (cases "k_threads k u"; cases "k_threads k' u") auto
  qed
  have same: "k_processes k' = k_processes k" "m_process_list k' = m_process_list k" using assms by (simp_all add: same_identities_def)
  show ?thesis unfolding get_thread_def get_process_def same tid ..
qed

lemma same_identities_wake: "same_identities k (wake T k)"
  by (simp add: same_identities_def wake_def option.map_comp comp_def)

lemma same_identities_trans: "same_identities k k' \<Longrightarrow> same_identities k' k'' \<Longrightarrow> same_identities k k''"
  by (simp add: same_identities_def)

lemma same_identities_update:
  "k_threads k t = Some th \<Longrightarrow> same_identities k (k\<lparr>k_threads := (k_threads k)(t \<mapsto> th\<lparr>t_state := st\<rparr>)\<rparr>)"
  by (simp add: same_identities_def)

lemma same_identities_waits:
  assumes "same_identities k k'" "waits (mc\<lparr>mc_kernel := k\<rparr>) a t" shows "waits (mc\<lparr>mc_kernel := k'\<rparr>) a t"
proof -
  have "map_option t_tid (k_threads k' t) = map_option t_tid (k_threads k t)" using assms(1) by (simp add: same_identities_def)
  moreover obtain th where "k_threads k t = Some th" using assms(2) by (auto simp: waits_def)
  ultimately obtain th' where "k_threads k' t = Some th'" by (cases "k_threads k' t") auto
  then show ?thesis using assms by (auto simp: waits_def same_identities_get_thread)
qed

section \<open>A thread that reads\<close>

text \<open>
  The process \<^verbatim>\<open>pr\<close>, whose thread \<^verbatim>\<open>t\<close> is the current one, has the console \<^verbatim>\<open>i\<close> open as descriptor \<^verbatim>\<open>fd\<close>;
  its buffer is at the physical address \<^verbatim>\<open>b\<close>.
\<close>

definition reads_console :: "'s environment \<Rightarrow> 's trap_world \<Rightarrow> nat \<Rightarrow> nat \<Rightarrow> u32 \<Rightarrow> File \<Rightarrow> nat \<Rightarrow> u64 \<Rightarrow> u64 \<Rightarrow> Process \<Rightarrow> bool" where
  "reads_console ev w pr t fd f i buffer b p \<longleftrightarrow>
     k_processes (kern w) pr = Some p \<and> user_get w p buffer = Inr b \<and>
     (\<exists>xs. arr_rel (tw_fds w pr) xs \<and> unat (scast fd :: u64) < length xs \<and> xs ! unat (scast fd :: u64) = Some f) \<and>
     ev_inode ev (tw_fs w) (f_descriptor f) = Some i \<and>
     get_current_thread (ev_tp ev) (kern w) = Inr (Some t) \<and>
     (\<exists>th. k_threads (kern w) t = Some th \<and> get_thread (kern w) (p_pid p) (t_tid th) = Inr (Inr (Some t)))"

lemma reads_console_table:
  assumes "reads_console ev w pr t fd f i buffer b p"
  shows "fdt_index (tw_fds w pr) (scast fd) = Inr (Some f)"
    "\<exists>fds. arr_set (tw_fds w pr) (scast fd) (Some f') = Inr fds \<and>
      (\<exists>xs. arr_rel fds xs \<and> unat (scast fd :: u64) < length xs \<and> xs ! unat (scast fd :: u64) = Some f')"
proof -
  obtain xs where xs: "arr_rel (tw_fds w pr) xs" "unat (scast fd :: u64) < length xs" "xs ! unat (scast fd :: u64) = Some f"
    using assms by (auto simp: reads_console_def)
  show "fdt_index (tw_fds w pr) (scast fd) = Inr (Some f)"
    using arr_get_rel [OF xs(1), of "scast fd"] xs(2,3) by (simp add: fdt_index_def fdt_get_def)
  show "\<exists>fds. arr_set (tw_fds w pr) (scast fd) (Some f') = Inr fds \<and>
      (\<exists>xs. arr_rel fds xs \<and> unat (scast fd :: u64) < length xs \<and> xs ! unat (scast fd :: u64) = Some f')"
    using arr_set_in [OF xs(1,2), of "Some f'"] xs(2) by (metis length_list_update nth_list_update_eq)
qed

text \<open>The read with an empty queue of lines.\<close>

lemma read_async_empty:
  assumes "console_at mc i n rs a" "ns_lines n = []"
  shows "console_read_async i mc = Inr (Inr (fst (create_blocked (mc_contexts mc) (mc_next_context mc))),
    put_device i ((mc_devices mc ! i)\<lparr>dv_body := ConsoleBody (rs @ [mc_next_context mc])\<rparr>)
      (mc\<lparr>mc_contexts := create_context (mc_contexts mc) (mc_next_context mc), mc_next_context := Suc (mc_next_context mc)\<rparr>))"
proof -
  have d: "device_at mc i = Inr (mc_devices mc ! i)" "dv_driver (mc_devices mc ! i) = Some (DrvUart n)" "i < length (mc_devices mc)"
      "dv_body (mc_devices mc ! i) = ConsoleBody rs"
    using assms(1) by (simp_all add: console_at_def device_at_def)
  have same: "(mc_devices mc ! i)\<lparr>dv_driver := Some (DrvUart n)\<rparr> = mc_devices mc ! i" using d(2) by (cases "mc_devices mc ! i") simp
  have r: "console_read i mc = Inr (Inl (create_from_string ''Buffer is empty.''), mc)"
    using d assms(2) by (simp add: console_read_def as_console_driver_def ns_read_line_def put_device_def same)
  show ?thesis using d
    by (simp add: console_read_async_def r create_blocked_def Let_def device_at_def as_console_def)
qed

lemma read_async_line:
  assumes "console_at mc i n rs a" "ns_lines n = l # ls"
  shows "console_read_async i mc = Inr (Inr (create_finalized l),
    put_device i ((mc_devices mc ! i)\<lparr>dv_driver := Some (DrvUart (n\<lparr>ns_lines := ls\<rparr>))\<rparr>) mc)"
  using assms by (simp add: console_at_def device_at_def console_read_async_def console_read_def
      as_console_driver_def ns_read_line_def)

lemma write_nothing [simp]: "write_bytes m a [] = m"
  by (simp add: write_bytes_def)

lemma world_id [simp]: "set_mem (mem w) w = w" "set_kern (kern w) w = w"
  by (simp_all add: set_mem_def set_kern_def mem_def kern_def)

lemma kern_updates [simp]:
  "kern (w\<lparr>tw_fds := x\<rparr>) = kern w" "kern (w\<lparr>tw_mc := mc\<rparr>) = mc_kernel mc" "mem (w\<lparr>tw_fds := x\<rparr>) = mem w"
  "mem (w\<lparr>tw_mc := mc\<rparr>) = k_mem (mc_kernel mc)"
  by (simp_all add: kern_def mem_def)

lemma frame_get_write_apart:
  assumes "field_ok f" "span tf 600 \<inter> span b (length bs) = {}"
  shows "frame_get (write_bytes m b bs) tf f = frame_get m tf f"
proof -
  have "span (tf + field_offset f) 8 \<subseteq> span tf 600"
    using field_offset_small [OF assms(1)] by (intro span_sub; simp)
  then have "span (tf + field_offset f) 8 \<inter> span b (length bs) = {}" using assms(2) by blast
  then show ?thesis by (simp add: frame_get_def load64_def read_write_bytes_other)
qed

text \<open>The two ways a read of the console ends, in terms of the inode's request.\<close>

lemma handle_read_unfold:
  assumes "reads_console ev w pr t fd f i buffer b p"
    and "inode_read ev (f_descriptor f) sz (f_offset f) w = Inr ((bytes, Inr q), w\<lparr>tw_mc := mc\<rparr>)"
    and "mc_kernel mc = kern w" and th: "k_threads (kern w) t = Some th"
    and apart: "span (ev_tp ev) 600 \<inter> span b (length bytes) = {}"
    and f': "if is_finalized q then release_value q = Inr v \<and> f' = f\<lparr>f_offset := f_offset f + v\<rparr> else is_blocked q \<and> f' = f"
  shows "\<exists>fds. (\<exists>xs. arr_rel fds xs \<and> unat (scast fd :: u64) < length xs \<and> xs ! unat (scast fd :: u64) = Some f') \<and>
    handle_read ev pr fd buffer sz w =
      (let w = set_mem (write_bytes (mem w) b bytes) (w\<lparr>tw_mc := mc, tw_fds := (tw_fds w)(pr := fds)\<rparr>) in
       if is_blocked q
       then run_bind (Some (block (p_pid p) (t_tid th) (kern w))) (\<lambda>k. Some (Inr (Inl SysBlocked,
         set_kern k (w\<lparr>tw_mc := (tw_mc w)\<lparr>mc_contexts := request_assign q (p_pid p) (t_tid th) (mc_contexts (tw_mc w))\<rparr>\<rparr>))))
       else sys_ok v w)"
proof -
  obtain fds where fds: "arr_set (tw_fds w pr) (scast fd) (Some f') = Inr fds"
      "\<exists>xs. arr_rel fds xs \<and> unat (scast fd :: u64) < length xs \<and> xs ! unat (scast fd :: u64) = Some f'"
    using reads_console_table(2) [OF assms(1), of f'] by blast
  have p: "process_at w pr = Inr p" "user_get w p buffer = Inr b"
    using assms(1) by (auto simp: reads_console_def process_at_def)
  have r: "file_read (\<lambda>_ _. Inr q) f sz = Inr (Inr q, f')"
    using f' by (auto simp: file_read_def split: if_splits)
  let ?w = "set_mem (write_bytes (mem w) b bytes) (w\<lparr>tw_mc := mc, tw_fds := (tw_fds w)(pr := fds)\<rparr>)"
  let ?k = "(kern w)\<lparr>k_mem := write_bytes (mem w) b bytes\<rparr>"
  have w: "mem (w\<lparr>tw_mc := mc\<rparr>) = mem w" using assms(3) by (simp add: mem_def)
  have k: "kern ?w = ?k" "mc_kernel (tw_mc ?w) = ?k" "k_mem (mc_kernel mc) = mem w" "k_mem (kern w) = mem w" using assms(3) by (simp_all add: mem_def set_mem_def set_kern_def)
  have c: "get_current_thread (ev_tp ev) ?k = Inr (Some t)"
  proof -
    have "get_thread ?k pid tid = get_thread (kern w) pid tid" for pid tid by (simp add: get_thread_def get_process_def cong: option.case_cong)
    moreover have "frame_get (write_bytes (mem w) b bytes) (ev_tp ev) g = frame_get (mem w) (ev_tp ev) g" if "field_ok g" for g
      using that apart by (rule frame_get_write_apart)
    ultimately show ?thesis using assms(1) by (simp add: reads_console_def get_current_thread_def field_ok_def mem_def)
  qed
  show ?thesis
  proof (rule exI [of _ fds], rule conjI [OF fds(2)])
    show "handle_read ev pr fd buffer sz w =
      (let w = ?w in
       if is_blocked q
       then run_bind (Some (block (p_pid p) (t_tid th) (kern w))) (\<lambda>k. Some (Inr (Inl SysBlocked,
         set_kern k (w\<lparr>tw_mc := (tw_mc w)\<lparr>mc_contexts := request_assign q (p_pid p) (t_tid th) (mc_contexts (tw_mc w))\<rparr>\<rparr>))))
       else sys_ok v w)"
      using p r fds(1) reads_console_table(1) [OF assms(1)] assms(2) c f' th
      by (auto simp: handle_read_def Let_def thread_at_def sys_ok_def k assms(3) is_blocked_def is_finalized_def split: if_splits)
  qed
qed

definition line_count :: "cstr \<Rightarrow> size_t \<Rightarrow> size_t" where
  "line_count l sz = min sz (of_nat (length l) + 1)"

lemma line_count_small: "length l < 2 ^ 32 - 1 \<Longrightarrow> unat (line_count l sz) = min (unat sz) (length l + 1)"
  by (simp add: line_count_def min_def word_le_nat_alt unat_word_ariths unat_of_nat)

lemma inode_read_empty:
  assumes "console_at (tw_mc w) i n rs a" "ns_lines n = []" "ev_inode ev (tw_fs w) d = Some i"
  shows "inode_read ev d sz offset w = Inr (([], Inr \<lparr>rq_value = None, rq_context = Some (mc_next_context (tw_mc w)), rq_state = Blocked\<rparr>),
    w\<lparr>tw_mc := put_device i ((mc_devices (tw_mc w) ! i)\<lparr>dv_body := ConsoleBody (rs @ [mc_next_context (tw_mc w)])\<rparr>)
      ((tw_mc w)\<lparr>mc_contexts := create_context (mc_contexts (tw_mc w)) (mc_next_context (tw_mc w)),
        mc_next_context := Suc (mc_next_context (tw_mc w))\<rparr>)\<rparr>)"
proof -
  have "device_at (tw_mc w) i = Inr (mc_devices (tw_mc w) ! i)" "dv_type (mc_devices (tw_mc w) ! i) = TypeConsole"
    using assms(1) by (simp_all add: console_at_def device_at_def)
  then show ?thesis using assms(3) read_async_empty [OF assms(1,2)]
    by (simp add: inode_read_def dev_read_def create_blocked_def string_request_def is_blocked_def propagate_blocked_def)
qed

lemma inode_read_line:
  assumes "console_at (tw_mc w) i n rs a" "ns_lines n = l # ls" "ev_inode ev (tw_fs w) d = Some i" and l: "length l < 2 ^ 32 - 1"
  shows "inode_read ev d sz offset w = Inr ((take (unat (line_count l sz)) (l @ [0]), Inr (create_finalized (line_count l sz))),
    w\<lparr>tw_mc := put_device i ((mc_devices (tw_mc w) ! i)\<lparr>dv_driver := Some (DrvUart (n\<lparr>ns_lines := ls\<rparr>))\<rparr>) (tw_mc w)\<rparr>)"
proof -
  have d: "device_at (tw_mc w) i = Inr (mc_devices (tw_mc w) ! i)" "dv_type (mc_devices (tw_mc w) ! i) = TypeConsole"
    using assms(1) by (simp_all add: console_at_def device_at_def)
  have n: "unat (line_count l sz) \<le> length l + 1" "unat (line_count l sz) < 2 ^ 32" using line_count_small [OF l, of sz] l by auto
  have u: "unat (ucast (line_count l sz) :: u32) = unat (line_count l sz)"
    using n(2) by (simp add: unsigned_ucast_eq take_bit_nat_eq_self)
  show ?thesis using assms(3) read_async_line [OF assms(1,2)] d n(1)
    by (simp add: inode_read_def dev_read_def string_request_def is_blocked_def create_finalized_def release_value_def
        string_value_def Let_def line_count_def [symmetric] u)
qed

section \<open>Blocking, waking and reading again\<close>

text \<open>Whatever else is in the kernel, a state that differs in thread states keeps the reader.\<close>

lemma reads_console_keep:
  assumes r: "reads_console ev w pr t fd f i buffer b p" and s: "same_identities (kern w) (kern w')" and fs: "tw_fs w' = tw_fs w"
    and fds: "\<exists>xs. arr_rel (tw_fds w' pr) xs \<and> unat (scast fd :: u64) < length xs \<and> xs ! unat (scast fd :: u64) = Some f"
  shows "reads_console ev w' pr t fd f i buffer b p"
proof -
  obtain th where th: "k_threads (kern w) t = Some th" "get_thread (kern w) (p_pid p) (t_tid th) = Inr (Inr (Some t))"
    using r by (auto simp: reads_console_def)
  have "map_option t_tid (k_threads (kern w') t) = map_option t_tid (k_threads (kern w) t)" using s by (simp add: same_identities_def)
  then obtain th' where th': "k_threads (kern w') t = Some th'" "t_tid th' = t_tid th" using th(1) by auto
  have "mem w' = mem w" "k_processes (kern w') = k_processes (kern w)" using s by (simp_all add: same_identities_def mem_def)
  moreover have "get_current_thread (ev_tp ev) (kern w') = get_current_thread (ev_tp ev) (kern w)"
    using s by (simp add: get_current_thread_def same_identities_get_thread) (simp add: same_identities_def)
  ultimately show ?thesis using r fds fs th th' by (simp add: reads_console_def user_get_def same_identities_get_thread [OF s])
qed

lemma handle_read_blocks:
  assumes r: "reads_console ev w pr t fd f i buffer b p" and c: "console_at (tw_mc w) i n rs a" and e: "ns_lines n = []"
    and th: "k_threads (kern w) t = Some th"
  shows "\<exists>w1. handle_read ev pr fd buffer sz w = Some (Inr (Inl SysBlocked, w1)) \<and> mem w1 = mem w \<and>
    kern w1 = (kern w)\<lparr>k_threads := (k_threads (kern w))(t \<mapsto> th\<lparr>t_state := Scheduling.Blocked\<rparr>)\<rparr> \<and>
    console_at (tw_mc w1) i n (rs @ [mc_next_context (tw_mc w)]) a \<and> mc_uarts (tw_mc w1) = mc_uarts (tw_mc w) \<and>
    mc_contexts (tw_mc w1) = (mc_contexts (tw_mc w))(mc_next_context (tw_mc w) \<mapsto> \<lparr>rc_pid = p_pid p, rc_tid = t_tid th\<rparr>) \<and>
    reads_console ev w1 pr t fd f i buffer b p"
proof -
  let ?q = "\<lparr>rq_value = None :: size_t option, rq_context = Some (mc_next_context (tw_mc w)), rq_state = Blocked\<rparr>"
  let ?mc = "put_device i ((mc_devices (tw_mc w) ! i)\<lparr>dv_body := ConsoleBody (rs @ [mc_next_context (tw_mc w)])\<rparr>)
      ((tw_mc w)\<lparr>mc_contexts := create_context (mc_contexts (tw_mc w)) (mc_next_context (tw_mc w)),
        mc_next_context := Suc (mc_next_context (tw_mc w))\<rparr>)"
  let ?k = "(kern w)\<lparr>k_threads := (k_threads (kern w))(t \<mapsto> th\<lparr>t_state := Scheduling.Blocked\<rparr>)\<rparr>"
  have i: "inode_read ev (f_descriptor f) sz (f_offset f) w = Inr (([], Inr ?q), w\<lparr>tw_mc := ?mc\<rparr>)"
    using inode_read_empty [OF c e] r by (simp add: reads_console_def)
  have k: "mc_kernel ?mc = kern w" by (simp add: put_device_def kern_def)
  have q: "is_blocked ?q" "\<not> is_finalized ?q" by (simp_all add: is_blocked_def is_finalized_def)
  have bl: "block (p_pid p) (t_tid th) (kern w) = Inr ?k"
    using r th by (auto simp: reads_console_def block_def set_thread_state_def)
  obtain fds where fds: "\<exists>xs. arr_rel fds xs \<and> unat (scast fd :: u64) < length xs \<and> xs ! unat (scast fd :: u64) = Some f"
    "handle_read ev pr fd buffer sz w =
      (let w = set_mem (write_bytes (mem w) b []) (w\<lparr>tw_mc := ?mc, tw_fds := (tw_fds w)(pr := fds)\<rparr>) in
       if is_blocked ?q
       then run_bind (Some (block (p_pid p) (t_tid th) (kern w))) (\<lambda>k. Some (Inr (Inl SysBlocked,
         set_kern k (w\<lparr>tw_mc := (tw_mc w)\<lparr>mc_contexts := request_assign ?q (p_pid p) (t_tid th) (mc_contexts (tw_mc w))\<rparr>\<rparr>))))
       else sys_ok 0 w)"
    using handle_read_unfold [OF r i k th, where f' = f and v = 0] q by (auto simp: span_def)
  let ?w = "w\<lparr>tw_mc := ?mc, tw_fds := (tw_fds w)(pr := fds)\<rparr>"
  let ?w1 = "set_kern ?k (?w\<lparr>tw_mc := ?mc\<lparr>mc_contexts := request_assign ?q (p_pid p) (t_tid th) (mc_contexts ?mc)\<rparr>\<rparr>)"
  have m: "set_mem (mem w) ?w = ?w" "kern ?w = kern w"
    using k by (simp_all add: set_mem_def set_kern_def mem_def kern_def)
  have h: "handle_read ev pr fd buffer sz w = Some (Inr (Inl SysBlocked, ?w1))"
    using fds(2) q by (simp add: m bl k)
  have con: "mc_contexts (tw_mc ?w1) = (mc_contexts (tw_mc w))(mc_next_context (tw_mc w) \<mapsto> \<lparr>rc_pid = p_pid p, rc_tid = t_tid th\<rparr>)"
    by (simp add: set_kern_def put_device_def request_assign_def create_context_def context_assign_def)
  have dev: "console_at (tw_mc ?w1) i n (rs @ [mc_next_context (tw_mc w)]) a" "mc_uarts (tw_mc ?w1) = mc_uarts (tw_mc w)"
    using c by (simp_all add: console_at_def set_kern_def put_device_def)
  have "reads_console ev ?w1 pr t fd f i buffer b p"
    using same_identities_update [OF th] fds(1) by (intro reads_console_keep [OF r]) (simp_all add: set_kern_def kern_def)
  then show ?thesis using h con dev m k by (intro exI [of _ ?w1]) (simp add: mem_def)
qed

lemma handle_read_gets_line:
  assumes r: "reads_console ev w pr t fd f i buffer b p" and c: "console_at (tw_mc w) i n rs a" and e: "ns_lines n = l # ls"
    and l: "length l < 2 ^ 32 - 1" and apart: "span (ev_tp ev) 600 \<inter> span b (unat sz) = {}"
  shows "\<exists>w3. handle_read ev pr fd buffer sz w = Some (Inr (Inr (line_count l sz), w3)) \<and>
    mem w3 = write_bytes (mem w) b (take (unat (line_count l sz)) (l @ [0])) \<and>
    console_at (tw_mc w3) i (n\<lparr>ns_lines := ls\<rparr>) rs a"
proof -
  obtain th where th: "k_threads (kern w) t = Some th" using r by (auto simp: reads_console_def)
  let ?mc = "put_device i ((mc_devices (tw_mc w) ! i)\<lparr>dv_driver := Some (DrvUart (n\<lparr>ns_lines := ls\<rparr>))\<rparr>) (tw_mc w)"
  let ?bytes = "take (unat (line_count l sz)) (l @ [0])"
  have i: "inode_read ev (f_descriptor f) sz (f_offset f) w = Inr ((?bytes, Inr (create_finalized (line_count l sz))), w\<lparr>tw_mc := ?mc\<rparr>)"
    using inode_read_line [OF c e _ l] r by (simp add: reads_console_def)
  have k: "mc_kernel ?mc = kern w" by (simp add: put_device_def kern_def)
  have "length ?bytes \<le> unat sz" using line_count_small [OF l, of sz] by simp
  then have a': "span (ev_tp ev) 600 \<inter> span b (length ?bytes) = {}" using apart span_mono by blast
  obtain fds where h: "handle_read ev pr fd buffer sz w =
      sys_ok (line_count l sz) (set_mem (write_bytes (mem w) b ?bytes) (w\<lparr>tw_mc := ?mc, tw_fds := (tw_fds w)(pr := fds)\<rparr>))"
    using handle_read_unfold [OF r i k th a', where v = "line_count l sz" and f' = "f\<lparr>f_offset := f_offset f + line_count l sz\<rparr>"]
    by (auto simp: create_finalized_def release_value_def is_finalized_def is_blocked_def)
  have "console_at ?mc i (n\<lparr>ns_lines := ls\<rparr>) rs a" using c by (simp add: console_at_def put_device_def)
  then show ?thesis using h
    by (intro exI [of _ "set_mem (write_bytes (mem w) b ?bytes) (w\<lparr>tw_mc := ?mc, tw_fds := (tw_fds w)(pr := fds)\<rparr>)"])
       (simp add: sys_ok_def console_at_def set_mem_def set_kern_def)
qed

definition receive :: "u64 \<Rightarrow> u8 list \<Rightarrow> machine \<Rightarrow> machine" where
  "receive a cs = on_uart a (\<lambda>u. u\<lparr>ur_received := ur_received u @ cs\<rparr>)"

lemma receive_simps [simp]:
  "mc_kernel (receive a cs mc) = mc_kernel mc" "console_at (receive a cs mc) i n rs a' = console_at mc i n rs a'"
  "waits (receive a cs mc) b t = waits mc b t" "mc_uarts (receive a cs mc) a = (mc_uarts mc a)\<lparr>ur_received := ur_received (mc_uarts mc a) @ cs\<rparr>"
  by (simp_all add: receive_def on_uart_def console_at_def waits_def)

text \<open>The states after the first call and after the interrupts.\<close>

lemma line_arrives:
  assumes c: "console_at mc i n rs a" "ns_lines n = []" "13 \<notin> set (ns_buffer n)"
    and u: "ur_received (mc_uarts mc a) = []" "uart_open (mc_uarts mc a)" and w: "\<And>b. b \<in> set rs \<Longrightarrow> waits mc b (wt b)"
    and cs: "13 \<in> set cs"
  shows "\<exists>mc' line rest ls n'. console_interrupts (length cs) i (receive a cs mc) = Inr mc' \<and> console_at mc' i n' [] a \<and>
    ns_lines n' = line # ls \<and> ns_buffer n @ cs = line @ 13 # rest \<and> 13 \<notin> set line \<and> mc_kernel mc' = wake (wt ` set rs) (mc_kernel mc)"
proof -
  obtain mc' rs' where s: "console_interrupts (length cs) i (receive a cs mc) = Inr mc'" "console_at mc' i (fold feed cs n) rs' a"
    "(rs', mc_kernel mc') = (if cs = [] \<or> ns_lines (fold feed cs n) = [] then (rs, mc_kernel mc) else ([], wake (wt ` set rs) (mc_kernel mc)))"
    using interrupts_fed [of "receive a cs mc" i n rs a cs "[]" wt] c(1) u w by (auto simp: uart_open_def)
  obtain lines rest where l: "ns_buffer n @ cs = concat (map (\<lambda>l. l @ [13]) lines) @ rest" "13 \<notin> set rest"
    "\<forall>l \<in> set lines. 13 \<notin> set l" "fold feed cs n = n\<lparr>ns_lines := ns_lines n @ lines, ns_buffer := rest\<rparr>"
    using feed_decompose [OF c(3)] by blast
  have "13 \<in> set (ns_buffer n @ cs)" using cs by simp
  then have "lines \<noteq> []" unfolding l(1) using l(2) by (cases lines) auto
  then obtain line ls where ls: "lines = line # ls" by (cases lines) auto
  have "cs \<noteq> []" using cs by auto
  then have "rs' = []" "mc_kernel mc' = wake (wt ` set rs) (mc_kernel mc)" using s(3) l(4) c(2) ls by simp_all
  then show ?thesis using s(1,2) l(1,3,4) ls c(2)
    by (intro exI [of _ mc'] exI [of _ line] exI [of _ "concat (map (\<lambda>l. l @ [13]) ls) @ rest"] exI [of _ ls] exI [of _ "fold feed cs n"])
       auto
qed

lemma blocked_waits:
  assumes r: "reads_console ev w pr t fd f i buffer b p" and th: "k_threads (kern w) t = Some th"
    and w1: "kern w1 = (kern w)\<lparr>k_threads := (k_threads (kern w))(t \<mapsto> th\<lparr>t_state := Scheduling.Blocked\<rparr>)\<rparr>"
      "mc_contexts (tw_mc w1) = (mc_contexts (tw_mc w))(c \<mapsto> \<lparr>rc_pid = p_pid p, rc_tid = t_tid th\<rparr>)"
    and old: "\<And>x. x \<in> set rs \<Longrightarrow> x \<noteq> c \<and> waits (tw_mc w) x (wt x)" and x: "x \<in> set (rs @ [c])"
  shows "waits (tw_mc w1) x ((wt(c := t)) x)"
proof -
  have s: "same_identities (kern w) (kern w1)" using same_identities_update [OF th] by (simp add: w1(1))
  have k: "mc_kernel (tw_mc w1) = kern w1" by (simp add: kern_def)
  show ?thesis
  proof (cases "x = c")
    case True
    have "get_thread (kern w1) (p_pid p) (t_tid th) = Inr (Inr (Some t))"
      using r th by (simp add: same_identities_get_thread [OF s] reads_console_def)
    then show ?thesis using True w1 by (simp add: waits_def k)
  next
    case False
    then have o: "waits (tw_mc w) x (wt x)" using old x by auto
    have "waits ((tw_mc w)\<lparr>mc_kernel := kern w1\<rparr>) x (wt x)"
      by (rule same_identities_waits [OF s]) (use o in \<open>simp add: kern_def\<close>)
    then show ?thesis using False w1(2) by (simp add: waits_def k)
  qed
qed

text \<open>
  C35. A thread reads from a console that has no line.  The call does not return: the thread is made
  \<^verbatim>\<open>Blocked\<close> and the memory is unchanged.  Whatever characters the console then receives, as soon as
  there is a carriage return among them the interrupts make that thread (and all others that wait)
  runnable, and the call made again returns the number of bytes of the first line that fit, with a
  terminating zero, and stores exactly these bytes in the thread's buffer.
\<close>

theorem blocked_read_resumes:
  assumes r: "reads_console ev w pr t fd f i buffer b p" and th: "k_threads (kern w) t = Some th"
    and c: "console_at (tw_mc w) i n rs a" "ns_lines n = []" "13 \<notin> set (ns_buffer n)"
    and u: "ur_received (mc_uarts (tw_mc w) a) = []" "uart_open (mc_uarts (tw_mc w) a)"
    and old: "\<forall>x \<in> set rs. x < mc_next_context (tw_mc w) \<and> waits (tw_mc w) x (wt x)"
    and apart: "span (ev_tp ev) 600 \<inter> span b (unat sz) = {}"
  shows "\<exists>w1. handle_read ev pr fd buffer sz w = Some (Inr (Inl SysBlocked, w1)) \<and> mem w1 = mem w \<and>
    k_threads (kern w1) t = Some (th\<lparr>t_state := Scheduling.Blocked\<rparr>) \<and>
    (\<forall>cs. 13 \<in> set cs \<and> length (ns_buffer n @ cs) < 2 ^ 32 \<longrightarrow>
      (\<exists>mc' line rest w3. console_interrupts (length cs) i (receive a cs (tw_mc w1)) = Inr mc' \<and>
        mc_kernel mc' = wake (insert t (wt ` set rs)) (kern w1) \<and>
        ns_buffer n @ cs = line @ 13 # rest \<and> 13 \<notin> set line \<and>
        handle_read ev pr fd buffer sz (w1\<lparr>tw_mc := mc'\<rparr>) = Some (Inr (Inr (line_count line sz), w3)) \<and>
        unat (line_count line sz) = min (unat sz) (length line + 1) \<and>
        mem w3 = write_bytes (mem w) b (take (unat (line_count line sz)) (line @ [0]))))"
proof -
  let ?c = "mc_next_context (tw_mc w)"
  let ?wt = "wt(?c := t)"
  obtain w1 where w1: "handle_read ev pr fd buffer sz w = Some (Inr (Inl SysBlocked, w1))" "mem w1 = mem w"
    "kern w1 = (kern w)\<lparr>k_threads := (k_threads (kern w))(t \<mapsto> th\<lparr>t_state := Scheduling.Blocked\<rparr>)\<rparr>"
    "console_at (tw_mc w1) i n (rs @ [?c]) a" "mc_uarts (tw_mc w1) = mc_uarts (tw_mc w)"
    "mc_contexts (tw_mc w1) = (mc_contexts (tw_mc w))(?c \<mapsto> \<lparr>rc_pid = p_pid p, rc_tid = t_tid th\<rparr>)"
    "reads_console ev w1 pr t fd f i buffer b p"
    using handle_read_blocks [OF r c(1,2) th] by blast
  have ww: "waits (tw_mc w1) x (?wt x)" if "x \<in> set (rs @ [?c])" for x
    using blocked_waits [OF r th w1(3,6) _ that] old by blast
  have img: "?wt ` set (rs @ [?c]) = insert t (wt ` set rs)" using old by force
  show ?thesis
  proof (intro exI [of _ w1] conjI allI impI w1(1,2))
    show "k_threads (kern w1) t = Some (th\<lparr>t_state := Scheduling.Blocked\<rparr>)" by (simp add: w1(3))
    fix cs assume cs: "13 \<in> set cs \<and> length (ns_buffer n @ cs) < 2 ^ 32"
    obtain mc' line rest ls n' where m: "console_interrupts (length cs) i (receive a cs (tw_mc w1)) = Inr mc'" "console_at mc' i n' [] a"
      "ns_lines n' = line # ls" "ns_buffer n @ cs = line @ 13 # rest" "13 \<notin> set line"
      "mc_kernel mc' = wake (?wt ` set (rs @ [?c])) (mc_kernel (tw_mc w1))"
      using line_arrives [OF w1(4) c(2,3) _ _ ww] u w1(5) cs by metis
    have k: "mc_kernel mc' = wake (insert t (wt ` set rs)) (kern w1)" using m(6) unfolding img by (simp add: kern_def)
    have l: "length line < 2 ^ 32 - 1" using cs arg_cong [OF m(4), of length] by simp
    let ?w = "w1\<lparr>tw_mc := mc'\<rparr>"
    have s: "same_identities (kern w1) (kern ?w)" by (simp add: k same_identities_wake)
    have r': "reads_console ev ?w pr t fd f i buffer b p"
      using w1(7) by (intro reads_console_keep [OF w1(7) s]) (simp_all add: reads_console_def)
    have con: "console_at (tw_mc ?w) i n' [] a" using m(2) by simp
    obtain w3 where h: "handle_read ev pr fd buffer sz ?w = Some (Inr (Inr (line_count line sz), w3))"
      "mem w3 = write_bytes (mem ?w) b (take (unat (line_count line sz)) (line @ [0]))"
      using handle_read_gets_line [OF r' con m(3) l apart] by blast
    have me: "mem ?w = mem w" using s w1(2) by (simp add: same_identities_def mem_def)
    show "\<exists>mc' line rest w3. console_interrupts (length cs) i (receive a cs (tw_mc w1)) = Inr mc' \<and>
        mc_kernel mc' = wake (insert t (wt ` set rs)) (kern w1) \<and>
        ns_buffer n @ cs = line @ 13 # rest \<and> 13 \<notin> set line \<and>
        handle_read ev pr fd buffer sz (w1\<lparr>tw_mc := mc'\<rparr>) = Some (Inr (Inr (line_count line sz), w3)) \<and>
        unat (line_count line sz) = min (unat sz) (length line + 1) \<and>
        mem w3 = write_bytes (mem w) b (take (unat (line_count line sz)) (line @ [0]))"
      using h me by (intro exI [of _ mc'] exI [of _ line] exI [of _ rest] exI [of _ w3] conjI m(1,4,5) k line_count_small [OF l]) simp_all
  qed
qed

theorem blocked_read_resumes_witness:
  "\<exists>w1 mc' w3. handle_read small_env 0 0 0x100 8 small_world = Some (Inr (Inl SysBlocked, w1)) \<and>
     console_interrupts 3 0 (receive 0x10000000 [104, 105, 13] (tw_mc w1)) = Inr mc' \<and>
     handle_read small_env 0 0 0x100 8 (w1\<lparr>tw_mc := mc'\<rparr>) = Some (Inr (Inr 3, w3)) \<and>
     mem w3 = write_bytes small_memory 0x100 [104, 105, 0]"
proof -
  let ?n = "ns_new\<lparr>ns_device := Some 0\<rparr>"
  have r: "reads_console small_env small_world 0 0 0 (file_new 0 0) 0 0x100 0x100 (the (k_processes small_kernel 0))"
    using small_running small_thread small_translate
    by (auto simp: reads_console_def running_def user_get_def)
       (auto simp: small_kernel_def small_world_def small_env_def arr_rel_def file_new_def thread_new_def)
  have c: "console_at (tw_mc small_world) 0 ?n [] 0x10000000"
    by (simp add: console_at_def small_world_def small_machine_def console_device_new_def device_new_def)
  have u: "ur_received (mc_uarts (tw_mc small_world) 0x10000000) = []" "uart_open (mc_uarts (tw_mc small_world) 0x10000000)"
    by (simp_all add: small_world_def small_machine_def machine_new_def uart_open_def)
  have b: "ns_lines ?n = []" "13 \<notin> set (ns_buffer ?n)" by (simp_all add: ns_new_def)
  have th: "k_threads (kern small_world) 0 = Some (thread_new 0x9000 1 0)" by (simp add: small_kernel_def)
  have apart: "span (ev_tp small_env) 600 \<inter> span 0x100 (unat (8 :: u64)) = {}"
    by (auto simp: span_eq_range small_env_def)
  obtain w1 where w1: "handle_read small_env 0 0 0x100 8 small_world = Some (Inr (Inl SysBlocked, w1))"
    "\<forall>cs. 13 \<in> set cs \<and> length (ns_buffer ?n @ cs) < 2 ^ 32 \<longrightarrow>
      (\<exists>mc' line rest w3. console_interrupts (length cs) 0 (receive 0x10000000 cs (tw_mc w1)) = Inr mc' \<and>
        ns_buffer ?n @ cs = line @ 13 # rest \<and> 13 \<notin> set line \<and>
        handle_read small_env 0 0 0x100 8 (w1\<lparr>tw_mc := mc'\<rparr>) = Some (Inr (Inr (line_count line 8), w3)) \<and>
        mem w3 = write_bytes (mem small_world) 0x100 (take (unat (line_count line 8)) (line @ [0])))"
    using blocked_read_resumes [OF r th c b u _ apart, of "\<lambda>_. 0"] by auto blast
  have cs: "13 \<in> set [104, 105, 13 :: u8] \<and> length (ns_buffer ?n @ [104, 105, 13]) < 2 ^ 32" by (simp add: ns_new_def)
  obtain mc' line rest w3 where m: "console_interrupts (length [104, 105, 13 :: u8]) 0 (receive 0x10000000 [104, 105, 13] (tw_mc w1)) = Inr mc'"
    "ns_buffer ?n @ [104, 105, 13] = line @ 13 # rest" "13 \<notin> set line"
    "handle_read small_env 0 0 0x100 8 (w1\<lparr>tw_mc := mc'\<rparr>) = Some (Inr (Inr (line_count line 8), w3))"
    "mem w3 = write_bytes (mem small_world) 0x100 (take (unat (line_count line 8)) (line @ [0]))"
    using mp [OF spec [OF w1(2)] cs] by blast
  have l: "line = [104, 105]" using m(2,3) by (auto simp: ns_new_def Cons_eq_append_conv)
  have three: "length [104, 105, 13 :: u8] = 3" by simp
  have lc: "line_count [104, 105] 8 = 3" by (simp add: line_count_def)
  show ?thesis using w1(1) m(1) [unfolded three] m(4,5) unfolding l lc by (intro exI [of _ w1] exI [of _ mc'] exI [of _ w3]) simp
qed

end
