(* ===== verification/Programs.thy ===== *)
theory Programs
  imports BlockingReads
begin

text \<open>
  The console, the user program of \<^verbatim>\<open>Process/Console/Console.cpp\<close>: it reads lines and makes the system call a
  line names.  The program is modelled by the calls it makes, given what its calls of \<^verbatim>\<open>read\<close> return and
  store; \<^verbatim>\<open>strcmp\<close> runs on its buffer as a list of bytes.
\<close>

section \<open>\<^verbatim>\<open>strcmp\<close> on arrays\<close>

fun c_strcmp :: "u8 list \<Rightarrow> u8 list \<Rightarrow> int option" where
  "c_strcmp (x # xs) (y # ys) = (if x \<noteq> 0 \<and> y \<noteq> 0 \<and> x = y then c_strcmp xs ys else Some (uint x - uint y))"
| "c_strcmp _ _ = None"

lemma c_strcmp_memory:
  "c_strcmp xs ys = Some v \<Longrightarrow> \<forall>i < length xs. m (p + of_nat i) = xs ! i \<Longrightarrow> \<forall>i < length ys. m (q + of_nat i) = ys ! i \<Longrightarrow>
    strcmp m p q = Some v"
proof (induction xs ys arbitrary: p q rule: c_strcmp.induct)
  case (1 x xs y ys)
  have xy: "m p = x" "m q = y" using "1.prems"(2,3) [rule_format, of 0] by simp_all
  have rest: "\<forall>i < length xs. m (p + 1 + of_nat i) = xs ! i" "\<forall>i < length ys. m (q + 1 + of_nat i) = ys ! i"
    using "1.prems"(2) [rule_format, of "Suc i" for i] "1.prems"(3) [rule_format, of "Suc i" for i] by (simp_all add: add.assoc)
  show ?case
  proof (cases "x \<noteq> 0 \<and> y \<noteq> 0 \<and> x = y")
    case True
    then show ?thesis using "1.IH" [OF True _ rest] "1.prems"(1) xy by (subst strcmp.simps) simp
  next
    case False
    then show ?thesis using "1.prems"(1) xy by (subst strcmp.simps) auto
  qed
qed simp_all

section \<open>The console\<close>

datatype console_call = CallDbgln cstr | CallSys Syscalls

definition help_message :: cstr where
  "help_message =
     cchars ''Available commands:'' @
     [10] @
     cchars ''1. dmesg - Print the kernel log'' @
     [10] @
     cchars ''2. stats - Print the system stats'' @
     [10] @
     cchars ''3. excel - Print a message to Excel@FIT'' @
     [10] @
     cchars ''4. ls - List files in the / directory (FAT32)'' @
     [10] @
     cchars ''5. mem - Print memory statistics'' @
     [10] @
     cchars ''6. help - Show this help message'' @
     [10]"

definition print_help :: console_call where
  "print_help = CallDbgln help_message"

definition unknown_command :: cstr where
  "unknown_command = cchars ''Unknown command. Try help to see the list of commands.''"

definition literal :: "string \<Rightarrow> u8 list" where
  "literal s = cchars s @ [0]"

text \<open>The chain of comparisons; a comparison that leaves the buffer is \<^verbatim>\<open>None\<close>.\<close>

definition console_command :: "u8 list \<Rightarrow> console_call option" where
  "console_command buffer =
     Option.bind (c_strcmp buffer (literal ''dmesg'')) (\<lambda>d. if d = 0 then Some (CallSys SysDmesg) else
     Option.bind (c_strcmp buffer (literal ''stats'')) (\<lambda>d. if d = 0 then Some (CallSys SysStats) else
     Option.bind (c_strcmp buffer (literal ''excel'')) (\<lambda>d. if d = 0 then Some (CallDbgln (cchars ''Hi, Excel@FIT!'')) else
     Option.bind (c_strcmp buffer (literal ''ls'')) (\<lambda>d. if d = 0 then Some (CallSys SysLs) else
     Option.bind (c_strcmp buffer (literal ''mem'')) (\<lambda>d. if d = 0 then Some (CallSys SysMem) else
     Option.bind (c_strcmp buffer (literal ''help'')) (\<lambda>d. if d = 0 then Some print_help else Some (CallDbgln unknown_command)))))))"

definition matte_os_logo :: cstr where
  "matte_os_logo =
     cchars ''MMMMMMMM               MMMMMMMM                          tttt               tttt                                   OOOOOOOOO        SSSSSSSSSSSSSSS '' @
     [10] @
     cchars ''M:::::::M             M:::::::M                       ttt:::t            ttt:::t                                 OO:::::::::OO    SS:::::::::::::::S'' @
     [10] @
     cchars ''M::::::::M           M::::::::M                       t:::::t            t:::::t                               OO:::::::::::::OO S:::::SSSSSS::::::S'' @
     [10] @
     cchars ''M:::::::::M         M:::::::::M                       t:::::t            t:::::t                              O:::::::OOO:::::::OS:::::S     SSSSSSS'' @
     [10] @
     cchars ''M::::::::::M       M::::::::::M  aaaaaaaaaaaaa  ttttttt:::::tttttttttttttt:::::ttttttt        eeeeeeeeeeee    O::::::O   O::::::OS:::::S            '' @
     [10] @
     cchars ''M:::::::::::M     M:::::::::::M  a::::::::::::a t:::::::::::::::::tt:::::::::::::::::t      ee::::::::::::ee  O:::::O     O:::::OS:::::S            '' @
     [10] @
     cchars ''M:::::::M::::M   M::::M:::::::M  aaaaaaaaa:::::at:::::::::::::::::tt:::::::::::::::::t     e::::::eeeee:::::eeO:::::O     O:::::O S::::SSSS         '' @
     [10] @
     cchars ''M::::::M M::::M M::::M M::::::M           a::::atttttt:::::::tttttttttttt:::::::tttttt    e::::::e     e:::::eO:::::O     O:::::O  SS::::::SSSSS    '' @
     [10] @
     cchars ''M::::::M  M::::M::::M  M::::::M    aaaaaaa:::::a      t:::::t            t:::::t          e:::::::eeeee::::::eO:::::O     O:::::O    SSS::::::::SS  '' @
     [10] @
     cchars ''M::::::M   M:::::::M   M::::::M  aa::::::::::::a      t:::::t            t:::::t          e:::::::::::::::::e O:::::O     O:::::O       SSSSSS::::S '' @
     [10] @
     cchars ''M::::::M    M:::::M    M::::::M a::::aaaa::::::a      t:::::t            t:::::t          e::::::eeeeeeeeeee  O:::::O     O:::::O            S:::::S'' @
     [10] @
     cchars ''M::::::M     MMMMM     M::::::Ma::::a    a:::::a      t:::::t    tttttt  t:::::t    tttttte:::::::e           O::::::O   O::::::O            S:::::S'' @
     [10] @
     cchars ''M::::::M               M::::::Ma::::a    a:::::a      t::::::tttt:::::t  t::::::tttt:::::te::::::::e          O:::::::OOO:::::::OSSSSSSS     S:::::S'' @
     [10] @
     cchars ''M::::::M               M::::::Ma:::::aaaa::::::a      tt::::::::::::::t  tt::::::::::::::t e::::::::eeeeeeee   OO:::::::::::::OO S::::::SSSSSS:::::S'' @
     [10] @
     cchars ''M::::::M               M::::::M a::::::::::aa:::a       tt:::::::::::tt    tt:::::::::::tt  ee:::::::::::::e     OO:::::::::OO   S:::::::::::::::SS '' @
     [10] @
     cchars ''MMMMMMMM               MMMMMMMM  aaaaaaaaaa  aaaa         ttttttttttt        ttttttttttt      eeeeeeeeeeeeee       OOOOOOOOO      SSSSSSSSSSSSSSS'' @
     [10]"

definition CONSOLE_BUFFER_SIZE :: nat where
  "CONSOLE_BUFFER_SIZE = 512"

definition clear_buffer :: "u8 list" where
  "clear_buffer = replicate CONSOLE_BUFFER_SIZE 0"

text \<open>
  The endless loop, for as many reads as are given: each a result and the bytes stored at the start of the
  buffer.  The result is compared as an unsigned number.
\<close>

fun console_loop :: "(u64 \<times> u8 list) list \<Rightarrow> u8 list \<Rightarrow> console_call list option" where
  "console_loop [] buffer = Some []"
| "console_loop ((result, bytes) # reads) buffer =
     (let buffer = bytes @ drop (length bytes) buffer in
      Option.bind (if result > 0 then map_option (\<lambda>c. [c]) (console_command buffer) else Some []) (\<lambda>calls.
      map_option (\<lambda>later. calls @ later) (console_loop reads clear_buffer)))"

definition console_main :: "u64 \<Rightarrow> (u64 \<times> u8 list) list \<Rightarrow> console_call list option" where
  "console_main open_result reads =
     (let fd = ucast open_result :: u32 in
      if sint fd < 0 then Some [CallDbgln (cchars ''Couldn'' @ [39] @ cchars ''t open the tty.'')]
      else map_option (\<lambda>calls. CallDbgln matte_os_logo # calls) (console_loop reads clear_buffer))"

section \<open>Lines and their replies\<close>

definition reply :: "cstr \<Rightarrow> console_call" where
  "reply line =
     (if line = cchars ''dmesg'' then CallSys SysDmesg else if line = cchars ''stats'' then CallSys SysStats
      else if line = cchars ''excel'' then CallDbgln (cchars ''Hi, Excel@FIT!'') else if line = cchars ''ls'' then CallSys SysLs
      else if line = cchars ''mem'' then CallSys SysMem else if line = cchars ''help'' then print_help
      else CallDbgln unknown_command)"

text \<open>What the kernel's \<^verbatim>\<open>read\<close> gives for a line, as proved for \<^theory_text>\<open>handle_read\<close>, and for an error.\<close>

definition read_result :: "cstr option \<Rightarrow> u64 \<times> u8 list" where
  "read_result r = (case r of None \<Rightarrow> (- 1, []) | Some line \<Rightarrow> (line_count line 512, take (unat (line_count line 512)) (line @ [0])))"

lemma c_strcmp_word:
  "0 \<notin> set w \<Longrightarrow> length w < length b \<Longrightarrow> \<exists>v. c_strcmp b (w @ [0]) = Some v \<and> (v = 0 \<longleftrightarrow> take (length w + 1) b = w @ [0])"
proof (induction w arbitrary: b)
  case Nil
  then show ?case by (cases b) (auto simp: word_uint_eq_iff)
next
  case (Cons y w)
  then obtain x xs where b: "b = x # xs" "length w < length xs" by (cases b) auto
  then show ?case using Cons.IH [of xs] Cons.prems(1) by (auto simp: word_uint_eq_iff)
qed

lemma prefix_of_line:
  assumes "0 \<notin> set line" "0 \<notin> set w" "length w < 512"
  shows "take (length w + 1) (take 512 (line @ replicate 512 0)) = w @ [0 :: u8] \<longleftrightarrow> line = w"
proof -
  have t: "take (length w + 1) (take 512 (line @ replicate 512 0)) = take (length w + 1) (line @ replicate 512 (0 :: u8))"
    unfolding take_take using assms(3) by (simp only: min_absorb1)
  show ?thesis
  proof (cases "length w + 1 \<le> length line")
    case True
    have "0 \<notin> set (take (length w + 1) line)" using assms(1) by (meson in_set_takeD)
    moreover have "0 \<in> set (w @ [0 :: u8])" by simp
    ultimately show ?thesis unfolding t using True by auto
  next
    case False
    let ?k = "length w - length line"
    have "take (length w + 1) (line @ replicate 512 (0 :: u8)) = line @ replicate ?k 0 @ [0]"
    proof -
      have "length w - length line \<le> 511" "length w + 1 - length line = Suc ?k" using False assms(3) by simp_all
      then show ?thesis using False by (simp flip: replicate_append_same)
    qed
    then show ?thesis unfolding t using assms(2) False by (cases ?k) auto
  qed
qed

lemma command_reply:
  assumes "0 \<notin> set line"
  shows "console_command (take 512 (line @ replicate 512 0)) = Some (reply line)"
proof -
  let ?b = "take 512 (line @ replicate 512 0) :: u8 list"
  have w: "Option.bind (c_strcmp ?b (literal s)) (\<lambda>d. if d = 0 then x else y) = (if line = cchars s then x else y)"
    if "s \<in> {''dmesg'', ''stats'', ''excel'', ''ls'', ''mem'', ''help''}" for s and x y :: "console_call option"
  proof -
    have s: "0 \<notin> set (cchars s)" "length (cchars s) < 512" using that by (auto simp: cchars_def)
    have "length (cchars s) < length ?b" using s(2) by simp
    then show ?thesis using c_strcmp_word [OF s(1), of ?b] prefix_of_line [OF assms s] by (auto simp: literal_def)
  qed
  note compare = w [of "''dmesg''"] w [of "''stats''"] w [of "''excel''"] w [of "''ls''"] w [of "''mem''"] w [of "''help''"]
  show ?thesis unfolding console_command_def reply_def by (simp add: compare del: take_append)
qed

lemma buffer_of_line:
  assumes "length line < 2 ^ 32 - 1"
  shows "(let bytes = snd (read_result (Some line)) in bytes @ drop (length bytes) clear_buffer) = take 512 (line @ replicate 512 0)"
    "fst (read_result (Some line)) > 0"
proof -
  have n: "unat (line_count line 512) = min 512 (length line + 1)" using line_count_small [OF assms, of 512] by simp
  show "fst (read_result (Some line)) > 0" using n by (simp add: read_result_def word_less_nat_alt)
  show "(let bytes = snd (read_result (Some line)) in bytes @ drop (length bytes) clear_buffer) = take 512 (line @ replicate 512 0)"
  proof (cases "length line < 512")
    case True
    have "replicate (512 - length line) (0 :: u8) = 0 # replicate (511 - length line) 0"
    proof -
      have "512 - length line = Suc (511 - length line)" using True by simp
      then show ?thesis by simp
    qed
    then show ?thesis using n True by (simp add: read_result_def clear_buffer_def CONSOLE_BUFFER_SIZE_def min_def Let_def)
  next
    case False
    then show ?thesis using n by (simp add: read_result_def clear_buffer_def CONSOLE_BUFFER_SIZE_def Let_def)
  qed
qed

text \<open>
  C40. The console and the reads it makes.  For every sequence of reads, each of a line without a zero byte that the kernel
  delivers as far as it fits, the console makes exactly one call per line: the one its table names for a
  line that is a command, and otherwise the message about an unknown command, also for lines longer than
  its buffer.  A read that fails returns \<^verbatim>\<open>-1\<close>, which is not recognised as an error: it is
  answered like an empty line.  If the console cannot be opened, the program says so and reads nothing.
\<close>

theorem console_replies:
  assumes "\<forall>line. Some line \<in> set rs \<longrightarrow> 0 \<notin> set line \<and> length line < 2 ^ 32 - 1"
  shows "console_loop (map read_result rs) clear_buffer = Some (map (\<lambda>r. case r of None \<Rightarrow> reply [] | Some line \<Rightarrow> reply line) rs) \<and>
    console_main fd (map read_result rs) = Some (if sint (ucast fd :: u32) < 0 then [CallDbgln (cchars ''Couldn'' @ [39] @ cchars ''t open the tty.'')]
      else CallDbgln matte_os_logo # map (\<lambda>r. case r of None \<Rightarrow> reply [] | Some line \<Rightarrow> reply line) rs) \<and>
    (\<forall>line. 0 \<notin> set line \<longrightarrow> (reply line = CallDbgln unknown_command \<longleftrightarrow>
      line \<notin> cchars ` {''dmesg'', ''stats'', ''excel'', ''ls'', ''mem'', ''help''}))"
proof -
  have loop: "console_loop (map read_result rs) clear_buffer = Some (map (\<lambda>r. case r of None \<Rightarrow> reply [] | Some line \<Rightarrow> reply line) rs)"
    using assms
  proof (induction rs)
    case (Cons r rs)
    then have IH: "console_loop (map read_result rs) clear_buffer = Some (map (\<lambda>r. case r of None \<Rightarrow> reply [] | Some line \<Rightarrow> reply line) rs)"
      by simp
    show ?case
    proof (cases r)
      case None
      have "console_command clear_buffer = Some (reply [])"
        using command_reply [of "[]"] by (simp add: clear_buffer_def CONSOLE_BUFFER_SIZE_def)
      moreover have "read_result None = (- 1, [])" "(0 :: u64) < - 1" by (simp_all add: read_result_def word_gt_0)
      ultimately show ?thesis using IH None by simp
    next
      case (Some line)
      then have l: "0 \<notin> set line" "length line < 2 ^ 32 - 1" using Cons.prems by auto
      obtain v bytes where v: "read_result (Some line) = (v, bytes)" by fastforce
      have "v > 0" "bytes @ drop (length bytes) clear_buffer = take 512 (line @ replicate 512 0)"
        using buffer_of_line [OF l(2)] v by (simp_all add: Let_def del: take_append)
      then show ?thesis using IH command_reply [OF l(1)] by (simp add: Some v del: take_append)
    qed
  qed simp
  have texts: "help_message \<noteq> unknown_command" "cchars ''Hi, Excel@FIT!'' \<noteq> unknown_command"
    by (simp_all add: help_message_def unknown_command_def cchars_def)
  have "reply line = CallDbgln unknown_command \<longleftrightarrow> line \<notin> cchars ` {''dmesg'', ''stats'', ''excel'', ''ls'', ''mem'', ''help''}" for line
    using texts by (auto simp: reply_def print_help_def)
  then show ?thesis using loop by (simp add: console_main_def Let_def)
qed

theorem console_replies_witness:
  "console_main 3 (map read_result [Some (cchars ''ls''), None, Some (cchars ''mem'')]) =
     Some [CallDbgln matte_os_logo, CallSys SysLs, CallDbgln unknown_command, CallSys SysMem]"
proof -
  have h: "\<forall>line. Some line \<in> set [Some (cchars ''ls''), None, Some (cchars ''mem'')] \<longrightarrow> 0 \<notin> set line \<and> length line < 2 ^ 32 - 1"
    by (simp add: cchars_def)
  have f: "\<not> sint (ucast (3 :: u64) :: u32) < 0" by simp
  have r: "reply (cchars ''ls'') = CallSys SysLs" "reply [] = CallDbgln unknown_command" "reply (cchars ''mem'') = CallSys SysMem"
    by (simp_all add: reply_def cchars_def)
  show ?thesis using conjunct1 [OF conjunct2 [OF console_replies [OF h, of 3]]] f by (simp add: r)
qed

end
