(* ===== verification/Spec2Isabelle.thy ===== *)
theory Spec2Isabelle
  imports PageTables KernelHeap Boot ProcessSpaces Queues RefCounting Scheduling Formatting FileSystems Fat DeviceTrees Loader VirtIO Devices DeviceManagers DeviceTyping Consoles Plics Traps Loggers ContextSwitch BlockingReads Programs
begin

text \<open>
  MatteOS, a small RISC-V kernel in C++, modelled from its sources under \<^verbatim>\<open>src/src\<close>.  Everything here is a shallow
  embedding: a function of the source is a HOL function of the same name (with a prefix where the name occurs in several
  classes), a class or struct is a record, an enum a datatype, an integer a word of its width.

  The program.  On boot the kernel sets up the page allocator, its page table and its heap, finds
  devices in the device tree, loads their drivers, mounts a FAT32 file system, creates processes and starts the
  scheduler.  From then on it runs only in traps: the assembly of \<^verbatim>\<open>trap.S\<close> saves the interrupted thread in its trap
  frame and calls \<^verbatim>\<open>handle_interrupt\<close>, which serves a system call, a device interrupt or the timer and
  returns the frame of the thread to continue.  The one program of interest is the console, which reads lines from the
  UART and makes the system call a line names.

  How failure is modelled.  \<^verbatim>\<open>exec\<close> (Prelude) is a sum: \<^verbatim>\<open>Inl\<close> a fault of C++ (null or dangling pointer, access out of
  bounds, failed assertion, bad cast, division by zero), \<^verbatim>\<open>Inr\<close> the result.  \<^verbatim>\<open>error_or\<close> inside it is the kernel's own
  \<^verbatim>\<open>ErrorOr\<close>.  \<^verbatim>\<open>run\<close> (ErrorOr) is an option of \<^verbatim>\<open>exec\<close>: None says that a loop does not end.  Such loops are
  \<^verbatim>\<open>partial_function\<close>s; the properties about them say that they return, or that they do not.  No definition takes
  fuel; the endless loop of the console runs for as many reads as are given.

  Foundations.
  Prelude: word types, faults, counting loops, little-endian bytes.  PhysMem: the byte memory and \<^verbatim>\<open>Utils/Memory.cpp\<close>.
  Loops: counting loops that fail or return early, and the locale \<^verbatim>\<open>indexed\<close>, the contract of a container
  read by index, interpreted for ArrayList (ArrayLists) and Array (Buffers).  AllocatorSpec: the
  locale \<^verbatim>\<open>block_allocator\<close>, the contract of an allocator with any number of clients, interpreted for the page
  allocator (PageAlloc) and the heap (KernelHeap); its client lemma says that the blocks of the clients stay apart and
  keep their contents.  Queues: the locale \<^verbatim>\<open>fifo_queue\<close>, interpreted for LinkedQueue, on which the scheduler's
  round robin rests.

  Memory.
  PageAlloc: \<^verbatim>\<open>Memory/MemoryManager.cpp\<close> (init, alloc, zalloc, dealloc, statistics) and \<^verbatim>\<open>Page.cpp\<close> over the descriptor bytes;
  \<^verbatim>\<open>page_rel\<close> says which blocks are taken and nothing of the memory behind the descriptors, which the search of \<^verbatim>\<open>alloc\<close> also reads: when no run
  inside the managed pages is free, what is returned depends on it.  \<^verbatim>\<open>request_fits\<close> and \<^verbatim>\<open>page_request_ok\<close> say which requests are
  answered from the managed pages; for those allocation is first fit, and freeing gives back exactly the block.
  PageTables: entries, \<^verbatim>\<open>map\<close>, \<^verbatim>\<open>map_range\<close>, \<^verbatim>\<open>identity_map_range\<close>, \<^verbatim>\<open>translate\<close>, \<^verbatim>\<open>satp\<close>; \<^verbatim>\<open>pt_inv\<close> is the well-formed tree of tables,
  \<^verbatim>\<open>demand\<close> counts the pages a mapping needs, and the properties relate mapping and translation.  \<^verbatim>\<open>mapped\<close> is the address a page goes to,
  \<^verbatim>\<open>access\<close> the permission bits of its entry.
  KernelHeap: \<^verbatim>\<open>Memory/KernelMemoryAllocator.cpp\<close>; \<^verbatim>\<open>heap_inv\<close> gives the chunks in memory, \<^verbatim>\<open>kmalloc\<close> and \<^verbatim>\<open>kfree\<close> refine first fit
  and merging on them.  The search goes on behind the heap when no chunk fits (\<^verbatim>\<open>heap_has_room\<close>), and then hands out the memory there.
  Boot: \<^verbatim>\<open>init_memory\<close> of \<^verbatim>\<open>Init.cpp\<close>: where every page of the kernel goes when paging is switched on, and that the kernel may execute, read and
  write there what it needs.
  ProcessSpaces: the address space, trap frame and stack that \<^verbatim>\<open>create_dummy_process\<close> makes, over the memory of Boot; what ContextSwitch
  assumes of a thread that waits (its frame is mapped at the alias and holds its context) holds for a new one.

  Library.
  ErrorOr (\<^verbatim>\<open>Errors/ErrorOr.h\<close>, \<^verbatim>\<open>Optional.h\<close>), RefCounting (\<^verbatim>\<open>Pointers\<close>: the counters are exact in every reachable state), ArrayLists,
  LinkedLists, Queues, HashMaps (\<^verbatim>\<open>Maps/HashMap.h\<close>, \<^verbatim>\<open>Hashing\<close>), Buffers (\<^verbatim>\<open>Array.h\<close>, \<^verbatim>\<open>CircularStringBuffer.cpp\<close>), Strings (\<^verbatim>\<open>Strings\<close>,
  \<^verbatim>\<open>Basic.cpp\<close>; strings refine texts, numbers are printed and read back), Formatting (\<^verbatim>\<open>StringBuilder.cpp\<close>, \<^verbatim>\<open>Formatter.h\<close>), Endian.
  Each has an abstraction (a list, a map, a text) and shows that the operations are those of the abstraction, with the
  inputs on which they are not.  The slots of an ArrayList know whether they hold an object, so that the use of a destroyed element, as in
  \<^verbatim>\<open>remove\<close>, is a fault.

  Processes and traps.
  Scheduling: \<^verbatim>\<open>Process/Scheduler.cpp\<close>, \<^verbatim>\<open>ProcessManager.cpp\<close>, \<^verbatim>\<open>Process.h\<close>, \<^verbatim>\<open>Thread.h\<close>, \<^verbatim>\<open>TrapFrame.h\<close>; the scheduler takes the next
  thread that can run, and each gets its turn.
  Traps: \<^verbatim>\<open>Interrupts.cpp\<close>, \<^verbatim>\<open>SyscallManager.cpp\<close> and the handlers of \<^verbatim>\<open>Syscalls\<close>, on a state that joins devices, kernel,
  descriptor tables, interrupt controller and timer.  TrapProperties: what a system call does to its frame.
  ContextSwitch: \<^verbatim>\<open>trap.S\<close> as lists of instructions, run on a hart; the registers of the threads survive traps and
  switches.  BlockingReads: a read of the console from the call that blocks to the one that returns.
  Programs: the console program.

  Devices.
  VirtIO: \<^verbatim>\<open>MMIODevice.h\<close>, \<^verbatim>\<open>VirtQueue.h\<close>, \<^verbatim>\<open>Device.cpp\<close>, \<^verbatim>\<open>BlockIODriver.cpp\<close>, \<^verbatim>\<open>BlockDevice.cpp\<close>; the rings hold the requests in flight, and all
  are completed.  Devices, DeviceManagers: device objects, the UART driver, the console and the two managers.
  DeviceTyping: no object is cast to a class it does not have.  Consoles: lines from the UART to waiting threads.
  Plics: interrupt controller, interrupt manager, timer, harts.  Loggers: \<^verbatim>\<open>Logger.cpp\<close> and \<^verbatim>\<open>DebugConsole.cpp\<close>.

  Files and formats.
  ByteViews: fields of packed structures.  FileTables: descriptor tables, open files, modes, requests.
  FileSystems: path resolution, mounts, the RAM file system.  Fat: FAT32 on a cached block device; \<^verbatim>\<open>fat_byte\<close> and \<^verbatim>\<open>dir_items\<close>
  say what the device holds, following the format and not the code.  DeviceTrees: the flattened device tree and its look-ups.  Loader: \<^verbatim>\<open>Process/Loader\<close>.

  Bounds.  A run of \<^verbatim>\<open>k\<close> free pages exists for certain when the memory has \<^verbatim>\<open>k\<close> times as many pages as are in use, and one more run.  The kernel heap
  takes 64 pages and a stack two, so Boot asks for 64 times the tables of the mapping and ProcessSpaces for twice the pages used.  Lengths and counts are below the
  powers of two that keep a word or an \<^verbatim>\<open>int\<close> argument from wrapping, and each property says which.

  What the model takes as arguments: a device behind registers is a function of the accesses made to it so far; the
  UART follows the data sheet of the 16550; a block device is its contents; the hart's translation of addresses in
  ContextSwitch is the argument \<^verbatim>\<open>mmu\<close>; the file systems seen by the system calls are functions of the environment, and the
  theories above model their implementations; the linker's symbols are the record \<^verbatim>\<open>Linker\<close>; \<^verbatim>\<open>get_section_header\<close>, which has
  no body in the repository, is an argument of the loader.

  Not modelled.  Allocation with \<^verbatim>\<open>new\<close> is taken to succeed and yields a fresh object (the heap itself is KernelHeap).
  Messages for diagnosis are left out where they have no effect on the state.  The order in which \<^verbatim>\<open>kmain\<close> calls the
  components' initialisation is not repeated, as the components have states of their own.  SBI calls and CSR
  accesses are one instruction each; what they carry is an argument or recorded.  \<^verbatim>\<open>ELFDefs.h\<close> is a copy of constants.
  Variant, Traits, Callable, the C++ runtime hooks, the virtual memory objects, the driver interfaces and the user-land stubs have
  no behaviour of their own or are not used.  Operations that only return "Not implemented" have nothing to prove.
  Interrupts arrive between the steps of user programs, as the kernel runs with interrupts off; there is one hart.
\<close>

end
